(* ===== verification/Prelude.thy ===== *)
theory Prelude
  imports Main "HOL-Library.Word" "HOL-Library.Multiset"
begin

text \<open>
  Shared vocabulary of the development: the outcome type of C code (a value, or the reason
  why the code stops or leaves defined behaviour), heap arrays whose cells may be
  uninitialised, C remainder and C integer arithmetic with their failure cases, and the
  list lemmas about ring indices that the container theories use.
\<close>

section \<open>Outcomes of C code\<close>

text \<open>
  \<open>AssertFail\<close> is a failed \<open>assert\<close>, \<open>FatalError\<close> a call of \<open>SNetUtilDebugFatal\<close> or of
  \<open>exit(1)\<close>; the other constructors are undefined behaviour of C that the model detects:
  an access outside an allocated block, a read of an uninitialised cell, a dereference of
  NULL, a division by zero, a signed overflow, a read of a union member that is not the
  one stored and (\<open>UseAfterFree\<close>) the use of a block after it was freed. \<open>NoProgress\<close> is a thread that waits for another one, or loops, for ever.
\<close>

datatype c_error =
    OutOfBounds
  | UninitRead
  | NullDeref
  | DivByZero
  | SignedOverflow
  | AssertFail
  | FatalError
  | BadUnion
  | NoProgress
  | UseAfterFree

datatype 'a res = Err c_error | Ok 'a

fun bindR :: "'a res \<Rightarrow> ('a \<Rightarrow> 'b res) \<Rightarrow> 'b res" where
  "bindR (Err e) f = Err e"
| "bindR (Ok x) f = f x"

definition assertR :: "bool \<Rightarrow> unit res" where
  "assertR b = (if b then Ok () else Err AssertFail)"

definition is_Ok :: "'a res \<Rightarrow> bool" where
  "is_Ok r = (case r of Ok _ \<Rightarrow> True | Err _ \<Rightarrow> False)"

fun the_res :: "'a res \<Rightarrow> 'a" where
  "the_res (Ok x) = x"
| "the_res (Err _) = undefined"

lemma bindR_eq_Ok [simp]: "bindR m f = Ok y \<longleftrightarrow> (\<exists>x. m = Ok x \<and> f x = Ok y)"
  by (cases m) auto

lemma bindR_Ok_right [simp]: "bindR m Ok = m"
  by (cases m) auto

lemma bindR_assoc: "bindR (bindR m f) g = bindR m (\<lambda>x. bindR (f x) g)"
  by (cases m) auto

lemma assertR_simps [simp]:
  "assertR True = Ok ()"
  "assertR False = Err AssertFail"
  "assertR b = Ok u \<longleftrightarrow> b"
  "assertR b = Err e \<longleftrightarrow> \<not> b \<and> e = AssertFail"
  by (auto simp: assertR_def)

lemma bindR_assertR [simp]: "bindR (assertR b) f = (if b then f () else Err AssertFail)"
  by (simp add: assertR_def)

lemma is_Ok_simps [simp]: "is_Ok (Ok x)" "\<not> is_Ok (Err e)"
  by (auto simp: is_Ok_def)

lemma is_Ok_iff: "is_Ok r \<longleftrightarrow> (\<exists>x. r = Ok x)"
  by (cases r) auto

text \<open>A loop that stops at the first failing iteration, and one that collects results.\<close>

fun foldR :: "('s \<Rightarrow> 'a \<Rightarrow> 's res) \<Rightarrow> 's \<Rightarrow> 'a list \<Rightarrow> 's res" where
  "foldR f s [] = Ok s"
| "foldR f s (x # xs) = bindR (f s x) (\<lambda>s'. foldR f s' xs)"

fun mapR :: "('a \<Rightarrow> 'b res) \<Rightarrow> 'a list \<Rightarrow> 'b list res" where
  "mapR f [] = Ok []"
| "mapR f (x # xs) = bindR (f x) (\<lambda>y. bindR (mapR f xs) (\<lambda>ys. Ok (y # ys)))"

lemma foldR_append: "foldR f s (xs @ ys) = bindR (foldR f s xs) (\<lambda>s'. foldR f s' ys)"
  by (induction xs arbitrary: s) (auto simp: bindR_assoc)

lemma foldR_invariant:
  assumes "foldR f s xs = Ok s'" and "I s"
    and "\<And>s x s'. x \<in> set xs \<Longrightarrow> I s \<Longrightarrow> f s x = Ok s' \<Longrightarrow> I s'"
  shows "I s'"
  using assms
proof (induction xs arbitrary: s)
  case Nil
  then show ?case by simp
next
  case (Cons x xs)
  from Cons.prems(1) obtain t where t: "f s x = Ok t" and rest: "foldR f t xs = Ok s'"
    by auto
  have "I t" by (rule Cons.prems(3)[OF _ Cons.prems(2) t]) simp
  with rest show ?case
    by (rule Cons.IH) (rule Cons.prems(3), simp_all)
qed

lemma foldR_Ok_if:
  assumes "I s" and "\<And>s x. x \<in> set xs \<Longrightarrow> I s \<Longrightarrow> \<exists>s'. f s x = Ok s' \<and> I s'"
  shows "\<exists>s'. foldR f s xs = Ok s' \<and> I s'"
  using assms
proof (induction xs arbitrary: s)
  case Nil
  then show ?case by simp
next
  case (Cons x xs)
  obtain t where t: "f s x = Ok t" "I t"
    using Cons.prems(2)[of x s] Cons.prems(1) by auto
  have "\<exists>s'. foldR f t xs = Ok s' \<and> I s'"
    by (rule Cons.IH[OF t(2)], rule Cons.prems(2)) simp_all
  with t(1) show ?case by simp
qed

lemma foldR_pure: "(\<And>s x. x \<in> set xs \<Longrightarrow> f s x = Ok (g s x)) \<Longrightarrow> foldR f s xs = Ok (foldl g s xs)"
  by (induction xs arbitrary: s) auto

lemma mapR_Ok: "(\<And>x. x \<in> set xs \<Longrightarrow> f x = Ok (g x)) \<Longrightarrow> mapR f xs = Ok (map g xs)"
  by (induction xs) auto

text \<open>A body repeated a fixed number of times.\<close>

fun iterR :: "nat \<Rightarrow> ('s \<Rightarrow> 's res) \<Rightarrow> 's \<Rightarrow> 's res" where
  "iterR 0 f s = Ok s"
| "iterR (Suc n) f s = bindR (f s) (iterR n f)"

lemma bindR_map_res: "bindR (map_res f r) g = bindR r (\<lambda>x. g (f x))"
  by (cases r) simp_all

lemma map_res_bindR: "map_res f (bindR r g) = bindR r (\<lambda>x. map_res f (g x))"
  by (cases r) simp_all

section \<open>Heap arrays\<close>

text \<open>
  A block of \<open>n\<close> cells as \<open>SNetMemAlloc\<close> returns it: \<open>None\<close> is an uninitialised cell.
  The allocator either returns a block or ends the program (\<open>SNetMemFailed\<close>), so allocation
  has no failure case; the length of the list is the size of the block, which no C code can
  read but every access is checked against.
\<close>

type_synonym 'a arr = "'a option list"

definition arr_alloc :: "nat \<Rightarrow> 'a arr" where
  "arr_alloc n = replicate n None"

definition arr_read :: "'a arr \<Rightarrow> nat \<Rightarrow> 'a res" where
  "arr_read a i =
     (if i < length a then (case a ! i of None \<Rightarrow> Err UninitRead | Some v \<Rightarrow> Ok v)
      else Err OutOfBounds)"

definition arr_write :: "'a arr \<Rightarrow> nat \<Rightarrow> 'a \<Rightarrow> 'a arr res" where
  "arr_write a i v = (if i < length a then Ok (a[i := Some v]) else Err OutOfBounds)"

text \<open>\<open>memcpy(dst + d, src + s, n)\<close> between two different blocks.\<close>

definition mem_cpy :: "'a arr \<Rightarrow> nat \<Rightarrow> 'a arr \<Rightarrow> nat \<Rightarrow> nat \<Rightarrow> 'a arr res" where
  "mem_cpy dst d src s n =
     (if d + n \<le> length dst \<and> s + n \<le> length src
      then Ok (take d dst @ take n (drop s src) @ drop (d + n) dst)
      else Err OutOfBounds)"

text \<open>\<open>memset(dst + d, v, n)\<close> cell by cell.\<close>

definition mem_set :: "'a arr \<Rightarrow> nat \<Rightarrow> 'a \<Rightarrow> nat \<Rightarrow> 'a arr res" where
  "mem_set dst d v n =
     (if d + n \<le> length dst
      then Ok (take d dst @ replicate n (Some v) @ drop (d + n) dst)
      else Err OutOfBounds)"

lemma length_arr_alloc [simp]: "length (arr_alloc n) = n"
  by (simp add: arr_alloc_def)

lemma arr_read_Ok [simp]: "arr_read a i = Ok v \<longleftrightarrow> i < length a \<and> a ! i = Some v"
  by (auto simp: arr_read_def split: option.splits)

lemma arr_write_Ok [simp]: "arr_write a i v = Ok b \<longleftrightarrow> i < length a \<and> b = a[i := Some v]"
  by (auto simp: arr_write_def)

lemma arr_read_Some: "i < length a \<Longrightarrow> a ! i = Some v \<Longrightarrow> arr_read a i = Ok v"
  by simp

lemma arr_write_in: "i < length a \<Longrightarrow> arr_write a i v = Ok (a[i := Some v])"
  by simp

lemma mem_cpy_Ok [simp]:
  "mem_cpy dst d src s n = Ok b \<longleftrightarrow>
     d + n \<le> length dst \<and> s + n \<le> length src \<and>
     b = take d dst @ take n (drop s src) @ drop (d + n) dst"
  by (auto simp: mem_cpy_def)

text \<open>Copying behind a filled prefix of a fresh block.\<close>

lemma mem_cpy_fill:
  assumes "k \<le> n" and "s + k \<le> length src" and "d = length pre"
  shows "mem_cpy (pre @ arr_alloc n) d src s k = Ok (pre @ take k (drop s src) @ arr_alloc (n - k))"
  using assms by (simp add: arr_alloc_def)

lemma mem_cpy_grow: "length a = n \<Longrightarrow> mem_cpy (arr_alloc (n + 1)) 0 a 0 n = Ok (a @ [None])"
  using mem_cpy_fill[of n "n + 1" 0 a 0 "[]"] by (simp add: arr_alloc_def)

text \<open>Every cell of an initialised array can be read.\<close>

definition arr_init :: "'a arr \<Rightarrow> bool" where
  "arr_init a = list_all (\<lambda>c. c \<noteq> None) a"

lemma arr_init_nth: "arr_init a \<Longrightarrow> i < length a \<Longrightarrow> \<exists>v. a ! i = Some v"
  by (auto simp: arr_init_def list_all_length)

lemma arr_init_read: "arr_init a \<Longrightarrow> i < length a \<Longrightarrow> arr_read a i = Ok (the (a ! i))"
  using arr_init_nth by fastforce

lemma arr_init_map_Some [simp]: "arr_init (map Some xs)"
  by (simp add: arr_init_def list_all_iff)

lemma arr_init_update [simp]: "arr_init a \<Longrightarrow> arr_init (a[i := Some v])"
  by (auto simp: arr_init_def list_all_iff dest: set_update_subset_insert [THEN subsetD])

lemma arr_init_conv: "arr_init a \<longleftrightarrow> a = map Some (map the a)"
  by (induction a) (auto simp: arr_init_def)

lemma arr_init_append [simp]: "arr_init (a @ b) \<longleftrightarrow> arr_init a \<and> arr_init b"
  by (simp add: arr_init_def)

lemma arr_init_rotate [simp]: "arr_init (rotate n a) \<longleftrightarrow> arr_init a"
  by (simp add: arr_init_def list_all_iff)

lemma arr_init_Cons [simp]: "arr_init (c # a) \<longleftrightarrow> c \<noteq> None \<and> arr_init a"
  by (simp add: arr_init_def)

lemma arr_init_Nil [simp]: "arr_init []"
  by (simp add: arr_init_def)

section \<open>C integers\<close>

text \<open>\<open>a % b\<close> on non-negative operands: a division by zero traps.\<close>

definition c_mod :: "nat \<Rightarrow> nat \<Rightarrow> nat res" where
  "c_mod a b = (if b = 0 then Err DivByZero else Ok (a mod b))"

lemma c_mod_Ok [simp]: "c_mod a b = Ok r \<longleftrightarrow> 0 < b \<and> r = a mod b"
  by (auto simp: c_mod_def)

lemma c_mod_pos: "0 < b \<Longrightarrow> c_mod a b = Ok (a mod b)"
  by simp

text \<open>The range of a 32-bit \<open>int\<close>, and a result checked against it.\<close>

definition int_range :: "int \<Rightarrow> bool" where
  "int_range v \<longleftrightarrow> - (2 ^ 31) \<le> v \<and> v < 2 ^ 31"

definition c_int :: "int \<Rightarrow> int res" where
  "c_int v = (if int_range v then Ok v else Err SignedOverflow)"

lemma c_int_Ok [simp]: "c_int v = Ok w \<longleftrightarrow> int_range v \<and> w = v"
  by (auto simp: c_int_def)

lemma c_int_in_range: "int_range v \<Longrightarrow> c_int v = Ok v"
  by simp

text \<open>An \<open>int\<close> of this range is recovered from its bit pattern.\<close>

lemma sint_word_of_int_range: "int_range v \<Longrightarrow> sint (word_of_int v :: 32 word) = v"
  using sint_sbintrunc'[where 'a = 32, of v] signed_take_bit_int_eq_self[of 31 v] by (simp add: int_range_def)

lemma int_range_sint: "int_range (sint (w :: 32 word))"
  using sint_range_size[of w] by (simp add: int_range_def word_size)

section \<open>Lists by index\<close>

lemma map_nth_upt: "length xs = n \<Longrightarrow> map (\<lambda>i. f (xs ! i)) [0..<n] = map f xs"
  by (rule nth_equalityI) auto

lemma map_of_rev_distinct: "distinct (map fst kvs) \<Longrightarrow> map_of (rev kvs) = map_of kvs"
proof (induction kvs)
  case Nil
  then show ?case by simp
next
  case (Cons kv kvs)
  obtain a b where kv: "kv = (a, b)" by (cases kv)
  have "map_of kvs a = None" using Cons.prems kv by (simp add: map_of_eq_None_iff)
  then show ?case using Cons kv by (auto simp: map_add_def fun_eq_iff split: option.splits)
qed

lemma distinct_map_filter_map:
  "distinct (map fst kvs) \<Longrightarrow> distinct (map fst (map (\<lambda>(k, v). (k, f v)) (filter (\<lambda>(k, v). P k) kvs)))"
  by (induction kvs) (force simp: image_iff split: prod.splits)+

lemma map_of_filter_map:
  "distinct (map fst kvs) \<Longrightarrow>
     map_of (map (\<lambda>(k, v). (k, f v)) (filter (\<lambda>(k, v). P k) kvs)) = (\<lambda>k. if P k then map_option f (map_of kvs k) else None)"
  by (induction kvs) (auto simp: fun_eq_iff map_of_eq_None_iff)

section \<open>Ring indices\<close>

text \<open>
  The indices \<open>(s + i) mod n\<close>, \<open>i < n\<close>, of a ring buffer are pairwise different; a full ring
  read from its start is a rotation of the array.
\<close>

lemma ring_index_le_inj:
  fixes s :: nat
  assumes "i \<le> j" and "j < n" and "(s + j) mod n = (s + i) mod n"
  shows "i = j"
proof -
  have "n dvd (s + j) - (s + i)"
    using assms by (subst mod_eq_dvd_iff_nat [symmetric]) auto
  then have "n dvd j - i" by simp
  then show ?thesis using assms(1,2) by (cases "j - i") (auto dest: dvd_imp_le)
qed

lemma ring_index_inj:
  fixes s :: nat
  assumes "i < n" and "j < n" and "(s + i) mod n = (s + j) mod n"
  shows "i = j"
  using assms ring_index_le_inj[of i j n s] ring_index_le_inj[of j i n s] by (cases "i \<le> j") auto

lemma ring_index_eq_iff:
  fixes s :: nat
  shows "i < n \<Longrightarrow> j < n \<Longrightarrow> (s + i) mod n = (s + j) mod n \<longleftrightarrow> i = j"
  using ring_index_inj by blast

lemma rotate_as_map: "rotate s xs = map (\<lambda>i. xs ! ((s + i) mod length xs)) [0..<length xs]"
  by (rule nth_equalityI) (simp_all add: nth_rotate)

lemma rotate_drop_take_le: "s \<le> length xs \<Longrightarrow> rotate s xs = drop s xs @ take s xs"
  by (cases "s = length xs") (simp_all add: rotate_drop_take)

lemma map_upt_Suc_last: "map f [0..<Suc n] = map f [0..<n] @ [f n]"
  by simp

lemma map_upt_Suc_first: "map f [0..<Suc n] = f 0 # map (\<lambda>i. f (Suc i)) [0..<n]"
  by (simp only: map_upt_Suc)

text \<open>The number of cells from a start index to an end index of a ring of \<open>B\<close> cells.\<close>

definition ring_used :: "nat \<Rightarrow> nat \<Rightarrow> nat \<Rightarrow> nat" where
  "ring_used B st en = (if st \<le> en then en - st else en + B - st)"

lemma ring_used_end:
  assumes "st < B" and "en < B"
  shows "(st + ring_used B st en) mod B = en" and "ring_used B st en < B"
  using assms by (auto simp: ring_used_def)

lemma ring_used_Suc_end:
  assumes "st < B" and "en < B" and "(en + 1) mod B \<noteq> st"
  shows "ring_used B st ((en + 1) mod B) = ring_used B st en + 1"
proof (cases "en + 1 = B")
  case True
  with assms show ?thesis by (auto simp: ring_used_def)
next
  case False
  with assms show ?thesis by (auto simp: ring_used_def)
qed

lemma ring_used_Suc_start:
  assumes "st < B" and "en < B" and "st \<noteq> en"
  shows "ring_used B ((st + 1) mod B) en = ring_used B st en - 1" and "0 < ring_used B st en"
proof -
  show "0 < ring_used B st en" using assms by (auto simp: ring_used_def)
  show "ring_used B ((st + 1) mod B) en = ring_used B st en - 1"
  proof (cases "st + 1 = B")
    case True
    with assms show ?thesis by (auto simp: ring_used_def)
  next
    case False
    with assms show ?thesis by (auto simp: ring_used_def)
  qed
qed

lemma ring_used_full_iff: "st < B \<Longrightarrow> en < B \<Longrightarrow> (en + 1) mod B = st \<longleftrightarrow> ring_used B st en = B - 1"
  by (cases "en + 1 = B") (auto simp: ring_used_def)

lemma ring_used_0_iff: "st < B \<Longrightarrow> en < B \<Longrightarrow> ring_used B st en = 0 \<longleftrightarrow> st = en"
  by (auto simp: ring_used_def)

end
