(* ===== verification/Fifo_Spec.thy ===== *)
theory Fifo_Spec
  imports Prelude
begin

text \<open>
  The contract of a first-in first-out container, as a locale: an invariant, the sequence of
  stored items, and the two operations. The laws are conditional on the operation returning,
  so that bounded and blocking containers satisfy them too; \<open>unbounded_fifo\<close> adds that a put
  always returns. The client lemmas about whole sequences of operations are proved here once
  and used through the interpretations on the ring list (\<open>List_Template\<close>), the ordered queue
  (\<open>Queue\<close>) and the pthread stream (\<open>Snet_Stream\<close>). \<open>machine_fifo\<close> relates the operations on natural numbers to
  operations on the machine integers of the C code, which agree as long as the container is not too large.
\<close>

section \<open>Sequences of operations\<close>

datatype 'a fifo_op = PutOp 'a | GetOp

text \<open>Run operations in order; the items that the gets return are collected.\<close>

fun run_ops :: "('q \<Rightarrow> 'a \<Rightarrow> 'q res) \<Rightarrow> ('q \<Rightarrow> ('a \<times> 'q) res) \<Rightarrow> 'a fifo_op list \<Rightarrow> 'q \<Rightarrow> ('a list \<times> 'q) res"
where
  "run_ops put get [] q = Ok ([], q)"
| "run_ops put get (PutOp x # ops) q = bindR (put q x) (run_ops put get ops)"
| "run_ops put get (GetOp # ops) q =
     bindR (get q) (\<lambda>(x, q'). bindR (run_ops put get ops q') (\<lambda>(xs, q''). Ok (x # xs, q'')))"

fun puts_of :: "'a fifo_op list \<Rightarrow> 'a list" where
  "puts_of [] = []"
| "puts_of (PutOp x # ops) = x # puts_of ops"
| "puts_of (GetOp # ops) = puts_of ops"

text \<open>No prefix of the operations takes more items than are there.\<close>

fun enough :: "nat \<Rightarrow> 'a fifo_op list \<Rightarrow> bool" where
  "enough n [] = True"
| "enough n (PutOp x # ops) = enough (Suc n) ops"
| "enough n (GetOp # ops) = (0 < n \<and> enough (n - 1) ops)"

section \<open>The contract\<close>

locale fifo =
  fixes invar :: "'q \<Rightarrow> bool"
    and elems :: "'q \<Rightarrow> 'a list"
    and put :: "'q \<Rightarrow> 'a \<Rightarrow> 'q res"
    and get :: "'q \<Rightarrow> ('a \<times> 'q) res"
  assumes put_ok: "invar q \<Longrightarrow> put q x = Ok q' \<Longrightarrow> invar q' \<and> elems q' = elems q @ [x]"
    and get_ok: "invar q \<Longrightarrow> get q = Ok (x, q') \<Longrightarrow> invar q' \<and> elems q = x # elems q'"
    and get_total: "invar q \<Longrightarrow> elems q \<noteq> [] \<Longrightarrow> is_Ok (get q)"
begin

text \<open>
  What has been taken out, followed by what is still inside, is what was inside followed by
  what was put in: nothing is lost, duplicated or reordered.
\<close>

lemma run_ops_order:
  "invar q \<Longrightarrow> run_ops put get ops q = Ok (outs, q') \<Longrightarrow>
     invar q' \<and> outs @ elems q' = elems q @ puts_of ops"
proof (induction ops arbitrary: q outs)
  case Nil
  then show ?case by simp
next
  case (Cons op ops)
  show ?case
  proof (cases op)
    case (PutOp x)
    with Cons.prems obtain q1 where q1: "put q x = Ok q1" "run_ops put get ops q1 = Ok (outs, q')"
      by auto
    from put_ok[OF Cons.prems(1) q1(1)] have q1i: "invar q1" "elems q1 = elems q @ [x]" by auto
    from Cons.IH[OF q1i(1) q1(2)] q1i(2) PutOp show ?thesis by simp
  next
    case GetOp
    with Cons.prems obtain x q1 xs where q1: "get q = Ok (x, q1)"
      "run_ops put get ops q1 = Ok (xs, q')" "outs = x # xs" by auto
    from get_ok[OF Cons.prems(1) q1(1)] have q1i: "invar q1" "elems q = x # elems q1" by auto
    from Cons.IH[OF q1i(1) q1(2)] q1i(2) q1(3) GetOp show ?thesis by simp
  qed
qed

lemma run_ops_out_prefix:
  assumes "invar q" and "elems q = []" and "run_ops put get ops q = Ok (outs, q')"
  shows "outs = take (length outs) (puts_of ops)"
proof -
  from run_ops_order[OF assms(1,3)] assms(2) have "outs @ elems q' = puts_of ops" by simp
  then show ?thesis by (metis append_eq_conv_conj)
qed

end

locale unbounded_fifo = fifo +
  assumes put_total: "invar q \<Longrightarrow> is_Ok (put q x)"
begin

text \<open>A sequence that never takes from an empty container runs to its end.\<close>

lemma run_ops_total:
  "invar q \<Longrightarrow> enough (length (elems q)) ops \<Longrightarrow> is_Ok (run_ops put get ops q)"
proof (induction ops arbitrary: q)
  case Nil
  then show ?case by simp
next
  case (Cons op ops)
  show ?case
  proof (cases op)
    case (PutOp x)
    from put_total[OF Cons.prems(1)] obtain q1 where q1: "put q x = Ok q1"
      by (auto simp: is_Ok_iff)
    from put_ok[OF Cons.prems(1) q1] Cons.IH[of q1] Cons.prems(2) PutOp q1
    show ?thesis by simp
  next
    case GetOp
    with Cons.prems have ne: "elems q \<noteq> []" by auto
    from get_total[OF Cons.prems(1) ne] obtain x q1 where q1: "get q = Ok (x, q1)"
      by (auto simp: is_Ok_iff)
    from get_ok[OF Cons.prems(1) q1] have i1: "invar q1" "elems q = x # elems q1" by auto
    with Cons.prems(2) GetOp have "enough (length (elems q1)) ops" by simp
    from Cons.IH[OF i1(1) this] obtain r where "run_ops put get ops q1 = Ok r"
      by (auto simp: is_Ok_iff)
    with q1 GetOp show ?thesis by (cases r) simp
  qed
qed

text \<open>Filling an empty container and draining it gives the items back in order.\<close>

lemma fill_drain:
  assumes "invar q" and "elems q = []"
  shows "\<exists>q'. run_ops put get (map PutOp xs @ replicate (length xs) GetOp) q = Ok (xs, q') \<and> elems q' = []"
proof -
  let ?ops = "map PutOp xs @ replicate (length xs) (GetOp :: 'b fifo_op)"
  have en: "enough n (map PutOp ys @ replicate m GetOp)" if "m \<le> n + length ys" for n m and ys :: "'b list"
    using that by (induction ys arbitrary: n) (auto, induction m arbitrary: n, auto)
  have pu: "puts_of (map PutOp ys @ replicate m GetOp) = ys" for m and ys :: "'b list"
    by (induction ys) (auto, induction m, auto)
  have len: "length outs = m + 0" if "run_ops put get (replicate m GetOp) q = Ok (outs, q')" for outs q q' m
    using that by (induction m arbitrary: q outs) auto
  have len2: "length outs = m" if "run_ops put get (map PutOp ys @ replicate m GetOp) q = Ok (outs, q')"
    for outs q q' m ys using that len by (induction ys arbitrary: q) auto
  from run_ops_total[OF assms(1), of ?ops] en[of "length xs" 0 xs] assms(2)
  obtain outs q' where r: "run_ops put get ?ops q = Ok (outs, q')" by (auto simp: is_Ok_iff)
  from run_ops_order[OF assms(1) r] assms(2) pu have "outs @ elems q' = xs" by simp
  moreover have "length outs = length xs" using len2[OF r] .
  ultimately have "outs = xs" "elems q' = []" by auto
  with r show ?thesis by auto
qed

end

section \<open>Machine integers\<close>

text \<open>The greatest number of items at a time, from \<open>n\<close> items at the start.\<close>

fun peak :: "nat \<Rightarrow> 'a fifo_op list \<Rightarrow> nat" where
  "peak n [] = n"
| "peak n (PutOp x # ops) = max n (peak (Suc n) ops)"
| "peak n (GetOp # ops) = max n (peak (n - 1) ops)"

text \<open>
  The same container with machine integers: \<open>rep\<close> represents a container, \<open>cells\<close> is the size of its memory block, \<open>slack\<close> the
  number of cells by which a full container grows at most beyond its items. Below the bound both versions do the same.
\<close>

locale machine_fifo = fifo invar elems put get
  for invar :: "'q \<Rightarrow> bool" and elems :: "'q \<Rightarrow> 'a list" and put get +
  fixes rep :: "'q \<Rightarrow> 'm"
    and mput :: "'m \<Rightarrow> 'a \<Rightarrow> 'm res"
    and mget :: "'m \<Rightarrow> ('a \<times> 'm) res"
    and cells :: "'q \<Rightarrow> nat"
    and slack :: nat
    and bound :: nat
  assumes mput_refines: "invar q \<Longrightarrow> cells q \<le> bound \<Longrightarrow> length (elems q) + slack \<le> bound \<Longrightarrow> mput (rep q) x = map_res rep (put q x)"
    and mget_refines: "invar q \<Longrightarrow> cells q \<le> bound \<Longrightarrow> mget (rep q) = map_res (map_prod id rep) (get q)"
    and put_cells: "invar q \<Longrightarrow> put q x = Ok q' \<Longrightarrow> cells q' \<le> max (cells q) (length (elems q) + slack)"
    and get_cells: "invar q \<Longrightarrow> get q = Ok (x, q') \<Longrightarrow> cells q' \<le> cells q"
begin

lemma run_refines:
  assumes "invar q" and "cells q \<le> bound" and "peak (length (elems q)) ops + slack \<le> bound"
  shows "run_ops mput mget ops (rep q) = map_res (map_prod id rep) (run_ops put get ops q)"
  using assms
proof (induction ops arbitrary: q)
  case (Cons op ops)
  show ?case
  proof (cases op)
    case (PutOp x)
    have b: "length (elems q) + slack \<le> bound" "peak (Suc (length (elems q))) ops + slack \<le> bound" using Cons.prems(3) PutOp by auto
    note p = mput_refines[OF Cons.prems(1,2) b(1), of x]
    show ?thesis
    proof (cases "put q x")
      case (Ok q1)
      from put_ok[OF Cons.prems(1) Ok] have q1: "invar q1" "length (elems q1) = Suc (length (elems q))" by auto
      have "cells q1 \<le> bound" using put_cells[OF Cons.prems(1) Ok] Cons.prems(2) b(1) by simp
      from Cons.IH[OF q1(1) this] b(2) q1(2) show ?thesis by (simp add: PutOp p Ok)
    qed (simp add: PutOp p)
  next
    case GetOp
    note p = mget_refines[OF Cons.prems(1,2)]
    show ?thesis
    proof (cases "get q")
      case (Ok xq)
      obtain x q1 where xq: "xq = (x, q1)" by (cases xq)
      from get_ok[OF Cons.prems(1) Ok[unfolded xq]] have q1: "invar q1" "length (elems q1) = length (elems q) - 1" by auto
      have "cells q1 \<le> bound" using get_cells[OF Cons.prems(1) Ok[unfolded xq]] Cons.prems(2) by simp
      from Cons.IH[OF q1(1) this] Cons.prems(3) q1(2) GetOp
      have "run_ops mput mget ops (rep q1) = map_res (map_prod id rep) (run_ops put get ops q1)" by (simp add: id_def)
      then show ?thesis by (cases "run_ops put get ops q1") (auto simp: GetOp p Ok xq)
    qed (simp add: GetOp p)
  qed
qed simp

end

end
