(* ===== verification/List_Template.thy ===== *)
theory List_Template
  imports Fifo_Spec
begin

text \<open>
  The list template \<open>include/list-template.c\<close> and its iteration macros
  (\<open>include/list-template.h\<close>): a ring buffer in a heap array that grows by one cell when it is
  full. Every list type of the runtime (labels, variants, expressions, filter instructions,
  streams, record buffers) is an instance of it. The theory gives the operations with the
  memory accesses the C code makes, the representation invariant \<open>list_inv\<close>, the sequence
  \<open>list_of\<close> that a list stands for, and the functional behaviour of every operation.
\<close>

section \<open>The structure and its operations\<close>

record 'a snet_list =
  lsize :: nat
  lused :: nat
  lstart :: nat
  lvalues :: "'a arr"

text \<open>\<open>list->values[(list->start + i) % list->size]\<close>\<close>

definition ring_read :: "'a snet_list \<Rightarrow> nat \<Rightarrow> 'a res" where
  "ring_read l i = bindR (c_mod (lstart l + i) (lsize l)) (arr_read (lvalues l))"

text \<open>
  The items that \<open>LIST_FOR_EACH\<close> and \<open>LIST_ENUMERATE\<close> bind to the loop variable, in order.
\<close>

definition LIST_FOR_EACH :: "'a snet_list \<Rightarrow> 'a list res" where
  "LIST_FOR_EACH l = mapR (ring_read l) [0..<lused l]"

definition LIST_ENUMERATE :: "'a snet_list \<Rightarrow> (nat \<times> 'a) list res" where
  "LIST_ENUMERATE l = mapR (\<lambda>i. bindR (ring_read l i) (\<lambda>v. Ok (i, v))) [0..<lused l]"

text \<open>\<open>LIST_ZIP_EACH\<close> stops at the end of the shorter list.\<close>

definition LIST_ZIP_EACH :: "'a snet_list \<Rightarrow> 'b snet_list \<Rightarrow> ('a \<times> 'b) list res" where
  "LIST_ZIP_EACH l1 l2 =
     mapR (\<lambda>i. bindR (ring_read l1 i) (\<lambda>v1. bindR (ring_read l2 i) (\<lambda>v2. Ok (v1, v2))))
       [0..<min (lused l1) (lused l2)]"

definition LIST_ZIP_ENUMERATE :: "'a snet_list \<Rightarrow> 'b snet_list \<Rightarrow> (nat \<times> 'a \<times> 'b) list res" where
  "LIST_ZIP_ENUMERATE l1 l2 =
     mapR (\<lambda>i. bindR (ring_read l1 i) (\<lambda>v1. bindR (ring_read l2 i) (\<lambda>v2. Ok (i, v1, v2))))
       [0..<min (lused l1) (lused l2)]"

text \<open>\<open>LIST_DEQUEUE_EACH\<close>: one round takes the first item out.\<close>

definition list_dequeue :: "'a snet_list \<Rightarrow> ('a \<times> 'a snet_list) res" where
  "list_dequeue l =
     bindR (arr_read (lvalues l) (lstart l)) (\<lambda>v.
     bindR (c_mod (lstart l + 1) (lsize l)) (\<lambda>st.
     Ok (v, l\<lparr>lstart := st, lused := lused l - 1\<rparr>)))"

fun dequeue_each :: "nat \<Rightarrow> 'a snet_list \<Rightarrow> ('a list \<times> 'a snet_list) res" where
  "dequeue_each 0 l = Ok ([], l)"
| "dequeue_each (Suc n) l =
     bindR (list_dequeue l) (\<lambda>(v, l'). bindR (dequeue_each n l') (\<lambda>(vs, l''). Ok (v # vs, l'')))"

definition LIST_DEQUEUE_EACH :: "'a snet_list \<Rightarrow> ('a list \<times> 'a snet_list) res" where
  "LIST_DEQUEUE_EACH l = dequeue_each (lused l) l"

text \<open>
  \<open>Create(size, ...)\<close>: the variable arguments are the list \<open>args\<close>, \<open>size\<close> is their number.
\<close>

definition ListCreate :: "'a list \<Rightarrow> 'a snet_list res" where
  "ListCreate args =
     bindR (foldR (\<lambda>vs (i, v). arr_write vs i v) (arr_alloc (length args)) (enumerate 0 args))
       (\<lambda>vs. Ok \<lparr>lsize = length args, lused = length args, lstart = 0, lvalues = vs\<rparr>)"

definition ListCopy :: "'a snet_list \<Rightarrow> 'a snet_list res" where
  "ListCopy l =
     (let startToArrayEnd = lsize l - lstart l in
      bindR (mem_cpy (arr_alloc (lused l)) 0 (lvalues l) (lstart l) startToArrayEnd) (\<lambda>vs.
      bindR (mem_cpy vs startToArrayEnd (lvalues l) 0 (lsize l - startToArrayEnd)) (\<lambda>vs'.
      Ok \<lparr>lsize = lused l, lused = lused l, lstart = 0, lvalues = vs'\<rparr>)))"

text \<open>\<open>Destroy\<close>: the items handed to \<open>LIST_FREE_FUNCTION\<close>; the two blocks are freed after.\<close>

definition ListDestroy :: "'a snet_list \<Rightarrow> 'a list res" where
  "ListDestroy l = LIST_FOR_EACH l"

definition ListDeepCopy :: "('a \<Rightarrow> 'a) \<Rightarrow> 'a snet_list \<Rightarrow> 'a snet_list res" where
  "ListDeepCopy copyfun l =
     bindR (LIST_ENUMERATE l) (\<lambda>ivs.
     bindR (foldR (\<lambda>vs (i, v). arr_write vs i (copyfun v)) (arr_alloc (lused l)) ivs) (\<lambda>vs.
     Ok \<lparr>lsize = lused l, lused = lused l, lstart = 0, lvalues = vs\<rparr>))"

definition ListLength :: "'a snet_list \<Rightarrow> nat" where
  "ListLength l = lused l"

definition grow_start :: "'a snet_list \<Rightarrow> 'a snet_list res" where
  "grow_start l =
     (let startToArrayEnd = lused l - lstart l in
      bindR (mem_cpy (arr_alloc (lsize l + 1)) 1 (lvalues l) (lstart l) startToArrayEnd) (\<lambda>vs.
      bindR (mem_cpy vs (1 + startToArrayEnd) (lvalues l) 0 (lused l - startToArrayEnd)) (\<lambda>vs'.
      Ok (l\<lparr>lvalues := vs', lsize := lsize l + 1, lstart := 1\<rparr>))))"

definition ListAppendStart :: "'a snet_list \<Rightarrow> 'a \<Rightarrow> 'a snet_list res" where
  "ListAppendStart l val =
     bindR (if lused l = lsize l then grow_start l else Ok l) (\<lambda>l.
     bindR (c_mod (lstart l + lsize l - 1) (lsize l)) (\<lambda>st.
     bindR (arr_write (lvalues l) st val) (\<lambda>vs.
     Ok (l\<lparr>lstart := st, lvalues := vs, lused := lused l + 1\<rparr>))))"

definition grow_end :: "'a snet_list \<Rightarrow> 'a snet_list res" where
  "grow_end l =
     (let startToArrayEnd = lused l - lstart l in
      bindR (mem_cpy (arr_alloc (lsize l + 1)) 0 (lvalues l) (lstart l) startToArrayEnd) (\<lambda>vs.
      bindR (mem_cpy vs startToArrayEnd (lvalues l) 0 (lused l - startToArrayEnd)) (\<lambda>vs'.
      Ok (l\<lparr>lvalues := vs', lsize := lsize l + 1, lstart := 0\<rparr>))))"

definition ListAppendEnd :: "'a snet_list \<Rightarrow> 'a \<Rightarrow> 'a snet_list res" where
  "ListAppendEnd l val =
     bindR (if lused l = lsize l then grow_end l else Ok l) (\<lambda>l.
     bindR (c_mod (lstart l + lused l) (lsize l)) (\<lambda>i.
     bindR (arr_write (lvalues l) i val) (\<lambda>vs.
     Ok (l\<lparr>lvalues := vs, lused := lused l + 1\<rparr>))))"

definition ListPopStart :: "'a snet_list \<Rightarrow> ('a \<times> 'a snet_list) res" where
  "ListPopStart l =
     bindR (assertR (0 < lused l)) (\<lambda>_.
     bindR (c_mod (lstart l + 1) (lsize l)) (\<lambda>st.
     bindR (c_mod (st + lsize l - 1) (lsize l)) (\<lambda>i.
     bindR (arr_read (lvalues l) i) (\<lambda>v.
     Ok (v, l\<lparr>lused := lused l - 1, lstart := st\<rparr>)))))"

definition ListPopEnd :: "'a snet_list \<Rightarrow> ('a \<times> 'a snet_list) res" where
  "ListPopEnd l =
     bindR (assertR (0 < lused l)) (\<lambda>_.
     bindR (c_mod (lstart l + (lused l - 1)) (lsize l)) (\<lambda>i.
     bindR (arr_read (lvalues l) i) (\<lambda>v.
     Ok (v, l\<lparr>lused := lused l - 1\<rparr>))))"

text \<open>\<open>Contains\<close> compares with \<open>LIST_CMP\<close>, or with \<open>==\<close> where it is not defined.\<close>

definition ListContains :: "('a \<Rightarrow> 'a \<Rightarrow> bool) \<Rightarrow> 'a snet_list \<Rightarrow> 'a \<Rightarrow> bool res" where
  "ListContains cmp l val = bindR (LIST_FOR_EACH l) (\<lambda>xs. Ok (list_ex (\<lambda>x. cmp x val) xs))"

definition ListGet :: "'a snet_list \<Rightarrow> int \<Rightarrow> 'a res" where
  "ListGet l i =
     bindR (assertR (i \<ge> 0 \<and> int (lused l) > i)) (\<lambda>_. ring_read l (nat i))"

text \<open>
  \<open>Remove\<close>: the result is read from \<open>values[i]\<close>, while the loop that closes the gap counts
  from \<open>start\<close>.
\<close>

definition shift_down :: "'a snet_list \<Rightarrow> nat \<Rightarrow> 'a snet_list res" where
  "shift_down l i =
     bindR (c_mod (lstart l + i) (lsize l)) (\<lambda>d.
     bindR (ring_read l (i + 1)) (\<lambda>v.
     bindR (arr_write (lvalues l) d v) (\<lambda>vs.
     Ok (l\<lparr>lvalues := vs\<rparr>))))"

definition ListRemove :: "'a snet_list \<Rightarrow> int \<Rightarrow> ('a \<times> 'a snet_list) res" where
  "ListRemove l i =
     bindR (assertR (i \<ge> 0 \<and> int (lused l) > i)) (\<lambda>_.
     bindR (arr_read (lvalues l) (nat i)) (\<lambda>result.
     bindR (foldR shift_down l [nat i..<lused l]) (\<lambda>l'.
     Ok (result, l'\<lparr>lused := lused l' - 1\<rparr>))))"

text \<open>
  \<open>Serialise\<close> hands the number of items and a pointer to the first cell of the array to the
  callbacks, which read that many cells; \<open>Deserialise\<close> sets \<open>used\<close> and \<open>values\<close> only.
\<close>

definition ListSerialise :: "'a snet_list \<Rightarrow> (nat \<times> 'a list) res" where
  "ListSerialise l = bindR (mapR (arr_read (lvalues l)) [0..<lused l]) (\<lambda>vs. Ok (lused l, vs))"

definition ListDeserialise :: "'a snet_list \<Rightarrow> nat \<times> 'a list \<Rightarrow> 'a snet_list" where
  "ListDeserialise l msg = l\<lparr>lused := fst msg, lvalues := map Some (snd msg)\<rparr>"

section \<open>Representation\<close>

definition list_inv :: "'a snet_list \<Rightarrow> bool" where
  "list_inv l \<longleftrightarrow>
     length (lvalues l) = lsize l \<and> lused l \<le> lsize l \<and>
     (lstart l < lsize l \<or> lsize l = 0 \<and> lstart l = 0) \<and> arr_init (lvalues l)"

definition list_of :: "'a snet_list \<Rightarrow> 'a list" where
  "list_of l = map (\<lambda>i. the (lvalues l ! ((lstart l + i) mod lsize l))) [0..<lused l]"

lemma list_inv_pos: "list_inv l \<Longrightarrow> 0 < lused l \<Longrightarrow> 0 < lsize l \<and> lstart l < lsize l"
  by (auto simp: list_inv_def)

lemma length_list_of [simp]: "length (list_of l) = lused l"
  by (simp add: list_of_def)

lemma list_of_nth: "i < lused l \<Longrightarrow> list_of l ! i = the (lvalues l ! ((lstart l + i) mod lsize l))"
  by (simp add: list_of_def)

lemma list_of_Nil_iff [simp]: "list_of l = [] \<longleftrightarrow> lused l = 0"
  by (simp add: list_of_def)

text \<open>Every access \<open>values[(start + i) % size]\<close> of a non-empty array is defined.\<close>

lemma ring_read_inv:
  "list_inv l \<Longrightarrow> 0 < lsize l \<Longrightarrow>
     ring_read l i = Ok (the (lvalues l ! ((lstart l + i) mod lsize l)))"
  by (simp add: ring_read_def list_inv_def arr_init_read c_mod_def)

lemma ring_read_nth: "list_inv l \<Longrightarrow> i < lused l \<Longrightarrow> ring_read l i = Ok (list_of l ! i)"
  using list_inv_pos[of l] by (auto simp: ring_read_inv list_of_nth)

lemma LIST_FOR_EACH_list_of: "list_inv l \<Longrightarrow> LIST_FOR_EACH l = Ok (list_of l)"
proof -
  assume inv: "list_inv l"
  have "mapR (ring_read l) [0..<lused l] = Ok (map (\<lambda>i. list_of l ! i) [0..<lused l])"
    by (rule mapR_Ok) (simp add: ring_read_nth[OF inv])
  also have "map (\<lambda>i. list_of l ! i) [0..<lused l] = list_of l"
    by (metis length_list_of map_nth)
  finally show ?thesis by (simp add: LIST_FOR_EACH_def)
qed

lemma LIST_ENUMERATE_list_of: "list_inv l \<Longrightarrow> LIST_ENUMERATE l = Ok (enumerate 0 (list_of l))"
proof -
  assume inv: "list_inv l"
  have "LIST_ENUMERATE l = Ok (map (\<lambda>i. (i, list_of l ! i)) [0..<lused l])"
    unfolding LIST_ENUMERATE_def by (rule mapR_Ok) (simp add: ring_read_nth[OF inv])
  also have "map (\<lambda>i. (i, list_of l ! i)) [0..<lused l] = enumerate 0 (list_of l)"
    by (rule nth_equalityI) (simp_all add: nth_enumerate_eq)
  finally show ?thesis .
qed

lemma LIST_ZIP_EACH_list_of:
  assumes "list_inv l1" and "list_inv l2"
  shows "LIST_ZIP_EACH l1 l2 = Ok (zip (list_of l1) (list_of l2))"
proof -
  have "LIST_ZIP_EACH l1 l2 = Ok (map (\<lambda>i. (list_of l1 ! i, list_of l2 ! i)) [0..<min (lused l1) (lused l2)])"
    unfolding LIST_ZIP_EACH_def by (rule mapR_Ok) (simp add: ring_read_nth assms)
  also have "map (\<lambda>i. (list_of l1 ! i, list_of l2 ! i)) [0..<min (lused l1) (lused l2)] = zip (list_of l1) (list_of l2)"
    by (rule nth_equalityI) simp_all
  finally show ?thesis .
qed

lemma LIST_ZIP_ENUMERATE_list_of:
  assumes "list_inv l1" and "list_inv l2"
  shows "LIST_ZIP_ENUMERATE l1 l2 = Ok (enumerate 0 (zip (list_of l1) (list_of l2)))"
proof -
  have "LIST_ZIP_ENUMERATE l1 l2 = Ok (map (\<lambda>i. (i, list_of l1 ! i, list_of l2 ! i)) [0..<min (lused l1) (lused l2)])"
    unfolding LIST_ZIP_ENUMERATE_def by (rule mapR_Ok) (simp add: ring_read_nth assms)
  also have "map (\<lambda>i. (i, list_of l1 ! i, list_of l2 ! i)) [0..<min (lused l1) (lused l2)] = enumerate 0 (zip (list_of l1) (list_of l2))"
    by (rule nth_equalityI) (simp_all add: nth_enumerate_eq)
  finally show ?thesis .
qed

text \<open>A full ring is the array read from \<open>start\<close> around.\<close>

lemma full_list_of:
  assumes "list_inv l" and "lused l = lsize l"
  shows "map Some (list_of l) = rotate (lstart l) (lvalues l)"
proof (rule nth_equalityI)
  show "length (map Some (list_of l)) = length (rotate (lstart l) (lvalues l))"
    using assms by (simp add: list_inv_def)
  fix i assume "i < length (map Some (list_of l))"
  then have i: "i < lused l" by simp
  then have "0 < lsize l" using assms(2) by simp
  with i assms show "map Some (list_of l) ! i = rotate (lstart l) (lvalues l) ! i"
    using arr_init_nth[of "lvalues l" "(lstart l + i) mod lsize l"]
    by (auto simp: list_inv_def list_of_nth nth_rotate)
qed

lemma arr_write_fill:
  "foldR (\<lambda>vs (i, v). arr_write vs i (f v)) (map Some (map f done') @ arr_alloc (length xs)) (enumerate (length done') xs)
     = Ok (map Some (map f (done' @ xs)))"
proof (induction xs arbitrary: done')
  case Nil
  then show ?case by (simp add: arr_alloc_def)
next
  case (Cons x xs)
  have "(map Some (map f done') @ arr_alloc (Suc (length xs)))[length done' := Some (f x)]
      = map Some (map f (done' @ [x])) @ arr_alloc (length xs)"
    by (simp add: arr_alloc_def list_update_append)
  with Cons.IH[of "done' @ [x]"] show ?case
    by (simp add: arr_write_def)
qed

lemma ListCreate_Ok:
  "ListCreate xs = Ok \<lparr>lsize = length xs, lused = length xs, lstart = 0, lvalues = map Some xs\<rparr>"
  using arr_write_fill[of "\<lambda>x. x" "[]" xs] by (simp add: ListCreate_def)

lemma list_of_fresh [simp]:
  "list_of \<lparr>lsize = length xs, lused = length xs, lstart = 0, lvalues = map Some xs\<rparr> = xs"
  by (rule nth_equalityI) (simp_all add: list_of_nth)

lemma list_inv_fresh [simp]:
  "list_inv \<lparr>lsize = length xs, lused = length xs, lstart = 0, lvalues = map Some xs\<rparr>"
  by (simp add: list_inv_def)

section \<open>Behaviour of the operations\<close>

text \<open>Growing a full list unrolls the ring into a fresh array with one free cell.\<close>

lemma full_unroll:
  assumes "list_inv l" and "lused l = lsize l"
  shows "drop (lstart l) (lvalues l) @ take (lstart l) (lvalues l) = map Some (list_of l)"
  using assms full_list_of[OF assms]
  by (subst rotate_drop_take_le [symmetric]) (auto simp: list_inv_def)

lemma grow_end_Ok:
  fixes l :: "'a snet_list"
  assumes "list_inv l" and "lused l = lsize l"
  shows "grow_end l = Ok (l\<lparr>lvalues := map Some (list_of l) @ [None], lsize := lsize l + 1, lstart := 0\<rparr>)"
proof -
  have bounds: "length (lvalues l) = lsize l" "lstart l \<le> lsize l"
    using assms by (auto simp: list_inv_def)
  note c1 = mem_cpy_fill[of "lsize l - lstart l" "lsize l + 1" "lstart l" "lvalues l" 0 "[]"]
  note c2 = mem_cpy_fill[of "lstart l" "lstart l + 1" 0 "lvalues l" "lsize l - lstart l" "drop (lstart l) (lvalues l)"]
  have "arr_alloc 1 = [None :: 'a option]" by (simp add: arr_alloc_def)
  then show ?thesis
    using bounds assms full_unroll[OF assms] c1 c2
    by (simp add: grow_end_def Let_def Suc_diff_le del: mem_cpy_Ok flip: append_assoc)
qed

lemma grow_start_Ok:
  assumes "list_inv l" and "lused l = lsize l"
  shows "grow_start l = Ok (l\<lparr>lvalues := None # map Some (list_of l), lsize := lsize l + 1, lstart := 1\<rparr>)"
proof -
  have bounds: "length (lvalues l) = lsize l" "lstart l \<le> lsize l"
    using assms by (auto simp: list_inv_def)
  have cons: "arr_alloc (Suc n) = None # arr_alloc n" for n :: nat by (simp add: arr_alloc_def)
  note c1 = mem_cpy_fill[of "lsize l - lstart l" "lsize l" "lstart l" "lvalues l" 1 "[None]"]
  note c2 = mem_cpy_fill[of "lstart l" "lstart l" 0 "lvalues l" "1 + (lsize l - lstart l)" "None # drop (lstart l) (lvalues l)"]
  have "arr_alloc 0 = []" by (simp add: arr_alloc_def)
  then show ?thesis
    using bounds assms full_unroll[OF assms] c1 c2 by (simp add: grow_start_def Let_def cons)
qed

text \<open>
  Writing the cell behind the last item, or the one in front of the first, leaves the cells of
  the items alone.
\<close>

lemma list_of_write_end:
  fixes l :: "'a snet_list" and v :: 'a
  assumes "list_inv l" and "lused l < lsize l"
  defines "l' \<equiv> l\<lparr>lvalues := (lvalues l)[(lstart l + lused l) mod lsize l := Some v], lused := lused l + 1\<rparr>"
  shows "list_inv l' \<and> list_of l' = list_of l @ [v]"
proof
  show "list_inv l'" using assms(1,2) by (auto simp: list_inv_def l'_def)
  show "list_of l' = list_of l @ [v]"
  proof (rule nth_equalityI)
    show "length (list_of l') = length (list_of l @ [v])" by (simp add: l'_def)
    fix i assume "i < length (list_of l')"
    then have "i \<le> lused l" by (simp add: l'_def)
    with assms(1,2) ring_index_eq_iff[of i "lsize l" "lused l" "lstart l"]
    show "list_of l' ! i = (list_of l @ [v]) ! i"
      by (auto simp: l'_def list_of_nth nth_append list_inv_def nth_list_update)
  qed
qed

lemma ListAppendEnd_spec:
  assumes "list_inv l"
  shows "\<exists>l'. ListAppendEnd l v = Ok l' \<and> list_inv l' \<and> list_of l' = list_of l @ [v]"
proof (cases "lused l = lsize l")
  case True
  let ?l' = "\<lparr>lsize = length (list_of l @ [v]), lused = length (list_of l @ [v]), lstart = 0, lvalues = map Some (list_of l @ [v])\<rparr>"
  have "ListAppendEnd l v = Ok ?l'"
    using True by (simp add: ListAppendEnd_def grow_end_Ok[OF assms True] c_mod_def arr_write_def list_update_append)
  then show ?thesis using list_of_fresh[of "list_of l @ [v]"] list_inv_fresh[of "list_of l @ [v]"] by blast
next
  case False
  with assms have lt: "lused l < lsize l" by (simp add: list_inv_def)
  have "ListAppendEnd l v = Ok (l\<lparr>lvalues := (lvalues l)[(lstart l + lused l) mod lsize l := Some v], lused := lused l + 1\<rparr>)"
    using assms lt by (auto simp: ListAppendEnd_def c_mod_def arr_write_def list_inv_def)
  with list_of_write_end[OF assms lt, of v] show ?thesis by blast
qed

lemma ListAppendEnd_full: "list_inv l \<Longrightarrow> lused l = lsize l \<Longrightarrow> ListAppendEnd l v = Ok l' \<Longrightarrow> lused l' = lsize l'"
  by (auto simp: ListAppendEnd_def grow_end_Ok c_mod_def arr_write_def)

lemma list_of_write_start:
  fixes l :: "'a snet_list" and v :: 'a
  assumes "list_inv l" and "lused l < lsize l"
  defines "st \<equiv> (lstart l + lsize l - 1) mod lsize l"
  defines "l' \<equiv> l\<lparr>lstart := st, lvalues := (lvalues l)[st := Some v], lused := lused l + 1\<rparr>"
  shows "list_inv l' \<and> list_of l' = v # list_of l"
proof
  have pos: "0 < lsize l" using assms(2) by simp
  show "list_inv l'" using assms(1,2) by (auto simp: list_inv_def l'_def st_def)
  have step: "(st + Suc i) mod lsize l = (lstart l + i) mod lsize l" for i
  proof -
    have "(st + Suc i) mod lsize l = (lstart l + lsize l - 1 + Suc i) mod lsize l"
      unfolding st_def by (rule mod_add_left_eq)
    also have "lstart l + lsize l - 1 + Suc i = (lstart l + i) + lsize l" using pos by simp
    finally show ?thesis by simp
  qed
  show "list_of l' = v # list_of l"
  proof (rule nth_equalityI)
    show "length (list_of l') = length (v # list_of l)" by (simp add: l'_def)
    fix i assume "i < length (list_of l')"
    then have i: "i \<le> lused l" by (simp add: l'_def)
    have st: "st < length (lvalues l)" "(st + 0) mod lsize l = st"
      using assms(1) pos by (simp_all add: st_def list_inv_def)
    show "list_of l' ! i = (v # list_of l) ! i"
    proof (cases i)
      case 0
      then show ?thesis using st pos by (simp add: l'_def list_of_nth)
    next
      case (Suc j)
      with i have "st \<noteq> (st + Suc j) mod lsize l"
        using ring_index_eq_iff[of 0 "lsize l" "Suc j" st] assms(2) st(2) by auto
      with Suc i st show ?thesis
        using step[of j] by (simp add: l'_def list_of_nth)
    qed
  qed
qed

lemma ListAppendStart_spec:
  assumes "list_inv l"
  shows "\<exists>l'. ListAppendStart l v = Ok l' \<and> list_inv l' \<and> list_of l' = v # list_of l"
proof (cases "lused l = lsize l")
  case True
  let ?l' = "\<lparr>lsize = length (v # list_of l), lused = length (v # list_of l), lstart = 0, lvalues = map Some (v # list_of l)\<rparr>"
  have "ListAppendStart l v = Ok ?l'"
    using True by (simp add: ListAppendStart_def grow_start_Ok[OF assms True] c_mod_def arr_write_def)
  then show ?thesis using list_of_fresh[of "v # list_of l"] list_inv_fresh[of "v # list_of l"] by blast
next
  case False
  with assms have lt: "lused l < lsize l" by (simp add: list_inv_def)
  let ?st = "(lstart l + lsize l - 1) mod lsize l"
  have "ListAppendStart l v = Ok (l\<lparr>lstart := ?st, lvalues := (lvalues l)[?st := Some v], lused := lused l + 1\<rparr>)"
    using assms lt by (auto simp: ListAppendStart_def c_mod_def arr_write_def list_inv_def)
  with list_of_write_start[OF assms lt, of v] show ?thesis by metis
qed

text \<open>Dropping the first item, as \<open>PopStart\<close> and \<open>LIST_DEQUEUE_EACH\<close> do.\<close>

lemma list_of_drop_first:
  assumes "list_inv l" and "0 < lused l"
  defines "l' \<equiv> l\<lparr>lused := lused l - 1, lstart := (lstart l + 1) mod lsize l\<rparr>"
  shows "list_inv l' \<and> list_of l = the (lvalues l ! lstart l) # list_of l'"
proof
  have pos: "0 < lsize l" "lstart l < lsize l" using list_inv_pos[OF assms(1,2)] by auto
  show "list_inv l'" using assms(1,2) pos by (auto simp: list_inv_def l'_def)
  obtain n where n: "lused l = Suc n" using assms(2) by (cases "lused l") auto
  have "((lstart l + 1) mod lsize l + i) mod lsize l = (lstart l + Suc i) mod lsize l" for i
    by (simp add: mod_add_left_eq)
  then show "list_of l = the (lvalues l ! lstart l) # list_of l'"
    using n pos by (simp add: list_of_def l'_def map_upt_Suc_first del: upt_Suc)
qed

lemma ListPopStart_spec:
  assumes "list_inv l" and "0 < lused l"
  shows "\<exists>l'. ListPopStart l = Ok (hd (list_of l), l') \<and> list_inv l' \<and> list_of l' = tl (list_of l)"
proof -
  have pos: "0 < lsize l" "lstart l < lsize l" using list_inv_pos[OF assms] by auto
  let ?st = "(lstart l + 1) mod lsize l"
  have "(?st + lsize l - 1) mod lsize l = (?st + (lsize l - 1)) mod lsize l"
    using pos by simp
  also have "\<dots> = (lstart l + 1 + (lsize l - 1)) mod lsize l" by (rule mod_add_left_eq)
  also have "\<dots> = lstart l" using pos by simp
  finally have ret: "(?st + lsize l - 1) mod lsize l = lstart l" .
  have "arr_read (lvalues l) (lstart l) = Ok (the (lvalues l ! lstart l))"
    using assms(1) pos by (intro arr_init_read) (auto simp: list_inv_def)
  with ret pos assms(2)
  have "ListPopStart l = Ok (the (lvalues l ! lstart l), l\<lparr>lused := lused l - 1, lstart := ?st\<rparr>)"
    by (simp add: ListPopStart_def c_mod_def del: arr_read_Ok One_nat_def)
  with list_of_drop_first[OF assms] show ?thesis by simp
qed

lemma ListPopStart_empty: "lused l = 0 \<Longrightarrow> ListPopStart l = Err AssertFail"
  by (simp add: ListPopStart_def)

lemma ListPopEnd_spec:
  assumes "list_inv l" and "0 < lused l"
  shows "\<exists>l'. ListPopEnd l = Ok (last (list_of l), l') \<and> list_inv l' \<and> list_of l' = butlast (list_of l)"
proof -
  let ?l' = "l\<lparr>lused := lused l - 1\<rparr>"
  from assms(2) obtain n where n: "lused l = Suc n" by (cases "lused l") auto
  have "ring_read l n = Ok (list_of l ! n)" using assms(1) n by (simp add: ring_read_nth)
  then have "ListPopEnd l = Ok (list_of l ! n, ?l')" using n by (simp add: ListPopEnd_def ring_read_def)
  moreover have "list_of l = list_of ?l' @ [list_of l ! n]"
    using n by (simp add: list_of_def nth_append)
  moreover have "list_inv ?l'" using assms by (auto simp: list_inv_def)
  ultimately show ?thesis by (metis butlast_snoc last_snoc)
qed

lemma ListGet_spec:
  "list_inv l \<Longrightarrow>
     ListGet l i = (if 0 \<le> i \<and> i < int (lused l) then Ok (list_of l ! nat i) else Err AssertFail)"
  using ring_read_nth[of l "nat i"] by (auto simp: ListGet_def)

lemma ListContains_spec:
  "list_inv l \<Longrightarrow> ListContains cmp l v = Ok (\<exists>x\<in>set (list_of l). cmp x v)"
  by (simp add: ListContains_def LIST_FOR_EACH_list_of list_ex_iff)

lemma ListDeepCopy_spec:
  assumes "list_inv l"
  shows "\<exists>l'. ListDeepCopy f l = Ok l' \<and> list_inv l' \<and> list_of l' = map f (list_of l)"
proof -
  let ?xs = "map f (list_of l)"
  have "ListDeepCopy f l = Ok \<lparr>lsize = length ?xs, lused = length ?xs, lstart = 0, lvalues = map Some ?xs\<rparr>"
    using arr_write_fill[of f "[]" "list_of l"] by (simp add: ListDeepCopy_def LIST_ENUMERATE_list_of[OF assms])
  then show ?thesis using list_inv_fresh[of ?xs] list_of_fresh[of ?xs] by blast
qed

lemma list_dequeue_spec:
  assumes "list_inv l" and "0 < lused l"
  shows "\<exists>l'. list_dequeue l = Ok (hd (list_of l), l') \<and> list_inv l' \<and> list_of l' = tl (list_of l) \<and> lused l' = lused l - 1"
proof -
  have pos: "0 < lsize l" "lstart l < lsize l" using list_inv_pos[OF assms] by auto
  have "arr_read (lvalues l) (lstart l) = Ok (the (lvalues l ! lstart l))"
    using assms(1) pos by (intro arr_init_read) (auto simp: list_inv_def)
  then have "list_dequeue l = Ok (the (lvalues l ! lstart l), l\<lparr>lused := lused l - 1, lstart := (lstart l + 1) mod lsize l\<rparr>)"
    using pos by (simp add: list_dequeue_def c_mod_def del: arr_read_Ok)
  with list_of_drop_first[OF assms] show ?thesis by simp
qed

lemma LIST_DEQUEUE_EACH_spec:
  "list_inv l \<Longrightarrow> \<exists>l'. LIST_DEQUEUE_EACH l = Ok (list_of l, l') \<and> list_inv l' \<and> list_of l' = []"
proof -
  have "list_inv l \<Longrightarrow> lused l = n \<Longrightarrow> \<exists>l'. dequeue_each n l = Ok (list_of l, l') \<and> list_inv l' \<and> list_of l' = []" for n
  proof (induction n arbitrary: l)
    case 0
    then show ?case using list_of_Nil_iff[of l] by (simp del: list_of_Nil_iff)
  next
    case (Suc n)
    from list_dequeue_spec[OF Suc.prems(1)] Suc.prems(2) obtain l1 where
      l1: "list_dequeue l = Ok (hd (list_of l), l1)" "list_inv l1" "list_of l1 = tl (list_of l)" "lused l1 = n"
      by auto
    from Suc.IH[OF l1(2,4)] obtain l2 where
      l2: "dequeue_each n l1 = Ok (list_of l1, l2)" "list_inv l2" "list_of l2 = []" by blast
    from Suc.prems(2) have "list_of l \<noteq> []" by simp
    then have "hd (list_of l) # list_of l1 = list_of l" using l1(3) by simp
    with l1(1) l2 show ?case by simp
  qed
  then show "list_inv l \<Longrightarrow> \<exists>l'. LIST_DEQUEUE_EACH l = Ok (list_of l, l') \<and> list_inv l' \<and> list_of l' = []"
    by (simp add: LIST_DEQUEUE_EACH_def)
qed

text \<open>
  \<open>Copy\<close> moves \<open>size\<close> cells into a block of \<open>used\<close> cells: it is a copy of a full list, and it
  writes behind its block for any other one.
\<close>

lemma ListCopy_full:
  assumes "list_inv l" and "lused l = lsize l"
  shows "ListCopy l = Ok \<lparr>lsize = lused l, lused = lused l, lstart = 0, lvalues = map Some (list_of l)\<rparr>"
proof -
  have bounds: "length (lvalues l) = lsize l" "lstart l \<le> lsize l"
    using assms by (auto simp: list_inv_def)
  note c1 = mem_cpy_fill[of "lsize l - lstart l" "lsize l" "lstart l" "lvalues l" 0 "[]"]
  note c2 = mem_cpy_fill[of "lstart l" "lstart l" 0 "lvalues l" "lsize l - lstart l" "drop (lstart l) (lvalues l)"]
  have "arr_alloc 0 = ([] :: 'a arr)" by (simp add: arr_alloc_def)
  then show ?thesis
    using bounds assms full_unroll[OF assms] c1 c2 by (simp add: ListCopy_def Let_def del: mem_cpy_Ok)
qed

lemma ListCopy_overflow: "list_inv l \<Longrightarrow> lused l < lsize l \<Longrightarrow> ListCopy l = Err OutOfBounds"
  by (auto simp: ListCopy_def Let_def mem_cpy_def list_inv_def)

text \<open>The loop of \<open>Remove\<close> moves every later item down by one position.\<close>

definition ring_val :: "'a snet_list \<Rightarrow> nat \<Rightarrow> 'a" where
  "ring_val l j = the (lvalues l ! ((lstart l + j) mod lsize l))"

lemma list_of_ring_val: "list_of l = map (ring_val l) [0..<lused l]"
  by (simp add: list_of_def ring_val_def)

lemma shift_down_spec:
  assumes "list_inv l" and "k < lsize l"
  shows "\<exists>l'. shift_down l k = Ok l' \<and> list_inv l' \<and> lused l' = lused l \<and> lsize l' = lsize l \<and>
     (\<forall>j<lsize l. ring_val l' j = (if j = k then ring_val l (Suc k) else ring_val l j))"
proof -
  let ?d = "(lstart l + k) mod lsize l"
  let ?l' = "l\<lparr>lvalues := (lvalues l)[?d := Some (ring_val l (Suc k))]\<rparr>"
  have d: "?d < length (lvalues l)" using assms by (simp add: list_inv_def)
  have "ring_read l (k + 1) = Ok (ring_val l (Suc k))"
    using ring_read_inv[OF assms(1), of "k + 1"] assms(2) by (simp add: ring_val_def)
  then have "shift_down l k = Ok ?l'"
    using assms(2) d by (simp add: shift_down_def c_mod_def arr_write_def)
  moreover have "list_inv ?l'" using assms by (auto simp: list_inv_def)
  moreover have "ring_val ?l' j = (if j = k then ring_val l (Suc k) else ring_val l j)" if "j < lsize l" for j
    using ring_index_eq_iff[OF that assms(2), of "lstart l"] d by (auto simp: ring_val_def nth_list_update)
  ultimately show ?thesis by auto
qed

lemma shift_loop_spec:
  assumes "list_inv l" and "k \<le> lused l"
  shows "\<exists>l'. foldR shift_down l [i..<k] = Ok l' \<and> list_inv l' \<and> lused l' = lused l \<and> lsize l' = lsize l \<and>
     (\<forall>j<lused l. Suc j < lused l \<or> k \<le> j \<longrightarrow> ring_val l' j = (if i \<le> j \<and> j < k then ring_val l (Suc j) else ring_val l j))"
  using assms(2)
proof (induction k)
  case 0
  then show ?case using assms(1) by simp
next
  case (Suc k)
  obtain l1 where l1: "foldR shift_down l [i..<k] = Ok l1" "list_inv l1" "lused l1 = lused l" "lsize l1 = lsize l"
    and vals: "\<And>j. j < lused l \<Longrightarrow> Suc j < lused l \<or> k \<le> j \<Longrightarrow> ring_val l1 j = (if i \<le> j \<and> j < k then ring_val l (Suc j) else ring_val l j)"
    using Suc.IH[OF Suc_leD[OF Suc.prems]] by blast
  have le: "lused l \<le> lsize l" using assms(1) by (simp add: list_inv_def)
  show ?case
  proof (cases "i \<le> k")
    case False
    then have "[i..<Suc k] = []" "[i..<k] = []" by simp_all
    with assms(1) False show ?thesis by auto
  next
    case True
    have k: "k < lsize l1" using Suc.prems l1(4) le by simp
    obtain l2 where l2: "shift_down l1 k = Ok l2" "list_inv l2" "lused l2 = lused l1" "lsize l2 = lsize l1"
      and vals2: "\<And>j. j < lsize l1 \<Longrightarrow> ring_val l2 j = (if j = k then ring_val l1 (Suc k) else ring_val l1 j)"
      using shift_down_spec[OF l1(2) k] by blast
    have "foldR shift_down l [i..<Suc k] = Ok l2" using True l1(1) l2(1) by (simp add: foldR_append)
    moreover have "ring_val l2 j = (if i \<le> j \<and> j < Suc k then ring_val l (Suc j) else ring_val l j)"
      if "j < lused l" "Suc j < lused l \<or> Suc k \<le> j" for j
      using that vals2[of j] vals[of j] vals[of "Suc k"] l1(4) le True by auto
    ultimately show ?thesis using l2 l1 by auto
  qed
qed

lemma ListRemove_spec:
  assumes "list_inv l" and "i < lused l"
  shows "\<exists>l'. ListRemove l (int i) = Ok (the (lvalues l ! i), l') \<and> list_inv l' \<and>
     list_of l' = take i (list_of l) @ drop (Suc i) (list_of l)"
proof -
  obtain l1 where l1: "foldR shift_down l [i..<lused l] = Ok l1" "list_inv l1" "lused l1 = lused l"
    and vals: "\<And>j. Suc j < lused l \<Longrightarrow> ring_val l1 j = (if i \<le> j then ring_val l (Suc j) else ring_val l j)"
    using shift_loop_spec[OF assms(1) order_refl, of i] by auto
  let ?l' = "l1\<lparr>lused := lused l1 - 1\<rparr>"
  have "arr_read (lvalues l) i = Ok (the (lvalues l ! i))"
    using assms by (intro arr_init_read) (auto simp: list_inv_def)
  with l1(1) assms(2) have run: "ListRemove l (int i) = Ok (the (lvalues l ! i), ?l')"
    by (simp add: ListRemove_def del: arr_read_Ok)
  have inv: "list_inv ?l'" using l1(2) by (auto simp: list_inv_def)
  have "ring_val ?l' = ring_val l1" by (simp add: ring_val_def fun_eq_iff)
  then have "list_of ?l' = take i (list_of l) @ drop (Suc i) (list_of l)"
    using assms(2) l1(3) vals
    by (intro nth_equalityI) (auto simp: list_of_ring_val nth_append min_def)
  with run inv show ?thesis by blast
qed

lemma ListSerialise_unrotated:
  assumes "list_inv l" and "lstart l = 0"
  shows "ListSerialise l = Ok (lused l, list_of l)"
proof -
  have "mapR (arr_read (lvalues l)) [0..<lused l] = Ok (map (\<lambda>i. list_of l ! i) [0..<lused l])"
    using assms by (intro mapR_Ok) (auto simp: list_of_nth list_inv_def arr_init_read simp del: arr_read_Ok)
  then show ?thesis by (simp add: ListSerialise_def map_nth[of "list_of l", simplified])
qed

section \<open>The list as a first-in first-out queue\<close>

interpretation list_fifo: unbounded_fifo list_inv list_of ListAppendEnd ListPopStart
proof unfold_locales
  fix q :: "'a snet_list" and x q'
  assume q: "list_inv q"
  show "is_Ok (ListAppendEnd q x)" using ListAppendEnd_spec[OF q, of x] by auto
  assume "ListAppendEnd q x = Ok q'"
  then show "list_inv q' \<and> list_of q' = list_of q @ [x]" using ListAppendEnd_spec[OF q, of x] by auto
next
  fix q :: "'a snet_list" and x q'
  assume q: "list_inv q" and r: "ListPopStart q = Ok (x, q')"
  then have "0 < lused q" using ListPopStart_empty[of q] by (cases "lused q") auto
  with ListPopStart_spec[OF q] r list_of_Nil_iff[of q] show "list_inv q' \<and> list_of q = x # list_of q'"
    by (auto simp del: list_of_Nil_iff)
next
  fix q :: "'a snet_list"
  assume q: "list_inv q" and "list_of q \<noteq> []"
  then show "is_Ok (ListPopStart q)" using ListPopStart_spec[OF q] by auto
qed

section \<open>Machine integers\<close>

text \<open>
  The definitions above have the fields \<open>size\<close>, \<open>used\<close> and \<open>start\<close> as natural numbers. Here are the two operations of a
  first-in first-out list once more with the fields of type \<open>int\<close>: every \<open>int\<close> expression of the code is checked for
  overflow, and a negative index or length is out of bounds. They agree with the definitions above as long as the block has at most
  \<open>2 ^ 28\<close> cells; then also the sizes in bytes, at up to eight bytes per item, fit into 32 bits.
\<close>

record 'a int_snet_list =
  isize :: int
  iused :: int
  istart :: int
  ivalues :: "'a arr"

definition int_rem :: "int \<Rightarrow> int \<Rightarrow> int res" where
  "int_rem a b = (if b = 0 then Err DivByZero else Ok (if 0 \<le> a then a mod \<bar>b\<bar> else - ((- a) mod \<bar>b\<bar>)))"

definition arr_read_at :: "'a arr \<Rightarrow> int \<Rightarrow> 'a res" where
  "arr_read_at a i = (if 0 \<le> i then arr_read a (nat i) else Err OutOfBounds)"

definition arr_write_at :: "'a arr \<Rightarrow> int \<Rightarrow> 'a \<Rightarrow> 'a arr res" where
  "arr_write_at a i v = (if 0 \<le> i then arr_write a (nat i) v else Err OutOfBounds)"

definition mem_cpy_at :: "'a arr \<Rightarrow> int \<Rightarrow> 'a arr \<Rightarrow> int \<Rightarrow> int \<Rightarrow> 'a arr res" where
  "mem_cpy_at dst d src s n = (if 0 \<le> d \<and> 0 \<le> s \<and> 0 \<le> n then mem_cpy dst (nat d) src (nat s) (nat n) else Err OutOfBounds)"

definition grow_end_int :: "'a int_snet_list \<Rightarrow> 'a int_snet_list res" where
  "grow_end_int l =
     bindR (c_int (isize l + 1)) (\<lambda>n.
     bindR (c_int (iused l - istart l)) (\<lambda>startToArrayEnd.
     bindR (mem_cpy_at (arr_alloc (nat n)) 0 (ivalues l) (istart l) startToArrayEnd) (\<lambda>vs.
     bindR (c_int (iused l - startToArrayEnd)) (\<lambda>k.
     bindR (mem_cpy_at vs startToArrayEnd (ivalues l) 0 k) (\<lambda>vs'.
     Ok (l\<lparr>ivalues := vs', isize := n, istart := 0\<rparr>))))))"

definition AppendEnd_int :: "'a int_snet_list \<Rightarrow> 'a \<Rightarrow> 'a int_snet_list res" where
  "AppendEnd_int l val =
     bindR (if iused l = isize l then grow_end_int l else Ok l) (\<lambda>l.
     bindR (c_int (istart l + iused l)) (\<lambda>i. bindR (int_rem i (isize l)) (\<lambda>i.
     bindR (arr_write_at (ivalues l) i val) (\<lambda>vs.
     bindR (c_int (iused l + 1)) (\<lambda>u.
     Ok (l\<lparr>ivalues := vs, iused := u\<rparr>))))))"

definition PopStart_int :: "'a int_snet_list \<Rightarrow> ('a \<times> 'a int_snet_list) res" where
  "PopStart_int l =
     bindR (assertR (0 < iused l)) (\<lambda>_.
     bindR (c_int (iused l - 1)) (\<lambda>u.
     bindR (c_int (istart l + 1)) (\<lambda>st. bindR (int_rem st (isize l)) (\<lambda>st.
     bindR (c_int (st + isize l)) (\<lambda>i. bindR (c_int (i - 1)) (\<lambda>i. bindR (int_rem i (isize l)) (\<lambda>i.
     bindR (arr_read_at (ivalues l) i) (\<lambda>v.
     Ok (v, l\<lparr>iused := u, istart := st\<rparr>)))))))))"

definition int_list_of :: "'a snet_list \<Rightarrow> 'a int_snet_list" where
  "int_list_of l = \<lparr>isize = int (lsize l), iused = int (lused l), istart = int (lstart l), ivalues = lvalues l\<rparr>"

lemma int_list_of_simps [simp]:
  "isize (int_list_of l) = int (lsize l)" "iused (int_list_of l) = int (lused l)" "istart (int_list_of l) = int (lstart l)" "ivalues (int_list_of l) = lvalues l"
  by (simp_all add: int_list_of_def)

lemma int_ops_nat [simp]:
  "int_rem (int a) (int b) = map_res int (c_mod a b)"
  "arr_read_at vs (int i) = arr_read vs i" "arr_write_at vs (int i) v = arr_write vs i v"
  "mem_cpy_at dst (int d) src (int k) (int n) = mem_cpy dst d src k n"
  by (simp_all add: int_rem_def c_mod_def arr_read_at_def arr_write_at_def mem_cpy_at_def zmod_int)

lemma c_int_nat: "n < 2 ^ 31 \<Longrightarrow> c_int (int n) = Ok (int n)"
proof -
  assume "n < 2 ^ 31"
  then have "int n < 2 ^ 31" by (metis of_nat_less_numeral_power_cancel_iff)
  then show ?thesis by (simp add: int_range_def)
qed

lemma grow_end_int_refines:
  assumes "list_inv l" and "lused l = lsize l" and "lsize l < 2 ^ 28"
  shows "grow_end_int (int_list_of l) = map_res int_list_of (grow_end l)"
proof -
  have st: "lstart l \<le> lused l" using assms by (auto simp: list_inv_def)
  have i: "int (lsize l) + 1 = int (lsize l + 1)" "int (lused l) - int (lstart l) = int (lused l - lstart l)"
    "int (lused l) - int (lused l - lstart l) = int (lused l - (lused l - lstart l))" "(0 :: int) = int 0" using st by simp_all
  have c: "c_int (int (lsize l + 1)) = Ok (int (lsize l + 1))" "c_int (int (lused l - lstart l)) = Ok (int (lused l - lstart l))"
    "c_int (int (lused l - (lused l - lstart l))) = Ok (int (lused l - (lused l - lstart l)))"
    by (rule c_int_nat, use assms in simp)+
  show ?thesis
    unfolding grow_end_int_def int_list_of_simps i c bindR.simps int_ops_nat nat_int grow_end_def Let_def map_res_bindR
    by (simp add: int_list_of_def)
qed

lemma AppendEnd_int_refines:
  assumes "list_inv l" and "lsize l \<le> 2 ^ 28" and "lused l + 1 \<le> 2 ^ 28"
  shows "AppendEnd_int (int_list_of l) v = map_res int_list_of (ListAppendEnd l v)"
proof -
  have tail: "bindR (c_int (istart (int_list_of l) + iused (int_list_of l))) (\<lambda>i. bindR (int_rem i (isize (int_list_of l))) (\<lambda>i.
      bindR (arr_write_at (ivalues (int_list_of l)) i v) (\<lambda>vs. bindR (c_int (iused (int_list_of l) + 1)) (\<lambda>u. Ok ((int_list_of l)\<lparr>ivalues := vs, iused := u\<rparr>))))) =
      map_res int_list_of (bindR (c_mod (lstart l + lused l) (lsize l)) (\<lambda>i. bindR (arr_write (lvalues l) i v) (\<lambda>vs. Ok (l\<lparr>lvalues := vs, lused := lused l + 1\<rparr>))))"
    if "lstart l \<le> 2 ^ 28" "lused l + 1 \<le> 2 ^ 28" for l
  proof -
    have i: "int (lstart l) + int (lused l) = int (lstart l + lused l)" "int (lused l) + 1 = int (lused l + 1)" by simp_all
    have c: "c_int (int (lstart l + lused l)) = Ok (int (lstart l + lused l))" "c_int (int (lused l + 1)) = Ok (int (lused l + 1))"
      by (rule c_int_nat, use that in simp)+
    show ?thesis unfolding int_list_of_simps i c bindR.simps int_ops_nat map_res_bindR bindR_map_res by (simp add: int_list_of_def)
  qed
  show ?thesis
  proof (cases "lused l = lsize l")
    case True
    then have "lsize l < 2 ^ 28" using assms(3) by simp
    from grow_end_int_refines[OF assms(1) True this] grow_end_Ok[OF assms(1) True] tail[of "l\<lparr>lvalues := map Some (list_of l) @ [None], lsize := lsize l + 1, lstart := 0\<rparr>"] assms(3) True
    show ?thesis by (simp add: AppendEnd_int_def ListAppendEnd_def del: bindR_eq_Ok)
  next
    case False
    have "lstart l \<le> 2 ^ 28" using assms(1,2) by (auto simp: list_inv_def)
    from tail[OF this assms(3)] False show ?thesis by (simp add: AppendEnd_int_def ListAppendEnd_def)
  qed
qed

lemma PopStart_int_refines:
  assumes "list_inv l" and "lsize l \<le> 2 ^ 28"
  shows "PopStart_int (int_list_of l) = map_res (map_prod id int_list_of) (ListPopStart l)"
proof (cases "0 < lused l")
  case True
  have st: "lstart l < lsize l" "lused l \<le> lsize l" using assms(1) True by (auto simp: list_inv_def)
  let ?st = "(lstart l + 1) mod lsize l"
  have "x + lsize l < 2 ^ 31" if "x < lsize l" for x using that assms(2) by simp
  then have m: "?st + lsize l < 2 ^ 31" using st by (metis mod_less_divisor less_nat_zero_code neq0_conv)
  have i: "int (lused l) - 1 = int (lused l - 1)" "int (lstart l) + 1 = int (lstart l + 1)" "int ?st + int (lsize l) = int (?st + lsize l)"
    "int (?st + lsize l) - 1 = int (?st + lsize l - 1)" using True st by simp_all
  have c: "c_int (int (lused l - 1)) = Ok (int (lused l - 1))" "c_int (int (lstart l + 1)) = Ok (int (lstart l + 1))"
    by (rule c_int_nat, use assms(2) st in simp)+
  have d: "c_int (int (?st + lsize l)) = Ok (int (?st + lsize l))" "c_int (int (?st + lsize l - 1)) = Ok (int (?st + lsize l - 1))"
    by (rule c_int_nat, use m in linarith)+
  have r: "c_mod (lstart l + 1) (lsize l) = Ok ?st" using st by simp
  show ?thesis
    unfolding PopStart_int_def ListPopStart_def int_list_of_simps i(1,2) c(1,2) int_ops_nat r res.map bindR.simps i(3) d(1) i(4) d(2) map_res_bindR bindR_map_res
    using True by (simp add: int_list_of_def assertR_def del: bindR_eq_Ok)
qed (simp add: PopStart_int_def ListPopStart_def assertR_def)

lemma list_pop_size: "ListPopStart q = Ok (x, q') \<Longrightarrow> lsize q' = lsize q"
  by (auto simp: ListPopStart_def assertR_def split: if_splits)

lemma list_append_size:
  assumes "list_inv q" and "ListAppendEnd q x = Ok q'"
  shows "lsize q' \<le> max (lsize q) (lused q + 1)"
proof (cases "lused q = lsize q")
  case True
  with assms grow_end_Ok[OF assms(1) True] show ?thesis by (auto simp: ListAppendEnd_def)
qed (use assms(2) in \<open>auto simp: ListAppendEnd_def\<close>)

interpretation int_list: machine_fifo list_inv list_of ListAppendEnd ListPopStart int_list_of AppendEnd_int PopStart_int lsize 1 "2 ^ 28"
  by unfold_locales (use list_append_size in \<open>auto simp: AppendEnd_int_refines PopStart_int_refines dest: list_pop_size\<close>)

section \<open>Properties\<close>

text \<open>
  C30. Any sequence of appends at the end and pops from the start that never pops an empty list and never holds \<open>2 ^ 28\<close>
  items or more, on a list with at most \<open>2 ^ 28\<close> cells, runs to its end on the C integers without a memory error and without an overflow, keeps
  the representation invariant across every
  growth and wrap-around of the ring, and returns the items in the order they were appended.
\<close>

theorem list_ops_fifo:
  assumes "list_inv l" and "enough (lused l) ops" and "lsize l \<le> 2 ^ 28" and "peak (lused l) ops < 2 ^ 28"
  shows "\<exists>outs l'. run_ops AppendEnd_int PopStart_int ops (int_list_of l) = Ok (outs, int_list_of l') \<and> list_inv l' \<and>
     outs @ list_of l' = list_of l @ puts_of ops"
proof -
  obtain outs l' where r: "run_ops ListAppendEnd ListPopStart ops l = Ok (outs, l')"
    using list_fifo.run_ops_total[OF assms(1), of ops] assms(2) by (auto simp: is_Ok_iff)
  have "run_ops AppendEnd_int PopStart_int ops (int_list_of l) = map_res (map_prod id int_list_of) (run_ops ListAppendEnd ListPopStart ops l)"
    by (rule int_list.run_refines[OF assms(1,3)]) (use assms(4) in simp)
  with r list_fifo.run_ops_order[OF assms(1) r] show ?thesis by (intro exI[of _ outs] exI[of _ l']) simp
qed

theorem list_ops_fifo_witness:
  "\<exists>outs l'. run_ops AppendEnd_int PopStart_int [PutOp 7, PutOp 9, GetOp, PutOp 8, GetOp]
       (int_list_of \<lparr>lsize = 2, lused = 1, lstart = 1, lvalues = [Some (5 :: int), Some 6]\<rparr>) = Ok (outs, int_list_of l') \<and> list_inv l' \<and>
     outs @ list_of l' = list_of \<lparr>lsize = 2, lused = 1, lstart = 1, lvalues = [Some 5, Some 6]\<rparr> @ puts_of [PutOp 7, PutOp 9, GetOp, PutOp 8, GetOp]"
  by (rule list_ops_fifo) (simp_all add: list_inv_def)

text \<open>
  C32. Copying a list is right exactly for a full list: the copy has the items in order in a fresh
  array. For a list with spare cells the copy writes \<open>size\<close> cells into a block of \<open>used\<close> cells.
\<close>

theorem list_copy_full_or_overflow:
  "list_inv l \<Longrightarrow>
     ListCopy l = (if lused l = lsize l
       then Ok \<lparr>lsize = lused l, lused = lused l, lstart = 0, lvalues = map Some (list_of l)\<rparr>
       else Err OutOfBounds)"
  using ListCopy_full[of l] ListCopy_overflow[of l] by (auto simp: list_inv_def)

theorem list_copy_full_or_overflow_witness:
  "ListCopy \<lparr>lsize = 2, lused = 1, lstart = 1, lvalues = [Some (5 :: int), Some 6]\<rparr> = Err OutOfBounds"
  using list_copy_full_or_overflow[of "\<lparr>lsize = 2, lused = 1, lstart = 1, lvalues = [Some (5 :: int), Some 6]\<rparr>"]
  by (simp add: list_inv_def)

text \<open>
  Removing position \<open>i\<close> takes exactly the \<open>i\<close>-th item out of the sequence; the value it
  returns is the cell \<open>values[i]\<close> of the array, which is that item when the ring starts at 0.
\<close>

lemma list_remove_sequence:
  assumes "list_inv l" and "i < lused l"
  shows "\<exists>x l'. ListRemove l (int i) = Ok (x, l') \<and> list_inv l' \<and> list_of l' = take i (list_of l) @ drop (Suc i) (list_of l) \<and>
     x = the (lvalues l ! i) \<and> (lstart l = 0 \<longrightarrow> x = list_of l ! i)"
proof -
  from ListRemove_spec[OF assms] obtain l' where l': "ListRemove l (int i) = Ok (the (lvalues l ! i), l')" "list_inv l'"
    "list_of l' = take i (list_of l) @ drop (Suc i) (list_of l)" by blast
  moreover have "lstart l = 0 \<Longrightarrow> the (lvalues l ! i) = list_of l ! i"
    using assms by (simp add: list_of_nth list_inv_def)
  ultimately show ?thesis by (intro exI[of _ "the (lvalues l ! i)"] exI[of _ l']) auto
qed

end
