(* ===== verification/Variant.thy ===== *)
theory Variant
  imports List_Template
begin

text \<open>
  Variants (\<open>runtime/common/variant.c\<close>): the type of a record as three lists of label names,
  for fields, tags and binding tags. \<open>variant_ok\<close> is the invariant of the three lists;
  \<open>vfields\<close>, \<open>vtags\<close> and \<open>vbtags\<close> are the label sets a variant denotes.
\<close>

section \<open>The structure and its operations\<close>

type_synonym int_list = "int snet_list"

record snet_variant =
  v_tags :: int_list
  v_btags :: int_list
  v_fields :: int_list

definition SNetIntListContains :: "int_list \<Rightarrow> int \<Rightarrow> bool res" where
  "SNetIntListContains = ListContains (=)"

definition SNetVariantCreate :: "int_list \<Rightarrow> int_list \<Rightarrow> int_list \<Rightarrow> snet_variant" where
  "SNetVariantCreate fs ts bs = \<lparr>v_tags = ts, v_btags = bs, v_fields = fs\<rparr>"

definition SNetVariantCreateEmpty :: "snet_variant res" where
  "SNetVariantCreateEmpty =
     bindR (ListCreate []) (\<lambda>ts. bindR (ListCreate []) (\<lambda>bs. bindR (ListCreate []) (\<lambda>fs.
     Ok \<lparr>v_tags = ts, v_btags = bs, v_fields = fs\<rparr>)))"

definition SNetVariantCopy :: "snet_variant \<Rightarrow> snet_variant res" where
  "SNetVariantCopy var =
     bindR (ListCopy (v_fields var)) (\<lambda>fs. bindR (ListCopy (v_tags var)) (\<lambda>ts.
     bindR (ListCopy (v_btags var)) (\<lambda>bs. Ok (SNetVariantCreate fs ts bs))))"

text \<open>
  \<open>IntlistAddAll\<close>: one round per name of \<open>src\<close>. With \<open>ow\<close> set, a name that is there already is
  passed to \<open>SNetIntListRemove\<close>, whose argument is a position.
\<close>

definition add_all_step :: "bool \<Rightarrow> int_list \<Rightarrow> int \<Rightarrow> int_list res" where
  "add_all_step ow dst name =
     bindR (SNetIntListContains dst name) (\<lambda>cont.
     bindR (if cont \<and> ow then bindR (ListRemove dst name) (\<lambda>(_, l). Ok l) else Ok dst) (\<lambda>dst.
     if \<not> cont \<or> ow then ListAppendEnd dst name else Ok dst))"

definition IntlistAddAll :: "int_list \<Rightarrow> int_list \<Rightarrow> bool \<Rightarrow> int_list res" where
  "IntlistAddAll dst src ow = bindR (LIST_FOR_EACH src) (foldR (add_all_step ow) dst)"

definition SNetVariantAddAll :: "snet_variant \<Rightarrow> snet_variant \<Rightarrow> bool \<Rightarrow> snet_variant res" where
  "SNetVariantAddAll to fro overwrite =
     bindR (IntlistAddAll (v_fields to) (v_fields fro) overwrite) (\<lambda>fs.
     bindR (IntlistAddAll (v_tags to) (v_tags fro) overwrite) (\<lambda>ts.
     bindR (IntlistAddAll (v_btags to) (v_btags fro) overwrite) (\<lambda>bs.
     Ok \<lparr>v_tags = ts, v_btags = bs, v_fields = fs\<rparr>)))"

definition SNetVariantIsEmpty :: "snet_variant \<Rightarrow> bool" where
  "SNetVariantIsEmpty var \<longleftrightarrow>
     ListLength (v_tags var) = 0 \<and> ListLength (v_btags var) = 0 \<and> ListLength (v_fields var) = 0"

definition SNetVariantAddTag :: "snet_variant \<Rightarrow> int \<Rightarrow> snet_variant res" where
  "SNetVariantAddTag var name = bindR (ListAppendEnd (v_tags var) name) (\<lambda>l. Ok (var\<lparr>v_tags := l\<rparr>))"

definition SNetVariantRemoveTag :: "snet_variant \<Rightarrow> int \<Rightarrow> snet_variant res" where
  "SNetVariantRemoveTag var name = bindR (ListRemove (v_tags var) name) (\<lambda>(_, l). Ok (var\<lparr>v_tags := l\<rparr>))"

definition SNetVariantHasTag :: "snet_variant \<Rightarrow> int \<Rightarrow> bool res" where
  "SNetVariantHasTag var name = SNetIntListContains (v_tags var) name"

definition SNetVariantNumTags :: "snet_variant \<Rightarrow> nat" where
  "SNetVariantNumTags var = ListLength (v_tags var)"

definition SNetVariantAddBTag :: "snet_variant \<Rightarrow> int \<Rightarrow> snet_variant res" where
  "SNetVariantAddBTag var name = bindR (ListAppendEnd (v_btags var) name) (\<lambda>l. Ok (var\<lparr>v_btags := l\<rparr>))"

definition SNetVariantRemoveBTag :: "snet_variant \<Rightarrow> int \<Rightarrow> snet_variant res" where
  "SNetVariantRemoveBTag var name = bindR (ListRemove (v_btags var) name) (\<lambda>(_, l). Ok (var\<lparr>v_btags := l\<rparr>))"

definition SNetVariantHasBTag :: "snet_variant \<Rightarrow> int \<Rightarrow> bool res" where
  "SNetVariantHasBTag var name = SNetIntListContains (v_btags var) name"

definition SNetVariantNumBTags :: "snet_variant \<Rightarrow> nat" where
  "SNetVariantNumBTags var = ListLength (v_btags var)"

definition SNetVariantAddField :: "snet_variant \<Rightarrow> int \<Rightarrow> snet_variant res" where
  "SNetVariantAddField var name = bindR (ListAppendEnd (v_fields var) name) (\<lambda>l. Ok (var\<lparr>v_fields := l\<rparr>))"

definition SNetVariantRemoveField :: "snet_variant \<Rightarrow> int \<Rightarrow> snet_variant res" where
  "SNetVariantRemoveField var name = bindR (ListRemove (v_fields var) name) (\<lambda>(_, l). Ok (var\<lparr>v_fields := l\<rparr>))"

definition SNetVariantHasField :: "snet_variant \<Rightarrow> int \<Rightarrow> bool res" where
  "SNetVariantHasField var name = SNetIntListContains (v_fields var) name"

definition SNetVariantNumFields :: "snet_variant \<Rightarrow> nat" where
  "SNetVariantNumFields var = ListLength (v_fields var)"

section \<open>The label sets of a variant\<close>

definition variant_ok :: "snet_variant \<Rightarrow> bool" where
  "variant_ok v \<longleftrightarrow> list_inv (v_tags v) \<and> list_inv (v_btags v) \<and> list_inv (v_fields v)"

definition vtags :: "snet_variant \<Rightarrow> int set" where
  "vtags v = set (list_of (v_tags v))"

definition vbtags :: "snet_variant \<Rightarrow> int set" where
  "vbtags v = set (list_of (v_btags v))"

definition vfields :: "snet_variant \<Rightarrow> int set" where
  "vfields v = set (list_of (v_fields v))"

lemmas variant_sets = vtags_def vbtags_def vfields_def

lemma SNetIntListContains_spec: "list_inv l \<Longrightarrow> SNetIntListContains l x = Ok (x \<in> set (list_of l))"
  by (simp add: SNetIntListContains_def ListContains_spec)

lemma variant_has:
  assumes "variant_ok v"
  shows "SNetVariantHasTag v n = Ok (n \<in> vtags v)"
    and "SNetVariantHasBTag v n = Ok (n \<in> vbtags v)"
    and "SNetVariantHasField v n = Ok (n \<in> vfields v)"
  using assms by (simp_all add: variant_ok_def variant_sets SNetVariantHasTag_def SNetVariantHasBTag_def
    SNetVariantHasField_def SNetIntListContains_spec)

lemma variant_add:
  assumes "variant_ok v"
  shows "\<exists>v'. SNetVariantAddTag v n = Ok v' \<and> variant_ok v' \<and> vtags v' = insert n (vtags v) \<and> vbtags v' = vbtags v \<and> vfields v' = vfields v"
    and "\<exists>v'. SNetVariantAddBTag v n = Ok v' \<and> variant_ok v' \<and> vbtags v' = insert n (vbtags v) \<and> vtags v' = vtags v \<and> vfields v' = vfields v"
    and "\<exists>v'. SNetVariantAddField v n = Ok v' \<and> variant_ok v' \<and> vfields v' = insert n (vfields v) \<and> vtags v' = vtags v \<and> vbtags v' = vbtags v"
  using assms ListAppendEnd_spec[of "v_tags v" n] ListAppendEnd_spec[of "v_btags v" n] ListAppendEnd_spec[of "v_fields v" n]
  by (auto simp: variant_ok_def variant_sets SNetVariantAddTag_def SNetVariantAddBTag_def SNetVariantAddField_def)

lemma SNetVariantIsEmpty_spec:
  "SNetVariantIsEmpty v \<longleftrightarrow> vtags v = {} \<and> vbtags v = {} \<and> vfields v = {}"
  by (simp add: SNetVariantIsEmpty_def variant_sets ListLength_def)

lemma SNetVariantCreateEmpty_spec:
  "\<exists>v. SNetVariantCreateEmpty = Ok v \<and> variant_ok v \<and> SNetVariantIsEmpty v"
  using list_inv_fresh[of "[]"] by (simp add: SNetVariantCreateEmpty_def ListCreate_Ok variant_ok_def SNetVariantIsEmpty_def ListLength_def)

text \<open>Without overwriting, \<open>IntlistAddAll\<close> is the union; a set of the result keeps its names distinct.\<close>

lemma IntlistAddAll_union:
  assumes "list_inv dst" and "list_inv src"
  shows "\<exists>l. IntlistAddAll dst src False = Ok l \<and> list_inv l \<and>
     set (list_of l) = set (list_of dst) \<union> set (list_of src) \<and> (distinct (list_of dst) \<longrightarrow> distinct (list_of l))"
proof -
  have "\<exists>l. foldR (add_all_step False) dst xs = Ok l \<and> list_inv l \<and>
     set (list_of l) = set (list_of dst) \<union> set xs \<and> (distinct (list_of dst) \<longrightarrow> distinct (list_of l))" for xs
    using assms(1)
  proof (induction xs arbitrary: dst)
    case Nil
    then show ?case by simp
  next
    case (Cons x xs)
    obtain d where d: "ListAppendEnd dst x = Ok d" "list_inv d" "list_of d = list_of dst @ [x]"
      using ListAppendEnd_spec[OF Cons.prems, of x] by blast
    show ?case
    proof (cases "x \<in> set (list_of dst)")
      case True
      with Cons.IH[OF Cons.prems] Cons.prems show ?thesis
        by (auto simp: add_all_step_def SNetIntListContains_spec)
    next
      case False
      with Cons.IH[OF d(2)] Cons.prems d show ?thesis
        by (auto simp: add_all_step_def SNetIntListContains_spec)
    qed
  qed
  from this[of "list_of src"] show ?thesis by (simp add: IntlistAddAll_def LIST_FOR_EACH_list_of[OF assms(2)])
qed

lemma SNetVariantAddAll_union:
  assumes "variant_ok to" and "variant_ok fro"
  shows "\<exists>v. SNetVariantAddAll to fro False = Ok v \<and> variant_ok v \<and>
     vtags v = vtags to \<union> vtags fro \<and> vbtags v = vbtags to \<union> vbtags fro \<and> vfields v = vfields to \<union> vfields fro"
proof -
  from assms obtain f t b where
    "IntlistAddAll (v_fields to) (v_fields fro) False = Ok f" "list_inv f" "set (list_of f) = vfields to \<union> vfields fro"
    "IntlistAddAll (v_tags to) (v_tags fro) False = Ok t" "list_inv t" "set (list_of t) = vtags to \<union> vtags fro"
    "IntlistAddAll (v_btags to) (v_btags fro) False = Ok b" "list_inv b" "set (list_of b) = vbtags to \<union> vbtags fro"
    unfolding variant_ok_def variant_sets using IntlistAddAll_union by metis
  then show ?thesis by (simp add: SNetVariantAddAll_def variant_ok_def variant_sets)
qed

text \<open>
  A variant without spare cells can be copied; adding labels to the empty variant leaves none.
\<close>

definition variant_full :: "snet_variant \<Rightarrow> bool" where
  "variant_full v \<longleftrightarrow> lused (v_tags v) = lsize (v_tags v) \<and> lused (v_btags v) = lsize (v_btags v) \<and> lused (v_fields v) = lsize (v_fields v)"

lemma IntlistAddAll_full:
  assumes "list_inv dst" and "lused dst = lsize dst" and "list_inv src" and "IntlistAddAll dst src False = Ok l"
  shows "lused l = lsize l"
proof -
  have f: "foldR (add_all_step False) dst (list_of src) = Ok l"
    using assms(3,4) by (simp add: IntlistAddAll_def LIST_FOR_EACH_list_of)
  have st: "list_inv d' \<and> lused d' = lsize d'" if "list_inv d \<and> lused d = lsize d" "add_all_step False d x = Ok d'" for d d' x
  proof (cases "x \<in> set (list_of d)")
    case True
    with that show ?thesis by (auto simp: add_all_step_def SNetIntListContains_spec)
  next
    case False
    with that have "ListAppendEnd d x = Ok d'" by (simp add: add_all_step_def SNetIntListContains_spec)
    with that(1) ListAppendEnd_full[of d x d'] ListAppendEnd_spec[of d x] show ?thesis by auto
  qed
  have "list_inv l \<and> lused l = lsize l"
    by (rule foldR_invariant[OF f, where I = "\<lambda>d. list_inv d \<and> lused d = lsize d"]) (use assms(1,2) st in blast)+
  then show ?thesis by simp
qed

lemma SNetVariantAddAll_full:
  "variant_ok to \<Longrightarrow> variant_ok fro \<Longrightarrow> variant_full to \<Longrightarrow> SNetVariantAddAll to fro False = Ok v \<Longrightarrow> variant_full v"
  by (auto simp: SNetVariantAddAll_def variant_full_def variant_ok_def dest: IntlistAddAll_full)

lemma SNetVariantCreateEmpty_full: "SNetVariantCreateEmpty = Ok v \<Longrightarrow> variant_full v"
  by (auto simp: SNetVariantCreateEmpty_def ListCreate_Ok variant_full_def)

lemma SNetVariantCopy_full:
  assumes "variant_ok v" and "variant_full v"
  shows "\<exists>w. SNetVariantCopy v = Ok w \<and> variant_ok w \<and> variant_full w \<and> vtags w = vtags v \<and> vbtags w = vbtags v \<and> vfields w = vfields v"
proof -
  have "\<exists>c. ListCopy l = Ok c \<and> list_inv c \<and> lused c = lsize c \<and> list_of c = list_of l"
    if "list_inv l" "lused l = lsize l" for l :: int_list
    using ListCopy_full[OF that] list_inv_fresh[of "list_of l"] list_of_fresh[of "list_of l"]
    by (intro exI[of _ "\<lparr>lsize = length (list_of l), lused = length (list_of l), lstart = 0, lvalues = map Some (list_of l)\<rparr>"]) simp
  then obtain f t b where
    "ListCopy (v_fields v) = Ok f" "list_inv f" "lused f = lsize f" "list_of f = list_of (v_fields v)"
    "ListCopy (v_tags v) = Ok t" "list_inv t" "lused t = lsize t" "list_of t = list_of (v_tags v)"
    "ListCopy (v_btags v) = Ok b" "list_inv b" "lused b = lsize b" "list_of b = list_of (v_btags v)"
    using assms unfolding variant_ok_def variant_full_def by meson
  then show ?thesis by (simp add: SNetVariantCopy_def variant_ok_def variant_full_def SNetVariantCreate_def variant_sets)
qed

text \<open>
  Removing a label that is not a valid position of its list fails the assertion of the list,
  also when the label is present.
\<close>

lemma SNetVariantRemoveTag_position:
  "variant_ok v \<Longrightarrow> n < 0 \<or> int (SNetVariantNumTags v) \<le> n \<Longrightarrow> SNetVariantRemoveTag v n = Err AssertFail"
  by (auto simp: SNetVariantRemoveTag_def ListRemove_def SNetVariantNumTags_def ListLength_def)

text \<open>A list as \<open>SNetIntListCreate\<close> returns it.\<close>

definition int_list :: "int list \<Rightarrow> int_list" where
  "int_list xs = \<lparr>lsize = length xs, lused = length xs, lstart = 0, lvalues = map Some xs\<rparr>"

lemma int_list_simps [simp]: "list_inv (int_list xs)" "list_of (int_list xs) = xs"
  by (simp_all add: int_list_def)

section \<open>Properties\<close>

text \<open>
  Adding all labels of a variant to another without overwriting gives the union of the label
  sets, kind by kind, for any two well-formed variants.
\<close>

lemma variant_add_all_union:
  "variant_ok to \<Longrightarrow> variant_ok fro \<Longrightarrow>
     \<exists>v. SNetVariantAddAll to fro False = Ok v \<and> variant_ok v \<and>
       vtags v = vtags to \<union> vtags fro \<and> vbtags v = vbtags to \<union> vbtags fro \<and> vfields v = vfields to \<union> vfields fro"
  by (rule SNetVariantAddAll_union)

text \<open>
  Removing a label passes the label as a position: a present label outside the range of
  positions of its list stops the program with a failed assertion.
\<close>

lemma variant_remove_uses_position:
  "variant_ok v \<Longrightarrow> n \<in> vtags v \<Longrightarrow> int (SNetVariantNumTags v) \<le> n \<Longrightarrow> SNetVariantRemoveTag v n = Err AssertFail"
  by (simp add: SNetVariantRemoveTag_position)

end
