(* ===== verification/Map_Spec.thy ===== *)
theory Map_Spec
  imports Prelude
begin

text \<open>
  The contract of a key-value store with an update and a lookup operation, as two locales.
  \<open>map_store\<close> promises that a put returns and changes the stored map at one key only;
  \<open>map_read\<close> adds an operation that fetches the value of a present key. The client lemmas
  about sequences of puts are used through the interpretations on the map template
  (\<open>Map_Template\<close>) and the open-addressing table (\<open>Hashtab\<close>).
\<close>

locale map_store =
  fixes invar :: "'m \<Rightarrow> bool"
    and lookup :: "'m \<Rightarrow> 'k \<Rightarrow> 'v option"
    and valid_key :: "'k \<Rightarrow> bool"
    and put :: "'m \<Rightarrow> 'k \<Rightarrow> 'v \<Rightarrow> 'm res"
  assumes put_law:
    "invar m \<Longrightarrow> valid_key k \<Longrightarrow> \<exists>m'. put m k v = Ok m' \<and> invar m' \<and> lookup m' = (lookup m)(k \<mapsto> v)"
begin

text \<open>A sequence of puts overrides the stored map, a later put winning over an earlier one.\<close>

lemma puts_law:
  "invar m \<Longrightarrow> \<forall>(k, v)\<in>set kvs. valid_key k \<Longrightarrow>
     \<exists>m'. foldR (\<lambda>m (k, v). put m k v) m kvs = Ok m' \<and> invar m' \<and> lookup m' = lookup m ++ map_of (rev kvs)"
proof (induction kvs arbitrary: m)
  case Nil
  then show ?case by simp
next
  case (Cons kv kvs)
  obtain k v where kv: "kv = (k, v)" by (cases kv)
  with Cons.prems obtain m1 where m1: "put m k v = Ok m1" "invar m1" "lookup m1 = (lookup m)(k \<mapsto> v)"
    using put_law[of m k v] by auto
  from Cons.IH[OF m1(2)] Cons.prems(2) obtain m2 where
    m2: "foldR (\<lambda>m (k, v). put m k v) m1 kvs = Ok m2" "invar m2" "lookup m2 = lookup m1 ++ map_of (rev kvs)"
    by auto
  have "lookup m2 = lookup m ++ map_of (rev (kv # kvs))"
    using m2(3) m1(3) kv by (auto simp: map_add_def fun_eq_iff split: option.splits)
  with m1(1) m2 kv show ?case by simp
qed

lemma put_put_same:
  assumes "invar m" and "valid_key k"
  shows "\<exists>m1 m2. put m k v = Ok m1 \<and> put m1 k w = Ok m2 \<and> invar m2 \<and> lookup m2 = (lookup m)(k \<mapsto> w)"
  using put_law[OF assms, of v] put_law[of _ k w] assms(2) by fastforce

lemma put_put_commute:
  assumes "invar m" and "valid_key k" and "valid_key l" and "k \<noteq> l"
  shows "\<exists>m1 m2. bindR (put m k v) (\<lambda>m. put m l w) = Ok m1 \<and> bindR (put m l w) (\<lambda>m. put m k v) = Ok m2 \<and>
     lookup m1 = lookup m2"
proof -
  obtain a b where ab: "put m k v = Ok a" "invar a" "lookup a = (lookup m)(k \<mapsto> v)"
    "put m l w = Ok b" "invar b" "lookup b = (lookup m)(l \<mapsto> w)"
    using put_law[OF assms(1,2)] put_law[OF assms(1,3)] by blast
  obtain c d where "put a l w = Ok c" "lookup c = (lookup a)(l \<mapsto> w)" "put b k v = Ok d" "lookup d = (lookup b)(k \<mapsto> v)"
    using put_law[OF ab(2) assms(3)] put_law[OF ab(5) assms(2)] by blast
  with ab assms(4) show ?thesis by (auto simp: fun_upd_twist)
qed

end

locale map_read = map_store +
  fixes fetch :: "'a \<Rightarrow> 'b \<Rightarrow> 'c res"
  assumes fetch_law: "invar m \<Longrightarrow> valid_key k \<Longrightarrow> lookup m k = Some v \<Longrightarrow> fetch m k = Ok v"
begin

text \<open>What was put last under a key is what a fetch returns, whatever was put under others.\<close>

lemma fetch_after_puts:
  assumes "invar m" and "\<forall>(k, v)\<in>set kvs. valid_key k" and "map_of (rev kvs) k = Some v"
  shows "\<exists>m'. foldR (\<lambda>m (k, v). put m k v) m kvs = Ok m' \<and> fetch m' k = Ok v"
proof -
  from assms(3) have "(k, v) \<in> set kvs" using map_of_SomeD by fastforce
  with assms(2) have vk: "valid_key k" by auto
  obtain m' where m': "foldR (\<lambda>m (k, v). put m k v) m kvs = Ok m'" "invar m'" "lookup m' = lookup m ++ map_of (rev kvs)"
    using puts_law[OF assms(1,2)] by blast
  with fetch_law[OF m'(2) vk, of v] assms(3) show ?thesis by auto
qed

lemma fetch_after_put_other:
  assumes "invar m" and "valid_key k" and "valid_key l" and "k \<noteq> l" and "lookup m l = Some w"
  shows "\<exists>m'. put m k v = Ok m' \<and> fetch m' l = Ok w"
  using put_law[OF assms(1,2), of v] fetch_law[OF _ assms(3)] assms(4,5) by fastforce

end

end
