(* ===== verification/Map_Template.thy ===== *)
theory Map_Template
  imports Map_Spec "HOL-Library.AList"
begin

text \<open>
  The map template \<open>include/map-template.c\<close> with the iteration macros of
  \<open>include/map-template.h\<close>: parallel arrays of keys and values that are searched linearly
  and grow by one cell. Tags, binding tags and fields of a record, the tables of the
  distribution managers and of the reference counting are instances of it. A map is abstracted
  to the association list \<open>entries\<close> of its used cells, in storage order, and to the finite map
  \<open>map_of (entries m)\<close>.
\<close>

section \<open>The structure and its operations\<close>

record ('k, 'v) snet_map =
  msize :: nat
  mused :: nat
  mkeys :: "'k arr"
  mvalues :: "'v arr"

definition map_cell :: "('k, 'v) snet_map \<Rightarrow> nat \<Rightarrow> ('k \<times> 'v) res" where
  "map_cell m i = bindR (arr_read (mkeys m) i) (\<lambda>k. bindR (arr_read (mvalues m) i) (\<lambda>v. Ok (k, v)))"

text \<open>The pairs that \<open>MAP_FOR_EACH\<close> binds, and those that \<open>MAP_DEQUEUE_EACH\<close> takes from the end.\<close>

definition MAP_FOR_EACH :: "('k, 'v) snet_map \<Rightarrow> ('k \<times> 'v) list res" where
  "MAP_FOR_EACH m = mapR (map_cell m) [0..<mused m]"

definition MAP_DEQUEUE_EACH :: "('k, 'v) snet_map \<Rightarrow> (('k \<times> 'v) list \<times> ('k, 'v) snet_map) res" where
  "MAP_DEQUEUE_EACH m = bindR (mapR (map_cell m) (rev [0..<mused m])) (\<lambda>kvs. Ok (kvs, m\<lparr>mused := 0\<rparr>))"

definition MapCreate :: "('k \<times> 'v) list \<Rightarrow> ('k, 'v) snet_map res" where
  "MapCreate args =
     bindR (foldR (\<lambda>(ks, vs) (i, k, v).
              bindR (arr_write ks i k) (\<lambda>ks'. bindR (arr_write vs i v) (\<lambda>vs'. Ok (ks', vs'))))
            (arr_alloc (length args), arr_alloc (length args)) (enumerate 0 args))
       (\<lambda>(ks, vs). Ok \<lparr>msize = length args, mused = length args, mkeys = ks, mvalues = vs\<rparr>)"

text \<open>
  \<open>Copy\<close>: the copy functions of an instance are \<open>kcopy\<close> and \<open>vcopy\<close>; an instance without
  them copies the cells with \<open>memcpy\<close>, which the identity stands for.
\<close>

definition MapCopy :: "('k \<Rightarrow> 'k) \<Rightarrow> ('v \<Rightarrow> 'v) \<Rightarrow> ('k, 'v) snet_map \<Rightarrow> ('k, 'v) snet_map res" where
  "MapCopy kcopy vcopy m =
     bindR (MAP_FOR_EACH m) (\<lambda>kvs.
     Ok \<lparr>msize = mused m, mused = mused m,
         mkeys = map (\<lambda>(k, v). Some (kcopy k)) kvs, mvalues = map (\<lambda>(k, v). Some (vcopy v)) kvs\<rparr>)"

text \<open>\<open>Destroy\<close>: the keys and values handed to the free functions of the instance.\<close>

definition MapDestroy :: "('k, 'v) snet_map \<Rightarrow> ('k list \<times> 'v list) res" where
  "MapDestroy m =
     bindR (mapR (arr_read (mkeys m)) [0..<mused m]) (\<lambda>ks.
     bindR (mapR (arr_read (mvalues m)) [0..<mused m]) (\<lambda>vs. Ok (ks, vs)))"

definition MapSize :: "('k, 'v) snet_map \<Rightarrow> nat" where
  "MapSize m = mused m"

text \<open>\<open>Find\<close>: the loop from \<open>i\<close> on with \<open>n\<close> rounds left; \<open>None\<close> is the result -1.\<close>

fun find_from :: "('k \<Rightarrow> 'k \<Rightarrow> bool) \<Rightarrow> ('k, 'v) snet_map \<Rightarrow> 'k \<Rightarrow> nat \<Rightarrow> nat \<Rightarrow> nat option res" where
  "find_from cmp m key i 0 = Ok None"
| "find_from cmp m key i (Suc n) =
     bindR (arr_read (mkeys m) i) (\<lambda>k.
     if cmp k key then Ok (Some i) else find_from cmp m key (Suc i) n)"

definition MapFind :: "('k \<Rightarrow> 'k \<Rightarrow> bool) \<Rightarrow> ('k, 'v) snet_map \<Rightarrow> 'k \<Rightarrow> nat option res" where
  "MapFind cmp m key = find_from cmp m key 0 (mused m)"

fun find_val_from :: "('v \<Rightarrow> 'v \<Rightarrow> bool) \<Rightarrow> ('k, 'v) snet_map \<Rightarrow> 'v \<Rightarrow> 'k \<Rightarrow> nat \<Rightarrow> nat \<Rightarrow> 'k res" where
  "find_val_from cmp m val key i 0 = Ok key"
| "find_val_from cmp m val key i (Suc n) =
     bindR (arr_read (mvalues m) i) (\<lambda>v.
     if cmp v val then arr_read (mkeys m) i else find_val_from cmp m val key (Suc i) n)"

definition MapFindVal :: "('v \<Rightarrow> 'v \<Rightarrow> bool) \<Rightarrow> ('k, 'v) snet_map \<Rightarrow> 'v \<Rightarrow> 'k \<Rightarrow> 'k res" where
  "MapFindVal cmp m val key = find_val_from cmp m val key 0 (mused m)"

definition MapSet :: "('k \<Rightarrow> 'k \<Rightarrow> bool) \<Rightarrow> ('k, 'v) snet_map \<Rightarrow> 'k \<Rightarrow> 'v \<Rightarrow> ('k, 'v) snet_map res" where
  "MapSet cmp m key val =
     bindR (MapFind cmp m key) (\<lambda>i. case i of
       Some i \<Rightarrow> bindR (arr_write (mvalues m) i val) (\<lambda>vs. Ok (m\<lparr>mvalues := vs\<rparr>))
     | None \<Rightarrow>
         if mused m < msize m then
           bindR (arr_write (mkeys m) (mused m) key) (\<lambda>ks.
           bindR (arr_write (mvalues m) (mused m) val) (\<lambda>vs.
           Ok (m\<lparr>mkeys := ks, mvalues := vs, mused := mused m + 1\<rparr>)))
         else
           bindR (mem_cpy (arr_alloc (msize m + 1)) 0 (mkeys m) 0 (msize m)) (\<lambda>ks.
           bindR (mem_cpy (arr_alloc (msize m + 1)) 0 (mvalues m) 0 (msize m)) (\<lambda>vs.
           bindR (arr_write ks (mused m) key) (\<lambda>ks.
           bindR (arr_write vs (mused m) val) (\<lambda>vs.
           Ok (m\<lparr>mkeys := ks, mvalues := vs, mused := mused m + 1, msize := msize m + 1\<rparr>))))))"

definition MapGet :: "('k \<Rightarrow> 'k \<Rightarrow> bool) \<Rightarrow> ('k, 'v) snet_map \<Rightarrow> 'k \<Rightarrow> 'v res" where
  "MapGet cmp m key =
     bindR (MapFind cmp m key) (\<lambda>i. case i of
       None \<Rightarrow> Err AssertFail
     | Some i \<Rightarrow> arr_read (mvalues m) i)"

definition MapTake :: "('k \<Rightarrow> 'k \<Rightarrow> bool) \<Rightarrow> ('k, 'v) snet_map \<Rightarrow> 'k \<Rightarrow> ('v \<times> ('k, 'v) snet_map) res" where
  "MapTake cmp m key =
     bindR (MapFind cmp m key) (\<lambda>i. case i of
       None \<Rightarrow> Err AssertFail
     | Some i \<Rightarrow>
         bindR (arr_read (mvalues m) i) (\<lambda>result.
         bindR (arr_read (mkeys m) (mused m - 1)) (\<lambda>k.
         bindR (arr_write (mkeys m) i k) (\<lambda>ks.
         bindR (arr_read (mvalues m) (mused m - 1)) (\<lambda>v.
         bindR (arr_write (mvalues m) i v) (\<lambda>vs.
         Ok (result, m\<lparr>mused := mused m - 1, mkeys := ks, mvalues := vs\<rparr>)))))))"

definition MapContains :: "('k \<Rightarrow> 'k \<Rightarrow> bool) \<Rightarrow> ('k, 'v) snet_map \<Rightarrow> 'k \<Rightarrow> bool res" where
  "MapContains cmp m key = bindR (MapFind cmp m key) (\<lambda>i. Ok (i \<noteq> None))"

definition MapRename :: "('k \<Rightarrow> 'k \<Rightarrow> bool) \<Rightarrow> ('k, 'v) snet_map \<Rightarrow> 'k \<Rightarrow> 'k \<Rightarrow> ('k, 'v) snet_map res" where
  "MapRename cmp m oldKey newKey =
     bindR (MapFind cmp m oldKey) (\<lambda>i. case i of
       None \<Rightarrow> Err AssertFail
     | Some i \<Rightarrow> bindR (arr_write (mkeys m) i newKey) (\<lambda>ks. Ok (m\<lparr>mkeys := ks\<rparr>)))"

text \<open>
  The serialisation writes the number of pairs, the keys and the values to a buffer through
  the pack functions of the transport; the deserialisation reads them back.
\<close>

definition MapSerialise ::
  "('b \<Rightarrow> int list \<Rightarrow> 'b res) \<Rightarrow> ('b \<Rightarrow> 'k list \<Rightarrow> 'b res) \<Rightarrow> ('b \<Rightarrow> 'v list \<Rightarrow> 'b res) \<Rightarrow>
   ('k, 'v) snet_map \<Rightarrow> 'b \<Rightarrow> 'b res" where
  "MapSerialise packInts packKeys packValues m buf =
     bindR (packInts buf [int (mused m)]) (\<lambda>buf.
     bindR (mapR (arr_read (mkeys m)) [0..<mused m]) (\<lambda>ks.
     bindR (packKeys buf ks) (\<lambda>buf.
     bindR (mapR (arr_read (mvalues m)) [0..<mused m]) (\<lambda>vs.
     packValues buf vs))))"

definition MapDeserialise ::
  "('b \<Rightarrow> nat \<Rightarrow> (int list \<times> 'b) res) \<Rightarrow> ('b \<Rightarrow> nat \<Rightarrow> ('k list \<times> 'b) res) \<Rightarrow>
   ('b \<Rightarrow> nat \<Rightarrow> ('v list \<times> 'b) res) \<Rightarrow> 'b \<Rightarrow> (('k, 'v) snet_map \<times> 'b) res" where
  "MapDeserialise unpackInts unpackKeys unpackValues buf =
     bindR (unpackInts buf 1) (\<lambda>(ns, buf).
     let n = nat (hd ns) in
     bindR (unpackKeys buf n) (\<lambda>(ks, buf).
     bindR (unpackValues buf n) (\<lambda>(vs, buf).
     Ok (\<lparr>msize = n, mused = n, mkeys = map Some ks, mvalues = map Some vs\<rparr>, buf))))"

section \<open>Representation\<close>

definition map_inv :: "('k, 'v) snet_map \<Rightarrow> bool" where
  "map_inv m \<longleftrightarrow>
     length (mkeys m) = msize m \<and> length (mvalues m) = msize m \<and> mused m \<le> msize m \<and>
     arr_init (mkeys m) \<and> arr_init (mvalues m)"

definition entries :: "('k, 'v) snet_map \<Rightarrow> ('k \<times> 'v) list" where
  "entries m = map (\<lambda>i. (the (mkeys m ! i), the (mvalues m ! i))) [0..<mused m]"

text \<open>No key is stored twice: the invariant of a map in use, which \<open>Rename\<close> can break.\<close>

definition map_ok :: "('k, 'v) snet_map \<Rightarrow> bool" where
  "map_ok m \<longleftrightarrow> map_inv m \<and> distinct (map fst (entries m))"

definition map_lookup :: "('k, 'v) snet_map \<Rightarrow> 'k \<Rightarrow> 'v option" where
  "map_lookup m = map_of (entries m)"

lemma length_entries [simp]: "length (entries m) = mused m"
  by (simp add: entries_def)

lemma entries_nth: "i < mused m \<Longrightarrow> entries m ! i = (the (mkeys m ! i), the (mvalues m ! i))"
  by (simp add: entries_def)

lemma map_inv_read:
  assumes "map_inv m" and "i < mused m"
  shows "arr_read (mkeys m) i = Ok (fst (entries m ! i))"
    and "arr_read (mvalues m) i = Ok (snd (entries m ! i))"
  using assms by (auto simp: map_inv_def arr_init_read entries_nth simp del: arr_read_Ok)

lemma map_cell_nth: "map_inv m \<Longrightarrow> i < mused m \<Longrightarrow> map_cell m i = Ok (entries m ! i)"
  using map_inv_read[of m i] by (simp add: map_cell_def del: arr_read_Ok)

lemma map_cells:
  assumes "map_inv m"
  shows "MAP_FOR_EACH m = Ok (entries m)"
    and "MAP_DEQUEUE_EACH m = Ok (rev (entries m), m\<lparr>mused := 0\<rparr>)"
    and "MapDestroy m = Ok (map fst (entries m), map snd (entries m))"
proof -
  note cell = map_cell_nth[OF assms]
  have nth: "map (\<lambda>i. entries m ! i) [0..<mused m] = entries m" by (metis length_entries map_nth)
  show "MAP_FOR_EACH m = Ok (entries m)"
    using mapR_Ok[of "[0..<mused m]" "map_cell m" "\<lambda>i. entries m ! i"] cell nth by (simp add: MAP_FOR_EACH_def)
  show "MAP_DEQUEUE_EACH m = Ok (rev (entries m), m\<lparr>mused := 0\<rparr>)"
    using mapR_Ok[of "rev [0..<mused m]" "map_cell m" "\<lambda>i. entries m ! i"] cell nth
    by (simp add: MAP_DEQUEUE_EACH_def rev_map [symmetric])
  have "mapR (arr_read (mkeys m)) [0..<mused m] = Ok (map (\<lambda>i. fst (entries m ! i)) [0..<mused m])"
    by (rule mapR_Ok) (simp add: map_inv_read[OF assms] del: arr_read_Ok)
  moreover have "mapR (arr_read (mvalues m)) [0..<mused m] = Ok (map (\<lambda>i. snd (entries m ! i)) [0..<mused m])"
    by (rule mapR_Ok) (simp add: map_inv_read[OF assms] del: arr_read_Ok)
  ultimately show "MapDestroy m = Ok (map fst (entries m), map snd (entries m))"
    by (simp add: MapDestroy_def map_nth_upt)
qed

lemma map_arrays_read:
  assumes "map_inv m"
  shows "mapR (arr_read (mkeys m)) [0..<mused m] = Ok (map fst (entries m))"
    and "mapR (arr_read (mvalues m)) [0..<mused m] = Ok (map snd (entries m))"
  using map_cells(3)[OF assms] by (auto simp: MapDestroy_def)

section \<open>Behaviour of the operations\<close>

text \<open>The position of the first pair with a given key.\<close>

fun key_index :: "'k \<Rightarrow> ('k \<times> 'v) list \<Rightarrow> nat option" where
  "key_index k [] = None"
| "key_index k (kv # kvs) = (if fst kv = k then Some 0 else map_option Suc (key_index k kvs))"

lemma key_index_None: "key_index k kvs = None \<longleftrightarrow> k \<notin> fst ` set kvs"
  by (induction kvs) auto

lemma key_index_Some:
  "key_index k kvs = Some i \<Longrightarrow> i < length kvs \<and> fst (kvs ! i) = k \<and> map_of kvs k = Some (snd (kvs ! i))"
proof (induction kvs arbitrary: i)
  case Nil
  then show ?case by simp
next
  case (Cons kv kvs)
  show ?case
  proof (cases "fst kv = k")
    case True
    with Cons.prems show ?thesis by (cases kv) auto
  next
    case False
    with Cons.prems obtain j where "key_index k kvs = Some j" "i = Suc j" by auto
    with Cons.IH[of j] False show ?thesis by (cases kv) simp
  qed
qed

lemma key_index_append:
  "k \<notin> fst ` set xs \<Longrightarrow> key_index k (xs @ ys) = map_option (\<lambda>i. length xs + i) (key_index k ys)"
  by (induction xs) (auto simp: option.map_ident split: option.splits, (cases "key_index k ys"; simp)+)

lemma update_key_index:
  "AList.update k v kvs = (case key_index k kvs of None \<Rightarrow> kvs @ [(k, v)] | Some i \<Rightarrow> kvs[i := (k, v)])"
  by (induction kvs) (auto split: option.splits)

lemma MapFind_spec:
  assumes "map_inv m"
  shows "MapFind (=) m key = Ok (key_index key (entries m))"
proof -
  have "find_from (=) m key i n = Ok (map_option ((+) i) (key_index key (drop i (entries m))))"
    if "i + n = mused m" for i n
    using that
  proof (induction n arbitrary: i)
    case 0
    then show ?case by simp
  next
    case (Suc n)
    then have i: "i < mused m" by simp
    then have "drop i (entries m) = entries m ! i # drop (Suc i) (entries m)"
      by (simp add: Cons_nth_drop_Suc)
    with Suc.IH[of "Suc i"] Suc.prems map_inv_read(1)[OF assms i] show ?case
      by (cases "key_index key (drop (Suc i) (entries m))") (auto simp del: arr_read_Ok)
  qed
  from this[of 0 "mused m"] show ?thesis
    by (cases "key_index key (entries m)") (auto simp: MapFind_def)
qed

lemma MapSet_entries:
  assumes "map_inv m"
  shows "\<exists>m'. MapSet (=) m k v = Ok m' \<and> map_inv m' \<and> entries m' = AList.update k v (entries m)"
proof (cases "key_index k (entries m)")
  case (Some i)
  from key_index_Some[OF Some] have i: "i < mused m" "the (mkeys m ! i) = k" by (auto simp: entries_nth)
  with assms have len: "i < length (mvalues m)" by (auto simp: map_inv_def)
  let ?m' = "m\<lparr>mvalues := (mvalues m)[i := Some v]\<rparr>"
  have "MapSet (=) m k v = Ok ?m'"
    using len by (simp add: MapSet_def MapFind_spec[OF assms] Some arr_write_def)
  moreover have "map_inv ?m'" using assms by (auto simp: map_inv_def)
  moreover have "entries ?m' = AList.update k v (entries m)"
    using i len by (auto simp: update_key_index Some entries_nth nth_list_update intro!: nth_equalityI)
  ultimately show ?thesis by blast
next
  case None
  let ?m1 = "\<lambda>m'. MapSet (=) m k v = Ok m' \<and> map_inv m' \<and> entries m' = entries m @ [(k, v)]"
  have "\<exists>m'. ?m1 m'"
  proof (cases "mused m < msize m")
    case True
    let ?m' = "m\<lparr>mkeys := (mkeys m)[mused m := Some k], mvalues := (mvalues m)[mused m := Some v], mused := mused m + 1\<rparr>"
    have "MapSet (=) m k v = Ok ?m'"
      using assms True by (simp add: MapSet_def MapFind_spec[OF assms] None arr_write_def map_inv_def)
    moreover have "map_inv ?m'" using assms True by (auto simp: map_inv_def)
    moreover have "entries ?m' = entries m @ [(k, v)]"
      using assms True by (auto simp: entries_def map_inv_def)
    ultimately show ?thesis by blast
  next
    case False
    with assms have full: "mused m = msize m" "length (mkeys m) = msize m" "length (mvalues m) = msize m"
      by (auto simp: map_inv_def)
    let ?m' = "m\<lparr>mkeys := mkeys m @ [Some k], mvalues := mvalues m @ [Some v], mused := mused m + 1, msize := msize m + 1\<rparr>"
    note cpy = mem_cpy_grow[OF full(2)] mem_cpy_grow[OF full(3)]
    have "MapSet (=) m k v = Ok ?m'"
      using full False by (simp add: MapSet_def MapFind_spec[OF assms] None arr_write_def cpy[unfolded Suc_eq_plus1[symmetric]] list_update_append del: mem_cpy_Ok)
    moreover have "map_inv ?m'" using assms by (auto simp: map_inv_def)
    moreover have "entries ?m' = entries m @ [(k, v)]"
      using full by (auto simp: entries_def nth_append)
    ultimately show ?thesis by blast
  qed
  then show ?thesis by (simp add: update_key_index None)
qed

lemma MapGet_spec:
  assumes "map_inv m"
  shows "MapGet (=) m k = (case map_lookup m k of None \<Rightarrow> Err AssertFail | Some v \<Rightarrow> Ok v)"
proof (cases "key_index k (entries m)")
  case None
  then have "map_lookup m k = None" by (simp add: key_index_None map_lookup_def map_of_eq_None_iff)
  then show ?thesis by (simp add: MapGet_def MapFind_spec[OF assms] None)
next
  case (Some i)
  from key_index_Some[OF Some] map_inv_read(2)[OF assms, of i]
  show ?thesis by (simp add: MapGet_def MapFind_spec[OF assms] Some map_lookup_def del: arr_read_Ok)
qed

lemma MapContains_spec: "map_inv m \<Longrightarrow> MapContains (=) m k = Ok (k \<in> dom (map_lookup m))"
  using key_index_None[of k "entries m"]
  by (cases "key_index k (entries m)") (auto simp: MapContains_def MapFind_spec map_lookup_def dom_map_of_conv_image_fst)

lemma MapSet_spec:
  assumes "map_ok m"
  shows "\<exists>m'. MapSet (=) m k v = Ok m' \<and> map_ok m' \<and> map_lookup m' = (map_lookup m)(k \<mapsto> v)"
  using MapSet_entries[of m k v] assms
  by (auto simp: map_ok_def map_lookup_def update_conv' distinct_update)

text \<open>\<open>Take\<close> fills the gap with the last pair.\<close>

lemma mset_swap_remove:
  assumes "i < length xs"
  shows "mset (butlast (xs[i := last xs])) = mset xs - {#xs ! i#}"
proof -
  obtain ys y where xs: "xs = ys @ [y]" using assms by (cases xs rule: rev_cases) auto
  show ?thesis
  proof (cases "i = length ys")
    case True
    with xs show ?thesis by simp
  next
    case False
    with assms xs have i: "i < length ys" by simp
    then have "xs[i := last xs] = ys[i := y] @ [y]" by (simp add: xs list_update_append)
    then have "mset (butlast (xs[i := last xs])) = add_mset y (mset ys - {#ys ! i#})"
      using i by (simp add: mset_update)
    with i show ?thesis by (simp add: xs nth_append)
  qed
qed

lemma entries_Take:
  assumes "map_inv m" and "i < mused m"
  defines "m' \<equiv> m\<lparr>mused := mused m - 1, mkeys := (mkeys m)[i := mkeys m ! (mused m - 1)],
                 mvalues := (mvalues m)[i := mvalues m ! (mused m - 1)]\<rparr>"
  shows "map_inv m' \<and> entries m' = butlast ((entries m)[i := last (entries m)])"
proof
  have lens: "length (mkeys m) = msize m" "length (mvalues m) = msize m" "mused m \<le> msize m"
    using assms(1) by (auto simp: map_inv_def)
  have "mused m - 1 < msize m" using assms(2) lens(3) by simp
  then obtain k v where kv: "mkeys m ! (mused m - 1) = Some k" "mvalues m ! (mused m - 1) = Some v"
    using arr_init_nth[of "mkeys m" "mused m - 1"] arr_init_nth[of "mvalues m" "mused m - 1"] assms(1,2) lens
    by (auto simp: map_inv_def)
  show "map_inv m'" using assms(1,2) kv by (auto simp: m'_def map_inv_def)
  have "last (entries m) = entries m ! (mused m - 1)"
    using assms(2) last_conv_nth[of "entries m"] by (metis length_entries less_nat_zero_code list.size(3))
  then show "entries m' = butlast ((entries m)[i := last (entries m)])"
    using assms(2) lens by (auto simp: m'_def entries_nth nth_list_update nth_butlast intro!: nth_equalityI)
qed

lemma map_of_swap_remove:
  assumes "distinct (map fst kvs)" and "i < length kvs" and "fst (kvs ! i) = k"
  defines "kvs' \<equiv> butlast (kvs[i := last kvs])"
  shows "distinct (map fst kvs') \<and> map_of kvs' = (map_of kvs)(k := None)"
proof -
  have "mset kvs' = mset (remove1 (kvs ! i) kvs)"
    using mset_swap_remove[OF assms(2)] by (simp add: kvs'_def)
  then have perm: "distinct (map fst kvs') = distinct (map fst (remove1 (kvs ! i) kvs))"
    "set kvs' = set (remove1 (kvs ! i) kvs)"
    by (metis mset_eq_imp_distinct_iff mset_map, metis mset_eq_setD)
  have d: "distinct (map fst (remove1 (kvs ! i) kvs))" using assms(1) by (simp add: distinct_map inj_on_def)
  have s: "set (remove1 (kvs ! i) kvs) = set kvs - {kvs ! i}"
    using assms(1) by (simp add: distinct_map set_remove1_eq)
  have "map_of kvs' x = ((map_of kvs)(k := None)) x" for x
  proof (cases "x = k")
    case True
    have "k \<notin> fst ` (set kvs - {kvs ! i})"
      using assms(1,3) nth_mem[OF assms(2)] by (auto simp: distinct_map inj_on_def)
    then show ?thesis using True s perm(2) by (simp add: map_of_eq_None_iff)
  next
    case False
    have iff: "map_of kvs' x = Some v \<longleftrightarrow> map_of kvs x = Some v" for v
    proof -
      have "distinct (map fst kvs')" using perm(1) d by simp
      moreover have "(x, v) \<in> set kvs' \<longleftrightarrow> (x, v) \<in> set kvs"
        unfolding perm(2) s using False assms(3) by (auto simp: prod_eq_iff)
      ultimately show ?thesis using assms(1) by (simp only: map_of_eq_Some_iff)
    qed
    have "map_of kvs' x = map_of kvs x"
      by (metis iff option.exhaust)
    with False show ?thesis by simp
  qed
  then show ?thesis using d perm(1) by auto
qed

lemma MapTake_spec:
  assumes "map_ok m"
  shows "MapTake (=) m k = Err AssertFail \<and> map_lookup m k = None \<or>
    (\<exists>v m'. MapTake (=) m k = Ok (v, m') \<and> map_lookup m k = Some v \<and> map_ok m' \<and> map_lookup m' = (map_lookup m)(k := None))"
proof (cases "key_index k (entries m)")
  case None
  with assms have "MapTake (=) m k = Err AssertFail" by (simp add: MapTake_def MapFind_spec map_ok_def)
  moreover have "map_lookup m k = None" using None by (simp add: key_index_None map_lookup_def map_of_eq_None_iff)
  ultimately show ?thesis by simp
next
  case (Some i)
  have inv: "map_inv m" using assms by (simp add: map_ok_def)
  from key_index_Some[OF Some] have i: "i < mused m" "fst (entries m ! i) = k" "map_lookup m k = Some (snd (entries m ! i))"
    by (auto simp: map_lookup_def)
  let ?m' = "m\<lparr>mused := mused m - 1, mkeys := (mkeys m)[i := mkeys m ! (mused m - 1)], mvalues := (mvalues m)[i := mvalues m ! (mused m - 1)]\<rparr>"
  have l: "mused m - 1 < mused m" using i(1) by simp
  have cells: "i < length (mkeys m)" "i < length (mvalues m)" "mused m - 1 < length (mkeys m)" "mused m - 1 < length (mvalues m)"
    using inv i(1) by (auto simp: map_inv_def)
  have "mkeys m ! (mused m - 1) = Some (fst (entries m ! (mused m - 1)))" "mvalues m ! (mused m - 1) = Some (snd (entries m ! (mused m - 1)))"
    using map_inv_read[OF inv l] by simp_all
  then have "MapTake (=) m k = Ok (snd (entries m ! i), ?m')"
    using map_inv_read[OF inv i(1)] map_inv_read[OF inv l] cells
    by (simp add: MapTake_def MapFind_spec[OF inv] Some arr_write_def del: arr_read_Ok)
  moreover have "map_ok ?m' \<and> map_lookup ?m' = (map_lookup m)(k := None)"
    using entries_Take[OF inv i(1)] map_of_swap_remove[of "entries m" i k] assms i by (simp add: map_ok_def map_lookup_def)
  ultimately show ?thesis using i(3) by blast
qed

lemma MapRename_entries:
  assumes "map_inv m"
  shows "MapRename (=) m k l = Err AssertFail \<and> map_lookup m k = None \<or>
    (\<exists>i m'. MapRename (=) m k l = Ok m' \<and> key_index k (entries m) = Some i \<and> map_inv m' \<and>
       entries m' = (entries m)[i := (l, snd (entries m ! i))])"
proof (cases "key_index k (entries m)")
  case None
  with assms have "MapRename (=) m k l = Err AssertFail" by (simp add: MapRename_def MapFind_spec)
  moreover have "map_lookup m k = None" using None by (simp add: key_index_None map_lookup_def map_of_eq_None_iff)
  ultimately show ?thesis by simp
next
  case (Some i)
  from key_index_Some[OF Some] have i: "i < mused m" by simp
  then have len: "i < length (mkeys m)" using assms by (auto simp: map_inv_def)
  let ?m' = "m\<lparr>mkeys := (mkeys m)[i := Some l]\<rparr>"
  have "MapRename (=) m k l = Ok ?m'"
    using len by (simp add: MapRename_def MapFind_spec[OF assms] Some arr_write_def)
  moreover have "map_inv ?m'" using assms by (auto simp: map_inv_def)
  moreover have "entries ?m' = (entries m)[i := (l, snd (entries m ! i))]"
    using i len by (auto simp: entries_nth nth_list_update intro!: nth_equalityI)
  ultimately show ?thesis using Some by blast
qed

lemma map_of_rename:
  assumes "distinct (map fst kvs)" and "key_index k kvs = Some i" and "l \<notin> fst ` set kvs"
  defines "kvs' \<equiv> kvs[i := (l, snd (kvs ! i))]"
  shows "distinct (map fst kvs') \<and> map_of kvs' = (map_of kvs)(k := None, l := map_of kvs k)"
  using assms(1-3) unfolding kvs'_def
proof (induction kvs arbitrary: i)
  case Nil
  then show ?case by simp
next
  case (Cons kv kvs)
  obtain a b where kv: "kv = (a, b)" by (cases kv)
  show ?case
  proof (cases "a = k")
    case True
    have "map_of kvs k = None" using Cons.prems(1) True kv by (simp add: map_of_eq_None_iff)
    with Cons.prems True kv show ?thesis by (auto simp: fun_eq_iff)
  next
    case False
    with Cons.prems kv obtain j where j: "key_index k kvs = Some j" "i = Suc j" by auto
    from Cons.IH[OF _ j(1)] Cons.prems kv have IH: "distinct (map fst (kvs[j := (l, snd (kvs ! j))]))"
      "map_of (kvs[j := (l, snd (kvs ! j))]) = (map_of kvs)(k := None, l := map_of kvs k)" by auto
    have "a \<notin> fst ` set (kvs[j := (l, snd (kvs ! j))])"
      using Cons.prems(1,3) kv set_update_subset_insert[of kvs j "(l, snd (kvs ! j))"] by force
    with IH False Cons.prems(3) kv j(2) show ?thesis by (auto simp: fun_eq_iff)
  qed
qed

lemma MapRename_spec:
  assumes "map_ok m" and "map_lookup m k = Some v" and "map_lookup m l = None"
  shows "\<exists>m'. MapRename (=) m k l = Ok m' \<and> map_ok m' \<and> map_lookup m' = (map_lookup m)(k := None, l \<mapsto> v)"
proof -
  from assms(1) have inv: "map_inv m" "distinct (map fst (entries m))" by (auto simp: map_ok_def)
  from MapRename_entries[OF inv(1), of k l] assms(2) obtain i m' where
    m': "MapRename (=) m k l = Ok m'" "key_index k (entries m) = Some i" "map_inv m'"
      "entries m' = (entries m)[i := (l, snd (entries m ! i))]" by auto
  have "l \<notin> fst ` set (entries m)" using assms(3) by (simp add: map_lookup_def map_of_eq_None_iff)
  with map_of_rename[OF inv(2) m'(2)] m' assms(2) show ?thesis by (auto simp: map_ok_def map_lookup_def)
qed

lemma MapCopy_spec:
  assumes "map_inv m"
  shows "\<exists>m'. MapCopy f g m = Ok m' \<and> map_inv m' \<and> entries m' = map (\<lambda>(k, v). (f k, g v)) (entries m)"
  using map_cells(1)[OF assms]
  by (auto simp: MapCopy_def map_inv_def arr_init_def list_all_iff entries_nth intro!: nth_equalityI split: prod.splits)

definition map_from :: "('k \<times> 'v) list \<Rightarrow> ('k, 'v) snet_map" where
  "map_from kvs = \<lparr>msize = length kvs, mused = length kvs, mkeys = map (Some \<circ> fst) kvs, mvalues = map (Some \<circ> snd) kvs\<rparr>"

lemma map_from_simps [simp]: "map_inv (map_from kvs)" "entries (map_from kvs) = kvs"
  by (auto simp: map_from_def map_inv_def arr_init_def list_all_iff entries_nth intro!: nth_equalityI)

lemma MapCreate_Ok: "MapCreate kvs = Ok (map_from kvs)"
proof -
  let ?w = "\<lambda>(ks, vs) (i, k, v). bindR (arr_write ks i k) (\<lambda>ks'. bindR (arr_write vs i v) (\<lambda>vs'. Ok (ks', vs')))"
  have "foldR ?w (map (Some \<circ> fst) xs @ arr_alloc (length ys), map (Some \<circ> snd) xs @ arr_alloc (length ys)) (enumerate (length xs) ys)
     = Ok (map (Some \<circ> fst) (xs @ ys), map (Some \<circ> snd) (xs @ ys))" for xs ys :: "('a \<times> 'b) list"
  proof (induction ys arbitrary: xs)
    case Nil
    then show ?case by (simp add: arr_alloc_def)
  next
    case (Cons y ys)
    with Cons.IH[of "xs @ [y]"] show ?case
      by (cases y) (simp add: arr_alloc_def arr_write_def list_update_append)
  qed
  from this[of "[]" kvs] show ?thesis by (simp add: MapCreate_def map_from_def)
qed

section \<open>The map as a key-value store\<close>

interpretation snet_map: map_read map_ok map_lookup "\<lambda>_. True" "MapSet (=)" "MapGet (=)"
  by unfold_locales (auto simp: MapSet_spec, simp add: map_ok_def MapGet_spec)

section \<open>Properties\<close>

text \<open>
  Taking a key out of a map returns the value stored under it and removes that key only; a
  key that is not there fails the assertion. The swap with the last pair keeps the keys distinct.
\<close>

lemma map_take_removes_key:
  "map_ok m \<Longrightarrow>
     (case map_lookup m k of
        None \<Rightarrow> MapTake (=) m k = Err AssertFail
      | Some v \<Rightarrow> \<exists>m'. MapTake (=) m k = Ok (v, m') \<and> map_ok m' \<and> map_lookup m' = (map_lookup m)(k := None))"
  using MapTake_spec[of m k] by (auto split: option.splits)

text \<open>
  Renaming keeps the keys distinct exactly when the new name is free: then the value moves
  from the old name to the new one, otherwise the map holds the new name twice.
\<close>

lemma map_rename_distinct:
  assumes "map_ok m" and "map_lookup m k = Some v" and "k \<noteq> l"
  shows "\<exists>m'. MapRename (=) m k l = Ok m' \<and> map_inv m' \<and> (map_ok m' \<longleftrightarrow> map_lookup m l = None) \<and>
     (map_lookup m l = None \<longrightarrow> map_lookup m' = (map_lookup m)(k := None, l \<mapsto> v))"
proof (cases "map_lookup m l = None")
  case True
  with MapRename_spec[OF assms(1,2)] show ?thesis by (auto simp: map_ok_def)
next
  case False
  from assms(1) have inv: "map_inv m" by (simp add: map_ok_def)
  from MapRename_entries[OF inv, of k l] assms(2) obtain i m' where
    m': "MapRename (=) m k l = Ok m'" "key_index k (entries m) = Some i" "map_inv m'"
      "entries m' = (entries m)[i := (l, snd (entries m ! i))]" by auto
  have i: "i < length (entries m)" "fst (entries m ! i) = k" using key_index_Some[OF m'(2)] by auto
  from False obtain w where "(l, w) \<in> set (entries m)" by (auto simp: map_lookup_def dest: map_of_SomeD)
  then obtain j where j: "j < length (entries m)" "fst (entries m ! j) = l" by (metis fst_conv in_set_conv_nth)
  have "i \<noteq> j" using i j assms(3) by auto
  then have "map fst (entries m') ! i = map fst (entries m') ! j" using i j m'(4) by simp
  moreover have "i < length (entries m')" "j < length (entries m')" using i j m'(4) by simp_all
  ultimately have "\<not> distinct (map fst (entries m'))" using \<open>i \<noteq> j\<close> by (auto simp: distinct_conv_nth)
  with False m' show ?thesis by (auto simp: map_ok_def)
qed

end
