(* ===== verification/Snet_Record.thy ===== *)
theory Snet_Record
  imports Variant Map_Template
begin

text \<open>
  Records (\<open>runtime/common/record.c\<close>, \<open>include/record.h\<close>): the tagged union that travels over
  the streams, its constructors and accessors, pattern matching, flow inheritance, copying and
  the serialisation for transport. The reference type \<open>'r\<close> of fields and the reference copy are
  parameters (\<open>SNetRefCopy\<close> is chosen by the distribution layer that is linked in); the record
  counter \<open>recid_sequencer\<close> and the node identifier are passed explicitly.
\<close>

section \<open>Data\<close>

type_synonym stream_id = nat
type_synonym snet_record_id = "int list"
type_synonym int_map = "(int, int) snet_map"
type_synonym 'r ref_map = "(int, 'r) snet_map"

text \<open>
  The mode is stored as the integer of the enumeration; \<open>detref\<close> is the cell of the reference
  stack pointer, \<open>None\<close> while it is not initialised.
\<close>

record 'r data_rec =
  rec_tags :: int_map
  rec_btags :: int_map
  rec_fields :: "'r ref_map"
  interface_id :: int
  rmode :: int
  rid :: snet_record_id
  detref :: "nat list option option"

definition MODE_textual :: int where "MODE_textual = 0"
definition MODE_binary :: int where "MODE_binary = 1"
definition SNET_REC_SUBID_NUM :: nat where "SNET_REC_SUBID_NUM = 2"

datatype 'r snet_record =
    REC_data "'r data_rec"
  | REC_sync stream_id "snet_variant option"
  | REC_collect stream_id
  | REC_sort_end int int
  | REC_terminate bool
  | REC_trigger_initialiser
  | REC_detref int nat nat
  | REC_observ int "'r snet_record" nat
  | REC_star_leader int int
  | REC_wakeup

text \<open>The arguments of \<open>SNetRecCreate\<close>: a descriptor with the variable arguments it takes.\<close>

datatype 'r rec_args =
    Args_data
  | Args_trigger_initialiser
  | Args_sync stream_id
  | Args_collect stream_id
  | Args_terminate
  | Args_sort_end int int
  | Args_detref int nat nat
  | Args_observ int "'r snet_record" nat
  | Args_star_leader int int
  | Args_wakeup
  | Args_other int

fun SNetRecGetDescriptor :: "'r snet_record \<Rightarrow> int" where
  "SNetRecGetDescriptor (REC_data d) = 1100"
| "SNetRecGetDescriptor (REC_sync s v) = 1101"
| "SNetRecGetDescriptor (REC_collect s) = 1102"
| "SNetRecGetDescriptor (REC_sort_end l n) = 1103"
| "SNetRecGetDescriptor (REC_terminate b) = 1104"
| "SNetRecGetDescriptor REC_trigger_initialiser = 1105"
| "SNetRecGetDescriptor (REC_detref a b c) = 1106"
| "SNetRecGetDescriptor (REC_observ a b c) = 1107"
| "SNetRecGetDescriptor (REC_star_leader a b) = 1108"
| "SNetRecGetDescriptor REC_wakeup = 1109"

definition SNetRecTypeName :: "int \<Rightarrow> string option" where
  "SNetRecTypeName des =
     map_of [(1100, ''REC_data''), (1101, ''REC_sync''), (1102, ''REC_collect''),
       (1103, ''REC_sort_end''), (1104, ''REC_terminate''), (1105, ''REC_trigger_initialiser''),
       (1106, ''REC_detref''), (1107, ''REC_observ''), (1108, ''REC_star_leader''),
       (1109, ''REC_wakeup'')] des"

text \<open>\<open>DATA_REC\<close> reads the union as a data record.\<close>

fun data_of :: "'r snet_record \<Rightarrow> 'r data_rec res" where
  "data_of (REC_data d) = Ok d"
| "data_of _ = Err BadUnion"

text \<open>\<open>SNetRecUnknown\<close> ends the program.\<close>

definition SNetRecUnknown :: "'a res" where
  "SNetRecUnknown = Err FatalError"

section \<open>Identifiers\<close>

definition GenerateRecId :: "int \<Rightarrow> 32 word \<Rightarrow> snet_record_id \<times> 32 word" where
  "GenerateRecId node seq = ([sint seq, node], seq + 1)"

definition SNetGetRecCounter :: "32 word \<Rightarrow> nat" where
  "SNetGetRecCounter seq = unat seq"

fun ids_equal_from :: "nat \<Rightarrow> snet_record_id \<Rightarrow> snet_record_id \<Rightarrow> bool" where
  "ids_equal_from 0 r1 r2 = True"
| "ids_equal_from (Suc n) r1 r2 =
     (if hd r1 \<noteq> hd r2 then False else ids_equal_from n (tl r1) (tl r2))"

definition SNetRecordIdEquals :: "snet_record_id \<Rightarrow> snet_record_id \<Rightarrow> bool" where
  "SNetRecordIdEquals r1 r2 = ids_equal_from SNET_REC_SUBID_NUM r1 r2"

section \<open>Accessors\<close>

definition SNetIntMapSet :: "int_map \<Rightarrow> int \<Rightarrow> int \<Rightarrow> int_map res" where
  "SNetIntMapSet = MapSet (=)"

definition SNetRefMapSet :: "'r ref_map \<Rightarrow> int \<Rightarrow> 'r \<Rightarrow> 'r ref_map res" where
  "SNetRefMapSet = MapSet (=)"

definition SNetRecSetTag :: "'r snet_record \<Rightarrow> int \<Rightarrow> int \<Rightarrow> 'r snet_record res" where
  "SNetRecSetTag r name val =
     bindR (data_of r) (\<lambda>d. bindR (SNetIntMapSet (rec_tags d) name val) (\<lambda>m. Ok (REC_data (d\<lparr>rec_tags := m\<rparr>))))"

definition SNetRecGetTag :: "'r snet_record \<Rightarrow> int \<Rightarrow> int res" where
  "SNetRecGetTag r name = bindR (data_of r) (\<lambda>d. MapGet (=) (rec_tags d) name)"

definition SNetRecTakeTag :: "'r snet_record \<Rightarrow> int \<Rightarrow> (int \<times> 'r snet_record) res" where
  "SNetRecTakeTag r name =
     bindR (data_of r) (\<lambda>d. bindR (MapTake (=) (rec_tags d) name) (\<lambda>(v, m). Ok (v, REC_data (d\<lparr>rec_tags := m\<rparr>))))"

definition SNetRecHasTag :: "'r snet_record \<Rightarrow> int \<Rightarrow> bool res" where
  "SNetRecHasTag r name = bindR (data_of r) (\<lambda>d. MapContains (=) (rec_tags d) name)"

definition SNetRecRenameTag :: "'r snet_record \<Rightarrow> int \<Rightarrow> int \<Rightarrow> 'r snet_record res" where
  "SNetRecRenameTag r oldName newName =
     bindR (data_of r) (\<lambda>d. bindR (MapRename (=) (rec_tags d) oldName newName) (\<lambda>m. Ok (REC_data (d\<lparr>rec_tags := m\<rparr>))))"

definition SNetRecSetBTag :: "'r snet_record \<Rightarrow> int \<Rightarrow> int \<Rightarrow> 'r snet_record res" where
  "SNetRecSetBTag r name val =
     bindR (data_of r) (\<lambda>d. bindR (SNetIntMapSet (rec_btags d) name val) (\<lambda>m. Ok (REC_data (d\<lparr>rec_btags := m\<rparr>))))"

definition SNetRecGetBTag :: "'r snet_record \<Rightarrow> int \<Rightarrow> int res" where
  "SNetRecGetBTag r name = bindR (data_of r) (\<lambda>d. MapGet (=) (rec_btags d) name)"

definition SNetRecTakeBTag :: "'r snet_record \<Rightarrow> int \<Rightarrow> (int \<times> 'r snet_record) res" where
  "SNetRecTakeBTag r name =
     bindR (data_of r) (\<lambda>d. bindR (MapTake (=) (rec_btags d) name) (\<lambda>(v, m). Ok (v, REC_data (d\<lparr>rec_btags := m\<rparr>))))"

definition SNetRecHasBTag :: "'r snet_record \<Rightarrow> int \<Rightarrow> bool res" where
  "SNetRecHasBTag r name = bindR (data_of r) (\<lambda>d. MapContains (=) (rec_btags d) name)"

definition SNetRecRenameBTag :: "'r snet_record \<Rightarrow> int \<Rightarrow> int \<Rightarrow> 'r snet_record res" where
  "SNetRecRenameBTag r oldName newName =
     bindR (data_of r) (\<lambda>d. bindR (MapRename (=) (rec_btags d) oldName newName) (\<lambda>m. Ok (REC_data (d\<lparr>rec_btags := m\<rparr>))))"

definition SNetRecSetField :: "'r snet_record \<Rightarrow> int \<Rightarrow> 'r \<Rightarrow> 'r snet_record res" where
  "SNetRecSetField r name val =
     bindR (data_of r) (\<lambda>d. bindR (SNetRefMapSet (rec_fields d) name val) (\<lambda>m. Ok (REC_data (d\<lparr>rec_fields := m\<rparr>))))"

definition SNetRecGetField :: "('r \<Rightarrow> 'r) \<Rightarrow> 'r snet_record \<Rightarrow> int \<Rightarrow> 'r res" where
  "SNetRecGetField refCopy r name =
     bindR (data_of r) (\<lambda>d. bindR (MapGet (=) (rec_fields d) name) (\<lambda>f. Ok (refCopy f)))"

definition SNetRecTakeField :: "'r snet_record \<Rightarrow> int \<Rightarrow> ('r \<times> 'r snet_record) res" where
  "SNetRecTakeField r name =
     bindR (data_of r) (\<lambda>d. bindR (MapTake (=) (rec_fields d) name) (\<lambda>(v, m). Ok (v, REC_data (d\<lparr>rec_fields := m\<rparr>))))"

definition SNetRecHasField :: "'r snet_record \<Rightarrow> int \<Rightarrow> bool res" where
  "SNetRecHasField r name = bindR (data_of r) (\<lambda>d. MapContains (=) (rec_fields d) name)"

definition SNetRecRenameField :: "'r snet_record \<Rightarrow> int \<Rightarrow> int \<Rightarrow> 'r snet_record res" where
  "SNetRecRenameField r oldName newName =
     bindR (data_of r) (\<lambda>d. bindR (MapRename (=) (rec_fields d) oldName newName) (\<lambda>m. Ok (REC_data (d\<lparr>rec_fields := m\<rparr>))))"

fun SNetRecSetInterfaceId :: "'r snet_record \<Rightarrow> int \<Rightarrow> 'r snet_record res" where
  "SNetRecSetInterfaceId (REC_data d) i = Ok (REC_data (d\<lparr>interface_id := i\<rparr>))"
| "SNetRecSetInterfaceId _ i = SNetRecUnknown"

fun SNetRecGetInterfaceId :: "'r snet_record \<Rightarrow> int res" where
  "SNetRecGetInterfaceId (REC_data d) = Ok (interface_id d)"
| "SNetRecGetInterfaceId _ = SNetRecUnknown"

fun SNetRecSetDataMode :: "'r snet_record \<Rightarrow> int \<Rightarrow> 'r snet_record res" where
  "SNetRecSetDataMode (REC_data d) mod' = Ok (REC_data (d\<lparr>rmode := mod'\<rparr>))"
| "SNetRecSetDataMode _ mod' = SNetRecUnknown"

fun SNetRecGetDataMode :: "'r snet_record \<Rightarrow> int res" where
  "SNetRecGetDataMode (REC_data d) = Ok (rmode d)"
| "SNetRecGetDataMode _ = SNetRecUnknown"

fun SNetRecSetFlag :: "'r snet_record \<Rightarrow> 'r snet_record res" where
  "SNetRecSetFlag (REC_terminate b) = Ok (REC_terminate True)"
| "SNetRecSetFlag _ = SNetRecUnknown"

fun SNetRecGetStream :: "'r snet_record \<Rightarrow> stream_id res" where
  "SNetRecGetStream (REC_sync s v) = Ok s"
| "SNetRecGetStream (REC_collect s) = Ok s"
| "SNetRecGetStream _ = SNetRecUnknown"

fun SNetRecGetVariant :: "'r snet_record \<Rightarrow> snet_variant option res" where
  "SNetRecGetVariant (REC_sync s v) = Ok v"
| "SNetRecGetVariant _ = SNetRecUnknown"

fun SNetRecSetVariant :: "'r snet_record \<Rightarrow> snet_variant option \<Rightarrow> 'r snet_record res" where
  "SNetRecSetVariant (REC_sync s v) var =
     (case var of None \<Rightarrow> Ok (REC_sync s None)
      | Some w \<Rightarrow> bindR (SNetVariantCopy w) (\<lambda>w'. Ok (REC_sync s (Some w'))))"
| "SNetRecSetVariant _ var = SNetRecUnknown"

fun SNetRecSetNum :: "'r snet_record \<Rightarrow> int \<Rightarrow> 'r snet_record res" where
  "SNetRecSetNum (REC_sort_end l n) v = Ok (REC_sort_end l v)"
| "SNetRecSetNum _ v = SNetRecUnknown"

fun SNetRecGetNum :: "'r snet_record \<Rightarrow> int res" where
  "SNetRecGetNum (REC_sort_end l n) = Ok n"
| "SNetRecGetNum _ = SNetRecUnknown"

fun SNetRecSetLevel :: "'r snet_record \<Rightarrow> int \<Rightarrow> 'r snet_record res" where
  "SNetRecSetLevel (REC_sort_end l n) v = Ok (REC_sort_end v n)"
| "SNetRecSetLevel _ v = SNetRecUnknown"

fun SNetRecGetLevel :: "'r snet_record \<Rightarrow> int res" where
  "SNetRecGetLevel (REC_sort_end l n) = Ok l"
| "SNetRecGetLevel _ = SNetRecUnknown"

fun SNetRecIdGet :: "'r snet_record \<Rightarrow> snet_record_id res" where
  "SNetRecIdGet (REC_data d) = Ok (rid d)"
| "SNetRecIdGet _ = SNetRecUnknown"

section \<open>Creation, copy, destruction\<close>

fun SNetRecCreate :: "int \<Rightarrow> 32 word \<Rightarrow> 'r rec_args \<Rightarrow> ('r snet_record \<times> 32 word) res" where
  "SNetRecCreate node seq Args_data =
     bindR (MapCreate []) (\<lambda>bt. bindR (MapCreate []) (\<lambda>tg. bindR (MapCreate []) (\<lambda>fs.
     case GenerateRecId node seq of (i, seq') \<Rightarrow>
       Ok (REC_data \<lparr>rec_tags = tg, rec_btags = bt, rec_fields = fs, interface_id = 0,
             rmode = MODE_binary, rid = i, detref = Some None\<rparr>, seq'))))"
| "SNetRecCreate node seq Args_trigger_initialiser = Ok (REC_trigger_initialiser, seq)"
| "SNetRecCreate node seq (Args_sync s) = Ok (REC_sync s None, seq)"
| "SNetRecCreate node seq (Args_collect s) = Ok (REC_collect s, seq)"
| "SNetRecCreate node seq Args_terminate = Ok (REC_terminate False, seq)"
| "SNetRecCreate node seq (Args_sort_end level num) = Ok (REC_sort_end level num, seq)"
| "SNetRecCreate node seq (Args_detref a b c) = Ok (REC_detref a b c, seq)"
| "SNetRecCreate node seq (Args_observ a b c) = Ok (REC_observ a b c, seq)"
| "SNetRecCreate node seq (Args_star_leader a b) = Ok (REC_star_leader a b, seq)"
| "SNetRecCreate node seq Args_wakeup = Ok (REC_wakeup, seq)"
| "SNetRecCreate node seq (Args_other n) = SNetRecUnknown"

text \<open>
  \<open>SNetRecDetrefCopy\<close> of the stream runtime (\<open>tertsrun.c\<close>) has an empty body: the \<open>detref\<close> cell of
  a copied record stays as the allocation left it.
\<close>

definition SNetRecDetrefCopy :: "'r data_rec \<Rightarrow> 'r data_rec \<Rightarrow> 'r data_rec" where
  "SNetRecDetrefCopy new_rec old_rec = new_rec"

fun SNetRecCopy :: "('r \<Rightarrow> 'r) \<Rightarrow> int \<Rightarrow> 32 word \<Rightarrow> 'r snet_record \<Rightarrow> ('r snet_record \<times> 32 word) res" where
  "SNetRecCopy refCopy node seq (REC_data d) =
     bindR (MapCopy (\<lambda>k. k) refCopy (rec_fields d)) (\<lambda>fs.
     bindR (MapCopy (\<lambda>k. k) (\<lambda>v. v) (rec_tags d)) (\<lambda>tg.
     bindR (MapCopy (\<lambda>k. k) (\<lambda>v. v) (rec_btags d)) (\<lambda>bt.
     case GenerateRecId node seq of (i, seq') \<Rightarrow>
       Ok (REC_data (SNetRecDetrefCopy
             \<lparr>rec_tags = tg, rec_btags = bt, rec_fields = fs, interface_id = interface_id d,
              rmode = rmode d, rid = i, detref = None\<rparr> d), seq'))))"
| "SNetRecCopy refCopy node seq (REC_sort_end level num) = SNetRecCreate node seq (Args_sort_end level num)"
| "SNetRecCopy refCopy node seq (REC_terminate b) =
     bindR (SNetRecCreate node seq (Args_terminate :: 'r rec_args)) (\<lambda>(_, seq'). Ok (REC_terminate b, seq'))"
| "SNetRecCopy refCopy node seq _ = SNetRecUnknown"

text \<open>\<open>SNetRecDestroy\<close>: the references handed to \<open>SNetRefDestroy\<close>.\<close>

fun SNetRecDestroy :: "'r snet_record \<Rightarrow> 'r list res" where
  "SNetRecDestroy (REC_data d) = bindR (MAP_FOR_EACH (rec_fields d)) (\<lambda>kvs. Ok (map snd kvs))"
| "SNetRecDestroy _ = Ok []"

section \<open>Pattern matching and flow inheritance\<close>

text \<open>A loop that leaves the function with \<open>false\<close> at the first label that is missing.\<close>

fun all_labels :: "(int \<Rightarrow> bool res) \<Rightarrow> int list \<Rightarrow> bool res" where
  "all_labels has [] = Ok True"
| "all_labels has (n # ns) = bindR (has n) (\<lambda>b. if b then all_labels has ns else Ok False)"

definition SNetRecPatternMatches :: "snet_variant \<Rightarrow> 'r snet_record \<Rightarrow> bool res" where
  "SNetRecPatternMatches pat r =
     bindR (LIST_FOR_EACH (v_fields pat)) (\<lambda>ns. bindR (all_labels (SNetRecHasField r) ns) (\<lambda>b.
     if \<not> b then Ok False else
     bindR (LIST_FOR_EACH (v_tags pat)) (\<lambda>ns. bindR (all_labels (SNetRecHasTag r) ns) (\<lambda>b.
     if \<not> b then Ok False else
     bindR (LIST_FOR_EACH (v_btags pat)) (all_labels (SNetRecHasBTag r))))))"

definition inherit_field ::
  "('r \<Rightarrow> 'r) \<Rightarrow> snet_variant \<Rightarrow> 'r snet_record \<Rightarrow> int \<times> 'r \<Rightarrow> 'r snet_record res" where
  "inherit_field refCopy pat out = (\<lambda>(name, field).
     bindR (SNetVariantHasField pat name) (\<lambda>b.
     if \<not> b then SNetRecSetField out name (refCopy field) else Ok out))"

definition inherit_tag :: "snet_variant \<Rightarrow> 'r snet_record \<Rightarrow> int \<times> int \<Rightarrow> 'r snet_record res" where
  "inherit_tag pat out = (\<lambda>(name, val).
     bindR (SNetVariantHasTag pat name) (\<lambda>b.
     if \<not> b then SNetRecSetTag out name val else Ok out))"

definition SNetRecFlowInherit ::
  "('r \<Rightarrow> 'r) \<Rightarrow> snet_variant \<Rightarrow> 'r snet_record \<Rightarrow> 'r snet_record \<Rightarrow> 'r snet_record res" where
  "SNetRecFlowInherit refCopy pat in_rec out_rec =
     bindR (data_of in_rec) (\<lambda>d.
     bindR (MAP_FOR_EACH (rec_fields d)) (\<lambda>fs.
     bindR (foldR (inherit_field refCopy pat) out_rec fs) (\<lambda>out.
     bindR (MAP_FOR_EACH (rec_tags d)) (\<lambda>ts.
     foldR (inherit_tag pat) out ts))))"

section \<open>Well-formed records\<close>

definition data_ok :: "'r data_rec \<Rightarrow> bool" where
  "data_ok d \<longleftrightarrow> map_ok (rec_tags d) \<and> map_ok (rec_btags d) \<and> map_ok (rec_fields d)"

fun record_ok :: "'r snet_record \<Rightarrow> bool" where
  "record_ok (REC_data d) = data_ok d"
| "record_ok (REC_sync s v) = (case v of None \<Rightarrow> True | Some w \<Rightarrow> variant_ok w)"
| "record_ok (REC_observ i r d) = record_ok r"
| "record_ok _ = True"

text \<open>The label-value maps of a data record.\<close>

definition tag_map :: "'r data_rec \<Rightarrow> int \<Rightarrow> int option" where
  "tag_map d = map_lookup (rec_tags d)"

definition btag_map :: "'r data_rec \<Rightarrow> int \<Rightarrow> int option" where
  "btag_map d = map_lookup (rec_btags d)"

definition field_map :: "'r data_rec \<Rightarrow> int \<Rightarrow> 'r option" where
  "field_map d = map_lookup (rec_fields d)"

lemmas label_maps = tag_map_def btag_map_def field_map_def

lemma data_ok_inv:
  assumes "data_ok d"
  shows "map_inv (rec_tags d)" "map_inv (rec_btags d)" "map_inv (rec_fields d)"
  using assms by (auto simp: data_ok_def map_ok_def)

lemma record_has:
  assumes "data_ok d"
  shows "SNetRecHasTag (REC_data d) n = Ok (n \<in> dom (tag_map d))"
    and "SNetRecHasBTag (REC_data d) n = Ok (n \<in> dom (btag_map d))"
    and "SNetRecHasField (REC_data d) n = Ok (n \<in> dom (field_map d))"
  using data_ok_inv[OF assms]
  by (simp_all add: SNetRecHasTag_def SNetRecHasBTag_def SNetRecHasField_def MapContains_spec label_maps)

lemma record_get:
  assumes "data_ok d"
  shows "SNetRecGetTag (REC_data d) n = (case tag_map d n of None \<Rightarrow> Err AssertFail | Some v \<Rightarrow> Ok v)"
    and "SNetRecGetBTag (REC_data d) n = (case btag_map d n of None \<Rightarrow> Err AssertFail | Some v \<Rightarrow> Ok v)"
    and "SNetRecGetField c (REC_data d) n = (case field_map d n of None \<Rightarrow> Err AssertFail | Some v \<Rightarrow> Ok (c v))"
  using data_ok_inv[OF assms]
  by (simp_all add: SNetRecGetTag_def SNetRecGetBTag_def SNetRecGetField_def MapGet_spec label_maps split: option.splits)

lemma record_set:
  assumes "data_ok d"
  shows "\<exists>d'. SNetRecSetTag (REC_data d) n v = Ok (REC_data d') \<and> data_ok d' \<and> tag_map d' = (tag_map d)(n \<mapsto> v) \<and> btag_map d' = btag_map d \<and> field_map d' = field_map d"
    and "\<exists>d'. SNetRecSetBTag (REC_data d) n v = Ok (REC_data d') \<and> data_ok d' \<and> btag_map d' = (btag_map d)(n \<mapsto> v) \<and> tag_map d' = tag_map d \<and> field_map d' = field_map d"
    and "\<exists>d'. SNetRecSetField (REC_data d) n f = Ok (REC_data d') \<and> data_ok d' \<and> field_map d' = (field_map d)(n \<mapsto> f) \<and> tag_map d' = tag_map d \<and> btag_map d' = btag_map d"
proof -
  show "\<exists>d'. SNetRecSetTag (REC_data d) n v = Ok (REC_data d') \<and> data_ok d' \<and> tag_map d' = (tag_map d)(n \<mapsto> v) \<and> btag_map d' = btag_map d \<and> field_map d' = field_map d"
    using snet_map.put_law[of "rec_tags d" n v] assms
    by (auto simp: SNetRecSetTag_def SNetIntMapSet_def data_ok_def label_maps)
  show "\<exists>d'. SNetRecSetBTag (REC_data d) n v = Ok (REC_data d') \<and> data_ok d' \<and> btag_map d' = (btag_map d)(n \<mapsto> v) \<and> tag_map d' = tag_map d \<and> field_map d' = field_map d"
    using snet_map.put_law[of "rec_btags d" n v] assms
    by (auto simp: SNetRecSetBTag_def SNetIntMapSet_def data_ok_def label_maps)
  show "\<exists>d'. SNetRecSetField (REC_data d) n f = Ok (REC_data d') \<and> data_ok d' \<and> field_map d' = (field_map d)(n \<mapsto> f) \<and> tag_map d' = tag_map d \<and> btag_map d' = btag_map d"
    using snet_map.put_law[of "rec_fields d" n f] assms
    by (auto simp: SNetRecSetField_def SNetRefMapSet_def data_ok_def label_maps)
qed

lemma SNetRecCreate_data:
  "\<exists>d. SNetRecCreate node seq Args_data = Ok (REC_data d, seq + 1) \<and> data_ok d \<and> tag_map d = Map.empty \<and>
     btag_map d = Map.empty \<and> field_map d = Map.empty \<and> interface_id d = 0 \<and> rmode d = MODE_binary \<and>
     rid d = [sint seq, node] \<and> detref d = Some None"
  by (auto simp: MapCreate_Ok GenerateRecId_def data_ok_def map_ok_def label_maps map_lookup_def)

lemma all_labels_pure: "(\<And>n. has n = Ok (P n)) \<Longrightarrow> all_labels has ns = Ok (\<forall>n\<in>set ns. P n)"
  by (induction ns) auto

text \<open>A data record matches a pattern iff it carries every label of the pattern.\<close>

lemma SNetRecPatternMatches_spec:
  assumes "variant_ok pat" and "data_ok d"
  shows "SNetRecPatternMatches pat (REC_data d) =
     Ok (vfields pat \<subseteq> dom (field_map d) \<and> vtags pat \<subseteq> dom (tag_map d) \<and> vbtags pat \<subseteq> dom (btag_map d))"
proof -
  note l = all_labels_pure[of "SNetRecHasField (REC_data d)", OF record_has(3)[OF assms(2)]]
    all_labels_pure[of "SNetRecHasTag (REC_data d)", OF record_has(1)[OF assms(2)]]
    all_labels_pure[of "SNetRecHasBTag (REC_data d)", OF record_has(2)[OF assms(2)]]
  have "list_inv (v_tags pat)" "list_inv (v_btags pat)" "list_inv (v_fields pat)"
    using assms(1) by (auto simp: variant_ok_def)
  then show ?thesis
    by (auto simp: SNetRecPatternMatches_def LIST_FOR_EACH_list_of l variant_sets subset_iff)
qed

text \<open>
  The two loops of flow inheritance: the labels of the input record that the pattern does not
  name are set in the output record.
\<close>

lemma set_fields_loop:
  assumes "\<And>d k v. data_ok d \<Longrightarrow> f (REC_data d) (k, v) = (if P k then SNetRecSetField (REC_data d) k (c v) else Ok (REC_data d))"
  shows "data_ok d \<Longrightarrow> \<exists>d'. foldR f (REC_data d) kvs = Ok (REC_data d') \<and> data_ok d' \<and>
     field_map d' = field_map d ++ map_of (rev (map (\<lambda>(k, v). (k, c v)) (filter (\<lambda>(k, v). P k) kvs))) \<and>
     tag_map d' = tag_map d \<and> btag_map d' = btag_map d"
proof (induction kvs arbitrary: d)
  case Nil
  then show ?case by simp
next
  case (Cons kv kvs)
  obtain k v where kv: "kv = (k, v)" by (cases kv)
  show ?case
  proof (cases "P k")
    case False
    with Cons.IH[OF Cons.prems] kv show ?thesis by (simp add: assms Cons.prems)
  next
    case True
    obtain d1 where d1: "SNetRecSetField (REC_data d) k (c v) = Ok (REC_data d1)" "data_ok d1"
      "field_map d1 = (field_map d)(k \<mapsto> c v)" "tag_map d1 = tag_map d" "btag_map d1 = btag_map d"
      using record_set(3)[OF Cons.prems] by blast
    moreover obtain d2 where d2: "foldR f (REC_data d1) kvs = Ok (REC_data d2)" "data_ok d2"
      "field_map d2 = field_map d1 ++ map_of (rev (map (\<lambda>(k, v). (k, c v)) (filter (\<lambda>(k, v). P k) kvs)))"
      "tag_map d2 = tag_map d1" "btag_map d2 = btag_map d1"
      using Cons.IH[OF d1(2)] by blast
    ultimately show ?thesis using True by (intro exI[of _ d2]) (simp add: kv assms Cons.prems)
  qed
qed

lemma set_tags_loop:
  assumes "\<And>d k v. data_ok d \<Longrightarrow> f (REC_data d) (k, v) = (if P k then SNetRecSetTag (REC_data d) k v else Ok (REC_data d))"
  shows "data_ok d \<Longrightarrow> \<exists>d'. foldR f (REC_data d) kvs = Ok (REC_data d') \<and> data_ok d' \<and>
     tag_map d' = tag_map d ++ map_of (rev (map (\<lambda>(k, v). (k, v)) (filter (\<lambda>(k, v). P k) kvs))) \<and>
     field_map d' = field_map d \<and> btag_map d' = btag_map d"
proof (induction kvs arbitrary: d)
  case Nil
  then show ?case by simp
next
  case (Cons kv kvs)
  obtain k v where kv: "kv = (k, v)" by (cases kv)
  show ?case
  proof (cases "P k")
    case False
    with Cons.IH[OF Cons.prems] kv show ?thesis by (simp add: assms Cons.prems)
  next
    case True
    obtain d1 where d1: "SNetRecSetTag (REC_data d) k v = Ok (REC_data d1)" "data_ok d1"
      "tag_map d1 = (tag_map d)(k \<mapsto> v)" "field_map d1 = field_map d" "btag_map d1 = btag_map d"
      using record_set(1)[OF Cons.prems] by blast
    moreover obtain d2 where d2: "foldR f (REC_data d1) kvs = Ok (REC_data d2)" "data_ok d2"
      "tag_map d2 = tag_map d1 ++ map_of (rev (map (\<lambda>(k, v). (k, v)) (filter (\<lambda>(k, v). P k) kvs)))"
      "field_map d2 = field_map d1" "btag_map d2 = btag_map d1"
      using Cons.IH[OF d1(2)] by blast
    ultimately show ?thesis using True by (intro exI[of _ d2]) (simp add: kv assms Cons.prems)
  qed
qed

text \<open>Both loops over the labels of a well-formed record, as maps.\<close>

definition restrict_labels :: "(int \<Rightarrow> bool) \<Rightarrow> ('v \<Rightarrow> 'w) \<Rightarrow> (int \<Rightarrow> 'v option) \<Rightarrow> int \<Rightarrow> 'w option" where
  "restrict_labels P c m = (\<lambda>n. if P n then map_option c (m n) else None)"

lemma label_loops:
  assumes "data_ok src" and "data_ok d"
    and "\<And>d k v. data_ok d \<Longrightarrow> f (REC_data d) (k, v) = (if P k then SNetRecSetField (REC_data d) k (c v) else Ok (REC_data d))"
    and "\<And>d k v. data_ok d \<Longrightarrow> g (REC_data d) (k, v) = (if Q k then SNetRecSetTag (REC_data d) k v else Ok (REC_data d))"
  shows "\<exists>d'. bindR (MAP_FOR_EACH (rec_fields src)) (\<lambda>fs. bindR (foldR f (REC_data d) fs) (\<lambda>out.
       bindR (MAP_FOR_EACH (rec_tags src)) (\<lambda>ts. foldR g out ts))) = Ok (REC_data d') \<and> data_ok d' \<and>
     field_map d' = field_map d ++ restrict_labels P c (field_map src) \<and>
     tag_map d' = tag_map d ++ restrict_labels Q (\<lambda>v. v) (tag_map src) \<and> btag_map d' = btag_map d"
proof -
  have dist: "distinct (map fst (entries (rec_fields src)))" "distinct (map fst (entries (rec_tags src)))"
    using assms(1) by (auto simp: data_ok_def map_ok_def)
  obtain d1 where d1: "foldR f (REC_data d) (entries (rec_fields src)) = Ok (REC_data d1)" "data_ok d1"
    "field_map d1 = field_map d ++ map_of (rev (map (\<lambda>(k, v). (k, c v)) (filter (\<lambda>(k, v). P k) (entries (rec_fields src)))))"
    "tag_map d1 = tag_map d" "btag_map d1 = btag_map d"
    using set_fields_loop[of f P c d] assms(2,3) by blast
  obtain d2 where d2: "foldR g (REC_data d1) (entries (rec_tags src)) = Ok (REC_data d2)" "data_ok d2"
    "tag_map d2 = tag_map d1 ++ map_of (rev (map (\<lambda>(k, v). (k, v)) (filter (\<lambda>(k, v). Q k) (entries (rec_tags src)))))"
    "field_map d2 = field_map d1" "btag_map d2 = btag_map d1"
    using set_tags_loop[of g Q d1] assms(4) d1(2) by blast
  have "field_map d2 = field_map d ++ restrict_labels P c (field_map src)"
    unfolding d2(4) d1(3) map_of_rev_distinct[OF distinct_map_filter_map[OF dist(1)]] map_of_filter_map[OF dist(1)]
    unfolding restrict_labels_def field_map_def map_lookup_def by (rule refl)
  moreover have "tag_map d2 = tag_map d ++ restrict_labels Q (\<lambda>v. v) (tag_map src)"
    unfolding d2(3) d1(4) map_of_rev_distinct[OF distinct_map_filter_map[OF dist(2)]] map_of_filter_map[OF dist(2)]
    unfolding restrict_labels_def tag_map_def map_lookup_def by (rule refl)
  ultimately show ?thesis using d1(1,5) d2(1,2,5) data_ok_inv[OF assms(1)]
    by (intro exI[of _ d2]) (simp add: map_cells)
qed

lemma SNetRecFlowInherit_spec:
  assumes "variant_ok pat" and "data_ok d" and "data_ok out"
  shows "\<exists>out'. SNetRecFlowInherit c pat (REC_data d) (REC_data out) = Ok (REC_data out') \<and> data_ok out' \<and>
     field_map out' = field_map out ++ (\<lambda>n. if n \<notin> vfields pat then map_option c (field_map d n) else None) \<and>
     tag_map out' = tag_map out ++ (\<lambda>n. if n \<notin> vtags pat then tag_map d n else None) \<and>
     btag_map out' = btag_map out"
proof -
  have "inherit_field c pat (REC_data e) (k, v) =
      (if k \<notin> vfields pat then SNetRecSetField (REC_data e) k (c v) else Ok (REC_data e))" for e k v
    by (simp add: inherit_field_def variant_has[OF assms(1)])
  moreover have "inherit_tag pat (REC_data e) (k, v) =
      (if k \<notin> vtags pat then SNetRecSetTag (REC_data e) k v else Ok (REC_data e))" for e :: "'a data_rec" and k v
    by (simp add: inherit_tag_def variant_has[OF assms(1)])
  ultimately show ?thesis
    using label_loops[OF assms(2,3), of "inherit_field c pat" "\<lambda>k. k \<notin> vfields pat" c "inherit_tag pat" "\<lambda>k. k \<notin> vtags pat"]
    by (simp add: SNetRecFlowInherit_def restrict_labels_def option.map_ident cong: if_cong)
qed

lemma SNetRecCopy_data:
  assumes "data_ok d"
  shows "\<exists>d'. SNetRecCopy c node seq (REC_data d) = Ok (REC_data d', seq + 1) \<and> data_ok d' \<and>
     field_map d' = map_option c \<circ> field_map d \<and> tag_map d' = tag_map d \<and> btag_map d' = btag_map d \<and>
     interface_id d' = interface_id d \<and> rmode d' = rmode d \<and> rid d' = [sint seq, node] \<and> detref d' = None"
proof -
  note inv = data_ok_inv[OF assms]
  obtain f t b where m: "MapCopy (\<lambda>k. k) c (rec_fields d) = Ok f" "map_inv f" "entries f = map (\<lambda>(k, v). (k, c v)) (entries (rec_fields d))"
    "MapCopy (\<lambda>k. k) (\<lambda>v. v) (rec_tags d) = Ok t" "map_inv t" "entries t = entries (rec_tags d)"
    "MapCopy (\<lambda>k. k) (\<lambda>v. v) (rec_btags d) = Ok b" "map_inv b" "entries b = entries (rec_btags d)"
    using MapCopy_spec[OF inv(3), of "\<lambda>k. k" c] MapCopy_spec[OF inv(1), of "\<lambda>k. k" "\<lambda>v. v"]
      MapCopy_spec[OF inv(2), of "\<lambda>k. k" "\<lambda>v. v"] by auto
  have "map fst (entries f) = map fst (entries (rec_fields d))" by (simp add: m(3) comp_def case_prod_beta)
  then have "distinct (map fst (entries f))" using assms by (simp add: data_ok_def map_ok_def)
  then have "map_ok f" "map_ok t" "map_ok b" using m assms by (simp_all add: data_ok_def map_ok_def)
  moreover have "map_of (map (\<lambda>(k, v). (k, c v)) kvs) = map_option c \<circ> map_of kvs" for kvs :: "(int \<times> 'a) list"
    by (induction kvs) auto
  ultimately show ?thesis using m assms
    by (simp add: GenerateRecId_def SNetRecDetrefCopy_def data_ok_def label_maps map_lookup_def)
qed

text \<open>A fresh identifier differs from all that were given out while the counter has not wrapped.\<close>

fun gen_ids :: "nat \<Rightarrow> int \<Rightarrow> 32 word \<Rightarrow> snet_record_id list" where
  "gen_ids 0 node seq = []"
| "gen_ids (Suc n) node seq = (case GenerateRecId node seq of (i, seq') \<Rightarrow> i # gen_ids n node seq')"

lemma gen_ids_map: "gen_ids n node seq = map (\<lambda>i. [sint (seq + of_nat i), node]) [0..<n]"
proof (induction n arbitrary: seq)
  case 0
  then show ?case by simp
next
  case (Suc n)
  then show ?case by (simp add: GenerateRecId_def map_upt_Suc_first add.assoc del: upt_Suc)
qed

lemma sint_add_of_nat_inj:
  fixes seq :: "32 word"
  assumes "i < 2 ^ 32" and "j < 2 ^ 32" and "sint (seq + of_nat i) = sint (seq + of_nat j)"
  shows "i = j"
proof -
  have "(of_nat i :: 32 word) = of_nat j" using signed_word_eqI[OF assms(3)] by simp
  with assms(1,2) show ?thesis by (simp add: word_of_nat_eq_iff take_bit_nat_eq_self)
qed

section \<open>Properties\<close>

text \<open>
  C2. A data record matches a pattern if and only if it carries every field, tag and binding tag
  that the pattern names; the test never fails on well-formed values.
\<close>

theorem rec_pattern_matches:
  assumes "variant_ok pat" and "data_ok d"
  shows "SNetRecPatternMatches pat (REC_data d) =
     Ok (vfields pat \<subseteq> dom (field_map d) \<and> vtags pat \<subseteq> dom (tag_map d) \<and> vbtags pat \<subseteq> dom (btag_map d))"
  by (rule SNetRecPatternMatches_spec[OF assms])

definition example_data :: "nat data_rec" where
  "example_data = \<lparr>rec_tags = map_from [(1, 10), (2, 20)], rec_btags = map_from [(7, 70)], rec_fields = map_from [(3, 30), (4, 40)],
     interface_id = 5, rmode = MODE_binary, rid = [0, 0], detref = Some None\<rparr>"

definition example_pat :: snet_variant where
  "example_pat = SNetVariantCreate (int_list [3]) (int_list [1]) (int_list [])"

lemma example_simps [simp]:
  "data_ok example_data" "variant_ok example_pat" "vfields example_pat = {3}" "vtags example_pat = {1}" "vbtags example_pat = {}"
  "tag_map example_data = [1 \<mapsto> 10, 2 \<mapsto> 20]" "btag_map example_data = [7 \<mapsto> 70]" "field_map example_data = [3 \<mapsto> 30, 4 \<mapsto> 40]"
  by (auto simp: example_data_def example_pat_def data_ok_def map_ok_def variant_ok_def variant_sets SNetVariantCreate_def
      label_maps map_lookup_def fun_eq_iff)

theorem rec_pattern_matches_witness: "SNetRecPatternMatches example_pat (REC_data example_data) = Ok True"
  using rec_pattern_matches[of example_pat example_data] by simp

text \<open>
  C1. Flow inheritance adds to the output record exactly the fields and tags of the input record
  that the pattern does not name (overriding an equally named label), copies the inherited
  references, and leaves the binding tags and all other labels of the output record alone.
\<close>

theorem rec_flow_inherit:
  assumes "variant_ok pat" and "data_ok d" and "data_ok out"
  shows "\<exists>out'. SNetRecFlowInherit c pat (REC_data d) (REC_data out) = Ok (REC_data out') \<and> data_ok out' \<and>
     field_map out' = field_map out ++ (\<lambda>n. if n \<notin> vfields pat then map_option c (field_map d n) else None) \<and>
     tag_map out' = tag_map out ++ (\<lambda>n. if n \<notin> vtags pat then tag_map d n else None) \<and>
     btag_map out' = btag_map out"
  by (rule SNetRecFlowInherit_spec[OF assms])

theorem rec_flow_inherit_witness:
  "\<exists>out'. SNetRecFlowInherit (\<lambda>r. r) example_pat (REC_data example_data) (REC_data example_data) = Ok (REC_data out') \<and>
     tag_map out' 2 = Some 20 \<and> field_map out' 4 = Some 40 \<and> btag_map out' 7 = Some 70"
  using rec_flow_inherit[of example_pat example_data example_data "\<lambda>r. r"] by force

text \<open>
  A copied data record carries the same labels with the same values, its references copied
  one by one, the same mode and interface, and a fresh identifier of this node.
\<close>

lemma rec_copy_data:
  "data_ok d \<Longrightarrow>
     \<exists>d'. SNetRecCopy c node seq (REC_data d) = Ok (REC_data d', seq + 1) \<and> data_ok d' \<and>
       field_map d' = map_option c \<circ> field_map d \<and> tag_map d' = tag_map d \<and> btag_map d' = btag_map d \<and>
       interface_id d' = interface_id d \<and> rmode d' = rmode d \<and> rid d' = [sint seq, node]"
  using SNetRecCopy_data[of d c node seq] by blast

text \<open>
  The identifiers of the records that a node creates are pairwise different as long as it
  creates at most \<open>2 ^ 32\<close> of them: the sequence number then has not come round.
\<close>

lemma rec_ids_unique:
  assumes "n \<le> 2 ^ 32"
  shows "distinct (gen_ids n node seq)"
proof -
  have "inj_on (\<lambda>i. [sint (seq + of_nat i), node]) (set [0..<n])"
    using assms by (auto simp: inj_on_def intro: sint_add_of_nat_inj)
  then show ?thesis by (simp add: gen_ids_map distinct_map)
qed

end
