(* ===== verification/Record_Transport.thy ===== *)
theory Record_Transport
  imports Snet_Record
begin

text \<open>
  The serialisation of records for the distribution layer (\<open>SNetRecSerialise\<close> and
  \<open>SNetRecDeserialise\<close> of \<open>runtime/common/record.c\<close>). The transport hands in functions that pack
  integers and references into a buffer and unpack them again; the locale \<open>pack_channel\<close> states
  what they promise, and the round trip is proved over it. The ring buffer of the SCC transport
  (\<open>SCC_Ring\<close>) is the instance. \<open>bounded_channel\<close> adds the room that is left in a channel of bounded size.
\<close>

section \<open>The code\<close>

text \<open>
  \<open>SNetRecSerialise\<close> returns the buffer, the references whose memory it frees and those that
  the final \<open>SNetRecDestroy\<close> destroys.
\<close>

fun SNetRecSerialise ::
  "('b \<Rightarrow> int list \<Rightarrow> 'b res) \<Rightarrow> ('b \<Rightarrow> 'r list \<Rightarrow> 'b res) \<Rightarrow> 'r snet_record \<Rightarrow> 'b \<Rightarrow>
   ('b \<times> 'r list \<times> 'r list) res" where
  "SNetRecSerialise packInts packRefs (REC_data d) buf =
     bindR (packInts buf [1100]) (\<lambda>buf.
     bindR (MapSerialise packInts packInts packInts (rec_btags d) buf) (\<lambda>buf.
     bindR (MapSerialise packInts packInts packInts (rec_tags d) buf) (\<lambda>buf.
     bindR (MapSerialise packInts packInts packRefs (rec_fields d) buf) (\<lambda>buf.
     bindR (packInts buf [rmode d]) (\<lambda>buf.
     bindR (packInts buf [interface_id d]) (\<lambda>buf.
     bindR (MAP_DEQUEUE_EACH (rec_fields d)) (\<lambda>(kvs, m).
     bindR (SNetRecDestroy (REC_data (d\<lparr>rec_fields := m\<rparr>))) (\<lambda>destroyed.
     Ok (buf, map snd kvs, destroyed)))))))))"
| "SNetRecSerialise packInts packRefs (REC_sort_end level num) buf =
     bindR (packInts buf [1103]) (\<lambda>buf.
     bindR (packInts buf [level]) (\<lambda>buf.
     bindR (packInts buf [num]) (\<lambda>buf.
     bindR (SNetRecDestroy (REC_sort_end level num)) (\<lambda>destroyed. Ok (buf, [], destroyed)))))"
| "SNetRecSerialise packInts packRefs (REC_terminate local) buf =
     bindR (packInts buf [1104]) (\<lambda>buf.
     bindR (packInts buf [of_bool local]) (\<lambda>buf.
     bindR (SNetRecDestroy (REC_terminate local)) (\<lambda>destroyed. Ok (buf, [], destroyed))))"
| "SNetRecSerialise packInts packRefs REC_trigger_initialiser buf =
     bindR (packInts buf [1105]) (\<lambda>buf.
     bindR (SNetRecDestroy REC_trigger_initialiser) (\<lambda>destroyed. Ok (buf, [], destroyed)))"
| "SNetRecSerialise packInts packRefs r buf =
     bindR (packInts buf [SNetRecGetDescriptor r]) (\<lambda>buf. SNetRecUnknown)"

text \<open>
  \<open>SNetRecDeserialise\<close>: the two integers at the end of a data record are both assigned to
  \<open>mode\<close>.
\<close>

definition SNetRecDeserialise ::
  "('b \<Rightarrow> nat \<Rightarrow> (int list \<times> 'b) res) \<Rightarrow> ('b \<Rightarrow> nat \<Rightarrow> ('r list \<times> 'b) res) \<Rightarrow>
   int \<Rightarrow> 32 word \<Rightarrow> 'b \<Rightarrow> ('r snet_record \<times> 32 word \<times> 'b) res" where
  "SNetRecDeserialise unpackInts unpackRefs node seq buf =
     bindR (unpackInts buf 1) (\<lambda>(e, buf).
     if hd e = 1100 then
       bindR (SNetRecCreate node seq Args_data) (\<lambda>(r, seq).
       bindR (data_of r) (\<lambda>d.
       bindR (MapDeserialise unpackInts unpackInts unpackInts buf) (\<lambda>(bt, buf).
       bindR (MapDeserialise unpackInts unpackInts unpackInts buf) (\<lambda>(tg, buf).
       bindR (MapDeserialise unpackInts unpackInts unpackRefs buf) (\<lambda>(fs, buf).
       bindR (unpackInts buf 1) (\<lambda>(e, buf).
       let d = d\<lparr>rec_btags := bt, rec_tags := tg, rec_fields := fs, rmode := hd e\<rparr> in
       bindR (unpackInts buf 1) (\<lambda>(e, buf).
       let d = d\<lparr>rmode := hd e\<rparr> in
       Ok (REC_data d, seq, buf))))))))
     else if hd e = 1103 then
       bindR (unpackInts buf 1) (\<lambda>(l, buf).
       bindR (unpackInts buf 1) (\<lambda>(n, buf).
       Ok (REC_sort_end (hd l) (hd n), seq, buf)))
     else if hd e = 1104 then
       bindR (unpackInts buf 1) (\<lambda>(l, buf). Ok (REC_terminate (hd l \<noteq> 0), seq, buf))
     else if hd e = 1105 then Ok (REC_trigger_initialiser, seq, buf)
     else Err FatalError)"

section \<open>What the transport promises\<close>

text \<open>
  \<open>content\<close> is the sequence of units waiting in the buffer; \<open>enc_int\<close> and \<open>enc_ref\<close> are the
  units one integer and one reference occupy. A pack appends at the end, an unpack takes the
  same number of values from the front.
\<close>

locale pack_channel =
  fixes okbuf :: "'b \<Rightarrow> bool"
    and content :: "'b \<Rightarrow> 'c list"
    and enc_int :: "int \<Rightarrow> 'c list"
    and enc_ref :: "'r \<Rightarrow> 'c list"
    and valid_ref :: "'r \<Rightarrow> bool"
    and packInts :: "'b \<Rightarrow> int list \<Rightarrow> 'b res"
    and packRefs :: "'b \<Rightarrow> 'r list \<Rightarrow> 'b res"
    and unpackInts :: "'b \<Rightarrow> nat \<Rightarrow> (int list \<times> 'b) res"
    and unpackRefs :: "'b \<Rightarrow> nat \<Rightarrow> ('r list \<times> 'b) res"
  assumes packInts_law:
    "okbuf b \<Longrightarrow> list_all int_range xs \<Longrightarrow> packInts b xs = Ok b' \<Longrightarrow>
       okbuf b' \<and> content b' = content b @ concat (map enc_int xs)"
    and packRefs_law:
    "okbuf b \<Longrightarrow> list_all valid_ref rs \<Longrightarrow> packRefs b rs = Ok b' \<Longrightarrow>
       okbuf b' \<and> content b' = content b @ concat (map enc_ref rs)"
    and unpackInts_law:
    "okbuf b \<Longrightarrow> list_all int_range xs \<Longrightarrow> content b = concat (map enc_int xs) @ rest \<Longrightarrow>
       \<exists>b'. unpackInts b (length xs) = Ok (xs, b') \<and> okbuf b' \<and> content b' = rest"
    and unpackRefs_law:
    "okbuf b \<Longrightarrow> list_all valid_ref rs \<Longrightarrow> content b = concat (map enc_ref rs) @ rest \<Longrightarrow>
       \<exists>b'. unpackRefs b (length rs) = Ok (rs, b') \<and> okbuf b' \<and> content b' = rest"
begin

definition valid_imap :: "int_map \<Rightarrow> bool" where
  "valid_imap m \<longleftrightarrow> map_inv m \<and> int_range (int (mused m)) \<and>
     list_all int_range (map fst (entries m)) \<and> list_all int_range (map snd (entries m))"

definition valid_rmap :: "'r ref_map \<Rightarrow> bool" where
  "valid_rmap m \<longleftrightarrow> map_inv m \<and> int_range (int (mused m)) \<and>
     list_all int_range (map fst (entries m)) \<and> list_all valid_ref (map snd (entries m))"

definition enc_imap :: "int_map \<Rightarrow> 'c list" where
  "enc_imap m = enc_int (int (mused m)) @ concat (map enc_int (map fst (entries m))) @
     concat (map enc_int (map snd (entries m)))"

definition enc_rmap :: "'r ref_map \<Rightarrow> 'c list" where
  "enc_rmap m = enc_int (int (mused m)) @ concat (map enc_int (map fst (entries m))) @
     concat (map enc_ref (map snd (entries m)))"

lemma packInt_law:
  "okbuf b \<Longrightarrow> int_range x \<Longrightarrow> packInts b [x] = Ok b' \<Longrightarrow> okbuf b' \<and> content b' = content b @ enc_int x"
  using packInts_law[of b "[x]" b'] by simp

lemma unpackInt_law:
  "okbuf b \<Longrightarrow> int_range x \<Longrightarrow> content b = enc_int x @ rest \<Longrightarrow>
     \<exists>b'. unpackInts b 1 = Ok ([x], b') \<and> okbuf b' \<and> content b' = rest"
  using unpackInts_law[of b "[x]" rest] by simp

lemma imap_serialise:
  assumes "okbuf b" and "valid_imap m" and "MapSerialise packInts packInts packInts m b = Ok b'"
  shows "okbuf b' \<and> content b' = content b @ enc_imap m"
proof -
  from assms(3) map_arrays_read[of m] assms(2) obtain b1 b2 where
    "packInts b [int (mused m)] = Ok b1" "packInts b1 (map fst (entries m)) = Ok b2"
    "packInts b2 (map snd (entries m)) = Ok b'"
    by (auto simp: MapSerialise_def valid_imap_def)
  note p = this
  have v: "int_range (int (mused m))" "list_all int_range (map fst (entries m))" "list_all int_range (map snd (entries m))"
    using assms(2) by (auto simp: valid_imap_def)
  note l1 = packInt_law[OF assms(1) v(1) p(1)]
  note l2 = packInts_law[OF conjunct1[OF l1] v(2) p(2)]
  from packInts_law[OF conjunct1[OF l2] v(3) p(3)] l1 l2 show ?thesis
    by (simp add: enc_imap_def)
qed

lemma rmap_serialise:
  assumes "okbuf b" and "valid_rmap m" and "MapSerialise packInts packInts packRefs m b = Ok b'"
  shows "okbuf b' \<and> content b' = content b @ enc_rmap m"
proof -
  from assms(3) map_arrays_read[of m] assms(2) obtain b1 b2 where
    "packInts b [int (mused m)] = Ok b1" "packInts b1 (map fst (entries m)) = Ok b2"
    "packRefs b2 (map snd (entries m)) = Ok b'"
    by (auto simp: MapSerialise_def valid_rmap_def)
  note p = this
  have v: "int_range (int (mused m))" "list_all int_range (map fst (entries m))" "list_all valid_ref (map snd (entries m))"
    using assms(2) by (auto simp: valid_rmap_def)
  note l1 = packInt_law[OF assms(1) v(1) p(1)]
  note l2 = packInts_law[OF conjunct1[OF l1] v(2) p(2)]
  from packRefs_law[OF conjunct1[OF l2] v(3) p(3)] l1 l2 show ?thesis
    by (simp add: enc_rmap_def)
qed

lemma imap_deserialise:
  assumes "okbuf b" and "valid_imap m" and "content b = enc_imap m @ rest"
  shows "\<exists>b'. MapDeserialise unpackInts unpackInts unpackInts b = Ok (map_from (entries m), b') \<and> okbuf b' \<and> content b' = rest"
proof -
  obtain b1 where b1: "unpackInts b 1 = Ok ([int (mused m)], b1)" "okbuf b1"
    "content b1 = concat (map enc_int (map fst (entries m))) @ concat (map enc_int (map snd (entries m))) @ rest"
    using unpackInt_law[OF assms(1), of "int (mused m)"] assms(2,3) by (auto simp: valid_imap_def enc_imap_def)
  obtain b2 where b2: "unpackInts b1 (mused m) = Ok (map fst (entries m), b2)" "okbuf b2"
    "content b2 = concat (map enc_int (map snd (entries m))) @ rest"
    using unpackInts_law[OF b1(2) _ b1(3)] assms(2) by (auto simp: valid_imap_def)
  obtain b3 where b3: "unpackInts b2 (mused m) = Ok (map snd (entries m), b3)" "okbuf b3" "content b3 = rest"
    using unpackInts_law[OF b2(2) _ b2(3)] assms(2) by (auto simp: valid_imap_def)
  from b1(1) b2(1) b3 show ?thesis by (simp add: MapDeserialise_def Let_def map_from_def)
qed

lemma rmap_deserialise:
  assumes "okbuf b" and "valid_rmap m" and "content b = enc_rmap m @ rest"
  shows "\<exists>b'. MapDeserialise unpackInts unpackInts unpackRefs b = Ok (map_from (entries m), b') \<and> okbuf b' \<and> content b' = rest"
proof -
  obtain b1 where b1: "unpackInts b 1 = Ok ([int (mused m)], b1)" "okbuf b1"
    "content b1 = concat (map enc_int (map fst (entries m))) @ concat (map enc_ref (map snd (entries m))) @ rest"
    using unpackInt_law[OF assms(1), of "int (mused m)"] assms(2,3) by (auto simp: valid_rmap_def enc_rmap_def)
  obtain b2 where b2: "unpackInts b1 (mused m) = Ok (map fst (entries m), b2)" "okbuf b2"
    "content b2 = concat (map enc_ref (map snd (entries m))) @ rest"
    using unpackInts_law[OF b1(2) _ b1(3)] assms(2) by (auto simp: valid_rmap_def)
  obtain b3 where b3: "unpackRefs b2 (mused m) = Ok (map snd (entries m), b3)" "okbuf b3" "content b3 = rest"
    using unpackRefs_law[OF b2(2) _ b2(3)] assms(2) by (auto simp: valid_rmap_def)
  from b1(1) b2(1) b3 show ?thesis by (simp add: MapDeserialise_def Let_def map_from_def)
qed

definition valid_data :: "'r data_rec \<Rightarrow> bool" where
  "valid_data d \<longleftrightarrow> valid_imap (rec_btags d) \<and> valid_imap (rec_tags d) \<and> valid_rmap (rec_fields d) \<and>
     int_range (rmode d) \<and> int_range (interface_id d)"

definition enc_data :: "'r data_rec \<Rightarrow> 'c list" where
  "enc_data d = enc_int 1100 @ enc_imap (rec_btags d) @ enc_imap (rec_tags d) @ enc_rmap (rec_fields d) @
     enc_int (rmode d) @ enc_int (interface_id d)"

lemma serialise_data:
  assumes "okbuf b" and "valid_data d" and "SNetRecSerialise packInts packRefs (REC_data d) b = Ok (b', freed, destroyed)"
  shows "okbuf b' \<and> content b' = content b @ enc_data d \<and> freed = rev (map snd (entries (rec_fields d))) \<and> destroyed = []"
proof -
  have inv: "map_inv (rec_fields d)" using assms(2) by (simp add: valid_data_def valid_rmap_def)
  have "map_inv ((rec_fields d)\<lparr>mused := 0\<rparr>)" "entries ((rec_fields d)\<lparr>mused := 0\<rparr>) = []"
    using inv by (auto simp: map_inv_def entries_def)
  note dq = map_cells(2)[OF inv] map_cells(1)[OF this(1)] this(2)
  from assms(3) dq obtain b1 b2 b3 b4 b5 where
    p: "packInts b [1100] = Ok b1" "MapSerialise packInts packInts packInts (rec_btags d) b1 = Ok b2"
    "MapSerialise packInts packInts packInts (rec_tags d) b2 = Ok b3"
    "MapSerialise packInts packInts packRefs (rec_fields d) b3 = Ok b4"
    "packInts b4 [rmode d] = Ok b5" "packInts b5 [interface_id d] = Ok b'"
    and r: "freed = rev (map snd (entries (rec_fields d)))" "destroyed = []"
    by (auto simp: rev_map)
  have v: "valid_imap (rec_btags d)" "valid_imap (rec_tags d)" "valid_rmap (rec_fields d)" "int_range (rmode d)"
    "int_range (interface_id d)" "int_range 1100"
    using assms(2) by (auto simp: valid_data_def int_range_def)
  note l1 = packInt_law[OF assms(1) v(6) p(1)]
  note l2 = imap_serialise[OF conjunct1[OF l1] v(1) p(2)]
  note l3 = imap_serialise[OF conjunct1[OF l2] v(2) p(3)]
  note l4 = rmap_serialise[OF conjunct1[OF l3] v(3) p(4)]
  note l5 = packInt_law[OF conjunct1[OF l4] v(4) p(5)]
  from packInt_law[OF conjunct1[OF l5] v(5) p(6)] l1 l2 l3 l4 l5 r show ?thesis by (simp add: enc_data_def)
qed

lemma deserialise_data:
  assumes "okbuf b" and "valid_data d" and "content b = enc_data d @ rest"
  shows "\<exists>b'. SNetRecDeserialise unpackInts unpackRefs node seq b =
      Ok (REC_data \<lparr>rec_tags = map_from (entries (rec_tags d)), rec_btags = map_from (entries (rec_btags d)),
            rec_fields = map_from (entries (rec_fields d)), interface_id = 0, rmode = interface_id d,
            rid = [sint seq, node], detref = Some None\<rparr>, seq + 1, b') \<and> okbuf b' \<and> content b' = rest"
proof -
  have v: "valid_imap (rec_btags d)" "valid_imap (rec_tags d)" "valid_rmap (rec_fields d)" "int_range (rmode d)"
    "int_range (interface_id d)" "int_range 1100"
    using assms(2) by (auto simp: valid_data_def int_range_def)
  obtain b1 where b1: "unpackInts b 1 = Ok ([1100], b1)" "okbuf b1"
    "content b1 = enc_imap (rec_btags d) @ enc_imap (rec_tags d) @ enc_rmap (rec_fields d) @ enc_int (rmode d) @ enc_int (interface_id d) @ rest"
    using unpackInt_law[OF assms(1) v(6)] assms(3) by (auto simp: enc_data_def)
  obtain b2 where b2: "MapDeserialise unpackInts unpackInts unpackInts b1 = Ok (map_from (entries (rec_btags d)), b2)" "okbuf b2"
    "content b2 = enc_imap (rec_tags d) @ enc_rmap (rec_fields d) @ enc_int (rmode d) @ enc_int (interface_id d) @ rest"
    using imap_deserialise[OF b1(2) v(1) b1(3)] by blast
  obtain b3 where b3: "MapDeserialise unpackInts unpackInts unpackInts b2 = Ok (map_from (entries (rec_tags d)), b3)" "okbuf b3"
    "content b3 = enc_rmap (rec_fields d) @ enc_int (rmode d) @ enc_int (interface_id d) @ rest"
    using imap_deserialise[OF b2(2) v(2) b2(3)] by blast
  obtain b4 where b4: "MapDeserialise unpackInts unpackInts unpackRefs b3 = Ok (map_from (entries (rec_fields d)), b4)" "okbuf b4"
    "content b4 = enc_int (rmode d) @ enc_int (interface_id d) @ rest"
    using rmap_deserialise[OF b3(2) v(3) b3(3)] by blast
  obtain b5 where b5: "unpackInts b4 1 = Ok ([rmode d], b5)" "okbuf b5" "content b5 = enc_int (interface_id d) @ rest"
    using unpackInt_law[OF b4(2) v(4) b4(3)] by blast
  obtain b6 where b6: "unpackInts b5 1 = Ok ([interface_id d], b6)" "okbuf b6" "content b6 = rest"
    using unpackInt_law[OF b5(2) v(5) b5(3)] by blast
  from b1(1) b2(1) b3(1) b4(1) b5(1) b6 show ?thesis
    by (simp add: SNetRecDeserialise_def MapCreate_Ok GenerateRecId_def Let_def)
qed

text \<open>The control records that may be sent arrive as they were.\<close>

lemma sort_end_roundtrip:
  assumes "okbuf b" and "content b = []" and "int_range level" and "int_range num"
    and "SNetRecSerialise packInts packRefs (REC_sort_end level num) b = Ok (b', freed, destroyed)"
  shows "\<exists>b''. SNetRecDeserialise unpackInts unpackRefs node seq b' = Ok (REC_sort_end level num, seq, b'') \<and> content b'' = []"
proof -
  have v: "int_range 1103" by (simp add: int_range_def)
  from assms(5) obtain b1 b2 where p: "packInts b [1103] = Ok b1" "packInts b1 [level] = Ok b2" "packInts b2 [num] = Ok b'"
    by auto
  note l1 = packInt_law[OF assms(1) v p(1)]
  note l2 = packInt_law[OF conjunct1[OF l1] assms(3) p(2)]
  from packInt_law[OF conjunct1[OF l2] assms(4) p(3)] l1 l2 assms(2)
  have ok: "okbuf b'" "content b' = enc_int 1103 @ enc_int level @ enc_int num" by auto
  obtain c1 where c1: "unpackInts b' 1 = Ok ([1103], c1)" "okbuf c1" "content c1 = enc_int level @ enc_int num"
    using unpackInt_law[OF ok(1) v ok(2)] by blast
  obtain c2 where c2: "unpackInts c1 1 = Ok ([level], c2)" "okbuf c2" "content c2 = enc_int num @ []"
    using unpackInt_law[OF c1(2) assms(3) c1(3)] by auto
  obtain c3 where c3: "unpackInts c2 1 = Ok ([num], c3)" "content c3 = []"
    using unpackInt_law[OF c2(2) assms(4) c2(3)] by blast
  from c1(1) c2(1) c3 show ?thesis by (simp add: SNetRecDeserialise_def)
qed

lemma terminate_roundtrip:
  assumes "okbuf b" and "content b = []"
    and "SNetRecSerialise packInts packRefs (REC_terminate l) b = Ok (b', freed, destroyed)"
  shows "\<exists>b''. SNetRecDeserialise unpackInts unpackRefs node seq b' = Ok (REC_terminate l, seq, b'') \<and> content b'' = []"
proof -
  have v: "int_range 1104" "int_range (of_bool l)" by (auto simp: int_range_def)
  from assms(3) obtain b1 where p: "packInts b [1104] = Ok b1" "packInts b1 [of_bool l] = Ok b'" by auto
  note l1 = packInt_law[OF assms(1) v(1) p(1)]
  from packInt_law[OF conjunct1[OF l1] v(2) p(2)] l1 assms(2)
  have ok: "okbuf b'" "content b' = enc_int 1104 @ enc_int (of_bool l)" by auto
  obtain c1 where c1: "unpackInts b' 1 = Ok ([1104], c1)" "okbuf c1" "content c1 = enc_int (of_bool l) @ []"
    using unpackInt_law[OF ok(1) v(1) ok(2)] by auto
  obtain c2 where c2: "unpackInts c1 1 = Ok ([of_bool l], c2)" "content c2 = []"
    using unpackInt_law[OF c1(2) v(2) c1(3)] by blast
  from c1(1) c2 show ?thesis by (simp add: SNetRecDeserialise_def)
qed

end

text \<open>A channel of bounded size: a pack succeeds when the units fit into the room that is left.\<close>

locale bounded_channel = pack_channel okbuf content enc_int enc_ref valid_ref packInts packRefs unpackInts unpackRefs
  for okbuf :: "'b \<Rightarrow> bool" and content :: "'b \<Rightarrow> 'c list" and enc_int enc_ref and valid_ref :: "'r \<Rightarrow> bool"
    and packInts packRefs unpackInts unpackRefs +
  fixes room :: "'b \<Rightarrow> nat"
  assumes packInts_room: "okbuf b \<Longrightarrow> list_all int_range xs \<Longrightarrow> length (concat (map enc_int xs)) \<le> room b \<Longrightarrow>
       \<exists>b'. packInts b xs = Ok b' \<and> room b' + length (concat (map enc_int xs)) = room b"
    and packRefs_room: "okbuf b \<Longrightarrow> list_all valid_ref rs \<Longrightarrow> length (concat (map enc_ref rs)) \<le> room b \<Longrightarrow>
       \<exists>b'. packRefs b rs = Ok b' \<and> room b' + length (concat (map enc_ref rs)) = room b"
begin

lemma packInts_fits:
  assumes "okbuf b" and "list_all int_range xs" and "length (concat (map enc_int xs)) \<le> room b"
  shows "\<exists>b'. packInts b xs = Ok b' \<and> okbuf b' \<and> room b' + length (concat (map enc_int xs)) = room b"
  using packInts_room[OF assms] packInts_law[OF assms(1,2)] by blast

lemma packInt_fits:
  "okbuf b \<Longrightarrow> int_range x \<Longrightarrow> length (enc_int x) \<le> room b \<Longrightarrow> \<exists>b'. packInts b [x] = Ok b' \<and> okbuf b' \<and> room b' + length (enc_int x) = room b"
  using packInts_fits[of b "[x]"] by simp

lemma packRefs_fits:
  assumes "okbuf b" and "list_all valid_ref rs" and "length (concat (map enc_ref rs)) \<le> room b"
  shows "\<exists>b'. packRefs b rs = Ok b' \<and> okbuf b' \<and> room b' + length (concat (map enc_ref rs)) = room b"
  using packRefs_room[OF assms] packRefs_law[OF assms(1,2)] by blast

lemma imap_fits:
  assumes "okbuf b" and "valid_imap m" and "length (enc_imap m) \<le> room b"
  shows "\<exists>b'. MapSerialise packInts packInts packInts m b = Ok b' \<and> okbuf b' \<and> room b' + length (enc_imap m) = room b"
proof -
  have v: "map_inv m" "int_range (int (mused m))" "list_all int_range (map fst (entries m))" "list_all int_range (map snd (entries m))"
    using assms(2) by (auto simp: valid_imap_def)
  note len = assms(3)[unfolded enc_imap_def length_append]
  obtain b1 where b1: "packInts b [int (mused m)] = Ok b1" "okbuf b1" "room b1 + length (enc_int (int (mused m))) = room b"
    using packInt_fits[OF assms(1) v(2)] len by auto
  obtain b2 where b2: "packInts b1 (map fst (entries m)) = Ok b2" "okbuf b2" "room b2 + length (concat (map enc_int (map fst (entries m)))) = room b1"
    using packInts_fits[OF b1(2) v(3)] len b1(3) by auto
  obtain b3 where b3: "packInts b2 (map snd (entries m)) = Ok b3" "okbuf b3" "room b3 + length (concat (map enc_int (map snd (entries m)))) = room b2"
    using packInts_fits[OF b2(2) v(4)] len b1(3) b2(3) by auto
  have "MapSerialise packInts packInts packInts m b = Ok b3" using map_arrays_read[OF v(1)] b1(1) b2(1) b3(1) by (auto simp: MapSerialise_def)
  then show ?thesis using b1(3) b2(3) b3 by (auto simp: enc_imap_def)
qed

lemma rmap_fits:
  assumes "okbuf b" and "valid_rmap m" and "length (enc_rmap m) \<le> room b"
  shows "\<exists>b'. MapSerialise packInts packInts packRefs m b = Ok b' \<and> okbuf b' \<and> room b' + length (enc_rmap m) = room b"
proof -
  have v: "map_inv m" "int_range (int (mused m))" "list_all int_range (map fst (entries m))" "list_all valid_ref (map snd (entries m))"
    using assms(2) by (auto simp: valid_rmap_def)
  note len = assms(3)[unfolded enc_rmap_def length_append]
  obtain b1 where b1: "packInts b [int (mused m)] = Ok b1" "okbuf b1" "room b1 + length (enc_int (int (mused m))) = room b"
    using packInt_fits[OF assms(1) v(2)] len by auto
  obtain b2 where b2: "packInts b1 (map fst (entries m)) = Ok b2" "okbuf b2" "room b2 + length (concat (map enc_int (map fst (entries m)))) = room b1"
    using packInts_fits[OF b1(2) v(3)] len b1(3) by auto
  obtain b3 where b3: "packRefs b2 (map snd (entries m)) = Ok b3" "okbuf b3" "room b3 + length (concat (map enc_ref (map snd (entries m)))) = room b2"
    using packRefs_fits[OF b2(2) v(4)] len b1(3) b2(3) by auto
  have "MapSerialise packInts packInts packRefs m b = Ok b3" using map_arrays_read[OF v(1)] b1(1) b2(1) b3(1) by (auto simp: MapSerialise_def)
  then show ?thesis using b1(3) b2(3) b3 by (auto simp: enc_rmap_def)
qed

lemma serialise_fits:
  assumes "okbuf b" and "valid_data d" and "length (enc_data d) \<le> room b"
  shows "\<exists>b' freed destroyed. SNetRecSerialise packInts packRefs (REC_data d) b = Ok (b', freed, destroyed)"
proof -
  have v: "valid_imap (rec_btags d)" "valid_imap (rec_tags d)" "valid_rmap (rec_fields d)" "int_range (rmode d)" "int_range (interface_id d)" "int_range 1100"
    using assms(2) by (auto simp: valid_data_def int_range_def)
  have inv: "map_inv (rec_fields d)" using v(3) by (simp add: valid_rmap_def)
  have "map_inv ((rec_fields d)\<lparr>mused := 0\<rparr>)" "entries ((rec_fields d)\<lparr>mused := 0\<rparr>) = []" using inv by (auto simp: map_inv_def entries_def)
  note dq = map_cells(2)[OF inv] map_cells(1)[OF this(1)] this(2)
  note len = assms(3)[unfolded enc_data_def length_append]
  obtain b1 where b1: "packInts b [1100] = Ok b1" "okbuf b1" "room b1 + length (enc_int 1100) = room b" using packInt_fits[OF assms(1) v(6)] len by auto
  obtain b2 where b2: "MapSerialise packInts packInts packInts (rec_btags d) b1 = Ok b2" "okbuf b2" "room b2 + length (enc_imap (rec_btags d)) = room b1"
    using imap_fits[OF b1(2) v(1)] len b1(3) by auto
  obtain b3 where b3: "MapSerialise packInts packInts packInts (rec_tags d) b2 = Ok b3" "okbuf b3" "room b3 + length (enc_imap (rec_tags d)) = room b2"
    using imap_fits[OF b2(2) v(2)] len b1(3) b2(3) by auto
  obtain b4 where b4: "MapSerialise packInts packInts packRefs (rec_fields d) b3 = Ok b4" "okbuf b4" "room b4 + length (enc_rmap (rec_fields d)) = room b3"
    using rmap_fits[OF b3(2) v(3)] len b1(3) b2(3) b3(3) by auto
  obtain b5 where b5: "packInts b4 [rmode d] = Ok b5" "okbuf b5" "room b5 + length (enc_int (rmode d)) = room b4"
    using packInt_fits[OF b4(2) v(4)] len b1(3) b2(3) b3(3) b4(3) by auto
  obtain b6 where b6: "packInts b5 [interface_id d] = Ok b6"
    using packInt_fits[OF b5(2) v(5)] len b1(3) b2(3) b3(3) b4(3) b5(3) by auto
  show ?thesis using b1(1) b2(1) b3(1) b4(1) b5(1) b6 dq by (simp del: bindR_eq_Ok)
qed

end

end
