(* ===== verification/SCC_Ring.thy ===== *)
theory SCC_Ring
  imports Record_Transport
begin

text \<open>
  The message passing buffer of the SCC transport (\<open>distrib/scc/scc.h\<close>) and the pack functions
  on top of it (\<open>distrib/scc/transmit.c\<close>, \<open>SNetRefSerialise\<close> of \<open>distrib/scc/sccref.c\<close>): a ring of
  \<open>B_SIZE\<close> bytes with one byte kept free. \<open>ring_bytes\<close> is the sequence of bytes written and not
  yet read. The write appends to it and never overwrites an unread byte; the read takes from its
  front. Together with the fixed-width encoding of integers and references this makes the ring
  an instance of the contract of \<open>Record_Transport\<close>. The size of the buffer is a parameter: it
  is a constant of the platform's header.
\<close>

section \<open>The ring\<close>

type_synonym byte = "8 word"

record mpb =
  START :: nat
  END :: nat
  HANDLING :: bool
  WRITING :: bool
  mpb_data :: "byte list"

definition B_SIZE :: "mpb \<Rightarrow> nat" where
  "B_SIZE m = length (mpb_data m)"

text \<open>
  \<open>cpy_mpb_to_mem\<close>: the loop with the local \<open>start\<close>; \<open>endp\<close> is read once before it. A round
  that copies nothing would repeat for ever.
\<close>

function read_loop :: "byte list \<Rightarrow> nat \<Rightarrow> nat \<Rightarrow> nat \<Rightarrow> (byte list \<times> nat) res" where
  "read_loop data endp start sz =
     (if sz = 0 then Ok ([], start)
      else
        let cpy = (if endp < start then min sz (length data - start) else sz) in
        if start + cpy > length data then Err OutOfBounds
        else if cpy = 0 then Err NoProgress
        else bindR (read_loop data endp ((start + cpy) mod length data) (sz - cpy)) (\<lambda>(bs, start').
          Ok (take cpy (drop start data) @ bs, start')))"
  by pat_completeness auto
termination by (relation "measure (\<lambda>(data, endp, start, sz). sz)") auto

declare read_loop.simps [simp del]

definition cpy_mpb_to_mem :: "mpb \<Rightarrow> nat \<Rightarrow> (byte list \<times> mpb) res" where
  "cpy_mpb_to_mem m sz =
     bindR (read_loop (mpb_data m) (END m) (START m) sz) (\<lambda>(bs, start). Ok (bs, m\<lparr>START := start\<rparr>))"

text \<open>
  \<open>cpy_mem_to_mpb\<close>: one round copies what fits. Where nothing fits the code releases the lock
  and waits; the bytes still to be written are returned.
\<close>

definition mpb_free :: "mpb \<Rightarrow> nat" where
  "mpb_free m =
     (if END m < START m then START m - END m - 1
      else B_SIZE m - END m - (if START m = 0 then 1 else 0))"

definition write_chunk :: "mpb \<Rightarrow> byte list \<Rightarrow> nat \<Rightarrow> mpb res" where
  "write_chunk m src free =
     (if END m + free > B_SIZE m then Err OutOfBounds
      else Ok (m\<lparr>mpb_data := take (END m) (mpb_data m) @ take free src @ drop (END m + free) (mpb_data m),
                 END := (END m + free) mod B_SIZE m, WRITING := False\<rparr>))"

function write_loop :: "mpb \<Rightarrow> byte list \<Rightarrow> (mpb \<times> byte list) res" where
  "write_loop m src =
     (if src = [] then Ok (m, [])
      else
        let free = min (mpb_free m) (length src) in
        if free = 0 then Ok (m, src)
        else (case write_chunk m src free of
            Err e \<Rightarrow> Err e
          | Ok m' \<Rightarrow> write_loop m' (drop free src)))"
  by pat_completeness auto
termination by (relation "measure (\<lambda>(m, src). length src)") auto

declare write_loop.simps [simp del]

definition cpy_mem_to_mpb :: "mpb \<Rightarrow> byte list \<Rightarrow> (mpb \<times> byte list) res" where
  "cpy_mem_to_mpb m src =
     (if length src \<ge> B_SIZE m then Err FatalError else write_loop (m\<lparr>WRITING := True\<rparr>) src)"

text \<open>
  \<open>start_write_node\<close> succeeds once it holds the lock and no other writer is marked;
  \<open>stop_write_node\<close> raises an interrupt at a node that is not handling messages.
\<close>

definition start_write_node :: "mpb \<Rightarrow> bool" where
  "start_write_node m \<longleftrightarrow> \<not> WRITING m"

definition stop_write_node :: "mpb \<Rightarrow> bool" where
  "stop_write_node m \<longleftrightarrow> \<not> HANDLING m"

section \<open>Integers and references as bytes\<close>

text \<open>The four bytes of an \<open>int\<close> in memory, least significant first.\<close>

definition int_bytes :: "int \<Rightarrow> byte list" where
  "int_bytes x = map (\<lambda>i. word_of_int (x div 256 ^ i)) [0..<4]"

definition bytes_int :: "byte list \<Rightarrow> int" where
  "bytes_int bs = sint (word_of_int (\<Sum>i<4. uint (bs ! i) * 256 ^ i) :: 32 word)"

record scc_ref =
  ref_node :: int
  ref_interface :: int
  ref_size :: int
  ref_data :: "32 word"

text \<open>
  The buffer argument of the pack functions: the node's ring, with the references passed to
  \<open>SNetRefOutgoing\<close> and \<open>SNetRefIncoming\<close> so far.
\<close>

record scc_buf =
  ring :: mpb
  outgoing :: "scc_ref list"
  incoming :: "scc_ref list"

definition put_bytes :: "scc_buf \<Rightarrow> byte list \<Rightarrow> scc_buf res" where
  "put_bytes b bs =
     bindR (cpy_mem_to_mpb (ring b) bs) (\<lambda>(m, rest). if rest = [] then Ok (b\<lparr>ring := m\<rparr>) else Err NoProgress)"

definition get_bytes :: "scc_buf \<Rightarrow> nat \<Rightarrow> (byte list \<times> scc_buf) res" where
  "get_bytes b n = bindR (cpy_mpb_to_mem (ring b) n) (\<lambda>(bs, m). Ok (bs, b\<lparr>ring := m\<rparr>))"

definition PackInt :: "scc_buf \<Rightarrow> int list \<Rightarrow> scc_buf res" where
  "PackInt buf src = put_bytes buf (concat (map int_bytes src))"

fun chunks4 :: "nat \<Rightarrow> byte list \<Rightarrow> int list" where
  "chunks4 0 bs = []"
| "chunks4 (Suc n) bs = bytes_int (take 4 bs) # chunks4 n (drop 4 bs)"

definition UnpackInt :: "scc_buf \<Rightarrow> nat \<Rightarrow> (int list \<times> scc_buf) res" where
  "UnpackInt buf n = bindR (get_bytes buf (n * 4)) (\<lambda>(bs, buf). Ok (chunks4 n bs, buf))"

text \<open>\<open>SNetRefSerialise\<close> and \<open>SNetRefDeserialise\<close>; a pointer has four bytes on the SCC.\<close>

definition SNetRefSerialise_scc :: "scc_ref \<Rightarrow> scc_buf \<Rightarrow> scc_buf res" where
  "SNetRefSerialise_scc ref buf =
     bindR (PackInt buf [ref_node ref]) (\<lambda>buf.
     bindR (PackInt buf [ref_interface ref]) (\<lambda>buf.
     bindR (PackInt buf [ref_size ref]) (\<lambda>buf.
     put_bytes buf (int_bytes (sint (ref_data ref))))))"

definition SNetRefDeserialise_scc :: "scc_buf \<Rightarrow> (scc_ref \<times> scc_buf) res" where
  "SNetRefDeserialise_scc buf =
     bindR (UnpackInt buf 1) (\<lambda>(n, buf).
     bindR (UnpackInt buf 1) (\<lambda>(i, buf).
     bindR (UnpackInt buf 1) (\<lambda>(s, buf).
     bindR (get_bytes buf 4) (\<lambda>(bs, buf).
     Ok (\<lparr>ref_node = hd n, ref_interface = hd i, ref_size = hd s, ref_data = word_of_int (bytes_int bs)\<rparr>, buf)))))"

definition PackRef :: "scc_buf \<Rightarrow> scc_ref list \<Rightarrow> scc_buf res" where
  "PackRef buf src =
     foldR (\<lambda>buf ref. bindR (SNetRefSerialise_scc ref buf) (\<lambda>buf. Ok (buf\<lparr>outgoing := outgoing buf @ [ref]\<rparr>))) buf src"

fun UnpackRef :: "scc_buf \<Rightarrow> nat \<Rightarrow> (scc_ref list \<times> scc_buf) res" where
  "UnpackRef buf 0 = Ok ([], buf)"
| "UnpackRef buf (Suc n) =
     bindR (SNetRefDeserialise_scc buf) (\<lambda>(ref, buf).
     bindR (UnpackRef (buf\<lparr>incoming := incoming buf @ [ref]\<rparr>) n) (\<lambda>(refs, buf). Ok (ref # refs, buf)))"

section \<open>The ring as a queue of bytes\<close>

definition mpb_inv :: "mpb \<Rightarrow> bool" where
  "mpb_inv m \<longleftrightarrow> START m < B_SIZE m \<and> END m < B_SIZE m"

definition mpb_used :: "mpb \<Rightarrow> nat" where
  "mpb_used m = ring_used (B_SIZE m) (START m) (END m)"

definition ring_bytes :: "mpb \<Rightarrow> byte list" where
  "ring_bytes m = map (\<lambda>i. mpb_data m ! ((START m + i) mod B_SIZE m)) [0..<mpb_used m]"

lemma length_ring_bytes [simp]: "length (ring_bytes m) = mpb_used m"
  by (simp add: ring_bytes_def)

lemmas mpb_used_cases = mpb_used_def ring_used_def

lemma mpb_used_END:
  assumes "mpb_inv m"
  shows "(START m + mpb_used m) mod B_SIZE m = END m" and "mpb_used m < B_SIZE m"
  using assms by (auto simp: mpb_used_cases mpb_inv_def)

text \<open>The space a round may fill: never more than the free cells less one, and no wrap inside.\<close>

lemma mpb_free_bounds:
  assumes "mpb_inv m"
  shows "END m + mpb_free m \<le> B_SIZE m" and "mpb_used m + mpb_free m < B_SIZE m"
  using assms by (auto simp: mpb_free_def mpb_used_cases mpb_inv_def)

lemma mpb_free_0_iff: "mpb_inv m \<Longrightarrow> mpb_free m = 0 \<longleftrightarrow> mpb_used m = B_SIZE m - 1"
  by (auto simp: mpb_free_def mpb_used_cases mpb_inv_def split: if_splits)

lemma write_chunk_spec:
  assumes "mpb_inv m" and "free \<le> mpb_free m" and "free \<le> length src"
  shows "\<exists>m'. write_chunk m src free = Ok m' \<and> mpb_inv m' \<and> B_SIZE m' = B_SIZE m \<and> START m' = START m \<and>
     ring_bytes m' = ring_bytes m @ take free src \<and> \<not> WRITING m' \<and> mpb_used m' = mpb_used m + free"
proof -
  let ?B = "B_SIZE m" and ?d = "take (END m) (mpb_data m) @ take free src @ drop (END m + free) (mpb_data m)"
  let ?m' = "m\<lparr>mpb_data := ?d, END := (END m + free) mod ?B, WRITING := False\<rparr>"
  have fit: "END m + free \<le> ?B" "mpb_used m + free < ?B" using mpb_free_bounds[OF assms(1)] assms(2) by auto
  have pos: "START m < ?B" "END m < ?B" "length (mpb_data m) = ?B" using assms(1) by (auto simp: mpb_inv_def B_SIZE_def)
  have len: "length ?d = ?B" using fit pos assms(3) by simp
  then have B: "B_SIZE ?m' = ?B" by (simp add: B_SIZE_def)
  have inv: "mpb_inv ?m'" using pos B by (simp add: mpb_inv_def)
  have emod: "(END m + free) mod ?B = (if END m + free = ?B then 0 else END m + free)" using fit by auto
  have used: "mpb_used ?m' = mpb_used m + free"
    unfolding mpb_used_def B using fit pos by (auto simp: mpb_used_cases emod)
  have cell: "?d ! ((START m + i) mod ?B) = (ring_bytes m @ take free src) ! i" if i: "i < mpb_used m + free" for i
  proof (cases "i < mpb_used m")
    case True
    have "(START m + i) mod ?B < END m \<or> END m + free \<le> (START m + i) mod ?B"
    proof (rule ccontr)
      assume "\<not> ?thesis"
      then obtain k where k: "(START m + i) mod ?B = END m + k" "k < free" by (metis add_diff_inverse_nat less_diff_conv2 not_le add.commute nat_add_left_cancel_less)
      have "END m + k = (START m + (mpb_used m + k)) mod ?B"
        using k fit mpb_used_END(1)[OF assms(1)] by (metis add.assoc less_le_trans mod_add_left_eq mod_less nat_add_left_cancel_less)
      with k(1) have "(START m + i) mod ?B = (START m + (mpb_used m + k)) mod ?B" by simp
      from ring_index_inj[OF _ _ this] True k(2) fit show False by simp
    qed
    then show ?thesis using True pos len fit assms(3)
      by (auto simp: nth_append ring_bytes_def min_def)
  next
    case False
    then obtain k where k: "i = mpb_used m + k" "k < free" using i by (metis add_less_cancel_left le_Suc_ex not_less)
    have "(START m + i) mod ?B = END m + k"
      using k fit mpb_used_END(1)[OF assms(1)] by (metis add.assoc less_le_trans mod_add_left_eq mod_less nat_add_left_cancel_less)
    with k pos assms(3) show ?thesis by (simp add: nth_append)
  qed
  have "ring_bytes ?m' = ring_bytes m @ take free src"
    using cell assms(3) used by (intro nth_equalityI) (auto simp: ring_bytes_def[of ?m'] B)
  with inv B used fit show ?thesis by (simp add: write_chunk_def)
qed

text \<open>
  The whole write: what is reported as written is appended, in order, and the rest is what does
  not fit. It stops short of the end only with the ring full.
\<close>

lemma write_loop_spec:
  "mpb_inv m \<Longrightarrow> \<exists>m' rest. write_loop m src = Ok (m', rest) \<and> mpb_inv m' \<and> B_SIZE m' = B_SIZE m \<and> START m' = START m \<and>
     ring_bytes m' @ rest = ring_bytes m @ src \<and> (rest = [] \<or> mpb_used m' = B_SIZE m' - 1) \<and>
     (WRITING m' \<longrightarrow> WRITING m \<and> m' = m)"
proof (induction m src rule: write_loop.induct)
  case (1 m src)
  let ?free = "min (mpb_free m) (length src)"
  show ?case
  proof (cases "src = [] \<or> ?free = 0")
    case True
    with 1 show ?thesis by (subst write_loop.simps) (auto simp: mpb_free_0_iff min_def split: if_splits)
  next
    case False
    obtain m1 where m1: "write_chunk m src ?free = Ok m1" "mpb_inv m1" "B_SIZE m1 = B_SIZE m" "START m1 = START m"
      "ring_bytes m1 = ring_bytes m @ take ?free src" "\<not> WRITING m1"
      using write_chunk_spec[OF "1.prems", of ?free src] by auto
    from False have ne: "src \<noteq> []" "?free \<noteq> 0" by auto
    from "1.IH"[OF ne(1) refl ne(2) m1(1) m1(2)] obtain m2 rest where
      m2: "write_loop m1 (drop ?free src) = Ok (m2, rest)" "mpb_inv m2" "B_SIZE m2 = B_SIZE m1" "START m2 = START m1"
        "ring_bytes m2 @ rest = ring_bytes m1 @ drop ?free src" "rest = [] \<or> mpb_used m2 = B_SIZE m2 - 1"
        "WRITING m2 \<longrightarrow> WRITING m1 \<and> m2 = m1" by blast
    have "write_loop m src = Ok (m2, rest)"
      by (subst write_loop.simps) (simp only: Let_def if_False res.case ne m1(1) m2(1))
    moreover have "ring_bytes m2 @ rest = ring_bytes m @ src"
      unfolding m2(5) m1(5) by (metis append.assoc append_take_drop_id)
    ultimately show ?thesis using m1 m2 by auto
  qed
qed

text \<open>Reading takes from the front.\<close>

lemma read_round:
  assumes "mpb_inv m" and "n \<le> mpb_used m" and "START m + n \<le> B_SIZE m"
  shows "take n (drop (START m) (mpb_data m)) = take n (ring_bytes m)"
    and "mpb_inv (m\<lparr>START := (START m + n) mod B_SIZE m\<rparr>)"
    and "ring_bytes (m\<lparr>START := (START m + n) mod B_SIZE m\<rparr>) = drop n (ring_bytes m)"
proof -
  let ?B = "B_SIZE m" and ?m' = "m\<lparr>START := (START m + n) mod B_SIZE m\<rparr>"
  have pos: "START m < ?B" "END m < ?B" "length (mpb_data m) = ?B" using assms(1) by (auto simp: mpb_inv_def B_SIZE_def)
  show "take n (drop (START m) (mpb_data m)) = take n (ring_bytes m)"
    using assms(2,3) pos by (intro nth_equalityI) (auto simp: ring_bytes_def)
  have B: "B_SIZE ?m' = ?B" by (simp add: B_SIZE_def)
  show "mpb_inv ?m'" using pos B by (simp add: mpb_inv_def)
  have smod: "(START m + n) mod ?B = (if START m + n = ?B then 0 else START m + n)" using assms(3) by auto
  have used: "mpb_used ?m' = mpb_used m - n"
    unfolding mpb_used_def B using assms(2,3) pos by (auto simp: mpb_used_cases smod split: if_splits)
  have "((START m + n) mod ?B + i) mod ?B = (START m + (n + i)) mod ?B" for i
    by (simp add: mod_add_left_eq add.assoc)
  then show "ring_bytes ?m' = drop n (ring_bytes m)"
    using assms(2) by (intro nth_equalityI) (auto simp: ring_bytes_def used B)
qed

lemma read_loop_step:
  assumes "n \<noteq> 0" and "cpy = (if endp < st then min n (length data - st) else n)" and "cpy \<noteq> 0" and "st + cpy \<le> length data"
  shows "read_loop data endp st n =
     bindR (read_loop data endp ((st + cpy) mod length data) (n - cpy)) (\<lambda>(bs, st'). Ok (take cpy (drop st data) @ bs, st'))"
  using assms by (subst read_loop.simps) (simp add: Let_def)

lemma read_loop_spec:
  "mpb_inv m \<Longrightarrow> n \<le> mpb_used m \<Longrightarrow>
     \<exists>st. read_loop (mpb_data m) (END m) (START m) n = Ok (take n (ring_bytes m), st) \<and> mpb_inv (m\<lparr>START := st\<rparr>) \<and>
       ring_bytes (m\<lparr>START := st\<rparr>) = drop n (ring_bytes m)"
proof (induction n arbitrary: m rule: less_induct)
  case (less n)
  define cpy where "cpy = (if END m < START m then min n (length (mpb_data m) - START m) else n)"
  have pos: "START m < B_SIZE m" "END m < B_SIZE m" "length (mpb_data m) = B_SIZE m"
    using less.prems(1) by (auto simp: mpb_inv_def B_SIZE_def)
  show ?case
  proof (cases "n = 0")
    case True
    with less.prems show ?thesis by (subst read_loop.simps) simp
  next
    case False
    have c: "cpy \<noteq> 0" "cpy \<le> n" "START m + cpy \<le> B_SIZE m"
      using False pos less.prems(2) by (auto simp: cpy_def mpb_used_cases split: if_splits)
    define m1 where "m1 = m\<lparr>START := (START m + cpy) mod B_SIZE m\<rparr>"
    note r = read_round[OF less.prems(1) le_trans[OF c(2) less.prems(2)] c(3), folded m1_def]
    have "length (ring_bytes m1) = mpb_used m - cpy" unfolding r(3) by simp
    then have "n - cpy \<le> mpb_used m1" using less.prems(2) by simp
    moreover have "n - cpy < n" using c False by simp
    ultimately obtain st where
      st: "read_loop (mpb_data m1) (END m1) (START m1) (n - cpy) = Ok (take (n - cpy) (ring_bytes m1), st)"
        "mpb_inv (m1\<lparr>START := st\<rparr>)" "ring_bytes (m1\<lparr>START := st\<rparr>) = drop (n - cpy) (ring_bytes m1)"
      using less.IH[OF _ r(2)] by blast
    have m1: "mpb_data m1 = mpb_data m" "END m1 = END m" "START m1 = (START m + cpy) mod B_SIZE m" "m1\<lparr>START := st\<rparr> = m\<lparr>START := st\<rparr>"
      by (simp_all add: m1_def)
    have "read_loop (mpb_data m) (END m) (START m) n = Ok (take cpy (ring_bytes m) @ take (n - cpy) (drop cpy (ring_bytes m)), st)"
      using read_loop_step[OF False cpy_def c(1)] c(3) st(1) r(1,3) pos(3) m1 by simp
    moreover have "take cpy (ring_bytes m) @ take (n - cpy) (drop cpy (ring_bytes m)) = take n (ring_bytes m)"
      using take_add[of cpy "n - cpy" "ring_bytes m"] c(2) by simp
    moreover have "ring_bytes (m\<lparr>START := st\<rparr>) = drop n (ring_bytes m)"
      using st(3) r(3) m1(4) c(2) by simp
    ultimately show ?thesis using st(2) m1(4) by auto
  qed
qed

section \<open>The pack functions satisfy the contract\<close>

lemma length_int_bytes [simp]: "length (int_bytes x) = 4"
  by (simp add: int_bytes_def)

lemma bytes_int_bytes:
  assumes "int_range x"
  shows "bytes_int (int_bytes x) = x"
proof -
  have four: "{..<4::nat} = {0, 1, 2, 3}" by auto
  have "(\<Sum>i<4. uint (int_bytes x ! i) * 256 ^ i) = x mod 256 + (x div 256 mod 256) * 256 + (x div 65536 mod 256) * 65536 + (x div 16777216 mod 256) * 16777216"
    by (simp add: int_bytes_def four uint_word_of_int)
  also have "\<dots> = x mod 4294967296"
  proof -
    have digits: "a + b * 256 + c * 65536 + d * 16777216 = A" if "A = 256 * B + a" "B = 256 * C + b" "C = 256 * d + c"
      for A B C a b c d :: int using that by linarith
    have div2: "x div 65536 = x div 256 div 256" using zdiv_zmult2_eq[of 256 x 256] by simp
    have div3: "x div 16777216 = x div 65536 div 256" using zdiv_zmult2_eq[of 256 x 65536] by simp
    have m1: "x mod 4294967296 = 256 * (x div 256 mod 16777216) + x mod 256"
      using zmod_zmult2_eq[of 16777216 x 256] by simp
    have m2: "x div 256 mod 16777216 = 256 * (x div 65536 mod 65536) + x div 256 mod 256"
      unfolding div2 using zmod_zmult2_eq[of 65536 "x div 256" 256] by simp
    have m3: "x div 65536 mod 65536 = 256 * (x div 16777216 mod 256) + x div 65536 mod 256"
      unfolding div3 using zmod_zmult2_eq[of 256 "x div 65536" 256] by simp
    show ?thesis by (rule digits[OF m1 m2 m3])
  qed
  finally have "bytes_int (int_bytes x) = sint (word_of_int (x mod 4294967296) :: 32 word)" by (simp add: bytes_int_def)
  also have "(word_of_int (x mod 4294967296) :: 32 word) = word_of_int x"
    by (simp add: word_of_int_eq_iff take_bit_eq_mod)
  also have "sint (word_of_int x :: 32 word) = x"
    by (rule sint_word_of_int_range[OF assms])
  finally show ?thesis .
qed

lemma mpb_writing_irrelevant [simp]:
  "mpb_inv (m\<lparr>WRITING := w\<rparr>) = mpb_inv m" "ring_bytes (m\<lparr>WRITING := w\<rparr>) = ring_bytes m"
  "B_SIZE (m\<lparr>WRITING := w\<rparr>) = B_SIZE m" "mpb_used (m\<lparr>WRITING := w\<rparr>) = mpb_used m"
  by (simp_all add: mpb_inv_def B_SIZE_def ring_bytes_def mpb_used_def)

lemma cpy_mem_to_mpb_spec:
  assumes "mpb_inv m" and "length src < B_SIZE m"
  shows "\<exists>m' rest. cpy_mem_to_mpb m src = Ok (m', rest) \<and> mpb_inv m' \<and> B_SIZE m' = B_SIZE m \<and> ring_bytes m' @ rest = ring_bytes m @ src \<and>
     (rest = [] \<or> mpb_used m' = B_SIZE m' - 1) \<and> (WRITING m' \<longrightarrow> m' = m\<lparr>WRITING := True\<rparr>)"
  using write_loop_spec[of "m\<lparr>WRITING := True\<rparr>" src] assms by (auto simp: cpy_mem_to_mpb_def)

lemma cpy_mpb_to_mem_spec:
  assumes "mpb_inv m" and "n \<le> mpb_used m"
  shows "\<exists>m'. cpy_mpb_to_mem m n = Ok (take n (ring_bytes m), m') \<and> mpb_inv m' \<and> ring_bytes m' = drop n (ring_bytes m)"
  using read_loop_spec[OF assms] by (auto simp: cpy_mpb_to_mem_def)

definition buf_ok :: "scc_buf \<Rightarrow> bool" where
  "buf_ok b = mpb_inv (ring b)"

definition buf_bytes :: "scc_buf \<Rightarrow> byte list" where
  "buf_bytes b = ring_bytes (ring b)"

lemma put_bytes_law:
  assumes "buf_ok b" and "put_bytes b bs = Ok b'"
  shows "buf_ok b' \<and> buf_bytes b' = buf_bytes b @ bs"
proof -
  from assms(2) have "length bs < B_SIZE (ring b)"
    by (auto simp: put_bytes_def cpy_mem_to_mpb_def not_le[symmetric] split: if_splits)
  with cpy_mem_to_mpb_spec[of "ring b" bs] assms show ?thesis
    by (auto simp: put_bytes_def buf_ok_def buf_bytes_def split: if_splits)
qed

lemma get_bytes_law:
  assumes "buf_ok b" and "buf_bytes b = bs @ rest"
  shows "\<exists>b'. get_bytes b (length bs) = Ok (bs, b') \<and> buf_ok b' \<and> buf_bytes b' = rest"
proof -
  have "length (ring_bytes (ring b)) = length bs + length rest" using assms(2) by (simp add: buf_bytes_def)
  then have "length bs \<le> mpb_used (ring b)" by simp
  with cpy_mpb_to_mem_spec[of "ring b" "length bs"] assms show ?thesis
    by (auto simp: get_bytes_def buf_ok_def buf_bytes_def)
qed

lemma chunks4_int_bytes: "list_all int_range xs \<Longrightarrow> chunks4 (length xs) (concat (map int_bytes xs) @ rest) = xs"
  by (induction xs) (simp_all add: bytes_int_bytes)

lemma length_concat_int_bytes: "length (concat (map int_bytes xs)) = length xs * 4"
  by (induction xs) simp_all

lemma PackInt_law:
  "buf_ok b \<Longrightarrow> PackInt b xs = Ok b' \<Longrightarrow> buf_ok b' \<and> buf_bytes b' = buf_bytes b @ concat (map int_bytes xs)"
  by (simp add: PackInt_def put_bytes_law)

lemma UnpackInt_law:
  assumes "buf_ok b" and "list_all int_range xs" and "buf_bytes b = concat (map int_bytes xs) @ rest"
  shows "\<exists>b'. UnpackInt b (length xs) = Ok (xs, b') \<and> buf_ok b' \<and> buf_bytes b' = rest"
  using get_bytes_law[OF assms(1,3)] chunks4_int_bytes[OF assms(2), of "[]"]
  by (auto simp: UnpackInt_def length_concat_int_bytes)

lemma UnpackInt1_law:
  "buf_ok b \<Longrightarrow> int_range x \<Longrightarrow> buf_bytes b = int_bytes x @ rest \<Longrightarrow>
     \<exists>b'. UnpackInt b 1 = Ok ([x], b') \<and> buf_ok b' \<and> buf_bytes b' = rest"
  using UnpackInt_law[of b "[x]" rest] by simp

definition ref_bytes :: "scc_ref \<Rightarrow> byte list" where
  "ref_bytes r = int_bytes (ref_node r) @ int_bytes (ref_interface r) @ int_bytes (ref_size r) @ int_bytes (sint (ref_data r))"

definition ref_ok :: "scc_ref \<Rightarrow> bool" where
  "ref_ok r \<longleftrightarrow> int_range (ref_node r) \<and> int_range (ref_interface r) \<and> int_range (ref_size r)"

lemma SNetRefSerialise_law:
  assumes "buf_ok b" and "SNetRefSerialise_scc r b = Ok b'"
  shows "buf_ok b' \<and> buf_bytes b' = buf_bytes b @ ref_bytes r"
proof -
  from assms(2) obtain b1 b2 b3 where p: "PackInt b [ref_node r] = Ok b1" "PackInt b1 [ref_interface r] = Ok b2"
    "PackInt b2 [ref_size r] = Ok b3" "put_bytes b3 (int_bytes (sint (ref_data r))) = Ok b'"
    by (auto simp: SNetRefSerialise_scc_def)
  note l1 = PackInt_law[OF assms(1) p(1)]
  note l2 = PackInt_law[OF conjunct1[OF l1] p(2)]
  note l3 = PackInt_law[OF conjunct1[OF l2] p(3)]
  from put_bytes_law[OF conjunct1[OF l3] p(4)] l1 l2 l3 show ?thesis by (simp add: ref_bytes_def)
qed

lemma SNetRefDeserialise_law:
  assumes "buf_ok b" and "ref_ok r" and "buf_bytes b = ref_bytes r @ rest"
  shows "\<exists>b'. SNetRefDeserialise_scc b = Ok (r, b') \<and> buf_ok b' \<and> buf_bytes b' = rest"
proof -
  have v: "int_range (ref_node r)" "int_range (ref_interface r)" "int_range (ref_size r)" using assms(2) by (auto simp: ref_ok_def)
  obtain b1 where b1: "UnpackInt b 1 = Ok ([ref_node r], b1)" "buf_ok b1"
    "buf_bytes b1 = int_bytes (ref_interface r) @ int_bytes (ref_size r) @ int_bytes (sint (ref_data r)) @ rest"
    using UnpackInt1_law[OF assms(1) v(1)] assms(3) by (auto simp: ref_bytes_def)
  obtain b2 where b2: "UnpackInt b1 1 = Ok ([ref_interface r], b2)" "buf_ok b2"
    "buf_bytes b2 = int_bytes (ref_size r) @ int_bytes (sint (ref_data r)) @ rest"
    using UnpackInt1_law[OF b1(2) v(2) b1(3)] by blast
  obtain b3 where b3: "UnpackInt b2 1 = Ok ([ref_size r], b3)" "buf_ok b3" "buf_bytes b3 = int_bytes (sint (ref_data r)) @ rest"
    using UnpackInt1_law[OF b2(2) v(3) b2(3)] by blast
  obtain b4 where b4: "get_bytes b3 4 = Ok (int_bytes (sint (ref_data r)), b4)" "buf_ok b4" "buf_bytes b4 = rest"
    using get_bytes_law[OF b3(2,3)] by auto
  have "word_of_int (bytes_int (int_bytes (sint (ref_data r)))) = ref_data r"
    by (simp add: bytes_int_bytes int_range_sint)
  with b1(1) b2(1) b3(1) b4 show ?thesis by (simp add: SNetRefDeserialise_scc_def)
qed

lemma PackRef_law:
  "buf_ok b \<Longrightarrow> PackRef b rs = Ok b' \<Longrightarrow> buf_ok b' \<and> buf_bytes b' = buf_bytes b @ concat (map ref_bytes rs)"
proof (induction rs arbitrary: b)
  case Nil
  then show ?case by (simp add: PackRef_def)
next
  case (Cons r rs)
  from Cons.prems(2) obtain b1 where b1: "SNetRefSerialise_scc r b = Ok b1"
    "PackRef (b1\<lparr>outgoing := outgoing b1 @ [r]\<rparr>) rs = Ok b'" by (auto simp: PackRef_def)
  from SNetRefSerialise_law[OF Cons.prems(1) b1(1)] have l: "buf_ok b1" "buf_bytes b1 = buf_bytes b @ ref_bytes r" by auto
  have "buf_ok (b1\<lparr>outgoing := outgoing b1 @ [r]\<rparr>)" using l(1) by (simp add: buf_ok_def)
  from Cons.IH[OF this b1(2)] l(2) show ?case by (simp add: buf_bytes_def)
qed

lemma UnpackRef_law:
  "buf_ok b \<Longrightarrow> list_all ref_ok rs \<Longrightarrow> buf_bytes b = concat (map ref_bytes rs) @ rest \<Longrightarrow>
     \<exists>b'. UnpackRef b (length rs) = Ok (rs, b') \<and> buf_ok b' \<and> buf_bytes b' = rest"
proof (induction rs arbitrary: b)
  case Nil
  then show ?case by simp
next
  case (Cons r rs)
  obtain b1 where b1: "SNetRefDeserialise_scc b = Ok (r, b1)" "buf_ok b1" "buf_bytes b1 = concat (map ref_bytes rs) @ rest"
    using SNetRefDeserialise_law[OF Cons.prems(1), of r] Cons.prems(2,3) by auto
  let ?b = "b1\<lparr>incoming := incoming b1 @ [r]\<rparr>"
  have "buf_ok ?b" "buf_bytes ?b = concat (map ref_bytes rs) @ rest" using b1 by (auto simp: buf_ok_def buf_bytes_def)
  from Cons.IH[OF this(1) _ this(2)] Cons.prems(2) b1(1) show ?case by auto
qed

interpretation scc: pack_channel buf_ok buf_bytes int_bytes ref_bytes ref_ok PackInt PackRef UnpackInt UnpackRef
proof (unfold_locales, goal_cases)
  case 1
  from PackInt_law[OF this(1,3)] show ?case .
next
  case 2
  from PackRef_law[OF this(1,3)] show ?case .
next
  case 3
  from UnpackInt_law[OF this] show ?case .
next
  case 4
  from UnpackRef_law[OF this] show ?case .
qed

text \<open>The room left in the ring: one cell stays empty.\<close>

definition buf_room :: "scc_buf \<Rightarrow> nat" where
  "buf_room b = B_SIZE (ring b) - 1 - mpb_used (ring b)"

lemma put_bytes_room:
  assumes "buf_ok b" and "length bs \<le> buf_room b"
  shows "\<exists>b'. put_bytes b bs = Ok b' \<and> buf_ok b' \<and> buf_room b' + length bs = buf_room b"
proof -
  have inv: "mpb_inv (ring b)" using assms(1) by (simp add: buf_ok_def)
  then have sz: "0 < B_SIZE (ring b)" by (auto simp: mpb_inv_def)
  then have "length bs < B_SIZE (ring b)" using assms(2) by (simp add: buf_room_def)
  from cpy_mem_to_mpb_spec[OF inv this] obtain m' rest where w: "cpy_mem_to_mpb (ring b) bs = Ok (m', rest)" "mpb_inv m'" "B_SIZE m' = B_SIZE (ring b)"
    "ring_bytes m' @ rest = ring_bytes (ring b) @ bs" "rest = [] \<or> mpb_used m' = B_SIZE m' - 1" by blast
  have l: "mpb_used m' + length rest = mpb_used (ring b) + length bs" using arg_cong[OF w(4), of length] by simp
  then have "mpb_used m' = B_SIZE m' - 1 \<Longrightarrow> length rest = 0" using w(3) assms(2) mpb_used_END(2)[OF inv] unfolding buf_room_def by arith
  then have "rest = []" using w(5) by auto
  then show ?thesis using w l assms by (auto simp: put_bytes_def buf_ok_def buf_room_def)
qed

lemma PackInt_room:
  "buf_ok b \<Longrightarrow> length (concat (map int_bytes xs)) \<le> buf_room b \<Longrightarrow>
     \<exists>b'. PackInt b xs = Ok b' \<and> buf_ok b' \<and> buf_room b' + length (concat (map int_bytes xs)) = buf_room b"
  unfolding PackInt_def by (rule put_bytes_room)

lemma SNetRefSerialise_room:
  assumes "buf_ok b" and "length (ref_bytes r) \<le> buf_room b"
  shows "\<exists>b'. SNetRefSerialise_scc r b = Ok b' \<and> buf_ok b' \<and> buf_room b' + length (ref_bytes r) = buf_room b"
proof -
  note len = assms(2)[unfolded ref_bytes_def length_append]
  obtain b1 where b1: "PackInt b [ref_node r] = Ok b1" "buf_ok b1" "buf_room b1 + length (int_bytes (ref_node r)) = buf_room b"
    using PackInt_room[OF assms(1), of "[ref_node r]"] len by auto
  obtain b2 where b2: "PackInt b1 [ref_interface r] = Ok b2" "buf_ok b2" "buf_room b2 + length (int_bytes (ref_interface r)) = buf_room b1"
    using PackInt_room[OF b1(2), of "[ref_interface r]"] len b1(3) by auto
  obtain b3 where b3: "PackInt b2 [ref_size r] = Ok b3" "buf_ok b3" "buf_room b3 + length (int_bytes (ref_size r)) = buf_room b2"
    using PackInt_room[OF b2(2), of "[ref_size r]"] len b1(3) b2(3) by auto
  obtain b4 where b4: "put_bytes b3 (int_bytes (sint (ref_data r))) = Ok b4" "buf_ok b4" "buf_room b4 + length (int_bytes (sint (ref_data r))) = buf_room b3"
    using put_bytes_room[OF b3(2), of "int_bytes (sint (ref_data r))"] len b1(3) b2(3) b3(3) by auto
  show ?thesis using b1 b2 b3 b4 by (auto simp: SNetRefSerialise_scc_def ref_bytes_def)
qed

lemma PackRef_room:
  "buf_ok b \<Longrightarrow> length (concat (map ref_bytes rs)) \<le> buf_room b \<Longrightarrow>
     \<exists>b'. PackRef b rs = Ok b' \<and> buf_room b' + length (concat (map ref_bytes rs)) = buf_room b"
proof (induction rs arbitrary: b)
  case Nil
  then show ?case by (simp add: PackRef_def)
next
  case (Cons r rs)
  obtain b1 where b1: "SNetRefSerialise_scc r b = Ok b1" "buf_ok b1" "buf_room b1 + length (ref_bytes r) = buf_room b"
    using SNetRefSerialise_room[OF Cons.prems(1), of r] Cons.prems(2) by auto
  let ?b = "b1\<lparr>outgoing := outgoing b1 @ [r]\<rparr>"
  have "buf_ok ?b" "buf_room ?b = buf_room b1" using b1(2) by (simp_all add: buf_ok_def buf_room_def)
  with Cons.IH[of ?b] Cons.prems(2) b1(1,3) show ?case by (auto simp: PackRef_def)
qed

interpretation scc_room: bounded_channel buf_ok buf_bytes int_bytes ref_bytes ref_ok PackInt PackRef UnpackInt UnpackRef buf_room
  by unfold_locales (use PackInt_room PackRef_room in blast)+

lemma length_enc_data:
  "length (scc.enc_data d) = 24 + 8 * (mused (rec_btags d) + mused (rec_tags d)) + 20 * mused (rec_fields d)"
  by (simp add: scc.enc_data_def scc.enc_imap_def scc.enc_rmap_def length_concat comp_def ref_bytes_def sum_list_triv)

section \<open>Properties\<close>

text \<open>
  C31. A write to the ring of a receiving node appends bytes behind those not yet read and
  overwrites none of them; it either writes everything or stops with the ring full, having
  written a prefix.
\<close>

theorem scc_write_appends:
  assumes "mpb_inv m" and "length src < B_SIZE m"
  shows "\<exists>m' rest. cpy_mem_to_mpb m src = Ok (m', rest) \<and> mpb_inv m' \<and> ring_bytes m' @ rest = ring_bytes m @ src \<and>
     (rest = [] \<or> mpb_used m' = B_SIZE m' - 1)"
  using cpy_mem_to_mpb_spec[OF assms] by blast

definition example_mpb :: mpb where
  "example_mpb = \<lparr>START = 6, END = 4, HANDLING = False, WRITING = False, mpb_data = replicate 10 0\<rparr>"

lemma example_mpb_simps [simp]: "mpb_inv example_mpb" "B_SIZE example_mpb = 10" "mpb_used example_mpb = 8"
  by (simp_all add: example_mpb_def mpb_inv_def B_SIZE_def mpb_used_cases)

theorem scc_write_appends_witness:
  "\<exists>m' rest. cpy_mem_to_mpb example_mpb [1, 2, 3] = Ok (m', rest) \<and> mpb_inv m' \<and> ring_bytes m' @ rest = ring_bytes example_mpb @ [1, 2, 3]"
  using scc_write_appends[of example_mpb "[1, 2, 3]"] by auto

text \<open>
  A read of at most the number of waiting bytes returns the oldest ones in order, across the
  wrap-around, without leaving the buffer, and keeps the rest.
\<close>

lemma scc_read_oldest:
  "mpb_inv m \<Longrightarrow> n \<le> mpb_used m \<Longrightarrow>
     \<exists>m'. cpy_mpb_to_mem m n = Ok (take n (ring_bytes m), m') \<and> mpb_inv m' \<and> ring_bytes m' = drop n (ring_bytes m)"
  by (rule cpy_mpb_to_mem_spec)

text \<open>
  C29. A data record that fits into the free part of the ring of the receiving node (four bytes for each integer and sixteen for a
  reference) is written at once behind the bytes that are waiting there, and every
  reference of the record is released by the sender. A reader that finds these bytes at the front of a ring gets a record with the same binding tags, tags and
  fields, in the same storage order, and leaves the bytes behind it; the mode of the record is overwritten with the interface identifier and
  its interface identifier is 0. (A record that does not fit makes the writer wait in the middle of the message.)
\<close>

theorem rec_transport_data:
  assumes "buf_ok b" and "scc.valid_data d"
    and "mpb_used (ring b) + 24 + 8 * (mused (rec_btags d) + mused (rec_tags d)) + 20 * mused (rec_fields d) < B_SIZE (ring b)"
  shows "\<exists>b' bs. SNetRecSerialise PackInt PackRef (REC_data d) b = Ok (b', rev (map snd (entries (rec_fields d))), []) \<and>
     buf_ok b' \<and> buf_bytes b' = buf_bytes b @ bs \<and>
     (\<forall>c rest node seq. buf_ok c \<and> buf_bytes c = bs @ rest \<longrightarrow>
        (\<exists>d' c'. SNetRecDeserialise UnpackInt UnpackRef node seq c = Ok (REC_data d', seq + 1, c') \<and> buf_ok c' \<and> buf_bytes c' = rest \<and>
           entries (rec_tags d') = entries (rec_tags d) \<and> entries (rec_btags d') = entries (rec_btags d) \<and>
           entries (rec_fields d') = entries (rec_fields d) \<and> rmode d' = interface_id d \<and> interface_id d' = 0))"
proof -
  have "length (scc.enc_data d) \<le> buf_room b" using assms(3) by (simp add: length_enc_data buf_room_def)
  from scc_room.serialise_fits[OF assms(1,2) this] obtain b' freed destroyed where
    s: "SNetRecSerialise PackInt PackRef (REC_data d) b = Ok (b', freed, destroyed)" by blast
  note l = scc.serialise_data[OF assms(1,2) s]
  have "\<exists>d' c'. SNetRecDeserialise UnpackInt UnpackRef node seq c = Ok (REC_data d', seq + 1, c') \<and> buf_ok c' \<and> buf_bytes c' = rest \<and>
      entries (rec_tags d') = entries (rec_tags d) \<and> entries (rec_btags d') = entries (rec_btags d) \<and>
      entries (rec_fields d') = entries (rec_fields d) \<and> rmode d' = interface_id d \<and> interface_id d' = 0"
    if "buf_ok c" "buf_bytes c = scc.enc_data d @ rest" for c rest node seq
    using scc.deserialise_data[OF that(1) assms(2) that(2), of node seq] by auto
  with s l show ?thesis by (intro exI[of _ b'] exI[of _ "scc.enc_data d"]) auto
qed

definition example_ref :: scc_ref where
  "example_ref = \<lparr>ref_node = 2, ref_interface = 0, ref_size = 8, ref_data = 4096\<rparr>"

definition example_scc_data :: "scc_ref data_rec" where
  "example_scc_data = \<lparr>rec_tags = map_from [(1, 10)], rec_btags = map_from [], rec_fields = map_from [(3, example_ref)],
     interface_id = 5, rmode = MODE_binary, rid = [0, 0], detref = Some None\<rparr>"

text \<open>A ring with two waiting bytes whose free part wraps around.\<close>

definition example_buf :: scc_buf where
  "example_buf = \<lparr>ring = \<lparr>START = 60, END = 62, HANDLING = False, WRITING = False, mpb_data = replicate 64 0\<rparr>, outgoing = [], incoming = []\<rparr>"

theorem rec_transport_data_witness:
  "\<exists>b' bs. SNetRecSerialise PackInt PackRef (REC_data example_scc_data) example_buf = Ok (b', [example_ref], []) \<and>
     buf_bytes b' = [0, 0] @ bs \<and>
     (\<forall>c. buf_ok c \<and> buf_bytes c = bs @ [7] \<longrightarrow>
        (\<exists>d' c'. SNetRecDeserialise UnpackInt UnpackRef 4 9 c = Ok (REC_data d', 10, c') \<and> buf_bytes c' = [7] \<and> rmode d' = 5 \<and> interface_id d' = 0))"
proof -
  have ok: "buf_ok example_buf" "scc.valid_data example_scc_data"
    by (simp_all add: example_buf_def buf_ok_def mpb_inv_def B_SIZE_def
        scc.valid_data_def scc.valid_imap_def scc.valid_rmap_def example_scc_data_def example_ref_def ref_ok_def int_range_def MODE_binary_def,
        simp_all add: map_from_def)
  have fits: "mpb_used (ring example_buf) + 24 + 8 * (mused (rec_btags example_scc_data) + mused (rec_tags example_scc_data)) + 20 * mused (rec_fields example_scc_data) < B_SIZE (ring example_buf)"
    by (simp add: example_buf_def example_scc_data_def B_SIZE_def mpb_used_cases map_from_def)
  have x: "buf_bytes example_buf = [0, 0]" by code_simp
  have y: "rev (map snd (entries (rec_fields example_scc_data))) = [example_ref]" "interface_id example_scc_data = 5" by (simp_all add: example_scc_data_def)
  from rec_transport_data[OF ok fits] obtain b' bs where
    s: "SNetRecSerialise PackInt PackRef (REC_data example_scc_data) example_buf = Ok (b', [example_ref], [])" "buf_bytes b' = [0, 0] @ bs"
    and r: "\<And>c rest node seq. buf_ok c \<and> buf_bytes c = bs @ rest \<longrightarrow> (\<exists>d' c'. SNetRecDeserialise UnpackInt UnpackRef node seq c = Ok (REC_data d', seq + 1, c') \<and>
      buf_ok c' \<and> buf_bytes c' = rest \<and> entries (rec_tags d') = entries (rec_tags example_scc_data) \<and> entries (rec_btags d') = entries (rec_btags example_scc_data) \<and>
      entries (rec_fields d') = entries (rec_fields example_scc_data) \<and> rmode d' = 5 \<and> interface_id d' = 0)"
    unfolding x y by blast
  have "\<exists>d' c'. SNetRecDeserialise UnpackInt UnpackRef 4 9 c = Ok (REC_data d', 10, c') \<and> buf_bytes c' = [7] \<and> rmode d' = 5 \<and> interface_id d' = 0"
    if "buf_ok c" "buf_bytes c = bs @ [7]" for c
  proof -
    have "(9 :: 32 word) + 1 = 10" by simp
    with r[of c "[7]" 4 9] that show ?thesis by auto
  qed
  with s show ?thesis by (intro exI[of _ b'] exI[of _ bs]) blast
qed

text \<open>
  Sort records and termination records sent over an empty SCC channel arrive as they were
  sent, with level and counter unchanged.
\<close>

lemma rec_transport_sort_end:
  assumes "buf_ok b" and "buf_bytes b = []" and "int_range level" and "int_range num"
    and "SNetRecSerialise PackInt PackRef (REC_sort_end level num) b = Ok (b', freed, destroyed)"
  shows "\<exists>b''. SNetRecDeserialise UnpackInt UnpackRef node seq b' = Ok (REC_sort_end level num, seq, b'') \<and> buf_bytes b'' = []"
  by (rule scc.sort_end_roundtrip[OF assms])

text \<open>
  A writer that has put part of its message into the ring and waits for space no longer marks
  the ring as being written to: a second writer that takes the lock then starts its own message
  in the middle of the first.
\<close>

lemma scc_partial_write_unmarked:
  assumes "mpb_inv m" and "cpy_mem_to_mpb m src = Ok (m', rest)" and "rest \<noteq> src"
  shows "start_write_node m'"
proof -
  have "length src < B_SIZE m" using assms(2) by (auto simp: cpy_mem_to_mpb_def not_le[symmetric] split: if_splits)
  with cpy_mem_to_mpb_spec[OF assms(1)] assms(2) have "ring_bytes m' @ rest = ring_bytes m @ src" "WRITING m' \<longrightarrow> m' = m\<lparr>WRITING := True\<rparr>"
    by fastforce+
  with assms(3) show ?thesis by (auto simp: start_write_node_def)
qed

lemma example_partial: "\<exists>m'. cpy_mem_to_mpb example_mpb [1, 2, 3] = Ok (m', [2, 3])"
  by (rule exI[of _ "\<lparr>START = 6, END = 5, HANDLING = False, WRITING = False, mpb_data = [0, 0, 0, 0, 1, 0, 0, 0, 0, 0]\<rparr>"]) code_simp

end
