(* ===== verification/Expression.thy ===== *)
theory Expression
  imports Snet_Record "HOL-Library.Signed_Division"
begin

text \<open>
  Tag expressions (\<open>runtime/common/expression.c\<close>): the expression trees built by the compiler's
  constructor calls and their evaluation on a record. Guards of filters and of stars are such
  expressions. Arithmetic is that of a C \<open>int\<close>: an overflow and a division by zero are outcomes
  of their own. A reference semantics over mathematical integers and a typing function state
  what the two evaluators compute and when they cannot stop the program.
\<close>

section \<open>Expression trees\<close>

datatype bin_op = MINop | MAXop | ADD | MUL | SUB | DIV | MOD | EQ | NE | GT | GE | LT | LE | ANDop | ORop

text \<open>\<open>E_NULL\<close> is the null pointer, which the compiler passes for a missing guard.\<close>

datatype snet_expr =
    E_NULL
  | CONSTI int
  | CONSTB bool
  | TAG int
  | BTAG int
  | ABS snet_expr
  | NOT snet_expr
  | Bin bin_op snet_expr snet_expr
  | COND snet_expr snet_expr snet_expr

definition SNetEconsti :: "int \<Rightarrow> snet_expr" where "SNetEconsti val = CONSTI val"
definition SNetEconstb :: "bool \<Rightarrow> snet_expr" where "SNetEconstb val = CONSTB val"
definition CreateTagExpr :: "(int \<Rightarrow> snet_expr) \<Rightarrow> int \<Rightarrow> snet_expr" where "CreateTagExpr t n = t n"
definition SNetEtag :: "int \<Rightarrow> snet_expr" where "SNetEtag = CreateTagExpr TAG"
definition SNetEbtag :: "int \<Rightarrow> snet_expr" where "SNetEbtag = CreateTagExpr BTAG"
definition CreateMonOp :: "(snet_expr \<Rightarrow> snet_expr) \<Rightarrow> snet_expr \<Rightarrow> snet_expr" where "CreateMonOp t a = t a"
definition CreateBinOp :: "bin_op \<Rightarrow> snet_expr \<Rightarrow> snet_expr \<Rightarrow> snet_expr" where "CreateBinOp t a b = Bin t a b"
definition CreateTriOp :: "(snet_expr \<Rightarrow> snet_expr \<Rightarrow> snet_expr \<Rightarrow> snet_expr) \<Rightarrow> snet_expr \<Rightarrow> snet_expr \<Rightarrow> snet_expr \<Rightarrow> snet_expr" where
  "CreateTriOp t a b c = t a b c"
definition SNetEadd :: "snet_expr \<Rightarrow> snet_expr \<Rightarrow> snet_expr" where "SNetEadd = CreateBinOp ADD"
definition SNetEsub :: "snet_expr \<Rightarrow> snet_expr \<Rightarrow> snet_expr" where "SNetEsub = CreateBinOp SUB"
definition SNetEmul :: "snet_expr \<Rightarrow> snet_expr \<Rightarrow> snet_expr" where "SNetEmul = CreateBinOp MUL"
definition SNetEdiv :: "snet_expr \<Rightarrow> snet_expr \<Rightarrow> snet_expr" where "SNetEdiv = CreateBinOp DIV"
definition SNetEmod :: "snet_expr \<Rightarrow> snet_expr \<Rightarrow> snet_expr" where "SNetEmod = CreateBinOp MOD"
definition SNetEmin :: "snet_expr \<Rightarrow> snet_expr \<Rightarrow> snet_expr" where "SNetEmin = CreateBinOp MINop"
definition SNetEmax :: "snet_expr \<Rightarrow> snet_expr \<Rightarrow> snet_expr" where "SNetEmax = CreateBinOp MAXop"
definition SNetEeq :: "snet_expr \<Rightarrow> snet_expr \<Rightarrow> snet_expr" where "SNetEeq = CreateBinOp EQ"
definition SNetEne :: "snet_expr \<Rightarrow> snet_expr \<Rightarrow> snet_expr" where "SNetEne = CreateBinOp NE"
definition SNetEgt :: "snet_expr \<Rightarrow> snet_expr \<Rightarrow> snet_expr" where "SNetEgt = CreateBinOp GT"
definition SNetEge :: "snet_expr \<Rightarrow> snet_expr \<Rightarrow> snet_expr" where "SNetEge = CreateBinOp GE"
definition SNetElt :: "snet_expr \<Rightarrow> snet_expr \<Rightarrow> snet_expr" where "SNetElt = CreateBinOp LT"
definition SNetEle :: "snet_expr \<Rightarrow> snet_expr \<Rightarrow> snet_expr" where "SNetEle = CreateBinOp LE"
definition SNetEand :: "snet_expr \<Rightarrow> snet_expr \<Rightarrow> snet_expr" where "SNetEand = CreateBinOp ANDop"
definition SNetEor :: "snet_expr \<Rightarrow> snet_expr \<Rightarrow> snet_expr" where "SNetEor = CreateBinOp ORop"
definition SNetEabs :: "snet_expr \<Rightarrow> snet_expr" where "SNetEabs = CreateMonOp ABS"
definition SNetEnot :: "snet_expr \<Rightarrow> snet_expr" where "SNetEnot = CreateMonOp NOT"
definition SNetEcond :: "snet_expr \<Rightarrow> snet_expr \<Rightarrow> snet_expr \<Rightarrow> snet_expr" where "SNetEcond = CreateTriOp COND"

text \<open>\<open>SNetExprDestroy\<close>: the number of expression nodes it frees; it dereferences every child.\<close>

fun SNetExprDestroy :: "snet_expr \<Rightarrow> nat res" where
  "SNetExprDestroy E_NULL = Err NullDeref"
| "SNetExprDestroy (COND a b c) =
     bindR (SNetExprDestroy a) (\<lambda>x. bindR (SNetExprDestroy b) (\<lambda>y. bindR (SNetExprDestroy c) (\<lambda>z. Ok (x + y + z + 1))))"
| "SNetExprDestroy (NOT a) = bindR (SNetExprDestroy a) (\<lambda>x. Ok (x + 1))"
| "SNetExprDestroy (ABS a) = bindR (SNetExprDestroy a) (\<lambda>x. Ok (x + 1))"
| "SNetExprDestroy (Bin t a b) = bindR (SNetExprDestroy a) (\<lambda>x. bindR (SNetExprDestroy b) (\<lambda>y. Ok (x + y + 1)))"
| "SNetExprDestroy e = Ok 1"

section \<open>Evaluation\<close>

fun isBoolean :: "snet_expr \<Rightarrow> bool res" where
  "isBoolean E_NULL = Err NullDeref"
| "isBoolean (CONSTB b) = Ok True"
| "isBoolean (Bin t a b) = Ok (t \<in> {EQ, NE, GT, GE, LT, LE, ANDop, ORop})"
| "isBoolean (NOT a) = Ok True"
| "isBoolean e = Ok False"

definition maxOp :: "int \<Rightarrow> int \<Rightarrow> int" where "maxOp a b = (if a > b then a else b)"
definition minOp :: "int \<Rightarrow> int \<Rightarrow> int" where "minOp a b = (if a < b then a else b)"

definition c_abs :: "int \<Rightarrow> int res" where "c_abs a = c_int \<bar>a\<bar>"

definition c_div :: "int \<Rightarrow> int \<Rightarrow> int res" where
  "c_div a b = (if b = 0 then Err DivByZero else c_int (a sdiv b))"

definition c_rem :: "int \<Rightarrow> int \<Rightarrow> int res" where
  "c_rem a b = (if b = 0 then Err DivByZero else bindR (c_int (a sdiv b)) (\<lambda>_. Ok (a smod b)))"

text \<open>
  \<open>isEqualOp\<close>, \<open>isGreaterOp\<close> and \<open>isLessOp\<close> on the outcomes of evaluating the two operands;
  \<open>orR\<close> is the short-circuit \<open>||\<close>.
\<close>

definition isEqualOp :: "snet_expr \<Rightarrow> bool res \<Rightarrow> bool res \<Rightarrow> int res \<Rightarrow> int res \<Rightarrow> bool res" where
  "isEqualOp e0 b0 b1 i0 i1 =
     bindR (isBoolean e0) (\<lambda>isb.
     if isb then bindR b0 (\<lambda>x. bindR b1 (\<lambda>y. Ok (x = y)))
     else bindR i0 (\<lambda>x. bindR i1 (\<lambda>y. Ok (x = y))))"

definition isGreaterOp :: "int res \<Rightarrow> int res \<Rightarrow> bool res" where
  "isGreaterOp i0 i1 = bindR i0 (\<lambda>x. bindR i1 (\<lambda>y. Ok (x > y)))"

definition isLessOp :: "int res \<Rightarrow> int res \<Rightarrow> bool res" where
  "isLessOp i0 i1 = bindR i0 (\<lambda>x. bindR i1 (\<lambda>y. Ok (x < y)))"

definition orR :: "bool res \<Rightarrow> bool res \<Rightarrow> bool res" where
  "orR a b = bindR a (\<lambda>x. if x then Ok True else b)"

definition andR :: "bool res \<Rightarrow> bool res \<Rightarrow> bool res" where
  "andR a b = bindR a (\<lambda>x. if x then b else Ok False)"

fun SNetEevaluateBool :: "snet_expr \<Rightarrow> 'r snet_record \<Rightarrow> bool res"
  and SNetEevaluateInt :: "snet_expr \<Rightarrow> 'r snet_record \<Rightarrow> int res" where
  "SNetEevaluateBool E_NULL r = Ok True"
| "SNetEevaluateBool (CONSTB b) r = Ok b"
| "SNetEevaluateBool (NOT a) r = bindR (SNetEevaluateBool a r) (\<lambda>x. Ok (\<not> x))"
| "SNetEevaluateBool (Bin t a b) r =
     (let eq = isEqualOp a (SNetEevaluateBool a r) (SNetEevaluateBool b r) (SNetEevaluateInt a r) (SNetEevaluateInt b r);
          gt = isGreaterOp (SNetEevaluateInt a r) (SNetEevaluateInt b r);
          lt = isLessOp (SNetEevaluateInt a r) (SNetEevaluateInt b r)
      in case t of
        EQ \<Rightarrow> eq
      | NE \<Rightarrow> bindR eq (\<lambda>x. Ok (\<not> x))
      | GT \<Rightarrow> gt
      | GE \<Rightarrow> orR gt eq
      | LT \<Rightarrow> lt
      | LE \<Rightarrow> orR lt eq
      | ANDop \<Rightarrow> andR (SNetEevaluateBool a r) (SNetEevaluateBool b r)
      | ORop \<Rightarrow> orR (SNetEevaluateBool a r) (SNetEevaluateBool b r)
      | _ \<Rightarrow> Err FatalError)"
| "SNetEevaluateBool e r = Err FatalError"
| "SNetEevaluateInt E_NULL r = Ok 1"
| "SNetEevaluateInt (CONSTI i) r = Ok i"
| "SNetEevaluateInt (TAG n) r = SNetRecGetTag r n"
| "SNetEevaluateInt (BTAG n) r = SNetRecGetBTag r n"
| "SNetEevaluateInt (ABS a) r = bindR (SNetEevaluateInt a r) c_abs"
| "SNetEevaluateInt (Bin t a b) r =
     (let bin = (\<lambda>f. bindR (SNetEevaluateInt a r) (\<lambda>x. bindR (SNetEevaluateInt b r) (\<lambda>y. f x y)))
      in case t of
        MINop \<Rightarrow> bin (\<lambda>x y. Ok (minOp x y))
      | MAXop \<Rightarrow> bin (\<lambda>x y. Ok (maxOp x y))
      | ADD \<Rightarrow> bin (\<lambda>x y. c_int (x + y))
      | MUL \<Rightarrow> bin (\<lambda>x y. c_int (x * y))
      | SUB \<Rightarrow> bin (\<lambda>x y. c_int (x - y))
      | DIV \<Rightarrow> bin c_div
      | MOD \<Rightarrow> bin c_rem
      | _ \<Rightarrow> Err FatalError)"
| "SNetEevaluateInt e r = Err FatalError"

section \<open>Typing and reference semantics\<close>

datatype etype = TInt | TBool

fun wtype :: "snet_expr \<Rightarrow> etype option" where
  "wtype E_NULL = None"
| "wtype (CONSTI i) = Some TInt"
| "wtype (CONSTB b) = Some TBool"
| "wtype (TAG n) = Some TInt"
| "wtype (BTAG n) = Some TInt"
| "wtype (ABS a) = (if wtype a = Some TInt then Some TInt else None)"
| "wtype (NOT a) = (if wtype a = Some TBool then Some TBool else None)"
| "wtype (Bin t a b) =
     (if t \<in> {MINop, MAXop, ADD, MUL, SUB, DIV, MOD} then (if wtype a = Some TInt \<and> wtype b = Some TInt then Some TInt else None)
      else if t \<in> {GT, GE, LT, LE} then (if wtype a = Some TInt \<and> wtype b = Some TInt then Some TBool else None)
      else if t \<in> {EQ, NE} then (if wtype a = wtype b \<and> wtype a \<noteq> None then Some TBool else None)
      else (if wtype a = Some TBool \<and> wtype b = Some TBool then Some TBool else None))"
| "wtype (COND a b c) = None"

text \<open>
  The outcome of an expression under an assignment of tags and binding tags, over mathematical
  integers: the value, or what the first failing sub-expression from left to right does. It fails
  where a label is missing, a divisor is 0 or a result leaves the range of an \<open>int\<close>.
\<close>

definition ranged :: "int \<Rightarrow> int res" where
  "ranged v = (if int_range v then Ok v else Err SignedOverflow)"

definition labelled :: "int option \<Rightarrow> int res" where
  "labelled v = (case v of None \<Rightarrow> Err AssertFail | Some x \<Rightarrow> Ok x)"

fun arith :: "bin_op \<Rightarrow> int \<Rightarrow> int \<Rightarrow> int res" where
  "arith MINop x y = Ok (min x y)"
| "arith MAXop x y = Ok (max x y)"
| "arith ADD x y = ranged (x + y)"
| "arith MUL x y = ranged (x * y)"
| "arith SUB x y = ranged (x - y)"
| "arith DIV x y = (if y = 0 then Err DivByZero else ranged (x sdiv y))"
| "arith MOD x y = (if y = 0 then Err DivByZero else if int_range (x sdiv y) then Ok (x smod y) else Err SignedOverflow)"
| "arith _ x y = Err FatalError"

fun compare :: "bin_op \<Rightarrow> int \<Rightarrow> int \<Rightarrow> bool" where
  "compare EQ x y = (x = y)"
| "compare NE x y = (x \<noteq> y)"
| "compare GT x y = (x > y)"
| "compare GE x y = (x \<ge> y)"
| "compare LT x y = (x < y)"
| "compare LE x y = (x \<le> y)"
| "compare _ x y = False"

fun sem_int :: "(int \<Rightarrow> int option) \<Rightarrow> (int \<Rightarrow> int option) \<Rightarrow> snet_expr \<Rightarrow> int res" where
  "sem_int tg bt (CONSTI i) = Ok i"
| "sem_int tg bt (TAG n) = labelled (tg n)"
| "sem_int tg bt (BTAG n) = labelled (bt n)"
| "sem_int tg bt (ABS a) = bindR (sem_int tg bt a) (\<lambda>x. ranged \<bar>x\<bar>)"
| "sem_int tg bt (Bin t a b) = bindR (sem_int tg bt a) (\<lambda>x. bindR (sem_int tg bt b) (arith t x))"
| "sem_int tg bt e = Err FatalError"

fun sem_bool :: "(int \<Rightarrow> int option) \<Rightarrow> (int \<Rightarrow> int option) \<Rightarrow> snet_expr \<Rightarrow> bool res" where
  "sem_bool tg bt (CONSTB b) = Ok b"
| "sem_bool tg bt (NOT a) = bindR (sem_bool tg bt a) (\<lambda>x. Ok (\<not> x))"
| "sem_bool tg bt (Bin ANDop a b) = bindR (sem_bool tg bt a) (\<lambda>x. if x then sem_bool tg bt b else Ok False)"
| "sem_bool tg bt (Bin ORop a b) = bindR (sem_bool tg bt a) (\<lambda>x. if x then Ok True else sem_bool tg bt b)"
| "sem_bool tg bt (Bin t a b) =
     (if wtype a = Some TBool then bindR (sem_bool tg bt a) (\<lambda>x. bindR (sem_bool tg bt b) (\<lambda>y. Ok (if t = EQ then x = y else x \<noteq> y)))
      else bindR (sem_int tg bt a) (\<lambda>x. bindR (sem_int tg bt b) (\<lambda>y. Ok (compare t x y))))"
| "sem_bool tg bt e = Err FatalError"

text \<open>The arithmetic of the evaluator agrees with the reference operation by operation.\<close>

definition eval_arith :: "bin_op \<Rightarrow> int \<Rightarrow> int \<Rightarrow> int res" where
  "eval_arith t = (case t of MINop \<Rightarrow> (\<lambda>x y. Ok (minOp x y)) | MAXop \<Rightarrow> (\<lambda>x y. Ok (maxOp x y)) | ADD \<Rightarrow> (\<lambda>x y. c_int (x + y))
     | MUL \<Rightarrow> (\<lambda>x y. c_int (x * y)) | SUB \<Rightarrow> (\<lambda>x y. c_int (x - y)) | DIV \<Rightarrow> c_div | MOD \<Rightarrow> c_rem | _ \<Rightarrow> (\<lambda>x y. Err FatalError))"

lemma eval_arith_agrees: "t \<in> {MINop, MAXop, ADD, MUL, SUB, DIV, MOD} \<Longrightarrow> eval_arith t x y = arith t x y"
  by (auto simp: eval_arith_def minOp_def maxOp_def c_div_def c_rem_def c_int_def ranged_def)

lemma isBoolean_wtype: "wtype e = Some ty \<Longrightarrow> isBoolean e = Ok (ty = TBool)"
proof (cases e)
  case (Bin t a b)
  then show "wtype e = Some ty \<Longrightarrow> isBoolean e = Ok (ty = TBool)" by (cases t) (auto split: if_splits)
qed (auto split: if_splits)

lemma evaluateInt_Bin:
  "t \<in> {MINop, MAXop, ADD, MUL, SUB, DIV, MOD} \<Longrightarrow>
     SNetEevaluateInt (Bin t a b) r = bindR (SNetEevaluateInt a r) (\<lambda>x. bindR (SNetEevaluateInt b r) (eval_arith t x))"
  by (auto simp: eval_arith_def)

lemma evaluateBool_compare:
  assumes "wtype a = Some TInt" and "t \<in> {EQ, NE, GT, GE, LT, LE}"
  shows "SNetEevaluateBool (Bin t a b) r = bindR (SNetEevaluateInt a r) (\<lambda>x. bindR (SNetEevaluateInt b r) (\<lambda>y. Ok (compare t x y)))"
  using assms(2) isBoolean_wtype[OF assms(1)]
  by (cases "SNetEevaluateInt a r"; cases "SNetEevaluateInt b r") (auto simp: isEqualOp_def isGreaterOp_def isLessOp_def orR_def)

lemma evaluateBool_equal:
  assumes "wtype a = Some TBool" and "t \<in> {EQ, NE}"
  shows "SNetEevaluateBool (Bin t a b) r =
    bindR (SNetEevaluateBool a r) (\<lambda>x. bindR (SNetEevaluateBool b r) (\<lambda>y. Ok (if t = EQ then x = y else x \<noteq> y)))"
  using assms(2) isBoolean_wtype[OF assms(1)]
  by (cases "SNetEevaluateBool a r"; cases "SNetEevaluateBool b r") (auto simp: isEqualOp_def)

lemma evaluate_agrees:
  assumes "data_ok d"
  shows "(wtype e = Some TInt \<longrightarrow> SNetEevaluateInt e (REC_data d) = sem_int (tag_map d) (btag_map d) e) \<and>
     (wtype e = Some TBool \<longrightarrow> SNetEevaluateBool e (REC_data d) = sem_bool (tag_map d) (btag_map d) e)"
proof (induction e)
  case (TAG n)
  then show ?case by (simp add: record_get[OF assms] labelled_def)
next
  case (BTAG n)
  then show ?case by (simp add: record_get[OF assms] labelled_def)
next
  case (ABS a)
  then show ?case by (auto simp: c_abs_def[abs_def] c_int_def ranged_def)
next
  case (NOT a)
  then show ?case by auto
next
  case (Bin t a b)
  let ?i = "\<lambda>e. SNetEevaluateInt e (REC_data d) = sem_int (tag_map d) (btag_map d) e"
  let ?b = "\<lambda>e. SNetEevaluateBool e (REC_data d) = sem_bool (tag_map d) (btag_map d) e"
  have IH: "wtype a = Some TInt \<Longrightarrow> ?i a" "wtype b = Some TInt \<Longrightarrow> ?i b" "wtype a = Some TBool \<Longrightarrow> ?b a" "wtype b = Some TBool \<Longrightarrow> ?b b"
    using Bin by auto
  have int: "?i (Bin t a b)" if w: "wtype (Bin t a b) = Some TInt"
  proof -
    have t: "t \<in> {MINop, MAXop, ADD, MUL, SUB, DIV, MOD}" "wtype a = Some TInt" "wtype b = Some TInt"
      using w by (auto split: if_splits)
    show ?thesis unfolding evaluateInt_Bin[OF t(1)] sem_int.simps IH(1)[OF t(2)] IH(2)[OF t(3)]
      using eval_arith_agrees[OF t(1)] by presburger
  qed
  have bool: "?b (Bin t a b)" if w: "wtype (Bin t a b) = Some TBool"
  proof (cases "t \<in> {ANDop, ORop}")
    case True
    then have "?b a" "?b b" using w IH by (auto split: if_splits)
    with True show ?thesis by (auto simp: andR_def orR_def)
  next
    case False
    then have t: "t \<in> {EQ, NE, GT, GE, LT, LE}" using w by (cases t) (auto split: if_splits)
    show ?thesis
    proof (cases "wtype a = Some TBool")
      case True
      then have u: "t \<in> {EQ, NE}" "?b a" "?b b" using w t IH by (auto split: if_splits)
      from evaluateBool_equal[OF True u(1), of b "REC_data d"] u True show ?thesis by (auto simp del: SNetEevaluateBool.simps)
    next
      case False
      then have u: "wtype a = Some TInt" "?i a" "?i b" using w t IH by (auto split: if_splits) (metis etype.exhaust option.exhaust)+
      from evaluateBool_compare[OF u(1) t, of b "REC_data d"] u t False show ?thesis by (auto simp del: SNetEevaluateBool.simps)
    qed
  qed
  show ?case using int bool by blast
qed auto

text \<open>Outcomes other than the fatal error.\<close>

definition ordinary :: "'a res \<Rightarrow> bool" where
  "ordinary m \<longleftrightarrow> m \<noteq> Err FatalError"

lemma ordinary_simps [simp]: "ordinary (Ok x)" "ordinary (Err e) \<longleftrightarrow> e \<noteq> FatalError" "ordinary (ranged v)" "ordinary (labelled w)"
  by (auto simp: ordinary_def ranged_def labelled_def split: option.splits)

lemma ordinary_bind: "ordinary m \<Longrightarrow> (\<And>x. ordinary (f x)) \<Longrightarrow> ordinary (bindR m f)"
  by (cases m) (auto simp: ordinary_def)

lemma ordinary_arith: "t \<in> {MINop, MAXop, ADD, MUL, SUB, DIV, MOD} \<Longrightarrow> ordinary (arith t x y)"
  by auto

lemma sem_ordinary:
  "(wtype e = Some TInt \<longrightarrow> ordinary (sem_int tg bt e)) \<and> (wtype e = Some TBool \<longrightarrow> ordinary (sem_bool tg bt e))"
proof (induction e)
  case (Bin t a b)
  have int: "ordinary (sem_int tg bt (Bin t a b))" if "wtype (Bin t a b) = Some TInt"
    using Bin that unfolding sem_int.simps by (intro ordinary_bind ordinary_arith) (auto split: if_splits)
  have ops: "ordinary (sem_bool tg bt a)" "ordinary (sem_bool tg bt b)" if "wtype a = Some TBool" "wtype b = Some TBool"
    using Bin that by auto
  have ints: "ordinary (sem_int tg bt a)" "ordinary (sem_int tg bt b)" if "wtype a = Some TInt" "wtype b = Some TInt"
    using Bin that by auto
  have bool: "ordinary (sem_bool tg bt (Bin t a b))" if w: "wtype (Bin t a b) = Some TBool"
  proof (cases "wtype a = Some TBool \<and> wtype b = Some TBool")
    case True
    then show ?thesis using ops w by (cases t) (auto intro!: ordinary_bind split: if_splits)
  next
    case False
    then have "wtype a = Some TInt" "wtype b = Some TInt" using w by (auto split: if_splits) (metis etype.exhaust option.exhaust)+
    then show ?thesis using ints w by (cases t) (auto intro!: ordinary_bind split: if_splits)
  qed
  show ?case using int bool by blast
qed (auto split: if_splits intro!: ordinary_bind)

section \<open>Properties\<close>

text \<open>
  C33. A well-typed expression has on every data record exactly the outcome of the reference
  semantics over mathematical integers, for both evaluators: the value, or the failure of the first
  failing sub-expression from left to right, which is a missing label, a division by zero or a signed
  overflow. In particular a well-typed expression never reaches the fatal error of the evaluators.
\<close>

theorem expr_eval_correct:
  assumes "data_ok d" and "wtype e = Some ty"
  shows "if ty = TInt then SNetEevaluateInt e (REC_data d) = sem_int (tag_map d) (btag_map d) e \<and> ordinary (sem_int (tag_map d) (btag_map d) e)
     else SNetEevaluateBool e (REC_data d) = sem_bool (tag_map d) (btag_map d) e \<and> ordinary (sem_bool (tag_map d) (btag_map d) e)"
  using evaluate_agrees[OF assms(1), of e] sem_ordinary[of e "tag_map d" "btag_map d"] assms(2) by (cases ty) auto

definition example_guard :: snet_expr where
  "example_guard = SNetEand (SNetEge (SNetEadd (SNetEtag 1) (SNetEbtag 7)) (SNetEconsti 80)) (SNetEnot (SNetEeq (SNetEtag 2) (SNetEconsti 3)))"

lemmas example_guard_simps = example_guard_def SNetEand_def SNetEge_def SNetEadd_def SNetEtag_def SNetEbtag_def SNetEconsti_def SNetEnot_def
  SNetEeq_def CreateBinOp_def CreateMonOp_def CreateTagExpr_def

theorem expr_eval_correct_witness:
  "SNetEevaluateBool example_guard (REC_data example_data) = sem_bool (tag_map example_data) (btag_map example_data) example_guard
   \<and> sem_bool (tag_map example_data) (btag_map example_data) example_guard = Ok True"
proof
  have "wtype example_guard = Some TBool" by (simp add: example_guard_simps)
  from expr_eval_correct[OF _ this, of example_data]
  show "SNetEevaluateBool example_guard (REC_data example_data) = sem_bool (tag_map example_data) (btag_map example_data) example_guard"
    by simp
  show "sem_bool (tag_map example_data) (btag_map example_data) example_guard = Ok True"
    by (simp add: example_guard_simps ranged_def labelled_def int_range_def)
qed

text \<open>
  A conditional expression can be built but neither evaluator handles it: evaluating one
  ends the program, whatever its operands and the record are.
\<close>

lemma expr_cond_unhandled:
  "SNetEevaluateInt (SNetEcond a b c) r = Err FatalError \<and> SNetEevaluateBool (SNetEcond a b c) r = Err FatalError"
  by (simp add: SNetEcond_def CreateTriOp_def)

end
