(* ===== verification/Hashtab.thy ===== *)
theory Hashtab
  imports Map_Spec
begin

text \<open>
  The open-addressing hash table of the stream runtime (\<open>runtime/stream/utils/hashtab.c\<close>), which
  the parallel replicator uses to find the replica of an index value. The capacity is a power of
  two; slot \<open>i\<close> of the probe sequence of a key is the key plus the \<open>i\<close>-th triangular number,
  modulo the capacity. The theory proves what the file's comment claims of this sequence, that
  it visits every slot, and from it that a put always finds a slot and that put and get
  implement a map for every key but \<open>HASHTAB_NOT_KEY\<close>; a second version of the operations has the
  integers of the code, and the property is stated over it.
\<close>

section \<open>The code\<close>

definition HASHTAB_NOT_KEY :: int where "HASHTAB_NOT_KEY = -1"

text \<open>A slot: the key and the value cell, \<open>None\<close> while it has not been written.\<close>

type_synonym 'v hashtab_entry = "int \<times> 'v option"

record 'v hashtab =
  capacity :: nat
  count :: nat
  table :: "'v hashtab_entry list"

record hashtab_iter =
  idx :: int
  found :: bool

definition HashtabIterCreate :: hashtab_iter where
  "HashtabIterCreate = \<lparr>idx = -1, found = False\<rparr>"

text \<open>The loop of \<open>HashtabIterHasNext\<close>, with the number of slots that are left.\<close>

fun iter_advance :: "nat \<Rightarrow> 'v hashtab \<Rightarrow> hashtab_iter \<Rightarrow> hashtab_iter" where
  "iter_advance 0 ht hti = hti\<lparr>idx := idx hti + 1\<rparr>"
| "iter_advance (Suc n) ht hti =
     (let i = idx hti + 1 in
      if i < int (capacity ht) then
        (if fst (table ht ! nat i) \<noteq> HASHTAB_NOT_KEY then hti\<lparr>idx := i, found := True\<rparr>
         else iter_advance n ht (hti\<lparr>idx := i\<rparr>))
      else hti\<lparr>idx := i\<rparr>)"

definition HashtabIterHasNext :: "'v hashtab \<Rightarrow> hashtab_iter \<Rightarrow> bool \<times> hashtab_iter" where
  "HashtabIterHasNext ht hti =
     (let h = (if found hti then hti else iter_advance (capacity ht) ht hti) in (found h, h))"

definition HashtabIterNext :: "'v hashtab \<Rightarrow> hashtab_iter \<Rightarrow> 'v option \<times> hashtab_iter" where
  "HashtabIterNext ht hti =
     (let (b, h) = (if found hti then (True, hti) else HashtabIterHasNext ht hti) in
      if b then (snd (table ht ! nat (idx h)), h\<lparr>found := False\<rparr>) else (None, h))"

definition HashtabIterReset :: "hashtab_iter \<Rightarrow> hashtab_iter" where
  "HashtabIterReset hti = hti\<lparr>idx := -1, found := False\<rparr>"

definition HashtabCreate :: "nat \<Rightarrow> 'v hashtab" where
  "HashtabCreate init_cap2 =
     \<lparr>capacity = 2 ^ init_cap2, count = 0, table = replicate (2 ^ init_cap2) (HASHTAB_NOT_KEY, None)\<rparr>"

text \<open>\<open>MOD_SIZE\<close> masks with \<open>size - 1\<close>.\<close>

definition MOD_SIZE :: "nat \<Rightarrow> int \<Rightarrow> nat" where
  "MOD_SIZE sz key = nat (semiring_bit_operations_class.and key (int sz - 1))"

definition HASH_K_I :: "nat \<Rightarrow> int \<Rightarrow> nat \<Rightarrow> nat" where
  "HASH_K_I sz key i = MOD_SIZE sz (key + int i)"

text \<open>\<open>ProbePut\<close>: probe \<open>i\<close> and the following ones, with \<open>n\<close> rounds left; \<open>None\<close> is NULL.\<close>

fun probe_put :: "'v hashtab \<Rightarrow> int \<Rightarrow> int \<Rightarrow> nat \<Rightarrow> nat \<Rightarrow> nat option" where
  "probe_put ht key pos i 0 = None"
| "probe_put ht key pos i (Suc n) =
     (let pos' = HASH_K_I (capacity ht) pos i in
      if fst (table ht ! pos') = HASHTAB_NOT_KEY \<or> fst (table ht ! pos') = key then Some pos'
      else probe_put ht key (int pos') (Suc i) n)"

definition ProbePut :: "'v hashtab \<Rightarrow> int \<Rightarrow> nat option" where
  "ProbePut ht key = probe_put ht key key 0 (capacity ht)"

definition store :: "'v hashtab \<Rightarrow> int \<Rightarrow> 'v option \<Rightarrow> 'v hashtab res" where
  "store ht key value =
     (case ProbePut ht key of
        None \<Rightarrow> Err AssertFail
      | Some p \<Rightarrow> Ok (ht\<lparr>table := (table ht)[p := (key, value)]\<rparr>))"

text \<open>The rehash loop skips the empty slots of the old table.\<close>

definition rehash_step :: "'v hashtab \<Rightarrow> 'v hashtab_entry \<Rightarrow> 'v hashtab res" where
  "rehash_step ht e = (if fst e \<noteq> HASHTAB_NOT_KEY then store ht (fst e) (snd e) else Ok ht)"

definition resize :: "'v hashtab \<Rightarrow> 'v hashtab res" where
  "resize ht =
     foldR rehash_step
       (ht\<lparr>capacity := 2 * capacity ht, table := replicate (2 * capacity ht) (HASHTAB_NOT_KEY, None)\<rparr>) (table ht)"

definition HashtabPut :: "'v hashtab \<Rightarrow> int \<Rightarrow> 'v \<Rightarrow> 'v hashtab res" where
  "HashtabPut ht key value =
     (let ht = ht\<lparr>count := count ht + 1\<rparr> in
      bindR (if count ht > capacity ht - capacity ht div 4 then resize ht else Ok ht) (\<lambda>ht.
      store ht key (Some value)))"

fun probe_get :: "'v hashtab \<Rightarrow> int \<Rightarrow> int \<Rightarrow> nat \<Rightarrow> nat \<Rightarrow> nat option" where
  "probe_get ht key pos i 0 = None"
| "probe_get ht key pos i (Suc n) =
     (let pos' = HASH_K_I (capacity ht) pos i in
      if fst (table ht ! pos') = HASHTAB_NOT_KEY then None
      else if fst (table ht ! pos') = key then Some pos'
      else probe_get ht key (int pos') (Suc i) n)"

definition HashtabGetPointer :: "'v hashtab \<Rightarrow> int \<Rightarrow> nat option" where
  "HashtabGetPointer ht key = probe_get ht key key 0 (capacity ht)"

definition HashtabGet :: "'v hashtab \<Rightarrow> int \<Rightarrow> 'v option" where
  "HashtabGet ht key =
     (case probe_get ht key key 0 (capacity ht) of None \<Rightarrow> None | Some p \<Rightarrow> snd (table ht ! p))"

section \<open>The probe sequence visits every slot\<close>

definition tri :: "nat \<Rightarrow> nat" where
  "tri i = (\<Sum>j\<le>i. j)"

definition probe_pos :: "nat \<Rightarrow> int \<Rightarrow> nat \<Rightarrow> nat" where
  "probe_pos cap key i = nat ((key + int (tri i)) mod int cap)"

lemma tri_Suc [simp]: "tri (Suc i) = tri i + Suc i" and tri_0 [simp]: "tri 0 = 0"
  by (simp_all add: tri_def)

lemma double_tri: "2 * tri i = i * (i + 1)"
  by (induction i) auto

lemma MOD_SIZE_mod: "MOD_SIZE (2 ^ n) key = nat (key mod 2 ^ n)"
  using take_bit_eq_mask[of n key] by (simp add: MOD_SIZE_def take_bit_eq_mod mask_eq_exp_minus_1)

lemma HASH_K_I_probe:
  assumes "cap = 2 ^ n"
  shows "HASH_K_I cap key 0 = probe_pos cap key 0"
    and "HASH_K_I cap (int (probe_pos cap key i)) (Suc i) = probe_pos cap key (Suc i)"
proof -
  show "HASH_K_I cap key 0 = probe_pos cap key 0"
    using assms by (simp add: HASH_K_I_def MOD_SIZE_mod probe_pos_def)
  have "((key + int (tri i)) mod 2 ^ n + int (Suc i)) mod 2 ^ n = (key + int (tri (Suc i))) mod 2 ^ n"
    using mod_add_left_eq[of "key + int (tri i)" "2 ^ n" "int (Suc i)"] by (simp add: add.assoc add.commute add.left_commute)
  then show "HASH_K_I cap (int (probe_pos cap key i)) (Suc i) = probe_pos cap key (Suc i)"
    using assms by (simp add: HASH_K_I_def MOD_SIZE_mod probe_pos_def)
qed

text \<open>A power of two that divides a product with one odd factor divides the other factor.\<close>

lemma pow2_dvd_odd_factor:
  fixes a b :: nat
  assumes "2 ^ m dvd a * b" and "odd a"
  shows "2 ^ m dvd b"
proof -
  have "coprime (2 ^ m) a" using assms(2) by simp
  with assms(1) show ?thesis by (simp add: coprime_dvd_mult_right_iff)
qed

lemma tri_diff: "i \<le> j \<Longrightarrow> 2 * (tri j - tri i) = (j - i) * (i + j + 1)"
proof -
  assume "i \<le> j"
  then obtain k where k: "j = i + k" by (auto simp: le_iff_add)
  have "2 * tri (i + k) - 2 * tri i = k * (i + (i + k) + 1)"
    unfolding double_tri by (simp add: algebra_simps)
  then show "2 * (tri j - tri i) = (j - i) * (i + j + 1)" using k by (simp add: diff_mult_distrib2)
qed

lemma probe_pos_inj_less:
  assumes "i < j" and "j < 2 ^ n"
  shows "probe_pos (2 ^ n) key i \<noteq> probe_pos (2 ^ n) key j"
proof
  assume "probe_pos (2 ^ n) key i = probe_pos (2 ^ n) key j"
  then have "(key + int (tri j)) mod 2 ^ n = (key + int (tri i)) mod 2 ^ n"
    by (simp add: probe_pos_def nat_eq_iff2)
  then have "2 ^ n dvd int (tri j) - int (tri i)" by (simp add: mod_eq_dvd_iff)
  moreover have "tri i \<le> tri j" using assms(1) by (auto simp: tri_def intro: sum_mono2)
  ultimately have "int (2 ^ n) dvd int (tri j - tri i)" by (simp add: of_nat_diff)
  then have "2 ^ n dvd tri j - tri i" by (simp only: of_nat_dvd_iff)
  then have "2 * 2 ^ n dvd 2 * (tri j - tri i)" by (rule mult_dvd_mono[OF dvd_refl])
  then have d: "2 ^ Suc n dvd (j - i) * (i + j + 1)" using tri_diff[of i j] assms(1) by simp
  have pos: "0 < j - i" "j - i < 2 ^ Suc n" "0 < i + j + 1" "i + j + 1 < 2 ^ Suc n" using assms by auto
  have "odd (j - i) \<or> odd (i + j + 1)" using assms(1) by (simp add: even_diff_nat) presburger
  then show False
  proof
    assume "odd (j - i)"
    from pow2_dvd_odd_factor[OF d this] pos show False by (auto dest: dvd_imp_le)
  next
    assume "odd (i + j + 1)"
    from pow2_dvd_odd_factor[OF _ this, of "Suc n" "j - i"] d pos show False
      by (auto simp: mult.commute dest: dvd_imp_le)
  qed
qed

lemma probe_pos_lt: "0 < cap \<Longrightarrow> probe_pos cap key i < cap"
  by (simp add: probe_pos_def nat_less_iff)

lemma probe_pos_bij: "bij_betw (probe_pos (2 ^ n) key) {..<2 ^ n} {..<2 ^ n}"
proof -
  have inj: "inj_on (probe_pos (2 ^ n) key) {..<2 ^ n}"
    by (rule inj_onI) (metis lessThan_iff linorder_neqE_nat probe_pos_inj_less)
  moreover have "probe_pos (2 ^ n) key ` {..<2 ^ n} \<subseteq> {..<2 ^ n}" by (auto intro: probe_pos_lt)
  ultimately show ?thesis by (simp add: bij_betw_def endo_inj_surj)
qed

section \<open>The table as a map\<close>

definition slot_key :: "'v hashtab \<Rightarrow> nat \<Rightarrow> int" where
  "slot_key ht p = fst (table ht ! p)"

text \<open>
  The structural invariant: every stored key lies on its probe sequence with no free slot and
  no slot of the same key before it, and stored cells hold a value.
\<close>

definition ht_struct :: "'v hashtab \<Rightarrow> bool" where
  "ht_struct ht \<longleftrightarrow> (\<exists>n. capacity ht = 2 ^ n) \<and> length (table ht) = capacity ht \<and>
     (\<forall>p<capacity ht. slot_key ht p \<noteq> HASHTAB_NOT_KEY \<longrightarrow>
        snd (table ht ! p) \<noteq> None \<and>
        (\<exists>i<capacity ht. probe_pos (capacity ht) (slot_key ht p) i = p \<and>
           (\<forall>j<i. slot_key ht (probe_pos (capacity ht) (slot_key ht p) j) \<notin> {HASHTAB_NOT_KEY, slot_key ht p})))"

definition ht_lookup :: "'v hashtab \<Rightarrow> int \<Rightarrow> 'v option" where
  "ht_lookup ht k = (if k = HASHTAB_NOT_KEY then None else Option.bind (map_of (table ht) k) (\<lambda>v. v))"

definition occupied :: "'v hashtab \<Rightarrow> nat" where
  "occupied ht = length (filter (\<lambda>e. fst e \<noteq> HASHTAB_NOT_KEY) (table ht))"

definition ht_inv :: "'v hashtab \<Rightarrow> bool" where
  "ht_inv ht \<longleftrightarrow> ht_struct ht \<and> 4 \<le> capacity ht \<and> occupied ht \<le> count ht \<and> count ht \<le> capacity ht - capacity ht div 4"

lemma ht_structE:
  assumes "ht_struct ht"
  obtains n where "capacity ht = 2 ^ n" "length (table ht) = capacity ht" "0 < capacity ht"
  using assms by (auto simp: ht_struct_def)

text \<open>The two probe loops stop at the first probe whose slot satisfies their condition.\<close>

lemma probe_put_first:
  assumes "capacity ht = 2 ^ c"
  shows "(if i = 0 then pos = key else pos = int (probe_pos (capacity ht) key (i - 1))) \<Longrightarrow>
     probe_put ht key pos i n =
       (case filter (\<lambda>j. slot_key ht (probe_pos (capacity ht) key j) \<in> {HASHTAB_NOT_KEY, key}) [i..<i + n] of
          [] \<Rightarrow> None | j # js \<Rightarrow> Some (probe_pos (capacity ht) key j))"
proof (induction n arbitrary: i pos)
  case 0
  then show ?case by simp
next
  case (Suc n)
  have p: "HASH_K_I (capacity ht) pos i = probe_pos (capacity ht) key i"
    using Suc.prems HASH_K_I_probe[OF assms, of key] by (cases i) auto
  have "[i..<i + Suc n] = i # [Suc i..<Suc i + n]" by (simp add: upt_conv_Cons)
  with Suc.IH[of "Suc i" "int (probe_pos (capacity ht) key i)"] p show ?case
    by (simp add: slot_key_def Let_def)
qed

lemma probe_get_first:
  assumes "capacity ht = 2 ^ c"
  shows "(if i = 0 then pos = key else pos = int (probe_pos (capacity ht) key (i - 1))) \<Longrightarrow>
     probe_get ht key pos i n =
       (case filter (\<lambda>j. slot_key ht (probe_pos (capacity ht) key j) \<in> {HASHTAB_NOT_KEY, key}) [i..<i + n] of
          [] \<Rightarrow> None
        | j # js \<Rightarrow> if slot_key ht (probe_pos (capacity ht) key j) = HASHTAB_NOT_KEY then None
                   else Some (probe_pos (capacity ht) key j))"
proof (induction n arbitrary: i pos)
  case 0
  then show ?case by simp
next
  case (Suc n)
  have p: "HASH_K_I (capacity ht) pos i = probe_pos (capacity ht) key i"
    using Suc.prems HASH_K_I_probe[OF assms, of key] by (cases i) auto
  have "[i..<i + Suc n] = i # [Suc i..<Suc i + n]" by (simp add: upt_conv_Cons)
  with Suc.IH[of "Suc i" "int (probe_pos (capacity ht) key i)"] p show ?case
    by (simp add: slot_key_def Let_def)
qed

lemma filter_upt_first:
  "filter P [0..<n] = j # js \<Longrightarrow> P j \<and> j < n \<and> (\<forall>i<j. \<not> P i)"
proof -
  assume f: "filter P [0..<n] = j # js"
  then have "j \<in> set (filter P [0..<n])" by simp
  then have j: "P j" "j < n" by auto
  have "sorted (j # js)" using f by (metis sorted_upt sorted_wrt_filter)
  then have "i \<in> set (j # js) \<Longrightarrow> j \<le> i" for i by auto
  moreover have "i \<in> set (j # js)" if "i < j" "P i" for i
  proof -
    have "i \<in> set (filter P [0..<n])" using that j by simp
    then show ?thesis by (simp only: f)
  qed
  ultimately have "\<not> P i" if "i < j" for i using that by (meson not_le)
  with j show "P j \<and> j < n \<and> (\<forall>i<j. \<not> P i)" by blast
qed

text \<open>A put finds a slot as soon as one slot is free or holds the key.\<close>

lemma ProbePut_Some:
  assumes "ht_struct ht" and "p < capacity ht" and "slot_key ht p \<in> {HASHTAB_NOT_KEY, key}"
  shows "\<exists>j<capacity ht. ProbePut ht key = Some (probe_pos (capacity ht) key j) \<and>
     slot_key ht (probe_pos (capacity ht) key j) \<in> {HASHTAB_NOT_KEY, key} \<and>
     (\<forall>i<j. slot_key ht (probe_pos (capacity ht) key i) \<notin> {HASHTAB_NOT_KEY, key})"
proof -
  obtain n where n: "capacity ht = 2 ^ n" using ht_structE[OF assms(1)] by blast
  let ?P = "\<lambda>j. slot_key ht (probe_pos (capacity ht) key j) \<in> {HASHTAB_NOT_KEY, key}"
  from probe_pos_bij[of n key] assms(2) n obtain i where "i < capacity ht" "probe_pos (capacity ht) key i = p"
    by (auto simp: bij_betw_def image_iff) (metis imageE lessThan_iff)
  with assms(3) have "i \<in> set (filter ?P [0..<capacity ht])" by simp
  then obtain j js where f: "filter ?P [0..<capacity ht] = j # js" by (metis empty_iff list.exhaust list.set(1))
  from filter_upt_first[OF f] probe_put_first[OF n, of 0 key key "capacity ht"] f show ?thesis
    by (auto simp: ProbePut_def)
qed

text \<open>Keys are stored at one place only.\<close>

lemma slot_unique:
  assumes "ht_struct ht" and "p < capacity ht" and "q < capacity ht" and "slot_key ht p = slot_key ht q"
    and "slot_key ht p \<noteq> HASHTAB_NOT_KEY"
  shows "p = q"
proof -
  let ?k = "slot_key ht p" and ?s = "probe_pos (capacity ht) (slot_key ht p)"
  from assms obtain i where i: "?s i = p" "\<forall>j<i. slot_key ht (?s j) \<notin> {HASHTAB_NOT_KEY, ?k}"
    unfolding ht_struct_def by blast
  from assms obtain j where j: "?s j = q" "\<forall>i<j. slot_key ht (?s i) \<notin> {HASHTAB_NOT_KEY, ?k}"
    unfolding ht_struct_def by metis
  have "i = j"
  proof (rule ccontr)
    assume "i \<noteq> j"
    then consider "i < j" | "j < i" by linarith
    then show False
    proof cases
      case 1
      with j(2) i(1) show False by force
    next
      case 2
      with i(2) j(1) assms(4) show False by force
    qed
  qed
  with i(1) j(1) show ?thesis by simp
qed

lemma ht_lookup_at:
  assumes "ht_struct ht" and "p < capacity ht" and "slot_key ht p = k" and "k \<noteq> HASHTAB_NOT_KEY"
  shows "ht_lookup ht k = snd (table ht ! p)"
proof -
  have len: "length (table ht) = capacity ht" using assms(1) by (simp add: ht_struct_def)
  have mem: "(k, snd (table ht ! p)) \<in> set (table ht)"
    using assms(2,3) len by (metis nth_mem prod.collapse slot_key_def)
  then obtain v where v: "map_of (table ht) k = Some v" by (metis map_of_eq_None_iff not_None_eq image_eqI fst_conv)
  then obtain q where q: "q < capacity ht" "table ht ! q = (k, v)" using len by (metis in_set_conv_nth map_of_SomeD)
  have "q = p" using slot_unique[OF assms(1) q(1) assms(2)] assms(3,4) q(2) by (simp add: slot_key_def)
  with v q(2) assms(4) show ?thesis by (simp add: ht_lookup_def)
qed

lemma ht_lookup_absent:
  assumes "length (table ht) = capacity ht" and "\<forall>p<capacity ht. slot_key ht p \<noteq> k"
  shows "ht_lookup ht k = None"
proof -
  have "map_of (table ht) k = None"
    using assms by (auto simp: map_of_eq_None_iff slot_key_def in_set_conv_nth) (metis fst_conv)
  then show ?thesis by (simp add: ht_lookup_def)
qed

lemma occupied_card: "length (table ht) = capacity ht \<Longrightarrow> occupied ht = card {p. p < capacity ht \<and> slot_key ht p \<noteq> HASHTAB_NOT_KEY}"
  by (simp add: occupied_def length_filter_conv_card slot_key_def)

lemma free_slot:
  assumes "length (table ht) = capacity ht" and "occupied ht < capacity ht"
  shows "\<exists>p<capacity ht. slot_key ht p = HASHTAB_NOT_KEY"
proof (rule ccontr)
  assume "\<not> ?thesis"
  then have "{p. p < capacity ht \<and> slot_key ht p \<noteq> HASHTAB_NOT_KEY} = {..<capacity ht}" by auto
  with assms show False by (simp add: occupied_card)
qed

lemma store_spec:
  assumes "ht_struct ht" and "k \<noteq> HASHTAB_NOT_KEY" and "occupied ht < capacity ht"
  shows "\<exists>ht'. store ht k (Some v) = Ok ht' \<and> ht_struct ht' \<and> capacity ht' = capacity ht \<and> count ht' = count ht \<and>
     occupied ht' \<le> occupied ht + 1 \<and> ht_lookup ht' = (ht_lookup ht)(k \<mapsto> v)"
proof -
  let ?cap = "capacity ht"
  obtain n where n: "?cap = 2 ^ n" and len: "length (table ht) = ?cap" using ht_structE[OF assms(1)] by blast
  obtain p where p: "p < ?cap" "slot_key ht p = HASHTAB_NOT_KEY" using free_slot[OF len assms(3)] by blast
  obtain j where j: "j < ?cap" "ProbePut ht k = Some (probe_pos ?cap k j)" "slot_key ht (probe_pos ?cap k j) \<in> {HASHTAB_NOT_KEY, k}"
    "\<forall>i<j. slot_key ht (probe_pos ?cap k i) \<notin> {HASHTAB_NOT_KEY, k}"
    using ProbePut_Some[OF assms(1) p(1), of k] p(2) by auto
  define q where "q = probe_pos ?cap k j"
  define ht' where "ht' = ht\<lparr>table := (table ht)[q := (k, Some v)]\<rparr>"
  have q: "q < ?cap" using p(1) by (simp add: q_def probe_pos_lt)
  have key': "slot_key ht' r = (if r = q then k else slot_key ht r)" if "r < ?cap" for r
    using that q len by (simp add: ht'_def slot_key_def nth_list_update)
  have val': "table ht' ! r = (if r = q then (k, Some v) else table ht ! r)" if "r < ?cap" for r
    using that q len by (simp add: ht'_def nth_list_update)
  have cap': "capacity ht' = ?cap" "length (table ht') = ?cap" using len by (simp_all add: ht'_def)
  have pp: "probe_pos ?cap k' i < ?cap" for k' i using p(1) by (simp add: probe_pos_lt)
  have struct: "ht_struct ht'"
    unfolding ht_struct_def cap'
  proof (intro conjI allI impI)
    show "\<exists>n. ?cap = 2 ^ n" using n by blast
    fix r assume r: "r < ?cap" "slot_key ht' r \<noteq> HASHTAB_NOT_KEY"
    show "snd (table ht' ! r) \<noteq> None"
      using r key'[OF r(1)] val'[OF r(1)] assms(1) by (auto simp: ht_struct_def)
    show "\<exists>i<?cap. probe_pos ?cap (slot_key ht' r) i = r \<and>
        (\<forall>j<i. slot_key ht' (probe_pos ?cap (slot_key ht' r) j) \<notin> {HASHTAB_NOT_KEY, slot_key ht' r})"
    proof (cases "r = q")
      case True
      have "probe_pos ?cap k i \<noteq> q" if "i < j" for i
        unfolding q_def using probe_pos_inj_less[OF that, of n k] j(1) n by simp
      with True j(1,4) key'[OF pp] key'[OF r(1)] show ?thesis by (auto simp: q_def)
    next
      case False
      with r key'[OF r(1)] have kr: "slot_key ht' r = slot_key ht r" "slot_key ht r \<noteq> HASHTAB_NOT_KEY" by auto
      obtain i where i: "i < ?cap" "probe_pos ?cap (slot_key ht r) i = r"
        "\<forall>j<i. slot_key ht (probe_pos ?cap (slot_key ht r) j) \<notin> {HASHTAB_NOT_KEY, slot_key ht r}"
        using assms(1) r(1) kr(2) unfolding ht_struct_def by blast
      have "slot_key ht' (probe_pos ?cap (slot_key ht r) m) \<notin> {HASHTAB_NOT_KEY, slot_key ht r}" if "m < i" for m
        using i(3) that key'[OF pp, of "slot_key ht r" m] j(3) assms(2) unfolding q_def[symmetric] by (auto split: if_splits)
      with i kr show ?thesis by auto
    qed
  qed (use cap' in simp)
  have occ: "occupied ht' \<le> occupied ht + 1"
  proof -
    have "{p. p < ?cap \<and> slot_key ht' p \<noteq> HASHTAB_NOT_KEY} \<subseteq> insert q {p. p < ?cap \<and> slot_key ht p \<noteq> HASHTAB_NOT_KEY}"
      using key' by (auto split: if_splits)
    then have "card {p. p < ?cap \<and> slot_key ht' p \<noteq> HASHTAB_NOT_KEY} \<le> card (insert q {p. p < ?cap \<and> slot_key ht p \<noteq> HASHTAB_NOT_KEY})"
      by (intro card_mono) auto
    then show ?thesis using card_insert_le_m1 len cap' by (auto simp: occupied_card card_insert_if split: if_splits)
  qed
  have look: "ht_lookup ht' k' = ((ht_lookup ht)(k \<mapsto> v)) k'" for k'
  proof (cases "k' = k")
    case True
    with ht_lookup_at[OF struct, of q k] q key'[OF q] val'[OF q] cap' assms(2) show ?thesis by simp
  next
    case False
    show ?thesis
    proof (cases "k' \<noteq> HASHTAB_NOT_KEY \<and> (\<exists>r<?cap. slot_key ht r = k')")
      case True
      then obtain r where r: "r < ?cap" "slot_key ht r = k'" "k' \<noteq> HASHTAB_NOT_KEY" by blast
      with j(3) False have "r \<noteq> q" by (auto simp: q_def)
      with ht_lookup_at[OF struct, of r k'] ht_lookup_at[OF assms(1) r] r key'[OF r(1)] val'[OF r(1)] cap' False
      show ?thesis by simp
    next
      case none: False
      show ?thesis
      proof (cases "k' = HASHTAB_NOT_KEY")
        case True
        with False show ?thesis by (simp add: ht_lookup_def)
      next
        case nk: False
        with none have "\<forall>r<?cap. slot_key ht r \<noteq> k'" by blast
        moreover from this have "\<forall>r<?cap. slot_key ht' r \<noteq> k'" using key' False by auto
        ultimately show ?thesis using ht_lookup_absent[of ht' k'] ht_lookup_absent[of ht k'] cap' len False by simp
      qed
    qed
  qed
  have "store ht k (Some v) = Ok ht'" using j(2) by (simp add: store_def ht'_def q_def)
  with struct occ look cap' show ?thesis by (auto simp: ht'_def)
qed

text \<open>Getting a key returns what is stored under it.\<close>

lemma HashtabGet_lookup:
  assumes "ht_struct ht"
  shows "HashtabGet ht k = ht_lookup ht k"
proof -
  let ?cap = "capacity ht" and ?P = "\<lambda>j. slot_key ht (probe_pos (capacity ht) k j) \<in> {HASHTAB_NOT_KEY, k}"
  obtain n where n: "?cap = 2 ^ n" and len: "length (table ht) = ?cap" "0 < ?cap" using ht_structE[OF assms] by blast
  note g = probe_get_first[OF n, of 0 k k ?cap]
  show ?thesis
  proof (cases "k \<noteq> HASHTAB_NOT_KEY \<and> (\<exists>p<?cap. slot_key ht p = k)")
    case True
    then obtain p where p: "p < ?cap" "slot_key ht p = k" "k \<noteq> HASHTAB_NOT_KEY" by blast
    then obtain i where i: "i < ?cap" "probe_pos ?cap k i = p" "\<forall>j<i. \<not> ?P j"
      using assms unfolding ht_struct_def by blast
    have "i \<in> set (filter ?P [0..<?cap])" using i p by simp
    then obtain j js where f: "filter ?P [0..<?cap] = j # js" by (metis empty_iff list.exhaust list.set(1))
    from filter_upt_first[OF f] i p have "j = i" by (metis insertCI linorder_neqE_nat)
    with g f i p have "probe_get ht k k 0 ?cap = Some p" by simp
    with ht_lookup_at[OF assms p] show ?thesis by (simp add: HashtabGet_def)
  next
    case False
    have "probe_get ht k k 0 ?cap = None"
    proof (cases "filter ?P [0..<?cap]")
      case Nil
      with g show ?thesis by simp
    next
      case (Cons j js)
      from filter_upt_first[OF Cons] False probe_pos_lt[OF len(2), of k j]
      have "slot_key ht (probe_pos ?cap k j) = HASHTAB_NOT_KEY" by blast
      with g Cons show ?thesis by simp
    qed
    moreover have "ht_lookup ht k = None"
      using False ht_lookup_absent[OF len(1), of k] by (auto simp: ht_lookup_def)
    ultimately show ?thesis by (simp add: HashtabGet_def)
  qed
qed

text \<open>The rehash stores the occupied slots of the old table one after the other.\<close>

definition live :: "'v hashtab_entry list \<Rightarrow> (int \<times> 'v) list" where
  "live es = map (\<lambda>e. (fst e, the (snd e))) (filter (\<lambda>e. fst e \<noteq> HASHTAB_NOT_KEY) es)"

lemma live_simps [simp]:
  "live [] = []" "live (e # es) = (if fst e \<noteq> HASHTAB_NOT_KEY then (fst e, the (snd e)) # live es else live es)"
  by (simp_all add: live_def)

lemma rehash_loop:
  "ht_struct ht \<Longrightarrow> \<forall>e\<in>set es. fst e \<noteq> HASHTAB_NOT_KEY \<longrightarrow> snd e \<noteq> None \<Longrightarrow> occupied ht + length (live es) \<le> capacity ht \<Longrightarrow>
     \<exists>ht'. foldR rehash_step ht es = Ok ht' \<and> ht_struct ht' \<and> capacity ht' = capacity ht \<and> count ht' = count ht \<and>
       occupied ht' \<le> occupied ht + length (live es) \<and> ht_lookup ht' = ht_lookup ht ++ map_of (rev (live es))"
proof (induction es arbitrary: ht)
  case Nil
  then show ?case by simp
next
  case (Cons e es)
  show ?case
  proof (cases "fst e = HASHTAB_NOT_KEY")
    case True
    with Cons.IH[OF Cons.prems(1)] Cons.prems show ?thesis by (simp add: rehash_step_def)
  next
    case False
    with Cons.prems obtain v where v: "snd e = Some v" by auto
    have "occupied ht < capacity ht" using Cons.prems(3) False by simp
    from store_spec[OF Cons.prems(1) False this, of v] obtain h1 where
      h1: "store ht (fst e) (Some v) = Ok h1" "ht_struct h1" "capacity h1 = capacity ht" "count h1 = count ht"
        "occupied h1 \<le> occupied ht + 1" "ht_lookup h1 = (ht_lookup ht)(fst e \<mapsto> v)" by blast
    have "occupied h1 + length (live es) \<le> capacity h1" using h1(3,5) Cons.prems(3) False by simp
    from Cons.IH[OF h1(2) _ this] Cons.prems(2) obtain h2 where
      h2: "foldR rehash_step h1 es = Ok h2" "ht_struct h2" "capacity h2 = capacity h1" "count h2 = count h1"
        "occupied h2 \<le> occupied h1 + length (live es)" "ht_lookup h2 = ht_lookup h1 ++ map_of (rev (live es))" by auto
    have "ht_lookup h2 = ht_lookup ht ++ map_of (rev (live (e # es)))"
      using h2(6) h1(6) v False by simp
    moreover have "rehash_step ht e = Ok h1" using h1(1) v False by (simp add: rehash_step_def)
    ultimately show ?thesis using h1 h2 False by (intro exI[of _ h2]) simp
  qed
qed

lemma length_live: "length (live (table ht)) = occupied ht"
  by (simp add: live_def occupied_def)

lemma ht_struct_distinct:
  assumes "ht_struct ht"
  shows "distinct (map fst (live (table ht)))"
proof -
  let ?occ = "filter (\<lambda>e. fst e \<noteq> HASHTAB_NOT_KEY) (table ht)"
  have len: "length (table ht) = capacity ht" using assms by (simp add: ht_struct_def)
  have gen: "distinct (map fst (filter P es))"
    if "\<And>i j. i < length es \<Longrightarrow> j < length es \<Longrightarrow> P (es ! i) \<Longrightarrow> fst (es ! i) = fst (es ! j) \<Longrightarrow> i = j"
    for P and es :: "'a hashtab_entry list"
    using that
  proof (induction es)
    case Nil
    then show ?case by simp
  next
    case (Cons e es)
    have "distinct (map fst (filter P es))"
      by (rule Cons.IH) (use Cons.prems[of "Suc _" "Suc _"] in auto)
    moreover have "fst e \<notin> fst ` set (filter P es)" if "P e"
    proof
      assume "fst e \<in> fst ` set (filter P es)"
      then obtain j where "j < length es" "fst (es ! j) = fst e" by (auto simp: in_set_conv_nth)
      with Cons.prems[of 0 "Suc j"] that show False by simp
    qed
    ultimately show ?case by simp
  qed
  have "distinct (map fst ?occ)"
    by (rule gen) (use slot_unique[OF assms] len in \<open>auto simp: slot_key_def\<close>)
  then show ?thesis by (simp add: live_def comp_def)
qed

lemma ht_lookup_live:
  assumes "ht_struct ht"
  shows "ht_lookup ht = map_of (live (table ht))"
proof
  fix k
  have len: "length (table ht) = capacity ht" using assms by (simp add: ht_struct_def)
  show "ht_lookup ht k = map_of (live (table ht)) k"
  proof (cases "k \<noteq> HASHTAB_NOT_KEY \<and> (\<exists>p<capacity ht. slot_key ht p = k)")
    case True
    then obtain p where p: "p < capacity ht" "slot_key ht p = k" "k \<noteq> HASHTAB_NOT_KEY" by blast
    then obtain v where v: "snd (table ht ! p) = Some v" using assms by (auto simp: ht_struct_def)
    have "table ht ! p \<in> set (table ht)" "fst (table ht ! p) = k" using p len by (auto simp: slot_key_def)
    then have "(k, v) \<in> set (live (table ht))" using p(3) v by (force simp: live_def)
    with ht_struct_distinct[OF assms] have "map_of (live (table ht)) k = Some v" by (simp add: map_of_is_SomeI)
    with ht_lookup_at[OF assms p] v show ?thesis by simp
  next
    case False
    have "k \<notin> fst ` set (live (table ht))"
    proof
      assume "k \<in> fst ` set (live (table ht))"
      then obtain e where "e \<in> set (table ht)" "fst e = k" "k \<noteq> HASHTAB_NOT_KEY" by (auto simp: live_def)
      then obtain p where "p < capacity ht" "slot_key ht p = k" using len by (auto simp: in_set_conv_nth slot_key_def)
      with False \<open>k \<noteq> HASHTAB_NOT_KEY\<close> show False by blast
    qed
    moreover have "ht_lookup ht k = None"
      using False ht_lookup_absent[OF len, of k] by (auto simp: ht_lookup_def)
    ultimately show ?thesis by (metis map_of_eq_None_iff)
  qed
qed

lemma ht_struct_empty: "ht_struct \<lparr>capacity = 2 ^ n, count = c, table = replicate (2 ^ n) (HASHTAB_NOT_KEY, None)\<rparr>"
  by (auto simp: ht_struct_def slot_key_def)

lemma resize_spec:
  assumes "ht_struct ht"
  shows "\<exists>ht'. resize ht = Ok ht' \<and> ht_struct ht' \<and> capacity ht' = 2 * capacity ht \<and> count ht' = count ht \<and>
     occupied ht' \<le> occupied ht \<and> ht_lookup ht' = ht_lookup ht"
proof -
  obtain n where n: "capacity ht = 2 ^ n" and len: "length (table ht) = capacity ht" using ht_structE[OF assms] by blast
  let ?e = "ht\<lparr>capacity := 2 * capacity ht, table := replicate (2 * capacity ht) (HASHTAB_NOT_KEY, None)\<rparr>"
  have e: "?e = \<lparr>capacity = 2 ^ Suc n, count = count ht, table = replicate (2 ^ Suc n) (HASHTAB_NOT_KEY, None)\<rparr>"
    using n by (cases ht) simp
  have st: "ht_struct ?e" unfolding e by (rule ht_struct_empty)
  have occ: "occupied ?e = 0" by (simp add: occupied_def)
  have look: "ht_lookup ?e = Map.empty"
    using ht_lookup_live[OF st] by (simp add: live_def)
  have val: "\<forall>e\<in>set (table ht). fst e \<noteq> HASHTAB_NOT_KEY \<longrightarrow> snd e \<noteq> None"
    using assms len by (auto simp: ht_struct_def slot_key_def in_set_conv_nth) (metis fst_conv snd_conv)+
  have "occupied ht \<le> capacity ht" unfolding occupied_def len[symmetric] by (rule length_filter_le)
  then have fit: "occupied ?e + length (live (table ht)) \<le> capacity ?e" unfolding occ length_live by simp
  from rehash_loop[OF st val fit] obtain ht' where
    h: "resize ht = Ok ht'" "ht_struct ht'" "capacity ht' = 2 * capacity ht" "count ht' = count ht"
      "occupied ht' \<le> length (live (table ht))" "ht_lookup ht' = map_of (rev (live (table ht)))"
    by (auto simp: resize_def occ look)
  then show ?thesis
    using map_of_rev_distinct[OF ht_struct_distinct[OF assms]] ht_lookup_live[OF assms] length_live[of ht] by auto
qed

lemma HashtabPut_full:
  assumes "ht_inv ht" and "k \<noteq> HASHTAB_NOT_KEY"
  shows "\<exists>ht'. HashtabPut ht k v = Ok ht' \<and> ht_inv ht' \<and> ht_lookup ht' = (ht_lookup ht)(k \<mapsto> v) \<and> count ht' = count ht + 1 \<and>
     (capacity ht' = capacity ht \<or> capacity ht' = 2 * capacity ht \<and> capacity ht - capacity ht div 4 < count ht + 1)"
proof -
  let ?h = "ht\<lparr>count := count ht + 1\<rparr>"
  have inv: "ht_struct ht" "4 \<le> capacity ht" "occupied ht \<le> count ht" "count ht \<le> capacity ht - capacity ht div 4"
    using assms(1) by (auto simp: ht_inv_def)
  have st: "ht_struct ?h" using inv(1) by (simp add: ht_struct_def slot_key_def)
  have eq: "occupied ?h = occupied ht" "ht_lookup ?h = ht_lookup ht" by (simp_all add: occupied_def ht_lookup_def fun_eq_iff)
  obtain h1 where h1: "(if count ?h > capacity ?h - capacity ?h div 4 then resize ?h else Ok ?h) = Ok h1" "ht_struct h1"
    "4 \<le> capacity h1" "count h1 = count ht + 1" "occupied h1 \<le> count ht" "count h1 \<le> capacity h1 - capacity h1 div 4" "ht_lookup h1 = ht_lookup ht"
    "capacity h1 = capacity ht \<or> capacity h1 = 2 * capacity ht \<and> capacity ht - capacity ht div 4 < count ht + 1"
  proof (cases "count ?h > capacity ?h - capacity ?h div 4")
    case True
    from resize_spec[OF st, unfolded eq] obtain h where h: "resize ?h = Ok h" "ht_struct h" "capacity h = 2 * capacity ht" "count h = count ht + 1"
      "occupied h \<le> occupied ht" "ht_lookup h = ht_lookup ht" by auto
    have "count h \<le> capacity h - capacity h div 4" using inv(2,4) h(3,4) by linarith
    with True h inv show ?thesis by (intro that[of h]) auto
  next
    case False
    with st inv eq show ?thesis by (intro that[of ?h]) auto
  qed
  have "occupied h1 < capacity h1" using h1(3-6) by linarith
  from store_spec[OF h1(2) assms(2) this, of v] obtain h2 where
    h2: "store h1 k (Some v) = Ok h2" "ht_struct h2" "capacity h2 = capacity h1" "count h2 = count h1"
      "occupied h2 \<le> occupied h1 + 1" "ht_lookup h2 = (ht_lookup h1)(k \<mapsto> v)" by blast
  have "HashtabPut ht k v = Ok h2" unfolding HashtabPut_def Let_def h1(1) using h2(1) by simp
  moreover have "ht_inv h2" using h2 h1 by (simp add: ht_inv_def)
  ultimately show ?thesis using h2(3,4,6) h1(4,7,8) by auto
qed

lemma HashtabPut_spec:
  "ht_inv ht \<Longrightarrow> k \<noteq> HASHTAB_NOT_KEY \<Longrightarrow>
     \<exists>ht'. HashtabPut ht k v = Ok ht' \<and> ht_inv ht' \<and> ht_lookup ht' = (ht_lookup ht)(k \<mapsto> v)"
  using HashtabPut_full[of ht k v] by auto

interpretation hashtab: map_read ht_inv ht_lookup "\<lambda>k. k \<noteq> HASHTAB_NOT_KEY" HashtabPut
  "\<lambda>ht k. (case HashtabGet ht k of None \<Rightarrow> Err NullDeref | Some v \<Rightarrow> Ok v)"
  by unfold_locales (auto simp: HashtabPut_spec, auto simp: ht_inv_def HashtabGet_lookup)

lemma ht_inv_create:
  assumes "2 \<le> n"
  shows "ht_inv (HashtabCreate n :: 'v hashtab) \<and> ht_lookup (HashtabCreate n :: 'v hashtab) = Map.empty"
proof -
  note assms
  then have "(2::nat) ^ 2 \<le> 2 ^ n" by (rule power_increasing) simp
  then have "(4::nat) \<le> 2 ^ n" by simp
  moreover have "ht_struct (HashtabCreate n :: 'v hashtab)" unfolding HashtabCreate_def by (rule ht_struct_empty)
  ultimately show ?thesis
    using ht_lookup_live[of "HashtabCreate n :: 'v hashtab"]
    by (simp add: ht_inv_def occupied_def HashtabCreate_def live_def)
qed

section \<open>Machine integers\<close>

text \<open>
  The same operations on the \<open>int\<close> fields and variables of the code: every sum, shift and increment is
  checked for its range, every index for the bounds of the table. They return what the operations on natural
  numbers return as long as the capacity is at most \<open>2 ^ 28\<close>, and the capacity stays below this bound for
  \<open>2 ^ 26\<close> puts.
\<close>

record 'v int_hashtab =
  icap :: int
  icount :: int
  itable :: "'v hashtab_entry list"

definition slot_at :: "'a list \<Rightarrow> int \<Rightarrow> 'a res" where
  "slot_at es i = (if 0 \<le> i \<and> i < int (length es) then Ok (es ! nat i) else Err OutOfBounds)"

definition HASH_K_I_int :: "int \<Rightarrow> int \<Rightarrow> int \<Rightarrow> int res" where
  "HASH_K_I_int sz key i = bindR (c_int (key + i)) (\<lambda>k. bindR (c_int (sz - 1)) (\<lambda>m. Ok (semiring_bit_operations_class.and k m)))"

fun probe_put_int :: "nat \<Rightarrow> 'v int_hashtab \<Rightarrow> int \<Rightarrow> int \<Rightarrow> int \<Rightarrow> int option res" where
  "probe_put_int 0 ht key pos i = Err NoProgress"
| "probe_put_int (Suc n) ht key pos i =
     (if i < icap ht then
        bindR (HASH_K_I_int (icap ht) pos i) (\<lambda>pos.
        bindR (slot_at (itable ht) pos) (\<lambda>e.
        if fst e = HASHTAB_NOT_KEY \<or> fst e = key then Ok (Some pos)
        else bindR (c_int (i + 1)) (\<lambda>i. probe_put_int n ht key pos i)))
      else Ok None)"

definition store_int :: "'v int_hashtab \<Rightarrow> int \<Rightarrow> 'v option \<Rightarrow> 'v int_hashtab res" where
  "store_int ht key value =
     bindR (probe_put_int (nat (icap ht) + 1) ht key key 0) (\<lambda>hte.
     case hte of None \<Rightarrow> Err AssertFail | Some p \<Rightarrow> Ok (ht\<lparr>itable := (itable ht)[nat p := (key, value)]\<rparr>))"

definition rehash_step_int :: "'v hashtab_entry list \<Rightarrow> 'v int_hashtab \<Rightarrow> nat \<Rightarrow> 'v int_hashtab res" where
  "rehash_step_int oldtab ht i =
     bindR (slot_at oldtab (int i)) (\<lambda>e. if fst e \<noteq> HASHTAB_NOT_KEY then store_int ht (fst e) (snd e) else Ok ht)"

definition resize_int :: "'v int_hashtab \<Rightarrow> 'v int_hashtab res" where
  "resize_int ht =
     bindR (c_int (icap ht * 2)) (\<lambda>cap.
     foldR (rehash_step_int (itable ht)) (ht\<lparr>icap := cap, itable := replicate (nat cap) (HASHTAB_NOT_KEY, None)\<rparr>) [0..<nat (icap ht)])"

definition HashtabPut_int :: "'v int_hashtab \<Rightarrow> int \<Rightarrow> 'v \<Rightarrow> 'v int_hashtab res" where
  "HashtabPut_int ht key value =
     bindR (c_int (icount ht + 1)) (\<lambda>c. let ht = ht\<lparr>icount := c\<rparr> in
     bindR (if icount ht > icap ht - icap ht div 4 then resize_int ht else Ok ht) (\<lambda>ht.
     store_int ht key (Some value)))"

fun probe_get_int :: "nat \<Rightarrow> 'v int_hashtab \<Rightarrow> int \<Rightarrow> int \<Rightarrow> int \<Rightarrow> int option res" where
  "probe_get_int 0 ht key pos i = Err NoProgress"
| "probe_get_int (Suc n) ht key pos i =
     (if i < icap ht then
        bindR (HASH_K_I_int (icap ht) pos i) (\<lambda>pos.
        bindR (slot_at (itable ht) pos) (\<lambda>e.
        if fst e = HASHTAB_NOT_KEY then Ok None
        else if fst e = key then Ok (Some pos)
        else bindR (c_int (i + 1)) (\<lambda>i. probe_get_int n ht key pos i)))
      else Ok None)"

definition HashtabGet_int :: "'v int_hashtab \<Rightarrow> int \<Rightarrow> 'v option res" where
  "HashtabGet_int ht key =
     bindR (probe_get_int (nat (icap ht) + 1) ht key key 0) (\<lambda>p.
     case p of None \<Rightarrow> Ok None | Some p \<Rightarrow> map_res snd (slot_at (itable ht) p))"

text \<open>The shift \<open>1 << init_cap2\<close> is the power of two, if this is an \<open>int\<close>.\<close>

definition HashtabCreate_int :: "nat \<Rightarrow> 'v int_hashtab res" where
  "HashtabCreate_int init_cap2 =
     bindR (c_int (2 ^ init_cap2)) (\<lambda>cap. Ok \<lparr>icap = cap, icount = 0, itable = replicate (nat cap) (HASHTAB_NOT_KEY, None)\<rparr>)"

definition int_hashtab_of :: "'v hashtab \<Rightarrow> 'v int_hashtab" where
  "int_hashtab_of ht = \<lparr>icap = int (capacity ht), icount = int (count ht), itable = table ht\<rparr>"

lemma int_hashtab_of_simps [simp]:
  "icap (int_hashtab_of ht) = int (capacity ht)" "icount (int_hashtab_of ht) = int (count ht)" "itable (int_hashtab_of ht) = table ht"
  by (simp_all add: int_hashtab_of_def)

text \<open>The tables on which the two versions agree: a power of two of slots, and keys that are \<open>int\<close>s.\<close>

definition int_sized :: "'v hashtab \<Rightarrow> bool" where
  "int_sized ht \<longleftrightarrow> (\<exists>n. capacity ht = 2 ^ n) \<and> capacity ht \<le> 2 ^ 28 \<and> length (table ht) = capacity ht \<and> (\<forall>e\<in>set (table ht). int_range (fst e))"

lemma int_range_small: "0 \<le> v \<Longrightarrow> v \<le> 2 ^ 30 \<Longrightarrow> int_range v"
  by (simp add: int_range_def)

lemma HASH_K_I_int_eq:
  assumes "int_sized ht" and "int_range (pos + int i)"
  shows "HASH_K_I_int (int (capacity ht)) pos (int i) = Ok (int (HASH_K_I (capacity ht) pos i))"
    and "HASH_K_I (capacity ht) pos i < capacity ht"
proof -
  obtain n where n: "capacity ht = 2 ^ n" "capacity ht \<le> 2 ^ 28" using assms(1) by (auto simp: int_sized_def)
  have m: "int_range (int (capacity ht) - 1)" by (rule int_range_small) (use n(2) in simp_all, use n(1) in simp)
  have eq: "HASH_K_I (capacity ht) pos i = nat ((pos + int i) mod 2 ^ n)" unfolding HASH_K_I_def n(1) by (rule MOD_SIZE_mod)
  then show lt: "HASH_K_I (capacity ht) pos i < capacity ht" using n(1) by (simp add: nat_less_iff)
  have "0 \<le> (pos + int i) mod 2 ^ n" by simp
  moreover have "semiring_bit_operations_class.and (pos + int i) (int (capacity ht) - 1) = (pos + int i) mod 2 ^ n"
    using take_bit_eq_mask[of n "pos + int i"] n(1) by (simp add: take_bit_eq_mod mask_eq_exp_minus_1)
  ultimately show "HASH_K_I_int (int (capacity ht)) pos (int i) = Ok (int (HASH_K_I (capacity ht) pos i))"
    unfolding HASH_K_I_int_def c_int_in_range[OF assms(2)] c_int_in_range[OF m] eq by simp
qed

lemma slot_at_int: "i < length es \<Longrightarrow> slot_at es (int i) = Ok (es ! i)"
  by (simp add: slot_at_def)

text \<open>One probe, for both loops.\<close>

lemma probe_int:
  assumes "int_sized ht" and "int_range (pos + int i)"
  shows "bindR (HASH_K_I_int (icap (int_hashtab_of ht)) pos (int i)) (\<lambda>pos. bindR (slot_at (itable (int_hashtab_of ht)) pos) (f pos)) =
     f (int (HASH_K_I (capacity ht) pos i)) (table ht ! HASH_K_I (capacity ht) pos i)"
proof -
  note h = HASH_K_I_int_eq[OF assms]
  have "HASH_K_I (capacity ht) pos i < length (table ht)" using h(2) assms(1) by (simp add: int_sized_def)
  then show ?thesis unfolding int_hashtab_of_simps h(1) bindR.simps by (simp only: slot_at_int bindR.simps)
qed

lemma probe_next:
  assumes "int_sized ht" and "int_range (pos + int i)" and "i < capacity ht"
  shows "c_int (int i + 1) = Ok (int (Suc i))" and "int_range (int (HASH_K_I (capacity ht) pos i) + int (Suc i))"
proof -
  have cap: "capacity ht \<le> 2 ^ 28" using assms(1) by (simp add: int_sized_def)
  have "int_range (int i + 1)" by (rule int_range_small) (use assms(3) cap in simp_all)
  from c_int_in_range[OF this] show "c_int (int i + 1) = Ok (int (Suc i))" by (simp add: add.commute)
  show "int_range (int (HASH_K_I (capacity ht) pos i) + int (Suc i))"
    by (rule int_range_small) (use HASH_K_I_int_eq(2)[OF assms(1,2)] assms(3) cap in simp_all)
qed

lemma probe_put_refines:
  "int_sized ht \<Longrightarrow> int_range (pos + int i) \<Longrightarrow> i + n = capacity ht \<Longrightarrow>
     probe_put_int (Suc n) (int_hashtab_of ht) key pos (int i) = Ok (map_option int (probe_put ht key pos i n))"
proof (induction n arbitrary: pos i)
  case (Suc n)
  then have i: "i < capacity ht" by simp
  note p = probe_int[OF Suc.prems(1,2)] probe_next[OF Suc.prems(1,2) i]
  have "Suc i + n = capacity ht" using Suc.prems(3) by simp
  note ih = Suc.IH[OF Suc.prems(1) p(3) this]
  have "int i < icap (int_hashtab_of ht)" using i by simp
  then show ?case unfolding probe_put_int.simps(2)[of "Suc n"] p(1) p(2) bindR.simps ih by (simp add: Let_def)
qed simp

lemma probe_get_refines:
  "int_sized ht \<Longrightarrow> int_range (pos + int i) \<Longrightarrow> i + n = capacity ht \<Longrightarrow>
     probe_get_int (Suc n) (int_hashtab_of ht) key pos (int i) = Ok (map_option int (probe_get ht key pos i n))"
proof (induction n arbitrary: pos i)
  case (Suc n)
  then have i: "i < capacity ht" by simp
  note p = probe_int[OF Suc.prems(1,2)] probe_next[OF Suc.prems(1,2) i]
  have "Suc i + n = capacity ht" using Suc.prems(3) by simp
  note ih = Suc.IH[OF Suc.prems(1) p(3) this]
  have "int i < icap (int_hashtab_of ht)" using i by simp
  then show ?case unfolding probe_get_int.simps(2)[of "Suc n"] p(1) p(2) bindR.simps ih by (simp add: Let_def)
qed simp

lemma store_refines:
  assumes "int_sized ht" and "int_range key"
  shows "store_int (int_hashtab_of ht) key v = map_res int_hashtab_of (store ht key v)" and "store ht key v = Ok ht' \<Longrightarrow> int_sized ht'"
proof -
  have "probe_put_int (nat (icap (int_hashtab_of ht)) + 1) (int_hashtab_of ht) key key 0 = Ok (map_option int (ProbePut ht key))"
    using probe_put_refines[OF assms(1), of key 0 "capacity ht" key] assms(2) by (simp add: ProbePut_def)
  then show "store_int (int_hashtab_of ht) key v = map_res int_hashtab_of (store ht key v)"
    by (cases "ProbePut ht key") (simp_all add: store_int_def store_def int_hashtab_of_def)
  show "store ht key v = Ok ht' \<Longrightarrow> int_sized ht'"
    using assms by (auto simp: store_def int_sized_def split: option.splits dest!: set_update_subset_insert[THEN subsetD])
qed

lemma rehash_refines:
  assumes "\<forall>e\<in>set old. int_range (fst e)"
  shows "i + n = length old \<Longrightarrow> int_sized ht \<Longrightarrow> foldR (rehash_step_int old) (int_hashtab_of ht) [i..<i + n] = map_res int_hashtab_of (foldR rehash_step ht (drop i old))
     \<and> (\<forall>ht'. foldR rehash_step ht (drop i old) = Ok ht' \<longrightarrow> int_sized ht')"
proof (induction n arbitrary: i ht)
  case (Suc n)
  then have i: "i < length old" by simp
  have u: "[i..<i + Suc n] = i # [Suc i..<Suc i + n]" by (simp add: upt_conv_Cons)
  have d: "drop i old = old ! i # drop (Suc i) old" using i by (simp add: Cons_nth_drop_Suc)
  have r: "int_range (fst (old ! i))" using assms i by simp
  have st: "rehash_step_int old (int_hashtab_of ht) i = map_res int_hashtab_of (rehash_step ht (old ! i))"
    using store_refines(1)[OF Suc.prems(2) r] by (simp add: rehash_step_int_def rehash_step_def slot_at_int[OF i])
  have "Suc i + n = length old" using Suc.prems(1) by simp
  note ih = Suc.IH[OF this]
  show ?case
  proof (cases "rehash_step ht (old ! i)")
    case (Err e)
    then show ?thesis unfolding u d foldR.simps st by simp
  next
    case (Ok h)
    then have "int_sized h" using store_refines(2)[OF Suc.prems(2) r] Suc.prems(2) by (auto simp: rehash_step_def split: if_splits)
    from ih[OF this] show ?thesis unfolding u d foldR.simps st Ok by simp
  qed
qed simp

lemma resize_refines:
  assumes "int_sized ht" and "2 * capacity ht \<le> 2 ^ 28"
  shows "resize_int (int_hashtab_of ht) = map_res int_hashtab_of (resize ht)" and "resize ht = Ok ht' \<Longrightarrow> int_sized ht'"
proof -
  have "int_range (int (capacity ht) * 2)" by (rule int_range_small) (use assms(2) in simp_all)
  note c = c_int_in_range[OF this]
  let ?e = "ht\<lparr>capacity := 2 * capacity ht, table := replicate (2 * capacity ht) (HASHTAB_NOT_KEY, None)\<rparr>"
  obtain n where "capacity ht = 2 ^ n" using assms(1) by (auto simp: int_sized_def)
  then have "\<exists>n. 2 * capacity ht = 2 ^ n" by (intro exI[of _ "Suc n"]) simp
  then have e: "int_sized ?e" using assms(2) by (simp add: int_sized_def HASHTAB_NOT_KEY_def int_range_def)
  have start: "(int_hashtab_of ht)\<lparr>icap := int (capacity ht) * 2, itable := replicate (nat (int (capacity ht) * 2)) (HASHTAB_NOT_KEY, None)\<rparr> = int_hashtab_of ?e"
    by (simp add: int_hashtab_of_def nat_mult_distrib mult.commute)
  have old: "\<forall>e\<in>set (table ht). int_range (fst e)" "length (table ht) = capacity ht" using assms(1) by (simp_all add: int_sized_def)
  note r = rehash_refines[OF old(1), of 0 "capacity ht" ?e]
  show "resize_int (int_hashtab_of ht) = map_res int_hashtab_of (resize ht)"
    unfolding resize_int_def int_hashtab_of_simps c bindR.simps start using r e old(2) by (simp add: resize_def)
  show "resize ht = Ok ht' \<Longrightarrow> int_sized ht'" using r e old(2) by (simp add: resize_def)
qed

lemma put_int_refines:
  assumes "int_sized ht" and "int_range key" and "count ht < 2 ^ 28"
    and "count ht + 1 > capacity ht - capacity ht div 4 \<Longrightarrow> 2 * capacity ht \<le> 2 ^ 28"
  shows "HashtabPut_int (int_hashtab_of ht) key v = map_res int_hashtab_of (HashtabPut ht key v)" and "HashtabPut ht key v = Ok ht' \<Longrightarrow> int_sized ht'"
proof -
  let ?h = "ht\<lparr>count := count ht + 1\<rparr>"
  have h: "int_sized ?h" using assms(1) by (simp add: int_sized_def)
  have "int_range (int (count ht) + 1)" by (rule int_range_small) (use assms(3) in simp_all)
  note c = c_int_in_range[OF this]
  have start: "(int_hashtab_of ht)\<lparr>icount := int (count ht) + 1\<rparr> = int_hashtab_of ?h" by (simp add: int_hashtab_of_def)
  have full: "int (count ht + 1) > int (capacity ht) - int (capacity ht) div 4 \<longleftrightarrow> count ht + 1 > capacity ht - capacity ht div 4" by linarith
  define g where "g = (if count ht + 1 > capacity ht - capacity ht div 4 then resize ?h else Ok ?h)"
  have g: "(if int (count ?h) > int (capacity ?h) - int (capacity ?h) div 4 then resize_int (int_hashtab_of ?h) else Ok (int_hashtab_of ?h)) = map_res int_hashtab_of g"
    using full resize_refines(1)[OF h] assms(4) by (auto simp: g_def)
  have sz: "g = Ok h' \<Longrightarrow> int_sized h'" for h' using resize_refines(2)[OF h] h assms(4) by (auto simp: g_def split: if_splits)
  have put: "HashtabPut ht key v = bindR g (\<lambda>ht. store ht key (Some v))" by (simp add: HashtabPut_def g_def)
  show "HashtabPut_int (int_hashtab_of ht) key v = map_res int_hashtab_of (HashtabPut ht key v)"
    unfolding HashtabPut_int_def int_hashtab_of_simps(2) c bindR.simps start Let_def
    unfolding int_hashtab_of_simps g put
    by (cases g) (simp_all add: store_refines(1)[OF sz assms(2)])
  show "HashtabPut ht key v = Ok ht' \<Longrightarrow> int_sized ht'" unfolding put using sz store_refines(2)[OF _ assms(2)] by (cases g) auto
qed

text \<open>The capacity is at most the first one, or less than \<open>8 / 3\<close> of the number of puts.\<close>

definition int_table :: "nat \<Rightarrow> 'v hashtab \<Rightarrow> bool" where
  "int_table n ht \<longleftrightarrow> ht_inv ht \<and> int_sized ht \<and> 3 * capacity ht \<le> max (3 * 2 ^ n) (8 * count ht)"

lemma put_int_step:
  assumes "int_table n ht" and "n \<le> 28" and "count ht < 2 ^ 26" and "int_range k" and "k \<noteq> HASHTAB_NOT_KEY"
  shows "\<exists>ht'. HashtabPut ht k v = Ok ht' \<and> HashtabPut_int (int_hashtab_of ht) k v = Ok (int_hashtab_of ht') \<and>
     int_table n ht' \<and> count ht' = count ht + 1 \<and> ht_lookup ht' = (ht_lookup ht)(k \<mapsto> v)"
proof -
  have inv: "ht_inv ht" "int_sized ht" "3 * capacity ht \<le> max (3 * 2 ^ n) (8 * count ht)" using assms(1) by (simp_all add: int_table_def)
  obtain ht' where h: "HashtabPut ht k v = Ok ht'" "ht_inv ht'" "count ht' = count ht + 1" "ht_lookup ht' = (ht_lookup ht)(k \<mapsto> v)"
    "capacity ht' = capacity ht \<or> capacity ht' = 2 * capacity ht \<and> capacity ht - capacity ht div 4 < count ht + 1"
    using HashtabPut_full[OF inv(1) assms(5)] by blast
  have cap: "2 * capacity ht \<le> 2 ^ 28" if "count ht + 1 > capacity ht - capacity ht div 4" using that assms(3) by simp
  have "3 * capacity ht' \<le> max (3 * 2 ^ n) (8 * count ht')" using inv(3) h(3,5) by (auto simp: max_def split: if_splits)
  moreover note put_int_refines[OF inv(2) assms(4) _ cap]
  moreover have "count ht < 2 ^ 28" using assms(3) by simp
  ultimately show ?thesis using h by (intro exI[of _ ht']) (simp add: int_table_def)
qed

lemma puts_int:
  "int_table n ht \<Longrightarrow> n \<le> 28 \<Longrightarrow> count ht + length kvs \<le> 2 ^ 26 \<Longrightarrow> \<forall>(k, v)\<in>set kvs. int_range k \<and> k \<noteq> HASHTAB_NOT_KEY \<Longrightarrow>
     \<exists>ht'. foldR (\<lambda>ht (k, v). HashtabPut_int ht k v) (int_hashtab_of ht) kvs = Ok (int_hashtab_of ht') \<and> int_table n ht' \<and>
       ht_lookup ht' = ht_lookup ht ++ map_of (rev kvs)"
proof (induction kvs arbitrary: ht)
  case (Cons kv kvs)
  obtain k v where kv: "kv = (k, v)" by (cases kv)
  with Cons.prems obtain h where h: "HashtabPut_int (int_hashtab_of ht) k v = Ok (int_hashtab_of h)" "int_table n h" "count h = count ht + 1"
    "ht_lookup h = (ht_lookup ht)(k \<mapsto> v)"
    using put_int_step[of n ht k v] by auto
  have "count h + length kvs \<le> 2 ^ 26" using Cons.prems(3) h(3) by simp
  from Cons.IH[OF h(2) Cons.prems(2) this] Cons.prems(4) obtain h' where h': "foldR (\<lambda>ht (k, v). HashtabPut_int ht k v) (int_hashtab_of h) kvs = Ok (int_hashtab_of h')"
    "int_table n h'" "ht_lookup h' = ht_lookup h ++ map_of (rev kvs)" by auto
  then show ?case using h by (intro exI[of _ h']) (simp add: kv)
next
  case Nil
  then show ?case by (intro exI[of _ ht]) simp
qed

lemma create_int:
  assumes "2 \<le> n" and "n \<le> 28"
  shows "HashtabCreate_int n = Ok (int_hashtab_of (HashtabCreate n))" and "int_table n (HashtabCreate n)"
proof -
  have le: "(2 :: nat) ^ n \<le> 2 ^ 28" using assms(2) by (rule power_increasing) simp
  then have "(2 :: int) ^ n \<le> 2 ^ 28" using assms(2) by (intro power_increasing) simp_all
  then have "int_range (2 ^ n)" by (intro int_range_small) simp_all
  from c_int_in_range[OF this] show "HashtabCreate_int n = Ok (int_hashtab_of (HashtabCreate n))"
    by (simp add: HashtabCreate_int_def HashtabCreate_def int_hashtab_of_def nat_power_eq)
  show "int_table n (HashtabCreate n)"
    using ht_inv_create[OF assms(1)] le by (auto simp: int_table_def int_sized_def HashtabCreate_def HASHTAB_NOT_KEY_def int_range_def)
qed

lemma get_int:
  assumes "int_table n ht" and "int_range k"
  shows "HashtabGet_int (int_hashtab_of ht) k = Ok (ht_lookup ht k)"
proof -
  have sz: "int_sized ht" and st: "ht_struct ht" using assms(1) by (simp_all add: int_table_def ht_inv_def)
  have g: "probe_get_int (nat (icap (int_hashtab_of ht)) + 1) (int_hashtab_of ht) k k 0 = Ok (map_option int (probe_get ht k k 0 (capacity ht)))"
    using probe_get_refines[OF sz, of k 0 "capacity ht" k] assms(2) by simp
  have lt: "p < length (table ht)" if "probe_get ht k k 0 (capacity ht) = Some p" for p
  proof -
    obtain c where c: "capacity ht = 2 ^ c" "length (table ht) = capacity ht" using sz by (auto simp: int_sized_def)
    from that show ?thesis using probe_get_first[OF c(1), of 0 k k "capacity ht"] probe_pos_lt[of "capacity ht" k] c
      by (auto split: list.splits if_splits)
  qed
  show ?thesis unfolding HashtabGet_int_def g bindR.simps HashtabGet_lookup[OF st, symmetric] HashtabGet_def
    using lt by (auto simp: slot_at_int split: option.splits)
qed

section \<open>Properties\<close>

text \<open>
  For a capacity that is a power of two the quadratic probing of a put is complete: it fails to
  find a slot exactly when every slot of the table is taken by another key.
\<close>

lemma hashtab_probe_complete:
  assumes "capacity ht = 2 ^ n"
  shows "ProbePut ht key = None \<longleftrightarrow>
     (\<forall>p<capacity ht. fst (table ht ! p) \<noteq> HASHTAB_NOT_KEY \<and> fst (table ht ! p) \<noteq> key)"
proof -
  let ?pos = "probe_pos (capacity ht) key"
  have "ProbePut ht key = None \<longleftrightarrow> (\<forall>j<capacity ht. slot_key ht (?pos j) \<notin> {HASHTAB_NOT_KEY, key})"
    unfolding ProbePut_def using probe_put_first[OF assms, of 0 key key "capacity ht"]
    by (auto simp: filter_empty_conv split: list.splits dest!: filter_upt_first)
  also have "\<dots> \<longleftrightarrow> (\<forall>p\<in>?pos ` {..<capacity ht}. slot_key ht p \<notin> {HASHTAB_NOT_KEY, key})" by auto
  also have "?pos ` {..<capacity ht} = {..<capacity ht}"
    using probe_pos_bij[of n key] assms by (simp add: bij_betw_def)
  finally show ?thesis by (simp add: slot_key_def Ball_def)
qed

text \<open>
  C34. Up to \<open>2 ^ 26\<close> puts with \<open>int\<close> keys other than -1 into a fresh table with a capacity of 4 to \<open>2 ^ 28\<close>
  run, across all resizes, without an integer overflow, an access outside of the table or a failed assertion that a
  slot was found, and then a get with any \<open>int\<close> key returns the value put last under this key, and NULL for a key never put.
\<close>

theorem hashtab_put_get:
  fixes kvs :: "(int \<times> 'v) list"
  assumes "2 \<le> n" and "n \<le> 28" and "length kvs \<le> 2 ^ 26" and "\<forall>(k, v)\<in>set kvs. int_range k \<and> k \<noteq> HASHTAB_NOT_KEY"
  shows "\<exists>ht. bindR (HashtabCreate_int n) (\<lambda>ht. foldR (\<lambda>ht (k, v). HashtabPut_int ht k v) ht kvs) = Ok ht \<and>
     (\<forall>k. int_range k \<longrightarrow> HashtabGet_int ht k = Ok (map_of (rev kvs) k))"
proof -
  have "count (HashtabCreate n :: 'v hashtab) = 0" by (simp add: HashtabCreate_def)
  then obtain ht where h: "foldR (\<lambda>ht (k, v). HashtabPut_int ht k v) (int_hashtab_of (HashtabCreate n)) kvs = Ok (int_hashtab_of ht)"
    "int_table n ht" "ht_lookup ht = ht_lookup (HashtabCreate n) ++ map_of (rev kvs)"
    using puts_int[OF create_int(2)[OF assms(1,2)] assms(2) _ assms(4)] assms(3) by auto
  have "bindR (HashtabCreate_int n) (\<lambda>ht. foldR (\<lambda>ht (k, v). HashtabPut_int ht k v) ht kvs) = Ok (int_hashtab_of ht)"
    unfolding create_int(1)[OF assms(1,2)] bindR.simps by (rule h(1))
  moreover have "int_range k \<Longrightarrow> HashtabGet_int (int_hashtab_of ht) k = Ok (map_of (rev kvs) k)" for k
    using get_int[OF h(2)] h(3) ht_inv_create[OF assms(1), where 'v = 'v] by simp
  ultimately show ?thesis by blast
qed

theorem hashtab_put_get_witness:
  "\<exists>ht. bindR (HashtabCreate_int 2) (\<lambda>ht. foldR (\<lambda>ht (k, v). HashtabPut_int ht k v) ht [(0 :: int, 10 :: nat), (4, 11), (-8, 12), (0, 13)]) = Ok ht \<and>
     (\<forall>k. int_range k \<longrightarrow> HashtabGet_int ht k = Ok (map_of (rev [(0, 10), (4, 11), (-8, 12), (0, 13)]) k))"
  by (rule hashtab_put_get) (simp_all add: HASHTAB_NOT_KEY_def int_range_def)

text \<open>
  The key -1 marks a free slot: a get with it returns NULL in every table, also directly
  after a put with it.
\<close>

lemma hashtab_key_minus_one: "HashtabGet ht (-1) = None"
proof -
  have "probe_get ht (-1) pos i n = None" for pos i n
    by (induction n arbitrary: pos i) (auto simp: HASHTAB_NOT_KEY_def Let_def)
  then show ?thesis by (simp add: HashtabGet_def)
qed

end
