(* ===== verification/Hashtable.thy ===== *)
theory Hashtable
  imports Prelude
begin

text \<open>
  The chained hash table (\<open>runtime/stream/utils/hashtable.c\<close>): an array of linked chains indexed by
  the key modulo the table size. A put refuses a key that is present. A chain is the list of its
  entries; \<open>cht_lookup\<close> is the map the table stands for.
\<close>

section \<open>The code\<close>

type_synonym key64 = "64 word"

record 'v hashtable =
  hsize :: nat
  elements :: nat
  buckets :: "(key64 \<times> 'v) list list"
  compare_fun :: "'v \<Rightarrow> 'v \<Rightarrow> bool"

definition SNET_HASHTABLE_SUCCESS :: int where "SNET_HASHTABLE_SUCCESS = 0"
definition SNET_HASHTABLE_ERROR :: int where "SNET_HASHTABLE_ERROR = 1"
definition UINT64_MAX :: key64 where "UINT64_MAX = -1"

definition SNetHashtableHash :: "'v hashtable \<Rightarrow> key64 \<Rightarrow> nat" where
  "SNetHashtableHash t key = unat key mod hsize t"

definition SNetHashtableCreate :: "int \<Rightarrow> ('v \<Rightarrow> 'v \<Rightarrow> bool) \<Rightarrow> 'v hashtable option" where
  "SNetHashtableCreate sz cmp =
     (if sz \<le> 0 then None
      else Some \<lparr>hsize = nat sz, elements = 0, buckets = replicate (nat sz) [], compare_fun = cmp\<rparr>)"

text \<open>\<open>SNetHashtableDestroy\<close>: the number of entries it frees, chain by chain.\<close>

definition SNetHashtableDestroy :: "'v hashtable \<Rightarrow> nat" where
  "SNetHashtableDestroy t = (\<Sum>c\<leftarrow>buckets t. length c)"

definition SNetHashtableSize :: "'v hashtable \<Rightarrow> nat" where
  "SNetHashtableSize t = elements t"

text \<open>Walking a chain until the key is found.\<close>

fun chain_find :: "(key64 \<times> 'v) list \<Rightarrow> key64 \<Rightarrow> 'v option" where
  "chain_find [] key = None"
| "chain_find ((k, v) # c) key = (if k = key then Some v else chain_find c key)"

definition SNetHashtableGet :: "'v hashtable \<Rightarrow> key64 \<Rightarrow> 'v option" where
  "SNetHashtableGet t key =
     (if elements t > 0 then chain_find (buckets t ! SNetHashtableHash t key) key else None)"

fun chain_find_value :: "('v \<Rightarrow> 'v \<Rightarrow> bool) \<Rightarrow> (key64 \<times> 'v) list \<Rightarrow> 'v \<Rightarrow> key64 option" where
  "chain_find_value cmp [] value = None"
| "chain_find_value cmp ((k, v) # c) value = (if cmp value v then Some k else chain_find_value cmp c value)"

fun chains_find_value :: "('v \<Rightarrow> 'v \<Rightarrow> bool) \<Rightarrow> (key64 \<times> 'v) list list \<Rightarrow> 'v \<Rightarrow> key64" where
  "chains_find_value cmp [] value = UINT64_MAX"
| "chains_find_value cmp (c # cs) value =
     (case chain_find_value cmp c value of Some k \<Rightarrow> k | None \<Rightarrow> chains_find_value cmp cs value)"

definition SNetHashtableGetKey :: "'v hashtable \<Rightarrow> 'v \<Rightarrow> key64" where
  "SNetHashtableGetKey t value =
     (if elements t > 0 then chains_find_value (compare_fun t) (buckets t) value else UINT64_MAX)"

text \<open>The walk of a put: \<open>None\<close> when the key is met, else the chain with the entry at its end.\<close>

fun chain_append :: "(key64 \<times> 'v) list \<Rightarrow> key64 \<Rightarrow> 'v \<Rightarrow> (key64 \<times> 'v) list option" where
  "chain_append [] key value = Some [(key, value)]"
| "chain_append ((k, v) # c) key value =
     (if k = key then None else map_option ((#) (k, v)) (chain_append c key value))"

definition SNetHashtablePut :: "'v hashtable \<Rightarrow> key64 \<Rightarrow> 'v \<Rightarrow> int \<times> 'v hashtable" where
  "SNetHashtablePut t key value =
     (let i = SNetHashtableHash t key in
      case chain_append (buckets t ! i) key value of
        None \<Rightarrow> (SNET_HASHTABLE_ERROR, t)
      | Some c \<Rightarrow> (SNET_HASHTABLE_SUCCESS, t\<lparr>buckets := (buckets t)[i := c], elements := elements t + 1\<rparr>))"

fun chain_replace :: "(key64 \<times> 'v) list \<Rightarrow> key64 \<Rightarrow> 'v \<Rightarrow> (key64 \<times> 'v) list" where
  "chain_replace [] key value = []"
| "chain_replace ((k, v) # c) key value = (if k = key then (k, value) # c else (k, v) # chain_replace c key value)"

definition SNetHashtableReplace :: "'v hashtable \<Rightarrow> key64 \<Rightarrow> 'v \<Rightarrow> 'v option \<times> 'v hashtable" where
  "SNetHashtableReplace t key new_value =
     (let i = SNetHashtableHash t key in
      case chain_find (buckets t ! i) key of
        None \<Rightarrow> (None, t)
      | Some v \<Rightarrow> (Some v, t\<lparr>buckets := (buckets t)[i := chain_replace (buckets t ! i) key new_value]\<rparr>))"

fun chain_remove :: "(key64 \<times> 'v) list \<Rightarrow> key64 \<Rightarrow> (key64 \<times> 'v) list" where
  "chain_remove [] key = []"
| "chain_remove ((k, v) # c) key = (if k = key then c else (k, v) # chain_remove c key)"

definition SNetHashtableRemove :: "'v hashtable \<Rightarrow> key64 \<Rightarrow> 'v option \<times> 'v hashtable" where
  "SNetHashtableRemove t key =
     (let i = SNetHashtableHash t key in
      case chain_find (buckets t ! i) key of
        None \<Rightarrow> (None, t)
      | Some v \<Rightarrow> (Some v, t\<lparr>buckets := (buckets t)[i := chain_remove (buckets t ! i) key], elements := elements t - 1\<rparr>))"

section \<open>The table as a map\<close>

definition cht_inv :: "'v hashtable \<Rightarrow> bool" where
  "cht_inv t \<longleftrightarrow> 0 < hsize t \<and> length (buckets t) = hsize t \<and>
     (\<forall>i<hsize t. distinct (map fst (buckets t ! i)) \<and> (\<forall>k\<in>fst ` set (buckets t ! i). SNetHashtableHash t k = i)) \<and>
     elements t = (\<Sum>c\<leftarrow>buckets t. length c)"

definition cht_lookup :: "'v hashtable \<Rightarrow> key64 \<Rightarrow> 'v option" where
  "cht_lookup t k = map_of (buckets t ! SNetHashtableHash t k) k"

lemma chain_find_map_of: "chain_find c k = map_of c k"
  by (induction c k rule: chain_find.induct) auto

lemma hash_lt: "cht_inv t \<Longrightarrow> SNetHashtableHash t k < hsize t"
  by (simp add: cht_inv_def SNetHashtableHash_def)

lemma chain_append_spec: "chain_append c k v = (if k \<in> fst ` set c then None else Some (c @ [(k, v)]))"
  by (induction c k v rule: chain_append.induct) auto

lemma chain_replace_spec:
  "fst ` set (chain_replace c k v) = fst ` set c" "length (chain_replace c k v) = length c"
  "map fst (chain_replace c k v) = map fst c"
  by (induction c k v rule: chain_replace.induct) auto

lemma map_of_chain_replace: "k \<in> fst ` set c \<Longrightarrow> map_of (chain_replace c k v) = (map_of c)(k \<mapsto> v)"
proof (induction c k v rule: chain_replace.induct)
  case (2 a v c key w)
  then show ?case by (cases "a = key") (auto simp: fun_upd_twist)
qed simp

lemma chain_remove_spec:
  "distinct (map fst c) \<Longrightarrow>
     distinct (map fst (chain_remove c k)) \<and> fst ` set (chain_remove c k) = fst ` set c - {k} \<and> map_of (chain_remove c k) = (map_of c)(k := None)"
  by (induction c k rule: chain_remove.induct) (auto simp: fun_eq_iff map_of_eq_None_iff)

lemma length_chain_remove: "k \<in> fst ` set c \<Longrightarrow> Suc (length (chain_remove c k)) = length c"
proof (induction c k rule: chain_remove.induct)
  case (2 a v c key)
  then show ?case by (cases "a = key") auto
qed simp

text \<open>Exchanging one chain for another with keys of the same hash value.\<close>

lemma chain_update:
  assumes "cht_inv t" and "distinct (map fst c)" and "fst ` set c \<subseteq> insert k (fst ` set (buckets t ! SNetHashtableHash t k))"
    and "e + length (buckets t ! SNetHashtableHash t k) = elements t + length c"
  defines "t' \<equiv> t\<lparr>buckets := (buckets t)[SNetHashtableHash t k := c], elements := e\<rparr>"
  shows "cht_inv t'" and "cht_lookup t' k' = (if SNetHashtableHash t k' = SNetHashtableHash t k then map_of c k' else cht_lookup t k')"
proof -
  let ?i = "SNetHashtableHash t k"
  have i: "?i < length (buckets t)" using hash_lt[OF assms(1), of k] assms(1) by (simp add: cht_inv_def)
  have hash: "SNetHashtableHash t' = SNetHashtableHash t" by (simp add: t'_def SNetHashtableHash_def fun_eq_iff)
  have sum: "(\<Sum>c\<leftarrow>(buckets t)[?i := c]. length c) + length (buckets t ! ?i) = (\<Sum>c\<leftarrow>buckets t. length c) + length c"
  proof -
    have "map length ((buckets t)[?i := c]) = (map length (buckets t))[?i := length c]" by (simp add: map_update)
    moreover have "sum_list (xs[j := x]) + xs ! j = sum_list xs + x" if "j < length xs" for xs :: "nat list" and j x
      using that by (induction xs arbitrary: j) (auto split: nat.splits)
    from this[of ?i "map length (buckets t)" "length c"] i have "sum_list ((map length (buckets t))[?i := length c]) + length (buckets t ! ?i) = (\<Sum>c\<leftarrow>buckets t. length c) + length c" by simp
    ultimately show ?thesis by simp
  qed
  have old: "elements t = (\<Sum>c\<leftarrow>buckets t. length c)" using assms(1) by (simp add: cht_inv_def)
  have el: "e = (\<Sum>c\<leftarrow>(buckets t)[?i := c]. length c)"
    using sum assms(4) unfolding old by simp
  have "SNetHashtableHash t k' = ?i" if "k' \<in> fst ` set (buckets t ! ?i)" for k'
    using assms(1) that hash_lt[OF assms(1), of k] unfolding cht_inv_def by blast
  then have "\<forall>k'\<in>fst ` set c. SNetHashtableHash t k' = ?i" using assms(3) by blast
  then show "cht_inv t'" using assms(1,2) el i unfolding cht_inv_def hash
    by (auto simp: t'_def nth_list_update)
  show "cht_lookup t' k' = (if SNetHashtableHash t k' = ?i then map_of c k' else cht_lookup t k')"
    using i by (simp add: cht_lookup_def hash) (simp add: t'_def nth_list_update)
qed

lemma SNetHashtableGet_lookup:
  assumes "cht_inv t"
  shows "SNetHashtableGet t k = cht_lookup t k"
proof (cases "elements t = 0")
  case True
  then have "\<forall>c\<in>set (buckets t). c = []" using assms by (auto simp: cht_inv_def)
  moreover have "buckets t ! SNetHashtableHash t k \<in> set (buckets t)"
    using hash_lt[OF assms, of k] assms by (simp add: cht_inv_def)
  ultimately have "buckets t ! SNetHashtableHash t k = []" by blast
  then show ?thesis using True by (simp add: SNetHashtableGet_def cht_lookup_def)
next
  case False
  then show ?thesis by (simp add: SNetHashtableGet_def cht_lookup_def chain_find_map_of)
qed

lemma SNetHashtablePut_spec:
  assumes "cht_inv t"
  shows "if cht_lookup t k = None
     then \<exists>t'. SNetHashtablePut t k v = (SNET_HASHTABLE_SUCCESS, t') \<and> cht_inv t' \<and> cht_lookup t' = (cht_lookup t)(k \<mapsto> v) \<and> elements t' = elements t + 1
     else SNetHashtablePut t k v = (SNET_HASHTABLE_ERROR, t)"
proof -
  let ?c = "buckets t ! SNetHashtableHash t k" and ?i = "SNetHashtableHash t k"
  have d: "distinct (map fst ?c)" using assms hash_lt[OF assms, of k] by (simp add: cht_inv_def)
  have n: "cht_lookup t k = None \<longleftrightarrow> k \<notin> fst ` set ?c" by (simp add: cht_lookup_def map_of_eq_None_iff)
  show ?thesis
  proof (cases "k \<in> fst ` set ?c")
    case True
    then show ?thesis using n by (simp add: SNetHashtablePut_def Let_def chain_append_spec)
  next
    case False
    let ?t' = "t\<lparr>buckets := (buckets t)[?i := ?c @ [(k, v)]], elements := elements t + 1\<rparr>"
    have p: "SNetHashtablePut t k v = (SNET_HASHTABLE_SUCCESS, ?t')"
      using False by (simp add: SNetHashtablePut_def Let_def chain_append_spec)
    have a: "distinct (map fst (?c @ [(k, v)]))" "fst ` set (?c @ [(k, v)]) \<subseteq> insert k (fst ` set ?c)"
      "elements t + 1 + length ?c = elements t + length (?c @ [(k, v)])" using d False by auto
    have none: "map_of ?c k = None" using False by (simp only: map_of_eq_None_iff not_False_eq_True)
    have "cht_lookup ?t' k' = ((cht_lookup t)(k \<mapsto> v)) k'" for k'
      using chain_update(2)[OF assms a, of k'] none by (auto simp: cht_lookup_def[of t] map_add_def split: option.splits)
    then have "cht_lookup ?t' = (cht_lookup t)(k \<mapsto> v)" by blast
    moreover have "elements ?t' = elements t + 1" by simp
    ultimately show ?thesis using p False n chain_update(1)[OF assms a] by auto
  qed
qed

lemma SNetHashtableRemove_spec:
  assumes "cht_inv t"
  shows "\<exists>t'. SNetHashtableRemove t k = (cht_lookup t k, t') \<and> cht_inv t' \<and> cht_lookup t' = (cht_lookup t)(k := None)"
proof -
  let ?i = "SNetHashtableHash t k"
  let ?c = "buckets t ! ?i"
  have d: "distinct (map fst ?c)" using assms hash_lt[OF assms, of k] by (simp add: cht_inv_def)
  show ?thesis
  proof (cases "map_of ?c k")
    case None
    then show ?thesis using assms
      by (auto simp: SNetHashtableRemove_def Let_def chain_find_map_of cht_lookup_def fun_eq_iff)
  next
    case (Some v)
    then have mem: "k \<in> fst ` set ?c" by (metis map_of_eq_None_iff option.distinct(1))
    let ?t' = "t\<lparr>buckets := (buckets t)[?i := chain_remove ?c k], elements := elements t - 1\<rparr>"
    have p: "SNetHashtableRemove t k = (cht_lookup t k, ?t')"
      using Some by (simp add: SNetHashtableRemove_def Let_def chain_find_map_of cht_lookup_def)
    have len: "Suc (length (chain_remove ?c k)) = length ?c" by (rule length_chain_remove[OF mem])
    have "length ?c \<le> elements t" using assms hash_lt[OF assms, of k]
      by (metis cht_inv_def elem_le_sum_list length_map nth_map)
    then have "elements t - 1 + length ?c = elements t + length (chain_remove ?c k)" using len by simp
    note el = this
    have a: "distinct (map fst (chain_remove ?c k))" "fst ` set (chain_remove ?c k) \<subseteq> insert k (fst ` set ?c)"
      using chain_remove_spec[OF d, of k] by auto
    have "cht_lookup ?t' k' = ((cht_lookup t)(k := None)) k'" for k'
      using chain_update(2)[OF assms a el, of k'] chain_remove_spec[OF d, of k] by (auto simp: cht_lookup_def[of t])
    then have "cht_lookup ?t' = (cht_lookup t)(k := None)" by blast
    moreover have "cht_inv ?t'" by (rule chain_update(1)[OF assms a el])
    ultimately show ?thesis using p by blast
  qed
qed

lemma SNetHashtableReplace_spec:
  assumes "cht_inv t"
  shows "\<exists>t'. SNetHashtableReplace t k v = (cht_lookup t k, t') \<and> cht_inv t' \<and>
     cht_lookup t' = (if cht_lookup t k = None then cht_lookup t else (cht_lookup t)(k \<mapsto> v))"
proof -
  let ?i = "SNetHashtableHash t k"
  let ?c = "buckets t ! ?i"
  have d: "distinct (map fst ?c)" using assms hash_lt[OF assms, of k] by (simp add: cht_inv_def)
  show ?thesis
  proof (cases "map_of ?c k")
    case None
    then show ?thesis using assms by (auto simp: SNetHashtableReplace_def Let_def chain_find_map_of cht_lookup_def)
  next
    case (Some w)
    then have mem: "k \<in> fst ` set ?c" by (metis map_of_eq_None_iff option.distinct(1))
    let ?t' = "t\<lparr>buckets := (buckets t)[?i := chain_replace ?c k v], elements := elements t\<rparr>"
    have p: "SNetHashtableReplace t k v = (cht_lookup t k, ?t')"
      using Some by (simp add: SNetHashtableReplace_def Let_def chain_find_map_of cht_lookup_def)
    have a: "distinct (map fst (chain_replace ?c k v))" "fst ` set (chain_replace ?c k v) \<subseteq> insert k (fst ` set ?c)"
      "elements t + length ?c = elements t + length (chain_replace ?c k v)"
      using d by (auto simp: chain_replace_spec)
    have "cht_lookup ?t' k' = ((cht_lookup t)(k \<mapsto> v)) k'" for k'
      using chain_update(2)[OF assms a, of k'] map_of_chain_replace[OF mem, of v] by (auto simp: cht_lookup_def[of t])
    then have "cht_lookup ?t' = (cht_lookup t)(k \<mapsto> v)" by blast
    moreover have "cht_inv ?t'" by (rule chain_update(1)[OF assms a])
    moreover have "cht_lookup t k \<noteq> None" using Some by (simp add: cht_lookup_def)
    ultimately show ?thesis using p by auto
  qed
qed

section \<open>Properties\<close>

text \<open>
  Putting an absent key makes exactly this key return the new value; removing it again returns
  that value and restores every lookup; putting a present key is refused and changes nothing.
\<close>

lemma hashtable_put_get_remove:
  assumes "cht_inv t"
  shows "if SNetHashtableGet t k = None
     then \<exists>t1 t2. SNetHashtablePut t k v = (SNET_HASHTABLE_SUCCESS, t1) \<and> cht_inv t1 \<and>
       (\<forall>k'. SNetHashtableGet t1 k' = (if k' = k then Some v else SNetHashtableGet t k')) \<and>
       SNetHashtableRemove t1 k = (Some v, t2) \<and> cht_inv t2 \<and> (\<forall>k'. SNetHashtableGet t2 k' = SNetHashtableGet t k')
     else SNetHashtablePut t k v = (SNET_HASHTABLE_ERROR, t)"
proof (cases "cht_lookup t k")
  case None
  obtain t1 where t1: "SNetHashtablePut t k v = (SNET_HASHTABLE_SUCCESS, t1)" "cht_inv t1" "cht_lookup t1 = (cht_lookup t)(k \<mapsto> v)"
    using SNetHashtablePut_spec[OF assms, of k v] None by auto
  obtain t2 where t2: "SNetHashtableRemove t1 k = (cht_lookup t1 k, t2)" "cht_inv t2" "cht_lookup t2 = (cht_lookup t1)(k := None)"
    using SNetHashtableRemove_spec[OF t1(2)] by blast
  have "cht_lookup t2 = cht_lookup t" using t1(3) t2(3) None by (auto simp: fun_eq_iff)
  then show ?thesis using None t1 t2 assms by (auto simp: SNetHashtableGet_lookup)
next
  case (Some w)
  then show ?thesis using SNetHashtablePut_spec[OF assms, of k v] by (simp add: SNetHashtableGet_lookup[OF assms])
qed

definition example_table :: "nat hashtable" where
  "example_table = \<lparr>hsize = 2, elements = 1, buckets = [[(4, 40)], []], compare_fun = (=)\<rparr>"

end
