(* ===== verification/Queue.thy ===== *)
theory Queue
  imports Fifo_Spec
begin

text \<open>
  The pointer queue of the stream runtime (\<open>runtime/stream/utils/queue.c\<close>): a ring of pointers with
  one cell always free, from which an iterator can take items out of the middle and leave holes.
  Without holes the queue is a first-in first-out queue that grows on demand; the compaction that
  is meant to close holes closes only the first one. The operations are given on natural numbers and, for put and get, on the unsigned integers of the code.
\<close>

section \<open>The code\<close>

definition NUM_INITIAL_ELEMENTS :: nat where "NUM_INITIAL_ELEMENTS = 32"
definition SNET_QUEUE_SUCCESS :: int where "SNET_QUEUE_SUCCESS = 0"

text \<open>An entry \<open>None\<close> is the null pointer; all cells are initialised at allocation.\<close>

record 'a snet_queue =
  qhead :: nat
  qtail :: nat
  qsize :: nat
  qelements :: nat
  qentries :: "'a option list"

text \<open>
  \<open>SNetQueueCompact\<close>: the loop from \<open>temp\<close> with the entries and the mark, \<open>n\<close> rounds left. It ends
  at the tail, so a round per cell is enough.
\<close>

fun compact_loop :: "nat \<Rightarrow> 'a snet_queue \<Rightarrow> nat \<Rightarrow> nat \<Rightarrow> 'a option list \<Rightarrow> 'a option list" where
  "compact_loop 0 q temp mark es = es"
| "compact_loop (Suc n) q temp mark es =
     (let (mark', es') =
        (if es ! temp = None \<and> mark = qtail q then (temp, es)
         else if mark \<noteq> qtail q then ((mark + 1) mod qsize q, es[mark := es ! temp])
         else (mark, es));
        temp' = (temp + 1) mod qsize q
      in if temp' \<noteq> qtail q then compact_loop n q temp' mark' es' else es')"

definition SNetQueueCompact :: "'a snet_queue \<Rightarrow> 'a snet_queue" where
  "SNetQueueCompact q =
     (if qelements q \<noteq> 0 then
        q\<lparr>qentries := compact_loop (qsize q) q (qhead q) (qtail q) (qentries q),
          qtail := (qhead q + qelements q) mod qsize q\<rparr>
      else q)"

text \<open>\<open>SNetQueueIncreaseSize\<close>: the items the loop copies, from \<open>head\<close> to \<open>tail\<close>.\<close>

fun increase_loop :: "nat \<Rightarrow> 'a snet_queue \<Rightarrow> nat \<Rightarrow> 'a list" where
  "increase_loop 0 q h = []"
| "increase_loop (Suc n) q h =
     (let h' = (h + 1) mod qsize q;
          rest = (if h' \<noteq> qtail q then increase_loop n q h' else [])
      in case qentries q ! h of Some v \<Rightarrow> v # rest | None \<Rightarrow> rest)"

definition SNetQueueIncreaseSize :: "'a snet_queue \<Rightarrow> 'a snet_queue" where
  "SNetQueueIncreaseSize q =
     (let items = increase_loop (qsize q) q (qhead q) in
      q\<lparr>qhead := 0, qtail := length items, qsize := qsize q + NUM_INITIAL_ELEMENTS,
        qentries := map Some items @ replicate (qsize q + NUM_INITIAL_ELEMENTS - length items) None\<rparr>)"

definition SNetQueueCreate :: "'a snet_queue" where
  "SNetQueueCreate = \<lparr>qhead = 0, qtail = 0, qsize = NUM_INITIAL_ELEMENTS, qelements = 0,
     qentries = replicate NUM_INITIAL_ELEMENTS None\<rparr>"

definition SNetQueueSize :: "'a snet_queue \<Rightarrow> nat" where
  "SNetQueueSize q = qelements q"

definition SNetQueuePut :: "'a snet_queue \<Rightarrow> 'a \<Rightarrow> int \<times> 'a snet_queue" where
  "SNetQueuePut q v =
     (let q = (if (qtail q + 1) mod qsize q = qhead q then
                 (if qelements q < qsize q - 1 then SNetQueueCompact q else SNetQueueIncreaseSize q)
               else q);
          t = (qtail q + 1) mod qsize q
      in (SNET_QUEUE_SUCCESS, q\<lparr>qentries := (qentries q)[qtail q := Some v, t := None], qtail := t, qelements := qelements q + 1\<rparr>))"

text \<open>The loop that moves \<open>head\<close> to the next item or to the tail.\<close>

fun next_item :: "nat \<Rightarrow> 'a snet_queue \<Rightarrow> nat \<Rightarrow> nat" where
  "next_item 0 q h = h"
| "next_item (Suc n) q h =
     (let h' = (h + 1) mod qsize q in
      if h' \<noteq> qtail q \<and> qentries q ! h' = None then next_item n q h' else h')"

definition SNetQueueGet :: "'a snet_queue \<Rightarrow> 'a option \<times> 'a snet_queue" where
  "SNetQueueGet q =
     (if qhead q \<noteq> qtail q then
        (qentries q ! qhead q, q\<lparr>qelements := qelements q - 1, qhead := next_item (qsize q) q (qhead q)\<rparr>)
      else (None, q))"

definition SNetQueuePeek :: "'a snet_queue \<Rightarrow> 'a option" where
  "SNetQueuePeek q = (if qhead q \<noteq> qtail q then qentries q ! qhead q else None)"

definition SNetQueueIteratorBegin :: "'a snet_queue \<Rightarrow> nat" where
  "SNetQueueIteratorBegin q = qhead q"

definition SNetQueueIteratorEnd :: "'a snet_queue \<Rightarrow> nat" where
  "SNetQueueIteratorEnd q = qtail q"

fun iterator_next :: "nat \<Rightarrow> 'a snet_queue \<Rightarrow> nat \<Rightarrow> nat" where
  "iterator_next 0 q it = it"
| "iterator_next (Suc n) q it =
     (if it = qtail q then it
      else let it' = (it + 1) mod qsize q in
           if qentries q ! it' \<noteq> None then it' else iterator_next n q it')"

definition SNetQueueIteratorNext :: "'a snet_queue \<Rightarrow> nat \<Rightarrow> nat" where
  "SNetQueueIteratorNext q it = iterator_next (qsize q) q it"

definition SNetQueueIteratorGet :: "'a snet_queue \<Rightarrow> nat \<Rightarrow> 'a option \<times> 'a snet_queue" where
  "SNetQueueIteratorGet q it =
     (if it \<noteq> qtail q then
        (let q1 = q\<lparr>qentries := (qentries q)[it := None], qelements := qelements q - 1\<rparr> in
         (qentries q ! it, if qhead q = it then q1\<lparr>qhead := next_item (qsize q) q1 (qhead q)\<rparr> else q1))
      else (None, q))"

definition SNetQueueIteratorPeek :: "'a snet_queue \<Rightarrow> nat \<Rightarrow> 'a option" where
  "SNetQueueIteratorPeek q it = (if it \<noteq> qtail q then qentries q ! it else None)"

section \<open>The queue without holes\<close>

definition qused :: "'a snet_queue \<Rightarrow> nat" where
  "qused q = ring_used (qsize q) (qhead q) (qtail q)"

definition qcell :: "'a snet_queue \<Rightarrow> nat \<Rightarrow> 'a option" where
  "qcell q i = qentries q ! ((qhead q + i) mod qsize q)"

text \<open>The items between head and tail, holes left out.\<close>

definition qitems :: "'a snet_queue \<Rightarrow> 'a list" where
  "qitems q = map the (filter (\<lambda>c. c \<noteq> None) (map (qcell q) [0..<qused q]))"

definition queue_ok :: "'a snet_queue \<Rightarrow> bool" where
  "queue_ok q \<longleftrightarrow> 2 \<le> qsize q \<and> length (qentries q) = qsize q \<and> qhead q < qsize q \<and> qtail q < qsize q \<and>
     qelements q = qused q \<and> (\<forall>i<qused q. qcell q i \<noteq> None)"

lemma queue_ok_items: "queue_ok q \<Longrightarrow> qitems q = map (\<lambda>i. the (qcell q i)) [0..<qused q]"
  by (simp add: qitems_def queue_ok_def comp_def)

lemma queue_ok_bounds:
  assumes "queue_ok q"
  shows "qused q < qsize q" "(qhead q + qused q) mod qsize q = qtail q" "qhead q < qsize q" "qtail q < qsize q"
  using assms ring_used_end[of "qhead q" "qsize q" "qtail q"] by (auto simp: queue_ok_def qused_def)

text \<open>Putting into a queue that is not full.\<close>

lemma put_free:
  fixes q :: "'a snet_queue" and v :: 'a
  assumes "queue_ok q" and "(qtail q + 1) mod qsize q \<noteq> qhead q"
  defines "t \<equiv> (qtail q + 1) mod qsize q"
  defines "q' \<equiv> q\<lparr>qentries := (qentries q)[qtail q := Some v, t := None], qtail := t, qelements := qelements q + 1\<rparr>"
  shows "queue_ok q' \<and> qitems q' = qitems q @ [v]"
proof -
  note b = queue_ok_bounds[OF assms(1)]
  have len: "length (qentries q) = qsize q" "2 \<le> qsize q" using assms(1) by (auto simp: queue_ok_def)
  have t: "t < qsize q" "t \<noteq> qtail q" unfolding t_def using b(4) len(2) by (auto simp: mod_Suc)
  have used: "qused q' = qused q + 1"
    using ring_used_Suc_end[OF b(3,4) assms(2)] by (simp add: qused_def q'_def t_def)
  have tt: "t = (qhead q + (qused q + 1)) mod qsize q"
    using b(2) by (simp add: t_def flip: add.assoc) (metis mod_Suc_eq)
  have lt: "qused q + 1 < qsize q"
    using b(1) ring_used_full_iff[OF b(3,4)] assms(2) by (simp add: qused_def)
  have cell: "qcell q' i = (if i < qused q then qcell q i else Some v)" if "i < qused q + 1" for i
  proof -
    have ne: "(qhead q + i) mod qsize q \<noteq> t"
      unfolding tt using ring_index_eq_iff[of i "qsize q" "qused q + 1" "qhead q"] that lt by simp
    have "(qhead q + i) mod qsize q = qtail q \<longleftrightarrow> i = qused q"
      using ring_index_eq_iff[of i "qsize q" "qused q" "qhead q"] that lt b(2) by simp
    with ne that b len t show ?thesis by (auto simp: qcell_def q'_def nth_list_update)
  qed
  have ok: "queue_ok q'" using assms(1) cell used t len b by (auto simp: queue_ok_def q'_def)
  have "map (\<lambda>i. the (qcell q' i)) [0..<qused q] = map (\<lambda>i. the (qcell q i)) [0..<qused q]"
    using cell by simp
  then have "qitems q' = qitems q @ [v]"
    using cell[of "qused q"] by (simp add: queue_ok_items[OF ok] queue_ok_items[OF assms(1)] used)
  with ok show ?thesis by blast
qed

lemma increase_loop_items:
  assumes "queue_ok q"
  shows "i < qused q \<Longrightarrow> qused q - i \<le> n \<Longrightarrow>
     increase_loop n q ((qhead q + i) mod qsize q) = map (\<lambda>j. the (qcell q j)) [i..<qused q]"
proof (induction n arbitrary: i)
  case 0
  then show ?case by simp
next
  case (Suc n)
  note b = queue_ok_bounds[OF assms]
  obtain v where v: "qcell q i = Some v" using assms Suc.prems(1) by (auto simp: queue_ok_def)
  have step: "((qhead q + i) mod qsize q + 1) mod qsize q = (qhead q + Suc i) mod qsize q"
    by (simp add: mod_Suc_eq)
  have tail: "(qhead q + Suc i) mod qsize q = qtail q \<longleftrightarrow> Suc i = qused q"
    using ring_index_eq_iff[of "Suc i" "qsize q" "qused q" "qhead q"] Suc.prems(1) b(1,2) by auto
  have upt: "[i..<qused q] = i # [Suc i..<qused q]" using Suc.prems(1) by (simp add: upt_conv_Cons)
  show ?case
  proof (cases "Suc i = qused q")
    case True
    with v step tail upt show ?thesis by (simp add: Let_def qcell_def)
  next
    case False
    then have "increase_loop n q ((qhead q + Suc i) mod qsize q) = map (\<lambda>j. the (qcell q j)) [Suc i..<qused q]"
      using Suc.IH[of "Suc i"] Suc.prems by simp
    with v step tail upt False show ?thesis by (simp add: Let_def qcell_def)
  qed
qed

lemma increase_ok:
  assumes "queue_ok q" and "(qtail q + 1) mod qsize q = qhead q"
  shows "queue_ok (SNetQueueIncreaseSize q)" "qitems (SNetQueueIncreaseSize q) = qitems q"
    "(qtail (SNetQueueIncreaseSize q) + 1) mod qsize (SNetQueueIncreaseSize q) \<noteq> qhead (SNetQueueIncreaseSize q)"
proof -
  let ?q = "SNetQueueIncreaseSize q"
  note b = queue_ok_bounds[OF assms(1)]
  have full: "qused q = qsize q - 1" "2 \<le> qsize q"
    using ring_used_full_iff[OF b(3,4)] assms by (auto simp: qused_def queue_ok_def)
  then have pos: "0 < qused q" by simp
  have "increase_loop (qsize q) q ((qhead q + 0) mod qsize q) = map (\<lambda>j. the (qcell q j)) [0..<qused q]"
    by (rule increase_loop_items[OF assms(1) pos]) (use b(1) in simp)
  then have items: "increase_loop (qsize q) q (qhead q) = qitems q"
    using b(3) by (simp add: queue_ok_items[OF assms(1)])
  have len: "length (qitems q) = qused q" by (simp add: queue_ok_items[OF assms(1)])
  have q: "?q = q\<lparr>qhead := 0, qtail := qused q, qsize := qsize q + 32,
      qentries := map Some (qitems q) @ replicate (qsize q + 32 - qused q) None\<rparr>"
    by (simp add: SNetQueueIncreaseSize_def items len Let_def NUM_INITIAL_ELEMENTS_def)
  have used: "qused ?q = qused q" by (simp add: q qused_def[of "q\<lparr>qhead := _, qtail := _, qsize := _, qentries := _\<rparr>"] ring_used_def)
  have cell: "qcell ?q i = Some (qitems q ! i)" if "i < qused q" for i
    using that b(1) len by (simp add: q qcell_def nth_append)
  show ok: "queue_ok ?q" using assms(1) cell used b(1) len full(2)
    by (simp add: queue_ok_def used cell) (simp add: q queue_ok_def)
  show "qitems ?q = qitems q"
    using cell len by (intro nth_equalityI) (simp_all add: queue_ok_items[OF ok] used)
  show "(qtail ?q + 1) mod qsize ?q \<noteq> qhead ?q" using b(1) by (simp add: q)
qed

lemma SNetQueuePut_spec:
  assumes "queue_ok q"
  shows "\<exists>q'. SNetQueuePut q v = (SNET_QUEUE_SUCCESS, q') \<and> queue_ok q' \<and> qitems q' = qitems q @ [v]"
proof (cases "(qtail q + 1) mod qsize q = qhead q")
  case True
  note b = queue_ok_bounds[OF assms]
  have "qelements q = qsize q - 1"
    using ring_used_full_iff[OF b(3,4)] True assms by (simp add: qused_def queue_ok_def)
  then have "SNetQueuePut q v = (let q = SNetQueueIncreaseSize q; t = (qtail q + 1) mod qsize q in
      (SNET_QUEUE_SUCCESS, q\<lparr>qentries := (qentries q)[qtail q := Some v, t := None], qtail := t, qelements := qelements q + 1\<rparr>))"
    using True by (simp add: SNetQueuePut_def)
  with put_free[OF increase_ok(1,3)[OF assms True], of v] increase_ok(2)[OF assms True] show ?thesis by (simp add: Let_def)
next
  case False
  with put_free[OF assms False, of v] show ?thesis by (simp add: SNetQueuePut_def Let_def)
qed

lemma SNetQueueGet_spec:
  assumes "queue_ok q" and "qitems q \<noteq> []"
  shows "\<exists>q'. SNetQueueGet q = (Some (hd (qitems q)), q') \<and> queue_ok q' \<and> qitems q' = tl (qitems q)"
proof -
  note b = queue_ok_bounds[OF assms(1)]
  have pos: "0 < qused q" using assms by (simp add: queue_ok_items)
  then have ne: "qhead q \<noteq> qtail q" using ring_used_0_iff[OF b(3,4)] by (simp add: qused_def)
  let ?h = "(qhead q + 1) mod qsize q"
  let ?q = "q\<lparr>qelements := qelements q - 1, qhead := ?h\<rparr>"
  have at: "?h = qtail q \<or> qentries q ! ?h \<noteq> None"
  proof (cases "qused q = 1")
    case True
    with b(2) show ?thesis by simp
  next
    case False
    with pos have "qcell q 1 \<noteq> None" using assms(1) by (simp add: queue_ok_def)
    then show ?thesis by (simp add: qcell_def)
  qed
  have nx: "next_item (qsize q) q (qhead q) = ?h"
  proof -
    obtain m where "qsize q = Suc m" using b(3) by (cases "qsize q") auto
    then show ?thesis using at by (auto simp: Let_def)
  qed
  have c0: "qentries q ! qhead q = Some (the (qcell q 0))"
    using assms(1) pos b(3) by (auto simp: queue_ok_def qcell_def)
  have get: "SNetQueueGet q = (Some (the (qcell q 0)), ?q)" using ne nx c0 by (simp add: SNetQueueGet_def)
  have used: "qused ?q = qused q - 1" using ring_used_Suc_start(1)[OF b(3,4) ne] by (simp add: qused_def)
  have cell: "qcell ?q i = qcell q (Suc i)" for i by (simp add: qcell_def mod_add_left_eq)
  have ok: "queue_ok ?q" using assms(1) used cell pos b by (auto simp: queue_ok_def)
  obtain m where m: "qused q = Suc m" using pos by (cases "qused q") auto
  have "qitems q = the (qcell q 0) # qitems ?q"
    unfolding queue_ok_items[OF assms(1)] queue_ok_items[OF ok] used cell using m by (simp add: map_upt_Suc_first del: upt_Suc)
  with get ok show ?thesis by simp
qed

definition queue_put :: "'a snet_queue \<Rightarrow> 'a \<Rightarrow> 'a snet_queue res" where
  "queue_put q v = Ok (snd (SNetQueuePut q v))"

definition queue_get :: "'a snet_queue \<Rightarrow> ('a \<times> 'a snet_queue) res" where
  "queue_get q = (case SNetQueueGet q of (Some v, q') \<Rightarrow> Ok (v, q') | (None, q') \<Rightarrow> Err NullDeref)"

lemma queue_get_empty: "queue_ok q \<Longrightarrow> qitems q = [] \<Longrightarrow> queue_get q = Err NullDeref"
  using queue_ok_bounds[of q] ring_used_0_iff[of "qhead q" "qsize q" "qtail q"]
  by (simp add: queue_get_def SNetQueueGet_def queue_ok_items qused_def)

interpretation queue: unbounded_fifo queue_ok qitems queue_put queue_get
proof unfold_locales
  fix q :: "'a snet_queue" and x q'
  assume q: "queue_ok q"
  show "is_Ok (queue_put q x)" by (simp add: queue_put_def)
  assume "queue_put q x = Ok q'"
  then show "queue_ok q' \<and> qitems q' = qitems q @ [x]"
    using SNetQueuePut_spec[OF q, of x] by (auto simp: queue_put_def)
next
  fix q :: "'a snet_queue" and x q'
  assume q: "queue_ok q" and g: "queue_get q = Ok (x, q')"
  then have ne: "qitems q \<noteq> []" using queue_get_empty[OF q] by auto
  from SNetQueueGet_spec[OF q ne] g ne show "queue_ok q' \<and> qitems q = x # qitems q'"
    by (auto simp: queue_get_def)
next
  fix q :: "'a snet_queue"
  assume "queue_ok q" and "qitems q \<noteq> []"
  then show "is_Ok (queue_get q)" using SNetQueueGet_spec[of q] by (auto simp: queue_get_def)
qed

lemma queue_create_ok: "queue_ok SNetQueueCreate" "qitems SNetQueueCreate = []"
  by (simp_all add: queue_ok_def SNetQueueCreate_def NUM_INITIAL_ELEMENTS_def qused_def ring_used_def qitems_def)

section \<open>Machine integers\<close>

text \<open>
  The definitions above have the fields as natural numbers and read cells without a check. Here are put and get once more on the
  fields of type \<open>unsigned int\<close>, with wrap-around, and with checked accesses to blocks of memory, whose cells are
  uninitialised at first. They agree with the definitions above as long as the ring has at most \<open>2 ^ 28\<close> cells; the sizes of such blocks in
  bytes fit into 32 bits.
\<close>

record 'a word_queue =
  whead :: "32 word"
  wtail :: "32 word"
  wsize :: "32 word"
  welements :: "32 word"
  wentries :: "'a option arr"

definition w_mod :: "32 word \<Rightarrow> 32 word \<Rightarrow> 32 word res" where
  "w_mod a b = (if b = 0 then Err DivByZero else Ok (a mod b))"

fun compact_loop_w :: "nat \<Rightarrow> 'a word_queue \<Rightarrow> 32 word \<Rightarrow> 32 word \<Rightarrow> 'a option arr \<Rightarrow> 'a option arr res" where
  "compact_loop_w 0 q temp mark es = Err NoProgress"
| "compact_loop_w (Suc n) q temp mark es =
     bindR (arr_read es (unat temp)) (\<lambda>c.
     bindR (if c = None \<and> mark = wtail q then Ok (temp, es)
            else if mark \<noteq> wtail q then
              bindR (arr_write es (unat mark) c) (\<lambda>es. bindR (w_mod (mark + 1) (wsize q)) (\<lambda>mark. Ok (mark, es)))
            else Ok (mark, es)) (\<lambda>(mark, es).
     bindR (w_mod (temp + 1) (wsize q)) (\<lambda>temp.
     if temp \<noteq> wtail q then compact_loop_w n q temp mark es else Ok es)))"

definition SNetQueueCompact_w :: "'a word_queue \<Rightarrow> 'a word_queue res" where
  "SNetQueueCompact_w q =
     (if welements q \<noteq> 0 then
        bindR (compact_loop_w (unat (wsize q)) q (whead q) (wtail q) (wentries q)) (\<lambda>es.
        bindR (w_mod (whead q + welements q) (wsize q)) (\<lambda>t. Ok (q\<lparr>wentries := es, wtail := t\<rparr>)))
      else Ok q)"

text \<open>\<open>temp\<close> is an \<open>int\<close>.\<close>

fun increase_loop_w :: "nat \<Rightarrow> 'a word_queue \<Rightarrow> 32 word \<Rightarrow> int \<Rightarrow> 'a option arr \<Rightarrow> (int \<times> 'a option arr) res" where
  "increase_loop_w 0 q h temp new = Err NoProgress"
| "increase_loop_w (Suc n) q h temp new =
     bindR (arr_read (wentries q) (unat h)) (\<lambda>c.
     bindR (if c \<noteq> None then bindR (arr_write new (nat temp) c) (\<lambda>new. bindR (c_int (temp + 1)) (\<lambda>temp. Ok (temp, new))) else Ok (temp, new)) (\<lambda>(temp, new).
     bindR (w_mod (h + 1) (wsize q)) (\<lambda>h.
     if h \<noteq> wtail q then increase_loop_w n q h temp new else Ok (temp, new))))"

definition SNetQueueIncreaseSize_w :: "'a word_queue \<Rightarrow> 'a word_queue res" where
  "SNetQueueIncreaseSize_w q =
     bindR (increase_loop_w (unat (wsize q)) q (whead q) 0 (arr_alloc (unat (wsize q + 32)))) (\<lambda>(temp, new).
     let tail = word_of_int temp; size = wsize q + 32 in
     bindR (mem_set new (unat tail) None (unat (size - tail))) (\<lambda>new.
     Ok (q\<lparr>whead := 0, wtail := tail, wsize := size, wentries := new\<rparr>)))"

definition SNetQueuePut_w :: "'a word_queue \<Rightarrow> 'a \<Rightarrow> 'a word_queue res" where
  "SNetQueuePut_w q v =
     bindR (w_mod (wtail q + 1) (wsize q)) (\<lambda>t.
     bindR (if t = whead q then (if welements q < wsize q - 1 then SNetQueueCompact_w q else SNetQueueIncreaseSize_w q) else Ok q) (\<lambda>q.
     bindR (arr_write (wentries q) (unat (wtail q)) (Some v)) (\<lambda>es.
     bindR (w_mod (wtail q + 1) (wsize q)) (\<lambda>t.
     bindR (arr_write es (unat t) None) (\<lambda>es.
     Ok (q\<lparr>wentries := es, wtail := t, welements := welements q + 1\<rparr>))))))"

fun next_item_w :: "nat \<Rightarrow> 'a word_queue \<Rightarrow> 32 word \<Rightarrow> 32 word res" where
  "next_item_w 0 q h = Err NoProgress"
| "next_item_w (Suc n) q h =
     bindR (w_mod (h + 1) (wsize q)) (\<lambda>h.
     if h \<noteq> wtail q then bindR (arr_read (wentries q) (unat h)) (\<lambda>c. if c = None then next_item_w n q h else Ok h) else Ok h)"

definition SNetQueueGet_w :: "'a word_queue \<Rightarrow> ('a option \<times> 'a word_queue) res" where
  "SNetQueueGet_w q =
     (if whead q \<noteq> wtail q then
        bindR (arr_read (wentries q) (unat (whead q))) (\<lambda>v.
        bindR (next_item_w (unat (wsize q)) q (whead q)) (\<lambda>h.
        Ok (v, q\<lparr>welements := welements q - 1, whead := h\<rparr>)))
      else Ok (None, q))"

definition queue_get_w :: "'a word_queue \<Rightarrow> ('a \<times> 'a word_queue) res" where
  "queue_get_w q = bindR (SNetQueueGet_w q) (\<lambda>(v, q'). case v of Some v \<Rightarrow> Ok (v, q') | None \<Rightarrow> Err NullDeref)"

definition word_queue_of :: "'a snet_queue \<Rightarrow> 'a word_queue" where
  "word_queue_of q = \<lparr>whead = of_nat (qhead q), wtail = of_nat (qtail q), wsize = of_nat (qsize q), welements = of_nat (qelements q),
     wentries = map Some (qentries q)\<rparr>"

lemma word_queue_of_simps [simp]:
  "whead (word_queue_of q) = of_nat (qhead q)" "wtail (word_queue_of q) = of_nat (qtail q)" "wsize (word_queue_of q) = of_nat (qsize q)"
  "welements (word_queue_of q) = of_nat (qelements q)" "wentries (word_queue_of q) = map Some (qentries q)"
  by (simp_all add: word_queue_of_def)

lemma unat_small: "a < 2 ^ 32 \<Longrightarrow> unat (of_nat a :: 32 word) = a"
  by (simp add: unat_of_nat take_bit_nat_eq_self)

lemma of_nat_small: "a < 2 ^ 32 \<Longrightarrow> b < 2 ^ 32 \<Longrightarrow> (of_nat a :: 32 word) = of_nat b \<longleftrightarrow> a = b"
  by (metis unat_small)

lemma w_mod_of_nat:
  assumes "0 < n" and "n < 2 ^ 32" and "a < 2 ^ 32"
  shows "w_mod (of_nat a) (of_nat n) = Ok (of_nat (a mod n))"
proof -
  have "(of_nat a mod of_nat n :: 32 word) = of_nat (a mod n)" unfolding word_arith_nat_mod unat_small[OF assms(2)] unat_small[OF assms(3)] ..
  moreover have "(of_nat n :: 32 word) \<noteq> 0" using of_nat_small[of n 0] assms by simp
  ultimately show ?thesis by (simp add: w_mod_def)
qed

lemma w_step: "h < n \<Longrightarrow> n \<le> 2 ^ 28 + 33 \<Longrightarrow> w_mod (of_nat h + 1) (of_nat n) = Ok (of_nat ((h + 1) mod n))"
  using w_mod_of_nat[of n "h + 1"] by (simp add: add.commute)

lemma cells_Some: "i < length es \<Longrightarrow> arr_read (map Some es) i = Ok (es ! i)" "i < length es \<Longrightarrow> arr_write (map Some es) i v = Ok (map Some (es[i := v]))"
  by (simp_all add: arr_read_def arr_write_def map_update)

text \<open>The two writes of a put into a ring that is not full.\<close>

lemma put_tail_refines:
  assumes "queue_ok q" and "qsize q \<le> 2 ^ 28 + 33"
  shows "bindR (arr_write (wentries (word_queue_of q)) (unat (wtail (word_queue_of q))) (Some v)) (\<lambda>es.
     bindR (w_mod (wtail (word_queue_of q) + 1) (wsize (word_queue_of q))) (\<lambda>t. bindR (arr_write es (unat t) None) (\<lambda>es.
     Ok ((word_queue_of q)\<lparr>wentries := es, wtail := t, welements := welements (word_queue_of q) + 1\<rparr>)))) =
     (let t = (qtail q + 1) mod qsize q in
      Ok (word_queue_of (q\<lparr>qentries := (qentries q)[qtail q := Some v, t := None], qtail := t, qelements := qelements q + 1\<rparr>)))"
proof -
  have b: "qtail q < qsize q" "length (qentries q) = qsize q" "qtail q < 2 ^ 32" using assms by (auto simp: queue_ok_def)
  let ?t = "(qtail q + 1) mod qsize q"
  have t: "?t < qsize q" using b(1) by (intro mod_less_divisor) simp
  then have t': "?t < 2 ^ 32" using assms(2) by simp
  show ?thesis
    unfolding word_queue_of_simps unat_small[OF b(3)] w_step[OF b(1) assms(2)] bindR.simps unat_small[OF t'] Let_def
    using b t by (simp add: cells_Some word_queue_of_def del: bindR_eq_Ok)
qed

lemma put_free_refines:
  assumes "queue_ok q" and "qsize q \<le> 2 ^ 28" and "(qtail q + 1) mod qsize q \<noteq> qhead q"
  shows "SNetQueuePut_w (word_queue_of q) v = Ok (word_queue_of (snd (SNetQueuePut q v)))"
proof -
  have b: "qtail q < qsize q" "qhead q < 2 ^ 32" using assms by (auto simp: queue_ok_def)
  have "(qtail q + 1) mod qsize q < qsize q" using b(1) by (intro mod_less_divisor) simp
  then have "(qtail q + 1) mod qsize q < 2 ^ 32" using assms(2) by simp
  then have h: "of_nat ((qtail q + 1) mod qsize q) \<noteq> (of_nat (qhead q) :: 32 word)" using of_nat_small b(2) assms(3) by blast
  have st: "w_mod (wtail (word_queue_of q) + 1) (wsize (word_queue_of q)) = Ok (of_nat ((qtail q + 1) mod qsize q))"
    using w_step[OF b(1)] assms(2) by simp
  have "of_nat ((qtail q + 1) mod qsize q) \<noteq> whead (word_queue_of q)" using h by simp
  then have "SNetQueuePut_w (word_queue_of q) v = (let t = (qtail q + 1) mod qsize q in
      Ok (word_queue_of (q\<lparr>qentries := (qentries q)[qtail q := Some v, t := None], qtail := t, qelements := qelements q + 1\<rparr>)))"
    unfolding SNetQueuePut_w_def st bindR.simps using put_tail_refines[OF assms(1), of v] assms(2) st by simp
  then show ?thesis using assms(3) by (simp add: SNetQueuePut_def Let_def)
qed

lemma increase_loop_refines:
  assumes "queue_ok q" and "qsize q \<le> 2 ^ 28" and "qused q < N"
  shows "i < qused q \<Longrightarrow> qused q - i \<le> n \<Longrightarrow>
     increase_loop_w n (word_queue_of q) (of_nat ((qhead q + i) mod qsize q)) (int i) (map (\<lambda>j. Some (qcell q j)) [0..<i] @ replicate (N - i) None) =
       Ok (int (qused q), map (\<lambda>j. Some (qcell q j)) [0..<qused q] @ replicate (N - qused q) None)"
proof (induction n arbitrary: i)
  case 0
  then show ?case by simp
next
  case (Suc n)
  note b = queue_ok_bounds[OF assms(1)]
  let ?h = "(qhead q + i) mod qsize q"
  have len: "length (qentries q) = qsize q" using assms(1) by (simp add: queue_ok_def)
  have h: "?h < qsize q" using b(3) by (intro mod_less_divisor) simp
  then have h': "?h < 2 ^ 32" using assms(2) by simp
  obtain v where v: "qcell q i = Some v" using assms(1) Suc.prems(1) by (auto simp: queue_ok_def)
  have rd: "arr_read (wentries (word_queue_of q)) (unat (of_nat ?h :: 32 word)) = Ok (Some v)"
    using v len h by (simp add: unat_small[OF h'] cells_Some qcell_def)
  have new: "arr_write (map (\<lambda>j. Some (qcell q j)) [0..<i] @ replicate (N - i) None) (nat (int i)) (Some v) =
      Ok (map (\<lambda>j. Some (qcell q j)) [0..<Suc i] @ replicate (N - Suc i) None)"
  proof -
    have "N - i = Suc (N - Suc i)" using Suc.prems(1) assms(3) by simp
    then show ?thesis using v by (simp add: arr_write_def list_update_append)
  qed
  have ci: "c_int (int i + 1) = Ok (int (Suc i))" using c_int_in_range[of "int i + 1"] Suc.prems(1) b(1) assms(2) by (simp add: int_range_def add.commute)
  have step: "(?h + 1) mod qsize q = (qhead q + Suc i) mod qsize q" by (simp add: mod_Suc_eq)
  have st: "w_mod (of_nat ?h + 1) (wsize (word_queue_of q)) = Ok (of_nat ((qhead q + Suc i) mod qsize q))"
    using w_step[OF h] assms(2) step by simp
  have tail: "(qhead q + Suc i) mod qsize q = qtail q \<longleftrightarrow> Suc i = qused q"
    using ring_index_eq_iff[of "Suc i" "qsize q" "qused q" "qhead q"] Suc.prems(1) b(1,2) by auto
  have small: "x < 2 ^ 32" if "x < qsize q" for x using that assms(2) by simp
  have "(qhead q + Suc i) mod qsize q < qsize q" using b(3) by (intro mod_less_divisor) simp
  note k = small[OF this] small[OF b(4)]
  have eq: "of_nat ((qhead q + Suc i) mod qsize q) = wtail (word_queue_of q) \<longleftrightarrow> Suc i = qused q"
    using of_nat_small[OF k] tail by simp
  have one: "increase_loop_w (Suc n) (word_queue_of q) (of_nat ?h) (int i) (map (\<lambda>j. Some (qcell q j)) [0..<i] @ replicate (N - i) None) =
      (if Suc i \<noteq> qused q then increase_loop_w n (word_queue_of q) (of_nat ((qhead q + Suc i) mod qsize q)) (int (Suc i)) (map (\<lambda>j. Some (qcell q j)) [0..<Suc i] @ replicate (N - Suc i) None)
       else Ok (int (Suc i), map (\<lambda>j. Some (qcell q j)) [0..<Suc i] @ replicate (N - Suc i) None))"
    unfolding increase_loop_w.simps rd bindR.simps new ci prod.case st eq by (simp del: upt_Suc)
  show ?case
  proof (cases "Suc i = qused q")
    case True
    show ?thesis unfolding one using True by (simp del: upt_Suc)
  next
    case False
    then have "Suc i < qused q" "qused q - Suc i \<le> n" using Suc.prems by simp_all
    from Suc.IH[OF this] show ?thesis unfolding one using False by (simp del: upt_Suc)
  qed
qed

lemma increase_refines:
  assumes "queue_ok q" and "qsize q \<le> 2 ^ 28" and "(qtail q + 1) mod qsize q = qhead q"
  shows "SNetQueueIncreaseSize_w (word_queue_of q) = Ok (word_queue_of (SNetQueueIncreaseSize q))"
proof -
  note b = queue_ok_bounds[OF assms(1)]
  have full: "qused q = qsize q - 1" "2 \<le> qsize q"
    using ring_used_full_iff[OF b(3,4)] assms by (auto simp: qused_def queue_ok_def)
  then have pos: "0 < qused q" by simp
  have "increase_loop (qsize q) q ((qhead q + 0) mod qsize q) = map (\<lambda>j. the (qcell q j)) [0..<qused q]"
    by (rule increase_loop_items[OF assms(1) pos]) (use b(1) in simp)
  then have items: "increase_loop (qsize q) q (qhead q) = qitems q"
    using b(3) by (simp add: queue_ok_items[OF assms(1)])
  have len: "length (qitems q) = qused q" by (simp add: queue_ok_items[OF assms(1)])
  have cells: "map (\<lambda>j. Some (qcell q j)) [0..<qused q] = map Some (map Some (qitems q))"
    using assms(1) by (auto simp: queue_ok_items[OF assms(1)] queue_ok_def)
  have sz: "(wsize (word_queue_of q) + 32 :: 32 word) = of_nat (qsize q + 32)" by simp
  have u: "unat (of_nat (qsize q + 32) :: 32 word) = qsize q + 32" "unat (wsize (word_queue_of q)) = qsize q" "unat (of_nat (qused q) :: 32 word) = qused q"
    using assms(2) b(1) by (simp_all add: unat_small del: of_nat_add)
  have sub: "unat (of_nat (qsize q + 32) - of_nat (qused q) :: 32 word) = qsize q + 32 - qused q"
  proof -
    have "qsize q + 32 - qused q < 2 ^ 32" using assms(2) by simp
    from unat_small[OF this] show ?thesis using b(1) by (subst of_nat_diff[symmetric]) simp_all
  qed
  have loop: "increase_loop_w (qsize q) (word_queue_of q) (whead (word_queue_of q)) 0 (arr_alloc (qsize q + 32)) =
      Ok (int (qused q), map Some (map Some (qitems q)) @ replicate (qsize q + 32 - qused q) None)"
    using increase_loop_refines[OF assms(1,2), of "qsize q + 32" 0 "qsize q"] pos b(1,3) unfolding cells by (simp add: arr_alloc_def)
  have ms: "mem_set (map Some (map Some (qitems q)) @ replicate (qsize q + 32 - qused q) None) (qused q) None (qsize q + 32 - qused q) =
      Ok (map Some (map Some (qitems q) @ replicate (qsize q + 32 - qused q) None))"
    using len b(1) by (simp add: mem_set_def)
  have w: "(word_of_int (int (qused q)) :: 32 word) = of_nat (qused q)" by simp
  show ?thesis
    unfolding SNetQueueIncreaseSize_w_def sz u(1,2) loop bindR.simps prod.case Let_def w u(3) sub ms
    by (simp add: SNetQueueIncreaseSize_def items len Let_def NUM_INITIAL_ELEMENTS_def word_queue_of_def)
qed

lemma put_refines:
  assumes "queue_ok q" and "qsize q \<le> 2 ^ 28"
  shows "SNetQueuePut_w (word_queue_of q) v = Ok (word_queue_of (snd (SNetQueuePut q v)))"
proof (cases "(qtail q + 1) mod qsize q = qhead q")
  case True
  note b = queue_ok_bounds[OF assms(1)]
  have e: "qelements q = qsize q - 1" "0 < qsize q"
    using ring_used_full_iff[OF b(3,4)] True assms(1) by (simp_all add: qused_def queue_ok_def)
  have "welements (word_queue_of q) = wsize (word_queue_of q) - 1" using e by (simp add: of_nat_diff)
  then have ne: "\<not> welements (word_queue_of q) < wsize (word_queue_of q) - 1" by simp
  have st: "w_mod (wtail (word_queue_of q) + 1) (wsize (word_queue_of q)) = Ok (whead (word_queue_of q))"
    using w_step[OF b(4)] assms(2) True by simp
  let ?q = "SNetQueueIncreaseSize q"
  have sz: "qsize ?q \<le> 2 ^ 28 + 33" using assms(2) by (simp add: SNetQueueIncreaseSize_def Let_def NUM_INITIAL_ELEMENTS_def)
  have "SNetQueuePut_w (word_queue_of q) v = (let t = (qtail ?q + 1) mod qsize ?q in
      Ok (word_queue_of (?q\<lparr>qentries := (qentries ?q)[qtail ?q := Some v, t := None], qtail := t, qelements := qelements ?q + 1\<rparr>)))"
    unfolding SNetQueuePut_w_def st bindR.simps using ne increase_refines[OF assms True] put_tail_refines[OF increase_ok(1)[OF assms(1) True] sz, of v] by simp
  moreover have "SNetQueuePut q v = (let q = ?q; t = (qtail q + 1) mod qsize q in
      (SNET_QUEUE_SUCCESS, q\<lparr>qentries := (qentries q)[qtail q := Some v, t := None], qtail := t, qelements := qelements q + 1\<rparr>))"
    using True e by (simp add: SNetQueuePut_def)
  ultimately show ?thesis by (simp add: Let_def)
qed (rule put_free_refines[OF assms])

lemma get_refines:
  assumes "queue_ok q" and "qsize q \<le> 2 ^ 28"
  shows "SNetQueueGet_w (word_queue_of q) = Ok (fst (SNetQueueGet q), word_queue_of (snd (SNetQueueGet q)))"
proof -
  note b = queue_ok_bounds[OF assms(1)]
  have len: "length (qentries q) = qsize q" using assms(1) by (simp add: queue_ok_def)
  have k: "qhead q < 2 ^ 32" "qtail q < 2 ^ 32" "qsize q < 2 ^ 32" using assms(2) b(3,4) by simp_all
  let ?w = "word_queue_of q"
  have eq: "whead ?w = wtail ?w \<longleftrightarrow> qhead q = qtail q" using of_nat_small[OF k(1,2)] by simp
  have nx: "h < qsize q \<Longrightarrow> next_item_w n ?w (of_nat h) = Ok x \<Longrightarrow> x = of_nat (next_item n q h)" for n h x
  proof (induction n arbitrary: h)
    case (Suc n)
    let ?h = "(h + 1) mod qsize q"
    have h: "?h < qsize q" using b(3) by (intro mod_less_divisor) simp
    then have h': "?h < 2 ^ 32" using assms(2) by simp
    have st: "w_mod (of_nat h + 1) (wsize ?w) = Ok (of_nat ?h)" using w_step[OF Suc.prems(1)] assms(2) by simp
    have e: "of_nat ?h = wtail ?w \<longleftrightarrow> ?h = qtail q" using of_nat_small[OF h' k(2)] by simp
    have rd: "arr_read (wentries ?w) (unat (of_nat ?h :: 32 word)) = Ok (qentries q ! ?h)" unfolding unat_small[OF h'] word_queue_of_simps using len h by (intro cells_Some) simp
    show ?case using Suc.prems(2) Suc.IH[OF h] unfolding next_item_w.simps st bindR.simps e rd by (auto simp: Let_def split: if_splits)
  qed simp
  show ?thesis
  proof (cases "qhead q = qtail q")
    case True
    then show ?thesis using eq by (simp add: SNetQueueGet_w_def SNetQueueGet_def)
  next
    case False
    then have pos: "0 < qused q" using ring_used_0_iff[OF b(3,4)] by (simp add: qused_def)
    let ?h = "(qhead q + 1) mod qsize q"
    have at: "?h = qtail q \<or> qentries q ! ?h \<noteq> None"
    proof (cases "qused q = 1")
      case True
      with b(2) show ?thesis by simp
    next
      case False
      with pos have "qcell q 1 \<noteq> None" using assms(1) by (simp add: queue_ok_def)
      then show ?thesis by (simp add: qcell_def)
    qed
    obtain m where m: "qsize q = Suc m" using b(3) by (cases "qsize q") auto
    have h: "?h < qsize q" using b(3) by (intro mod_less_divisor) simp
    then have h': "?h < 2 ^ 32" using assms(2) by simp
    have st: "w_mod (whead ?w + 1) (wsize ?w) = Ok (of_nat ?h)" using w_step[OF b(3)] assms(2) by simp
    have rd: "arr_read (wentries ?w) (unat (of_nat ?h :: 32 word)) = Ok (qentries q ! ?h)" unfolding unat_small[OF h'] word_queue_of_simps using len h by (intro cells_Some) simp
    have n1: "next_item_w (qsize q) ?w (whead ?w) = Ok (of_nat ?h)"
      using at of_nat_small[OF h' k(2)] unfolding m next_item_w.simps st[unfolded m] bindR.simps rd[unfolded m] by (auto simp: m[symmetric])
    then have n2: "of_nat (next_item (qsize q) q (qhead q)) = (of_nat ?h :: 32 word)" using nx[OF b(3), of "qsize q" "of_nat ?h"] by simp
    have rd0: "arr_read (wentries ?w) (unat (whead ?w)) = Ok (qentries q ! qhead q)" using len b(3) by (simp add: unat_small[OF k(1)] cells_Some)
    have "0 < qelements q" using pos assms(1) by (simp add: queue_ok_def)
    then have el: "welements ?w - 1 = of_nat (qelements q - 1)" by (simp add: of_nat_diff)
    have u: "unat (wsize ?w) = qsize q" using unat_small[OF k(3)] by simp
    show ?thesis using False eq unfolding SNetQueueGet_w_def u rd0 n1 bindR.simps el n2[symmetric]
      by (simp add: SNetQueueGet_def word_queue_of_def)
  qed
qed

lemma put_queue_cells: "queue_ok q \<Longrightarrow> qsize (snd (SNetQueuePut q v)) \<le> max (qsize q) (length (qitems q) + 33)"
proof -
  assume ok: "queue_ok q"
  note b = queue_ok_bounds[OF ok]
  have l: "length (qitems q) = qused q" by (simp add: queue_ok_items[OF ok])
  have "qused q = qsize q - 1" if "(qtail q + 1) mod qsize q = qhead q" using ring_used_full_iff[OF b(3,4)] that by (simp add: qused_def)
  then show ?thesis using ok l
    by (auto simp: SNetQueuePut_def SNetQueueCompact_def SNetQueueIncreaseSize_def Let_def NUM_INITIAL_ELEMENTS_def queue_ok_def)
qed

interpretation word_queue: machine_fifo queue_ok qitems queue_put queue_get word_queue_of SNetQueuePut_w queue_get_w qsize 33 "2 ^ 28"
proof unfold_locales
  fix q :: "'a snet_queue" and x q'
  assume q: "queue_ok q"
  show "qsize q \<le> 2 ^ 28 \<Longrightarrow> SNetQueuePut_w (word_queue_of q) x = map_res word_queue_of (queue_put q x)" using put_refines[OF q] by (simp add: queue_put_def)
  show "qsize q \<le> 2 ^ 28 \<Longrightarrow> queue_get_w (word_queue_of q) = map_res (map_prod id word_queue_of) (queue_get q)"
    using get_refines[OF q] by (simp add: queue_get_w_def queue_get_def split: prod.splits option.splits)
  show "queue_put q x = Ok q' \<Longrightarrow> qsize q' \<le> max (qsize q) (length (qitems q) + 33)" using put_queue_cells[OF q] by (auto simp: queue_put_def)
  show "queue_get q = Ok (x, q') \<Longrightarrow> qsize q' \<le> qsize q" by (auto simp: queue_get_def SNetQueueGet_def split: if_splits option.splits)
qed

section \<open>Properties\<close>

text \<open>
  C35. Any sequence of puts and gets on a fresh queue that never gets from the empty queue and never holds \<open>2 ^ 28 - 32\<close> items or
  more runs to its end on the unsigned integers of the code without an access outside of the ring, and returns
  the items in the order they were put, across wrap-arounds and growths.
\<close>

theorem queue_fifo:
  assumes "enough 0 ops" and "peak 0 ops < 2 ^ 28 - 32"
  shows "\<exists>outs q. run_ops SNetQueuePut_w queue_get_w ops (word_queue_of SNetQueueCreate) = Ok (outs, word_queue_of q) \<and> outs @ qitems q = puts_of ops"
proof -
  obtain outs q where r: "run_ops queue_put queue_get ops SNetQueueCreate = Ok (outs, q)"
    using queue.run_ops_total[OF queue_create_ok(1), of ops] assms(1) by (auto simp: is_Ok_iff queue_create_ok(2))
  have "run_ops SNetQueuePut_w queue_get_w ops (word_queue_of SNetQueueCreate) = map_res (map_prod id word_queue_of) (run_ops queue_put queue_get ops SNetQueueCreate)"
  proof (rule word_queue.run_refines[OF queue_create_ok(1)])
    show "qsize (SNetQueueCreate :: 'a snet_queue) \<le> 2 ^ 28" by (simp add: SNetQueueCreate_def NUM_INITIAL_ELEMENTS_def)
    show "peak (length (qitems (SNetQueueCreate :: 'a snet_queue))) ops + 33 \<le> 2 ^ 28" using assms(2) by (simp add: queue_create_ok(2))
  qed
  with r queue.run_ops_order[OF queue_create_ok(1) r] show ?thesis by (intro exI[of _ outs] exI[of _ q]) (simp add: queue_create_ok(2))
qed

theorem queue_fifo_witness:
  "\<exists>outs q. run_ops SNetQueuePut_w queue_get_w [PutOp (1 :: nat), PutOp 2, GetOp, PutOp 3] (word_queue_of SNetQueueCreate) = Ok (outs, word_queue_of q) \<and>
     outs @ qitems q = puts_of [PutOp 1, PutOp 2, GetOp, PutOp 3]"
  by (rule queue_fifo) simp_all

text \<open>31 items fill the ring; the iterator takes the second and the fourth of them.\<close>

definition example_full :: "nat snet_queue" where
  "example_full = fold (\<lambda>v q. snd (SNetQueuePut q v)) [0..<31] SNetQueueCreate"

definition example_holes :: "nat snet_queue" where
  "example_holes =
     (let q = example_full;
          i1 = SNetQueueIteratorNext q (SNetQueueIteratorBegin q);
          q = snd (SNetQueueIteratorGet q i1);
          i2 = SNetQueueIteratorNext q (SNetQueueIteratorNext q i1)
      in snd (SNetQueueIteratorGet q i2))"

text \<open>
  Compaction closes only the first hole: after two items have been taken out of the middle of
  a full ring, the next put loses the last item, although the counter still counts it.
\<close>

lemma queue_compact_loses_item:
  "qitems example_holes = 0 # 2 # [4..<31] \<and> qitems (snd (SNetQueuePut example_holes 99)) = 0 # 2 # [4..<30] @ [99] \<and>
   SNetQueueSize (snd (SNetQueuePut example_holes 99)) = 30"
  by code_simp

end
