(* ===== verification/Bitmap.thy ===== *)
theory Bitmap
  imports Prelude
begin

text \<open>
  The bitmap (\<open>runtime/stream/utils/bitmap.c\<close>), an array of bytes with a position from which the
  search for a clear bit starts. The theory proves what the operations do to the bits, for which
  bits they are refused, and which clear bits the search does not find.
\<close>

section \<open>The code\<close>

definition BITS_PER_BYTE :: nat where "BITS_PER_BYTE = 8"
definition BYTE_FULL_SET :: "8 word" where "BYTE_FULL_SET = 15"
definition SNET_BITMAP_ERR :: int where "SNET_BITMAP_ERR = -1"

record snet_util_bitmap =
  bsize :: nat
  search_pos :: nat
  bytes :: "8 word list"

definition BYTE_OFFSET :: "nat \<Rightarrow> nat" where "BYTE_OFFSET i = i div BITS_PER_BYTE"
definition BIT_OFFSET :: "nat \<Rightarrow> nat" where "BIT_OFFSET i = i mod BITS_PER_BYTE"

definition SNetUtilBitmapCreate :: "int \<Rightarrow> snet_util_bitmap option" where
  "SNetUtilBitmapCreate sz =
     (if sz \<le> 0 then None
      else let n = nat ((sz + (int BITS_PER_BYTE - 1)) div int BITS_PER_BYTE) in
           Some \<lparr>bsize = n, search_pos = 0, bytes = replicate n 0\<rparr>)"

definition SNetUtilBitmapCopy :: "snet_util_bitmap \<Rightarrow> snet_util_bitmap \<Rightarrow> int \<times> snet_util_bitmap" where
  "SNetUtilBitmapCopy fro to =
     (if bsize to < bsize fro then (SNET_BITMAP_ERR, to)
      else (0, to\<lparr>bytes := take (bsize fro) (bytes fro) @ replicate (bsize to - bsize fro) 0, search_pos := search_pos fro\<rparr>))"

definition SNetUtilBitmapSize :: "snet_util_bitmap \<Rightarrow> nat" where
  "SNetUtilBitmapSize m = bsize m * BITS_PER_BYTE"

text \<open>\<open>(byte >> offset) & BIT_SET\<close> of a bit.\<close>

definition bit_value :: "snet_util_bitmap \<Rightarrow> nat \<Rightarrow> bool" where
  "bit_value m i = bit (bytes m ! BYTE_OFFSET i) (BIT_OFFSET i)"

text \<open>Setting and clearing compare the index of the bit with the size in bytes.\<close>

definition SNetUtilBitmapSet :: "snet_util_bitmap \<Rightarrow> nat \<Rightarrow> int \<times> snet_util_bitmap" where
  "SNetUtilBitmapSet m i =
     (if i \<ge> bsize m then (SNET_BITMAP_ERR, m)
      else (of_bool (bit_value m i),
            m\<lparr>bytes := (bytes m)[BYTE_OFFSET i := set_bit (BIT_OFFSET i) (bytes m ! BYTE_OFFSET i)]\<rparr>))"

definition SNetUtilBitmapClear :: "snet_util_bitmap \<Rightarrow> nat \<Rightarrow> int \<times> snet_util_bitmap" where
  "SNetUtilBitmapClear m i =
     (if i \<ge> bsize m then (SNET_BITMAP_ERR, m)
      else (of_bool (bit_value m i),
            m\<lparr>bytes := (bytes m)[BYTE_OFFSET i := unset_bit (BIT_OFFSET i) (bytes m ! BYTE_OFFSET i)],
              search_pos := (if search_pos m > BYTE_OFFSET i then BYTE_OFFSET i else search_pos m)\<rparr>))"

text \<open>The first clear bit of a byte from \<open>j\<close> on, with \<open>n\<close> bits left.\<close>

fun find_clear :: "nat \<Rightarrow> 8 word \<Rightarrow> nat \<Rightarrow> nat option" where
  "find_clear 0 b j = None"
| "find_clear (Suc n) b j = (if \<not> bit b j then Some j else find_clear n b (Suc j))"

fun find_loop :: "nat \<Rightarrow> snet_util_bitmap \<Rightarrow> int \<times> snet_util_bitmap" where
  "find_loop 0 m = (SNET_BITMAP_ERR, m)"
| "find_loop (Suc n) m =
     (if search_pos m < bsize m then
        (let b = bytes m ! search_pos m;
             nxt = find_loop n (m\<lparr>search_pos := search_pos m + 1\<rparr>) in
         if b \<noteq> BYTE_FULL_SET then
           (case find_clear BITS_PER_BYTE b 0 of
              Some j \<Rightarrow> (int (search_pos m * BITS_PER_BYTE + j), m\<lparr>bytes := (bytes m)[search_pos m := set_bit j b]\<rparr>)
            | None \<Rightarrow> nxt)
         else nxt)
      else (SNET_BITMAP_ERR, m))"

definition SNetUtilBitmapFindNSet :: "snet_util_bitmap \<Rightarrow> int \<times> snet_util_bitmap" where
  "SNetUtilBitmapFindNSet m = find_loop (bsize m) m"

definition SNetUtilBitmapGet :: "snet_util_bitmap \<Rightarrow> nat \<Rightarrow> int" where
  "SNetUtilBitmapGet m i = (if i \<ge> bsize m then SNET_BITMAP_ERR else of_bool (bit_value m i))"

section \<open>Behaviour\<close>

definition bitmap_inv :: "snet_util_bitmap \<Rightarrow> bool" where
  "bitmap_inv m \<longleftrightarrow> length (bytes m) = bsize m"

lemmas offsets = BYTE_OFFSET_def BIT_OFFSET_def BITS_PER_BYTE_def

lemma bit_offset_lt: "BIT_OFFSET i < 8"
  by (simp add: offsets)

lemma offsets_inj: "BYTE_OFFSET i = BYTE_OFFSET j \<Longrightarrow> BIT_OFFSET i = BIT_OFFSET j \<Longrightarrow> i = j"
  unfolding offsets by (metis div_mult_mod_eq)

lemma bit_value_set:
  assumes "bitmap_inv m" and "BYTE_OFFSET i < bsize m"
  shows "bit_value (m\<lparr>bytes := (bytes m)[BYTE_OFFSET i := set_bit (BIT_OFFSET i) (bytes m ! BYTE_OFFSET i)]\<rparr>) j = (j = i \<or> bit_value m j)"
  using assms offsets_inj[of i j] bit_offset_lt[of i]
  by (auto simp: bit_value_def bitmap_inv_def nth_list_update bit_set_bit_iff possible_bit_word)

lemma bit_value_unset:
  assumes "bitmap_inv m" and "BYTE_OFFSET i < bsize m"
  shows "bit_value (m\<lparr>bytes := (bytes m)[BYTE_OFFSET i := unset_bit (BIT_OFFSET i) (bytes m ! BYTE_OFFSET i)], search_pos := s\<rparr>) j = (j \<noteq> i \<and> bit_value m j)"
  using assms offsets_inj[of i j] by (auto simp: bit_value_def bitmap_inv_def nth_list_update bit_unset_bit_iff)

lemma search_pos_irrelevant:
  "bit_value (m\<lparr>search_pos := s\<rparr>) = bit_value m" "SNetUtilBitmapSize (m\<lparr>search_pos := s\<rparr>) = SNetUtilBitmapSize m"
  "bytes (m\<lparr>search_pos := s\<rparr>) = bytes m" "bsize (m\<lparr>search_pos := s\<rparr>) = bsize m" "search_pos (m\<lparr>search_pos := s\<rparr>) = s"
  by (simp_all add: bit_value_def fun_eq_iff SNetUtilBitmapSize_def)

lemma find_clear_Some: "find_clear n b j = Some k \<Longrightarrow> \<not> bit b k \<and> j \<le> k \<and> k < j + n \<and> (\<forall>i. j \<le> i \<and> i < k \<longrightarrow> bit b i)"
proof (induction n arbitrary: j)
  case (Suc n)
  show ?case
  proof (cases "bit b j")
    case True
    with Suc.IH[of "Suc j"] Suc.prems show ?thesis by (auto simp: less_Suc_eq_le) (metis Suc_leI le_neq_implies_less)
  next
    case False
    with Suc.prems show ?thesis by auto
  qed
qed simp

lemma find_clear_None: "find_clear n b j = None \<longleftrightarrow> (\<forall>i. j \<le> i \<and> i < j + n \<longrightarrow> bit b i)"
proof (induction n arbitrary: j)
  case (Suc n)
  have "(\<forall>i. j \<le> i \<and> i < j + Suc n \<longrightarrow> bit b i) \<longleftrightarrow> bit b j \<and> (\<forall>i. Suc j \<le> i \<and> i < Suc j + n \<longrightarrow> bit b i)"
    by (auto simp: Suc_le_eq) (metis le_neq_implies_less)
  with Suc.IH[of "Suc j"] show ?case by simp
qed auto

lemma find_loop_spec:
  "bitmap_inv m \<Longrightarrow> find_loop n m = (r, m') \<Longrightarrow> bsize m - search_pos m \<le> n \<Longrightarrow>
     bitmap_inv m' \<and>
     (if r = SNET_BITMAP_ERR
      then (\<forall>p. search_pos m \<le> p \<and> p < bsize m \<longrightarrow> bytes m ! p \<in> {BYTE_FULL_SET, mask 8}) \<and> bytes m' = bytes m
      else (\<exists>i. r = int i \<and> i < SNetUtilBitmapSize m \<and> \<not> bit_value m i \<and> (\<forall>j. bit_value m' j \<longleftrightarrow> j = i \<or> bit_value m j)))"
proof (induction n arbitrary: m)
  case 0
  then show ?case by (auto simp: SNET_BITMAP_ERR_def)
next
  case (Suc n)
  let ?b = "bytes m ! search_pos m" and ?next = "find_loop n (m\<lparr>search_pos := search_pos m + 1\<rparr>)"
  have next_step: ?case if "search_pos m < bsize m" "?next = (r, m')" "?b \<in> {BYTE_FULL_SET, mask 8}"
  proof -
    have ih: "bitmap_inv m' \<and> (if r = SNET_BITMAP_ERR
      then (\<forall>p. search_pos m + 1 \<le> p \<and> p < bsize m \<longrightarrow> bytes m ! p \<in> {BYTE_FULL_SET, mask 8}) \<and> bytes m' = bytes m
      else (\<exists>i. r = int i \<and> i < SNetUtilBitmapSize m \<and> \<not> bit_value m i \<and> (\<forall>j. bit_value m' j \<longleftrightarrow> j = i \<or> bit_value m j)))"
    proof -
      have "bitmap_inv (m\<lparr>search_pos := search_pos m + 1\<rparr>)" using Suc.prems(1) by (simp add: bitmap_inv_def)
      moreover have "bsize m - (search_pos m + 1) \<le> n"
        using Suc.prems(3) by simp
      ultimately show ?thesis by (rule Suc.IH[OF _ that(2), unfolded search_pos_irrelevant])
    qed
    show ?thesis
    proof (cases "r = SNET_BITMAP_ERR")
      case True
      with ih that(3) show ?thesis by (metis Suc_eq_plus1 le_antisym not_less_eq_eq)
    next
      case False
      with ih show ?thesis by simp
    qed
  qed
  show ?case
  proof (cases "search_pos m < bsize m")
    case False
    with Suc.prems show ?thesis by (auto simp: SNET_BITMAP_ERR_def)
  next
    case True
    show ?thesis
    proof (cases "?b = BYTE_FULL_SET \<or> find_clear BITS_PER_BYTE ?b 0 = None")
      case skip: True
      have "?b \<in> {BYTE_FULL_SET, mask 8}"
      proof (cases "?b = BYTE_FULL_SET")
        case False
        with skip have "\<forall>i<8. bit ?b i" by (auto simp: find_clear_None BITS_PER_BYTE_def)
        then have "?b = mask 8" by (intro bit_word_eqI) (simp add: bit_mask_iff)
        then show ?thesis by simp
      qed simp
      then show ?thesis using next_step[OF True] Suc.prems(2) True skip by (auto simp: Let_def split: if_splits)
    next
      case False
      then obtain j where j: "find_clear BITS_PER_BYTE ?b 0 = Some j" "?b \<noteq> BYTE_FULL_SET" by auto
      let ?i = "search_pos m * BITS_PER_BYTE + j"
      from find_clear_Some[OF j(1)] have jb: "\<not> bit ?b j" "j < 8" by (auto simp: BITS_PER_BYTE_def)
      have off: "BYTE_OFFSET ?i = search_pos m" "BIT_OFFSET ?i = j" using jb(2) by (simp_all add: offsets)
      have res: "r = int ?i" "m' = m\<lparr>bytes := (bytes m)[BYTE_OFFSET ?i := set_bit (BIT_OFFSET ?i) (bytes m ! BYTE_OFFSET ?i)]\<rparr>"
        using Suc.prems(2) True j unfolding off by (auto simp: Let_def)
      have "bit_value m' k \<longleftrightarrow> k = ?i \<or> bit_value m k" for k
        unfolding res(2) by (rule bit_value_set[OF Suc.prems(1)]) (simp add: off True)
      moreover have "\<not> bit_value m ?i" using jb(1) by (simp add: bit_value_def off)
      moreover have "?i < SNetUtilBitmapSize m"
      proof -
        have "?i < (search_pos m + 1) * 8" using jb(2) by (simp add: BITS_PER_BYTE_def)
        also have "\<dots> \<le> bsize m * 8" using True by (intro mult_le_mono1) simp
        finally show ?thesis by (simp add: SNetUtilBitmapSize_def BITS_PER_BYTE_def)
      qed
      moreover have "bitmap_inv m'" using Suc.prems(1) by (simp add: res(2) bitmap_inv_def)
      moreover have "0 \<le> r" unfolding res(1) by (rule of_nat_0_le_iff)
      then have "r \<noteq> SNET_BITMAP_ERR" by (simp add: SNET_BITMAP_ERR_def)
      ultimately show ?thesis using res(1)
        by (intro conjI impI) (simp, simp, rule exI[of _ ?i], simp)
    qed
  qed
qed

section \<open>Properties\<close>

text \<open>
  The search either returns an index in range of a bit that was clear, and sets this bit and no
  other, or it reports an error; it reports an error exactly when every byte from the search
  position on is \<open>0x0f\<close> or \<open>0xff\<close>, so that a byte \<open>0x0f\<close> with four clear bits is passed over.
\<close>

lemma bitmap_find_n_set:
  assumes "bitmap_inv m" and "SNetUtilBitmapFindNSet m = (r, m')"
  shows "if r = SNET_BITMAP_ERR
     then (\<forall>p. search_pos m \<le> p \<and> p < bsize m \<longrightarrow> bytes m ! p \<in> {BYTE_FULL_SET, mask 8}) \<and> bytes m' = bytes m
     else (\<exists>i. r = int i \<and> i < SNetUtilBitmapSize m \<and> \<not> bit_value m i \<and> (\<forall>j. bit_value m' j \<longleftrightarrow> j = i \<or> bit_value m j))"
  by (rule conjunct2[OF find_loop_spec[OF assms(1) assms(2)[unfolded SNetUtilBitmapFindNSet_def] diff_le_self]])

text \<open>
  Setting, clearing and reading refuse every bit whose index is at least the size in bytes:
  seven eighths of the bits that \<open>SNetUtilBitmapSize\<close> reports cannot be used.
\<close>

lemma bitmap_refuses_valid_bits:
  assumes "bsize m \<le> i" and "i < SNetUtilBitmapSize m"
  shows "SNetUtilBitmapSet m i = (SNET_BITMAP_ERR, m) \<and> SNetUtilBitmapClear m i = (SNET_BITMAP_ERR, m) \<and> SNetUtilBitmapGet m i = SNET_BITMAP_ERR"
  using assms(1) by (simp add: SNetUtilBitmapSet_def SNetUtilBitmapClear_def SNetUtilBitmapGet_def)

end
