(* ===== verification/Snet_Info.thy ===== *)
theory Snet_Info
  imports Map_Spec
begin

text \<open>
  The creation context (\<open>runtime/common/info.c\<close>): a linked list of tagged values that is passed
  through the construction of the network. The list is the sequence of its nodes from the handle
  on; the node with the tag \<open>-1\<close> is the free node at its end. Freed values are returned.
\<close>

record 'd info_node =
  tag :: int
  info_data :: 'd
  copyFun :: "('d \<Rightarrow> 'd) option"

type_synonym 'd snet_info = "'d info_node list"

definition SNetInfoCreateTag :: "int \<Rightarrow> int \<times> int" where
  "SNetInfoCreateTag new_tag = (new_tag, new_tag + 1)"

text \<open>A fresh node; \<open>zero\<close> is the null value of the data type.\<close>

definition SNetInfoInit :: "'d \<Rightarrow> 'd snet_info" where
  "SNetInfoInit zero = [\<lparr>tag = -1, info_data = zero, copyFun = None\<rparr>]"

text \<open>The walk follows \<open>next\<close> without a test for NULL.\<close>

fun SNetInfoSetTag :: "'d \<Rightarrow> 'd snet_info \<Rightarrow> int \<Rightarrow> 'd \<Rightarrow> ('d \<Rightarrow> 'd) option \<Rightarrow> ('d snet_info \<times> 'd list) res" where
  "SNetInfoSetTag zero [] t d f = Err NullDeref"
| "SNetInfoSetTag zero (n # ns) t d f =
     (if tag n \<noteq> t \<and> tag n \<noteq> -1 then
        bindR (SNetInfoSetTag zero ns t d f) (\<lambda>(ns', fr). Ok (n # ns', fr))
      else if tag n = t then
        Ok (n\<lparr>info_data := d, copyFun := f\<rparr> # ns, if f \<noteq> None then [info_data n] else [])
      else Ok (\<lparr>tag = t, info_data = d, copyFun = f\<rparr> # SNetInfoInit zero, []))"

text \<open>\<open>SNetInfoDelTag\<close> looks at the successors of the handle only.\<close>

fun SNetInfoDelTag :: "'d snet_info \<Rightarrow> int \<Rightarrow> ('d \<times> 'd snet_info) res" where
  "SNetInfoDelTag [] t = Err NullDeref"
| "SNetInfoDelTag [n] t = Err AssertFail"
| "SNetInfoDelTag (n # m # ns) t =
     (if tag m \<noteq> t then bindR (SNetInfoDelTag (m # ns) t) (\<lambda>(d, ns'). Ok (d, n # ns'))
      else Ok (info_data m, n # ns))"

fun SNetInfoGetTag :: "'d snet_info \<Rightarrow> int \<Rightarrow> 'd res" where
  "SNetInfoGetTag [] t = Err NullDeref"
| "SNetInfoGetTag (n # ns) t =
     (if tag n \<noteq> t \<and> tag n \<noteq> -1 then SNetInfoGetTag ns t
      else bindR (assertR (tag n = t)) (\<lambda>_. Ok (info_data n)))"

definition copy_node :: "'d info_node \<Rightarrow> 'd info_node" where
  "copy_node n = n\<lparr>info_data := (case copyFun n of Some f \<Rightarrow> f (info_data n) | None \<Rightarrow> info_data n)\<rparr>"

text \<open>The \<open>do\<close> loop reads the first node before it tests for the end of the list.\<close>

definition SNetInfoCopy :: "'d snet_info \<Rightarrow> 'd snet_info res" where
  "SNetInfoCopy info = (case info of [] \<Rightarrow> Err NullDeref | n # ns \<Rightarrow> Ok (map copy_node info))"

definition SNetInfoDestroy :: "'d snet_info \<Rightarrow> 'd list" where
  "SNetInfoDestroy info = map info_data (filter (\<lambda>n. copyFun n \<noteq> None) info)"

section \<open>The context as a map\<close>

text \<open>The nodes in front of the free node have pairwise different tags other than \<open>-1\<close>.\<close>

definition info_inv :: "'d snet_info \<Rightarrow> bool" where
  "info_inv info \<longleftrightarrow> info \<noteq> [] \<and> tag (last info) = -1 \<and> distinct (map tag info)"

definition info_map :: "'d snet_info \<Rightarrow> int \<Rightarrow> 'd option" where
  "info_map info t = (if t = -1 then None else map_of (map (\<lambda>n. (tag n, info_data n)) info) t)"

lemma info_map_simps [simp]:
  "info_map [] t = None"
  "info_map (n # ns) t = (if t \<noteq> -1 \<and> tag n = t then Some (info_data n) else info_map ns t)"
  by (auto simp: info_map_def)

lemma info_inv_Cons:
  "info_inv (n # ns) \<longleftrightarrow> (if ns = [] then tag n = -1 else tag n \<noteq> -1 \<and> tag n \<notin> set (map tag ns) \<and> info_inv ns)"
  by (cases ns rule: rev_cases) (auto simp: info_inv_def)

lemma info_inv_Nil [simp]: "\<not> info_inv []"
  by (simp add: info_inv_def)

lemma info_map_None_iff: "info_map info t = None \<longleftrightarrow> t = -1 \<or> t \<notin> tag ` set info"
  by (induction info) auto

lemma SNetInfoGetTag_spec:
  "info_inv info \<Longrightarrow> t \<noteq> -1 \<Longrightarrow>
     SNetInfoGetTag info t = (case info_map info t of None \<Rightarrow> Err AssertFail | Some d \<Rightarrow> Ok d)"
  by (induction info) (auto simp: info_inv_Cons split: if_splits option.splits)

lemma SNetInfoSetTag_spec:
  "info_inv info \<Longrightarrow> t \<noteq> -1 \<Longrightarrow>
     \<exists>info' fr. SNetInfoSetTag zero info t d f = Ok (info', fr) \<and> info_inv info' \<and>
       info_map info' = (info_map info)(t \<mapsto> d) \<and> set (map tag info') \<subseteq> insert t (set (map tag info)) \<and>
       fr = (if f \<noteq> None then (case info_map info t of Some old \<Rightarrow> [old] | None \<Rightarrow> []) else [])"
proof (induction info)
  case Nil
  then show ?case by (simp add: info_inv_def)
next
  case (Cons n ns)
  show ?case
  proof (cases "tag n \<noteq> t \<and> tag n \<noteq> -1")
    case True
    then have inv: "info_inv ns" "tag n \<notin> set (map tag ns)" "ns \<noteq> []"
      using Cons.prems by (auto simp: info_inv_Cons split: if_splits)
    obtain ns' fr where r: "SNetInfoSetTag zero ns t d f = Ok (ns', fr)" "info_inv ns'"
      "info_map ns' = (info_map ns)(t \<mapsto> d)" "set (map tag ns') \<subseteq> insert t (set (map tag ns))"
      "fr = (if f \<noteq> None then (case info_map ns t of Some old \<Rightarrow> [old] | None \<Rightarrow> []) else [])"
      using Cons.IH[OF inv(1) Cons.prems(2)] by blast
    have "info_inv (n # ns')" using r(2,4) True inv(2) by (auto simp: info_inv_Cons)
    moreover have "info_map (n # ns') = (info_map (n # ns))(t \<mapsto> d)" using True r(3) by (auto simp: fun_eq_iff)
    moreover have "fr = (if f \<noteq> None then (case info_map (n # ns) t of Some old \<Rightarrow> [old] | None \<Rightarrow> []) else [])"
      using True r(5) by simp
    ultimately show ?thesis using True r(1,4) by (intro exI[of _ "n # ns'"] exI[of _ fr]) auto
  next
    case False
    then show ?thesis
      using Cons.prems
      by (cases ns) (auto simp: info_inv_Cons SNetInfoInit_def fun_eq_iff info_map_None_iff split: if_splits)
  qed
qed

definition info_put :: "'d \<Rightarrow> 'd snet_info \<Rightarrow> int \<Rightarrow> 'd \<Rightarrow> 'd snet_info res" where
  "info_put zero info t d = bindR (SNetInfoSetTag zero info t d None) (\<lambda>(info', _). Ok info')"

interpretation info: map_read info_inv info_map "\<lambda>t. t \<noteq> -1" "info_put zero" SNetInfoGetTag for zero
proof unfold_locales
  show "\<exists>m'. info_put zero m k v = Ok m' \<and> info_inv m' \<and> info_map m' = (info_map m)(k \<mapsto> v)"
    if "info_inv m" "k \<noteq> -1" for m k v
    using SNetInfoSetTag_spec[OF that, of zero v None] by (auto simp: info_put_def)
  show "SNetInfoGetTag m k = Ok v" if "info_inv m" "k \<noteq> -1" "info_map m k = Some v" for m k v
    using that by (simp add: SNetInfoGetTag_spec)
qed

lemma info_inv_init: "info_inv (SNetInfoInit zero)" "info_map (SNetInfoInit zero) = Map.empty"
  by (auto simp: info_inv_def SNetInfoInit_def)

lemma SNetInfoCopy_spec:
  assumes "info_inv info"
  shows "\<exists>info'. SNetInfoCopy info = Ok info' \<and> info_inv info' \<and> dom (info_map info') = dom (info_map info) \<and>
     ((\<forall>n\<in>set info. copyFun n = None) \<longrightarrow> info' = info)"
proof -
  have tags: "map tag (map copy_node ns) = map tag ns" for ns :: "'a snet_info" by (simp add: copy_node_def)
  have "info_inv (map copy_node info)" using assms by (simp add: info_inv_def last_map tags del: map_map) (simp add: copy_node_def)
  moreover have "dom (info_map (map copy_node ns)) = dom (info_map ns)" for ns :: "'a snet_info"
    by (induction ns) (auto simp: dom_def copy_node_def)
  moreover have "map copy_node info = info" if "\<forall>n\<in>set info. copyFun n = None"
    using that by (intro map_idI) (simp add: copy_node_def)
  moreover have "SNetInfoCopy info = Ok (map copy_node info)" using assms by (cases info) (simp_all add: SNetInfoCopy_def info_inv_def)
  ultimately show ?thesis by blast
qed

section \<open>Properties\<close>

text \<open>
  After any sequence of tag settings on a fresh context, reading a tag that was set gives the
  value set last, and reading a tag never set fails the assertion.
\<close>

lemma info_set_get:
  assumes "\<forall>(t, d)\<in>set tds. t \<noteq> -1" and "t \<noteq> -1"
  shows "\<exists>info. foldR (\<lambda>i (t, d). info_put zero i t d) (SNetInfoInit zero) tds = Ok info \<and>
     SNetInfoGetTag info t = (case map_of (rev tds) t of Some d \<Rightarrow> Ok d | None \<Rightarrow> Err AssertFail)"
  using info.puts_law[OF info_inv_init(1) assms(1), of zero] SNetInfoGetTag_spec[OF _ assms(2)]
  by (fastforce simp: info_inv_init split: option.splits)

text \<open>
  Deleting the tag of the first node of a context fails the assertion, although the tag is set:
  the search starts at the second node.
\<close>

lemma info_del_first_fails:
  assumes "info_inv (n # ns)" and "ns \<noteq> []"
  shows "SNetInfoGetTag (n # ns) (tag n) = Ok (info_data n) \<and> SNetInfoDelTag (n # ns) (tag n) = Err AssertFail"
proof -
  have "SNetInfoDelTag (m # ms) t = Err AssertFail" if "t \<notin> tag ` set ms" for m t and ms :: "'a snet_info"
    using that by (induction ms arbitrary: m) auto
  moreover have "tag n \<notin> tag ` set ns" using assms by (simp add: info_inv_Cons)
  ultimately show ?thesis using assms by (simp add: info_inv_Cons)
qed

end
