(* ===== verification/Locvec.thy ===== *)
theory Locvec
  imports Snet_Info
begin

text \<open>
  Location vectors (\<open>runtime/stream/utils/locvec.c\<close>): the path of combinators that identifies an
  entity. The vector is an array with a fill count that grows by one cell; \<open>items\<close> is the
  sequence it stands for.
\<close>

section \<open>Data and operations\<close>

definition LOCVEC_INFO_TAG :: int where "LOCVEC_INFO_TAG = 493"
definition LOCVEC_CAPACITY_DELTA :: nat where "LOCVEC_CAPACITY_DELTA = 1"

datatype snet_loctype = LOC_UNDEFINED | LOC_SERIAL | LOC_PARALLEL | LOC_SPLIT | LOC_STAR | LOC_FEEDBACK

fun loctype_char :: "snet_loctype \<Rightarrow> char" where
  "loctype_char LOC_UNDEFINED = CHR ''?''"
| "loctype_char LOC_SERIAL = CHR ''S''"
| "loctype_char LOC_PARALLEL = CHR ''P''"
| "loctype_char LOC_SPLIT = CHR ''I''"
| "loctype_char LOC_STAR = CHR ''R''"
| "loctype_char LOC_FEEDBACK = CHR ''F''"

record snet_locitem =
  loc_type :: snet_loctype
  loc_num :: int

record snet_locvec =
  vec_size :: int
  vec_capacity :: nat
  vec_arr :: "snet_locitem arr"

text \<open>Access with a signed index.\<close>

definition item_at :: "snet_locvec \<Rightarrow> int \<Rightarrow> snet_locitem res" where
  "item_at v i = (if i < 0 then Err OutOfBounds else arr_read (vec_arr v) (nat i))"

definition item_put :: "snet_locvec \<Rightarrow> int \<Rightarrow> snet_locitem \<Rightarrow> snet_locvec res" where
  "item_put v i x =
     (if i < 0 then Err OutOfBounds
      else bindR (arr_write (vec_arr v) (nat i) x) (\<lambda>a. Ok (v\<lparr>vec_arr := a\<rparr>)))"

definition SNetLocvecCreate :: snet_locvec where
  "SNetLocvecCreate = \<lparr>vec_size = 0, vec_capacity = LOCVEC_CAPACITY_DELTA, vec_arr = arr_alloc LOCVEC_CAPACITY_DELTA\<rparr>"

definition SNetLocvecCopy :: "snet_locvec \<Rightarrow> snet_locvec res" where
  "SNetLocvecCopy v =
     bindR (mem_cpy (arr_alloc (vec_capacity v)) 0 (vec_arr v) 0 (nat (vec_size v))) (\<lambda>a. Ok (v\<lparr>vec_arr := a\<rparr>))"

definition SNetLocvecAppend :: "snet_locvec \<Rightarrow> snet_loctype \<Rightarrow> int \<Rightarrow> snet_locvec res" where
  "SNetLocvecAppend v t n =
     bindR (if vec_size v = int (vec_capacity v) then
              bindR (mem_cpy (arr_alloc (vec_capacity v + LOCVEC_CAPACITY_DELTA)) 0 (vec_arr v) 0 (nat (vec_size v))) (\<lambda>a.
              Ok (v\<lparr>vec_capacity := vec_capacity v + LOCVEC_CAPACITY_DELTA, vec_arr := a\<rparr>))
            else Ok v) (\<lambda>v.
     bindR (item_put v (vec_size v) \<lparr>loc_type = t, loc_num = n\<rparr>) (\<lambda>v.
     Ok (v\<lparr>vec_size := vec_size v + 1\<rparr>)))"

definition SNetLocvecPop :: "snet_locvec \<Rightarrow> snet_locvec" where
  "SNetLocvecPop v = v\<lparr>vec_size := vec_size v - 1\<rparr>"

definition SNetLocvecToptype :: "snet_locvec \<Rightarrow> snet_loctype res" where
  "SNetLocvecToptype v =
     (if vec_size v > 0 then bindR (item_at v (vec_size v - 1)) (\<lambda>x. Ok (loc_type x)) else Ok LOC_UNDEFINED)"

definition SNetLocvecTopval :: "snet_locvec \<Rightarrow> int res" where
  "SNetLocvecTopval v = bindR (item_at v (vec_size v - 1)) (\<lambda>x. Ok (loc_num x))"

definition SNetLocvecTopinc :: "snet_locvec \<Rightarrow> snet_locvec res" where
  "SNetLocvecTopinc v =
     bindR (item_at v (vec_size v - 1)) (\<lambda>x. bindR (c_int (loc_num x + 1)) (\<lambda>n.
     item_put v (vec_size v - 1) (x\<lparr>loc_num := n\<rparr>)))"

definition SNetLocvecTopdec :: "snet_locvec \<Rightarrow> snet_locvec res" where
  "SNetLocvecTopdec v =
     bindR (item_at v (vec_size v - 1)) (\<lambda>x. bindR (c_int (loc_num x - 1)) (\<lambda>n.
     item_put v (vec_size v - 1) (x\<lparr>loc_num := n\<rparr>)))"

text \<open>\<open>n\<close> items from index \<open>i\<close> on agree in type and number.\<close>

fun items_equal :: "nat \<Rightarrow> snet_locvec \<Rightarrow> snet_locvec \<Rightarrow> int \<Rightarrow> bool res" where
  "items_equal 0 u v i = Ok True"
| "items_equal (Suc n) u v i =
     bindR (item_at u i) (\<lambda>x. bindR (item_at v i) (\<lambda>y.
     if loc_type x \<noteq> loc_type y \<or> loc_num x \<noteq> loc_num y then Ok False else items_equal n u v (i + 1)))"

text \<open>\<open>same\<close> is the comparison of the two pointers.\<close>

definition SNetLocvecEqual :: "bool \<Rightarrow> snet_locvec \<Rightarrow> snet_locvec \<Rightarrow> bool res" where
  "SNetLocvecEqual same u v =
     (if same then Ok True else if vec_size u \<noteq> vec_size v then Ok False
      else items_equal (nat (vec_size u)) u v 0)"

definition SNetLocvecEqualParent :: "bool \<Rightarrow> snet_locvec \<Rightarrow> snet_locvec \<Rightarrow> bool res" where
  "SNetLocvecEqualParent same u v =
     (if same then Ok True else if vec_size u \<noteq> vec_size v then Ok False
      else bindR (items_equal (nat (vec_size u - 1)) u v 0) (\<lambda>b. if \<not> b then Ok False else
        bindR (item_at u (vec_size u - 1)) (\<lambda>x. bindR (item_at v (vec_size u - 1)) (\<lambda>y.
        if loc_type x \<noteq> loc_type y then Ok False
        else bindR (assertR (loc_num x < loc_num y)) (\<lambda>_. Ok True)))))"

text \<open>\<open>assert(SNetLocvecToptype(vec) == t)\<close>.\<close>

definition assert_top :: "snet_locvec \<Rightarrow> snet_loctype \<Rightarrow> unit res" where
  "assert_top v t = bindR (SNetLocvecToptype v) (\<lambda>t'. assertR (t' = t))"

definition SNetLocvecSerialEnter :: "snet_locvec \<Rightarrow> (bool \<times> snet_locvec) res" where
  "SNetLocvecSerialEnter v =
     bindR (SNetLocvecToptype v) (\<lambda>t.
     if t \<noteq> LOC_SERIAL then bindR (SNetLocvecAppend v LOC_SERIAL 1) (\<lambda>v'. Ok (True, v')) else Ok (False, v))"

definition SNetLocvecSerialNext :: "snet_locvec \<Rightarrow> snet_locvec res" where
  "SNetLocvecSerialNext v = bindR (assert_top v LOC_SERIAL) (\<lambda>_. SNetLocvecTopinc v)"

definition SNetLocvecSerialLeave :: "snet_locvec \<Rightarrow> bool \<Rightarrow> snet_locvec res" where
  "SNetLocvecSerialLeave v enter = bindR (assert_top v LOC_SERIAL) (\<lambda>_. Ok (if enter then SNetLocvecPop v else v))"

definition SNetLocvecParallelEnter :: "snet_locvec \<Rightarrow> snet_locvec res" where
  "SNetLocvecParallelEnter v = SNetLocvecAppend v LOC_PARALLEL (-1)"

definition SNetLocvecParallelNext :: "snet_locvec \<Rightarrow> snet_locvec res" where
  "SNetLocvecParallelNext v = bindR (assert_top v LOC_PARALLEL) (\<lambda>_. SNetLocvecTopinc v)"

definition SNetLocvecParallelLeave :: "snet_locvec \<Rightarrow> snet_locvec res" where
  "SNetLocvecParallelLeave v = bindR (assert_top v LOC_PARALLEL) (\<lambda>_. Ok (SNetLocvecPop v))"

definition SNetLocvecParallelReset :: "snet_locvec \<Rightarrow> snet_locvec res" where
  "SNetLocvecParallelReset v = bindR (SNetLocvecParallelLeave v) SNetLocvecParallelEnter"

definition SNetLocvecSplitEnter :: "snet_locvec \<Rightarrow> snet_locvec res" where
  "SNetLocvecSplitEnter v = SNetLocvecAppend v LOC_SPLIT (-1)"

definition SNetLocvecSplitLeave :: "snet_locvec \<Rightarrow> snet_locvec res" where
  "SNetLocvecSplitLeave v = bindR (assert_top v LOC_SPLIT) (\<lambda>_. Ok (SNetLocvecPop v))"

definition SNetLocvecSplitSpawn :: "snet_locvec \<Rightarrow> int \<Rightarrow> snet_locvec res" where
  "SNetLocvecSplitSpawn v i =
     bindR (assert_top v LOC_SPLIT) (\<lambda>_. bindR (SNetLocvecCopy v) (\<lambda>copy.
     SNetLocvecAppend (SNetLocvecPop copy) LOC_SPLIT i))"

definition SNetLocvecStarWithin :: "snet_locvec \<Rightarrow> bool res" where
  "SNetLocvecStarWithin v = bindR (SNetLocvecToptype v) (\<lambda>t. Ok (t = LOC_STAR))"

definition SNetLocvecStarEnter :: "snet_locvec \<Rightarrow> snet_locvec res" where
  "SNetLocvecStarEnter v =
     bindR (SNetLocvecToptype v) (\<lambda>t. bindR (assertR (t \<noteq> LOC_STAR)) (\<lambda>_. SNetLocvecAppend v LOC_STAR (-1)))"

definition SNetLocvecStarSpawn :: "snet_locvec \<Rightarrow> snet_locvec res" where
  "SNetLocvecStarSpawn v = bindR (assert_top v LOC_STAR) (\<lambda>_. SNetLocvecTopinc v)"

definition SNetLocvecStarSpawnRet :: "snet_locvec \<Rightarrow> snet_locvec res" where
  "SNetLocvecStarSpawnRet v = bindR (assert_top v LOC_STAR) (\<lambda>_. SNetLocvecTopdec v)"

definition SNetLocvecStarLeave :: "snet_locvec \<Rightarrow> snet_locvec res" where
  "SNetLocvecStarLeave v =
     bindR (assert_top v LOC_STAR) (\<lambda>_. bindR (SNetLocvecTopval v) (\<lambda>n. bindR (assertR (n = -1)) (\<lambda>_.
     Ok (SNetLocvecPop v))))"

definition SNetLocvecFeedbackEnter :: "snet_locvec \<Rightarrow> snet_locvec res" where
  "SNetLocvecFeedbackEnter v = SNetLocvecAppend v LOC_FEEDBACK (-1)"

definition SNetLocvecFeedbackLeave :: "snet_locvec \<Rightarrow> snet_locvec res" where
  "SNetLocvecFeedbackLeave v = bindR (assert_top v LOC_FEEDBACK) (\<lambda>_. Ok (SNetLocvecPop v))"

text \<open>The context holds the address of the vector.\<close>

definition SNetLocvecGet :: "'d snet_info \<Rightarrow> 'd res" where
  "SNetLocvecGet info = SNetInfoGetTag info LOCVEC_INFO_TAG"

definition SNetLocvecSet :: "'d \<Rightarrow> 'd snet_info \<Rightarrow> 'd \<Rightarrow> ('d snet_info \<times> 'd list) res" where
  "SNetLocvecSet zero info vec = SNetInfoSetTag zero info LOCVEC_INFO_TAG vec None"

section \<open>Printing\<close>

text \<open>The decimal digits that \<open>%d\<close> prints of a non-negative number.\<close>

fun decimal :: "nat \<Rightarrow> string" where
  "decimal n = (if n < 10 then [char_of (48 + n)] else decimal (n div 10) @ [char_of (48 + n mod 10)])"

declare decimal.simps [simp del]

definition item_text :: "snet_locitem \<Rightarrow> string" where
  "item_text x =
     (if loc_num x \<ge> 0 then [CHR '':'', loctype_char (loc_type x)] @ decimal (nat (loc_num x))
      else [CHR '':'', loctype_char (loc_type x)])"

definition NUL :: char where "NUL = CHR 0x00"

definition str_cpy :: "char arr \<Rightarrow> nat \<Rightarrow> string \<Rightarrow> char arr res" where
  "str_cpy buf d s = mem_cpy buf d (map Some (s @ [NUL])) 0 (length s + 1)"

text \<open>The loop of \<open>SNetLocvecPrint\<close> from item \<open>i\<close> on, with \<open>n\<close> items left.\<close>

fun print_items :: "nat \<Rightarrow> snet_locvec \<Rightarrow> int \<Rightarrow> nat \<Rightarrow> char arr \<Rightarrow> nat \<Rightarrow> (nat \<times> char arr) res" where
  "print_items 0 v i sz buf cnt = Ok (cnt, buf)"
| "print_items (Suc n) v i sz buf cnt =
     bindR (item_at v i) (\<lambda>x. let itembuf = item_text x; ret = length itembuf in
     bindR (if cnt + ret < sz then str_cpy buf cnt itembuf else Ok buf) (\<lambda>buf.
     print_items n v (i + 1) sz buf (cnt + ret)))"

definition SNetLocvecPrint :: "char arr \<Rightarrow> int \<Rightarrow> snet_locvec \<Rightarrow> (nat \<times> char arr) res" where
  "SNetLocvecPrint sbuf sz v =
     (if sz \<le> 0 then Ok (0, sbuf)
      else bindR (arr_write sbuf 0 NUL) (\<lambda>sbuf. print_items (nat (vec_size v)) v 0 (nat sz) sbuf 0))"

section \<open>The vector as a sequence\<close>

definition locvec_inv :: "snet_locvec \<Rightarrow> bool" where
  "locvec_inv v \<longleftrightarrow> 0 \<le> vec_size v \<and> vec_size v \<le> int (vec_capacity v) \<and> length (vec_arr v) = vec_capacity v \<and>
     (\<forall>i<nat (vec_size v). vec_arr v ! i \<noteq> None)"

definition items :: "snet_locvec \<Rightarrow> snet_locitem list" where
  "items v = map the (take (nat (vec_size v)) (vec_arr v))"

lemma length_items: "locvec_inv v \<Longrightarrow> length (items v) = nat (vec_size v)"
  by (auto simp: locvec_inv_def items_def min_def nat_le_iff)

lemma vec_size_items: "locvec_inv v \<Longrightarrow> vec_size v = int (length (items v))"
  by (simp add: length_items) (simp add: locvec_inv_def)

lemma item_at_items:
  assumes "locvec_inv v" and "0 \<le> i" and "i < vec_size v"
  shows "item_at v i = Ok (items v ! nat i)"
  using assms by (auto simp: item_at_def locvec_inv_def items_def zless_nat_conj nat_less_iff)

lemma item_at_last: "locvec_inv v \<Longrightarrow> items v \<noteq> [] \<Longrightarrow> item_at v (vec_size v - 1) = Ok (last (items v))"
  by (simp add: item_at_items vec_size_items last_conv_nth nat_diff_distrib Suc_leI)

lemma SNetLocvecCreate_spec: "locvec_inv SNetLocvecCreate" "items SNetLocvecCreate = []"
  by (simp_all add: locvec_inv_def items_def SNetLocvecCreate_def)

lemma SNetLocvecCopy_spec:
  assumes "locvec_inv v"
  shows "\<exists>v'. SNetLocvecCopy v = Ok v' \<and> locvec_inv v' \<and> items v' = items v"
  using assms by (auto simp: SNetLocvecCopy_def locvec_inv_def items_def arr_alloc_def nth_append nat_le_iff)

lemma write_end:
  assumes "locvec_inv v" and "vec_size v < int (vec_capacity v)"
  shows "\<exists>v'. bindR (item_put v (vec_size v) x) (\<lambda>v. Ok (v\<lparr>vec_size := vec_size v + 1\<rparr>)) = Ok v' \<and>
     locvec_inv v' \<and> items v' = items v @ [x]"
proof -
  let ?n = "nat (vec_size v)"
  have n: "?n < length (vec_arr v)" "0 \<le> vec_size v" using assms by (simp_all add: locvec_inv_def nat_less_iff)
  let ?v = "v\<lparr>vec_arr := (vec_arr v)[?n := Some x], vec_size := vec_size v + 1\<rparr>"
  have "locvec_inv ?v" using assms n by (auto simp: locvec_inv_def nth_list_update nat_add_distrib)
  moreover have "items ?v = items v @ [x]"
    using n by (simp add: items_def nat_add_distrib take_Suc_conv_app_nth)
  ultimately show ?thesis using n by (auto simp: item_put_def)
qed

lemma SNetLocvecAppend_spec:
  assumes "locvec_inv v"
  shows "\<exists>v'. SNetLocvecAppend v t n = Ok v' \<and> locvec_inv v' \<and> items v' = items v @ [\<lparr>loc_type = t, loc_num = n\<rparr>]"
proof (cases "vec_size v = int (vec_capacity v)")
  case True
  let ?v = "v\<lparr>vec_capacity := vec_capacity v + 1, vec_arr := vec_arr v @ [None]\<rparr>"
  have g: "mem_cpy (arr_alloc (vec_capacity v + 1)) 0 (vec_arr v) 0 (nat (vec_size v)) = Ok (vec_arr v @ [None])"
    using assms True by (simp only: nat_int) (rule mem_cpy_grow, simp add: locvec_inv_def)
  have "locvec_inv ?v" "items ?v = items v" "vec_size ?v < int (vec_capacity ?v)"
    using assms True by (auto simp: locvec_inv_def items_def nth_append)
  with write_end[of ?v] True g show ?thesis by (simp add: SNetLocvecAppend_def LOCVEC_CAPACITY_DELTA_def)
next
  case False
  then have "vec_size v < int (vec_capacity v)" using assms by (simp add: locvec_inv_def)
  from write_end[OF assms this] False show ?thesis by (simp add: SNetLocvecAppend_def)
qed

lemma SNetLocvecPop_spec:
  assumes "locvec_inv v" and "items v \<noteq> []"
  shows "locvec_inv (SNetLocvecPop v)" and "items (SNetLocvecPop v) = butlast (items v)"
proof -
  have "0 < vec_size v" using assms by (simp add: vec_size_items)
  with assms(1) show "locvec_inv (SNetLocvecPop v)" "items (SNetLocvecPop v) = butlast (items v)"
    by (auto simp: locvec_inv_def SNetLocvecPop_def items_def map_butlast [symmetric] butlast_take nat_diff_distrib)
qed

definition top_type :: "snet_locvec \<Rightarrow> snet_loctype" where
  "top_type v = (if items v = [] then LOC_UNDEFINED else loc_type (last (items v)))"

lemma SNetLocvecToptype_spec: "locvec_inv v \<Longrightarrow> SNetLocvecToptype v = Ok (top_type v)"
  using item_at_last[of v] by (cases "items v = []") (simp_all add: SNetLocvecToptype_def top_type_def vec_size_items)

lemma assert_top_spec: "locvec_inv v \<Longrightarrow> assert_top v t = (if top_type v = t then Ok () else Err AssertFail)"
  by (simp add: assert_top_def SNetLocvecToptype_spec assertR_def)

lemma put_last:
  assumes "locvec_inv v" and "items v \<noteq> []"
  shows "\<exists>v'. item_put v (vec_size v - 1) x = Ok v' \<and> locvec_inv v' \<and> items v' = butlast (items v) @ [x]"
proof -
  let ?n = "nat (vec_size v - 1)"
  have s: "0 < vec_size v" "nat (vec_size v) = Suc ?n" using assms by (simp_all add: vec_size_items Suc_nat_eq_nat_zadd1)
  then have n: "?n < length (vec_arr v)" using assms(1) by (simp add: locvec_inv_def nat_less_iff)
  let ?v = "v\<lparr>vec_arr := (vec_arr v)[?n := Some x]\<rparr>"
  have "locvec_inv ?v" using assms(1) by (auto simp: locvec_inv_def nth_list_update)
  moreover have "items ?v = butlast (items v) @ [x]"
    using n by (simp add: items_def s(2) take_Suc_conv_app_nth)
  ultimately show ?thesis using n s(1) by (auto simp: item_put_def)
qed

lemma Topinc_spec:
  assumes "locvec_inv v" and "items v \<noteq> []" and "int_range (loc_num (last (items v)) + 1)"
  shows "\<exists>v'. SNetLocvecTopinc v = Ok v' \<and> locvec_inv v' \<and>
     items v' = butlast (items v) @ [(last (items v))\<lparr>loc_num := loc_num (last (items v)) + 1\<rparr>]"
  using put_last[OF assms(1,2)] by (simp add: SNetLocvecTopinc_def item_at_last assms c_int_in_range)

lemma Topdec_spec:
  assumes "locvec_inv v" and "items v \<noteq> []" and "int_range (loc_num (last (items v)) - 1)"
  shows "\<exists>v'. SNetLocvecTopdec v = Ok v' \<and> locvec_inv v' \<and>
     items v' = butlast (items v) @ [(last (items v))\<lparr>loc_num := loc_num (last (items v)) - 1\<rparr>]"
  using put_last[OF assms(1,2)] by (simp add: SNetLocvecTopdec_def item_at_last assms c_int_in_range)

lemma items_equal_spec:
  assumes "locvec_inv u" and "locvec_inv v"
  shows "0 \<le> i \<Longrightarrow> i + int n \<le> vec_size u \<Longrightarrow> i + int n \<le> vec_size v \<Longrightarrow>
     items_equal n u v i = Ok (take n (drop (nat i) (items u)) = take n (drop (nat i) (items v)))"
proof (induction n arbitrary: i)
  case 0
  then show ?case by simp
next
  case (Suc n)
  have len: "nat i < length (items u)" "nat i < length (items v)" using Suc.prems assms by (simp_all add: vec_size_items nat_less_iff)
  have ih: "items_equal n u v (i + 1) = Ok (take n (drop (Suc (nat i)) (items u)) = take n (drop (Suc (nat i)) (items v)))"
    using Suc.IH[of "i + 1"] Suc.prems by (simp add: Suc_nat_eq_nat_zadd1 add.commute)
  have "x = y \<longleftrightarrow> loc_type x = loc_type y \<and> loc_num x = loc_num y" for x y :: snet_locitem by (cases x, cases y) simp
  then show ?case
    using Suc.prems by (auto simp: item_at_items assms ih Cons_nth_drop_Suc[OF len(1), symmetric] Cons_nth_drop_Suc[OF len(2), symmetric])
qed

lemma SNetLocvecEqual_spec:
  assumes "locvec_inv u" and "locvec_inv v"
  shows "SNetLocvecEqual False u v = Ok (items u = items v)"
proof (cases "vec_size u = vec_size v")
  case True
  then show ?thesis using items_equal_spec[OF assms, of 0 "nat (vec_size u)"] assms
    by (simp add: SNetLocvecEqual_def vec_size_items)
next
  case False
  then show ?thesis using assms by (auto simp: SNetLocvecEqual_def vec_size_items)
qed

lemma top_type_append [simp]: "items v = xs @ [x] \<Longrightarrow> top_type v = loc_type x"
  by (simp add: top_type_def)

lemma star_spawns:
  assumes "locvec_inv v" and "items v = xs @ [\<lparr>loc_type = LOC_STAR, loc_num = k\<rparr>]" and "int_range k" and "int_range (k + int n)"
  shows "\<exists>v'. iterR n SNetLocvecStarSpawn v = Ok v' \<and> locvec_inv v' \<and> items v' = xs @ [\<lparr>loc_type = LOC_STAR, loc_num = k + int n\<rparr>]"
  using assms
proof (induction n arbitrary: v k)
  case 0
  then show ?case by simp
next
  case (Suc n)
  have r: "int_range (k + 1)" using Suc.prems(3,4) by (simp add: int_range_def)
  obtain v1 where v1: "SNetLocvecTopinc v = Ok v1" "locvec_inv v1" "items v1 = xs @ [\<lparr>loc_type = LOC_STAR, loc_num = k + 1\<rparr>]"
    using Topinc_spec[of v] Suc.prems r by auto
  from Suc.IH[OF v1(2,3) r] Suc.prems(4) v1 Suc.prems(1,2) show ?case
    by (simp add: SNetLocvecStarSpawn_def assert_top_spec ac_simps)
qed

lemma star_returns:
  assumes "locvec_inv v" and "items v = xs @ [\<lparr>loc_type = LOC_STAR, loc_num = k\<rparr>]" and "int_range k" and "int_range (k - int n)"
  shows "\<exists>v'. iterR n SNetLocvecStarSpawnRet v = Ok v' \<and> locvec_inv v' \<and> items v' = xs @ [\<lparr>loc_type = LOC_STAR, loc_num = k - int n\<rparr>]"
  using assms
proof (induction n arbitrary: v k)
  case 0
  then show ?case by simp
next
  case (Suc n)
  have r: "int_range (k - 1)" using Suc.prems(3,4) by (simp add: int_range_def)
  obtain v1 where v1: "SNetLocvecTopdec v = Ok v1" "locvec_inv v1" "items v1 = xs @ [\<lparr>loc_type = LOC_STAR, loc_num = k - 1\<rparr>]"
    using Topdec_spec[of v] Suc.prems r by auto
  from Suc.IH[OF v1(2,3) r] Suc.prems(4) v1 Suc.prems(1,2) show ?case
    by (simp add: SNetLocvecStarSpawnRet_def assert_top_spec algebra_simps)
qed

lemma SNetLocvecSplitSpawn_spec:
  assumes "locvec_inv v" and "top_type v = LOC_SPLIT"
  shows "\<exists>w. SNetLocvecSplitSpawn v i = Ok w \<and> locvec_inv w \<and> items w = butlast (items v) @ [\<lparr>loc_type = LOC_SPLIT, loc_num = i\<rparr>]"
proof -
  have ne: "items v \<noteq> []" using assms(2) by (auto simp: top_type_def)
  obtain c where c: "SNetLocvecCopy v = Ok c" "locvec_inv c" "items c = items v" using SNetLocvecCopy_spec[OF assms(1)] by blast
  from SNetLocvecPop_spec[of c] SNetLocvecAppend_spec[of "SNetLocvecPop c" LOC_SPLIT i] c ne assms
  show ?thesis by (simp add: SNetLocvecSplitSpawn_def assert_top_spec)
qed

text \<open>The string in a buffer.\<close>

definition c_string :: "char arr \<Rightarrow> string" where
  "c_string buf = map the (takeWhile (\<lambda>c. c \<noteq> Some NUL) buf)"

lemma decimal_no_NUL: "NUL \<notin> set (decimal n)"
proof (induction n rule: decimal.induct)
  case (1 n)
  have "NUL \<noteq> char_of (48 + k)" if "k < 10" for k :: nat
  proof
    assume "NUL = char_of (48 + k)"
    then have "(of_char NUL :: nat) = of_char (char_of (48 + k) :: char)" by simp
    then show False using that by (simp add: NUL_def)
  qed
  with 1 show ?case by (subst decimal.simps) auto
qed

lemma item_text_no_NUL: "NUL \<notin> set (item_text x)"
  using decimal_no_NUL by (cases "loc_type x") (auto simp: item_text_def NUL_def)

lemma c_string_str_cpy:
  assumes "NUL \<notin> set s" and "NUL \<notin> set pre" and "take (length pre) buf = map Some pre" and "length pre + length s < length buf"
  shows "\<exists>buf'. str_cpy buf (length pre) s = Ok buf' \<and> length buf' = length buf \<and>
     take (length (pre @ s)) buf' = map Some (pre @ s) \<and> c_string buf' = pre @ s"
proof -
  let ?b = "map Some pre @ map Some (s @ [NUL]) @ drop (length pre + (length s + 1)) buf"
  have len: "length ?b = length buf" using assms(4) by simp
  have "str_cpy buf (length pre) s = Ok ?b" using assms(3,4) by (simp add: str_cpy_def)
  moreover have "takeWhile (\<lambda>c. c \<noteq> Some NUL) (map Some (pre @ s) @ Some NUL # ys) = map Some (pre @ s)" for ys
    using assms(1,2) by (subst takeWhile_append2) auto
  then have "takeWhile (\<lambda>c. c \<noteq> Some NUL) ?b = map Some (pre @ s)" by simp
  then have "c_string ?b = pre @ s" by (simp add: c_string_def comp_def)
  ultimately show ?thesis using len by (intro exI[of _ ?b]) simp
qed

definition items_text :: "snet_locitem list \<Rightarrow> string" where
  "items_text xs = concat (map item_text xs)"

lemma items_text_simps [simp]:
  "items_text [] = []" "items_text (x # xs) = item_text x @ items_text xs" "items_text (xs @ ys) = items_text xs @ items_text ys"
  by (simp_all add: items_text_def)

lemma items_text_no_NUL: "NUL \<notin> set (items_text xs)"
  using item_text_no_NUL by (auto simp: items_text_def)

text \<open>Once an item did not fit, nothing is written any more.\<close>

lemma print_items_full:
  assumes "locvec_inv v"
  shows "sz \<le> cnt \<Longrightarrow> 0 \<le> i \<Longrightarrow> i + int n = vec_size v \<Longrightarrow>
     print_items n v i sz buf cnt = Ok (cnt + length (items_text (drop (nat i) (items v))), buf)"
proof (induction n arbitrary: i cnt)
  case 0
  then show ?case using assms by (simp add: vec_size_items)
next
  case (Suc n)
  have i: "nat i < length (items v)" using Suc.prems assms by (simp add: vec_size_items nat_less_iff)
  from Suc.prems Suc.IH[of "cnt + length (item_text (items v ! nat i))" "i + 1"] show ?case
    by (simp add: item_at_items assms Let_def nat_add_distrib Cons_nth_drop_Suc[OF i, symmetric])
qed

lemma print_items_spec:
  assumes "locvec_inv v" and "sz \<le> length buf"
  shows "0 \<le> i \<Longrightarrow> i + int n = vec_size v \<Longrightarrow> pre = items_text (take (nat i) (items v)) \<Longrightarrow> length pre < sz \<Longrightarrow>
     take (length pre) buf = map Some pre \<Longrightarrow> c_string buf = pre \<Longrightarrow> sz \<le> length buf \<Longrightarrow>
     \<exists>k buf'. print_items n v i sz buf (length pre) = Ok (length (items_text (items v)), buf') \<and>
       c_string buf' = items_text (take k (items v)) \<and> length (c_string buf') < sz \<and>
       (k < length (items v) \<longrightarrow> sz \<le> length (items_text (take (Suc k) (items v))))"
proof (induction n arbitrary: i pre buf)
  case 0
  then show ?case using assms by (intro exI[of _ "length (items v)"]) (simp add: vec_size_items)
next
  case (Suc n)
  let ?x = "items v ! nat i"
  have i: "nat i < length (items v)" using Suc.prems(1,2) assms by (simp add: vec_size_items nat_less_iff)
  have rd: "item_at v i = Ok ?x" using Suc.prems assms by (simp add: item_at_items)
  have pre': "pre @ item_text ?x = items_text (take (nat (i + 1)) (items v))"
    using Suc.prems(1,3) i by (simp add: nat_add_distrib take_Suc_conv_app_nth)
  have all: "pre @ item_text ?x @ items_text (drop (Suc (nat i)) (items v)) = items_text (items v)"
    unfolding Suc.prems(3) items_text_simps(2,3)[symmetric] using id_take_nth_drop[OF i] by simp
  show ?case
  proof (cases "length pre + length (item_text ?x) < sz")
    case True
    obtain b where b: "str_cpy buf (length pre) (item_text ?x) = Ok b" "length b = length buf"
      "take (length (pre @ item_text ?x)) b = map Some (pre @ item_text ?x)" "c_string b = pre @ item_text ?x"
      using c_string_str_cpy[OF item_text_no_NUL, of pre buf ?x] items_text_no_NUL Suc.prems(3,5,7) True by auto
    from Suc.IH[OF _ _ pre' _ b(3,4)] Suc.prems(1,2,7) True b rd show ?thesis
      by (simp add: Let_def)
  next
    case False
    then have "print_items n v (i + 1) sz buf (length pre + length (item_text ?x)) =
        Ok (length pre + length (item_text ?x) + length (items_text (drop (nat (i + 1)) (items v))), buf)"
      using Suc.prems by (intro print_items_full[OF assms(1)]) auto
    moreover have "length pre + length (item_text ?x) + length (items_text (drop (nat (i + 1)) (items v))) = length (items_text (items v))"
      using arg_cong[OF all, of length] Suc.prems(1) by (simp add: nat_add_distrib)
    ultimately show ?thesis using False rd Suc.prems pre' i
      by (intro exI[of _ "nat i"] exI[of _ buf]) (simp add: Let_def nat_add_distrib del: items_text_simps(3), simp add: take_Suc_conv_app_nth)
  qed
qed

section \<open>Properties\<close>

text \<open>
  Entering a star, spawning \<open>n\<close> replicas, returning from \<open>m\<close> of them and leaving restores the
  vector when \<open>m = n\<close> and fails the assertion of \<open>SNetLocvecStarLeave\<close> otherwise.
\<close>

lemma locvec_star_bracket:
  assumes "locvec_inv v" and "top_type v \<noteq> LOC_STAR" and "n < 2 ^ 31" and "m < 2 ^ 31"
  shows "\<exists>v'. bindR (SNetLocvecStarEnter v) (\<lambda>v. bindR (iterR n SNetLocvecStarSpawn v) (\<lambda>v.
       bindR (iterR m SNetLocvecStarSpawnRet v) SNetLocvecStarLeave)) = (if m = n then Ok v' else Err AssertFail) \<and>
     locvec_inv v' \<and> items v' = items v"
proof -
  obtain v1 where v1: "SNetLocvecStarEnter v = Ok v1" "locvec_inv v1" "items v1 = items v @ [\<lparr>loc_type = LOC_STAR, loc_num = -1\<rparr>]"
    using SNetLocvecAppend_spec[OF assms(1)] assms(1,2) by (auto simp: SNetLocvecStarEnter_def SNetLocvecToptype_spec)
  obtain v2 where v2: "iterR n SNetLocvecStarSpawn v1 = Ok v2" "locvec_inv v2" "items v2 = items v @ [\<lparr>loc_type = LOC_STAR, loc_num = -1 + int n\<rparr>]"
    using star_spawns[OF v1(2,3), of n] assms(3) by (auto simp: int_range_def)
  obtain v3 where v3: "iterR m SNetLocvecStarSpawnRet v2 = Ok v3" "locvec_inv v3" "items v3 = items v @ [\<lparr>loc_type = LOC_STAR, loc_num = -1 + int n - int m\<rparr>]"
    using star_returns[OF v2(2,3), of m] assms(3,4) by (auto simp: int_range_def)
  have "SNetLocvecStarLeave v3 = (if m = n then Ok (SNetLocvecPop v3) else Err AssertFail)"
    using v3(2,3) item_at_last[of v3] by (auto simp: SNetLocvecStarLeave_def assert_top_spec SNetLocvecTopval_def)
  moreover have "locvec_inv (SNetLocvecPop v3)" "items (SNetLocvecPop v3) = items v"
    using SNetLocvecPop_spec[of v3] v3(2,3) by auto
  ultimately show ?thesis using v1(1) v2(1) v3(1) by auto
qed

text \<open>
  The location vectors of two replicas of a split are equal exactly when the replicas have
  the same tag value, and the vector of the split itself is not changed.
\<close>

lemma locvec_split_unique:
  assumes "locvec_inv v" and "top_type v = LOC_SPLIT"
  shows "\<exists>a b. SNetLocvecSplitSpawn v i = Ok a \<and> SNetLocvecSplitSpawn v j = Ok b \<and> SNetLocvecEqual False a b = Ok (i = j)"
  using SNetLocvecSplitSpawn_spec[OF assms, of i] SNetLocvecSplitSpawn_spec[OF assms, of j]
  by (auto simp: SNetLocvecEqual_spec)

text \<open>
  Printing a location vector never writes outside a buffer of at least the given size; it
  returns the length of the full text and leaves in the buffer the text of the longest sequence of
  leading items that fits with its terminating zero.
\<close>

lemma locvec_print:
  assumes "locvec_inv v" and "0 < sz" and "sz \<le> length buf"
  shows "\<exists>k buf'. SNetLocvecPrint buf (int sz) v = Ok (length (items_text (items v)), buf') \<and>
     c_string buf' = items_text (take k (items v)) \<and> length (c_string buf') < sz \<and>
     (k < length (items v) \<longrightarrow> sz \<le> length (items_text (take (Suc k) (items v))))"
proof -
  have "c_string (buf[0 := Some NUL]) = []" using assms(2,3) by (cases buf) (auto simp: c_string_def)
  with print_items_spec[OF assms(1), of sz "buf[0 := Some NUL]" 0 "nat (vec_size v)" "[]"] assms
  show ?thesis by (auto simp: SNetLocvecPrint_def arr_write_in locvec_inv_def)
qed

end
