(* ===== verification/Snet_Stream.thy ===== *)
theory Snet_Stream
  imports Fifo_Spec Locvec
begin

text \<open>
  Streams of the pthread layer (\<open>threading/pthread/stream.c\<close>): bounded ring buffers with one
  producer and one consumer. The first part is the effect of each operation on the stream; the
  second part is the interleaving of the two threads with their condition variables, and the
  third the interleaving of a polling consumer with the producers of a set of streams. Sections
  under the lock of a stream are atomic; waiting on a condition variable gives the lock back.
\<close>

section \<open>Data and operations\<close>

definition SNET_STREAM_DEFAULT_CAPACITY :: nat where "SNET_STREAM_DEFAULT_CAPACITY = 16"

text \<open>
  A cell of the buffer is a pointer, \<open>None\<close> being NULL. Descriptors and callbacks are addresses.
\<close>

record 'a snet_stream =
  s_buffer :: "'a option list"
  s_head :: nat
  s_tail :: nat
  s_size :: nat
  s_count :: nat
  producer :: "nat option"
  consumer :: "nat option"
  is_poll :: bool
  source :: "snet_locvec option"
  callback_func :: "nat option"
  callback_arg :: "nat option"

record snet_stream_desc =
  sd_stream :: nat
  sd_mode :: char
  sd_next :: "nat option"

definition SNetStreamSetSource :: "'a snet_stream \<Rightarrow> snet_locvec \<Rightarrow> 'a snet_stream res" where
  "SNetStreamSetSource s lv = bindR (SNetLocvecCopy lv) (\<lambda>c. Ok (s\<lparr>source := Some c\<rparr>))"

definition SNetStreamGetSource :: "'a snet_stream \<Rightarrow> snet_locvec option" where
  "SNetStreamGetSource s = source s"

definition SNetStreamRegisterReadCallback :: "'a snet_stream \<Rightarrow> nat option \<Rightarrow> nat option \<Rightarrow> 'a snet_stream" where
  "SNetStreamRegisterReadCallback s callback cbarg = s\<lparr>callback_func := callback, callback_arg := cbarg\<rparr>"

definition SNetStreamGetCallbackArg :: "'a snet_stream \<Rightarrow> nat option" where
  "SNetStreamGetCallbackArg s = callback_arg s"

definition SNetStreamCreate :: "int \<Rightarrow> 'a snet_stream" where
  "SNetStreamCreate capacity =
     (let sz = (if capacity > 0 then nat capacity else SNET_STREAM_DEFAULT_CAPACITY) in
      \<lparr>s_buffer = replicate sz None, s_head = 0, s_tail = 0, s_size = sz, s_count = 0, producer = None, consumer = None,
       is_poll = False, source = None, callback_func = None, callback_arg = None\<rparr>)"

text \<open>Opening the stream with address \<open>a\<close> under the descriptor address \<open>sd\<close>.\<close>

definition SNetStreamOpen :: "'a snet_stream \<Rightarrow> nat \<Rightarrow> nat \<Rightarrow> char \<Rightarrow> (snet_stream_desc \<times> 'a snet_stream) res" where
  "SNetStreamOpen s a sd mode =
     bindR (assertR (mode = CHR ''w'' \<or> mode = CHR ''r'')) (\<lambda>_.
     Ok (\<lparr>sd_stream = a, sd_mode = mode, sd_next = None\<rparr>,
         if mode = CHR ''w'' then s\<lparr>producer := Some sd\<rparr> else s\<lparr>consumer := Some sd\<rparr>))"

text \<open>The new stream takes over the consumer; the old one is destroyed.\<close>

definition SNetStreamReplace :: "snet_stream_desc \<Rightarrow> nat \<Rightarrow> 'a snet_stream \<Rightarrow> nat \<Rightarrow> (snet_stream_desc \<times> 'a snet_stream) res" where
  "SNetStreamReplace d sd new_stream a =
     bindR (assertR (sd_mode d = CHR ''r'')) (\<lambda>_.
     Ok (d\<lparr>sd_stream := a\<rparr>, new_stream\<lparr>consumer := Some sd, is_poll := False\<rparr>))"

definition SNetStreamGet :: "snet_stream_desc \<Rightarrow> nat" where
  "SNetStreamGet d = sd_stream d"

text \<open>
  A read of an empty stream and a write to a full one wait. A read returns the item, the stream and
  whether \<open>notfull\<close> is signalled; a write returns the stream, whether \<open>notempty\<close> is signalled and
  whether the consumer is to be woken from a poll. The assertions on the mode of the descriptor
  hold by construction here: an operation is given the stream of a descriptor of its mode.
\<close>

definition SNetStreamRead :: "'a snet_stream \<Rightarrow> ('a option \<times> 'a snet_stream \<times> bool) res" where
  "SNetStreamRead s =
     (if s_count s = 0 then Err NoProgress
      else if s_head s < length (s_buffer s) then
        bindR (c_mod (s_head s + 1) (s_size s)) (\<lambda>h.
        Ok (s_buffer s ! s_head s,
            s\<lparr>s_buffer := (s_buffer s)[s_head s := None], s_head := h, s_count := s_count s - 1\<rparr>,
            s_count s - 1 = s_size s - 1))
      else Err OutOfBounds)"

definition SNetStreamPeek :: "'a snet_stream \<Rightarrow> 'a option res" where
  "SNetStreamPeek s =
     (if s_count s > 0 then
        (if s_head s < length (s_buffer s) then Ok (s_buffer s ! s_head s) else Err OutOfBounds)
      else Ok None)"

definition SNetStreamWrite :: "'a snet_stream \<Rightarrow> 'a option \<Rightarrow> ('a snet_stream \<times> bool \<times> bool) res" where
  "SNetStreamWrite s item =
     (if s_count s = s_size s then Err NoProgress
      else if s_tail s < length (s_buffer s) then
        bindR (c_mod (s_tail s + 1) (s_size s)) (\<lambda>t.
        Ok (s\<lparr>s_buffer := (s_buffer s)[s_tail s := item], s_tail := t, s_count := s_count s + 1, is_poll := False\<rparr>,
            s_count s + 1 = 1, is_poll s))
      else Err OutOfBounds)"

text \<open>\<open>-1\<close> with the stream unchanged when it is full.\<close>

definition SNetStreamTryWrite :: "'a snet_stream \<Rightarrow> 'a option \<Rightarrow> (int \<times> 'a snet_stream) res" where
  "SNetStreamTryWrite s item =
     (if s_count s = s_size s then Ok (-1, s)
      else bindR (SNetStreamWrite s item) (\<lambda>(s', _). Ok (0, s')))"

section \<open>The stream as a bounded queue\<close>

definition stream_inv :: "'a snet_stream \<Rightarrow> bool" where
  "stream_inv s \<longleftrightarrow> 0 < s_size s \<and> length (s_buffer s) = s_size s \<and> s_head s < s_size s \<and>
     s_count s \<le> s_size s \<and> s_tail s = (s_head s + s_count s) mod s_size s"

definition contents :: "'a snet_stream \<Rightarrow> 'a option list" where
  "contents s = map (\<lambda>i. s_buffer s ! ((s_head s + i) mod s_size s)) [0..<s_count s]"

lemma length_contents [simp]: "length (contents s) = s_count s"
  by (simp add: contents_def)

lemma stream_create: "stream_inv (SNetStreamCreate c)" "contents (SNetStreamCreate c) = []" "0 < s_size (SNetStreamCreate c)"
  by (simp_all add: stream_inv_def contents_def SNetStreamCreate_def SNET_STREAM_DEFAULT_CAPACITY_def Let_def)

lemma SNetStreamWrite_spec:
  assumes "stream_inv s" and "s_count s < s_size s"
  shows "\<exists>s'. SNetStreamWrite s x = Ok (s', s_count s = 0, is_poll s) \<and> stream_inv s' \<and> contents s' = contents s @ [x] \<and>
     s_size s' = s_size s \<and> s_count s' = s_count s + 1 \<and> \<not> is_poll s'"
proof -
  let ?s = "s\<lparr>s_buffer := (s_buffer s)[s_tail s := x], s_tail := (s_tail s + 1) mod s_size s, s_count := s_count s + 1, is_poll := False\<rparr>"
  have t: "s_tail s < length (s_buffer s)" "s_tail s = (s_head s + s_count s) mod s_size s"
    using assms by (simp_all add: stream_inv_def)
  have "stream_inv ?s" using assms by (auto simp: stream_inv_def mod_Suc_eq)
  moreover have "contents ?s = contents s @ [x]"
  proof -
    have "s_tail s \<noteq> (s_head s + i) mod s_size s" if "i < s_count s" for i
      unfolding t(2) using ring_index_inj[of i "s_size s" "s_count s" "s_head s"] that assms(2) by auto
    moreover have "(s_head s + s_count s) mod s_size s = s_tail s" by (simp add: t(2))
    ultimately show ?thesis using t(1) by (simp add: contents_def)
  qed
  ultimately show ?thesis using t(1) assms by (simp add: SNetStreamWrite_def stream_inv_def c_mod_def)
qed

lemma SNetStreamWrite_full: "s_count s = s_size s \<Longrightarrow> SNetStreamWrite s x = Err NoProgress"
  by (simp add: SNetStreamWrite_def)

lemma SNetStreamRead_spec:
  assumes "stream_inv s" and "0 < s_count s"
  shows "\<exists>x s'. SNetStreamRead s = Ok (x, s', s_count s = s_size s) \<and> stream_inv s' \<and> contents s = x # contents s' \<and>
     s_size s' = s_size s \<and> s_count s' = s_count s - 1 \<and> is_poll s' = is_poll s"
proof -
  let ?s = "s\<lparr>s_buffer := (s_buffer s)[s_head s := None], s_head := (s_head s + 1) mod s_size s, s_count := s_count s - 1\<rparr>"
  have h: "s_head s < length (s_buffer s)" "s_head s = (s_head s + 0) mod s_size s"
    using assms by (simp_all add: stream_inv_def)
  have "(s_head s + 1) mod s_size s + (s_count s - 1) = (s_head s + 1) mod s_size s + s_count s - 1" using assms(2) by simp
  moreover have "((s_head s + 1) mod s_size s + (s_count s - 1)) mod s_size s = (s_head s + s_count s) mod s_size s"
    using assms(2) by (subst mod_add_left_eq) simp
  ultimately have "stream_inv ?s" using assms by (auto simp: stream_inv_def)
  moreover have "contents s = s_buffer s ! s_head s # contents ?s"
  proof -
    have cell: "(s_buffer s)[s_head s := None] ! (((s_head s + 1) mod s_size s + i) mod s_size s) = s_buffer s ! ((s_head s + Suc i) mod s_size s)"
      if "i < s_count s - 1" for i
    proof -
      have "s_count s \<le> s_size s" using assms(1) by (simp add: stream_inv_def)
      then have "Suc i < s_size s" using that by simp
      then have "(s_head s + Suc i) mod s_size s \<noteq> (s_head s + 0) mod s_size s"
        using ring_index_inj[of "Suc i" "s_size s" 0 "s_head s"] by auto
      then show ?thesis using h(2) by (simp add: mod_simps)
    qed
    have "contents s = map (\<lambda>i. s_buffer s ! ((s_head s + i) mod s_size s)) [0..<Suc (s_count s - 1)]"
      using assms(2) by (simp add: contents_def del: upt_Suc)
    also have "\<dots> = s_buffer s ! ((s_head s + 0) mod s_size s) # map (\<lambda>i. s_buffer s ! ((s_head s + Suc i) mod s_size s)) [0..<s_count s - 1]"
      by (simp only: map_upt_Suc_first)
    also have "map (\<lambda>i. s_buffer s ! ((s_head s + Suc i) mod s_size s)) [0..<s_count s - 1] = contents ?s"
      using cell by (auto simp: contents_def)
    finally show ?thesis using h(2) by simp
  qed
  moreover have "(s_count s - 1 = s_size s - 1) = (s_count s = s_size s)" using assms by (auto simp: stream_inv_def)
  ultimately show ?thesis using h(1) assms by (simp add: SNetStreamRead_def stream_inv_def c_mod_def)
qed

lemma SNetStreamPeek_spec:
  "stream_inv s \<Longrightarrow> SNetStreamPeek s = Ok (if contents s = [] then None else hd (contents s))"
  using SNetStreamRead_spec[of s] by (auto simp: SNetStreamPeek_def SNetStreamRead_def stream_inv_def contents_def hd_map upt_conv_Cons)

definition stream_put :: "'a snet_stream \<Rightarrow> 'a option \<Rightarrow> 'a snet_stream res" where
  "stream_put s x = bindR (SNetStreamWrite s x) (\<lambda>(s', _). Ok s')"

definition stream_get :: "'a snet_stream \<Rightarrow> ('a option \<times> 'a snet_stream) res" where
  "stream_get s = bindR (SNetStreamRead s) (\<lambda>(x, s', _). Ok (x, s'))"

interpretation stream: fifo stream_inv contents stream_put stream_get
proof unfold_locales
  show "stream_inv q' \<and> contents q' = contents q @ [x]" if "stream_inv q" "stream_put q x = Ok q'" for q x q'
  proof -
    have "s_count q < s_size q" using that by (auto simp: stream_put_def SNetStreamWrite_def stream_inv_def split: if_splits)
    with SNetStreamWrite_spec[OF that(1), of x] that(2) show ?thesis by (auto simp: stream_put_def)
  qed
  show "stream_inv q' \<and> contents q = x # contents q'" if "stream_inv q" "stream_get q = Ok (x, q')" for q x q'
  proof -
    have "0 < s_count q" using that by (auto simp: stream_get_def SNetStreamRead_def split: if_splits)
    with SNetStreamRead_spec[OF that(1)] that(2) show ?thesis by (auto simp: stream_get_def)
  qed
  show "is_Ok (stream_get q)" if "stream_inv q" "contents q \<noteq> []" for q
  proof -
    have "0 < s_count q" using that(2) length_contents[of q] by (simp del: length_contents add: length_greater_0_conv[symmetric])
    with SNetStreamRead_spec[OF that(1)] show ?thesis by (auto simp: stream_get_def)
  qed
qed

section \<open>Producer and consumer\<close>

text \<open>
  The producer writes a given sequence of items, each with \<open>SNetStreamWrite\<close> or with
  \<open>SNetStreamTryWrite\<close>, and the consumer reads for ever. \<open>PTry x\<close> is a producer inside
  \<open>SNetStreamTryWrite\<close> after its test and before its write. A thread in \<open>PWait\<close> or \<open>CWait\<close> waits on
  its condition variable; it leaves it by the signal or, as POSIX allows, for no reason.
\<close>

datatype 'a pstate = PRun | PWait | PTry "'a option"
datatype cstate = CRun | CWait

record 'a chan =
  ch_stream :: "'a snet_stream"
  ch_todo :: "(bool \<times> 'a option) list"
  ch_prod :: "'a pstate"
  ch_cons :: cstate
  ch_sent :: "'a option list"
  ch_got :: "'a option list"

definition wake_cons :: "bool \<Rightarrow> cstate \<Rightarrow> cstate" where
  "wake_cons b c = (if b then CRun else c)"

definition wake_prod :: "bool \<Rightarrow> 'a pstate \<Rightarrow> 'a pstate" where
  "wake_prod b p = (if b \<and> p = PWait then PRun else p)"

inductive chan_step :: "'a chan \<Rightarrow> 'a chan \<Rightarrow> bool" where
  put_item: "ch_prod c = PRun \<Longrightarrow> ch_todo c = (False, x) # xs \<Longrightarrow> SNetStreamWrite (ch_stream c) x = Ok (s, ne, p) \<Longrightarrow>
    chan_step c (c\<lparr>ch_stream := s, ch_todo := xs, ch_cons := wake_cons ne (ch_cons c), ch_sent := ch_sent c @ [x]\<rparr>)"
| write_wait: "ch_prod c = PRun \<Longrightarrow> ch_todo c = (False, x) # xs \<Longrightarrow> SNetStreamWrite (ch_stream c) x = Err NoProgress \<Longrightarrow>
    chan_step c (c\<lparr>ch_prod := PWait\<rparr>)"
| try_full: "ch_prod c = PRun \<Longrightarrow> ch_todo c = (True, x) # xs \<Longrightarrow> s_count (ch_stream c) = s_size (ch_stream c) \<Longrightarrow>
    chan_step c (c\<lparr>ch_todo := xs\<rparr>)"
| try_test: "ch_prod c = PRun \<Longrightarrow> ch_todo c = (True, x) # xs \<Longrightarrow> s_count (ch_stream c) \<noteq> s_size (ch_stream c) \<Longrightarrow>
    chan_step c (c\<lparr>ch_todo := xs, ch_prod := PTry x\<rparr>)"
| try_write: "ch_prod c = PTry x \<Longrightarrow> SNetStreamWrite (ch_stream c) x = Ok (s, ne, p) \<Longrightarrow>
    chan_step c (c\<lparr>ch_stream := s, ch_prod := PRun, ch_cons := wake_cons ne (ch_cons c), ch_sent := ch_sent c @ [x]\<rparr>)"
| read: "ch_cons c = CRun \<Longrightarrow> SNetStreamRead (ch_stream c) = Ok (x, s, nf) \<Longrightarrow>
    chan_step c (c\<lparr>ch_stream := s, ch_prod := wake_prod nf (ch_prod c), ch_got := ch_got c @ [x]\<rparr>)"
| read_wait: "ch_cons c = CRun \<Longrightarrow> SNetStreamRead (ch_stream c) = Err NoProgress \<Longrightarrow> chan_step c (c\<lparr>ch_cons := CWait\<rparr>)"
| spurious_prod: "ch_prod c = PWait \<Longrightarrow> chan_step c (c\<lparr>ch_prod := PRun\<rparr>)"
| spurious_cons: "ch_cons c = CWait \<Longrightarrow> chan_step c (c\<lparr>ch_cons := CRun\<rparr>)"

definition chan_start :: "int \<Rightarrow> (bool \<times> 'a option) list \<Rightarrow> 'a chan" where
  "chan_start cap todo = \<lparr>ch_stream = SNetStreamCreate cap, ch_todo = todo, ch_prod = PRun, ch_cons = CRun, ch_sent = [], ch_got = []\<rparr>"

text \<open>
  The invariant: a waiting consumer sees an empty stream and a waiting producer a full one, so that
  no wake-up was lost; a producer past the test of \<open>SNetStreamTryWrite\<close> finds room; what was sent is
  what was received followed by what is in the buffer.
\<close>

definition chan_inv :: "'a chan \<Rightarrow> bool" where
  "chan_inv c \<longleftrightarrow> stream_inv (ch_stream c) \<and>
     (ch_cons c = CWait \<longrightarrow> s_count (ch_stream c) = 0) \<and>
     (ch_prod c = PWait \<longrightarrow> s_count (ch_stream c) = s_size (ch_stream c) \<and> (\<exists>x xs. ch_todo c = (False, x) # xs)) \<and>
     (\<forall>x. ch_prod c = PTry x \<longrightarrow> s_count (ch_stream c) < s_size (ch_stream c)) \<and>
     ch_sent c = ch_got c @ contents (ch_stream c)"

lemma chan_inv_start: "chan_inv (chan_start cap todo)"
  by (simp add: chan_inv_def chan_start_def stream_create)

lemma write_Ok_inv:
  assumes "stream_inv s" and "SNetStreamWrite s x = Ok (s', ne, p)"
  shows "stream_inv s'" "contents s' = contents s @ [x]" "ne \<longleftrightarrow> s_count s = 0" "s_count s' = s_count s + 1" "s_size s' = s_size s"
    "\<not> is_poll s'" "p = is_poll s"
proof -
  have "s_count s < s_size s" using assms by (auto simp: SNetStreamWrite_def stream_inv_def split: if_splits)
  from SNetStreamWrite_spec[OF assms(1) this, of x] assms(2)
  show "stream_inv s'" "contents s' = contents s @ [x]" "ne \<longleftrightarrow> s_count s = 0" "s_count s' = s_count s + 1" "s_size s' = s_size s"
    "\<not> is_poll s'" "p = is_poll s" by auto
qed

lemma read_Ok_inv:
  assumes "stream_inv s" and "SNetStreamRead s = Ok (x, s', nf)"
  shows "stream_inv s'" "contents s = x # contents s'" "nf \<longleftrightarrow> s_count s = s_size s" "s_count s = s_count s' + 1" "s_size s' = s_size s"
proof -
  have "0 < s_count s" using assms by (auto simp: SNetStreamRead_def split: if_splits)
  with SNetStreamRead_spec[OF assms(1) this] assms(2)
  show "stream_inv s'" "contents s = x # contents s'" "nf \<longleftrightarrow> s_count s = s_size s" "s_count s = s_count s' + 1" "s_size s' = s_size s"
    by auto
qed

lemma write_waits_iff: "stream_inv s \<Longrightarrow> SNetStreamWrite s x = Err NoProgress \<longleftrightarrow> s_count s = s_size s"
  using SNetStreamWrite_spec[of s x] SNetStreamWrite_full[of s x] by (fastforce simp: stream_inv_def)

lemma read_waits_iff: "stream_inv s \<Longrightarrow> SNetStreamRead s = Err NoProgress \<longleftrightarrow> s_count s = 0"
  using SNetStreamRead_spec[of s] by (fastforce simp: SNetStreamRead_def)

lemma chan_inv_step:
  assumes "chan_step c c'" and "chan_inv c"
  shows "chan_inv c'"
  using assms
proof (induction rule: chan_step.induct)
  case (put_item c x xs s ne p)
  then have "stream_inv (ch_stream c)" by (simp add: chan_inv_def)
  note w = write_Ok_inv[OF this put_item.hyps(3)]
  from put_item w show ?case by (auto simp: chan_inv_def wake_cons_def)
next
  case (try_write c x s ne p)
  then have "stream_inv (ch_stream c)" by (simp add: chan_inv_def)
  note w = write_Ok_inv[OF this try_write.hyps(2)]
  from try_write w show ?case by (auto simp: chan_inv_def wake_cons_def)
next
  case (read c x s nf)
  then have "stream_inv (ch_stream c)" by (simp add: chan_inv_def)
  note r = read_Ok_inv[OF this read.hyps(2)]
  from read r show ?case by (auto simp: chan_inv_def wake_prod_def)
next
  case (try_test c x xs)
  then show ?case by (auto simp: chan_inv_def stream_inv_def)
qed (auto simp: chan_inv_def write_waits_iff read_waits_iff)

lemma chan_inv_reachable: "chan_step\<^sup>*\<^sup>* (chan_start cap todo) c \<Longrightarrow> chan_inv c"
  by (induction rule: rtranclp_induct) (auto intro: chan_inv_start chan_inv_step)

section \<open>Polling a set of streams\<close>

text \<open>
  \<open>SNetStreamPoll\<close> on \<open>n\<close> streams, numbered in the order of the set, while their producers write:
  the fast path scans all streams and keeps the last non-empty one, then the streams are
  registered one by one until a non-empty one is found, the thread waits for \<open>wakeup_sd\<close>, and
  the first \<open>cnt\<close> streams are deregistered.
\<close>

datatype poll_phase =
    Scan nat "nat option"
  | ResetWakeup
  | Register nat
  | Waiting int
  | Deregister nat int nat
  | Done nat

record 'a poller =
  p_streams :: "nat \<Rightarrow> 'a snet_stream"
  p_wakeup :: "nat option"
  p_phase :: poll_phase

definition set_poll :: "nat \<Rightarrow> bool \<Rightarrow> 'a poller \<Rightarrow> 'a poller" where
  "set_poll i b c = c\<lparr>p_streams := (p_streams c)(i := (p_streams c i)\<lparr>is_poll := b\<rparr>)\<rparr>"

definition wake :: "bool \<Rightarrow> nat \<Rightarrow> nat option \<Rightarrow> nat option" where
  "wake b i w = (if b \<and> w = None then Some i else w)"

inductive poll_step :: "nat \<Rightarrow> 'a poller \<Rightarrow> 'a poller \<Rightarrow> bool" for n where
  produce: "i < n \<Longrightarrow> SNetStreamWrite (p_streams c i) x = Ok (s, ne, p) \<Longrightarrow>
    poll_step n c (c\<lparr>p_streams := (p_streams c)(i := s), p_wakeup := wake p i (p_wakeup c)\<rparr>)"
| scan: "p_phase c = Scan i r \<Longrightarrow> i < n \<Longrightarrow>
    poll_step n c (c\<lparr>p_phase := Scan (i + 1) (if s_count (p_streams c i) > 0 then Some i else r)\<rparr>)"
| scan_hit: "p_phase c = Scan n (Some r) \<Longrightarrow> poll_step n c (c\<lparr>p_phase := Done r\<rparr>)"
| scan_miss: "p_phase c = Scan n None \<Longrightarrow> poll_step n c (c\<lparr>p_phase := ResetWakeup\<rparr>)"
| reset: "p_phase c = ResetWakeup \<Longrightarrow> poll_step n c (c\<lparr>p_wakeup := None, p_phase := Register 0\<rparr>)"
| register_hit: "p_phase c = Register i \<Longrightarrow> i < n \<Longrightarrow> s_count (p_streams c i) > 0 \<Longrightarrow>
    poll_step n c (c\<lparr>p_wakeup := wake True i (p_wakeup c), p_phase := Waiting (int i)\<rparr>)"
| register_miss: "p_phase c = Register i \<Longrightarrow> i < n \<Longrightarrow> s_count (p_streams c i) = 0 \<Longrightarrow>
    poll_step n c (set_poll i True (c\<lparr>p_phase := Register (i + 1)\<rparr>))"
| register_end: "p_phase c = Register n \<Longrightarrow> poll_step n c (c\<lparr>p_phase := Waiting (int n)\<rparr>)"
| wakeup: "p_phase c = Waiting k \<Longrightarrow> p_wakeup c = Some r \<Longrightarrow>
    poll_step n c (c\<lparr>p_wakeup := None, p_phase := Deregister 0 k r\<rparr>)"
| deregister: "p_phase c = Deregister j k r \<Longrightarrow> j < n \<Longrightarrow>
    poll_step n c (set_poll j False (c\<lparr>p_phase := (if k - 1 = 0 \<or> j + 1 = n then Done r else Deregister (j + 1) (k - 1) r)\<rparr>))"

definition poll_start :: "(nat \<Rightarrow> 'a snet_stream) \<Rightarrow> nat option \<Rightarrow> 'a poller" where
  "poll_start ss w = \<lparr>p_streams = ss, p_wakeup = w, p_phase = Scan 0 None\<rparr>"

definition nonempty :: "'a poller \<Rightarrow> nat \<Rightarrow> nat \<Rightarrow> bool" where
  "nonempty c n r \<longleftrightarrow> r < n \<and> 0 < s_count (p_streams c r)"

definition flags_within :: "'a poller \<Rightarrow> nat \<Rightarrow> int \<Rightarrow> int \<Rightarrow> bool" where
  "flags_within c n a b \<longleftrightarrow> (\<forall>j<n. is_poll (p_streams c j) \<longrightarrow> a \<le> int j \<and> int j < b)"

definition poll_inv :: "nat \<Rightarrow> 'a poller \<Rightarrow> bool" where
  "poll_inv n c \<longleftrightarrow> (\<forall>j<n. stream_inv (p_streams c j)) \<and>
     (case p_phase c of
        Scan i r \<Rightarrow> i \<le> n \<and> flags_within c n 0 0 \<and> (\<forall>q. r = Some q \<longrightarrow> nonempty c n q)
      | ResetWakeup \<Rightarrow> flags_within c n 0 0
      | Register i \<Rightarrow> i \<le> n \<and> flags_within c n 0 (int i) \<and>
          (\<forall>j<n. is_poll (p_streams c j) \<longrightarrow> s_count (p_streams c j) = 0) \<and>
          (case p_wakeup c of None \<Rightarrow> \<forall>j<i. is_poll (p_streams c j) | Some q \<Rightarrow> nonempty c n q)
      | Waiting k \<Rightarrow> k \<le> int n \<and> flags_within c n 0 k \<and>
          (\<forall>j<n. is_poll (p_streams c j) \<longrightarrow> s_count (p_streams c j) = 0) \<and>
          (case p_wakeup c of None \<Rightarrow> \<forall>j<n. is_poll (p_streams c j) | Some q \<Rightarrow> nonempty c n q)
      | Deregister j k r \<Rightarrow> int j + k \<le> int n \<and> flags_within c n (int j) (int j + k) \<and> nonempty c n r
      | Done r \<Rightarrow> flags_within c n 0 0 \<and> nonempty c n r)"

lemma poll_inv_produce:
  assumes "poll_inv n c" and "i < n" and "SNetStreamWrite (p_streams c i) x = Ok (s, ne, p)"
  shows "poll_inv n (c\<lparr>p_streams := (p_streams c)(i := s), p_wakeup := wake p i (p_wakeup c)\<rparr>)" (is "poll_inv n ?c")
proof -
  have "stream_inv (p_streams c i)" using assms(1,2) by (simp add: poll_inv_def)
  note w = write_Ok_inv[OF this assms(3)]
  have fl: "flags_within c n a b \<Longrightarrow> flags_within ?c n a b" for a b using w by (auto simp: flags_within_def)
  have ne: "nonempty c n r \<Longrightarrow> nonempty ?c n r" for r using w by (auto simp: nonempty_def)
  have ne_i: "nonempty ?c n i" using w assms(2) by (simp add: nonempty_def)
  show ?thesis
  proof (cases "p_phase c")
    case (Register m)
    with assms w fl ne ne_i show ?thesis
      by (cases "p_wakeup c") (auto simp: poll_inv_def wake_def)
  next
    case (Waiting k)
    with assms w fl ne ne_i show ?thesis
      by (cases "p_wakeup c") (auto simp: poll_inv_def wake_def)
  qed (use assms w fl ne in \<open>auto simp: poll_inv_def\<close>)
qed

lemma set_poll_stream: "p_streams (set_poll i b c) j = (if j = i then (p_streams c j)\<lparr>is_poll := b\<rparr> else p_streams c j)"
  by (simp add: set_poll_def)

lemma set_poll_simps [simp]:
  "p_phase (set_poll i b c) = p_phase c" "p_wakeup (set_poll i b c) = p_wakeup c"
  "s_count (p_streams (set_poll i b c) j) = s_count (p_streams c j)"
  "stream_inv (p_streams (set_poll i b c) j) = stream_inv (p_streams c j)"
  "is_poll (p_streams (set_poll i b c) j) = (if j = i then b else is_poll (p_streams c j))"
  "nonempty (set_poll i b c) n r = nonempty c n r"
  by (auto simp: set_poll_def nonempty_def stream_inv_def)

lemma poll_inv_deregister:
  assumes "poll_inv n c" and "p_phase c = Deregister j k r" and "j < n"
  shows "poll_inv n (set_poll j False (c\<lparr>p_phase := (if k - 1 = 0 \<or> j + 1 = n then Done r else Deregister (j + 1) (k - 1) r)\<rparr>))"
    (is "poll_inv n ?c")
proof -
  from assms have i: "\<forall>j<n. stream_inv (p_streams c j)" "int j + k \<le> int n" "nonempty c n r"
    and f: "flags_within c n (int j) (int j + k)" by (auto simp: poll_inv_def)
  have ne: "nonempty ?c n r" using i(3) by (simp add: nonempty_def)
  have f': "flags_within ?c n (int j + 1) (int j + k)"
    unfolding flags_within_def
  proof (intro allI impI)
    fix m assume m: "m < n" "is_poll (p_streams ?c m)"
    then have "m \<noteq> j" "is_poll (p_streams c m)" by (auto split: if_splits)
    with f m(1) show "int j + 1 \<le> int m \<and> int m < int j + k" by (fastforce simp: flags_within_def)
  qed
  show ?thesis
  proof (cases "k - 1 = 0 \<or> j + 1 = n")
    case True
    have "flags_within ?c n 0 0"
      unfolding flags_within_def
    proof (intro allI impI)
      fix m assume m: "m < n" "is_poll (p_streams ?c m)"
      with f' have "int j + 1 \<le> int m" "int m < int j + k" by (auto simp: flags_within_def)
      with m(1) True show "0 \<le> int m \<and> int m < 0" by linarith
    qed
    with True i(1) ne show ?thesis by (simp add: poll_inv_def)
  next
    case False
    with f' i ne show ?thesis by (simp add: poll_inv_def ac_simps)
  qed
qed

lemma poll_inv_register_miss:
  assumes "poll_inv n c" and "p_phase c = Register i" and "i < n" and "s_count (p_streams c i) = 0"
  shows "poll_inv n (set_poll i True (c\<lparr>p_phase := Register (i + 1)\<rparr>))" (is "poll_inv n ?c")
proof -
  have "flags_within ?c n 0 (int (i + 1))"
    using assms(1,2) by (auto simp: poll_inv_def flags_within_def)
  moreover have "nonempty c n q \<Longrightarrow> nonempty (c\<lparr>p_phase := Register (i + 1)\<rparr>) n q" for q by (simp add: nonempty_def)
  ultimately show ?thesis using assms
    by (cases "p_wakeup c") (simp_all add: poll_inv_def less_Suc_eq)
qed

lemma poll_inv_step: "poll_step n c c' \<Longrightarrow> poll_inv n c \<Longrightarrow> poll_inv n c'"
proof (induction rule: poll_step.induct)
  case (produce i c x s ne p)
  then show ?case by (auto intro: poll_inv_produce)
next
  case (register_hit c i)
  then show ?case by (cases "p_wakeup c") (auto simp: poll_inv_def wake_def nonempty_def flags_within_def)
next
  case (register_miss c i)
  then show ?case by (rule poll_inv_register_miss[rotated])
next
  case (deregister c j k r)
  then show ?case by (rule poll_inv_deregister[rotated])
next
  case (scan c i r)
  then show ?case by (auto simp: poll_inv_def nonempty_def flags_within_def)
qed (auto simp: poll_inv_def nonempty_def flags_within_def split: option.splits)

lemma poll_inv_reachable:
  assumes "(poll_step n)\<^sup>*\<^sup>* (poll_start ss w) c" and "\<forall>j<n. stream_inv (ss j) \<and> \<not> is_poll (ss j)"
  shows "poll_inv n c"
  using assms(1)
proof (induction rule: rtranclp_induct)
  case base
  then show ?case using assms(2) by (simp add: poll_inv_def poll_start_def flags_within_def)
next
  case (step c c')
  then show ?case by (auto intro: poll_inv_step)
qed

lemma chan_progress:
  assumes "chan_inv c" and "ch_todo c \<noteq> [] \<or> (\<exists>x. ch_prod c = PTry x) \<or> contents (ch_stream c) \<noteq> []"
  shows "\<exists>c'. chan_step c c' \<and> (ch_got c', ch_sent c', ch_todo c') \<noteq> (ch_got c, ch_sent c, ch_todo c)"
proof -
  let ?s = "ch_stream c"
  have inv: "stream_inv ?s" "0 < s_size ?s" using assms(1) by (auto simp: chan_inv_def stream_inv_def)
  have empty: "contents ?s = [] \<longleftrightarrow> s_count ?s = 0" using length_contents[of ?s] by (auto simp del: length_contents)
  show ?thesis
  proof (cases "s_count ?s = 0")
    case False
    then have "ch_cons c = CRun" using assms(1) by (cases "ch_cons c") (auto simp: chan_inv_def)
    moreover obtain x s nf where "SNetStreamRead ?s = Ok (x, s, nf)" using SNetStreamRead_spec[OF inv(1)] False by auto
    ultimately show ?thesis by (intro exI conjI, rule chan_step.read) auto
  next
    case True
    have wr: "\<exists>s ne p. SNetStreamWrite ?s x = Ok (s, ne, p)" for x using SNetStreamWrite_spec[OF inv(1)] True inv(2) by fastforce
    show ?thesis
    proof (cases "ch_prod c")
      case PRun
      then have "ch_todo c \<noteq> []" using assms(2) empty True by auto
      then obtain b x xs where todo: "ch_todo c = (b, x) # xs" by (cases "ch_todo c") auto
      show ?thesis
      proof (cases b)
        case True
        with todo have "ch_todo c = (True, x) # xs" by simp
        from chan_step.try_test[OF PRun this] \<open>s_count ?s = 0\<close> inv(2) todo show ?thesis
          by (intro exI[of _ "c\<lparr>ch_todo := xs, ch_prod := PTry x\<rparr>"]) simp
      next
        case False
        with todo have todo': "ch_todo c = (False, x) # xs" by simp
        obtain s ne p where "SNetStreamWrite ?s x = Ok (s, ne, p)" using wr by blast
        from chan_step.put_item[OF PRun todo' this] todo' show ?thesis by fastforce
      qed
    next
      case PWait
      with assms(1) True inv(2) show ?thesis by (simp add: chan_inv_def)
    next
      case (PTry x)
      obtain s ne p where "SNetStreamWrite ?s x = Ok (s, ne, p)" using wr by blast
      from chan_step.try_write[OF PTry this] show ?thesis by fastforce
    qed
  qed
qed

section \<open>Properties\<close>

text \<open>
  C36. In every interleaving of a producer and a consumer of a stream, spurious wake-ups included,
  the consumer has received the items sent in order, without loss or duplication; the two threads
  never wait both; and as long as there is something to send or to receive, one of them can take a
  step that is not a spurious wake-up. A producer that has passed the test of
  \<open>SNetStreamTryWrite\<close> does not block.
\<close>

theorem stream_no_lost_wakeup:
  assumes "chan_step\<^sup>*\<^sup>* (chan_start cap todo) c"
  shows "ch_sent c = ch_got c @ contents (ch_stream c) \<and>
     \<not> (ch_prod c = PWait \<and> ch_cons c = CWait) \<and>
     (\<forall>x y. ch_prod c = PTry x \<longrightarrow> SNetStreamWrite (ch_stream c) y \<noteq> Err NoProgress) \<and>
     (ch_todo c \<noteq> [] \<or> contents (ch_stream c) \<noteq> [] \<longrightarrow>
        (\<exists>c'. chan_step c c' \<and> (ch_got c', ch_sent c', ch_todo c') \<noteq> (ch_got c, ch_sent c, ch_todo c)))"
proof -
  have inv: "chan_inv c" by (rule chan_inv_reachable[OF assms])
  then have "0 < s_size (ch_stream c)" by (simp add: chan_inv_def stream_inv_def)
  with inv chan_progress[OF inv] show ?thesis by (auto simp: chan_inv_def write_waits_iff)
qed

theorem stream_no_lost_wakeup_witness:
  "\<exists>c'. chan_step (chan_start 1 [(False, Some (5 :: nat))]) c' \<and> (ch_got c', ch_sent c', ch_todo c') \<noteq> ([], [], [(False, Some 5)])"
  using stream_no_lost_wakeup[of 1 "[(False, Some (5 :: nat))]" "chan_start 1 [(False, Some (5 :: nat))]"]
  by (simp add: chan_start_def)

text \<open>
  C37. A poll on a set of streams returns a stream with an item to read, in every interleaving with
  the producers, and then no stream is registered any more; while it waits and has not been woken,
  every stream is empty and registered, so that the next write of any producer wakes it.
\<close>

theorem stream_poll_sound:
  assumes "\<forall>j<n. stream_inv (ss j) \<and> \<not> is_poll (ss j)" and "(poll_step n)\<^sup>*\<^sup>* (poll_start ss w) c"
  shows "(\<forall>r. p_phase c = Done r \<longrightarrow> r < n \<and> 0 < s_count (p_streams c r) \<and> (\<forall>j<n. \<not> is_poll (p_streams c j))) \<and>
     (\<forall>k. p_phase c = Waiting k \<and> p_wakeup c = None \<longrightarrow>
        (\<forall>j<n. s_count (p_streams c j) = 0 \<and> is_poll (p_streams c j)) \<and> (\<forall>c'. poll_step n c c' \<longrightarrow> p_wakeup c' \<noteq> None))"
proof -
  have inv: "poll_inv n c" by (rule poll_inv_reachable[OF assms(2,1)])
  have "r < n \<and> 0 < s_count (p_streams c r) \<and> (\<forall>j<n. \<not> is_poll (p_streams c j))" if "p_phase c = Done r" for r
    using inv that by (auto simp: poll_inv_def nonempty_def flags_within_def)
  moreover have reg: "\<forall>j<n. s_count (p_streams c j) = 0 \<and> is_poll (p_streams c j)" if "p_phase c = Waiting k" "p_wakeup c = None" for k
    using inv that by (simp add: poll_inv_def)
  moreover have "p_wakeup c' \<noteq> None" if "p_phase c = Waiting k" "p_wakeup c = None" "poll_step n c c'" for k c'
    using that(3)
  proof cases
    case (produce i x s ne p)
    have "stream_inv (p_streams c i)" using inv produce(2) by (simp add: poll_inv_def)
    then have "p = is_poll (p_streams c i)" using produce(3) by (rule write_Ok_inv(7))
    with reg[OF that(1,2)] produce that(2) show ?thesis by (simp add: wake_def)
  qed (use that in auto)
  ultimately show ?thesis by blast
qed

theorem stream_poll_sound_witness:
  "\<exists>c :: nat poller. (poll_step 1)\<^sup>*\<^sup>* (poll_start (\<lambda>_. SNetStreamCreate 2) None) c \<and> p_phase c = Waiting 1 \<and>
     (\<forall>c'. poll_step 1 c c' \<longrightarrow> p_wakeup c' \<noteq> None)"
proof -
  let ?ss = "\<lambda>_ :: nat. SNetStreamCreate 2 :: nat snet_stream"
  let ?c = "\<lambda>p. poll_start ?ss None\<lparr>p_phase := p\<rparr>"
  let ?r = "set_poll 0 True (?c (Register 1))"
  have cnt: "s_count (SNetStreamCreate 2 :: nat snet_stream) = 0" "\<not> is_poll (SNetStreamCreate 2 :: nat snet_stream)"
    by (simp_all add: SNetStreamCreate_def Let_def)
  have "poll_step 1 (poll_start ?ss None) (?c (Scan 1 None))"
    using poll_step.scan[of "poll_start ?ss None" 0 None 1] cnt by (simp add: poll_start_def)
  moreover have "poll_step 1 (?c (Scan 1 None)) (?c ResetWakeup)"
    using poll_step.scan_miss[of "?c (Scan 1 None)" 1] by (simp add: poll_start_def)
  moreover have "poll_step 1 (?c ResetWakeup) (?c (Register 0))"
    using poll_step.reset[of "?c ResetWakeup" 1] by (simp add: poll_start_def)
  moreover have "poll_step 1 (?c (Register 0)) ?r"
    using poll_step.register_miss[of "?c (Register 0)" 0 1] cnt by (simp add: poll_start_def)
  moreover have "poll_step 1 ?r (?r\<lparr>p_phase := Waiting 1\<rparr>)"
    using poll_step.register_end[of ?r 1] by (simp add: poll_start_def)
  ultimately have r: "(poll_step 1)\<^sup>*\<^sup>* (poll_start ?ss None) (?r\<lparr>p_phase := Waiting 1\<rparr>)"
    by (meson rtranclp.rtrancl_into_rtrancl rtranclp.rtrancl_refl)
  have "p_wakeup (?r\<lparr>p_phase := Waiting 1\<rparr>) = None" by (simp add: poll_start_def set_poll_def)
  with stream_poll_sound[OF _ r] stream_create(1) cnt(2) have "\<forall>c'. poll_step 1 (?r\<lparr>p_phase := Waiting 1\<rparr>) c' \<longrightarrow> p_wakeup c' \<noteq> None" by auto
  with r show ?thesis by (intro exI[of _ "?r\<lparr>p_phase := Waiting 1\<rparr>"]) simp
qed

end
