(* ===== verification/Streamset.thy ===== *)
theory Streamset
  imports Prelude
begin

text \<open>
  Sets of stream descriptors (\<open>threading/pthread/streamset.c\<close>): a circular linked list through the
  \<open>next\<close> fields of the descriptors, with a handle to its last element. Descriptors are addresses
  and the store maps an address to its \<open>next\<close> field, so that aliasing is explicit. The relation
  \<open>is_set\<close> connects handle and store with the sequence of elements that an iteration visits.
\<close>

section \<open>Operations\<close>

type_synonym next_store = "nat \<Rightarrow> nat option"
type_synonym snet_streamset = "nat option"

definition SNetStreamsetPut :: "next_store \<Rightarrow> snet_streamset \<Rightarrow> nat \<Rightarrow> next_store \<times> snet_streamset" where
  "SNetStreamsetPut nxt st node =
     (case st of
        None \<Rightarrow> (nxt(node := Some node), Some node)
      | Some l \<Rightarrow> ((nxt(node := nxt l))(l := Some node), Some node))"

text \<open>The search loop: \<open>prev\<close> and \<open>cur\<close> after at least one round; following NULL is an error.\<close>

fun find_node :: "nat \<Rightarrow> next_store \<Rightarrow> nat \<Rightarrow> nat \<Rightarrow> nat \<Rightarrow> (nat \<times> nat) res" where
  "find_node 0 nxt l node cur = Err NoProgress"
| "find_node (Suc n) nxt l node cur =
     (case nxt cur of
        None \<Rightarrow> Err NullDeref
      | Some c \<Rightarrow> if c \<noteq> node \<and> c \<noteq> l then find_node n nxt l node c else Ok (cur, c))"

definition SNetStreamsetRemove ::
  "nat \<Rightarrow> next_store \<Rightarrow> snet_streamset \<Rightarrow> nat \<Rightarrow> (int \<times> next_store \<times> snet_streamset) res" where
  "SNetStreamsetRemove fuel nxt st node =
     (case st of
        None \<Rightarrow> Err AssertFail
      | Some l \<Rightarrow> bindR (find_node fuel nxt l node l) (\<lambda>(prev, cur).
          if cur \<noteq> node then Ok (-1, nxt, st)
          else if prev = cur then Ok (0, nxt, None)
          else Ok (0, (nxt(prev := nxt cur))(cur := None), if l = cur then Some prev else st)))"

definition SNetStreamListIsEmpty :: "snet_streamset \<Rightarrow> bool" where
  "SNetStreamListIsEmpty st \<longleftrightarrow> st = None"

record snet_stream_iter =
  it_cur :: "nat option"
  it_prev :: "nat option"

definition SNetStreamIterReset :: "snet_streamset \<Rightarrow> snet_stream_iter" where
  "SNetStreamIterReset st = \<lparr>it_cur = None, it_prev = st\<rparr>"

definition SNetStreamIterCreate :: "snet_streamset \<Rightarrow> snet_stream_iter" where
  "SNetStreamIterCreate st = \<lparr>it_cur = None, it_prev = st\<rparr>"

definition SNetStreamIterHasNext :: "snet_streamset \<Rightarrow> snet_stream_iter \<Rightarrow> bool" where
  "SNetStreamIterHasNext st it \<longleftrightarrow> st \<noteq> None \<and> (it_cur it \<noteq> st \<or> it_cur it = None)"

definition SNetStreamIterNext :: "next_store \<Rightarrow> snet_streamset \<Rightarrow> snet_stream_iter \<Rightarrow> snet_stream_iter res" where
  "SNetStreamIterNext nxt st it =
     bindR (assertR (SNetStreamIterHasNext st it)) (\<lambda>_.
     case it_cur it of
       Some c \<Rightarrow> Ok \<lparr>it_cur = nxt c, it_prev = Some c\<rparr>
     | None \<Rightarrow> (case it_prev it of None \<Rightarrow> Err NullDeref | Some p \<Rightarrow> Ok (it\<lparr>it_cur := nxt p\<rparr>)))"

definition SNetStreamIterAppend ::
  "next_store \<Rightarrow> snet_streamset \<Rightarrow> snet_stream_iter \<Rightarrow> nat \<Rightarrow> (next_store \<times> snet_streamset \<times> snet_stream_iter) res" where
  "SNetStreamIterAppend nxt st it node =
     (case st of
        None \<Rightarrow> Err NullDeref
      | Some l \<Rightarrow>
          (let it1 = (if it_prev it = st then it\<lparr>it_prev := Some node\<rparr> else it);
               it2 = (if it_prev it1 = it_cur it1 then it1\<lparr>it_prev := Some node\<rparr> else it1) in
           Ok ((nxt(node := nxt l))(l := Some node), Some node, it2)))"

definition SNetStreamIterRemove ::
  "next_store \<Rightarrow> snet_streamset \<Rightarrow> snet_stream_iter \<Rightarrow> (next_store \<times> snet_streamset \<times> snet_stream_iter) res" where
  "SNetStreamIterRemove nxt st it =
     (case (it_cur it, it_prev it) of
        (Some c, Some p) \<Rightarrow>
          if p = c then bindR (assertR (st = Some p)) (\<lambda>_. Ok (nxt(c := None), None, it))
          else
            (let nxt' = (nxt(p := nxt c))(c := None) in
             if st = Some p then Ok (nxt', st, it\<lparr>it_cur := None\<rparr>)
             else Ok (nxt', if st = Some c then Some p else st, it\<lparr>it_cur := Some p\<rparr>))
      | _ \<Rightarrow> Err NullDeref)"

section \<open>The sequence of a set\<close>

fun links :: "next_store \<Rightarrow> nat list \<Rightarrow> bool" where
  "links nxt (x # y # zs) = (nxt x = Some y \<and> links nxt (y # zs))"
| "links nxt _ = True"

definition is_set :: "next_store \<Rightarrow> snet_streamset \<Rightarrow> nat list \<Rightarrow> bool" where
  "is_set nxt st xs \<longleftrightarrow> distinct xs \<and> (if xs = [] then st = None else st = Some (last xs) \<and> links nxt (last xs # xs))"

lemma links_Cons: "links nxt (x # ys) \<longleftrightarrow> ys = [] \<or> nxt x = Some (hd ys) \<and> links nxt ys"
  by (cases ys) auto

lemma links_append: "links nxt (xs @ y # ys) \<longleftrightarrow> links nxt (xs @ [y]) \<and> links nxt (y # ys)"
proof (induction xs)
  case (Cons x xs)
  then show ?case by (cases xs) auto
qed simp

lemma links_upd: "a \<notin> set (butlast xs) \<Longrightarrow> links (nxt(a := b)) xs \<longleftrightarrow> links nxt xs"
  by (induction nxt xs rule: links.induct) auto

lemma links_snoc: "xs \<noteq> [] \<Longrightarrow> links nxt (xs @ [y]) \<longleftrightarrow> links nxt xs \<and> nxt (last xs) = Some y"
  by (induction nxt xs rule: links.induct) auto

lemma is_set_nonempty: "is_set nxt st xs \<Longrightarrow> xs \<noteq> [] \<Longrightarrow> nxt (last xs) = Some (hd xs) \<and> links nxt xs \<and> st = Some (last xs) \<and> distinct xs"
  by (auto simp: is_set_def links_Cons split: if_splits)

lemma is_setI: "distinct xs \<Longrightarrow> xs \<noteq> [] \<Longrightarrow> nxt (last xs) = Some (hd xs) \<Longrightarrow> links nxt xs \<Longrightarrow> is_set nxt (Some (last xs)) xs"
  by (simp add: is_set_def links_Cons)

lemma links_upd_notin: "a \<notin> set xs \<Longrightarrow> links (nxt(a := b)) xs \<longleftrightarrow> links nxt xs"
  by (rule links_upd) (auto dest: in_set_butlastD)

lemma links_prefix: "links nxt (xs @ ys) \<Longrightarrow> links nxt xs"
proof (induction xs)
  case (Cons x xs)
  then show ?case by (cases xs) auto
qed simp

lemma last_disjoint: "set xs \<inter> set ys = {} \<Longrightarrow> xs \<noteq> [] \<Longrightarrow> ys \<noteq> [] \<Longrightarrow> last xs \<noteq> last ys"
  by (metis IntI empty_iff last_in_set)

lemma last_notin_butlast: "distinct xs \<Longrightarrow> xs \<noteq> [] \<Longrightarrow> last xs \<notin> set (butlast xs)"
  by (cases xs rule: rev_cases) auto

lemma is_set_Put:
  assumes "is_set nxt st xs" and "node \<notin> set xs" and "SNetStreamsetPut nxt st node = (nxt', st')"
  shows "is_set nxt' st' (xs @ [node])"
proof (cases "xs = []")
  case True
  with assms show ?thesis by (auto simp: is_set_def SNetStreamsetPut_def)
next
  case False
  note s = is_set_nonempty[OF assms(1) False]
  let ?n = "(nxt(node := nxt (last xs)))(last xs := Some node)"
  have l: "last xs \<in> set xs" "last xs \<notin> set (butlast xs)"
    using False s last_notin_butlast by auto
  have "links ?n xs" using s l assms(2) by (simp add: links_upd links_upd_notin)
  then have "links ?n (xs @ [node])" using False by (simp add: links_snoc)
  moreover have "?n node = Some (hd xs)" using s l assms(2) by auto
  ultimately have "is_set ?n (Some (last (xs @ [node]))) (xs @ [node])" using assms(2) False s by (intro is_setI) auto
  then show ?thesis using assms(3) s by (auto simp: SNetStreamsetPut_def)
qed
text \<open>Taking a node out of the circle by redirecting its predecessor.\<close>

lemma is_set_unlink:
  assumes "is_set nxt st (ys @ n # zs)" and "ys @ zs \<noteq> []" and "p = last (if ys = [] then zs else ys)"
  shows "is_set ((nxt(p := nxt n))(n := None)) (Some (last (ys @ zs))) (ys @ zs)" (is "is_set ?n _ _")
proof -
  note s = is_set_nonempty[OF assms(1)]
  have d: "distinct (ys @ zs)" "n \<notin> set ys" "n \<notin> set zs" using s by auto
  have lk: "links nxt ys" "links nxt (n # zs)"
    using s links_append[of nxt ys n zs] by (auto intro: links_prefix)
  have p: "p \<in> set (ys @ zs)" "p \<noteq> n" using assms(2,3) d by (auto split: if_splits)
  consider (front) "ys = []" "zs \<noteq> []" | (rear) "ys \<noteq> []" "zs = []" | (mid) "ys \<noteq> []" "zs \<noteq> []" using assms(2) by blast
  then show ?thesis
  proof cases
    case front
    then have "nxt n = Some (hd zs)" "links nxt zs" using lk by (auto simp: links_Cons)
    with front p d assms(3) last_notin_butlast[of zs] show ?thesis
      by (auto intro!: is_setI simp: links_upd_notin links_upd)
  next
    case rear
    then have "nxt n = Some (hd ys)" using s by simp
    with rear lk p d assms(3) last_notin_butlast[of ys] show ?thesis
      by (auto intro!: is_setI simp: links_upd_notin links_upd)
  next
    case mid
    then obtain z zs' where z: "zs = z # zs'" by (cases zs) auto
    have "nxt n = Some z" "links nxt zs" using lk z by auto
    moreover have "last ys \<in> set ys" using mid by simp
    then have "last ys \<notin> set zs" using d(1) by (meson disjoint_iff distinct_append)
    then have pz: "p = last ys" "p \<notin> set zs" "p \<notin> set (butlast ys)" using assms(3) mid d last_notin_butlast[of ys] by auto
    ultimately have "links ?n (ys @ [z])" "links ?n zs"
      using mid lk p d by (auto simp: links_snoc links_upd_notin links_upd)
    then have "links ?n (ys @ zs)" using z links_append[of ?n ys z zs'] by simp
    moreover have "last zs \<in> set zs" using mid by simp
    then have "last zs \<noteq> p" "last zs \<noteq> n" using pz(2) d(3) by metis+
    then have "?n (last (ys @ zs)) = Some (hd (ys @ zs))" using mid s by simp
    ultimately show ?thesis using d(1) assms(2) by (intro is_setI)
  qed
qed

lemma find_node_seg:
  "links nxt (cur # cs @ [c]) \<Longrightarrow> node \<notin> set cs \<Longrightarrow> l \<notin> set cs \<Longrightarrow> c = node \<or> c = l \<Longrightarrow> length cs < n \<Longrightarrow>
     find_node n nxt l node cur = Ok (last (cur # cs), c)"
proof (induction cs arbitrary: cur n)
  case Nil
  then show ?case by (cases n) auto
next
  case (Cons d cs)
  then show ?case by (cases n) auto
qed

text \<open>Removal of a member takes it out of the sequence; a node that is no member changes nothing.\<close>

lemma SNetStreamsetRemove_member:
  assumes "is_set nxt st (ys @ n # zs)" and "length ys < fuel"
  shows "\<exists>nxt' st'. SNetStreamsetRemove fuel nxt st n = Ok (0, nxt', st') \<and> is_set nxt' st' (ys @ zs)"
proof -
  let ?l = "last (ys @ n # zs)"
  note s = is_set_nonempty[OF assms(1)]
  have lk: "links nxt (?l # ys @ [n])"
    using assms(1) links_append[of nxt "?l # ys" n zs] by (simp add: is_set_def)
  have "?l \<notin> set ys" "n \<notin> set ys" using s by (auto split: if_splits)
  then have f: "find_node fuel nxt ?l n ?l = Ok (last (?l # ys), n)" using lk assms(2) by (intro find_node_seg) auto
  show ?thesis
  proof (cases "ys @ zs = []")
    case True
    then show ?thesis using s f by (simp add: SNetStreamsetRemove_def is_set_def)
  next
    case False
    let ?p = "last (?l # ys)"
    have p: "?p = last (if ys = [] then zs else ys)" "?p \<noteq> n" using False s by (auto split: if_splits)
    have "(if ?l = n then Some ?p else st) = Some (last (ys @ zs))" using s False by (auto split: if_splits)
    moreover have "st = Some ?l" using s by simp
    ultimately have "SNetStreamsetRemove fuel nxt st n = Ok (0, (nxt(?p := nxt n))(n := None), Some (last (ys @ zs)))"
      using f p(2) unfolding SNetStreamsetRemove_def
      by (simp only: option.case bindR.simps case_prod_conv if_False simp_thms if_True)
    with is_set_unlink[OF assms(1) False p(1)] show ?thesis by blast
  qed
qed

lemma SNetStreamsetRemove_absent:
  assumes "is_set nxt st xs" and "xs \<noteq> []" and "n \<notin> set xs" and "length xs \<le> fuel"
  shows "SNetStreamsetRemove fuel nxt st n = Ok (-1, nxt, st)"
proof -
  note s = is_set_nonempty[OF assms(1,2)]
  have "find_node fuel nxt (last xs) n (last xs) = Ok (last (last xs # butlast xs), last xs)"
  proof (rule find_node_seg)
    show "links nxt (last xs # butlast xs @ [last xs])" using assms(1,2) by (simp add: is_set_def)
    show "last xs \<notin> set (butlast xs)" using s assms(2) last_notin_butlast by blast
    show "n \<notin> set (butlast xs)" using assms(3) by (auto dest: in_set_butlastD)
    show "length (butlast xs) < fuel" using assms(2,4) by (cases xs) auto
  qed simp
  moreover have "last xs \<noteq> n" using assms(2,3) by auto
  ultimately show ?thesis using s by (simp add: SNetStreamsetRemove_def)
qed

section \<open>Iteration\<close>

text \<open>
  The loop that visits all elements and removes those that satisfy a condition, as the collector
  does with terminated streams and the split with all its instances.
\<close>

fun iter_remove :: "nat \<Rightarrow> (nat \<Rightarrow> bool) \<Rightarrow> next_store \<Rightarrow> snet_streamset \<Rightarrow> snet_stream_iter \<Rightarrow>
    (nat list \<times> next_store \<times> snet_streamset) res" where
  "iter_remove n P nxt st it =
     (if \<not> SNetStreamIterHasNext st it then Ok ([], nxt, st)
      else case n of 0 \<Rightarrow> Err NoProgress
      | Suc m \<Rightarrow>
          bindR (SNetStreamIterNext nxt st it) (\<lambda>it.
          case it_cur it of None \<Rightarrow> Err NullDeref
          | Some c \<Rightarrow>
              bindR (if P c then SNetStreamIterRemove nxt st it else Ok (nxt, st, it)) (\<lambda>(nxt, st, it).
              bindR (iter_remove m P nxt st it) (\<lambda>(cs, r). Ok (c # cs, r)))))"

declare iter_remove.simps [simp del]

definition iter_at :: "snet_stream_iter \<Rightarrow> nat list \<Rightarrow> nat list \<Rightarrow> bool" where
  "iter_at it ks rs \<longleftrightarrow> (if ks = [] then it_cur it = None \<and> (rs \<noteq> [] \<longrightarrow> it_prev it = Some (last rs)) else it_cur it = Some (last ks))"

lemma iter_at_end: "is_set nxt st ks \<Longrightarrow> iter_at it ks [] \<Longrightarrow> \<not> SNetStreamIterHasNext st it"
  by (auto simp: is_set_def iter_at_def SNetStreamIterHasNext_def split: if_splits)

lemma iter_next:
  assumes "is_set nxt st (ks @ r # rs)" and "iter_at it ks (r # rs)"
  shows "SNetStreamIterHasNext st it"
    and "SNetStreamIterNext nxt st it = Ok \<lparr>it_cur = Some r, it_prev = Some (last (if ks = [] then r # rs else ks))\<rparr>"
proof -
  note s = is_set_nonempty[OF assms(1), simplified]
  show h: "SNetStreamIterHasNext st it" using assms s last_disjoint[of ks rs] by (auto simp: iter_at_def SNetStreamIterHasNext_def split: if_splits)
  show "SNetStreamIterNext nxt st it = Ok \<lparr>it_cur = Some r, it_prev = Some (last (if ks = [] then r # rs else ks))\<rparr>"
  proof (cases "ks = []")
    case True
    then show ?thesis using assms s h by (simp add: iter_at_def SNetStreamIterNext_def)
  next
    case False
    have "links nxt (ks @ [r])" using s links_append[of nxt ks r rs] by simp
    then have "nxt (last ks) = Some r" using False by (simp add: links_snoc)
    then show ?thesis using False assms(2) h by (simp add: iter_at_def SNetStreamIterNext_def)
  qed
qed

lemma iter_remove_step:
  assumes "is_set nxt st (ks @ r # rs)" and "it = \<lparr>it_cur = Some r, it_prev = Some (last (if ks = [] then r # rs else ks))\<rparr>"
  shows "\<exists>nxt' st' it'. SNetStreamIterRemove nxt st it = Ok (nxt', st', it') \<and> is_set nxt' st' (ks @ rs) \<and>
     (ks @ rs \<noteq> [] \<longrightarrow> iter_at it' ks rs)"
proof (cases "ks @ rs = []")
  case True
  then show ?thesis using assms by (simp add: SNetStreamIterRemove_def is_set_def)
next
  case False
  note s = is_set_nonempty[OF assms(1), simplified]
  let ?p = "last (if ks = [] then r # rs else ks)"
  have p: "?p = last (if ks = [] then rs else ks)" "?p \<noteq> r" using False s by (auto split: if_splits)
  note u = is_set_unlink[OF assms(1) False p(1)]
  show ?thesis
  proof (cases "ks = []")
    case True
    with False s p u assms(2) show ?thesis by (simp add: SNetStreamIterRemove_def Let_def iter_at_def)
  next
    case ks: False
    have "st \<noteq> Some ?p" using s ks last_disjoint[of ks rs] by (auto split: if_splits)
    moreover have "(if st = Some r then Some ?p else st) = Some (last (ks @ rs))" using s ks by (auto split: if_splits)
    ultimately have "SNetStreamIterRemove nxt st it = Ok ((nxt(?p := nxt r))(r := None), Some (last (ks @ rs)), it\<lparr>it_cur := Some ?p\<rparr>)"
      using p(2) unfolding SNetStreamIterRemove_def assms(2) by (simp only: snet_stream_iter.simps case_prod_conv option.case if_False Let_def)
    with u ks show ?thesis by (simp add: iter_at_def)
  qed
qed

lemma iter_remove_loop:
  "is_set nxt st (ks @ rs) \<Longrightarrow> (ks @ rs \<noteq> [] \<longrightarrow> iter_at it ks rs) \<Longrightarrow> length rs \<le> n \<Longrightarrow>
     \<exists>nxt' st'. iter_remove n P nxt st it = Ok (rs, nxt', st') \<and> is_set nxt' st' (ks @ filter (\<lambda>x. \<not> P x) rs)"
proof (induction rs arbitrary: ks nxt st it n)
  case Nil
  have "\<not> SNetStreamIterHasNext st it"
    using Nil iter_at_end[of nxt st ks it] by (cases "ks = []") (auto simp: is_set_def SNetStreamIterHasNext_def)
  with Nil show ?case by (subst iter_remove.simps) simp
next
  case (Cons r rs)
  let ?it = "\<lparr>it_cur = Some r, it_prev = Some (last (if ks = [] then r # rs else ks))\<rparr>"
  note nx = iter_next[OF Cons.prems(1)] Cons.prems(2)
  have nx: "SNetStreamIterHasNext st it" "SNetStreamIterNext nxt st it = Ok ?it"
    using iter_next[OF Cons.prems(1)] Cons.prems(2) by auto
  obtain m where n: "n = Suc m" using Cons.prems(3) by (cases n) auto
  show ?case
  proof (cases "P r")
    case True
    obtain nxt1 st1 it1 where r: "SNetStreamIterRemove nxt st ?it = Ok (nxt1, st1, it1)" "is_set nxt1 st1 (ks @ rs)"
      "ks @ rs \<noteq> [] \<longrightarrow> iter_at it1 ks rs" using iter_remove_step[OF Cons.prems(1) refl] by blast
    from Cons.IH[OF r(2,3), of m] Cons.prems(3) n r(1) nx True show ?thesis
      by (subst iter_remove.simps) auto
  next
    case False
    have "iter_at ?it (ks @ [r]) rs" by (simp add: iter_at_def)
    with Cons.IH[of nxt st "ks @ [r]" ?it m] Cons.prems(1,3) n nx False show ?thesis
      by (subst iter_remove.simps) auto
  qed
qed

text \<open>Appending during an iteration puts the node at the end, and the iteration still reaches it.\<close>

lemma iter_append:
  assumes "is_set nxt st (ks @ rs)" and "ks \<noteq> []" and "it_cur it = Some (last ks)" and "node \<notin> set (ks @ rs)"
  shows "\<exists>nxt' st' it'. SNetStreamIterAppend nxt st it node = Ok (nxt', st', it') \<and>
     is_set nxt' st' (ks @ rs @ [node]) \<and> iter_at it' ks (rs @ [node])"
proof -
  obtain nxt' st' where p: "SNetStreamsetPut nxt st node = (nxt', st')" by fastforce
  have s: "st = Some (last (ks @ rs))" using assms(1,2) by (simp add: is_set_def)
  have "is_set nxt' st' ((ks @ rs) @ [node])" by (rule is_set_Put[OF assms(1,4) p])
  moreover have "SNetStreamIterAppend nxt st it node = Ok (nxt', st', snd (snd (the_res (SNetStreamIterAppend nxt st it node))))"
    using p s by (auto simp: SNetStreamIterAppend_def SNetStreamsetPut_def Let_def)
  moreover have "it_cur (snd (snd (the_res (SNetStreamIterAppend nxt st it node)))) = Some (last ks)"
    using s assms(3) by (simp add: SNetStreamIterAppend_def Let_def)
  ultimately show ?thesis using assms(2) by (fastforce simp: iter_at_def)
qed

text \<open>Putting the nodes of a list one after the other.\<close>

definition put_all :: "next_store \<Rightarrow> snet_streamset \<Rightarrow> nat list \<Rightarrow> next_store \<times> snet_streamset" where
  "put_all nxt st xs = foldl (\<lambda>(nxt, st) x. SNetStreamsetPut nxt st x) (nxt, st) xs"

lemma put_all_is_set: "is_set nxt st ys \<Longrightarrow> distinct (ys @ xs) \<Longrightarrow> put_all nxt st xs = (nxt', st') \<Longrightarrow> is_set nxt' st' (ys @ xs)"
proof (induction xs arbitrary: nxt st ys)
  case Nil
  then show ?case by (simp add: put_all_def)
next
  case (Cons x xs)
  obtain n1 s1 where p: "SNetStreamsetPut nxt st x = (n1, s1)" by fastforce
  have "is_set n1 s1 (ys @ [x])" by (rule is_set_Put[OF Cons.prems(1) _ p]) (use Cons.prems(2) in auto)
  with Cons.IH[of n1 s1 "ys @ [x]"] Cons.prems(2,3) p show ?case by (simp add: put_all_def)
qed

section \<open>Properties\<close>

text \<open>
  C38. Putting distinct nodes one after the other into an empty set and then iterating over it, removing on
  the way the nodes that satisfy a condition, visits every node exactly once in the order of
  insertion, and leaves a set of the other nodes in the same order; no NULL pointer is followed
  and the loop ends.
\<close>

theorem streamset_iterate:
  assumes "distinct xs" and "length xs \<le> n" and "put_all nxt None xs = (nxt1, st1)"
  shows "\<exists>nxt2 st2. iter_remove n P nxt1 st1 (SNetStreamIterReset st1) = Ok (xs, nxt2, st2) \<and>
     is_set nxt2 st2 (filter (\<lambda>x. \<not> P x) xs)"
proof -
  have s: "is_set nxt1 st1 ([] @ xs)"
    using put_all_is_set[of nxt None "[]" xs nxt1 st1] assms by (simp add: is_set_def)
  have "[] @ xs \<noteq> [] \<longrightarrow> iter_at (SNetStreamIterReset st1) [] xs"
    using s by (simp add: is_set_def iter_at_def SNetStreamIterReset_def)
  from iter_remove_loop[OF s this assms(2)] show ?thesis by simp
qed

theorem streamset_iterate_witness:
  "\<exists>nxt1 st1 nxt2 st2. put_all (\<lambda>_. None) None [5, 3, 8] = (nxt1, st1) \<and>
     iter_remove 3 even nxt1 st1 (SNetStreamIterReset st1) = Ok ([5, 3, 8], nxt2, st2) \<and> is_set nxt2 st2 (filter (\<lambda>x. \<not> even x) [5, 3, 8])"
proof -
  obtain nxt1 st1 where p: "put_all (\<lambda>_. None) None [5, 3, 8] = (nxt1, st1)" by fastforce
  have "distinct [5, 3, 8 :: nat]" "length [5, 3, 8 :: nat] \<le> 3" by simp_all
  from streamset_iterate[OF this p, of even] p show ?thesis by blast
qed

text \<open>
  Removing a descriptor from a set of \<open>n\<close> descriptors ends within \<open>n\<close> rounds: a member is taken
  out, the order of the others is kept and 0 is returned; for a descriptor that is no member the
  set is unchanged and -1 is returned.
\<close>

lemma streamset_remove:
  assumes "is_set nxt st xs" and "xs \<noteq> []" and "length xs \<le> fuel"
  shows "\<exists>r nxt' st'. SNetStreamsetRemove fuel nxt st node = Ok (r, nxt', st') \<and> is_set nxt' st' (remove1 node xs) \<and>
     r = (if node \<in> set xs then 0 else -1)"
proof (cases "node \<in> set xs")
  case True
  then obtain ys zs where xs: "xs = ys @ node # zs" "node \<notin> set ys" by (metis split_list_first)
  then have "remove1 node xs = ys @ zs" by (simp add: remove1_append)
  with SNetStreamsetRemove_member[of nxt st ys node zs fuel] assms xs True show ?thesis by auto
next
  case False
  with SNetStreamsetRemove_absent[OF assms(1,2) False assms(3)] assms(1) show ?thesis by (simp add: remove1_idem)
qed

end
