(* ===== verification/Entity.thy ===== *)
theory Entity
  imports Expression Snet_Stream
begin

text \<open>
  What the tasks of the entities share: the actions on streams that a round of a task performs, in
  their order, and the loop of a task that reads records from its input until it terminates. A task
  is the function of one round, from its state and the record read to the new state and actions.
\<close>

section \<open>Actions and rounds\<close>

text \<open>
  \<open>sd\<close> are the stream descriptors of a task: the input, the output, and descriptors opened at run
  time. \<open>SWrite\<close>, \<open>SClose\<close> (with the flag whether the stream is destroyed) and \<open>SReplace\<close> are the
  calls of the threading layer, \<open>DestroyRefs\<close> the references of a destroyed record.
\<close>

datatype sd = Instream | Outstream | Sd nat

datatype 'r action =
    SWrite sd "'r snet_record"
  | SClose sd bool
  | SReplace sd stream_id
  | SOpen sd stream_id
  | DestroyRefs "'r list"

definition destroy_rec :: "'r snet_record \<Rightarrow> 'r action list res" where
  "destroy_rec r = bindR (SNetRecDestroy r) (\<lambda>refs. Ok [DestroyRefs refs])"

text \<open>The main loop: rounds over the records that the input delivers, until the task is done.\<close>

fun run_task :: "('s \<Rightarrow> bool) \<Rightarrow> ('s \<Rightarrow> 'r snet_record \<Rightarrow> ('s \<times> 'r action list) res) \<Rightarrow> 's \<Rightarrow> 'r snet_record list \<Rightarrow>
    ('s \<times> 'r action list) res" where
  "run_task dn round s [] = Ok (s, [])"
| "run_task dn round s (r # rs) =
     (if dn s then Ok (s, [])
      else bindR (round s r) (\<lambda>(s', as). bindR (run_task dn round s' rs) (\<lambda>(s'', as'). Ok (s'', as @ as'))))"

text \<open>The records written to a descriptor, in order.\<close>

fun written :: "sd \<Rightarrow> 'r action list \<Rightarrow> 'r snet_record list" where
  "written d [] = []"
| "written d (SWrite e r # as) = (if e = d then r # written d as else written d as)"
| "written d (_ # as) = written d as"

lemma written_append [simp]: "written d (xs @ ys) = written d xs @ written d ys"
  by (induction xs rule: written.induct) auto

lemma run_task_append:
  "run_task dn round s (xs @ ys) =
     bindR (run_task dn round s xs) (\<lambda>(s', as). bindR (run_task dn round s' ys) (\<lambda>(s'', as'). Ok (s'', as @ as')))"
proof (induction xs arbitrary: s)
  case Nil
  then show ?case by (cases "run_task dn round s ys") auto
next
  case (Cons r rs)
  show ?case
  proof (cases "dn s")
    case True
    then show ?thesis by (cases ys) auto
  next
    case False
    show ?thesis
    proof (cases "round s r")
      case (Err e)
      with False show ?thesis by simp
    next
      case (Ok p)
      then obtain s' as where p: "round s r = Ok (s', as)" by (cases p) auto
      show ?thesis
      proof (cases "run_task dn round s' rs")
        case (Err e)
        with False p Cons.IH show ?thesis by simp
      next
        case (Ok q)
        then obtain s2 as2 where q: "run_task dn round s' rs = Ok (s2, as2)" by (cases q) auto
        with False p Cons.IH[of s'] show ?thesis by (cases "run_task dn round s2 ys") auto
      qed
    qed
  qed
qed

lemma run_task_invariant:
  assumes "run_task dn round s rs = Ok (s', as)" and "I s"
    and "\<And>s r s' as. I s \<Longrightarrow> \<not> dn s \<Longrightarrow> r \<in> set rs \<Longrightarrow> round s r = Ok (s', as) \<Longrightarrow> I s'"
  shows "I s'"
  using assms
proof (induction rs arbitrary: s as)
  case Nil
  then show ?case by simp
next
  case (Cons r rs)
  show ?case
  proof (cases "dn s")
    case True
    with Cons.prems show ?thesis by simp
  next
    case False
    with Cons.prems(1) obtain s1 a1 a2 where r: "round s r = Ok (s1, a1)" "run_task dn round s1 rs = Ok (s', a2)" by auto
    have "I s1" by (rule Cons.prems(3)[OF Cons.prems(2) False _ r(1)]) simp
    show ?thesis
    proof (rule Cons.IH[OF r(2) \<open>I s1\<close>])
      show "I s2" if "I s3" "\<not> dn s3" "q \<in> set rs" "round s3 q = Ok (s2, bs)" for s3 q s2 bs
        by (rule Cons.prems(3)[OF that(1,2) _ that(4)]) (use that(3) in simp)
    qed
  qed
qed

section \<open>Patterns with guards\<close>

text \<open>
  A pattern with its guard accepts a record that carries its labels and satisfies the guard; the
  guard is evaluated on matching records only and has to have a value there.
\<close>

definition carries :: "snet_variant \<Rightarrow> 'r data_rec \<Rightarrow> bool" where
  "carries p d \<longleftrightarrow> vfields p \<subseteq> dom (field_map d) \<and> vtags p \<subseteq> dom (tag_map d) \<and> vbtags p \<subseteq> dom (btag_map d)"

definition accepts :: "snet_variant \<times> snet_expr \<Rightarrow> 'r data_rec \<Rightarrow> bool" where
  "accepts pe d \<longleftrightarrow> carries (fst pe) d \<and> SNetEevaluateBool (snd pe) (REC_data d) = Ok True"

definition guards_defined :: "(snet_variant \<times> snet_expr) list \<Rightarrow> 'r data_rec \<Rightarrow> bool" where
  "guards_defined pes d \<longleftrightarrow> (\<forall>pe\<in>set pes. carries (fst pe) d \<longrightarrow> is_Ok (SNetEevaluateBool (snd pe) (REC_data d)))"

lemma pattern_carries: "variant_ok p \<Longrightarrow> data_ok d \<Longrightarrow> SNetRecPatternMatches p (REC_data d) = Ok (carries p d)"
  by (simp add: SNetRecPatternMatches_spec carries_def)

section \<open>Sample values\<close>

text \<open>Patterns, records and lists that the witnesses of the entities use.\<close>

definition field_pat :: "int list \<Rightarrow> snet_variant" where
  "field_pat ns = SNetVariantCreate (int_list ns) (int_list []) (int_list [])"

definition field_rec :: "(int \<times> nat) list \<Rightarrow> nat data_rec" where
  "field_rec fs = \<lparr>rec_tags = map_from [], rec_btags = map_from [], rec_fields = map_from fs,
     interface_id = 0, rmode = MODE_binary, rid = [0, 0], detref = Some None\<rparr>"

definition pat_list :: "'a list \<Rightarrow> 'a snet_list" where
  "pat_list xs = \<lparr>lsize = length xs, lused = length xs, lstart = 0, lvalues = map Some xs\<rparr>"

lemma pat_list_simps [simp]: "list_inv (pat_list xs)" "list_of (pat_list xs) = xs" "lused (pat_list xs) = length xs"
  by (simp_all add: pat_list_def)

lemma field_pat_simps [simp]:
  "variant_ok (field_pat ns)" "vfields (field_pat ns) = set ns" "vtags (field_pat ns) = {}" "vbtags (field_pat ns) = {}"
  by (simp_all add: field_pat_def SNetVariantCreate_def variant_ok_def variant_sets)

lemma field_rec_simps [simp]:
  "distinct (map fst fs) \<Longrightarrow> data_ok (field_rec fs)" "field_map (field_rec fs) = map_of fs" "tag_map (field_rec fs) = Map.empty" "btag_map (field_rec fs) = Map.empty"
  by (simp_all add: field_rec_def data_ok_def map_ok_def label_maps map_lookup_def fun_eq_iff)

end
