(* ===== verification/Syncro.thy ===== *)
theory Syncro
  imports Entity
begin

text \<open>
  The synchrocell (\<open>runtime/stream/entity/syncro.c\<close>): it stores the first record that matches each of
  its patterns, merges the stored records when the last pattern is matched, and passes on all
  records that match no open pattern.
\<close>

section \<open>The task\<close>

text \<open>
  A storage cell points to the dummy record (no match yet), is NULL (matched by a record that is
  stored for an earlier pattern) or points to a record.
\<close>

datatype 'r cell = Dummy | Null | Stored "'r snet_record"

record sync_arg =
  patterns :: "snet_variant snet_list"
  guard_exprs :: "snet_expr snet_list"

record 'r sync_state =
  storage :: "'r cell list"
  match_cnt :: nat
  partial_sync :: bool
  sync_input :: stream_id
  sync_done :: bool
  sync_seq :: "32 word"

text \<open>The record that a cell points to; the dummy record is never initialised.\<close>

fun cell_rec :: "'r cell \<Rightarrow> 'r snet_record res" where
  "cell_rec Dummy = Err UninitRead"
| "cell_rec Null = Err NullDeref"
| "cell_rec (Stored r) = Ok r"

definition merge_field :: "('r \<Rightarrow> 'r) \<Rightarrow> snet_variant \<Rightarrow> 'r snet_record \<Rightarrow> int \<times> 'r \<Rightarrow> 'r snet_record res" where
  "merge_field refCopy pattern result = (\<lambda>(name, field).
     bindR (SNetVariantHasField pattern name) (\<lambda>b.
     if b then SNetRecSetField result name (refCopy field) else Ok result))"

definition merge_tag :: "snet_variant \<Rightarrow> 'r snet_record \<Rightarrow> int \<times> int \<Rightarrow> 'r snet_record res" where
  "merge_tag pattern result = (\<lambda>(name, val).
     bindR (SNetVariantHasTag pattern name) (\<lambda>b. if b then SNetRecSetTag result name val else Ok result))"

text \<open>The body of the merge loop for the fields and tags of one stored record.\<close>

definition merge_rec :: "('r \<Rightarrow> 'r) \<Rightarrow> snet_variant \<Rightarrow> 'r snet_record \<Rightarrow> 'r snet_record \<Rightarrow> 'r snet_record res" where
  "merge_rec refCopy pattern r result =
     bindR (data_of r) (\<lambda>d. bindR (MAP_FOR_EACH (rec_fields d)) (\<lambda>fs.
     bindR (foldR (merge_field refCopy pattern) result fs) (\<lambda>result.
     bindR (MAP_FOR_EACH (rec_tags d)) (\<lambda>ts. foldR (merge_tag pattern) result ts))))"

definition merge_step ::
  "('r \<Rightarrow> 'r) \<Rightarrow> 'r cell list \<Rightarrow> 'r snet_record \<times> 'r action list \<Rightarrow> nat \<times> snet_variant \<Rightarrow> ('r snet_record \<times> 'r action list) res" where
  "merge_step refCopy st = (\<lambda>(result, as) (i, pattern).
     if i < length st then
       bindR (if i > 0 \<and> st ! i \<noteq> Null
              then bindR (cell_rec (st ! i)) (\<lambda>r. merge_rec refCopy pattern r result) else Ok result) (\<lambda>result.
       bindR (if st ! i \<noteq> Null then bindR (cell_rec (st ! i)) destroy_rec else Ok []) (\<lambda>as'.
       Ok (result, as @ as')))
     else Err OutOfBounds)"

definition MergeFromStorage ::
  "('r \<Rightarrow> 'r) \<Rightarrow> int \<Rightarrow> 32 word \<Rightarrow> 'r cell list \<Rightarrow> snet_variant snet_list \<Rightarrow> ('r snet_record \<times> 'r action list \<times> 32 word) res" where
  "MergeFromStorage refCopy node seq st pats =
     (if 0 < length st then
        bindR (cell_rec (st ! 0)) (\<lambda>r0. bindR (SNetRecCopy refCopy node seq r0) (\<lambda>(result, seq').
        bindR (LIST_ENUMERATE pats) (\<lambda>ips.
        bindR (foldR (merge_step refCopy st) (result, []) ips) (\<lambda>(result, as). Ok (result, as, seq')))))
      else Err OutOfBounds)"

text \<open>The references of the stored records that are destroyed with a partially filled cell.\<close>

definition destroy_step :: "'r cell list \<Rightarrow> 'r action list \<Rightarrow> nat \<times> snet_variant \<Rightarrow> 'r action list res" where
  "destroy_step st as = (\<lambda>(i, pattern).
     if i < length st then
       (case st ! i of Stored r \<Rightarrow> bindR (destroy_rec r) (\<lambda>as'. Ok (as @ as')) | _ \<Rightarrow> Ok as)
     else Err OutOfBounds)"

definition DestroyStorage :: "'r cell list \<Rightarrow> snet_variant snet_list \<Rightarrow> 'r action list res" where
  "DestroyStorage st pats = bindR (LIST_ENUMERATE pats) (\<lambda>ips. foldR (destroy_step st) [] ips)"

definition GetMergedTypeVariant :: "snet_variant snet_list \<Rightarrow> snet_variant res" where
  "GetMergedTypeVariant pats =
     bindR SNetVariantCreateEmpty (\<lambda>res. bindR (LIST_FOR_EACH pats) (\<lambda>vs.
     foldR (\<lambda>res var. SNetVariantAddAll res var False) res vs))"

text \<open>One pattern of the matching loop; the second component is \<open>new_matches\<close>.\<close>

definition match_step ::
  "'r snet_record \<Rightarrow> 'r sync_state \<times> nat \<Rightarrow> nat \<times> snet_variant \<times> snet_expr \<Rightarrow> ('r sync_state \<times> nat) res" where
  "match_step r = (\<lambda>(s, new_matches) (i, pattern, expr).
     if i < length (storage s) then
       (if storage s ! i = Dummy then
          bindR (SNetRecPatternMatches pattern r) (\<lambda>m. if \<not> m then Ok (s, new_matches) else
          bindR (SNetEevaluateBool expr r) (\<lambda>g. if \<not> g then Ok (s, new_matches) else
          Ok (s\<lparr>storage := (storage s)[i := if new_matches = 0 then Stored r else Null], partial_sync := True\<rparr>,
              new_matches + 1)))
        else Ok (s, new_matches))
     else Err OutOfBounds)"

text \<open>
  The firing cell: the merged record, then a sync record that hands the input stream to the
  receiver, with the merged type when the stream comes from a star (\<open>from_star\<close> tells whether a
  stream has a source).
\<close>

definition sync_fire ::
  "('r \<Rightarrow> 'r) \<Rightarrow> int \<Rightarrow> (stream_id \<Rightarrow> bool) \<Rightarrow> sync_arg \<Rightarrow> 'r sync_state \<Rightarrow> ('r sync_state \<times> 'r action list) res" where
  "sync_fire refCopy node from_star sarg s =
     bindR (MergeFromStorage refCopy node (sync_seq s) (storage s) (patterns sarg)) (\<lambda>(syncrec, as, seq).
     bindR (SNetRecCreate node seq (Args_sync (sync_input s))) (\<lambda>(rec2, seq).
     bindR (if from_star (sync_input s) then
              bindR (GetMergedTypeVariant (patterns sarg)) (\<lambda>outtype. SNetRecSetVariant rec2 (Some outtype))
            else Ok rec2) (\<lambda>rec2.
     Ok (s\<lparr>storage := replicate (length (storage s)) Null, partial_sync := False, sync_done := True, sync_seq := seq\<rparr>,
         as @ [SWrite Outstream syncrec, SWrite Outstream rec2, SClose Outstream False, SClose Instream False]))))"

fun sync_round ::
  "('r \<Rightarrow> 'r) \<Rightarrow> int \<Rightarrow> (stream_id \<Rightarrow> bool) \<Rightarrow> sync_arg \<Rightarrow> 'r sync_state \<Rightarrow> 'r snet_record \<Rightarrow> ('r sync_state \<times> 'r action list) res" where
  "sync_round refCopy node from_star sarg s (REC_data d) =
     bindR (LIST_ZIP_ENUMERATE (patterns sarg) (guard_exprs sarg)) (\<lambda>pes.
     bindR (foldR (match_step (REC_data d)) (s, 0) pes) (\<lambda>(s, new_matches).
     let s = s\<lparr>match_cnt := match_cnt s + new_matches\<rparr> in
     if new_matches = 0 then Ok (s, [SWrite Outstream (REC_data d)])
     else if match_cnt s = ListLength (patterns sarg) then sync_fire refCopy node from_star sarg s
     else Ok (s, [])))"
| "sync_round refCopy node from_star sarg s (REC_sync st v) =
     Ok (s\<lparr>sync_input := st\<rparr>, [SReplace Instream st])"
| "sync_round refCopy node from_star sarg s (REC_sort_end l n) = Ok (s, [SWrite Outstream (REC_sort_end l n)])"
| "sync_round refCopy node from_star sarg s (REC_terminate b) =
     bindR (if partial_sync s then DestroyStorage (storage s) (patterns sarg) else Ok []) (\<lambda>as.
     Ok (s\<lparr>sync_done := True\<rparr>,
         as @ [SWrite Outstream (REC_terminate b), SClose Outstream False, SClose Instream True]))"
| "sync_round refCopy node from_star sarg s _ = Err AssertFail"

definition sync_start :: "sync_arg \<Rightarrow> stream_id \<Rightarrow> 32 word \<Rightarrow> 'r sync_state" where
  "sync_start sarg input seq =
     \<lparr>storage = replicate (ListLength (patterns sarg)) Dummy, match_cnt = 0, partial_sync = False,
      sync_input = input, sync_done = False, sync_seq = seq\<rparr>"

definition SyncBoxTask ::
  "('r \<Rightarrow> 'r) \<Rightarrow> int \<Rightarrow> (stream_id \<Rightarrow> bool) \<Rightarrow> sync_arg \<Rightarrow> stream_id \<Rightarrow> 32 word \<Rightarrow> 'r snet_record list \<Rightarrow>
    ('r sync_state \<times> 'r action list) res" where
  "SyncBoxTask refCopy node from_star sarg input seq rs =
     run_task sync_done (sync_round refCopy node from_star sarg) (sync_start sarg input seq) rs"

section \<open>Matching\<close>

definition sync_pats :: "sync_arg \<Rightarrow> (snet_variant \<times> snet_expr) list" where
  "sync_pats sarg = zip (list_of (patterns sarg)) (list_of (guard_exprs sarg))"

definition sync_arg_ok :: "sync_arg \<Rightarrow> bool" where
  "sync_arg_ok sarg \<longleftrightarrow> list_inv (patterns sarg) \<and> list_inv (guard_exprs sarg) \<and>
     lused (patterns sarg) = lused (guard_exprs sarg) \<and> (\<forall>p\<in>set (list_of (patterns sarg)). variant_ok p)"

text \<open>The cells after the matching loop, where \<open>k\<close> patterns have been matched before.\<close>

fun fill :: "'r snet_record \<Rightarrow> nat \<Rightarrow> bool list \<Rightarrow> 'r cell list \<Rightarrow> 'r cell list" where
  "fill r k (m # ms) (c # cs) =
     (if c = Dummy \<and> m then (if k = 0 then Stored r else Null) # fill r (Suc k) ms cs else c # fill r k ms cs)"
| "fill r k _ cs = cs"

fun hits :: "bool list \<Rightarrow> 'r cell list \<Rightarrow> nat" where
  "hits (m # ms) (c # cs) = (if c = Dummy \<and> m then Suc (hits ms cs) else hits ms cs)"
| "hits _ _ = 0"

lemma length_fill [simp]: "length (fill r k ms cs) = length cs"
  by (induction r k ms cs rule: fill.induct) auto

lemma fill_nth:
  "length ms = length cs \<Longrightarrow> i < length cs \<Longrightarrow>
     fill r k ms cs ! i =
       (if cs ! i = Dummy \<and> ms ! i then (if k = 0 \<and> (\<forall>j<i. \<not> (cs ! j = Dummy \<and> ms ! j)) then Stored r else Null) else cs ! i)"
proof (induction r k ms cs arbitrary: i rule: fill.induct)
  case (1 r k m ms c cs)
  then show ?case by (cases i) (auto simp: less_Suc_eq_0_disj)
qed auto

lemma hits_0_iff: "length ms = length cs \<Longrightarrow> hits ms cs = 0 \<longleftrightarrow> (\<forall>i<length cs. \<not> (cs ! i = Dummy \<and> ms ! i))"
  by (induction ms cs rule: hits.induct) (auto simp: less_Suc_eq_0_disj)

lemma fill_id: "hits ms cs = 0 \<Longrightarrow> fill r k ms cs = cs"
  by (induction r k ms cs rule: fill.induct) (auto split: if_splits)

definition open_cells :: "'r cell list \<Rightarrow> nat" where
  "open_cells cs = length (filter (\<lambda>c. c = Dummy) cs)"

lemma open_cells_simps [simp]: "open_cells [] = 0" "open_cells (c # cs) = (if c = Dummy then Suc (open_cells cs) else open_cells cs)"
  by (simp_all add: open_cells_def)

lemma open_cells_fill: "length ms = length cs \<Longrightarrow> open_cells (fill r k ms cs) + hits ms cs = open_cells cs"
  by (induction r k ms cs rule: fill.induct) auto

lemma open_cells_0_iff: "open_cells cs = 0 \<longleftrightarrow> Dummy \<notin> set cs"
  by (induction cs) auto

lemma match_step_accepts:
  assumes "variant_ok (fst pe)" and "data_ok d" and "carries (fst pe) d \<longrightarrow> is_Ok (SNetEevaluateBool (snd pe) (REC_data d))"
    and "i < length (storage s)"
  shows "match_step (REC_data d) (s, k) (i, pe) =
    Ok (if storage s ! i = Dummy \<and> accepts pe d
        then (s\<lparr>storage := (storage s)[i := if k = 0 then Stored (REC_data d) else Null], partial_sync := True\<rparr>, k + 1)
        else (s, k))"
proof -
  have "SNetRecPatternMatches (fst pe) (REC_data d) = Ok (carries (fst pe) d)"
    using SNetRecPatternMatches_spec[OF assms(1,2)] by (simp add: carries_def)
  moreover obtain b where "carries (fst pe) d \<longrightarrow> SNetEevaluateBool (snd pe) (REC_data d) = Ok b" using assms(3) by (auto simp: is_Ok_iff)
  ultimately show ?thesis using assms(4) by (cases pe) (auto simp: match_step_def accepts_def)
qed

lemma match_loop:
  assumes "data_ok d"
  shows "\<forall>pe\<in>set pes. variant_ok (fst pe) \<Longrightarrow> guards_defined pes d \<Longrightarrow> storage s = pre @ cs \<Longrightarrow> length cs = length pes \<Longrightarrow>
     foldR (match_step (REC_data d)) (s, k) (enumerate (length pre) pes) =
       Ok (s\<lparr>storage := pre @ fill (REC_data d) k (map (\<lambda>pe. accepts pe d) pes) cs,
            partial_sync := partial_sync s \<or> 0 < hits (map (\<lambda>pe. accepts pe d) pes) cs\<rparr>,
           k + hits (map (\<lambda>pe. accepts pe d) pes) cs)"
proof (induction pes arbitrary: pre cs s k)
  case Nil
  then show ?case by simp
next
  case (Cons pe pes)
  then obtain c cs' where cs: "cs = c # cs'" by (cases cs) auto
  let ?hit = "c = Dummy \<and> accepts pe d"
  let ?c = "if ?hit then (if k = 0 then Stored (REC_data d) else Null) else c"
  let ?s = "s\<lparr>storage := (pre @ [?c]) @ cs', partial_sync := partial_sync s \<or> ?hit\<rparr>"
  have len: "length pre < length (storage s)" using Cons.prems(3) cs by simp
  have ok: "variant_ok (fst pe)" "carries (fst pe) d \<longrightarrow> is_Ok (SNetEevaluateBool (snd pe) (REC_data d))"
    using Cons.prems(1,2) by (auto simp: guards_defined_def)
  have "(s\<lparr>partial_sync := partial_sync s\<rparr>) = s" "s\<lparr>storage := storage s\<rparr> = s" by simp_all
  then have "match_step (REC_data d) (s, k) (length pre, pe) = Ok (?s, if ?hit then k + 1 else k)"
    using match_step_accepts[OF ok(1) assms ok(2) len] Cons.prems(3) cs by (auto simp: list_update_append)
  moreover have "foldR (match_step (REC_data d)) (?s, if ?hit then k + 1 else k) (enumerate (length (pre @ [?c])) pes) =
       Ok (?s\<lparr>storage := (pre @ [?c]) @ fill (REC_data d) (if ?hit then k + 1 else k) (map (\<lambda>pe. accepts pe d) pes) cs',
            partial_sync := partial_sync ?s \<or> 0 < hits (map (\<lambda>pe. accepts pe d) pes) cs'\<rparr>,
           (if ?hit then k + 1 else k) + hits (map (\<lambda>pe. accepts pe d) pes) cs')"
    by (rule Cons.IH) (use Cons.prems cs in \<open>auto simp: guards_defined_def\<close>)
  ultimately show ?case by (cases ?hit) (auto simp: cs)
qed

section \<open>Merging\<close>

text \<open>The labels that the record of a cell contributes: those that the pattern of the cell names.\<close>

fun add_fields :: "('r \<Rightarrow> 'r) \<Rightarrow> (int \<Rightarrow> 'r option) \<Rightarrow> snet_variant \<times> 'r cell \<Rightarrow> int \<Rightarrow> 'r option" where
  "add_fields c m (p, Stored (REC_data d)) = m ++ restrict_labels (\<lambda>n. n \<in> vfields p) c (field_map d)"
| "add_fields c m (p, _) = m"

fun add_tags :: "(int \<Rightarrow> int option) \<Rightarrow> snet_variant \<times> 'r cell \<Rightarrow> int \<Rightarrow> int option" where
  "add_tags m (p, Stored (REC_data d)) = m ++ restrict_labels (\<lambda>n. n \<in> vtags p) (\<lambda>v. v) (tag_map d)"
| "add_tags m (p, _) = m"

definition cells_ok :: "'r cell list \<Rightarrow> bool" where
  "cells_ok cs \<longleftrightarrow> (\<forall>c\<in>set cs. c = Null \<or> (\<exists>d. c = Stored (REC_data d) \<and> data_ok d))"

lemma merge_rec_spec:
  assumes "variant_ok p" and "data_ok src" and "data_ok d"
  shows "\<exists>d'. merge_rec c p (REC_data src) (REC_data d) = Ok (REC_data d') \<and> data_ok d' \<and>
     field_map d' = add_fields c (field_map d) (p, Stored (REC_data src)) \<and>
     tag_map d' = add_tags (tag_map d) (p, Stored (REC_data src)) \<and> btag_map d' = btag_map d"
proof -
  have "merge_field c p (REC_data e) (k, v) = (if k \<in> vfields p then SNetRecSetField (REC_data e) k (c v) else Ok (REC_data e))" for e k v
    by (simp add: merge_field_def variant_has[OF assms(1)])
  moreover have "merge_tag p (REC_data e) (k, v) = (if k \<in> vtags p then SNetRecSetTag (REC_data e) k v else Ok (REC_data e))"
    for e :: "'a data_rec" and k v by (simp add: merge_tag_def variant_has[OF assms(1)])
  ultimately show ?thesis
    using label_loops[OF assms(2,3), of "merge_field c p" "\<lambda>k. k \<in> vfields p" c "merge_tag p" "\<lambda>k. k \<in> vtags p"]
    by (simp add: merge_rec_def)
qed

lemma destroy_data: "data_ok d \<Longrightarrow> destroy_rec (REC_data d) = Ok [DestroyRefs (map snd (entries (rec_fields d)))]"
  by (simp add: destroy_rec_def map_cells data_ok_inv)

lemma merge_step_spec:
  assumes "variant_ok p" and "data_ok d" and "cells_ok st" and "0 < i" and "i < length st"
  shows "\<exists>d' as'. merge_step c st (REC_data d, as) (i, p) = Ok (REC_data d', as @ as') \<and> data_ok d' \<and>
     field_map d' = add_fields c (field_map d) (p, st ! i) \<and> tag_map d' = add_tags (tag_map d) (p, st ! i) \<and>
     btag_map d' = btag_map d \<and> written Outstream as' = []"
proof -
  have "st ! i = Null \<or> (\<exists>e. st ! i = Stored (REC_data e) \<and> data_ok e)" using assms(3,5) by (auto simp: cells_ok_def)
  then show ?thesis
  proof (elim disjE exE conjE)
    fix e assume e: "st ! i = Stored (REC_data e)" "data_ok e"
    with merge_rec_spec[OF assms(1) e(2) assms(2), of c] assms(4,5) destroy_data[OF e(2)] show ?thesis
      by (fastforce simp: merge_step_def)
  qed (use assms in \<open>simp add: merge_step_def\<close>)
qed

lemma merge_loop:
  "\<forall>p\<in>set ps. variant_ok p \<Longrightarrow> data_ok d \<Longrightarrow> cells_ok st \<Longrightarrow> 0 < j \<Longrightarrow> j + length ps \<le> length st \<Longrightarrow>
     \<exists>d' as'. foldR (merge_step c st) (REC_data d, as) (enumerate j ps) = Ok (REC_data d', as @ as') \<and> data_ok d' \<and>
       field_map d' = foldl (add_fields c) (field_map d) (zip ps (drop j st)) \<and>
       tag_map d' = foldl add_tags (tag_map d) (zip ps (drop j st)) \<and> btag_map d' = btag_map d \<and> written Outstream as' = []"
proof (induction ps arbitrary: d j as)
  case Nil
  then show ?case by simp
next
  case (Cons p ps)
  obtain d1 as1 where d1: "merge_step c st (REC_data d, as) (j, p) = Ok (REC_data d1, as @ as1)" "data_ok d1"
    "field_map d1 = add_fields c (field_map d) (p, st ! j)" "tag_map d1 = add_tags (tag_map d) (p, st ! j)"
    "btag_map d1 = btag_map d" "written Outstream as1 = []"
    using merge_step_spec[of p d st j c as] Cons.prems by fastforce
  have "drop j st = st ! j # drop (Suc j) st" using Cons.prems(5) by (simp add: Cons_nth_drop_Suc)
  with Cons.IH[OF _ d1(2) Cons.prems(3), of "Suc j" "as @ as1"] Cons.prems(1,5) d1 show ?case by fastforce
qed

lemma MergeFromStorage_spec:
  assumes "list_inv pats" and "list_of pats = p0 # ps" and "\<forall>p\<in>set ps. variant_ok p"
    and "st = Stored (REC_data d0) # cs" and "length cs = length ps" and "cells_ok st"
  shows "\<exists>d as. MergeFromStorage c node seq st pats = Ok (REC_data d, as, seq + 1) \<and> data_ok d \<and>
     field_map d = foldl (add_fields c) (map_option c \<circ> field_map d0) (zip ps cs) \<and>
     tag_map d = foldl add_tags (tag_map d0) (zip ps cs) \<and> btag_map d = btag_map d0 \<and> written Outstream as = []"
proof -
  have d0: "data_ok d0" using assms(4,6) by (simp add: cells_ok_def)
  obtain r where r: "SNetRecCopy c node seq (REC_data d0) = Ok (REC_data r, seq + 1)" "data_ok r"
    "field_map r = map_option c \<circ> field_map d0" "tag_map r = tag_map d0" "btag_map r = btag_map d0"
    using SNetRecCopy_data[OF d0, of c node seq] by blast
  let ?as = "[DestroyRefs (map snd (entries (rec_fields d0)))]"
  have first: "merge_step c st (REC_data r, []) (0, p0) = Ok (REC_data r, ?as)"
    using destroy_data[OF d0] assms(4) by (simp add: merge_step_def)
  obtain d as where "foldR (merge_step c st) (REC_data r, ?as) (enumerate 1 ps) = Ok (REC_data d, ?as @ as)" "data_ok d"
    "field_map d = foldl (add_fields c) (field_map r) (zip ps cs)" "tag_map d = foldl add_tags (tag_map r) (zip ps cs)"
    "btag_map d = btag_map r" "written Outstream as = []"
    using merge_loop[OF assms(3) r(2) assms(6), of 1 c ?as] assms(4,5) by auto
  with r first show ?thesis using assms(1,2,4)
    by (simp add: MergeFromStorage_def LIST_ENUMERATE_list_of del: SNetRecCopy.simps bindR_eq_Ok)
qed

lemma GetMergedTypeVariant_spec:
  assumes "list_inv pats" and "\<forall>p\<in>set (list_of pats). variant_ok p"
  shows "\<exists>v. GetMergedTypeVariant pats = Ok v \<and> variant_ok v \<and> variant_full v \<and> vtags v = (\<Union>p\<in>set (list_of pats). vtags p) \<and>
     vbtags v = (\<Union>p\<in>set (list_of pats). vbtags p) \<and> vfields v = (\<Union>p\<in>set (list_of pats). vfields p)"
proof -
  have loop: "\<exists>v. foldR (\<lambda>res var. SNetVariantAddAll res var False) e ps = Ok v \<and> variant_ok v \<and> variant_full v \<and>
      vtags v = vtags e \<union> (\<Union>p\<in>set ps. vtags p) \<and> vbtags v = vbtags e \<union> (\<Union>p\<in>set ps. vbtags p) \<and> vfields v = vfields e \<union> (\<Union>p\<in>set ps. vfields p)"
    if "variant_ok e" "variant_full e" "\<forall>p\<in>set ps. variant_ok p" for e ps
    using that
  proof (induction ps arbitrary: e)
    case Nil
    then show ?case by simp
  next
    case (Cons p ps)
    then obtain v where v: "SNetVariantAddAll e p False = Ok v" "variant_ok v"
      "vtags v = vtags e \<union> vtags p" "vbtags v = vbtags e \<union> vbtags p" "vfields v = vfields e \<union> vfields p"
      using SNetVariantAddAll_union[of e p] by auto
    have "variant_full v" using SNetVariantAddAll_full[OF _ _ Cons.prems(2) v(1)] Cons.prems by simp
    from Cons.IH[OF v(2) this] Cons.prems v show ?case by (auto simp: Un_assoc)
  qed
  obtain e where e: "SNetVariantCreateEmpty = Ok e" "variant_ok e" "SNetVariantIsEmpty e" using SNetVariantCreateEmpty_spec by blast
  from loop[OF e(2) SNetVariantCreateEmpty_full[OF e(1)] assms(2)] e(3) assms(1) show ?thesis
    unfolding GetMergedTypeVariant_def e(1) by (simp add: LIST_FOR_EACH_list_of SNetVariantIsEmpty_spec)
qed

section \<open>The invariant of the cell\<close>

definition sync_inv :: "sync_arg \<Rightarrow> 'r sync_state \<Rightarrow> bool" where
  "sync_inv sarg s \<longleftrightarrow> length (storage s) = length (sync_pats sarg) \<and>
     match_cnt s + open_cells (storage s) = length (sync_pats sarg) \<and> 0 < open_cells (storage s) \<and>
     partial_sync s = (0 < match_cnt s) \<and> \<not> sync_done s \<and> storage s ! 0 \<noteq> Null \<and>
     (\<forall>i<length (storage s). storage s ! i = Dummy \<or> storage s ! i = Null \<or>
        (\<exists>d. storage s ! i = Stored (REC_data d) \<and> data_ok d \<and> accepts (sync_pats sarg ! i) d))"

definition filled :: "sync_arg \<Rightarrow> 'r sync_state \<Rightarrow> 'r data_rec \<Rightarrow> 'r cell list" where
  "filled sarg s d = fill (REC_data d) 0 (map (\<lambda>pe. accepts pe d) (sync_pats sarg)) (storage s)"

lemma length_sync_pats: "sync_arg_ok sarg \<Longrightarrow> length (sync_pats sarg) = ListLength (patterns sarg)"
  by (simp add: sync_arg_ok_def sync_pats_def ListLength_def)

lemma sync_pats_ok: "sync_arg_ok sarg \<Longrightarrow> pe \<in> set (sync_pats sarg) \<Longrightarrow> variant_ok (fst pe)"
  by (cases pe) (auto simp: sync_arg_ok_def sync_pats_def dest: set_zip_leftD)

lemma sync_inv_start: "sync_arg_ok sarg \<Longrightarrow> 0 < ListLength (patterns sarg) \<Longrightarrow> sync_inv sarg (sync_start sarg input seq)"
  by (simp add: sync_inv_def sync_start_def length_sync_pats open_cells_def filter_replicate)

lemma filled_nth:
  assumes "length (storage s) = length (sync_pats sarg)" and "i < length (storage s)"
  shows "filled sarg s d ! i =
    (if storage s ! i = Dummy \<and> accepts (sync_pats sarg ! i) d
     then (if \<forall>j<i. \<not> (storage s ! j = Dummy \<and> accepts (sync_pats sarg ! j) d) then Stored (REC_data d) else Null)
     else storage s ! i)"
  using assms by (simp add: filled_def fill_nth)

lemma filled_cells:
  assumes "sync_inv sarg s" and "data_ok d" and "i < length (storage s)"
  shows "filled sarg s d ! i = Dummy \<or> filled sarg s d ! i = Null \<or>
     (\<exists>e. filled sarg s d ! i = Stored (REC_data e) \<and> data_ok e \<and> accepts (sync_pats sarg ! i) e)"
  using assms filled_nth[of s sarg i d] by (auto simp: sync_inv_def)

lemma filled_0: "sync_inv sarg s \<Longrightarrow> filled sarg s d ! 0 \<noteq> Null"
proof -
  assume inv: "sync_inv sarg s"
  then have "0 < length (storage s)" by (cases "storage s") (auto simp: sync_inv_def)
  with inv filled_nth[of s sarg 0 d] show ?thesis by (auto simp: sync_inv_def)
qed

text \<open>The matching loop on a state that satisfies the invariant.\<close>

lemma sync_match:
  assumes "sync_arg_ok sarg" and "sync_inv sarg s" and "data_ok d" and "guards_defined (sync_pats sarg) d"
  shows "\<exists>h. bindR (LIST_ZIP_ENUMERATE (patterns sarg) (guard_exprs sarg)) (\<lambda>pes. foldR (match_step (REC_data d)) (s, 0) pes) =
       Ok (s\<lparr>storage := filled sarg s d, partial_sync := partial_sync s \<or> 0 < h\<rparr>, h) \<and>
     open_cells (filled sarg s d) + h = open_cells (storage s) \<and>
     (h = 0 \<longleftrightarrow> (\<forall>i<length (storage s). \<not> (storage s ! i = Dummy \<and> accepts (sync_pats sarg ! i) d))) \<and>
     (h = 0 \<longrightarrow> filled sarg s d = storage s)"
proof -
  let ?ms = "map (\<lambda>pe. accepts pe d) (sync_pats sarg)"
  have len: "length (storage s) = length (sync_pats sarg)" using assms(2) by (simp add: sync_inv_def)
  have "LIST_ZIP_ENUMERATE (patterns sarg) (guard_exprs sarg) = Ok (enumerate 0 (sync_pats sarg))"
    using assms(1) by (simp add: sync_arg_ok_def sync_pats_def LIST_ZIP_ENUMERATE_list_of)
  moreover have "foldR (match_step (REC_data d)) (s, 0) (enumerate 0 (sync_pats sarg)) =
      Ok (s\<lparr>storage := filled sarg s d, partial_sync := partial_sync s \<or> 0 < hits ?ms (storage s)\<rparr>, hits ?ms (storage s))"
    using match_loop[OF assms(3) _ assms(4), of s "[]" "storage s" 0] sync_pats_ok[OF assms(1)] len by (simp add: filled_def)
  moreover have "open_cells (filled sarg s d) + hits ?ms (storage s) = open_cells (storage s)"
    unfolding filled_def using len by (intro open_cells_fill) simp
  moreover have "hits ?ms (storage s) = 0 \<longleftrightarrow> (\<forall>i<length (storage s). \<not> (storage s ! i = Dummy \<and> accepts (sync_pats sarg ! i) d))"
    using hits_0_iff[of ?ms "storage s"] len by auto
  moreover have "hits ?ms (storage s) = 0 \<longrightarrow> filled sarg s d = storage s" by (auto simp: filled_def fill_id)
  ultimately show ?thesis by (intro exI[of _ "hits ?ms (storage s)"]) (simp only: bindR.simps simp_thms)
qed

text \<open>The labels of the merged record, from the patterns and the full storage.\<close>

definition merged_fields :: "('r \<Rightarrow> 'r) \<Rightarrow> snet_variant list \<Rightarrow> 'r cell list \<Rightarrow> int \<Rightarrow> 'r option" where
  "merged_fields c ps cs =
     (case cs of Stored (REC_data d0) # _ \<Rightarrow> foldl (add_fields c) (map_option c \<circ> field_map d0) (zip (tl ps) (tl cs)) | _ \<Rightarrow> Map.empty)"

definition merged_tags :: "snet_variant list \<Rightarrow> 'r cell list \<Rightarrow> int \<Rightarrow> int option" where
  "merged_tags ps cs =
     (case cs of Stored (REC_data d0) # _ \<Rightarrow> foldl add_tags (tag_map d0) (zip (tl ps) (tl cs)) | _ \<Rightarrow> Map.empty)"

lemma sync_fire_spec:
  assumes "sync_arg_ok sarg" and "length (storage s) = length (sync_pats sarg)" and "Dummy \<notin> set (storage s)"
    and "storage s ! 0 \<noteq> Null" and "storage s \<noteq> []"
    and "\<forall>i<length (storage s). storage s ! i = Null \<or> (\<exists>d. storage s ! i = Stored (REC_data d) \<and> data_ok d)"
  shows "\<exists>s' as m v. sync_fire c node from_star sarg s = Ok (s', as) \<and> sync_done s' \<and> \<not> partial_sync s' \<and>
     written Outstream as = [REC_data m, REC_sync (sync_input s) v] \<and> (v = None \<longleftrightarrow> \<not> from_star (sync_input s)) \<and> data_ok m \<and>
     field_map m = merged_fields c (list_of (patterns sarg)) (storage s) \<and>
     tag_map m = merged_tags (list_of (patterns sarg)) (storage s)"
proof -
  have pats: "list_inv (patterns sarg)" "\<forall>p\<in>set (list_of (patterns sarg)). variant_ok p" using assms(1) by (auto simp: sync_arg_ok_def)
  have len: "length (list_of (patterns sarg)) = length (storage s)"
    using assms(1,2) length_sync_pats[OF assms(1)] by (simp add: ListLength_def)
  obtain c0 cs where st: "storage s = c0 # cs" using assms(5) by (cases "storage s") auto
  obtain p0 ps where ps: "list_of (patterns sarg) = p0 # ps" using len st by (cases "list_of (patterns sarg)") auto
  obtain d0 where c0: "c0 = Stored (REC_data d0)"
  proof -
    have "storage s ! 0 = Null \<or> (\<exists>d. storage s ! 0 = Stored (REC_data d) \<and> data_ok d)" using assms(5,6) by blast
    with assms(4) st that show ?thesis by auto
  qed
  have ok: "cells_ok (storage s)" using assms(6) by (simp add: cells_ok_def all_set_conv_all_nth)
  obtain m as where m: "MergeFromStorage c node (sync_seq s) (storage s) (patterns sarg) = Ok (REC_data m, as, sync_seq s + 1)" "data_ok m"
    "field_map m = foldl (add_fields c) (map_option c \<circ> field_map d0) (zip ps cs)" "tag_map m = foldl add_tags (tag_map d0) (zip ps cs)"
    "written Outstream as = []"
  proof -
    have "\<forall>p\<in>set ps. variant_ok p" "storage s = Stored (REC_data d0) # cs" "length cs = length ps" using pats(2) ps st c0 len by simp_all
    from MergeFromStorage_spec[OF pats(1) ps this ok] that show ?thesis by blast
  qed
  from GetMergedTypeVariant_spec[OF pats] obtain v where v: "GetMergedTypeVariant (patterns sarg) = Ok v" "variant_ok v" "variant_full v"
    by (elim exE conjE)
  obtain w where w: "SNetVariantCopy v = Ok w" using SNetVariantCopy_full[OF v(2,3)] by blast
  let ?v = "if from_star (sync_input s) then Some w else None"
  let ?as = "as @ [SWrite Outstream (REC_data m), SWrite Outstream (REC_sync (sync_input s) ?v), SClose Outstream False, SClose Instream False]"
  have "sync_fire c node from_star sarg s = Ok (s\<lparr>storage := replicate (length (storage s)) Null, partial_sync := False, sync_done := True,
      sync_seq := sync_seq s + 1\<rparr>, ?as)"
    using m(1) v(1) w by (simp add: sync_fire_def del: bindR_eq_Ok)
  moreover have "written Outstream ?as = [REC_data m, REC_sync (sync_input s) ?v]" using m(5) by simp
  moreover have "field_map m = merged_fields c (list_of (patterns sarg)) (storage s)" "tag_map m = merged_tags (list_of (patterns sarg)) (storage s)"
    using m(3,4) st ps c0 by (simp_all add: merged_fields_def merged_tags_def)
  ultimately show ?thesis using m(2)
    by (intro exI[of _ "s\<lparr>storage := replicate (length (storage s)) Null, partial_sync := False, sync_done := True,
          sync_seq := sync_seq s + 1\<rparr>"] exI[of _ ?as] exI[of _ m] exI[of _ ?v]) simp
qed

definition any_hit :: "sync_arg \<Rightarrow> 'r sync_state \<Rightarrow> 'r data_rec \<Rightarrow> bool" where
  "any_hit sarg s d \<longleftrightarrow> (\<exists>i<length (storage s). storage s ! i = Dummy \<and> accepts (sync_pats sarg ! i) d)"

lemma sync_round_data:
  assumes "sync_arg_ok sarg" and "sync_inv sarg s" and "data_ok d" and "guards_defined (sync_pats sarg) d"
  shows "\<exists>s' as. sync_round c node from_star sarg s (REC_data d) = Ok (s', as) \<and>
    (if \<not> any_hit sarg s d
     then s' = s \<and> as = [SWrite Outstream (REC_data d)]
     else if Dummy \<in> set (filled sarg s d)
     then as = [] \<and> storage s' = filled sarg s d \<and> sync_inv sarg s' \<and> sync_input s' = sync_input s
     else sync_done s' \<and> \<not> partial_sync s' \<and>
       (\<exists>m v. written Outstream as = [REC_data m, REC_sync (sync_input s) v] \<and> (v = None \<longleftrightarrow> \<not> from_star (sync_input s)) \<and> data_ok m \<and>
          field_map m = merged_fields c (list_of (patterns sarg)) (filled sarg s d) \<and>
          tag_map m = merged_tags (list_of (patterns sarg)) (filled sarg s d)))"
proof -
  obtain h where h: "bindR (LIST_ZIP_ENUMERATE (patterns sarg) (guard_exprs sarg)) (\<lambda>pes. foldR (match_step (REC_data d)) (s, 0) pes) =
       Ok (s\<lparr>storage := filled sarg s d, partial_sync := partial_sync s \<or> 0 < h\<rparr>, h)"
    "open_cells (filled sarg s d) + h = open_cells (storage s)"
    "h = 0 \<longleftrightarrow> \<not> any_hit sarg s d"
    "h = 0 \<longrightarrow> filled sarg s d = storage s"
    using sync_match[OF assms] unfolding any_hit_def by blast
  have inv: "length (storage s) = length (sync_pats sarg)" "match_cnt s + open_cells (storage s) = length (sync_pats sarg)"
    "partial_sync s = (0 < match_cnt s)" "\<not> sync_done s" "0 < open_cells (storage s)"
    using assms(2) by (simp_all add: sync_inv_def)
  let ?s = "s\<lparr>storage := filled sarg s d, partial_sync := partial_sync s \<or> 0 < h, match_cnt := match_cnt s + h\<rparr>"
  have len: "length (filled sarg s d) = length (sync_pats sarg)" using inv(1) by (simp add: filled_def)
  have rnd: "sync_round c node from_star sarg s (REC_data d) =
     (if h = 0 then Ok (?s, [SWrite Outstream (REC_data d)])
      else if match_cnt s + h = ListLength (patterns sarg) then sync_fire c node from_star sarg ?s else Ok (?s, []))"
    using h(1) by (simp add: bindR_assoc[symmetric] Let_def del: bindR_eq_Ok)
  have full: "match_cnt s + h = ListLength (patterns sarg) \<longleftrightarrow> Dummy \<notin> set (filled sarg s d)"
    using inv(2) h(2) length_sync_pats[OF assms(1)] by (simp add: open_cells_0_iff[symmetric]) arith
  show ?thesis
  proof (cases "h = 0")
    case True
    then have "?s = s" using h(4) inv(3) by simp
    with True h(3) show ?thesis by (simp add: rnd del: sync_round.simps)
  next
    case False
    show ?thesis
    proof (cases "Dummy \<in> set (filled sarg s d)")
      case True
      then have "0 < open_cells (filled sarg s d)" using open_cells_0_iff by auto
      then have "sync_inv sarg ?s"
        using inv h(2) len False filled_0[OF assms(2)] filled_cells[OF assms(2,3)] by (simp add: sync_inv_def)
      moreover have "sync_round c node from_star sarg s (REC_data d) = Ok (?s, [])" using False True full by (simp add: rnd del: sync_round.simps)
      moreover have "any_hit sarg s d" using False h(3) by simp
      ultimately show ?thesis using True by (simp del: sync_round.simps)
    next
      case no: False
      have "filled sarg s d \<noteq> []" using len inv(1,5) by auto
      moreover have "\<forall>i<length (filled sarg s d). filled sarg s d ! i = Null \<or> (\<exists>d'. filled sarg s d ! i = Stored (REC_data d') \<and> data_ok d')"
        using filled_cells[OF assms(2,3)] no len inv(1) by (metis nth_mem)
      moreover have "sync_round c node from_star sarg s (REC_data d) = sync_fire c node from_star sarg ?s"
        using False no full by (simp add: rnd del: sync_round.simps)
      moreover have nh: "any_hit sarg s d" using False h(3) by simp
      ultimately show ?thesis
        using nh sync_fire_spec[OF assms(1), of ?s c node from_star] no len filled_0[OF assms(2)] by (simp del: sync_round.simps)
    qed
  qed
qed

lemma sync_inv_round:
  assumes "sync_inv sarg s" and "sync_round c node from_star sarg s r = Ok (s', as)" and "\<not> sync_done s'"
    and "sync_arg_ok sarg" and "\<forall>d. r = REC_data d \<longrightarrow> data_ok d \<and> guards_defined (sync_pats sarg) d"
  shows "sync_inv sarg s'"
proof (cases r)
  case (REC_data d)
  with assms(5) have "data_ok d" "guards_defined (sync_pats sarg) d" by auto
  from sync_round_data[OF assms(4,1) this, of c node from_star] assms(2,3) REC_data assms(1) show ?thesis by (auto split: if_splits)
qed (use assms in \<open>auto simp: sync_inv_def\<close>)

text \<open>Every pattern whose cell holds a record is covered by the merged record.\<close>

lemma dom_add_fields: "dom (foldl (add_fields c) m pcs) = dom m \<union> (\<Union>(p, x)\<in>set pcs. dom (add_fields c Map.empty (p, x)))"
proof (induction pcs arbitrary: m)
  case Nil
  then show ?case by simp
next
  case (Cons pc pcs)
  obtain p x where pc: "pc = (p, x)" by (cases pc)
  have "dom (add_fields c m (p, x)) = dom m \<union> dom (add_fields c Map.empty (p, x))"
    by (cases "(c, m, (p, x))" rule: add_fields.cases) auto
  with Cons pc show ?case by auto
qed

lemma dom_add_tags: "dom (foldl add_tags m pcs) = dom m \<union> (\<Union>(p, x)\<in>set pcs. dom (add_tags Map.empty (p, x)))"
proof (induction pcs arbitrary: m)
  case Nil
  then show ?case by simp
next
  case (Cons pc pcs)
  obtain p x where pc: "pc = (p, x)" by (cases pc)
  have "dom (add_tags m (p, x)) = dom m \<union> dom (add_tags Map.empty (p, x))"
    by (cases "(m, (p, x))" rule: add_tags.cases) auto
  with Cons pc show ?case by auto
qed

lemma merged_covers:
  assumes "length ps = length cs" and "i < length cs" and "cs ! 0 = Stored (REC_data d0)" and "carries (ps ! 0) d0"
    and "cs ! i = Stored (REC_data d)" and "carries (ps ! i) d"
  shows "vfields (ps ! i) \<subseteq> dom (merged_fields c ps cs)" and "vtags (ps ! i) \<subseteq> dom (merged_tags ps cs)"
proof -
  obtain cs' where cs: "cs = Stored (REC_data d0) # cs'" using assms(2,3) by (cases cs) auto
  obtain p0 ps' where ps: "ps = p0 # ps'" using assms(1) cs by (cases ps) auto
  have "vfields (ps ! i) \<subseteq> dom (merged_fields c ps cs) \<and> vtags (ps ! i) \<subseteq> dom (merged_tags ps cs)"
  proof (cases i)
    case 0
    then show ?thesis using assms(4) cs ps by (auto simp: merged_fields_def merged_tags_def dom_add_fields dom_add_tags carries_def)
  next
    case (Suc j)
    have mem: "(ps' ! j, cs' ! j) \<in> set (zip ps' cs')" using Suc assms(1,2) cs ps by (auto simp: set_zip)
    have "vfields (ps' ! j) \<subseteq> dom (add_fields c Map.empty (ps' ! j, cs' ! j))" "vtags (ps' ! j) \<subseteq> dom (add_tags Map.empty (ps' ! j, cs' ! j))"
      using assms(5,6) Suc cs ps by (auto simp: restrict_labels_def carries_def dom_def)
    then have "vfields (ps' ! j) \<subseteq> (\<Union>(p, x)\<in>set (zip ps' cs'). dom (add_fields c Map.empty (p, x)))"
      "vtags (ps' ! j) \<subseteq> (\<Union>(p, x)\<in>set (zip ps' cs'). dom (add_tags Map.empty (p, x)))"
      using UN_upper[OF mem, of "\<lambda>(p, x). dom (add_fields c Map.empty (p, x))"]
        UN_upper[OF mem, of "\<lambda>(p, x). dom (add_tags Map.empty (p, x))"] by (simp_all only: case_prod_conv)
    then show ?thesis
      unfolding merged_fields_def merged_tags_def cs ps Suc by (simp add: dom_add_fields dom_add_tags le_supI2)
  qed
  then show "vfields (ps ! i) \<subseteq> dom (merged_fields c ps cs)" "vtags (ps ! i) \<subseteq> dom (merged_tags ps cs)" by auto
qed

lemma merged_complete:
  assumes "length ps = length cs" and "\<forall>i<length cs. \<exists>d. cs ! i = Stored (REC_data d) \<and> carries (ps ! i) d"
  shows "\<forall>p\<in>set ps. vfields p \<subseteq> dom (merged_fields c ps cs) \<and> vtags p \<subseteq> dom (merged_tags ps cs)"
proof
  fix p assume "p \<in> set ps"
  then obtain i where i: "i < length cs" "p = ps ! i" using assms(1) by (auto simp: in_set_conv_nth)
  then have "0 < length cs" by linarith
  then obtain d0 where "cs ! 0 = Stored (REC_data d0)" "carries (ps ! 0) d0" using assms(2) by blast
  moreover obtain d where "cs ! i = Stored (REC_data d)" "carries (ps ! i) d" using assms(2) i(1) by blast
  ultimately show "vfields p \<subseteq> dom (merged_fields c ps cs) \<and> vtags p \<subseteq> dom (merged_tags ps cs)"
    unfolding i(2) using merged_covers[OF assms(1) i(1)] by blast
qed

text \<open>What the record stored for a pattern gives for a label.\<close>

definition supplied_field :: "int \<Rightarrow> snet_variant \<times> 'r cell \<Rightarrow> 'r option" where
  "supplied_field n = (\<lambda>(p, x). case x of Stored (REC_data d) \<Rightarrow> if n \<in> vfields p then field_map d n else None | _ \<Rightarrow> None)"

definition supplied_tag :: "int \<Rightarrow> snet_variant \<times> 'r cell \<Rightarrow> int option" where
  "supplied_tag n = (\<lambda>(p, x). case x of Stored (REC_data d) \<Rightarrow> if n \<in> vtags p then tag_map d n else None | _ \<Rightarrow> None)"

lemma add_supplied:
  "add_fields c m x n = (case supplied_field n x of None \<Rightarrow> m n | Some v \<Rightarrow> Some (c v))"
  "add_tags k x n = (case supplied_tag n x of None \<Rightarrow> k n | Some v \<Rightarrow> Some v)"
  by (cases "(c, m, x)" rule: add_fields.cases; simp add: supplied_field_def restrict_labels_def map_add_def split: option.splits)
    (cases "(k, x)" rule: add_tags.cases; simp add: supplied_tag_def restrict_labels_def map_add_def split: option.splits)

lemma foldl_fields:
  "foldl (add_fields c) m xs n = (let vs = List.map_filter (supplied_field n) xs in if vs = [] then m n else Some (c (last vs)))"
  by (induction xs rule: rev_induct) (auto simp: add_supplied List.map_filter_def Let_def split: option.splits)

lemma foldl_tags:
  "foldl add_tags m xs n = (let vs = List.map_filter (supplied_tag n) xs in if vs = [] then m n else Some (last vs))"
  by (induction xs rule: rev_induct) (auto simp: add_supplied List.map_filter_def Let_def split: option.splits)

section \<open>Properties\<close>

text \<open>
  C7. A data record at a synchrocell is passed on unchanged when no open pattern accepts it.
  Otherwise it is stored for the first open pattern that accepts it, and the other open patterns that
  accept it are marked; when no pattern is left open, the cell writes the merged record
  and a sync record for its input stream and ends, else it writes nothing.
\<close>

theorem sync_data_round:
  assumes "sync_arg_ok sarg" and "sync_inv sarg s" and "data_ok d" and "guards_defined (sync_pats sarg) d"
  shows "\<exists>s' as. sync_round c node from_star sarg s (REC_data d) = Ok (s', as) \<and>
    (if \<not> any_hit sarg s d
     then s' = s \<and> as = [SWrite Outstream (REC_data d)]
     else if Dummy \<in> set (filled sarg s d)
     then as = [] \<and> storage s' = filled sarg s d \<and> sync_inv sarg s' \<and> sync_input s' = sync_input s
     else sync_done s' \<and> \<not> partial_sync s' \<and>
       (\<exists>m v. written Outstream as = [REC_data m, REC_sync (sync_input s) v] \<and> (v = None \<longleftrightarrow> \<not> from_star (sync_input s)) \<and> data_ok m \<and>
          field_map m = merged_fields c (list_of (patterns sarg)) (filled sarg s d) \<and>
          tag_map m = merged_tags (list_of (patterns sarg)) (filled sarg s d)))"
  by (rule sync_round_data[OF assms])

definition sync_example :: sync_arg where
  "sync_example = \<lparr>patterns = pat_list [field_pat [1], field_pat [2], field_pat [3]], guard_exprs = pat_list [E_NULL, E_NULL, E_NULL]\<rparr>"

lemma sync_example_simps [simp]:
  "sync_arg_ok sync_example" "sync_pats sync_example = [(field_pat [1], E_NULL), (field_pat [2], E_NULL), (field_pat [3], E_NULL)]"
  "ListLength (patterns sync_example) = 3"
  "guards_defined [(field_pat [1], E_NULL), (field_pat [2], E_NULL), (field_pat [3], E_NULL)] d"
  by (simp_all add: sync_arg_ok_def sync_example_def sync_pats_def ListLength_def guards_defined_def)

theorem sync_data_round_witness:
  "\<exists>s'. sync_round (\<lambda>r. r) 0 (\<lambda>_. False) sync_example (sync_start sync_example 7 0) (REC_data (field_rec [(1, 10)])) = Ok (s', []) \<and>
     storage s' = [Stored (REC_data (field_rec [(1, 10)])), Dummy, Dummy]"
proof -
  let ?s = "sync_start sync_example 7 0 :: nat sync_state" and ?d = "field_rec [(1, 10)]"
  have acc: "accepts (field_pat [1], E_NULL) ?d" "\<not> accepts (field_pat [2], E_NULL) ?d" "\<not> accepts (field_pat [3], E_NULL) ?d"
    by (simp_all add: accepts_def carries_def)
  have st: "storage ?s = [Dummy, Dummy, Dummy]" by (simp add: sync_start_def eval_nat_numeral)
  have "filled sync_example ?s ?d = [Stored (REC_data ?d), Dummy, Dummy]" using acc st by (simp add: filled_def)
  moreover have "any_hit sync_example ?s ?d"
    using acc st by (auto simp: any_hit_def intro: exI[of _ 0])
  ultimately show ?thesis
    using sync_data_round[of sync_example ?s ?d "\<lambda>r. r" 0 "\<lambda>_. False"] sync_inv_start[of sync_example 7 0, where 'a = nat]
    by (auto simp del: sync_round.simps)
qed

text \<open>
  C8. The merge of a firing cell: the result has the fields, tags and binding tags of the record stored for the
  first pattern; a field or tag that a later pattern names and the record stored for that pattern carries replaces it, and the last such
  record counts. Cells of patterns that were satisfied by a record stored for another pattern (NULL) give nothing. When every pattern has a
  record of its own that carries its labels, no field and no tag of a pattern is missing. Binding tags are taken from the first record only.
\<close>

theorem sync_merge_values:
  assumes "list_inv pats" and "\<forall>p\<in>set (list_of pats). variant_ok p" and "length st = length (list_of pats)" and "cells_ok st"
    and "st = Stored (REC_data d0) # cs"
  shows "\<exists>m as. MergeFromStorage c node seq st pats = Ok (REC_data m, as, seq + 1) \<and> data_ok m \<and> btag_map m = btag_map d0 \<and>
     (\<forall>n. field_map m n = (let vs = List.map_filter (supplied_field n) (zip (tl (list_of pats)) cs) in
        if vs = [] then map_option c (field_map d0 n) else Some (c (last vs)))) \<and>
     (\<forall>n. tag_map m n = (let vs = List.map_filter (supplied_tag n) (zip (tl (list_of pats)) cs) in
        if vs = [] then tag_map d0 n else Some (last vs))) \<and>
     ((\<forall>i<length st. \<exists>d. st ! i = Stored (REC_data d) \<and> carries (list_of pats ! i) d) \<longrightarrow>
        (\<forall>p\<in>set (list_of pats). vfields p \<subseteq> dom (field_map m) \<and> vtags p \<subseteq> dom (tag_map m)))"
proof -
  obtain p0 ps where ps: "list_of pats = p0 # ps" using assms(3,5) by (cases "list_of pats") auto
  with assms obtain m as where m: "MergeFromStorage c node seq st pats = Ok (REC_data m, as, seq + 1)" "data_ok m"
    "field_map m = foldl (add_fields c) (map_option c \<circ> field_map d0) (zip ps cs)" "tag_map m = foldl add_tags (tag_map d0) (zip ps cs)"
    "btag_map m = btag_map d0"
    using MergeFromStorage_spec[of pats p0 ps st d0 cs c node seq] by auto
  then have eq: "field_map m = merged_fields c (list_of pats) st" "tag_map m = merged_tags (list_of pats) st"
    using ps assms(5) by (simp_all add: merged_fields_def merged_tags_def)
  have "\<forall>p\<in>set (list_of pats). vfields p \<subseteq> dom (field_map m) \<and> vtags p \<subseteq> dom (tag_map m)"
    if own: "\<forall>i<length st. \<exists>d. st ! i = Stored (REC_data d) \<and> carries (list_of pats ! i) d"
    unfolding eq by (rule merged_complete[OF assms(3)[symmetric] own])
  moreover have "field_map m n = (let vs = List.map_filter (supplied_field n) (zip (tl (list_of pats)) cs) in
      if vs = [] then map_option c (field_map d0 n) else Some (c (last vs)))" for n
    by (simp add: m(3) foldl_fields ps Let_def)
  moreover have "tag_map m n = (let vs = List.map_filter (supplied_tag n) (zip (tl (list_of pats)) cs) in
      if vs = [] then tag_map d0 n else Some (last vs))" for n
    by (simp add: m(4) foldl_tags ps Let_def)
  ultimately show ?thesis using m(1,2,5) by blast
qed

theorem sync_merge_values_witness:
  "\<exists>m as. MergeFromStorage (\<lambda>r. r) 0 5 [Stored (REC_data (field_rec [(1, 10 :: nat)])), Null, Stored (REC_data (field_rec [(1, 11), (3, 30)]))]
      (pat_list [field_pat [1], field_pat [2], field_pat [3]]) = Ok (REC_data m, as, 6) \<and> field_map m 3 = Some 30 \<and> field_map m 1 = Some 10"
proof -
  have ok: "cells_ok [Stored (REC_data (field_rec [(1, 10 :: nat)])), Null, Stored (REC_data (field_rec [(1, 11), (3, 30)]))]" by (simp add: cells_ok_def)
  obtain m :: "nat data_rec" and as where m: "MergeFromStorage (\<lambda>r. r) 0 5 [Stored (REC_data (field_rec [(1, 10)])), Null, Stored (REC_data (field_rec [(1, 11), (3, 30)]))]
      (pat_list [field_pat [1], field_pat [2], field_pat [3]]) = Ok (REC_data m, as, 5 + 1)"
    "\<forall>n. field_map m n = (let vs = List.map_filter (supplied_field n) (zip (tl (list_of (pat_list [field_pat [1], field_pat [2], field_pat [3]])))
        [Null, Stored (REC_data (field_rec [(1, 11), (3, 30)]))]) in
      if vs = [] then map_option (\<lambda>r. r) (field_map (field_rec [(1, 10)]) n) else Some (last vs))"
    using sync_merge_values[OF _ _ _ ok refl, of "pat_list [field_pat [1], field_pat [2], field_pat [3]]" "\<lambda>r. r" 0 5] by auto
  have "field_map m 3 = Some 30" "field_map m 1 = Some 10"
    using m(2)[rule_format, of 3] m(2)[rule_format, of 1] by (simp_all add: List.map_filter_def supplied_field_def)
  then show ?thesis using m(1) by auto
qed

text \<open>
  A record that completes two patterns at once, neither of them the first, is merged for the
  earlier of them only: with the patterns \<open>{1}\<close>, \<open>{2}\<close>, \<open>{3}\<close> and the records \<open>{1}\<close> and \<open>{2, 3}\<close> the
  cell fires with a record that lacks the field 3.
\<close>

lemma sync_shared_match_loses_label:
  "\<exists>s as m v. SyncBoxTask (\<lambda>r. r) 0 (\<lambda>_. False) sync_example 7 0 [REC_data (field_rec [(1, 10)]), REC_data (field_rec [(2, 20), (3, 30)])] = Ok (s, as) \<and>
     written Outstream as = [REC_data m, REC_sync 7 v] \<and> field_map m = [1 \<mapsto> 10, 2 \<mapsto> 20]"
proof -
  let ?s = "sync_start sync_example 7 0 :: nat sync_state" and ?d = "field_rec [(1, 10)]" and ?e = "field_rec [(2, 20), (3, 30)]"
  have acc: "accepts (field_pat [1], E_NULL) ?d" "\<not> accepts (field_pat [2], E_NULL) ?d" "\<not> accepts (field_pat [3], E_NULL) ?d"
    "\<not> accepts (field_pat [1], E_NULL) ?e" "accepts (field_pat [2], E_NULL) ?e" "accepts (field_pat [3], E_NULL) ?e"
    by (simp_all add: accepts_def carries_def)
  have st: "storage ?s = [Dummy, Dummy, Dummy]" "sync_input ?s = 7" "\<not> sync_done ?s" by (simp_all add: sync_start_def eval_nat_numeral)
  have "filled sync_example ?s ?d = [Stored (REC_data ?d), Dummy, Dummy]" using acc st by (simp add: filled_def)
  moreover have "any_hit sync_example ?s ?d"
    using acc st by (auto simp: any_hit_def intro: exI[of _ 0])
  ultimately obtain s1 where s1: "sync_round (\<lambda>r. r) 0 (\<lambda>_. False) sync_example ?s (REC_data ?d) = Ok (s1, [])"
    "storage s1 = [Stored (REC_data ?d), Dummy, Dummy]" "sync_inv sync_example s1" "sync_input s1 = 7"
    using sync_round_data[of sync_example ?s ?d "\<lambda>r. r" 0 "\<lambda>_. False"] sync_inv_start[of sync_example 7 0, where 'a = nat] st(2)
    by (auto simp del: sync_round.simps)
  have f: "filled sync_example s1 ?e = [Stored (REC_data ?d), Stored (REC_data ?e), Null]" using acc s1(2) by (simp add: filled_def)
  moreover have "any_hit sync_example s1 ?e"
    using acc s1(2) by (auto simp: any_hit_def intro: exI[of _ 1])
  ultimately obtain s2 as m v where s2: "sync_round (\<lambda>r. r) 0 (\<lambda>_. False) sync_example s1 (REC_data ?e) = Ok (s2, as)"
    "written Outstream as = [REC_data m, REC_sync 7 v]"
    "field_map m = merged_fields (\<lambda>r. r) (list_of (patterns sync_example)) [Stored (REC_data ?d), Stored (REC_data ?e), Null]"
    using sync_round_data[of sync_example s1 ?e "\<lambda>r. r" 0 "\<lambda>_. False"] s1(3,4) by (auto simp del: sync_round.simps)
  have "\<not> sync_done s1" using s1(3) by (simp add: sync_inv_def)
  then have "SyncBoxTask (\<lambda>r. r) 0 (\<lambda>_. False) sync_example 7 0 [REC_data ?d, REC_data ?e] = Ok (s2, as)"
    using s1(1) s2(1) st(3) by (simp add: SyncBoxTask_def del: sync_round.simps bindR_eq_Ok)
  moreover have "field_map m = [1 \<mapsto> 10, 2 \<mapsto> 20]"
    unfolding s2(3) by (auto simp: merged_fields_def sync_example_def restrict_labels_def fun_eq_iff map_add_def)
  ultimately show ?thesis using s2(2) by blast
qed

end
