(* ===== verification/Collector.thy ===== *)
theory Collector
  imports Entity Streamset
begin

text \<open>
  The collector (\<open>runtime/stream/entity/collector.c\<close>): it merges the streams of the replicas or
  branches of a combinator. A stream set is the sequence that an iteration over it visits, its handle
  being the last element; \<open>Streamset\<close> shows that the linked list implements these sequences
  (\<open>set_put\<close>, \<open>set_remove\<close>, filtering during an iteration).
\<close>

section \<open>State\<close>

record 'r coll_state =
  readyset :: "nat list"
  waitingset :: "nat list"
  curstream :: "nat option"
  last_branch :: "nat option"
  sort_rec :: "'r snet_record option"
  term_rec :: "'r snet_record option"
  incount :: int
  coll_done :: bool
  next_sd :: nat
  sd_stream_of :: "nat \<Rightarrow> stream_id"
  queue_of :: "stream_id \<Rightarrow> 'r snet_record list"

definition set_put :: "nat list \<Rightarrow> nat \<Rightarrow> nat list" where
  "set_put xs x = xs @ [x]"

text \<open>The result of \<open>SNetStreamsetRemove\<close>, 0 or -1, with the new set.\<close>

definition set_remove :: "nat list \<Rightarrow> nat \<Rightarrow> int \<times> nat list" where
  "set_remove xs x = (if x \<in> set xs then 0 else -1, remove1 x xs)"

text \<open>A poll moves the handle to the stream that it returns.\<close>

definition set_rotate :: "nat \<Rightarrow> nat list \<Rightarrow> nat list" where
  "set_rotate x xs = tl (dropWhile (\<lambda>y. y \<noteq> x) xs) @ takeWhile (\<lambda>y. y \<noteq> x) xs @ [x]"

definition sd_queue :: "'r coll_state \<Rightarrow> nat \<Rightarrow> 'r snet_record list" where
  "sd_queue s c = queue_of s (sd_stream_of s c)"

definition coll_peek :: "'r coll_state \<Rightarrow> nat \<Rightarrow> 'r snet_record option" where
  "coll_peek s c = (case sd_queue s c of [] \<Rightarrow> None | r # _ \<Rightarrow> Some r)"

definition coll_read :: "'r coll_state \<Rightarrow> nat \<Rightarrow> ('r snet_record \<times> 'r coll_state) res" where
  "coll_read s c =
     (case sd_queue s c of
        [] \<Rightarrow> Err NoProgress
      | r # rs \<Rightarrow> Ok (r, s\<lparr>queue_of := (queue_of s)(sd_stream_of s c := rs)\<rparr>))"

section \<open>The task\<close>

definition SortRecEqual :: "'r snet_record \<Rightarrow> 'r snet_record \<Rightarrow> bool res" where
  "SortRecEqual rec1 rec2 =
     bindR (SNetRecGetLevel rec1) (\<lambda>l1. bindR (SNetRecGetLevel rec2) (\<lambda>l2.
     if l1 \<noteq> l2 then Ok False else
     bindR (SNetRecGetNum rec1) (\<lambda>n1. bindR (SNetRecGetNum rec2) (\<lambda>n2. Ok (n1 = n2)))))"

text \<open>The loop over the waiting set: a stream with a termination record next is consumed and left out.\<close>

fun destroy_term_loop :: "'r coll_state \<Rightarrow> nat list \<Rightarrow> (nat list \<times> 'r coll_state \<times> 'r action list) res" where
  "destroy_term_loop s [] = Ok ([], s, [])"
| "destroy_term_loop s (c # cs) =
     (case coll_peek s c of
        Some (REC_terminate b) \<Rightarrow>
          bindR (coll_read s c) (\<lambda>(_, s'). bindR (destroy_term_loop s' cs) (\<lambda>(ks, s'', as).
          Ok (ks, s'', SClose (Sd c) True # as)))
      | _ \<Rightarrow> bindR (destroy_term_loop s cs) (\<lambda>(ks, s', as). Ok (c # ks, s', as)))"

definition DestroyTermInWaitingSet :: "'r coll_state \<Rightarrow> (int \<times> 'r coll_state \<times> 'r action list) res" where
  "DestroyTermInWaitingSet s =
     bindR (destroy_term_loop s (waitingset s)) (\<lambda>(ks, s', as).
     Ok (int (length (waitingset s)) - int (length ks), s'\<lparr>waitingset := ks\<rparr>, as))"

text \<open>\<open>poll\<close> is the stream that \<open>SNetStreamPoll\<close> returns, when it is called.\<close>

definition GetRecord :: "nat \<Rightarrow> 'r coll_state \<Rightarrow> ('r snet_record \<times> 'r coll_state) res" where
  "GetRecord poll s =
     bindR (assertR (incount s \<ge> 1 \<and> readyset s \<noteq> [])) (\<lambda>_.
     let s = (case curstream s of
                Some c \<Rightarrow> if coll_peek s c = None then s\<lparr>curstream := None\<rparr> else s
              | None \<Rightarrow> s) in
     case curstream s of
       Some c \<Rightarrow> coll_read s c
     | None \<Rightarrow>
         if incount s = 1 then coll_read (s\<lparr>curstream := Some (last (readyset s))\<rparr>) (last (readyset s))
         else coll_read (s\<lparr>curstream := Some poll, readyset := set_rotate poll (readyset s)\<rparr>) poll)"

text \<open>A mismatch with the stored sort record is only reported.\<close>

definition ProcessSortRecord :: "nat \<Rightarrow> 'r snet_record \<Rightarrow> 'r coll_state \<Rightarrow> ('r coll_state \<times> 'r action list) res" where
  "ProcessSortRecord cur r s =
     bindR (assertR (SNetRecGetDescriptor r = 1103)) (\<lambda>_.
     let (res, rs) = set_remove (readyset s) cur in
     bindR (assertR (res = 0)) (\<lambda>_.
     let s = s\<lparr>readyset := rs, waitingset := set_put (waitingset s) cur\<rparr> in
     case sort_rec s of
       Some sr \<Rightarrow> bindR (SortRecEqual r sr) (\<lambda>_. Ok (s, []))
     | None \<Rightarrow> Ok (s\<lparr>sort_rec := Some r\<rparr>, [])))"

definition ProcessTermRecord :: "nat \<Rightarrow> 'r snet_record \<Rightarrow> 'r coll_state \<Rightarrow> ('r coll_state \<times> 'r action list) res" where
  "ProcessTermRecord cur r s =
     bindR (assertR (SNetRecGetDescriptor r = 1104)) (\<lambda>_.
     let (res, rs) = set_remove (readyset s) cur in
     bindR (assertR (res = 0)) (\<lambda>_.
     Ok (s\<lparr>readyset := rs, incount := incount s - 1,
           term_rec := (case term_rec s of None \<Rightarrow> Some r | Some t \<Rightarrow> Some t)\<rparr>, [SClose (Sd cur) True])))"

definition RestoreFromWaitingset :: "'r coll_state \<Rightarrow> ('r coll_state \<times> 'r action list) res" where
  "RestoreFromWaitingset s =
     (case sort_rec s of
        None \<Rightarrow> Err AssertFail
      | Some sr \<Rightarrow>
          let s = s\<lparr>readyset := waitingset s, waitingset := [], sort_rec := None\<rparr> in
          bindR (SNetRecGetLevel sr) (\<lambda>level.
          if level > 0 then bindR (SNetRecSetLevel sr (level - 1)) (\<lambda>sr'. Ok (s, [SWrite Outstream sr']))
          else Ok (s, [])))"

text \<open>The switch of the main loop.\<close>

fun coll_process :: "bool \<Rightarrow> nat \<Rightarrow> 'r snet_record \<Rightarrow> 'r coll_state \<Rightarrow> ('r coll_state \<times> 'r action list) res" where
  "coll_process is_static cur (REC_data d) s = Ok (s, [SWrite Outstream (REC_data d)])"
| "coll_process is_static cur (REC_sort_end l n) s =
     bindR (if last_branch s = Some cur then c_int (l + 1) else Ok l) (\<lambda>l'.
     if last_branch s = None \<and> l' = 0 \<and> n = -1 then Ok (s\<lparr>last_branch := Some cur\<rparr>, [])
     else bindR (ProcessSortRecord cur (REC_sort_end l' n) s) (\<lambda>(s, as). Ok (s\<lparr>curstream := None\<rparr>, as)))"
| "coll_process is_static cur (REC_sync st v) s =
     Ok (s\<lparr>sd_stream_of := (sd_stream_of s)(cur := st)\<rparr>, [SReplace (Sd cur) st])"
| "coll_process is_static cur (REC_collect st) s =
     bindR (assertR (\<not> is_static)) (\<lambda>_.
     bindR (DestroyTermInWaitingSet s) (\<lambda>(n, s, as).
     let s = s\<lparr>incount := incount s - n\<rparr> in
     bindR (assertR (incount s > 0)) (\<lambda>_.
     Ok (s\<lparr>readyset := set_put (readyset s) (next_sd s), sd_stream_of := (sd_stream_of s)(next_sd s := st),
           next_sd := next_sd s + 1, incount := incount s + 1\<rparr>, as @ [SOpen (Sd (next_sd s)) st]))))"
| "coll_process is_static cur (REC_terminate b) s =
     bindR (ProcessTermRecord cur (REC_terminate b) s) (\<lambda>(s, as). Ok (s\<lparr>curstream := None\<rparr>, as))"
| "coll_process is_static cur _ s = Err AssertFail"

text \<open>The termination conditions behind the switch.\<close>

definition coll_conditions :: "bool \<Rightarrow> 'r coll_state \<Rightarrow> ('r coll_state \<times> 'r action list) res" where
  "coll_conditions is_static s =
     (if readyset s = [] then
        if waitingset s \<noteq> [] then
          if is_static \<and> incount s = 1 then
            (let inp = last (waitingset s) in
             bindR (if last_branch s = Some inp then RestoreFromWaitingset s else Ok (s, [])) (\<lambda>(s, as).
             Ok (s\<lparr>coll_done := True\<rparr>, as @ [SWrite Outstream (REC_sync (sd_stream_of s inp) None), SClose (Sd inp) False])))
          else RestoreFromWaitingset s
        else
          (case term_rec s of
             None \<Rightarrow> Err AssertFail
           | Some t \<Rightarrow> Ok (s\<lparr>term_rec := None, coll_done := True\<rparr>, [SWrite Outstream t]))
      else Ok (s, []))"

definition coll_round :: "bool \<Rightarrow> nat \<Rightarrow> 'r coll_state \<Rightarrow> ('r coll_state \<times> 'r action list) res" where
  "coll_round is_static poll s =
     bindR (GetRecord poll s) (\<lambda>(r, s).
     case curstream s of
       None \<Rightarrow> Err NullDeref
     | Some cur \<Rightarrow>
         bindR (coll_process is_static cur r s) (\<lambda>(s, as).
         bindR (coll_conditions is_static s) (\<lambda>(s, as'). Ok (s, as @ as'))))"

text \<open>The state before the main loop: the descriptors \<open>0..<n\<close> are opened on the given streams.\<close>

definition coll_start :: "stream_id list \<Rightarrow> (stream_id \<Rightarrow> 'r snet_record list) \<Rightarrow> 'r coll_state" where
  "coll_start inputs qs =
     \<lparr>readyset = [0..<length inputs], waitingset = [], curstream = None, last_branch = None, sort_rec = None, term_rec = None,
      incount = int (length inputs), coll_done = False, next_sd = length inputs,
      sd_stream_of = (\<lambda>c. if c < length inputs then inputs ! c else 0), queue_of = qs\<rparr>"

section \<open>No assertion fails\<close>

definition coll_sets :: "'r coll_state \<Rightarrow> bool" where
  "coll_sets s \<longleftrightarrow> distinct (readyset s @ waitingset s) \<and>
     incount s = int (length (readyset s)) + int (length (waitingset s)) \<and>
     (waitingset s \<noteq> [] \<longrightarrow> sort_rec s \<noteq> None) \<and> (\<forall>r. sort_rec s = Some r \<longrightarrow> (\<exists>l n. r = REC_sort_end l n)) \<and>
     (\<forall>c\<in>set (readyset s @ waitingset s). c < next_sd s) \<and> \<not> coll_done s"

definition coll_inv :: "'r coll_state \<Rightarrow> bool" where
  "coll_inv s \<longleftrightarrow> coll_sets s \<and> readyset s \<noteq> [] \<and> (\<forall>c. curstream s = Some c \<longrightarrow> c \<in> set (readyset s))"

fun valid_rec :: "bool \<Rightarrow> 'r snet_record \<Rightarrow> bool" where
  "valid_rec is_static (REC_data d) = True"
| "valid_rec is_static (REC_sync st v) = True"
| "valid_rec is_static (REC_collect st) = (\<not> is_static)"
| "valid_rec is_static (REC_sort_end l n) = int_range (l + 1)"
| "valid_rec is_static (REC_terminate b) = True"
| "valid_rec is_static _ = False"

lemma rotate_perm:
  assumes "x \<in> set xs"
  shows "mset (set_rotate x xs) = mset xs"
proof -
  obtain ys zs where xs: "xs = ys @ x # zs" "x \<notin> set ys" using split_list_first[OF assms] by blast
  then have "takeWhile (\<lambda>y. y \<noteq> x) xs = ys" "dropWhile (\<lambda>y. y \<noteq> x) xs = x # zs"
    by (simp_all add: takeWhile_append dropWhile_append)
  with xs show ?thesis by (simp add: set_rotate_def)
qed

lemma rotate_set: "x \<in> set xs \<Longrightarrow> set (set_rotate x xs) = set xs \<and> length (set_rotate x xs) = length xs \<and> (distinct (set_rotate x xs) \<longleftrightarrow> distinct xs)"
  using rotate_perm[of x xs] by (metis mset_eq_setD mset_eq_length mset_eq_imp_distinct_iff)

lemma GetRecord_Ok:
  assumes "coll_inv s" and "poll \<in> set (readyset s)" and "GetRecord poll s = Ok (r, s')"
  shows "\<exists>cur rs. curstream s' = Some cur \<and> cur \<in> set (readyset s') \<and> sd_queue s cur = r # rs \<and> sd_queue s' cur = rs \<and>
     coll_inv s' \<and> mset (readyset s') = mset (readyset s) \<and>
     s' = s\<lparr>curstream := Some cur, readyset := readyset s', queue_of := (queue_of s)(sd_stream_of s cur := rs)\<rparr>"
proof -
  have rd: "\<exists>rs. sd_queue t c = r # rs \<and> s' = t\<lparr>queue_of := (queue_of t)(sd_stream_of t c := rs)\<rparr>" if "coll_read t c = Ok (r, s')" for t c
    using that by (auto simp: coll_read_def split: list.splits)
  consider (cur) c where "curstream s = Some c" "coll_peek s c \<noteq> None" "coll_read s c = Ok (r, s')"
    | (one) "incount s = 1" "coll_read (s\<lparr>curstream := Some (last (readyset s))\<rparr>) (last (readyset s)) = Ok (r, s')"
    | (poll) "coll_read (s\<lparr>curstream := Some poll, readyset := set_rotate poll (readyset s)\<rparr>) poll = Ok (r, s')"
    using assms(3) by (fastforce simp: GetRecord_def Let_def split: option.splits if_splits)
  then show ?thesis
  proof cases
    case (cur c)
    have "c \<in> set (readyset s)" using assms(1) cur(1) by (simp add: coll_inv_def)
    with rd[OF cur(3)] cur(1) assms(1) show ?thesis by (auto simp: sd_queue_def coll_inv_def coll_sets_def)
  next
    case one
    have "last (readyset s) \<in> set (readyset s)" using assms(1) by (simp add: coll_inv_def)
    with rd[OF one(2)] assms(1) show ?thesis by (auto simp: sd_queue_def coll_inv_def coll_sets_def)
  next
    case poll
    note r = rotate_set[OF assms(2)] rotate_perm[OF assms(2)]
    have "set_rotate poll (readyset s) \<noteq> []" by (simp add: set_rotate_def)
    with rd[OF poll] assms(1,2) r show ?thesis by (auto simp: sd_queue_def coll_inv_def coll_sets_def)
  qed
qed

lemma GetRecord_Err:
  assumes "coll_inv s"
  shows "GetRecord poll s = Err e \<Longrightarrow> e = NoProgress"
proof -
  have "incount s \<ge> 1" "readyset s \<noteq> []" using assms by (cases "readyset s"; simp add: coll_inv_def coll_sets_def)+
  then show "GetRecord poll s = Err e \<Longrightarrow> e = NoProgress"
    by (auto simp: GetRecord_def Let_def coll_read_def split: option.splits if_splits list.splits)
qed

lemma destroy_term_loop_Ok:
  "\<exists>ks s' as. destroy_term_loop s cs = Ok (ks, s', as) \<and> set ks \<subseteq> set cs \<and> length ks \<le> length cs \<and> (distinct cs \<longrightarrow> distinct ks) \<and>
     s' = s\<lparr>queue_of := queue_of s'\<rparr> \<and> written Outstream as = [] \<and> (\<forall>st. \<exists>n. queue_of s' st = drop n (queue_of s st))"
proof (induction cs arbitrary: s)
  case Nil
  then show ?case by (auto intro: exI[of _ 0])
next
  case (Cons c cs)
  show ?case
  proof (cases "\<exists>b. coll_peek s c = Some (REC_terminate b)")
    case True
    then obtain b where b: "coll_peek s c = Some (REC_terminate b)" by blast
    then obtain rs where q: "sd_queue s c = REC_terminate b # rs" by (auto simp: coll_peek_def split: list.splits)
    let ?s = "s\<lparr>queue_of := (queue_of s)(sd_stream_of s c := rs)\<rparr>"
    have rd: "coll_read s c = Ok (REC_terminate b, ?s)" using q by (simp add: coll_read_def)
    obtain ks s' as where ih: "destroy_term_loop ?s cs = Ok (ks, s', as)" "set ks \<subseteq> set cs" "length ks \<le> length cs" "distinct cs \<longrightarrow> distinct ks"
      "s' = ?s\<lparr>queue_of := queue_of s'\<rparr>" "written Outstream as = []" "\<forall>st. \<exists>n. queue_of s' st = drop n (queue_of ?s st)"
      using Cons.IH[of ?s] by blast
    have "\<exists>n. queue_of s' st = drop n (queue_of s st)" for st
    proof (cases "st = sd_stream_of s c")
      case True
      then have "queue_of ?s st = drop 1 (queue_of s st)" using q by (simp add: sd_queue_def)
      then show ?thesis using ih(7) by (metis drop_drop)
    next
      case False
      then have "queue_of ?s st = queue_of s st" by simp
      then show ?thesis using ih(7) by metis
    qed
    moreover have "s' = s\<lparr>queue_of := queue_of s'\<rparr>" using ih(5) by simp
    ultimately show ?thesis using b rd ih(1-4,6) by auto
  next
    case False
    then have "destroy_term_loop s (c # cs) = bindR (destroy_term_loop s cs) (\<lambda>(ks, s', as). Ok (c # ks, s', as))"
      by (auto split: option.splits snet_record.splits)
    moreover obtain ks s' as where "destroy_term_loop s cs = Ok (ks, s', as)" "set ks \<subseteq> set cs" "length ks \<le> length cs" "distinct cs \<longrightarrow> distinct ks"
      "s' = s\<lparr>queue_of := queue_of s'\<rparr>" "written Outstream as = []" "\<forall>st. \<exists>n. queue_of s' st = drop n (queue_of s st)"
      using Cons.IH[of s] by blast
    ultimately show ?thesis by auto
  qed
qed

text \<open>What holds between the switch and the termination conditions.\<close>

definition coll_mid :: "'r coll_state \<Rightarrow> bool" where
  "coll_mid s \<longleftrightarrow> coll_sets s \<and> (\<forall>c. curstream s = Some c \<longrightarrow> c \<in> set (readyset s)) \<and>
     (readyset s = [] \<longrightarrow> waitingset s \<noteq> [] \<or> term_rec s \<noteq> None)"

lemma SortRecEqual_sort_end [simp]: "SortRecEqual (REC_sort_end l n) (REC_sort_end l' n') = Ok (l = l' \<and> n = n')"
  by (simp add: SortRecEqual_def)

lemma coll_process_sort:
  assumes "coll_inv s" and "cur \<in> set (readyset s)"
  shows "\<exists>s'. ProcessSortRecord cur (REC_sort_end l n) s = Ok (s', []) \<and> coll_mid (s'\<lparr>curstream := None\<rparr>) \<and> queue_of s' = queue_of s \<and>
     readyset s' = remove1 cur (readyset s) \<and> waitingset s' = waitingset s @ [cur] \<and> term_rec s' = term_rec s \<and> incount s' = incount s \<and>
     last_branch s' = last_branch s \<and> sort_rec s' = (case sort_rec s of None \<Rightarrow> Some (REC_sort_end l n) | Some r \<Rightarrow> Some r) \<and>
     sd_stream_of s' = sd_stream_of s \<and> coll_done s' = coll_done s"
proof -
  have "cur \<notin> set (waitingset s)" "distinct (readyset s)" using assms by (auto simp: coll_inv_def coll_sets_def)
  then show ?thesis
    using assms
    by (cases "sort_rec s")
      (auto simp: ProcessSortRecord_def set_remove_def set_put_def coll_mid_def coll_inv_def coll_sets_def
        length_remove1 of_nat_diff Suc_leI length_pos_if_in_set split: if_splits)
qed

lemma coll_process_term:
  assumes "coll_inv s" and "cur \<in> set (readyset s)"
  shows "\<exists>s'. ProcessTermRecord cur (REC_terminate b) s = Ok (s', [SClose (Sd cur) True]) \<and> coll_mid (s'\<lparr>curstream := None\<rparr>) \<and> queue_of s' = queue_of s \<and>
     readyset s' = remove1 cur (readyset s) \<and> waitingset s' = waitingset s \<and> incount s' = incount s - 1 \<and>
     term_rec s' = (case term_rec s of None \<Rightarrow> Some (REC_terminate b) | Some t \<Rightarrow> Some t) \<and>
     last_branch s' = last_branch s \<and> sort_rec s' = sort_rec s \<and> sd_stream_of s' = sd_stream_of s \<and> coll_done s' = coll_done s"
proof -
  have "distinct (readyset s)" using assms by (auto simp: coll_inv_def coll_sets_def)
  then show ?thesis
    using assms
    by (auto simp: ProcessTermRecord_def set_remove_def coll_mid_def coll_inv_def coll_sets_def
        length_remove1 of_nat_diff Suc_leI length_pos_if_in_set split: option.splits)
qed

lemma coll_process_Ok:
  assumes "coll_inv s" and "cur \<in> set (readyset s)" and "valid_rec is_static r \<or> last_branch s = None \<and> (\<exists>l n. r = REC_sort_end l n)"
  shows "\<exists>s' as. coll_process is_static cur r s = Ok (s', as) \<and> coll_mid s' \<and> (\<forall>st. \<exists>n. queue_of s' st = drop n (queue_of s st))"
proof (cases r)
  case (REC_data d)
  with assms show ?thesis by (auto simp: coll_mid_def coll_inv_def intro: exI[of _ 0])
next
  case (REC_sync st v)
  with assms show ?thesis by (auto simp: coll_mid_def coll_inv_def coll_sets_def intro: exI[of _ 0])
next
  case (REC_collect st)
  obtain ks s' as where d: "destroy_term_loop s (waitingset s) = Ok (ks, s', as)" "set ks \<subseteq> set (waitingset s)" "length ks \<le> length (waitingset s)"
    "distinct (waitingset s) \<longrightarrow> distinct ks" "s' = s\<lparr>queue_of := queue_of s'\<rparr>" "\<forall>st. \<exists>n. queue_of s' st = drop n (queue_of s st)"
    using destroy_term_loop_Ok[of s "waitingset s"] by blast
  have e: "readyset s' = readyset s" "waitingset s' = waitingset s" "incount s' = incount s" "next_sd s' = next_sd s" "curstream s' = curstream s"
    "sort_rec s' = sort_rec s" "coll_done s' = coll_done s" by (subst d(5), simp)+
  let ?t = "s'\<lparr>waitingset := ks, incount := incount s - (int (length (waitingset s)) - int (length ks)) + 1,
      readyset := readyset s @ [next_sd s], sd_stream_of := (sd_stream_of s')(next_sd s := st), next_sd := next_sd s + 1\<rparr>"
  have pos: "0 < length (readyset s)" using assms(1) by (simp add: coll_inv_def)
  have "incount s = int (length (readyset s)) + int (length (waitingset s))" using assms(1) by (simp add: coll_inv_def coll_sets_def)
  with pos have "incount s - (int (length (waitingset s)) - int (length ks)) > 0" by linarith
  then have "coll_process is_static cur r s = Ok (?t, as @ [SOpen (Sd (next_sd s)) st])"
    using REC_collect assms(3) d(1) e by (simp add: DestroyTermInWaitingSet_def set_put_def Let_def del: bindR_eq_Ok)
  moreover have "next_sd s \<notin> set (readyset s @ ks)" using assms(1) d(2) by (auto simp: coll_inv_def coll_sets_def)
  then have "coll_sets ?t" using assms(1) d(2-4) e(6,7)
    by (auto simp: coll_inv_def coll_sets_def intro: less_SucI)
  then have "coll_mid ?t" using assms(1) e(5) by (auto simp: coll_mid_def coll_inv_def)
  ultimately show ?thesis using d(6) by auto
next
  case (REC_sort_end l n)
  define lv where "lv = (if last_branch s = Some cur then l + 1 else l)"
  have l: "(if last_branch s = Some cur then c_int (l + 1) else Ok l) = Ok lv" using assms(3) REC_sort_end by (auto simp: lv_def)
  show ?thesis
  proof (cases "last_branch s = None \<and> lv = 0 \<and> n = -1")
    case True
    with REC_sort_end assms l show ?thesis by (auto simp: coll_mid_def coll_inv_def coll_sets_def intro: exI[of _ 0])
  next
    case False
    obtain s' where s': "ProcessSortRecord cur (REC_sort_end lv n) s = Ok (s', [])" "coll_mid (s'\<lparr>curstream := None\<rparr>)" "queue_of s' = queue_of s"
      using coll_process_sort[OF assms(1,2), of lv n] by blast
    have "coll_process is_static cur r s = Ok (s'\<lparr>curstream := None\<rparr>, [])"
      unfolding REC_sort_end coll_process.simps l bindR.simps using False s'(1) by (auto simp del: bindR_eq_Ok)
    with s'(2,3) show ?thesis by (auto intro: exI[of _ 0])
  qed
next
  case (REC_terminate b)
  obtain s' where s': "ProcessTermRecord cur (REC_terminate b) s = Ok (s', [SClose (Sd cur) True])" "coll_mid (s'\<lparr>curstream := None\<rparr>)" "queue_of s' = queue_of s"
    using coll_process_term[OF assms(1,2), of b] by blast
  then have "coll_process is_static cur r s = Ok (s'\<lparr>curstream := None\<rparr>, [SClose (Sd cur) True])" by (simp add: REC_terminate)
  with s'(2,3) show ?thesis by (auto intro: exI[of _ 0])
qed (use assms in auto)

lemma RestoreFromWaitingset_Ok:
  assumes "coll_sets s" and "waitingset s \<noteq> []" and "readyset s = []"
  shows "\<exists>l n. sort_rec s = Some (REC_sort_end l n) \<and> RestoreFromWaitingset s =
     Ok (s\<lparr>readyset := waitingset s, waitingset := [], sort_rec := None\<rparr>, if l > 0 then [SWrite Outstream (REC_sort_end (l - 1) n)] else [])"
proof -
  obtain l n where "sort_rec s = Some (REC_sort_end l n)" using assms by (auto simp: coll_sets_def)
  then show ?thesis by (intro exI[of _ l] exI[of _ n]) (simp add: RestoreFromWaitingset_def Let_def del: bindR_eq_Ok)
qed

lemma coll_conditions_Ok:
  assumes "coll_mid s"
  shows "\<exists>s' as. coll_conditions is_static s = Ok (s', as) \<and> (coll_done s' \<or> coll_inv s') \<and> queue_of s' = queue_of s"
proof (cases "readyset s = []")
  case False
  with assms show ?thesis by (simp add: coll_conditions_def coll_mid_def coll_inv_def)
next
  case empty: True
  have sets: "coll_sets s" using assms by (simp add: coll_mid_def)
  show ?thesis
  proof (cases "waitingset s = []")
    case True
    with empty assms show ?thesis by (auto simp: coll_conditions_def coll_mid_def)
  next
    case False
    obtain l n where r: "sort_rec s = Some (REC_sort_end l n)" "RestoreFromWaitingset s =
       Ok (s\<lparr>readyset := waitingset s, waitingset := [], sort_rec := None\<rparr>, if l > 0 then [SWrite Outstream (REC_sort_end (l - 1) n)] else [])"
      using RestoreFromWaitingset_Ok[OF sets False empty] by blast
    have cur: "curstream s = None" using assms empty by (cases "curstream s") (auto simp: coll_mid_def)
    have "coll_inv (s\<lparr>readyset := waitingset s, waitingset := [], sort_rec := None\<rparr>)"
      using sets False empty cur by (auto simp: coll_inv_def coll_sets_def)
    with r(2) empty False show ?thesis by (auto simp: coll_conditions_def Let_def)
  qed
qed

lemma coll_round_Ok:
  assumes "coll_inv s" and "poll \<in> set (readyset s)" and "\<And>st r. r \<in> set (queue_of s st) \<Longrightarrow> valid_rec is_static r"
    and "GetRecord poll s = Ok (r, s1)"
  shows "\<exists>s' as. coll_round is_static poll s = Ok (s', as) \<and> (coll_done s' \<or> coll_inv s') \<and>
     (\<forall>st. set (queue_of s' st) \<subseteq> set (queue_of s st))"
proof -
  obtain cur rs where g: "curstream s1 = Some cur" "cur \<in> set (readyset s1)" "sd_queue s cur = r # rs" "coll_inv s1"
    "s1 = s\<lparr>curstream := Some cur, readyset := readyset s1, queue_of := (queue_of s)(sd_stream_of s cur := rs)\<rparr>"
    using GetRecord_Ok[OF assms(1,2,4)] by (elim exE conjE)
  have "valid_rec is_static r" by (rule assms(3)[of _ "sd_stream_of s cur"]) (use g(3) in \<open>simp add: sd_queue_def\<close>)
  then obtain s2 as where p: "coll_process is_static cur r s1 = Ok (s2, as)" "coll_mid s2" "\<forall>st. \<exists>n. queue_of s2 st = drop n (queue_of s1 st)"
    using coll_process_Ok[OF g(4,2), of is_static r] by blast
  obtain s' as' where c: "coll_conditions is_static s2 = Ok (s', as')" "coll_done s' \<or> coll_inv s'" "queue_of s' = queue_of s2"
    using coll_conditions_Ok[OF p(2)] by blast
  have "set (queue_of s1 st) \<subseteq> set (queue_of s st)" for st
    by (subst g(5)) (use g(3) in \<open>auto simp: sd_queue_def\<close>)
  then have "set (queue_of s' st) \<subseteq> set (queue_of s st)" for st using p(3) c(3) by (metis dual_order.trans set_drop_subset)
  moreover have "coll_round is_static poll s = Ok (s', as @ as')"
    by (simp add: coll_round_def assms(4) g(1) p(1) c(1) del: bindR_eq_Ok)
  ultimately show ?thesis using c(2) by blast
qed

text \<open>
  Whatever stream the poll returns and whatever valid records (data, sync, sort and termination
  records, and collect records for a dynamic collector) are queued, a round of the collector fails
  no assertion: it either waits for a record or completes, and then the task has ended or its sets,
  counter and stored sort record are consistent again.
\<close>

lemma collector_round_safe:
  assumes "coll_inv s" and "poll \<in> set (readyset s)" and "\<And>st r. r \<in> set (queue_of s st) \<Longrightarrow> valid_rec is_static r"
  shows "coll_round is_static poll s = Err NoProgress \<or>
     (\<exists>s' as. coll_round is_static poll s = Ok (s', as) \<and> (coll_done s' \<or> coll_inv s') \<and> (\<forall>st. set (queue_of s' st) \<subseteq> set (queue_of s st)))"
proof (cases "GetRecord poll s")
  case (Err e)
  then have "e = NoProgress" by (rule GetRecord_Err[OF assms(1)])
  with Err show ?thesis by (simp add: coll_round_def)
next
  case (Ok p)
  obtain r s1 where "p = (r, s1)" by (cases p)
  with Ok coll_round_Ok[OF assms(1,2), of is_static r s1] assms(3) show ?thesis by simp
qed

lemma coll_start_inv: "inputs \<noteq> [] \<Longrightarrow> coll_inv (coll_start inputs qs)"
  by (simp add: coll_inv_def coll_sets_def coll_start_def)

section \<open>Merging rounds\<close>

text \<open>
  The abstract specification of merging the streams \<open>f c\<close> for \<open>c\<close> in \<open>C\<close>: data records in any
  order that keeps the order of every stream, sort records only when they are next on all streams,
  one level lower (or not at all at level 0), and the termination when it is next on all streams.
\<close>

definition sort_out :: "int \<Rightarrow> int \<Rightarrow> 'r snet_record list" where
  "sort_out l n = (if l > 0 then [REC_sort_end (l - 1) n] else [])"

inductive merged :: "nat set \<Rightarrow> (nat \<Rightarrow> 'r snet_record list) \<Rightarrow> 'r snet_record list \<Rightarrow> bool" for C where
  merged_data: "c \<in> C \<Longrightarrow> f c = REC_data d # rs \<Longrightarrow> merged C (f(c := rs)) out \<Longrightarrow> merged C f (REC_data d # out)"
| merged_sort: "(\<And>c. c \<in> C \<Longrightarrow> f c = REC_sort_end l n # g c) \<Longrightarrow> merged C g out \<Longrightarrow> merged C f (sort_out l n @ out)"
| merged_term: "(\<And>c. c \<in> C \<Longrightarrow> \<exists>b. f c = [REC_terminate b]) \<Longrightarrow> c \<in> C \<Longrightarrow> f c = [REC_terminate b] \<Longrightarrow> merged C f [REC_terminate b]"

text \<open>A stream that carries the given sort records, with data before and between them, and then terminates.\<close>

fun rounds_of :: "(int \<times> int) list \<Rightarrow> 'r snet_record list \<Rightarrow> bool" where
  "rounds_of ks (REC_data d # rs) = rounds_of ks rs"
| "rounds_of (k # ks) (REC_sort_end l n # rs) = (k = (l, n) \<and> rounds_of ks rs)"
| "rounds_of [] [REC_terminate b] = True"
| "rounds_of ks rs = False"

lemma rounds_of_data [simp]: "rounds_of ks (REC_data d # rs) = rounds_of ks rs"
  by (cases ks) auto

lemma rounds_of_sort: "rounds_of ks (REC_sort_end l n # rs) \<longleftrightarrow> (\<exists>ks'. ks = (l, n) # ks' \<and> rounds_of ks' rs)"
  by (cases ks) auto

lemma rounds_of_term: "rounds_of ks (REC_terminate b # rs) \<longleftrightarrow> ks = [] \<and> rs = []"
  by (cases ks; cases rs) auto

text \<open>
  The collector in its environment: \<open>pend\<close> holds what the producers have still to write to each
  stream, \<open>out\<close> what the collector has written.
\<close>

type_synonym 'r coll_sys = "'r coll_state \<times> (stream_id \<Rightarrow> 'r snet_record list) \<times> 'r snet_record list"

inductive coll_step :: "bool \<Rightarrow> 'r coll_sys \<Rightarrow> 'r coll_sys \<Rightarrow> bool" for is_static where
  arrive: "pend st = r # rs \<Longrightarrow> coll_step is_static (s, pend, out) (s\<lparr>queue_of := (queue_of s)(st := queue_of s st @ [r])\<rparr>, pend(st := rs), out)"
| round: "\<not> coll_done s \<Longrightarrow> poll \<in> set (readyset s) \<Longrightarrow> coll_round is_static poll s = Ok (s', as) \<Longrightarrow>
     coll_step is_static (s, pend, out) (s', pend, out @ written Outstream as)"

inductive_cases coll_stepE: "coll_step is_static (s, pend, out) y"

definition rem_of :: "'r coll_state \<Rightarrow> (stream_id \<Rightarrow> 'r snet_record list) \<Rightarrow> nat \<Rightarrow> 'r snet_record list" where
  "rem_of s pend c = sd_queue s c @ pend (sd_stream_of s c)"

text \<open>
  The residual streams \<open>v\<close> that the merge has still to consume: what is left of a ready stream, the
  sort record and what is left of a waiting one, and the termination record of one that has ended.
\<close>

definition residual :: "nat \<Rightarrow> 'r coll_state \<Rightarrow> (stream_id \<Rightarrow> 'r snet_record list) \<Rightarrow> (nat \<Rightarrow> 'r snet_record list) \<Rightarrow> bool" where
  "residual n s pend v \<longleftrightarrow>
     (\<forall>c\<in>set (readyset s). c < n \<and> v c = rem_of s pend c) \<and>
     (\<forall>c\<in>set (waitingset s). c < n \<and> (\<exists>sr. sort_rec s = Some sr \<and> v c = sr # rem_of s pend c)) \<and>
     (sort_rec s \<noteq> None \<longrightarrow> waitingset s \<noteq> []) \<and>
     (\<forall>c<n. c \<notin> set (readyset s) \<longrightarrow> c \<notin> set (waitingset s) \<longrightarrow> (\<exists>b. v c = [REC_terminate b])) \<and>
     (\<forall>t. term_rec s = Some t \<longrightarrow> (\<exists>c<n. c \<notin> set (readyset s) \<and> c \<notin> set (waitingset s) \<and> v c = [t]))"

definition merging :: "nat \<Rightarrow> (nat \<Rightarrow> 'r snet_record list) \<Rightarrow> (int \<times> int) list \<Rightarrow> 'r coll_sys \<Rightarrow> (nat \<Rightarrow> 'r snet_record list) \<Rightarrow> bool" where
  "merging n ins ks sys v \<longleftrightarrow>
     (case sys of (s, pend, out) \<Rightarrow>
        coll_inv s \<and> last_branch s = None \<and> inj_on (sd_stream_of s) {..<n} \<and> residual n s pend v \<and>
        (\<forall>c<n. rounds_of ks (v c)) \<and> (0, -1) \<notin> set ks \<and> (\<forall>out'. merged {..<n} v out' \<longrightarrow> merged {..<n} ins (out @ out')))"

definition merge_inv :: "nat \<Rightarrow> (nat \<Rightarrow> 'r snet_record list) \<Rightarrow> 'r coll_sys \<Rightarrow> bool" where
  "merge_inv n ins sys \<longleftrightarrow>
     (if coll_done (fst sys) then merged {..<n} ins (snd (snd sys)) else \<exists>ks v. merging n ins ks sys v)"

lemma merging_rounds: "merging n ins ks (s, pend, out) v \<Longrightarrow> c < n \<Longrightarrow> rounds_of ks (v c)"
  by (simp add: merging_def)

lemma merging_merge_inv: "merging n ins ks x v \<Longrightarrow> merge_inv n ins x"
proof -
  assume m: "merging n ins ks x v"
  then have "\<not> coll_done (fst x)" by (cases x) (simp add: merging_def coll_inv_def coll_sets_def)
  with m show ?thesis by (auto simp: merge_inv_def)
qed

lemma merging_read:
  assumes "merging n ins ks (s, pend, out) v" and "poll \<in> set (readyset s)" and "GetRecord poll s = Ok (r, s1)"
  shows "\<exists>cur. curstream s1 = Some cur \<and> cur \<in> set (readyset s1) \<and> cur < n \<and> v cur = r # rem_of s1 pend cur \<and> coll_inv s1 \<and>
     last_branch s1 = None \<and> sd_stream_of s1 = sd_stream_of s \<and> residual n s1 pend (v(cur := rem_of s1 pend cur))"
proof -
  have inv: "coll_inv s" and res: "residual n s pend v" and inj: "inj_on (sd_stream_of s) {..<n}" and lb: "last_branch s = None"
    using assms(1) by (simp_all add: merging_def)
  obtain cur rs where g: "curstream s1 = Some cur" "cur \<in> set (readyset s1)" "sd_queue s cur = r # rs" "sd_queue s1 cur = rs" "coll_inv s1"
    "mset (readyset s1) = mset (readyset s)"
    "s1 = s\<lparr>curstream := Some cur, readyset := readyset s1, queue_of := (queue_of s)(sd_stream_of s cur := rs)\<rparr>"
    using GetRecord_Ok[OF inv assms(2,3)] by (elim exE conjE)
  have e: "waitingset s1 = waitingset s" "sort_rec s1 = sort_rec s" "term_rec s1 = term_rec s" "sd_stream_of s1 = sd_stream_of s" "last_branch s1 = None"
    "queue_of s1 = (queue_of s)(sd_stream_of s cur := rs)" using lb by (subst g(7), simp)+
  have rd: "set (readyset s1) = set (readyset s)" using g(6) by (rule mset_eq_setD)
  have cur: "cur < n" "v cur = rem_of s pend cur" using res g(2) rd by (auto simp: residual_def)
  have "rem_of s1 pend c = rem_of s pend c" if "c < n" "c \<noteq> cur" for c
    using that cur(1) inj e(4,6) by (auto simp: rem_of_def sd_queue_def inj_on_def)
  moreover have "cur \<notin> set (waitingset s)" "cur \<in> set (readyset s)" using g(2,5) e(1) rd by (auto simp: coll_inv_def coll_sets_def)
  ultimately have "residual n s1 pend (v(cur := rem_of s1 pend cur))"
    using res unfolding residual_def rd e(1-3) by auto metis+
  moreover have "v cur = r # rem_of s1 pend cur" using cur(2) g(3,4) e(4) by (simp add: rem_of_def)
  ultimately show ?thesis using g(1,2,5) cur(1) e(4,5) by blast
qed

lemma merging_data:
  assumes "merging n ins ks (s, pend, out) v" and "curstream s1 = Some cur" and "cur < n" and "v cur = REC_data d # rem_of s1 pend cur" and "coll_inv s1"
    and "last_branch s1 = None" and "sd_stream_of s1 = sd_stream_of s" and "residual n s1 pend (v(cur := rem_of s1 pend cur))"
  shows "merging n ins ks (s1, pend, out @ [REC_data d]) (v(cur := rem_of s1 pend cur))"
proof -
  have "merged {..<n} v (REC_data d # out')" if "merged {..<n} (v(cur := rem_of s1 pend cur)) out'" for out'
    using assms(3,4) that by (auto intro: merged_data)
  moreover have "rounds_of ks (rem_of s1 pend cur)" using assms(1,3,4) by (auto simp: merging_def)
  ultimately show ?thesis using assms by (auto simp: merging_def)
qed

lemma merging_sort:
  assumes m: "merging n ins ks (s, pend, out) v" and two: "\<not> is_static \<or> n \<noteq> 1" and cur: "curstream s1 = Some cur" "cur \<in> set (readyset s1)" "cur < n"
    and vc: "v cur = REC_sort_end l k # rem_of s1 pend cur" and inv: "coll_inv s1"
    and lb: "last_branch s1 = None" and ss: "sd_stream_of s1 = sd_stream_of s" and res: "residual n s1 pend (v(cur := rem_of s1 pend cur))"
    and p: "coll_process is_static cur (REC_sort_end l k) s1 = Ok (s2, as)" and c: "coll_conditions is_static s2 = Ok (s', as')"
  shows "\<exists>ks v. merging n ins ks (s', pend, out @ written Outstream (as @ as')) v"
proof -
  obtain ks' where ks: "ks = (l, k) # ks'" using merging_rounds[OF m cur(3)] vc by (auto simp: rounds_of_sort)
  have new: "\<not> (l = 0 \<and> k = -1)" using m ks by (auto simp: merging_def)
  have all: "c \<in> set (readyset s1) \<union> set (waitingset s1)" if "c < n" for c
  proof (rule ccontr)
    assume "c \<notin> set (readyset s1) \<union> set (waitingset s1)"
    with that res cur(2) obtain b where "v c = [REC_terminate b]" by (auto simp: residual_def split: if_splits)
    moreover have "rounds_of ks (v c)" using m that by (auto simp: merging_def)
    ultimately show False using ks by simp
  qed
  have nw: "cur \<notin> set (waitingset s1)" and dr: "distinct (readyset s1 @ waitingset s1)" using inv cur(2) by (auto simp: coll_inv_def coll_sets_def)
  have sr: "sort_rec s1 = Some (REC_sort_end l k)" if w: "waitingset s1 \<noteq> []"
  proof -
    obtain c where c: "c \<in> set (waitingset s1)" using w by (cases "waitingset s1") auto
    with res nw obtain x where x: "sort_rec s1 = Some x" "v c = x # rem_of s1 pend c" "c < n" by (auto simp: residual_def split: if_splits)
    obtain l' k' where "x = REC_sort_end l' k'" using x(1) inv by (auto simp: coll_inv_def coll_sets_def)
    moreover have "rounds_of ks (v c)" using m x(3) by (auto simp: merging_def)
    ultimately show ?thesis using x ks by simp
  qed
  obtain s3 where s3: "ProcessSortRecord cur (REC_sort_end l k) s1 = Ok (s3, [])" "coll_mid (s3\<lparr>curstream := None\<rparr>)" "queue_of s3 = queue_of s1"
    "readyset s3 = remove1 cur (readyset s1)" "waitingset s3 = waitingset s1 @ [cur]" "term_rec s3 = term_rec s1" "incount s3 = incount s1"
    "last_branch s3 = last_branch s1" "sort_rec s3 = (case sort_rec s1 of None \<Rightarrow> Some (REC_sort_end l k) | Some r \<Rightarrow> Some r)"
    "sd_stream_of s3 = sd_stream_of s1" "coll_done s3 = coll_done s1"
    using coll_process_sort[OF inv cur(2), of l k] by (elim exE conjE)
  have s2: "s2 = s3\<lparr>curstream := None\<rparr>" "as = []" using p lb new s3(1) by auto
  have sort: "sort_rec s2 = Some (REC_sort_end l k)"
    using sr res s3(9) s2 by (auto simp: residual_def split: option.splits)
  have rem: "rem_of s2 pend = rem_of s1 pend" by (rule ext) (simp add: rem_of_def sd_queue_def s2 s3(3,10))
  have sets: "set (readyset s2) = set (readyset s1) - {cur}" "set (waitingset s2) = insert cur (set (waitingset s1))"
    using dr by (auto simp: s2 s3(4,5) set_remove1_eq)
  have tr: "term_rec s2 = None"
  proof (rule ccontr)
    assume "term_rec s2 \<noteq> None"
    then obtain c where "c < n" "c \<notin> set (readyset s1)" "c \<notin> set (waitingset s1)" using res s3(6) s2 by (auto simp: residual_def)
    then show False using all by auto
  qed
  have rv: "c < n \<and> v c = rem_of s1 pend c" if "c \<in> set (readyset s1) - {cur}" for c
    using res that by (auto simp: residual_def split: if_splits)
  have wv: "c < n \<and> v c = REC_sort_end l k # rem_of s1 pend c" if "c \<in> set (waitingset s1)" for c
  proof -
    have "sort_rec s1 = Some (REC_sort_end l k)" using sr that by (cases "waitingset s1") auto
    then show ?thesis using res that nw by (auto simp: residual_def split: if_splits)
  qed
  have "waitingset s2 \<noteq> []" by (simp add: s2 s3(5))
  then have r2: "residual n s2 pend v"
    unfolding residual_def sets rem sort tr using rv wv vc cur(3) all by auto
  show ?thesis
  proof (cases "readyset s2 = []")
    case False
    then have "s' = s2" "as' = []" using c by (auto simp: coll_conditions_def)
    moreover have "merging n ins ks (s2, pend, out) v"
      using m r2 s3(2,8,10) lb ss False by (auto simp: merging_def coll_inv_def coll_mid_def s2)
    ultimately show ?thesis using s2 by auto
  next
    case True
    have w: "set (waitingset s2) = {..<n}" using all sets r2 True by (auto simp: residual_def)
    have "distinct (waitingset s2)" using s3(2) by (simp add: coll_mid_def coll_sets_def s2)
    then have "length (waitingset s2) = n" using w by (metis card_lessThan distinct_card)
    then have ic: "incount s2 = int n" using s3(2) True by (simp add: coll_mid_def coll_sets_def s2)
    let ?t = "s2\<lparr>readyset := waitingset s2, waitingset := [], sort_rec := None\<rparr>"
    have st: "coll_sets s2" "waitingset s2 \<noteq> []" using s3(2,5) by (auto simp: coll_mid_def coll_sets_def s2)
    have "s' = ?t" "written Outstream as' = sort_out l k"
      using c True st(2) two ic sort RestoreFromWaitingset_Ok[OF st True]
      by (auto simp: coll_conditions_def sort_out_def del: bindR_eq_Ok split: if_splits)
    moreover have "merging n ins ks' (?t, pend, out @ sort_out l k) (\<lambda>c. rem_of s2 pend c)"
    proof -
      have hd: "v c = REC_sort_end l k # rem_of s2 pend c" if "c < n" for c
        using r2 w that sort by (auto simp: residual_def)
      have "merged {..<n} v (sort_out l k @ out')" if "merged {..<n} (\<lambda>c. rem_of s2 pend c) out'" for out'
        using hd that by (auto intro: merged_sort)
      moreover have "rounds_of ks' (rem_of s2 pend c)" if "c < n" for c
        using m that hd[OF that] ks by (auto simp: merging_def)
      moreover have "rem_of ?t pend c = rem_of s2 pend c" for c by (simp add: rem_of_def sd_queue_def)
      moreover have "coll_inv ?t" using st True by (auto simp: coll_inv_def coll_sets_def s2)
      ultimately show ?thesis using m w tr lb ss s3(8,10) ks by (auto simp: merging_def residual_def s2)
    qed
    ultimately show ?thesis using s2 by auto
  qed
qed

lemma merging_term:
  assumes m: "merging n ins ks (s, pend, out) v" and cur: "curstream s1 = Some cur" "cur \<in> set (readyset s1)" "cur < n"
    and vc: "v cur = REC_terminate b # rem_of s1 pend cur" and inv: "coll_inv s1"
    and lb: "last_branch s1 = None" and ss: "sd_stream_of s1 = sd_stream_of s" and res: "residual n s1 pend (v(cur := rem_of s1 pend cur))"
    and p: "coll_process is_static cur (REC_terminate b) s1 = Ok (s2, as)" and c: "coll_conditions is_static s2 = Ok (s', as')"
  shows "merge_inv n ins (s', pend, out @ written Outstream (as @ as'))"
proof -
  have ks: "ks = []" "v cur = [REC_terminate b]" using merging_rounds[OF m cur(3)] vc by (simp_all add: rounds_of_term)
  have w: "waitingset s1 = []"
  proof (rule ccontr)
    assume "waitingset s1 \<noteq> []"
    then obtain c where c: "c \<in> set (waitingset s1)" by (cases "waitingset s1") auto
    moreover have "c \<noteq> cur" using c cur(2) inv by (auto simp: coll_inv_def coll_sets_def)
    ultimately obtain sr where "sort_rec s1 = Some sr" "v c = sr # rem_of s1 pend c" "c < n" using res by (auto simp: residual_def)
    moreover obtain l k where "sr = REC_sort_end l k" using calculation(1) inv by (auto simp: coll_inv_def coll_sets_def)
    ultimately show False using merging_rounds[OF m, of c] ks by simp
  qed
  then have so: "sort_rec s1 = None" using res by (auto simp: residual_def)
  obtain s3 where s3: "ProcessTermRecord cur (REC_terminate b) s1 = Ok (s3, [SClose (Sd cur) True])" "coll_mid (s3\<lparr>curstream := None\<rparr>)"
    "queue_of s3 = queue_of s1" "readyset s3 = remove1 cur (readyset s1)" "waitingset s3 = waitingset s1"
    "term_rec s3 = (case term_rec s1 of None \<Rightarrow> Some (REC_terminate b) | Some t \<Rightarrow> Some t)"
    "last_branch s3 = last_branch s1" "sort_rec s3 = sort_rec s1" "sd_stream_of s3 = sd_stream_of s1"
    using coll_process_term[OF inv cur(2), of b] by (elim exE conjE)
  have s2: "s2 = s3\<lparr>curstream := None\<rparr>" "written Outstream as = []" using p s3(1) by auto
  have rem: "rem_of s2 pend = rem_of s1 pend" by (rule ext) (simp add: rem_of_def sd_queue_def s2 s3(3,9))
  have sets: "set (readyset s2) = set (readyset s1) - {cur}" "waitingset s2 = []" "sort_rec s2 = None"
    using inv w so by (auto simp: s2 s3(4,5,8) coll_inv_def coll_sets_def set_remove1_eq)
  have rv: "c < n \<and> v c = rem_of s1 pend c" if "c \<in> set (readyset s1) - {cur}" for c
    using res that by (auto simp: residual_def split: if_splits)
  have tv: "\<exists>b. v c = [REC_terminate b]" if "c < n" "c \<notin> set (readyset s2)" for c
    using res that sets w ks(2) cur(2) by (cases "c = cur") (auto simp: residual_def)
  have "\<exists>t. term_rec s2 = Some t \<and> (\<exists>c<n. c \<notin> set (readyset s2) \<and> v c = [t])"
  proof (cases "term_rec s1")
    case None
    then show ?thesis using s3(6) ks(2) cur(3) sets by (intro exI[of _ "REC_terminate b"]) (auto simp: s2 intro!: exI[of _ cur])
  next
    case (Some t)
    then obtain c where "c < n" "c \<notin> set (readyset s1)" "(v(cur := rem_of s1 pend cur)) c = [t]" using res by (auto simp: residual_def)
    moreover have "c \<noteq> cur" using calculation(2) cur(2) by auto
    ultimately show ?thesis using Some s3(6) sets by (auto simp: s2)
  qed
  then obtain t c where t: "term_rec s2 = Some t" "c < n" "c \<notin> set (readyset s2)" "v c = [t]" by (elim exE conjE)
  then have r2: "residual n s2 pend v" unfolding residual_def rem sets(2,3) using rv tv sets(1) by auto
  show ?thesis
  proof (cases "readyset s2 = []")
    case False
    then have "s' = s2" "as' = []" using c by (auto simp: coll_conditions_def)
    moreover have "merging n ins ks (s2, pend, out) v"
      using m r2 s3(2,7,9) lb ss False by (auto simp: merging_def coll_inv_def coll_mid_def s2)
    moreover have "\<not> coll_done s2" using calculation(3) by (simp add: merging_def coll_inv_def coll_sets_def)
    ultimately show ?thesis using s2 by (auto simp: merge_inv_def)
  next
    case True
    obtain b' where b': "t = REC_terminate b'" using tv[OF t(2,3)] t(4) by auto
    have "s' = s2\<lparr>term_rec := None, coll_done := True\<rparr>" "written Outstream as' = [REC_terminate b']"
      using c True sets(2) t(1) b' by (auto simp: coll_conditions_def)
    moreover have "merged {..<n} v [REC_terminate b']"
      using True tv t(2,4) b' by (intro merged_term[of _ _ c]) auto
    then have "merged {..<n} ins (out @ [REC_terminate b'])" using m by (auto simp: merging_def)
    ultimately show ?thesis using s2(2) by (simp add: merge_inv_def)
  qed
qed

lemma rounds_of_next: "rounds_of ks (r # rs) \<Longrightarrow> (\<exists>d. r = REC_data d) \<or> (\<exists>l n. r = REC_sort_end l n) \<or> (\<exists>b. r = REC_terminate b)"
  by (cases r; cases ks) auto

lemma merging_arrive:
  assumes "merging n ins ks (s, pend, out) v" and "pend st = r # rs"
  shows "merging n ins ks (s\<lparr>queue_of := (queue_of s)(st := queue_of s st @ [r])\<rparr>, pend(st := rs), out) v"
proof -
  let ?s = "s\<lparr>queue_of := (queue_of s)(st := queue_of s st @ [r])\<rparr>"
  have "rem_of ?s (pend(st := rs)) = rem_of s pend" using assms(2) by (auto simp: rem_of_def sd_queue_def)
  then have "residual n ?s (pend(st := rs)) v \<longleftrightarrow> residual n s pend v" by (simp add: residual_def)
  then show ?thesis using assms(1) by (simp add: merging_def coll_inv_def coll_sets_def)
qed

lemma merging_next:
  assumes m: "merging n ins ks (s, pend, out) v" and poll: "poll \<in> set (readyset s)" and r: "coll_round is_static poll s = Ok (s', as)"
  obtains r s1 cur s2 as1 as2 where "GetRecord poll s = Ok (r, s1)" "curstream s1 = Some cur" "cur \<in> set (readyset s1)" "cur < n"
    "v cur = r # rem_of s1 pend cur" "coll_inv s1" "last_branch s1 = None" "sd_stream_of s1 = sd_stream_of s"
    "residual n s1 pend (v(cur := rem_of s1 pend cur))"
    "coll_process is_static cur r s1 = Ok (s2, as1)" "coll_conditions is_static s2 = Ok (s', as2)" "as = as1 @ as2"
    "(\<exists>d. r = REC_data d) \<or> (\<exists>l n. r = REC_sort_end l n) \<or> (\<exists>b. r = REC_terminate b)"
proof -
  obtain r s1 where g: "GetRecord poll s = Ok (r, s1)" using r by (auto simp: coll_round_def)
  obtain cur where cur: "curstream s1 = Some cur" "cur \<in> set (readyset s1)" "cur < n" "v cur = r # rem_of s1 pend cur" "coll_inv s1"
    "last_branch s1 = None" "sd_stream_of s1 = sd_stream_of s" "residual n s1 pend (v(cur := rem_of s1 pend cur))"
    using merging_read[OF m poll g] by (elim exE conjE)
  obtain s2 as1 as2 where p: "coll_process is_static cur r s1 = Ok (s2, as1)" "coll_conditions is_static s2 = Ok (s', as2)" "as = as1 @ as2"
    using r g cur(1) by (auto simp: coll_round_def)
  have "rounds_of ks (r # rem_of s1 pend cur)" using merging_rounds[OF m cur(3)] cur(4) by simp
  from that[OF g cur p rounds_of_next[OF this]] show thesis .
qed

lemma merge_inv_round:
  assumes m: "merging n ins ks (s, pend, out) v" and two: "\<not> is_static \<or> n \<noteq> 1" and poll: "poll \<in> set (readyset s)"
    and r: "coll_round is_static poll s = Ok (s', as)"
  shows "merge_inv n ins (s', pend, out @ written Outstream as)"
proof (rule merging_next[OF m poll r])
  fix r s1 cur s2 as1 as2
  assume cur: "curstream s1 = Some cur" "cur \<in> set (readyset s1)" "cur < n"
    "v cur = r # rem_of s1 pend cur" "coll_inv s1" "last_branch s1 = None" "sd_stream_of s1 = sd_stream_of s"
    "residual n s1 pend (v(cur := rem_of s1 pend cur))"
    and p: "coll_process is_static cur r s1 = Ok (s2, as1)" and c: "coll_conditions is_static s2 = Ok (s', as2)" and as: "as = as1 @ as2"
    and "(\<exists>d. r = REC_data d) \<or> (\<exists>l n. r = REC_sort_end l n) \<or> (\<exists>b. r = REC_terminate b)"
  then consider d where "r = REC_data d" | l k where "r = REC_sort_end l k" | b where "r = REC_terminate b" by auto
  then show ?thesis
  proof cases
    case (1 d)
    then have "s2 = s1" "as1 = [SWrite Outstream r]" using p by auto
    moreover have "readyset s1 \<noteq> []" using cur(2) by auto
    ultimately have "s' = s1" "as2 = []" using c by (auto simp: coll_conditions_def)
    with \<open>as1 = _\<close> show ?thesis using merging_data[OF m cur(1,3) _ cur(5-8)] cur(4) 1 as by (auto intro!: merging_merge_inv)
  next
    case (2 l k)
    have "\<exists>ks v. merging n ins ks (s', pend, out @ written Outstream as) v"
      unfolding as by (rule merging_sort[OF m two cur(1-3) _ cur(5-8) _ c]) (use p cur(4) 2 in auto)
    then show ?thesis by (elim exE) (rule merging_merge_inv)
  next
    case (3 b)
    then show ?thesis
      using merging_term[OF m cur(1-3) _ cur(5-8), of b is_static s2 as1 s' as2] p c cur(4) as by auto
  qed
qed

lemma merge_inv_step:
  assumes "coll_step is_static x y" and "merge_inv n ins x" and "\<not> is_static \<or> n \<noteq> 1"
  shows "merge_inv n ins y"
  using assms
proof (induction rule: coll_step.induct)
  case (arrive pend st r rs s out)
  show ?case
  proof (cases "coll_done s")
    case True
    with arrive show ?thesis by (simp add: merge_inv_def)
  next
    case False
    with arrive show ?thesis by (auto simp: merge_inv_def intro!: merging_arrive)
  qed
next
  case (round s poll s' as pend out)
  then obtain ks v where "merging n ins ks (s, pend, out) v" by (auto simp: merge_inv_def)
  with round show ?case by (intro merge_inv_round)
qed

lemma merge_inv_start:
  fixes pend :: "stream_id \<Rightarrow> 'r snet_record list"
  assumes "inputs \<noteq> []" and "distinct inputs" and "\<And>c. c < length inputs \<Longrightarrow> rounds_of ks (pend (inputs ! c))" and "(0, -1) \<notin> set ks"
  shows "merging (length inputs) (\<lambda>c. pend (inputs ! c)) ks (coll_start inputs (\<lambda>_. []), pend, []) (\<lambda>c. pend (inputs ! c))"
proof -
  let ?s = "coll_start inputs (\<lambda>_. []) :: 'r coll_state"
  have "inj_on (sd_stream_of ?s) {..<length inputs}"
    using assms(2) by (auto simp: coll_start_def inj_on_def nth_eq_iff_index_eq)
  moreover have "residual (length inputs) ?s pend (\<lambda>c. pend (inputs ! c))"
    by (auto simp: residual_def coll_start_def rem_of_def sd_queue_def)
  moreover have "last_branch ?s = None" by (simp add: coll_start_def)
  ultimately show ?thesis using assms coll_start_inv[OF assms(1), of "\<lambda>_. []"] by (simp add: merging_def)
qed

lemma merge_inv_reachable:
  assumes "(coll_step is_static)\<^sup>*\<^sup>* x y" and "merge_inv n ins x" and "\<not> is_static \<or> n \<noteq> 1"
  shows "merge_inv n ins y"
  using assms by (induction rule: rtranclp_induct) (auto intro: merge_inv_step)

lemma coll_run_merged:
  fixes pend :: "stream_id \<Rightarrow> 'r snet_record list"
  assumes "inputs \<noteq> []" and "distinct inputs" and "\<not> is_static \<or> length inputs \<noteq> 1"
    and "\<And>c. c < length inputs \<Longrightarrow> rounds_of ks (pend (inputs ! c))" and "(0, -1) \<notin> set ks"
    and "(coll_step is_static)\<^sup>*\<^sup>* (coll_start inputs (\<lambda>_. []), pend, []) (s, pend', out)" and "coll_done s"
  shows "merged {..<length inputs} (\<lambda>c. pend (inputs ! c)) out"
proof -
  have "merge_inv (length inputs) (\<lambda>c. pend (inputs ! c)) (s, pend', out)"
    by (rule merge_inv_reachable[OF assms(6) merging_merge_inv[OF merge_inv_start[where pend = pend, OF assms(1,2,4,5)]] assms(3)])
  then show ?thesis using assms(7) by (simp add: merge_inv_def)
qed

section \<open>Every run ends\<close>

text \<open>Twice the records to arrive and once the records that are queued: every step lowers it.\<close>

definition coll_work :: "stream_id list \<Rightarrow> 'r coll_sys \<Rightarrow> nat" where
  "coll_work inputs sys = (case sys of (s, pend, out) \<Rightarrow> \<Sum>st\<in>set inputs. length (queue_of s st) + 2 * length (pend st))"

lemma sum_less_at:
  assumes "finite A" "a \<in> A" "f a < (g a :: nat)" "\<And>x. x \<in> A \<Longrightarrow> x \<noteq> a \<Longrightarrow> f x = g x"
  shows "sum f A < sum g A"
  by (rule sum_strict_mono_ex1) (use assms in \<open>auto simp: le_less\<close>)

lemma coll_conditions_keeps:
  "coll_conditions is_static s = Ok (s', as) \<Longrightarrow> queue_of s' = queue_of s \<and> sd_stream_of s' = sd_stream_of s"
  by (auto simp: coll_conditions_def RestoreFromWaitingset_def Let_def split: if_splits option.splits)

lemma coll_process_keeps:
  assumes "coll_process is_static cur r s = Ok (s', as)"
    and "(\<exists>d. r = REC_data d) \<or> (\<exists>l n. r = REC_sort_end l n) \<or> (\<exists>b. r = REC_terminate b)"
  shows "queue_of s' = queue_of s \<and> sd_stream_of s' = sd_stream_of s"
  using assms
  by (auto simp: ProcessSortRecord_def ProcessTermRecord_def Let_def set_remove_def split: if_splits option.splits)

definition live :: "stream_id list \<Rightarrow> 'r coll_sys \<Rightarrow> bool" where
  "live inputs sys \<longleftrightarrow> (case sys of (s, pend, out) \<Rightarrow>
     (\<forall>c<length inputs. sd_stream_of s c = inputs ! c) \<and> (\<forall>st. st \<notin> set inputs \<longrightarrow> pend st = []))"

lemma live_round:
  assumes m: "merging (length inputs) ins ks (s, pend, out) v" and l: "live inputs (s, pend, out)" and poll: "poll \<in> set (readyset s)"
    and r: "coll_round is_static poll s = Ok (s', as)"
  shows "live inputs (s', pend, out') \<and> coll_work inputs (s', pend, out') < coll_work inputs (s, pend, out)"
proof (rule merging_next[OF m poll r])
  fix r s1 cur s2 as1 as2
  assume g: "GetRecord poll s = Ok (r, s1)" and cur: "curstream s1 = Some cur" "cur < length inputs"
    and p: "coll_process is_static cur r s1 = Ok (s2, as1)" and c: "coll_conditions is_static s2 = Ok (s', as2)"
    and k: "(\<exists>d. r = REC_data d) \<or> (\<exists>l n. r = REC_sort_end l n) \<or> (\<exists>b. r = REC_terminate b)"
  have inv: "coll_inv s" using m by (simp add: merging_def)
  obtain rs where q: "sd_queue s cur = r # rs"
    "s1 = s\<lparr>curstream := Some cur, readyset := readyset s1, queue_of := (queue_of s)(sd_stream_of s cur := rs)\<rparr>"
    using GetRecord_Ok[OF inv poll g] cur(1) by auto
  have s1: "queue_of s1 = (queue_of s)(sd_stream_of s cur := rs)" "sd_stream_of s1 = sd_stream_of s" by (subst q(2), simp)+
  have s': "queue_of s' = (queue_of s)(sd_stream_of s cur := rs)" "sd_stream_of s' = sd_stream_of s"
    using coll_process_keeps[OF p k] coll_conditions_keeps[OF c] s1 by simp_all
  have "sd_stream_of s cur \<in> set inputs" using l cur(2) by (simp add: live_def)
  then have "coll_work inputs (s', pend, out') < coll_work inputs (s, pend, out)"
    unfolding coll_work_def prod.case by (rule sum_less_at[rotated]) (use q(1) s'(1) in \<open>auto simp: sd_queue_def\<close>)
  then show ?thesis using l s'(2) by (simp add: live_def)
qed

lemma live_step:
  assumes "coll_step is_static x y" and "merge_inv (length inputs) ins x" and "live inputs x"
  shows "live inputs y \<and> coll_work inputs y < coll_work inputs x"
  using assms
proof (induction rule: coll_step.induct)
  case (arrive pend st r rs s out)
  then have "st \<in> set inputs" by (auto simp: live_def)
  then have "coll_work inputs (s\<lparr>queue_of := (queue_of s)(st := queue_of s st @ [r])\<rparr>, pend(st := rs), out) < coll_work inputs (s, pend, out)"
    unfolding coll_work_def prod.case by (rule sum_less_at[rotated]) (use arrive(1) in auto)
  with arrive show ?case by (auto simp: live_def)
next
  case (round s poll s' as pend out)
  then obtain ks v where "merging (length inputs) ins ks (s, pend, out) v" by (auto simp: merge_inv_def)
  with round show ?case by (intro live_round)
qed

lemma GetRecord_enabled:
  assumes "coll_inv s"
  obtains c where "c \<in> set (readyset s)" "sd_queue s c \<noteq> [] \<longrightarrow> (\<exists>r s1. GetRecord c s = Ok (r, s1))"
proof (cases "\<exists>c. curstream s = Some c \<and> coll_peek s c \<noteq> None")
  case True
  then obtain c where c: "curstream s = Some c" "coll_peek s c \<noteq> None" by blast
  have i: "incount s \<ge> 1 \<and> readyset s \<noteq> []" using assms by (cases "readyset s") (auto simp: coll_inv_def coll_sets_def)
  have "GetRecord c s = coll_read s c" using c i by (auto simp: GetRecord_def Let_def)
  moreover have "\<exists>p. coll_read s c = Ok p" using c(2) by (auto simp: coll_peek_def coll_read_def split: list.splits)
  ultimately show thesis using that[of c] c(1) assms by (auto simp: coll_inv_def)
next
  case False
  let ?c = "last (readyset s)"
  have i: "incount s \<ge> 1 \<and> readyset s \<noteq> []" using assms by (cases "readyset s") (auto simp: coll_inv_def coll_sets_def)
  have n: "(case curstream s of Some c \<Rightarrow> if coll_peek s c = None then s\<lparr>curstream := None\<rparr> else s | None \<Rightarrow> s) = s\<lparr>curstream := None\<rparr>"
    using False by (cases "curstream s") auto
  have "\<exists>p. GetRecord ?c s = Ok p" if "sd_queue s ?c \<noteq> []"
    unfolding GetRecord_def n using that i by (auto simp: Let_def coll_read_def sd_queue_def split: list.splits)
  then show thesis using that[of ?c] i by auto
qed

lemma live_progress:
  assumes "merging n ins ks (s, pend, out) v"
  shows "\<exists>y. coll_step is_static (s, pend, out) y"
proof -
  have inv: "coll_inv s" and res: "residual n s pend v" using assms by (simp_all add: merging_def)
  obtain c where c: "c \<in> set (readyset s)" "sd_queue s c \<noteq> [] \<longrightarrow> (\<exists>r s1. GetRecord c s = Ok (r, s1))" by (rule GetRecord_enabled[OF inv])
  have "rounds_of ks (rem_of s pend c)" using merging_rounds[OF assms, of c] res c(1) by (auto simp: residual_def)
  then have ne: "rem_of s pend c \<noteq> []" by (cases ks) auto
  show ?thesis
  proof (cases "sd_queue s c = []")
    case True
    with ne obtain r rs where "pend (sd_stream_of s c) = r # rs" by (cases "pend (sd_stream_of s c)") (auto simp: rem_of_def)
    then show ?thesis by (blast intro: arrive)
  next
    case False
    with c(2) obtain r' s1 where g: "GetRecord c s = Ok (r', s1)" by blast
    obtain cur where cur: "curstream s1 = Some cur" "cur \<in> set (readyset s1)" "cur < n" "v cur = r' # rem_of s1 pend cur" "coll_inv s1" "last_branch s1 = None"
      using merging_read[OF assms c(1) g] by (elim exE conjE)
    have "valid_rec is_static r' \<or> last_branch s1 = None \<and> (\<exists>l n. r' = REC_sort_end l n)"
      using rounds_of_next[of ks r' "rem_of s1 pend cur"] merging_rounds[OF assms cur(3)] cur(4,6) by auto
    then obtain s2 as where p: "coll_process is_static cur r' s1 = Ok (s2, as)" "coll_mid s2" using coll_process_Ok[OF cur(5,2)] by blast
    obtain s' as' where "coll_conditions is_static s2 = Ok (s', as')" using coll_conditions_Ok[OF p(2)] by blast
    then have "coll_round is_static c s = Ok (s', as @ as')" by (simp add: coll_round_def g cur(1) p(1) del: bindR_eq_Ok)
    moreover have "\<not> coll_done s" using inv by (simp add: coll_inv_def coll_sets_def)
    ultimately show ?thesis using c(1) by (blast intro: round)
  qed
qed

section \<open>What a merge contains\<close>

fun is_data_rec :: "'r snet_record \<Rightarrow> bool" where
  "is_data_rec (REC_data d) = True"
| "is_data_rec _ = False"

definition data_recs :: "'r snet_record list \<Rightarrow> 'r snet_record list" where
  "data_recs = filter is_data_rec"

definition control_recs :: "'r snet_record list \<Rightarrow> 'r snet_record list" where
  "control_recs = filter (\<lambda>r. \<not> is_data_rec r)"

lemma control_sort_out [simp]: "control_recs (sort_out l n) = sort_out l n" "data_recs (sort_out l n) = []"
  by (simp_all add: control_recs_def data_recs_def sort_out_def)

lemma merged_data_of:
  assumes "merged C f out" and "finite C"
  shows "mset (data_recs out) = (\<Sum>c\<in>C. mset (data_recs (f c)))"
  using assms(1)
proof (induction rule: merged.induct)
  case (merged_data c f d rs out)
  have "(\<Sum>c'\<in>C. mset (data_recs (f c'))) = mset (data_recs (f c)) + (\<Sum>c'\<in>C - {c}. mset (data_recs (f c')))"
    by (rule sum.remove[OF assms(2) merged_data(1)])
  moreover have "(\<Sum>c'\<in>C. mset (data_recs ((f(c := rs)) c'))) = mset (data_recs rs) + (\<Sum>c'\<in>C - {c}. mset (data_recs (f c')))"
    by (subst sum.remove[OF assms(2) merged_data(1)]) simp
  ultimately show ?case using merged_data by (simp add: data_recs_def)
next
  case (merged_sort f l n g out)
  then have "(\<Sum>c\<in>C. mset (data_recs (f c))) = (\<Sum>c\<in>C. mset (data_recs (g c)))"
    by (intro sum.cong) (auto simp: data_recs_def)
  with merged_sort show ?case by (simp add: data_recs_def sort_out_def)
next
  case (merged_term f c b)
  then have "mset (data_recs (f c')) = {#}" if "c' \<in> C" for c' using that by (fastforce simp: data_recs_def)
  then show ?case by (simp add: data_recs_def)
qed

lemma merged_control:
  assumes "merged C f out" and "\<And>c. c \<in> C \<Longrightarrow> rounds_of ks (f c)" and "C \<noteq> {}"
  shows "\<exists>b. control_recs out = concat (map (\<lambda>(l, n). sort_out l n) ks) @ [REC_terminate b]"
  using assms
proof (induction arbitrary: ks rule: merged.induct)
  case (merged_data c f d rs out)
  have "rounds_of ks ((f(c := rs)) c')" if "c' \<in> C" for c'
    using merged_data(5)[OF that] merged_data(2) by auto
  from merged_data.IH[OF this merged_data.prems(2)] show ?case by (simp add: control_recs_def)
next
  case (merged_sort f l n g out)
  obtain c where "c \<in> C" using merged_sort.prems(2) by blast
  then obtain ks' where ks: "ks = (l, n) # ks'" using merged_sort(1,4) by (metis rounds_of_sort)
  then have "\<exists>b. control_recs out = concat (map (\<lambda>(l, n). sort_out l n) ks') @ [REC_terminate b]"
    using merged_sort(1,4) by (intro merged_sort.IH merged_sort.prems(2)) fastforce
  then show ?case using ks control_sort_out(1)[of l n] by (auto simp: control_recs_def)
next
  case (merged_term f c b)
  then have "ks = []" by (metis rounds_of_term)
  then show ?case by (simp add: control_recs_def)
qed

lemma coll_run_bounded:
  fixes pend :: "stream_id \<Rightarrow> 'r snet_record list"
  assumes "inputs \<noteq> []" and "distinct inputs" and "\<not> is_static \<or> length inputs \<noteq> 1"
    and "\<And>c. c < length inputs \<Longrightarrow> rounds_of ks (pend (inputs ! c))" and "(0, -1) \<notin> set ks"
    and "\<And>st. st \<notin> set inputs \<Longrightarrow> pend st = []"
    and "(coll_step is_static ^^ k) (coll_start inputs (\<lambda>_. []), pend, []) sys"
  shows "k \<le> 2 * (\<Sum>st\<in>set inputs. length (pend st)) \<and> (coll_done (fst sys) \<or> (\<exists>sys'. coll_step is_static sys sys'))"
proof -
  let ?n = "length inputs" and ?ins = "\<lambda>c. pend (inputs ! c)" and ?x = "(coll_start inputs (\<lambda>_. []), pend, []) :: 'r coll_sys"
  have i: "merge_inv ?n ?ins ?x" by (rule merging_merge_inv[OF merge_inv_start[where pend = pend, OF assms(1,2,4,5)]])
  have l: "live inputs ?x" using assms(6) by (auto simp: live_def coll_start_def)
  have "merge_inv ?n ?ins sys \<and> live inputs sys \<and> k + coll_work inputs sys \<le> coll_work inputs ?x"
    using assms(7)
  proof (induction k arbitrary: sys)
    case 0
    with i l show ?case by simp
  next
    case (Suc k)
    then obtain y where y: "(coll_step is_static ^^ k) ?x y" "coll_step is_static y sys" by auto
    from Suc.IH[OF y(1)] have h: "merge_inv ?n ?ins y" "live inputs y" "k + coll_work inputs y \<le> coll_work inputs ?x" by simp_all
    show ?case using merge_inv_step[OF y(2) h(1) assms(3)] live_step[OF y(2) h(1,2)] h(3) by simp
  qed
  moreover have "coll_work inputs ?x = 2 * (\<Sum>st\<in>set inputs. length (pend st))"
    by (simp add: coll_work_def coll_start_def sum_distrib_left)
  moreover have "\<exists>sys'. coll_step is_static sys sys'" if "merge_inv ?n ?ins sys" "\<not> coll_done (fst sys)"
    using that live_progress by (cases sys) (auto simp: merge_inv_def)
  ultimately show ?thesis by fastforce
qed

text \<open>Two inputs with one sort record each; the second one carries a data record in the first round.\<close>

definition coll_example :: "nat data_rec \<Rightarrow> stream_id \<Rightarrow> nat snet_record list" where
  "coll_example d st =
     (if st = 3 then [REC_sort_end 2 5, REC_terminate False]
      else if st = 4 then [REC_data d, REC_sort_end 2 5, REC_terminate False] else [])"

lemma coll_example_rounds: "c < length [3, 4] \<Longrightarrow> rounds_of [(2, 5)] (coll_example d ([3, 4] ! c))"
  by (auto simp: coll_example_def less_Suc_eq)

lemma coll_terminates_run:
  assumes "\<And>k y. (coll_step is_static ^^ k) x y \<Longrightarrow> k \<le> b \<and> (coll_done (fst y) \<or> (\<exists>z. coll_step is_static y z))"
  shows "\<exists>y. (coll_step is_static)\<^sup>*\<^sup>* x y \<and> coll_done (fst y)"
proof (rule ccontr)
  assume n: "\<nexists>y. (coll_step is_static)\<^sup>*\<^sup>* x y \<and> coll_done (fst y)"
  have "\<exists>y. (coll_step is_static ^^ k) x y" for k
  proof (induction k)
    case (Suc k)
    then obtain y where y: "(coll_step is_static ^^ k) x y" by blast
    have "(coll_step is_static)\<^sup>*\<^sup>* x y" by (rule relpowp_imp_rtranclp[OF y])
    then have "\<exists>z. coll_step is_static y z" using assms[OF y] n by blast
    with y show ?case by auto
  next
    case 0
    show ?case by (rule exI[of _ x]) simp
  qed
  from this[of "Suc b"] obtain y where "(coll_step is_static ^^ Suc b) x y" by blast
  from assms[OF this] show False by simp
qed

lemma coll_example_ends:
  "\<exists>s pend out. (coll_step True)\<^sup>*\<^sup>* (coll_start [3, 4] (\<lambda>_. []), coll_example d, []) (s, pend, out) \<and> coll_done s"
proof -
  let ?x = "(coll_start [3, 4] (\<lambda>_. []), coll_example d, [])"
  have "k \<le> 2 * (\<Sum>st\<in>set [3, 4]. length (coll_example d st)) \<and> (coll_done (fst y) \<or> (\<exists>z. coll_step True y z))"
    if "(coll_step True ^^ k) ?x y" for k y
    by (rule coll_run_bounded[where ks = "[(2, 5)]", OF _ _ _ coll_example_rounds _ _ that]) (auto simp: coll_example_def)
  from coll_terminates_run[of True ?x, OF this] show ?thesis by auto
qed

text \<open>
  C6. The collector refines the merge of its inputs in the case without reconfiguration: for any number of inputs (not
  a single one for a static collector) that hold data records, the same sort records in the same order and then a
  termination record, but no sync or collect record and no sort record of level 0 and number -1 (the mark of a
  dispatcher that has left the network), however the records arrive
  and whichever ready stream every poll returns, a run that ends has written a merge of the inputs.
  So it has written all data records once and kept their order, none has passed a sort record, and
  the sort records come out once, one level lower, followed by one termination record.
\<close>

theorem collector_merges:
  assumes "inputs \<noteq> []" and "distinct inputs" and "\<not> is_static \<or> length inputs \<noteq> 1"
    and "\<And>c. c < length inputs \<Longrightarrow> rounds_of ks (pend (inputs ! c))" and "(0, -1) \<notin> set ks"
    and "(coll_step is_static)\<^sup>*\<^sup>* (coll_start inputs (\<lambda>_. []), pend, []) (s, pend', out)" and "coll_done s"
  shows "merged {..<length inputs} (\<lambda>c. pend (inputs ! c)) out \<and>
     mset (data_recs out) = (\<Sum>c<length inputs. mset (data_recs (pend (inputs ! c)))) \<and>
     (\<exists>b. control_recs out = concat (map (\<lambda>(l, n). sort_out l n) ks) @ [REC_terminate b])"
proof -
  have m: "merged {..<length inputs} (\<lambda>c. pend (inputs ! c)) out"
    by (rule coll_run_merged[where pend = pend, OF assms])
  moreover have "{..<length inputs} \<noteq> {}" using assms(1) by (simp add: lessThan_empty_iff)
  then have "\<exists>b. control_recs out = concat (map (\<lambda>(l, n). sort_out l n) ks) @ [REC_terminate b]"
    by (rule merged_control[OF m, rotated]) (use assms(4) in simp)
  ultimately show ?thesis using merged_data_of[OF m] by simp
qed

theorem collector_merges_witness:
  "\<forall>d. \<exists>s pend out. (coll_step True)\<^sup>*\<^sup>* (coll_start [3, 4] (\<lambda>_. []), coll_example d, []) (s, pend, out) \<and>
     data_recs out = [REC_data d] \<and> (\<exists>b. control_recs out = [REC_sort_end 1 5, REC_terminate b])"
proof
  fix d :: "nat data_rec"
  obtain s pend out where r: "(coll_step True)\<^sup>*\<^sup>* (coll_start [3, 4] (\<lambda>_. []), coll_example d, []) (s, pend, out)" "coll_done s"
    using coll_example_ends by blast
  have "mset (data_recs out) = (\<Sum>c<length [3, 4]. mset (data_recs (coll_example d ([3, 4] ! c)))) \<and>
     (\<exists>b. control_recs out = concat (map (\<lambda>(l, n). sort_out l n) [(2, 5)]) @ [REC_terminate b])"
    using collector_merges[where ks = "[(2, 5)]", OF _ _ _ coll_example_rounds _ r] by simp
  then have "data_recs out = [REC_data d] \<and> (\<exists>b. control_recs out = [REC_sort_end 1 5, REC_terminate b])"
    by (simp add: sort_out_def coll_example_def data_recs_def flip: mset_filter)
  with r(1) show "\<exists>s pend out. (coll_step True)\<^sup>*\<^sup>* (coll_start [3, 4] (\<lambda>_. []), coll_example d, []) (s, pend, out) \<and>
     data_recs out = [REC_data d] \<and> (\<exists>b. control_recs out = [REC_sort_end 1 5, REC_terminate b])" by blast
qed

text \<open>
  C28. On inputs with data records, the same sort records in the same order and then a termination record, but no sync or collect record
  and no sort record of level 0 and number -1, and not a single input for a static collector, every run of the collector ends: its length is at most twice the number of
  records on the inputs, and a state in which the collector has not ended has a further step, so
  that the collector cannot wait forever.
\<close>

theorem collector_terminates:
  fixes pend :: "stream_id \<Rightarrow> 'r snet_record list"
  assumes "inputs \<noteq> []" and "distinct inputs" and "\<not> is_static \<or> length inputs \<noteq> 1"
    and "\<And>c. c < length inputs \<Longrightarrow> rounds_of ks (pend (inputs ! c))" and "(0, -1) \<notin> set ks"
    and "\<And>st. st \<notin> set inputs \<Longrightarrow> pend st = []"
    and "(coll_step is_static ^^ k) (coll_start inputs (\<lambda>_. []), pend, []) sys"
  shows "k \<le> 2 * (\<Sum>st\<in>set inputs. length (pend st)) \<and> (coll_done (fst sys) \<or> (\<exists>sys'. coll_step is_static sys sys'))"
  by (rule coll_run_bounded[OF assms])

theorem collector_terminates_witness:
  "\<forall>d. \<exists>s pend out. (coll_step True)\<^sup>*\<^sup>* (coll_start [3, 4] (\<lambda>_. []), coll_example d, []) (s, pend, out) \<and> coll_done s"
proof
  fix d :: "nat data_rec"
  let ?x = "(coll_start [3, 4] (\<lambda>_. []), coll_example d, [])"
  have "k \<le> 2 * (\<Sum>st\<in>set [3, 4]. length (coll_example d st)) \<and> (coll_done (fst y) \<or> (\<exists>z. coll_step True y z))"
    if "(coll_step True ^^ k) ?x y" for k y
    by (rule collector_terminates[where ks = "[(2, 5)]", OF _ _ _ coll_example_rounds _ _ that]) (auto simp: coll_example_def)
  from coll_terminates_run[of True ?x, OF this]
  show "\<exists>s pend out. (coll_step True)\<^sup>*\<^sup>* (coll_start [3, 4] (\<lambda>_. []), coll_example d, []) (s, pend, out) \<and> coll_done s" by auto
qed

end
