(* ===== verification/Parallel.thy ===== *)
theory Parallel
  imports Collector
begin

text \<open>
  The parallel combinator (\<open>runtime/stream/entity/parallel.c\<close>): the dispatcher sends every data
  record to the branch whose input type matches best, its deterministic variant follows every data
  record with a sort record on all branches, and sync records with a type close branches. The theory
  has the matching, the start of the dispatcher with its initialiser branches, the main loop, the
  scores that the matching computes, and what each branch receives. The last section puts the
  deterministic dispatcher and the collector together.
\<close>

section \<open>Matching\<close>

record match_count =
  is_match :: bool
  mcount :: int

type_synonym variant_list = "snet_variant snet_list"

definition MatchCountUpdate :: "match_count \<Rightarrow> bool \<Rightarrow> match_count" where
  "MatchCountUpdate mc match_cond = (if match_cond then mc\<lparr>mcount := mcount mc + 1\<rparr> else mc\<lparr>is_match := False\<rparr>)"

definition update_by :: "(int \<Rightarrow> bool res) \<Rightarrow> match_count \<Rightarrow> int \<Rightarrow> match_count res" where
  "update_by has mc name = bindR (has name) (\<lambda>b. Ok (MatchCountUpdate mc b))"

text \<open>The body of the loop over the variants: the labels of the variant, then the binding tags of the record.\<close>

definition check_variant :: "'r snet_record \<Rightarrow> snet_variant \<Rightarrow> match_count res" where
  "check_variant r variant =
     bindR (LIST_FOR_EACH (v_fields variant)) (\<lambda>fs.
     bindR (foldR (update_by (SNetRecHasField r)) \<lparr>is_match = True, mcount = 0\<rparr> fs) (\<lambda>mc.
     bindR (LIST_FOR_EACH (v_tags variant)) (\<lambda>ts.
     bindR (foldR (update_by (SNetRecHasTag r)) mc ts) (\<lambda>mc.
     bindR (data_of r) (\<lambda>d. bindR (MAP_FOR_EACH (rec_btags d)) (\<lambda>kvs.
     foldR (update_by (SNetVariantHasBTag variant)) mc (map fst kvs)))))))"

text \<open>\<open>mc\<close> is \<open>None\<close> while the match counter is not initialised; without variants it is left alone.\<close>

definition check_step :: "'r snet_record \<Rightarrow> match_count option \<times> int \<Rightarrow> snet_variant \<Rightarrow> (match_count option \<times> int) res" where
  "check_step r = (\<lambda>(mc, mx) variant.
     bindR (check_variant r variant) (\<lambda>mc'.
     Ok (Some mc', if is_match mc' then (if mcount mc' > mx then mcount mc' else mx) else mx)))"

definition CheckMatch :: "'r snet_record \<Rightarrow> variant_list \<Rightarrow> match_count option \<Rightarrow> match_count option res" where
  "CheckMatch r vl mc =
     bindR (LIST_FOR_EACH vl) (\<lambda>vs. bindR (foldR (check_step r) (mc, -1) vs) (\<lambda>(mc, mx).
     Ok (if mx \<ge> 0 then Some \<lparr>is_match = True, mcount = mx\<rparr> else mc)))"

text \<open>The four loops over the labels of \<open>var\<close> inside the loop over the other variants.\<close>

fun supertype_loop :: "snet_variant \<Rightarrow> snet_variant list \<Rightarrow> bool res" where
  "supertype_loop var [] = Ok True"
| "supertype_loop var (other # vs) =
     bindR (LIST_FOR_EACH (v_fields var)) (\<lambda>ns. bindR (all_labels (SNetVariantHasField other) ns) (\<lambda>b. if \<not> b then Ok False else
     bindR (LIST_FOR_EACH (v_tags var)) (\<lambda>ns. bindR (all_labels (SNetVariantHasTag other) ns) (\<lambda>b. if \<not> b then Ok False else
     bindR (LIST_FOR_EACH (v_btags var)) (\<lambda>ns. bindR (all_labels (SNetVariantHasBTag other) ns) (\<lambda>b. if \<not> b then Ok False else
     supertype_loop var vs))))))"

definition VariantIsSupertypeOfAllOthers :: "snet_variant \<Rightarrow> variant_list \<Rightarrow> bool res" where
  "VariantIsSupertypeOfAllOthers var vl = bindR (LIST_FOR_EACH vl) (supertype_loop var)"

definition read_counter :: "match_count option \<Rightarrow> match_count res" where
  "read_counter mc = (case mc of None \<Rightarrow> Err UninitRead | Some m \<Rightarrow> Ok m)"

definition best_step :: "int \<times> int \<Rightarrow> nat \<times> match_count option \<Rightarrow> (int \<times> int) res" where
  "best_step = (\<lambda>(r, mx) (i, c).
     bindR (read_counter c) (\<lambda>mc. Ok (if is_match mc \<and> mcount mc > mx then (int i, mcount mc) else (r, mx))))"

definition BestMatch :: "match_count option list \<Rightarrow> int res" where
  "BestMatch counter = bindR (foldR best_step (-1, -1) (enumerate 0 counter)) (\<lambda>(r, _). Ok r)"

text \<open>\<open>WeightedRoundRobin\<close>, which no other function calls.\<close>

definition robin_step :: "nat arr \<times> nat \<times> int \<Rightarrow> nat \<times> match_count option \<Rightarrow> (nat arr \<times> nat \<times> int) res" where
  "robin_step = (\<lambda>(best, num_best, mx) (i, c).
     bindR (read_counter c) (\<lambda>mc.
     if \<not> is_match mc then Ok (best, num_best, mx) else
     bindR (if mcount mc > mx then bindR (arr_write best 0 i) (\<lambda>b. Ok (b, 1, mcount mc)) else Ok (best, num_best, mx))
       (\<lambda>(best, num_best, mx).
     if mcount mc = mx then bindR (arr_write best num_best i) (\<lambda>b. Ok (b, num_best + 1, mx)) else Ok (best, num_best, mx))))"

definition least_step :: "nat arr \<Rightarrow> int list \<Rightarrow> int \<times> int \<Rightarrow> nat \<Rightarrow> (int \<times> int) res" where
  "least_step best usedcounter = (\<lambda>(r, mn) i.
     bindR (arr_read best i) (\<lambda>j.
     if j < length usedcounter then Ok (if usedcounter ! j < mn then (int j, usedcounter ! j) else (r, mn)) else Err OutOfBounds))"

definition WeightedRoundRobin :: "match_count option list \<Rightarrow> int list \<Rightarrow> int res" where
  "WeightedRoundRobin counter usedcounter =
     bindR (foldR robin_step (arr_alloc (length counter), 0, -1) (enumerate 0 counter)) (\<lambda>(best, num_best, _).
     bindR (foldR (least_step best usedcounter) (-1, 2 ^ 31 - 1) [0..<num_best]) (\<lambda>(r, _). Ok r))"

section \<open>The dispatcher\<close>

text \<open>\<open>par_outs\<close> are the output descriptors, \<open>None\<close> for a closed branch.\<close>

record par_state =
  par_outs :: "sd option list"
  matchcounter :: "match_count option list"
  usedcounter :: "int list"
  par_counter :: int
  par_input :: stream_id
  par_done :: bool

definition write_open :: "sd option list \<Rightarrow> 'r snet_record \<Rightarrow> 'r action list" where
  "write_open outs r = concat (map (\<lambda>out. case out of None \<Rightarrow> [] | Some sd \<Rightarrow> [SWrite sd r]) outs)"

text \<open>\<open>PutToBuffers\<close>: the counter is \<open>None\<close> where the code passes NULL.\<close>

definition PutToBuffers :: "sd option list \<Rightarrow> nat \<Rightarrow> 'r snet_record \<Rightarrow> int option \<Rightarrow> (int option \<times> 'r action list) res" where
  "PutToBuffers outs idx r counter =
     (if idx < length outs then
        let as = (case outs ! idx of None \<Rightarrow> [] | Some sd \<Rightarrow> [SWrite sd r]) in
        (case counter of
           None \<Rightarrow> Ok (None, as)
         | Some c \<Rightarrow> bindR (c_int (c + 1)) (\<lambda>c'. Ok (Some c', as @ write_open outs (REC_sort_end 0 c))))
      else Err OutOfBounds)"

definition det_counter :: "bool \<Rightarrow> int \<Rightarrow> int option" where
  "det_counter is_det c = (if is_det then Some c else None)"

definition counter_of :: "int \<Rightarrow> int option \<Rightarrow> int" where
  "counter_of c oc = (case oc of None \<Rightarrow> c | Some c' \<Rightarrow> c')"

text \<open>The loop that serves the initialiser branches: (descriptors, counter, number of them, actions).\<close>

definition init_step ::
  "bool \<Rightarrow> variant_list snet_list \<Rightarrow> sd option list \<times> int \<times> int \<times> 'r action list \<Rightarrow> nat \<Rightarrow> (sd option list \<times> int \<times> int \<times> 'r action list) res" where
  "init_step is_det vls = (\<lambda>(outs, counter, num_init, as) i.
     bindR (ListGet vls (int i)) (\<lambda>vl.
     if ListLength vl = 0 then
       bindR (PutToBuffers outs i REC_trigger_initialiser (det_counter is_det counter)) (\<lambda>(oc, as1).
       bindR (PutToBuffers outs i (REC_terminate True) None) (\<lambda>(_, as2).
       case outs ! i of
         None \<Rightarrow> Err NullDeref
       | Some sd \<Rightarrow> Ok (outs[i := None], counter_of counter oc, num_init + 1, as @ as1 @ as2 @ [SClose sd False])))
     else
       (if i < length outs then
          (case outs ! i of
             None \<Rightarrow> Err NullDeref
           | Some sd \<Rightarrow> Ok (outs, counter, num_init, as @ [SWrite sd (REC_sort_end 0 counter)]))
        else Err OutOfBounds)))"

text \<open>With one ordinary branch the dispatcher hands its input stream to that branch.\<close>

definition hand_over_step :: "variant_list snet_list \<Rightarrow> sd option list \<Rightarrow> stream_id \<Rightarrow> 'r action list \<Rightarrow> nat \<Rightarrow> 'r action list res" where
  "hand_over_step vls outs input as i =
     bindR (ListGet vls (int i)) (\<lambda>vl.
     if ListLength vl > 0 then
       (if i < length outs then
          (case outs ! i of
             None \<Rightarrow> Err NullDeref
           | Some sd \<Rightarrow> Ok (as @ [SWrite sd (REC_sync input None), SClose Instream False]))
        else Err OutOfBounds)
     else Ok as)"

definition par_start :: "bool \<Rightarrow> variant_list snet_list \<Rightarrow> stream_id \<Rightarrow> (par_state \<times> 'r action list) res" where
  "par_start is_det vls input =
     (let num = ListLength vls in
      bindR (foldR (init_step is_det vls) (map (\<lambda>i. Some (Sd i)) [0..<num], 0, 0, []) [0..<num]) (\<lambda>(outs, counter, num_init, as).
      bindR (c_int (counter + 1)) (\<lambda>counter.
      bindR (if int num - num_init = 1 then foldR (hand_over_step vls outs input) as [0..<num] else Ok as) (\<lambda>as.
      Ok (\<lparr>par_outs = outs, matchcounter = replicate num None, usedcounter = replicate num 0, par_counter = counter,
           par_input = input, par_done = (int num - num_init = 0 \<or> int num - num_init = 1)\<rparr>, as)))))"

definition check_all_step :: "variant_list snet_list \<Rightarrow> 'r snet_record \<Rightarrow> match_count option list \<Rightarrow> nat \<Rightarrow> match_count option list res" where
  "check_all_step vls r mcs i =
     bindR (ListGet vls (int i)) (\<lambda>vl.
     if i < length mcs then bindR (CheckMatch r vl (mcs ! i)) (\<lambda>mc. Ok (mcs[i := mc])) else Err OutOfBounds)"

definition par_data :: "bool \<Rightarrow> variant_list snet_list \<Rightarrow> par_state \<Rightarrow> 'r snet_record \<Rightarrow> (par_state \<times> 'r action list) res" where
  "par_data is_det vls s r =
     bindR (foldR (check_all_step vls r) (matchcounter s) [0..<ListLength vls]) (\<lambda>mcs.
     bindR (BestMatch mcs) (\<lambda>idx.
     if idx = -1 then Err FatalError else
     bindR (PutToBuffers (par_outs s) (nat idx) r (det_counter is_det (par_counter s))) (\<lambda>(oc, as).
     if nat idx < length (usedcounter s) then
       bindR (c_int (usedcounter s ! nat idx + 1)) (\<lambda>u.
       Ok (s\<lparr>matchcounter := mcs, par_counter := counter_of (par_counter s) oc, usedcounter := (usedcounter s)[nat idx := u]\<rparr>, as))
     else Err OutOfBounds)))"

text \<open>A sync record with a type ends the branches whose variants all carry the labels of that type.\<close>

definition end_branch_step ::
  "snet_variant \<Rightarrow> variant_list snet_list \<Rightarrow> sd option list \<times> 'r action list \<Rightarrow> nat \<Rightarrow> (sd option list \<times> 'r action list) res" where
  "end_branch_step synctype vls = (\<lambda>(outs, as) i.
     bindR (ListGet vls (int i)) (\<lambda>vl.
     bindR (VariantIsSupertypeOfAllOthers synctype vl) (\<lambda>b.
     if \<not> b then Ok (outs, as)
     else if i < length outs then
       (case outs ! i of
          None \<Rightarrow> Err NullDeref
        | Some sd \<Rightarrow> Ok (outs[i := None], as @ [SWrite sd (REC_terminate True), SClose sd False]))
     else Err OutOfBounds)))"

definition par_sync :: "variant_list snet_list \<Rightarrow> par_state \<Rightarrow> stream_id \<Rightarrow> snet_variant \<Rightarrow> (par_state \<times> 'r action list) res" where
  "par_sync vls s st synctype =
     bindR (foldR (end_branch_step synctype vls) (par_outs s, []) [0..<ListLength vls]) (\<lambda>(outs, as).
     let remaining = List.map_filter (\<lambda>out. out) outs in
     bindR (c_int (par_counter s + 1)) (\<lambda>counter.
     let s = s\<lparr>par_outs := outs, par_counter := counter\<rparr> in
     if length remaining = 1 then
       Ok (s\<lparr>par_done := True\<rparr>,
           as @ [SWrite (last remaining) (REC_sort_end 0 (-1)), SWrite (last remaining) (REC_sync st None), SClose Instream True])
     else Ok (s\<lparr>par_input := st\<rparr>, as @ [SReplace Instream st])))"

fun par_round :: "bool \<Rightarrow> variant_list snet_list \<Rightarrow> par_state \<Rightarrow> 'r snet_record \<Rightarrow> (par_state \<times> 'r action list) res" where
  "par_round is_det vls s (REC_data d) = par_data is_det vls s (REC_data d)"
| "par_round is_det vls s (REC_sync st (Some synctype)) = par_sync vls s st synctype"
| "par_round is_det vls s (REC_sync st None) = Ok (s\<lparr>par_input := st\<rparr>, [SReplace Instream st])"
| "par_round is_det vls s (REC_sort_end l n) =
     bindR (c_int (l + 1)) (\<lambda>l'. Ok (s, write_open (par_outs s) (REC_sort_end l' n)))"
| "par_round is_det vls s (REC_terminate b) =
     Ok (s\<lparr>par_done := True\<rparr>, write_open (par_outs s) (REC_terminate b) @ [SClose Instream True])"
| "par_round is_det vls s r = Ok (s, [])"

text \<open>The task: start, main loop, and the closing of the branches once the loop has ended.\<close>

definition close_open :: "sd option list \<Rightarrow> 'r action list" where
  "close_open outs = concat (map (\<lambda>out. case out of None \<Rightarrow> [] | Some sd \<Rightarrow> [SClose sd False]) outs)"

definition ParallelBoxTask :: "bool \<Rightarrow> variant_list snet_list \<Rightarrow> stream_id \<Rightarrow> 'r snet_record list \<Rightarrow> (par_state \<times> 'r action list) res" where
  "ParallelBoxTask is_det vls input rs =
     bindR (par_start is_det vls input) (\<lambda>(s, as).
     bindR (run_task par_done (par_round is_det vls) s rs) (\<lambda>(s, as').
     Ok (s, as @ as' @ (if par_done s then close_open (par_outs s) else []))))"

section \<open>The best match\<close>

text \<open>
  A variant matches a record that carries its fields and tags and whose binding tags it names all;
  its score counts these labels. The score of a branch is the best score of its matching variants, or -1.
\<close>

definition vmatch :: "'r data_rec \<Rightarrow> snet_variant \<Rightarrow> bool" where
  "vmatch d v \<longleftrightarrow> vfields v \<subseteq> dom (field_map d) \<and> vtags v \<subseteq> dom (tag_map d) \<and> dom (btag_map d) \<subseteq> vbtags v"

definition vscore :: "'r data_rec \<Rightarrow> snet_variant \<Rightarrow> int" where
  "vscore d v = int (lused (v_fields v)) + int (lused (v_tags v)) + int (mused (rec_btags d))"

definition branch_score :: "'r data_rec \<Rightarrow> variant_list \<Rightarrow> int" where
  "branch_score d vl = foldl (\<lambda>mx v. if vmatch d v then max (vscore d v) mx else mx) (-1) (list_of vl)"

text \<open>The first branch with the greatest score.\<close>

definition route :: "variant_list snet_list \<Rightarrow> 'r data_rec \<Rightarrow> nat option" where
  "route vls d =
     (let sc = map (branch_score d) (list_of vls) in
      find (\<lambda>i. sc ! i \<ge> 0 \<and> (\<forall>j<length sc. sc ! j \<le> sc ! i)) [0..<length sc])"

lemma update_by_loop:
  assumes "\<And>n. has n = Ok (P n)"
  shows "foldR (update_by has) mc ns =
     Ok \<lparr>is_match = is_match mc \<and> (\<forall>n\<in>set ns. P n), mcount = mcount mc + int (length (filter P ns))\<rparr>"
  by (induction ns arbitrary: mc) (auto simp: update_by_def assms MatchCountUpdate_def)

lemma check_variant_spec:
  assumes "variant_ok v" and "data_ok d"
  shows "\<exists>mc. check_variant (REC_data d) v = Ok mc \<and> is_match mc = vmatch d v \<and> (vmatch d v \<longrightarrow> mcount mc = vscore d v)"
proof -
  have l: "LIST_FOR_EACH (v_fields v) = Ok (list_of (v_fields v))" "LIST_FOR_EACH (v_tags v) = Ok (list_of (v_tags v))"
    using assms(1) by (simp_all add: variant_ok_def LIST_FOR_EACH_list_of)
  have m: "MAP_FOR_EACH (rec_btags d) = Ok (entries (rec_btags d))" using data_ok_inv(2)[OF assms(2)] by (rule map_cells)
  have k: "dom (btag_map d) = set (map fst (entries (rec_btags d)))"
    by (simp add: label_maps map_lookup_def dom_map_of_conv_image_fst)
  note u = update_by_loop[where has = "SNetRecHasField (REC_data d)", OF record_has(3)[OF assms(2)]]
    update_by_loop[where has = "SNetRecHasTag (REC_data d)", OF record_has(1)[OF assms(2)]]
    update_by_loop[where has = "SNetVariantHasBTag v", OF variant_has(2)[OF assms(1)]]
  have c: "vmatch d v \<Longrightarrow> filter (\<lambda>n. n \<in> dom (field_map d)) (list_of (v_fields v)) = list_of (v_fields v)"
    "vmatch d v \<Longrightarrow> filter (\<lambda>n. n \<in> dom (tag_map d)) (list_of (v_tags v)) = list_of (v_tags v)"
    "vmatch d v \<Longrightarrow> filter (\<lambda>n. n \<in> vbtags v) (map fst (entries (rec_btags d))) = map fst (entries (rec_btags d))"
    by (auto simp: vmatch_def variant_sets k filter_id_conv)
  let ?mc = "\<lparr>is_match = ((True \<and> (\<forall>n\<in>set (list_of (v_fields v)). n \<in> dom (field_map d))) \<and> (\<forall>n\<in>set (list_of (v_tags v)). n \<in> dom (tag_map d))) \<and>
        (\<forall>n\<in>set (map fst (entries (rec_btags d))). n \<in> vbtags v),
      mcount = 0 + int (length (filter (\<lambda>n. n \<in> dom (field_map d)) (list_of (v_fields v)))) +
        int (length (filter (\<lambda>n. n \<in> dom (tag_map d)) (list_of (v_tags v)))) +
        int (length (filter (\<lambda>n. n \<in> vbtags v) (map fst (entries (rec_btags d)))))\<rparr>"
  have "check_variant (REC_data d) v = Ok ?mc"
    by (simp only: check_variant_def l m u bindR.simps data_of.simps match_count.simps)
  moreover have "is_match ?mc = vmatch d v" by (auto simp: vmatch_def variant_sets k)
  moreover have "vmatch d v \<Longrightarrow> mcount ?mc = vscore d v" by (simp only: c match_count.simps) (simp add: vscore_def)
  ultimately show ?thesis by blast
qed

lemma check_loop:
  assumes "data_ok d" and "\<forall>v\<in>set vs. variant_ok v"
  shows "\<exists>mc. foldR (check_step (REC_data d)) (m0, mx) vs =
       Ok (mc, foldl (\<lambda>mx v. if vmatch d v then max (vscore d v) mx else mx) mx vs) \<and>
     (if vs = [] then mc = m0 else \<exists>m. mc = Some m \<and> is_match m = vmatch d (last vs))"
  using assms(2)
proof (induction vs arbitrary: m0 mx)
  case (Cons v vs)
  obtain mc where mc: "check_variant (REC_data d) v = Ok mc" "is_match mc = vmatch d v" "vmatch d v \<longrightarrow> mcount mc = vscore d v"
    using check_variant_spec[OF _ assms(1), of v] Cons.prems by auto
  have "check_step (REC_data d) (m0, mx) v = Ok (Some mc, if vmatch d v then max (vscore d v) mx else mx)"
    using mc by (auto simp: check_step_def max_def)
  then show ?case using Cons.IH[of "Some mc" "if vmatch d v then max (vscore d v) mx else mx"] Cons.prems mc(2)
    by (cases vs) (auto split: if_splits)
qed simp

lemma score_loop_ge: "mx \<le> foldl (\<lambda>mx v. if vmatch d v then max (vscore d v) mx else mx) mx vs"
proof (induction vs arbitrary: mx)
  case (Cons v vs)
  have "mx \<le> (if vmatch d v then max (vscore d v) mx else mx)" by simp
  also have "\<dots> \<le> foldl (\<lambda>mx v. if vmatch d v then max (vscore d v) mx else mx) mx (v # vs)" using Cons.IH by simp
  finally show ?case .
qed simp

lemma score_loop_nonneg:
  "0 \<le> foldl (\<lambda>mx v. if vmatch d v then max (vscore d v) mx else mx) (-1) vs \<longleftrightarrow> (\<exists>v\<in>set vs. vmatch d v)"
proof (induction vs rule: rev_induct)
  case (snoc v vs)
  have "0 \<le> vscore d v" by (simp add: vscore_def)
  with snoc show ?case by (auto simp: le_max_iff_disj)
qed simp

definition branches_ok :: "variant_list snet_list \<Rightarrow> bool" where
  "branches_ok vls \<longleftrightarrow> list_inv vls \<and> (\<forall>vl\<in>set (list_of vls). list_inv vl \<and> 0 < lused vl \<and> (\<forall>v\<in>set (list_of vl). variant_ok v))"

lemma CheckMatch_spec:
  assumes "data_ok d" and "list_inv vl" and "0 < lused vl" and "\<forall>v\<in>set (list_of vl). variant_ok v"
  shows "\<exists>mc. CheckMatch (REC_data d) vl m0 = Ok (Some mc) \<and> is_match mc = (0 \<le> branch_score d vl) \<and>
     (is_match mc \<longrightarrow> mcount mc = branch_score d vl)"
proof -
  let ?vs = "list_of vl"
  have ne: "?vs \<noteq> []" using assms(3) by simp
  obtain mc where mc: "foldR (check_step (REC_data d)) (m0, -1) ?vs = Ok (Some mc, branch_score d vl)" "is_match mc = vmatch d (last ?vs)"
    using check_loop[OF assms(1,4), of m0 "-1"] ne by (auto simp: branch_score_def)
  have "\<not> is_match mc" if "\<not> 0 \<le> branch_score d vl"
    using that mc(2) score_loop_nonneg[of d ?vs] last_in_set[OF ne] by (auto simp: branch_score_def)
  with mc(1) show ?thesis by (simp add: CheckMatch_def LIST_FOR_EACH_list_of[OF assms(2)] del: bindR_eq_Ok)
qed

text \<open>The counters of all branches after the loop over the branches.\<close>

definition counts_scores :: "'r data_rec \<Rightarrow> match_count option list \<Rightarrow> variant_list list \<Rightarrow> bool" where
  "counts_scores d = list_all2 (\<lambda>c vl. \<exists>mc. c = Some mc \<and> is_match mc = (0 \<le> branch_score d vl) \<and> (is_match mc \<longrightarrow> mcount mc = branch_score d vl))"

lemma check_all_loop:
  assumes "data_ok d" and "branches_ok vls" and "length mcs = lused vls"
  shows "k \<le> lused vls \<Longrightarrow> \<exists>mcs'. foldR (check_all_step vls (REC_data d)) mcs [0..<k] = Ok mcs' \<and> length mcs' = length mcs \<and>
     counts_scores d (take k mcs') (take k (list_of vls))"
proof (induction k)
  case 0
  then show ?case by (simp add: counts_scores_def)
next
  case (Suc k)
  then obtain mcs' where h: "foldR (check_all_step vls (REC_data d)) mcs [0..<k] = Ok mcs'" "length mcs' = length mcs"
    "counts_scores d (take k mcs') (take k (list_of vls))" by auto
  let ?vl = "list_of vls ! k"
  have k: "k < lused vls" "list_inv vls" using Suc.prems assms(2) by (auto simp: branches_ok_def)
  then have "?vl \<in> set (list_of vls)" by simp
  then obtain mc where mc: "CheckMatch (REC_data d) ?vl (mcs' ! k) = Ok (Some mc)" "is_match mc = (0 \<le> branch_score d ?vl)"
    "is_match mc \<longrightarrow> mcount mc = branch_score d ?vl"
    using CheckMatch_spec[OF assms(1), of ?vl "mcs' ! k"] assms(2) by (auto simp: branches_ok_def)
  have "check_all_step vls (REC_data d) mcs' k = Ok (mcs'[k := Some mc])"
    using k mc(1) h(2) assms(3) by (simp add: check_all_step_def ListGet_spec)
  moreover have "take (Suc k) (mcs'[k := Some mc]) = take k mcs' @ [Some mc]" "take (Suc k) (list_of vls) = take k (list_of vls) @ [?vl]"
    using k h(2) assms(3) by (simp_all add: take_Suc_conv_app_nth)
  ultimately show ?case using h mc(2,3) by (auto simp: foldR_append counts_scores_def intro!: list_all2_appendI)
qed

lemma BestMatch_loop:
  assumes "counts_scores d cs vs"
  shows "\<exists>r mx. foldR best_step (-1, -1) (enumerate 0 cs) = Ok (r, mx) \<and>
     (if \<forall>vl\<in>set vs. branch_score d vl < 0 then r = -1 \<and> mx = -1
      else \<exists>i<length vs. r = int i \<and> mx = branch_score d (vs ! i) \<and> 0 \<le> mx \<and> (\<forall>j<length vs. branch_score d (vs ! j) \<le> mx) \<and>
        (\<forall>j<i. branch_score d (vs ! j) < mx))"
  using assms
proof (induction cs arbitrary: vs rule: rev_induct)
  case Nil
  then show ?case by (simp add: counts_scores_def)
next
  case (snoc c cs)
  then obtain us vl where vs: "vs = us @ [vl]" and cu: "counts_scores d cs us" and c: "list_all2 (\<lambda>c vl. \<exists>mc. c = Some mc \<and>
      is_match mc = (0 \<le> branch_score d vl) \<and> (is_match mc \<longrightarrow> mcount mc = branch_score d vl)) [c] [vl]"
    by (auto simp: counts_scores_def list_all2_append1 list_all2_Cons1)
  have len: "length cs = length us" using cu by (auto simp: counts_scores_def dest: list_all2_lengthD)
  obtain mc where mc: "c = Some mc" "is_match mc = (0 \<le> branch_score d vl)" "is_match mc \<longrightarrow> mcount mc = branch_score d vl" using c by auto
  obtain r mx where ih: "foldR best_step (-1, -1) (enumerate 0 cs) = Ok (r, mx)"
    "if \<forall>vl\<in>set us. branch_score d vl < 0 then r = -1 \<and> mx = -1
      else \<exists>i<length us. r = int i \<and> mx = branch_score d (us ! i) \<and> 0 \<le> mx \<and> (\<forall>j<length us. branch_score d (us ! j) \<le> mx) \<and>
        (\<forall>j<i. branch_score d (us ! j) < mx)"
    using snoc.IH[OF cu] by blast
  have st: "foldR best_step (-1, -1) (enumerate 0 (cs @ [c])) =
      Ok (if is_match mc \<and> mcount mc > mx then (int (length us), mcount mc) else (r, mx))"
    using ih(1) mc(1) len by (simp add: enumerate_append_eq foldR_append best_step_def read_counter_def)
  show ?case
  proof (cases "is_match mc \<and> mcount mc > mx")
    case True
    have "branch_score d (us ! j) < mcount mc" if j: "j < length us" for j
    proof (cases "\<forall>vl\<in>set us. branch_score d vl < 0")
      case neg: True
      then have "branch_score d (us ! j) < 0" using j by simp
      then show ?thesis using True mc(2,3) by linarith
    next
      case False
      with ih(2) j have "branch_score d (us ! j) \<le> mx" by auto
      then show ?thesis using True by linarith
    qed
    moreover note True
    ultimately show ?thesis using st vs mc(2,3)
      by - (rule exI[of _ "int (length us)"], rule exI[of _ "mcount mc"], auto simp: nth_append less_Suc_eq intro!: exI[of _ "length us"] intro: less_imp_le)
  next
    case False
    show ?thesis
    proof (cases "\<forall>vl\<in>set us. branch_score d vl < 0")
      case True
      with ih(2) have "r = -1" "mx = -1" by auto
      moreover have "branch_score d vl < 0" using False mc calculation by auto
      ultimately show ?thesis using st False vs True by auto
    next
      case h: False
      with ih(2) obtain i where i: "i < length us" "r = int i" "mx = branch_score d (us ! i)" "0 \<le> mx"
        "\<forall>j<length us. branch_score d (us ! j) \<le> mx" "\<forall>j<i. branch_score d (us ! j) < mx" by auto
      have "branch_score d vl \<le> mx" using False mc i(4) by auto
      with i h st False vs show ?thesis
        by - (rule exI[of _ "int i"], rule exI[of _ mx], auto simp: nth_append less_Suc_eq intro!: exI[of _ i])
    qed
  qed
qed

lemma BestMatch_route:
  assumes "counts_scores d cs (list_of vls)"
  shows "BestMatch cs = Ok (case route vls d of None \<Rightarrow> -1 | Some i \<Rightarrow> int i)"
    and "route vls d = Some i \<Longrightarrow> i < lused vls"
proof -
  let ?vs = "list_of vls"
  let ?sc = "map (branch_score d) ?vs"
  let ?P = "\<lambda>i. ?sc ! i \<ge> 0 \<and> (\<forall>j<length ?sc. ?sc ! j \<le> ?sc ! i)"
  have rt: "route vls d = find ?P [0..<length ?sc]" by (simp only: route_def Let_def)
  show "route vls d = Some i \<Longrightarrow> i < lused vls" by (auto simp: rt find_Some_iff)
  obtain r mx where b: "BestMatch cs = Ok r"
    "if \<forall>vl\<in>set ?vs. branch_score d vl < 0 then r = -1 \<and> mx = -1
      else \<exists>i<length ?vs. r = int i \<and> mx = branch_score d (?vs ! i) \<and> 0 \<le> mx \<and> (\<forall>j<length ?vs. branch_score d (?vs ! j) \<le> mx) \<and>
        (\<forall>j<i. branch_score d (?vs ! j) < mx)"
    using BestMatch_loop[OF assms] by (auto simp: BestMatch_def)
  show "BestMatch cs = Ok (case route vls d of None \<Rightarrow> -1 | Some i \<Rightarrow> int i)"
  proof (cases "\<forall>vl\<in>set ?vs. branch_score d vl < 0")
    case True
    then have "\<not> ?P i" if "i < length ?sc" for i
      using that by (metis leD length_map nth_map nth_mem)
    then have "route vls d = None" unfolding rt by (auto simp: find_None_iff)
    with b True show ?thesis by simp
  next
    case False
    with b(2) obtain i where i: "i < length ?vs" "r = int i" "mx = branch_score d (?vs ! i)" "0 \<le> mx"
      "\<forall>j<length ?vs. branch_score d (?vs ! j) \<le> mx" "\<forall>j<i. branch_score d (?vs ! j) < mx" by auto
    have "?P i" using i by simp
    moreover have "\<not> ?P j" if "j < i" for j using i that by (auto simp: not_le)
    ultimately have "route vls d = Some i"
      unfolding rt find_Some_iff using i(1) by (intro exI[of _ i]) auto
    with b(1) i(2) show ?thesis by simp
  qed
qed

lemma route_None:
  assumes "route vls d = None" and "vl \<in> set (list_of vls)"
  shows "branch_score d vl < 0"
proof (rule ccontr)
  assume n: "\<not> branch_score d vl < 0"
  let ?sc = "map (branch_score d) (list_of vls)"
  have "?sc \<noteq> []" using length_pos_if_in_set[OF assms(2)] by auto
  then have "Max (set ?sc) \<in> set ?sc" by (intro Max_in) auto
  then obtain i where i: "i < length ?sc" "?sc ! i = Max (set ?sc)" by (meson in_set_conv_nth)
  moreover have "?sc ! j \<le> ?sc ! i" if "j < length ?sc" for j using that i(2) by (metis List.finite_set Max_ge nth_mem)
  moreover have "branch_score d vl \<le> Max (set ?sc)" using assms(2) by (intro Max_ge) auto
  then have "0 \<le> ?sc ! i" using n i(2) by linarith
  ultimately have "find (\<lambda>i. ?sc ! i \<ge> 0 \<and> (\<forall>j<length ?sc. ?sc ! j \<le> ?sc ! i)) [0..<length ?sc] \<noteq> None"
    by (auto simp only: find_None_iff set_upt atLeastLessThan_iff)
  with assms(1) show False by (simp only: route_def Let_def)
qed

lemma route_Some:
  assumes "route vls d = Some i"
  shows "i < lused vls" and "0 \<le> branch_score d (list_of vls ! i)"
    and "\<forall>j<lused vls. branch_score d (list_of vls ! j) \<le> branch_score d (list_of vls ! i)"
    and "\<forall>j<i. branch_score d (list_of vls ! j) < branch_score d (list_of vls ! i)"
proof -
  let ?sc = "map (branch_score d) (list_of vls)"
  let ?P = "\<lambda>i. ?sc ! i \<ge> 0 \<and> (\<forall>j<length ?sc. ?sc ! j \<le> ?sc ! i)"
  have "find ?P [0..<length ?sc] = Some i" using assms by (simp only: route_def Let_def)
  then have f: "i < length ?sc" "?P i" "\<And>j. j < i \<Longrightarrow> \<not> ?P j" by (auto simp: find_Some_iff)
  show b: "i < lused vls" "0 \<le> branch_score d (list_of vls ! i)"
    "\<forall>j<lused vls. branch_score d (list_of vls ! j) \<le> branch_score d (list_of vls ! i)" using f(1,2) by auto
  show "\<forall>j<i. branch_score d (list_of vls ! j) < branch_score d (list_of vls ! i)"
  proof (intro allI impI)
    fix j assume j: "j < i"
    have "?sc ! j \<noteq> ?sc ! i" using f(2) f(3)[OF j] by metis
    moreover have "?sc ! j \<le> ?sc ! i" using f(1,2) j by simp
    ultimately show "branch_score d (list_of vls ! j) < branch_score d (list_of vls ! i)" using j f(1) by simp
  qed
qed

text \<open>
  The dispatcher without initialiser branches: every branch has a type, some branches may have been closed. In \<open>par_ok\<close>
  all of them are open.
\<close>

definition par_live :: "variant_list snet_list \<Rightarrow> par_state \<Rightarrow> bool" where
  "par_live vls s \<longleftrightarrow> branches_ok vls \<and> length (par_outs s) = lused vls \<and>
     length (matchcounter s) = lused vls \<and> length (usedcounter s) = lused vls \<and> \<not> par_done s"

definition par_ok :: "variant_list snet_list \<Rightarrow> par_state \<Rightarrow> bool" where
  "par_ok vls s \<longleftrightarrow> branches_ok vls \<and> par_outs s = map (\<lambda>i. Some (Sd i)) [0..<lused vls] \<and>
     length (matchcounter s) = lused vls \<and> length (usedcounter s) = lused vls \<and> \<not> par_done s"

definition below :: "int \<Rightarrow> par_state \<Rightarrow> bool" where
  "below B s \<longleftrightarrow> 0 \<le> par_counter s \<and> par_counter s \<le> B \<and> (\<forall>u\<in>set (usedcounter s). 0 \<le> u \<and> u \<le> B)"

lemma par_data_best:
  fixes d :: "'r data_rec"
  assumes "par_live vls s" and "data_ok d" and "below B s" and "B < 2 ^ 31 - 1"
  shows "case route vls d of
      None \<Rightarrow> par_round is_det vls s (REC_data d) = (Err FatalError :: (par_state \<times> 'r action list) res)
    | Some i \<Rightarrow> i < lused vls \<and> (\<exists>s'. par_round is_det vls s (REC_data d) =
          Ok (s', (case par_outs s ! i of None \<Rightarrow> [] | Some sd \<Rightarrow> [SWrite sd (REC_data d)]) @
            (if is_det then write_open (par_outs s) (REC_sort_end 0 (par_counter s)) else [])) \<and>
        par_live vls s' \<and> par_outs s' = par_outs s \<and> below (B + 1) s' \<and> par_counter s' = (if is_det then par_counter s + 1 else par_counter s))"
proof -
  have ok: "branches_ok vls" and len: "length (par_outs s) = lused vls" "length (matchcounter s) = lused vls" "length (usedcounter s) = lused vls"
    and nd: "\<not> par_done s" using assms(1) by (simp_all add: par_live_def)
  obtain mcs where m: "foldR (check_all_step vls (REC_data d)) (matchcounter s) [0..<lused vls] = Ok mcs" "length mcs = lused vls"
    "counts_scores d mcs (list_of vls)"
    using check_all_loop[OF assms(2) ok len(2), of "lused vls"] len(2) by auto
  note best = BestMatch_route(1)[OF m(3)]
  show ?thesis
  proof (cases "route vls d")
    case None
    then show ?thesis using m(1) best by (simp add: par_data_def ListLength_def)
  next
    case (Some i)
    have i: "i < lused vls" by (rule BestMatch_route(2)[OF m(3) Some])
    have c: "c_int (par_counter s + 1) = Ok (par_counter s + 1)" using assms(3,4) by (simp add: below_def int_range_def)
    have ui: "0 \<le> usedcounter s ! i" "usedcounter s ! i \<le> B" using assms(3) len(3) i by (auto simp: below_def)
    then have u: "c_int (usedcounter s ! i + 1) = Ok (usedcounter s ! i + 1)" using assms(4) by (simp add: int_range_def)
    let ?c = "if is_det then par_counter s + 1 else par_counter s"
    let ?s = "s\<lparr>matchcounter := mcs, par_counter := ?c, usedcounter := (usedcounter s)[i := usedcounter s ! i + 1]\<rparr>"
    let ?as = "(case par_outs s ! i of None \<Rightarrow> [] | Some sd \<Rightarrow> [SWrite sd (REC_data d)]) @ (if is_det then write_open (par_outs s) (REC_sort_end 0 (par_counter s)) else [])"
    have put: "PutToBuffers (par_outs s) i (REC_data d) (det_counter is_det (par_counter s)) = Ok (if is_det then Some (par_counter s + 1) else None, ?as)"
      using i c len(1) by (simp add: PutToBuffers_def det_counter_def Let_def)
    have "par_round is_det vls s (REC_data d) = Ok (?s, ?as)"
      using Some m(1) best put u i len(3) by (simp add: par_data_def ListLength_def counter_of_def c_int_in_range del: bindR_eq_Ok)
    moreover have "par_live vls ?s" using ok len m(2) nd by (simp add: par_live_def)
    moreover have "below (B + 1) ?s" using assms(3) ui by (auto simp: below_def dest!: set_update_subset_insert[THEN subsetD])
    ultimately show ?thesis using Some i by (auto del: bindR_eq_Ok)
  qed
qed

lemma par_data_routed:
  fixes d :: "'r data_rec"
  assumes "par_ok vls s" and "data_ok d" and "below B s" and "B < 2 ^ 31 - 1"
  shows "case route vls d of
      None \<Rightarrow> par_round is_det vls s (REC_data d) = (Err FatalError :: (par_state \<times> 'r action list) res)
    | Some i \<Rightarrow> i < lused vls \<and> (\<exists>s'. par_round is_det vls s (REC_data d) =
          Ok (s', SWrite (Sd i) (REC_data d) # (if is_det then map (\<lambda>j. SWrite (Sd j) (REC_sort_end 0 (par_counter s))) [0..<lused vls] else [])) \<and>
        par_ok vls s' \<and> below (B + 1) s' \<and> par_counter s' = (if is_det then par_counter s + 1 else par_counter s))"
proof -
  have outs: "par_outs s = map (\<lambda>i. Some (Sd i)) [0..<lused vls]" and live: "par_live vls s" using assms(1) by (simp_all add: par_ok_def par_live_def)
  have all: "write_open (par_outs s) r = map (\<lambda>j. SWrite (Sd j) r) [0..<lused vls]" for r :: "'r snet_record"
    by (simp add: write_open_def outs comp_def)
  have ok: "par_ok vls s'" if "par_live vls s'" "par_outs s' = par_outs s" for s' using that outs by (simp add: par_ok_def par_live_def)
  show ?thesis
  proof (cases "route vls d")
    case None
    with par_data_best[OF live assms(2-4), of is_det] show ?thesis by simp
  next
    case (Some i)
    with par_data_best[OF live assms(2-4), of is_det] have i: "i < lused vls" by simp
    then have "(case par_outs s ! i of None \<Rightarrow> [] | Some sd \<Rightarrow> [SWrite sd (REC_data d)]) = [SWrite (Sd i) (REC_data d)]" by (simp add: outs)
    with par_data_best[OF live assms(2-4), of is_det] Some i ok show ?thesis unfolding Some option.case all by auto
  qed
qed

section \<open>What the branches receive\<close>

lemma written_broadcast [simp]: "written (Sd i) (map (\<lambda>j. SWrite (Sd j) r) [0..<n]) = (if i < n then [r] else [])"
  by (induction n) auto

lemma init_loop:
  assumes "branches_ok vls"
  shows "k \<le> lused vls \<Longrightarrow> foldR (init_step is_det vls) (map (\<lambda>i. Some (Sd i)) [0..<lused vls], 0, 0, [] :: 'a action list) [0..<k] =
     Ok (map (\<lambda>i. Some (Sd i)) [0..<lused vls], 0, 0, map (\<lambda>i. SWrite (Sd i) (REC_sort_end 0 0)) [0..<k])"
proof (induction k)
  case (Suc k)
  then have k: "k < lused vls" "list_inv vls" "lused (list_of vls ! k) \<noteq> 0" using assms by (auto simp: branches_ok_def)
  then have "init_step is_det vls (map (\<lambda>i. Some (Sd i)) [0..<lused vls], 0, 0, as) k =
      Ok (map (\<lambda>i. Some (Sd i)) [0..<lused vls], 0, 0, as @ [SWrite (Sd k) (REC_sort_end 0 0)])" for as :: "'a action list"
    by (simp add: init_step_def ListGet_spec ListLength_def del: upt_Suc)
  then show ?case using Suc by (simp add: foldR_append)
qed simp

lemma par_start_branches:
  assumes "branches_ok vls" and "2 \<le> lused vls"
  shows "\<exists>s. par_start is_det vls input = Ok (s, map (\<lambda>i. SWrite (Sd i) (REC_sort_end 0 0 :: 'r snet_record)) [0..<lused vls]) \<and>
     par_ok vls s \<and> par_counter s = 1 \<and> below 1 s"
proof -
  let ?s = "\<lparr>par_outs = map (\<lambda>i. Some (Sd i)) [0..<lused vls], matchcounter = replicate (lused vls) None,
      usedcounter = replicate (lused vls) 0, par_counter = 1, par_input = input, par_done = False\<rparr>"
  have "par_start is_det vls input = Ok (?s, map (\<lambda>i. SWrite (Sd i) (REC_sort_end 0 0 :: 'r snet_record)) [0..<lused vls])"
    using assms(2)
    by (simp add: init_loop[OF assms(1)] par_start_def ListLength_def Let_def int_range_def c_int_def del: upt_Suc bindR_eq_Ok)
  moreover have "par_ok vls ?s" "below 1 ?s" using assms(1) by (auto simp: par_ok_def below_def)
  ultimately show ?thesis by (intro exI[of _ ?s]) simp
qed

text \<open>Input of the dispatcher: routable data records, sort records, and the termination record.\<close>

fun disp_input :: "variant_list snet_list \<Rightarrow> 'r snet_record list \<Rightarrow> bool" where
  "disp_input vls (REC_data d # rs) = (data_ok d \<and> route vls d \<noteq> None \<and> disp_input vls rs)"
| "disp_input vls (REC_sort_end l n # rs) = (0 \<le> l \<and> int_range (l + 1) \<and> disp_input vls rs)"
| "disp_input vls [REC_terminate b] = True"
| "disp_input vls _ = False"

text \<open>The records that branch \<open>i\<close> of a deterministic dispatcher gets, from counter value \<open>c\<close> on.\<close>

fun branch_view :: "variant_list snet_list \<Rightarrow> nat \<Rightarrow> int \<Rightarrow> 'r snet_record list \<Rightarrow> 'r snet_record list" where
  "branch_view vls i c (REC_data d # rs) =
     (if route vls d = Some i then [REC_data d] else []) @ REC_sort_end 0 c # branch_view vls i (c + 1) rs"
| "branch_view vls i c (REC_sort_end l n # rs) = REC_sort_end (l + 1) n # branch_view vls i c rs"
| "branch_view vls i c rs = rs"

fun view_rounds :: "int \<Rightarrow> 'r snet_record list \<Rightarrow> (int \<times> int) list" where
  "view_rounds c (REC_data d # rs) = (0, c) # view_rounds (c + 1) rs"
| "view_rounds c (REC_sort_end l n # rs) = (l + 1, n) # view_rounds c rs"
| "view_rounds c _ = []"

lemma branch_view_rounds: "disp_input vls rs \<Longrightarrow> rounds_of (view_rounds c rs) (branch_view vls i c rs)"
proof (induction vls rs arbitrary: c rule: disp_input.induct)
  case (1 vls d rs)
  then show ?case by auto
qed auto

lemma view_rounds_counter: "disp_input vls rs \<Longrightarrow> 0 \<le> c \<Longrightarrow> (0, -1) \<notin> set (view_rounds c rs)"
  by (induction vls rs arbitrary: c rule: disp_input.induct) auto

lemma par_run_views:
  assumes "disp_input vls rs" and "par_ok vls s" and "below B s" and "B + int (length rs) < 2 ^ 31"
  shows "\<exists>s' as. run_task par_done (par_round True vls) s rs = Ok (s', as) \<and> par_done s' \<and>
     (\<forall>i<lused vls. written (Sd i) as = branch_view vls i (par_counter s) rs)"
  using assms
proof (induction vls rs arbitrary: s B rule: disp_input.induct)
  case (1 vls d rs)
  then obtain i where i: "route vls d = Some i" by auto
  have B: "B < 2 ^ 31 - 1" using "1.prems"(4) by simp
  from par_data_routed[OF "1.prems"(2) _ "1.prems"(3) B, of d True] i "1.prems"(1)
  obtain s1 where s1: "par_round True vls s (REC_data d) =
      Ok (s1, SWrite (Sd i) (REC_data d) # map (\<lambda>j. SWrite (Sd j) (REC_sort_end 0 (par_counter s))) [0..<lused vls])"
    "par_ok vls s1" "below (B + 1) s1" "par_counter s1 = par_counter s + 1" "i < lused vls" by auto
  obtain s' as where r: "run_task par_done (par_round True vls) s1 rs = Ok (s', as)" "par_done s'"
    "\<forall>i<lused vls. written (Sd i) as = branch_view vls i (par_counter s1) rs"
    using "1.IH"[OF _ s1(2,3)] "1.prems"(1,4) by auto
  have "\<not> par_done s" using "1.prems"(2) by (simp add: par_ok_def)
  with s1 r i show ?case by (auto simp del: par_round.simps)
next
  case (2 vls l n rs)
  have s: "\<not> par_done s" "par_outs s = map (\<lambda>i. Some (Sd i)) [0..<lused vls]" using "2.prems"(2) by (simp_all add: par_ok_def)
  have "par_round True vls s (REC_sort_end l n :: 'a snet_record) = Ok (s, map (\<lambda>j. SWrite (Sd j) (REC_sort_end (l + 1) n)) [0..<lused vls])"
    using "2.prems"(1) s(2) by (simp add: write_open_def comp_def c_int_in_range)
  moreover obtain s' as where "run_task par_done (par_round True vls) s rs = Ok (s', as)" "par_done s'"
    "\<forall>i<lused vls. written (Sd i) as = branch_view vls i (par_counter s) rs"
    using "2.IH"[OF _ "2.prems"(2,3)] "2.prems"(1,4) by auto
  ultimately show ?case using s(1) by (auto simp del: par_round.simps)
next
  case (3 vls b)
  then show ?case by (auto simp: par_ok_def write_open_def comp_def)
qed simp_all

section \<open>Dispatcher and collector\<close>

lemma merged_cong: "merged C f out \<Longrightarrow> (\<And>c. c \<in> C \<Longrightarrow> f c = g c) \<Longrightarrow> merged C g out"
proof (induction arbitrary: g rule: merged.induct)
  case (merged_data c f d rs out)
  have "merged C (g(c := rs)) out" by (rule merged_data.IH) (use merged_data.prems in auto)
  then show ?case using merged_data(1,2) merged_data.prems by (intro merged.merged_data[of c]) auto
next
  case (merged_sort f l n h out)
  then show ?case by (intro merged.merged_sort[of _ _ _ _ h]) auto
next
  case (merged_term f c b)
  then show ?case by (intro merged.merged_term[of _ _ c]) auto
qed

lemma merged_all_sort:
  assumes "merged C f out" and "\<And>c. c \<in> C \<Longrightarrow> f c = REC_sort_end l n # g c" and "C \<noteq> {}"
  shows "\<exists>out'. out = sort_out l n @ out' \<and> merged C g out'"
  using assms(1)
proof (cases rule: merged.cases)
  case (merged_sort l' n' h out')
  obtain c where "c \<in> C" using assms(3) by blast
  with merged_sort(2) assms(2)[of c] have "l' = l" "n' = n" by auto
  moreover have "merged C g out'"
    by (rule merged_cong[OF merged_sort(3)]) (use merged_sort(2) assms(2) in force)
  ultimately show ?thesis using merged_sort(1) by blast
qed (use assms(2,3) in auto)

lemma merged_views:
  assumes "merged C f out" and "\<And>i. i \<in> C \<Longrightarrow> f i = branch_view vls i c rs" and "C = {..<lused vls}" and "disp_input vls rs"
    and "0 < lused vls"
  shows "out = rs"
  using assms(4,1,2,3,5)
proof (induction vls rs arbitrary: f c out rule: disp_input.induct)
  case (1 vls d rs)
  obtain i where i: "route vls d = Some i" using "1.prems"(1) by auto
  have iC: "i \<in> C" using i "1.prems"(4) by (auto simp: route_def Let_def find_Some_iff)
  have ne: "C \<noteq> {}" using iC by auto
  have fi: "f i = REC_data d # REC_sort_end 0 c # branch_view vls i (c + 1) rs" using "1.prems"(3)[OF iC] i by simp
  have fj: "f j = REC_sort_end 0 c # branch_view vls j (c + 1) rs" if "j \<in> C" "j \<noteq> i" for j using "1.prems"(3)[OF that(1)] that(2) i by simp
  from "1.prems"(2) show ?case
  proof (cases rule: merged.cases)
    case (merged_data j d' rs' out')
    have j: "j = i" using fj[of j] merged_data(2,3) by (cases "j = i") auto
    have "\<exists>out''. out' = sort_out 0 c @ out'' \<and> merged C (\<lambda>j. branch_view vls j (c + 1) rs) out''"
      by (rule merged_all_sort[OF merged_data(4) _ ne]) (use fi fj j merged_data(3) in auto)
    then have "merged C (\<lambda>j. branch_view vls j (c + 1) rs) out'" by (auto simp: sort_out_def)
    then have "out' = rs" using "1.IH"[OF _ _ _ "1.prems"(4,5)] "1.prems"(1) by auto
    then show ?thesis using merged_data(1,3) fi j by auto
  next
    case (merged_sort l n g out')
    then show ?thesis using fi iC by auto
  next
    case (merged_term j b)
    then show ?thesis using merged_term(2)[OF iC] fi by simp
  qed
next
  case (2 vls l n rs)
  have ne: "C \<noteq> {}" using "2.prems"(4,5) by auto
  have "\<exists>out'. out = sort_out (l + 1) n @ out' \<and> merged C (\<lambda>i. branch_view vls i c rs) out'"
    by (rule merged_all_sort[OF "2.prems"(2) _ ne]) (use "2.prems"(3) in auto)
  then obtain out' where o: "out = sort_out (l + 1) n @ out'" "merged C (\<lambda>i. branch_view vls i c rs) out'" by blast
  have "out' = rs" using "2.IH"[OF _ o(2) _ "2.prems"(4,5)] "2.prems"(1) by auto
  then show ?case using o(1) "2.prems"(1) by (simp add: sort_out_def)
next
  case (3 vls b)
  obtain i where iC: "i \<in> C" using "3.prems"(4,5) by auto
  have f: "f j = [REC_terminate b]" if "j \<in> C" for j using "3.prems"(3)[OF that] by simp
  from "3.prems"(2) show ?case
  proof (cases rule: merged.cases)
    case (merged_data j d' rs' out')
    then show ?thesis using f by auto
  next
    case (merged_sort l n g out')
    then show ?thesis using f iC by auto
  next
    case (merged_term j b')
    then show ?thesis using f by auto
  qed
qed auto

text \<open>
  C27. In a dispatcher without initialiser branches, a data record goes to the branch with the highest
  score, and to the first one of these, and to no other: it is written to that branch if the branch is open and dropped
  if it has been closed. With a deterministic dispatcher a sort
  record with the current counter follows on every open branch. A record that no branch matches is a
  fatal error. The counters of the dispatcher are below the greatest \<open>int\<close>.
\<close>

theorem parallel_routes_best:
  fixes d :: "'r data_rec"
  assumes "par_live vls s" and "data_ok d" and "below B s" and "B < 2 ^ 31 - 1"
  shows "(\<exists>i s'. i < lused vls \<and> 0 \<le> branch_score d (list_of vls ! i) \<and>
        (\<forall>j<lused vls. branch_score d (list_of vls ! j) \<le> branch_score d (list_of vls ! i)) \<and>
        (\<forall>j<i. branch_score d (list_of vls ! j) < branch_score d (list_of vls ! i)) \<and>
        par_round is_det vls s (REC_data d) =
          Ok (s', (case par_outs s ! i of None \<Rightarrow> [] | Some sd \<Rightarrow> [SWrite sd (REC_data d)]) @
            (if is_det then concat (map (\<lambda>out. case out of None \<Rightarrow> [] | Some sd \<Rightarrow> [SWrite sd (REC_sort_end 0 (par_counter s))]) (par_outs s)) else [])) \<and>
        par_live vls s' \<and> par_outs s' = par_outs s \<and> par_counter s' = (if is_det then par_counter s + 1 else par_counter s)) \<or>
     (\<forall>vl\<in>set (list_of vls). branch_score d vl < 0) \<and>
        par_round is_det vls s (REC_data d) = (Err FatalError :: (par_state \<times> 'r action list) res)"
proof (cases "route vls d")
  case None
  with par_data_best[OF assms, of is_det] route_None[OF None] show ?thesis by auto
next
  case (Some i)
  with par_data_best[OF assms, of is_det] route_Some[OF Some] show ?thesis
    unfolding write_open_def[symmetric] by (auto simp del: par_round.simps)
qed

text \<open>Two branches, for records with field 1 and for records with field 2.\<close>

definition par_example :: "variant_list snet_list" where
  "par_example = pat_list [pat_list [field_pat [1]], pat_list [field_pat [2]]]"

lemma par_example_simps [simp]:
  "branches_ok par_example" "lused par_example = 2" "list_of par_example = [pat_list [field_pat [1]], pat_list [field_pat [2]]]"
  by (simp_all add: par_example_def branches_ok_def)

lemma par_example_score:
  "distinct (map fst fs) \<Longrightarrow> branch_score (field_rec fs) (pat_list [field_pat [n]]) = (if n \<in> fst ` set fs then 1 else -1)"
  by (auto simp: branch_score_def vmatch_def vscore_def dom_map_of_conv_image_fst)
    (simp_all add: field_pat_def field_rec_def SNetVariantCreate_def map_from_def int_list_def)

theorem parallel_routes_best_witness:
  "let s = \<lparr>par_outs = [None, Some (Sd 1)], matchcounter = [None, None], usedcounter = [0, 0], par_counter = 1, par_input = 3, par_done = False\<rparr> in
   par_live par_example s \<and> (\<exists>s'. par_round True par_example s (REC_data (field_rec [(2, 5)])) =
     Ok (s', [SWrite (Sd 1) (REC_data (field_rec [(2, 5)])), SWrite (Sd 1) (REC_sort_end 0 1)]))"
proof -
  let ?s = "\<lparr>par_outs = [None, Some (Sd 1)], matchcounter = [None, None], usedcounter = [0, 0], par_counter = 1, par_input = 3, par_done = False\<rparr>"
  have ok: "par_live par_example ?s" by (simp add: par_live_def)
  have "data_ok (field_rec [(2, 5)])" "below 1 ?s" "(1::int) < 2 ^ 31 - 1" by (simp_all add: below_def)
  from parallel_routes_best[OF ok this, of True] ok show ?thesis
    unfolding Let_def by (auto simp: par_example_score less_Suc_eq numeral_2_eq_2 simp del: par_round.simps)
qed

text \<open>
  C5. A deterministic parallel network of at least two branches that pass records on unchanged is
  the identity: for every input of routable data records, sort records and a final termination
  record, the dispatcher ends without error, and every finished run of the collector on the streams
  of its branches has written exactly the input, in the order of the input, whatever the
  interleaving of the branches.
\<close>

theorem parallel_det_order:
  fixes rs :: "'r snet_record list"
  assumes "branches_ok vls" and "2 \<le> lused vls" and "disp_input vls rs" and "int (length rs) < 2 ^ 31 - 1"
  shows "\<exists>s as. ParallelBoxTask True vls input rs = Ok (s, as) \<and> par_done s \<and>
     (\<forall>inputs pend c pend' out. length inputs = lused vls \<longrightarrow> distinct inputs \<longrightarrow> (\<forall>i<lused vls. pend (inputs ! i) = written (Sd i) as) \<longrightarrow>
        (coll_step True)\<^sup>*\<^sup>* (coll_start inputs (\<lambda>_. []), pend, []) (c, pend', out) \<longrightarrow> coll_done c \<longrightarrow> out = rs)"
proof -
  obtain s0 where s0: "par_start True vls input = Ok (s0, map (\<lambda>i. SWrite (Sd i) (REC_sort_end 0 0 :: 'r snet_record)) [0..<lused vls])"
    "par_ok vls s0" "par_counter s0 = 1" "below 1 s0" using par_start_branches[OF assms(1,2)] by blast
  obtain s as where r: "run_task par_done (par_round True vls) s0 rs = Ok (s, as)" "par_done s"
    "\<forall>i<lused vls. written (Sd i) as = branch_view vls i 1 rs"
    using par_run_views[OF assms(3) s0(2,4)] assms(4) s0(3) by auto
  let ?as = "map (\<lambda>i. SWrite (Sd i) (REC_sort_end 0 0)) [0..<lused vls] @ as @ close_open (par_outs s)"
  have cl: "written (Sd i) (close_open outs) = []" for i outs by (induction outs) (auto simp: close_open_def split: option.splits)
  have w: "written (Sd i) ?as = REC_sort_end 0 0 # branch_view vls i 1 rs" if "i < lused vls" for i using that r(3) cl by simp
  have "ParallelBoxTask True vls input rs = Ok (s, ?as)" using s0(1) r(1,2) by (simp add: ParallelBoxTask_def del: bindR_eq_Ok)
  moreover have "out = rs" if h: "length inputs = lused vls" "distinct inputs" "\<forall>i<lused vls. pend (inputs ! i) = written (Sd i) ?as"
    "(coll_step True)\<^sup>*\<^sup>* (coll_start inputs (\<lambda>_. []), pend, []) (c, pend', out)" "coll_done c" for inputs pend c pend' out
  proof -
    let ?ks = "(0, 0) # view_rounds 1 rs"
    have "merged {..<length inputs} (\<lambda>i. pend (inputs ! i)) out"
      by (rule coll_run_merged[where pend = pend and ks = ?ks, OF _ h(2) _ _ _ h(4,5)])
        (use h(1,3) w assms(2,3) branch_view_rounds view_rounds_counter[OF assms(3), of 1] in auto)
    then obtain out' where o: "out = sort_out 0 0 @ out'" "merged {..<lused vls} (\<lambda>i. branch_view vls i 1 rs) out'"
      using merged_all_sort[of "{..<lused vls}" "\<lambda>i. pend (inputs ! i)" out 0 0 "\<lambda>i. branch_view vls i 1 rs"] w h(1,3) assms(2)
      by (auto simp: lessThan_empty_iff)
    have "out' = rs" by (rule merged_views[OF o(2) _ refl assms(3)]) (use assms(2) in auto)
    with o(1) show ?thesis by (simp add: sort_out_def)
  qed
  ultimately show ?thesis using r(2) by blast
qed

theorem parallel_det_order_witness:
  "\<exists>s as. ParallelBoxTask True par_example 9 [REC_data (field_rec [(2, 5)]), REC_sort_end 0 4, REC_terminate False] = Ok (s, as) \<and> par_done s"
proof -
  have "route par_example (field_rec [(2, 5)]) \<noteq> None" using route_None[of par_example "field_rec [(2, 5)]" "pat_list [field_pat [2]]"] par_example_score[of "[(2, 5)]" 2] by auto
  then have "disp_input par_example [REC_data (field_rec [(2, 5)]), REC_sort_end 0 4, REC_terminate False]" by (simp add: int_range_def)
  from parallel_det_order[OF par_example_simps(1) _ this, of 9] show ?thesis by auto
qed

section \<open>Failures\<close>

lemma foldR_Ok_step:
  assumes "foldR f s xs = Ok t" and "i < length xs"
  shows "\<exists>u v. foldR f s (take i xs) = Ok u \<and> f u (xs ! i) = Ok v"
proof -
  have "xs = take i xs @ xs ! i # drop (Suc i) xs" using assms(2) by (rule id_take_nth_drop)
  then have "foldR f s (take i xs @ xs ! i # drop (Suc i) xs) = Ok t" using assms(1) by simp
  then show ?thesis by (auto simp: foldR_append)
qed

lemma end_branch_keeps:
  assumes "foldR (end_branch_step v vls) (outs, as) ks = Ok (outs', as')" and "outs ! i = None"
  shows "outs' ! i = None"
  using assms
proof (induction ks arbitrary: outs as)
  case (Cons k ks)
  then obtain o1 a1 where s: "end_branch_step v vls (outs, as) k = Ok (o1, a1)" "foldR (end_branch_step v vls) (o1, a1) ks = Ok (outs', as')" by auto
  have "o1 = outs \<or> o1 = outs[k := None] \<and> k < length outs"
    using s(1) by (auto simp: end_branch_step_def split: if_splits option.splits)
  then have "o1 ! i = None" using Cons.prems(2) by (cases "k = i") auto
  with s(2) show ?case by (rule Cons.IH)
qed simp

text \<open>
  A sync record with a type makes the dispatcher write to every branch whose variants all have
  the labels of that type, without a test whether the branch is still open. An initialiser branch has
  no variants, so that the condition holds for it, and its descriptor is NULL since the start: a
  dispatcher with an initialiser branch fails on every such record.
\<close>

lemma parallel_sync_initialiser_fails:
  assumes "list_inv vls" and "i < lused vls" and "list_inv (list_of vls ! i)" and "lused (list_of vls ! i) = 0" and "par_outs s ! i = None"
  shows "\<nexists>p. par_round is_det vls s (REC_sync st (Some v) :: 'r snet_record) = Ok p"
proof
  assume "\<exists>p. par_round is_det vls s (REC_sync st (Some v) :: 'r snet_record) = Ok p"
  then obtain outs and as :: "'r action list" where "foldR (end_branch_step v vls) (par_outs s, []) [0..<lused vls] = Ok (outs, as)"
    by (auto simp: par_sync_def ListLength_def)
  from foldR_Ok_step[OF this, of i] assms(2)
  obtain o1 and a1 :: "'r action list" and q where o: "foldR (end_branch_step v vls) (par_outs s, []) (take i [0..<lused vls]) = Ok (o1, a1)"
    "end_branch_step v vls (o1, a1) i = Ok q" by auto
  have "o1 ! i = None" by (rule end_branch_keeps[OF o(1) assms(5)])
  moreover have e: "list_of (list_of vls ! i) = []" using assms(4) by simp
  have "VariantIsSupertypeOfAllOthers v (list_of vls ! i) = Ok True"
    by (simp only: VariantIsSupertypeOfAllOthers_def LIST_FOR_EACH_list_of[OF assms(3)] e bindR.simps supertype_loop.simps)
  ultimately show False using o(2) assms(1,2) by (auto simp: end_branch_step_def ListGet_spec split: if_splits)
qed

text \<open>The unused dispatch strategy writes behind its array as soon as there is one matching branch only.\<close>

lemma weighted_round_robin_overflow:
  "0 \<le> mcount mc \<Longrightarrow> is_match mc \<Longrightarrow> WeightedRoundRobin [Some mc] used = Err OutOfBounds"
  by (simp add: WeightedRoundRobin_def robin_step_def read_counter_def arr_write_def)

end
