(* ===== verification/Snet_Filter.thy ===== *)
theory Snet_Filter
  imports Entity
begin

text \<open>
  Filters and name shifts (\<open>runtime/stream/entity/filter.c\<close>): the filter instructions, the filter
  task, which builds the output records of the first guard that holds, and the name shift task, which
  renames labels by an offset.
\<close>

section \<open>Instructions\<close>

datatype snet_filter_opcode = snet_tag | snet_btag | snet_field | create_record

text \<open>\<open>None\<close> is a member that the creation of the instruction leaves uninitialised.\<close>

record filter_instr =
  opcode :: snet_filter_opcode
  instr_name :: "int option"
  newName :: "int option"
  instr_expr :: snet_expr

datatype filter_args =
    FArgs_create_record
  | FArgs_tag int snet_expr
  | FArgs_btag int snet_expr
  | FArgs_field int int

fun SNetCreateFilterInstruction :: "filter_args \<Rightarrow> filter_instr" where
  "SNetCreateFilterInstruction FArgs_create_record =
     \<lparr>opcode = create_record, instr_name = None, newName = None, instr_expr = E_NULL\<rparr>"
| "SNetCreateFilterInstruction (FArgs_tag n e) = \<lparr>opcode = snet_tag, instr_name = Some n, newName = None, instr_expr = e\<rparr>"
| "SNetCreateFilterInstruction (FArgs_btag n e) = \<lparr>opcode = snet_btag, instr_name = Some n, newName = None, instr_expr = e\<rparr>"
| "SNetCreateFilterInstruction (FArgs_field m n) =
     \<lparr>opcode = snet_field, instr_name = Some n, newName = Some m, instr_expr = E_NULL\<rparr>"

definition member :: "int option \<Rightarrow> int res" where
  "member x = (case x of None \<Rightarrow> Err UninitRead | Some n \<Rightarrow> Ok n)"

section \<open>The filter task\<close>

type_synonym instr_list = "filter_instr snet_list"

text \<open>\<open>filter_instructions\<close> is an array with one list of instruction lists per guard.\<close>

record filter_arg =
  input_variant :: snet_variant
  guard_exprs :: "snet_expr snet_list"
  filter_instructions :: "instr_list snet_list list"

definition FilterIsBypass :: "filter_arg \<Rightarrow> bool res" where
  "FilterIsBypass farg =
     (if \<not> SNetVariantIsEmpty (input_variant farg) \<or> ListLength (guard_exprs farg) \<noteq> 1 then Ok False else
      case filter_instructions farg of
        [] \<Rightarrow> Err OutOfBounds
      | ils # _ \<Rightarrow>
          if ListLength ils \<noteq> 1 then Ok False else
          bindR (ListGet ils 0) (\<lambda>instr_list.
          if ListLength instr_list \<noteq> 1 then Ok False else
          bindR (ListGet instr_list 0) (\<lambda>instr. Ok (opcode instr = create_record))))"

definition instr_step :: "('r \<Rightarrow> 'r) \<Rightarrow> 'r snet_record \<Rightarrow> 'r snet_record \<Rightarrow> filter_instr \<Rightarrow> 'r snet_record res" where
  "instr_step refCopy in_rec out_rec instr =
     (case opcode instr of
        snet_tag \<Rightarrow> bindR (member (instr_name instr)) (\<lambda>n. bindR (SNetEevaluateInt (instr_expr instr) in_rec) (SNetRecSetTag out_rec n))
      | snet_btag \<Rightarrow> bindR (member (instr_name instr)) (\<lambda>n. bindR (SNetEevaluateInt (instr_expr instr) in_rec) (SNetRecSetBTag out_rec n))
      | snet_field \<Rightarrow>
          bindR (member (newName instr)) (\<lambda>m. bindR (member (instr_name instr)) (\<lambda>n.
          bindR (SNetRecGetField refCopy in_rec n) (SNetRecSetField out_rec m)))
      | create_record \<Rightarrow> Ok out_rec)"

text \<open>One output record: created, filled by the instructions, completed by flow inheritance.\<close>

definition filter_record ::
  "('r \<Rightarrow> 'r) \<Rightarrow> int \<Rightarrow> snet_variant \<Rightarrow> 'r snet_record \<Rightarrow> 32 word \<times> 'r action list \<Rightarrow> instr_list \<Rightarrow> (32 word \<times> 'r action list) res" where
  "filter_record refCopy node pat in_rec = (\<lambda>(seq, as) instrs.
     bindR (SNetRecCreate node seq Args_data) (\<lambda>(out_rec, seq).
     bindR (SNetRecGetInterfaceId in_rec) (\<lambda>i. bindR (SNetRecSetInterfaceId out_rec i) (\<lambda>out_rec.
     bindR (SNetRecGetDataMode in_rec) (\<lambda>m. bindR (SNetRecSetDataMode out_rec m) (\<lambda>out_rec.
     bindR (LIST_FOR_EACH instrs) (\<lambda>ins. bindR (foldR (instr_step refCopy in_rec) out_rec ins) (\<lambda>out_rec.
     bindR (SNetRecFlowInherit refCopy pat in_rec out_rec) (\<lambda>out_rec.
     Ok (seq, as @ [SWrite Outstream out_rec]))))))))))"

text \<open>The loop over the guards; all of them are evaluated, the first that holds is used.\<close>

definition guard_step ::
  "('r \<Rightarrow> 'r) \<Rightarrow> int \<Rightarrow> filter_arg \<Rightarrow> 'r snet_record \<Rightarrow> bool \<times> 32 word \<times> 'r action list \<Rightarrow> nat \<times> snet_expr \<Rightarrow>
    (bool \<times> 32 word \<times> 'r action list) res" where
  "guard_step refCopy node farg in_rec = (\<lambda>(dn, seq, as) (i, expr).
     bindR (SNetEevaluateBool expr in_rec) (\<lambda>b.
     if b \<and> \<not> dn then
       (if i < length (filter_instructions farg) then
          bindR (LIST_FOR_EACH (filter_instructions farg ! i)) (\<lambda>ils.
          bindR (foldR (filter_record refCopy node (input_variant farg) in_rec) (seq, as) ils) (\<lambda>(seq, as). Ok (True, seq, as)))
        else Err OutOfBounds)
     else Ok (dn, seq, as)))"

record filter_state =
  filter_done :: bool
  filter_seq :: "32 word"

fun filter_round ::
  "('r \<Rightarrow> 'r) \<Rightarrow> int \<Rightarrow> filter_arg \<Rightarrow> filter_state \<Rightarrow> 'r snet_record \<Rightarrow> (filter_state \<times> 'r action list) res" where
  "filter_round refCopy node farg s (REC_data d) =
     bindR (LIST_ENUMERATE (guard_exprs farg)) (\<lambda>ies.
     bindR (foldR (guard_step refCopy node farg (REC_data d)) (False, filter_seq s, []) ies) (\<lambda>(dn, seq, as).
     bindR (destroy_rec (REC_data d)) (\<lambda>as'.
     bindR (assertR dn) (\<lambda>_. Ok (s\<lparr>filter_seq := seq\<rparr>, as @ as')))))"
| "filter_round refCopy node farg s (REC_sync st v) = Ok (s, [SReplace Instream st])"
| "filter_round refCopy node farg s (REC_terminate b) = Ok (s\<lparr>filter_done := True\<rparr>, [SWrite Outstream (REC_terminate b)])"
| "filter_round refCopy node farg s (REC_sort_end l n) = Ok (s, [SWrite Outstream (REC_sort_end l n)])"
| "filter_round refCopy node farg s _ = Err AssertFail"

text \<open>The tasks close their streams after the loop: the filter the output first, the name shift the input first.\<close>

definition FilterTask ::
  "('r \<Rightarrow> 'r) \<Rightarrow> int \<Rightarrow> filter_arg \<Rightarrow> 32 word \<Rightarrow> 'r snet_record list \<Rightarrow> (filter_state \<times> 'r action list) res" where
  "FilterTask refCopy node farg seq rs =
     bindR (assertR (ListLength (guard_exprs farg) > 0)) (\<lambda>_.
     bindR (run_task filter_done (filter_round refCopy node farg) \<lparr>filter_done = False, filter_seq = seq\<rparr> rs) (\<lambda>(s, as).
     Ok (s, as @ (if filter_done s then [SClose Outstream False, SClose Instream True] else []))))"

section \<open>The name shift task\<close>

text \<open>
  A loop over the labels of a record that renames inside the loop: the key of position \<open>i\<close> is read
  from the map as it is then.
\<close>

definition shift_step :: "(int \<Rightarrow> bool res) \<Rightarrow> int \<Rightarrow> (int, 'v) snet_map \<Rightarrow> nat \<Rightarrow> (int, 'v) snet_map res" where
  "shift_step untouched offset m i =
     bindR (map_cell m i) (\<lambda>(name, _). bindR (untouched name) (\<lambda>b.
     if \<not> b then bindR (c_int (name + offset)) (\<lambda>name'. MapRename (=) m name name') else Ok m))"

definition shift_loop :: "(int \<Rightarrow> bool res) \<Rightarrow> int \<Rightarrow> (int, 'v) snet_map \<Rightarrow> (int, 'v) snet_map res" where
  "shift_loop untouched offset m = foldR (shift_step untouched offset) m [0..<mused m]"

fun nameshift_round :: "snet_variant \<Rightarrow> int \<Rightarrow> bool \<Rightarrow> 'r snet_record \<Rightarrow> (bool \<times> 'r action list) res" where
  "nameshift_round untouched offset dn (REC_data d) =
     bindR (shift_loop (SNetVariantHasField untouched) offset (rec_fields d)) (\<lambda>fs.
     bindR (shift_loop (SNetVariantHasTag untouched) offset (rec_tags d)) (\<lambda>ts.
     bindR (shift_loop (SNetVariantHasBTag untouched) offset (rec_btags d)) (\<lambda>bs.
     Ok (dn, [SWrite Outstream (REC_data (d\<lparr>rec_fields := fs, rec_tags := ts, rec_btags := bs\<rparr>))]))))"
| "nameshift_round untouched offset dn (REC_sync st v) = Ok (dn, [SReplace Instream st])"
| "nameshift_round untouched offset dn (REC_terminate b) = Ok (True, [SWrite Outstream (REC_terminate b)])"
| "nameshift_round untouched offset dn (REC_sort_end l n) = Ok (dn, [SWrite Outstream (REC_sort_end l n)])"
| "nameshift_round untouched offset dn _ = Err AssertFail"

text \<open>The offset is the first guard expression; it is evaluated with NULL as the record, which has no labels to read.\<close>

definition NameshiftTask :: "filter_arg \<Rightarrow> 'r snet_record list \<Rightarrow> (bool \<times> 'r action list) res" where
  "NameshiftTask farg rs =
     bindR (ListGet (guard_exprs farg) 0) (\<lambda>e. bindR (SNetEevaluateInt e (REC_wakeup :: unit snet_record)) (\<lambda>offset.
     bindR (run_task (\<lambda>dn. dn) (nameshift_round (input_variant farg) offset) False rs) (\<lambda>(dn, as).
     Ok (dn, as @ (if dn then [SClose Instream True, SClose Outstream False] else [])))))"

section \<open>What an output record carries\<close>

type_synonym 'r labels = "(int \<rightharpoonup> 'r) \<times> (int \<rightharpoonup> int) \<times> (int \<rightharpoonup> int)"

definition labels :: "'r data_rec \<Rightarrow> 'r labels" where
  "labels d = (field_map d, tag_map d, btag_map d)"

text \<open>The effect of an instruction on the labels of the output record, and when it is defined.\<close>

definition instr_sem :: "('r \<Rightarrow> 'r) \<Rightarrow> 'r data_rec \<Rightarrow> 'r labels \<Rightarrow> filter_instr \<Rightarrow> 'r labels" where
  "instr_sem c d = (\<lambda>(F, T, B) instr.
     case opcode instr of
       snet_tag \<Rightarrow> (F, T(the (instr_name instr) \<mapsto> the_res (SNetEevaluateInt (instr_expr instr) (REC_data d))), B)
     | snet_btag \<Rightarrow> (F, T, B(the (instr_name instr) \<mapsto> the_res (SNetEevaluateInt (instr_expr instr) (REC_data d))))
     | snet_field \<Rightarrow> (F(the (newName instr) \<mapsto> c (the (field_map d (the (instr_name instr))))), T, B)
     | create_record \<Rightarrow> (F, T, B))"

definition instr_valid :: "'r data_rec \<Rightarrow> filter_instr \<Rightarrow> bool" where
  "instr_valid d instr =
     (case opcode instr of
        snet_field \<Rightarrow> instr_name instr \<noteq> None \<and> newName instr \<noteq> None \<and> the (instr_name instr) \<in> dom (field_map d)
      | create_record \<Rightarrow> True
      | _ \<Rightarrow> instr_name instr \<noteq> None \<and> is_Ok (SNetEevaluateInt (instr_expr instr) (REC_data d)))"

lemma created_valid:
  "instr_valid d (SNetCreateFilterInstruction FArgs_create_record)"
  "is_Ok (SNetEevaluateInt e (REC_data d)) \<Longrightarrow> instr_valid d (SNetCreateFilterInstruction (FArgs_tag n e))"
  "is_Ok (SNetEevaluateInt e (REC_data d)) \<Longrightarrow> instr_valid d (SNetCreateFilterInstruction (FArgs_btag n e))"
  "n \<in> dom (field_map d) \<Longrightarrow> instr_valid d (SNetCreateFilterInstruction (FArgs_field m n))"
  by (simp_all add: instr_valid_def)

lemma record_set_keeps:
  "SNetRecSetTag (REC_data d) n v = Ok (REC_data d') \<Longrightarrow> interface_id d' = interface_id d \<and> rmode d' = rmode d \<and> rid d' = rid d"
  "SNetRecSetBTag (REC_data d) n v = Ok (REC_data d') \<Longrightarrow> interface_id d' = interface_id d \<and> rmode d' = rmode d \<and> rid d' = rid d"
  "SNetRecSetField (REC_data d) n f = Ok (REC_data d') \<Longrightarrow> interface_id d' = interface_id d \<and> rmode d' = rmode d \<and> rid d' = rid d"
  by (auto simp: SNetRecSetTag_def SNetRecSetBTag_def SNetRecSetField_def)

lemma instr_step_spec:
  assumes "data_ok d" and "data_ok out" and "instr_valid d instr"
  shows "\<exists>out'. instr_step c (REC_data d) (REC_data out) instr = Ok (REC_data out') \<and> data_ok out' \<and>
     labels out' = instr_sem c d (labels out) instr \<and> interface_id out' = interface_id out \<and> rmode out' = rmode out \<and> rid out' = rid out"
proof (cases "opcode instr")
  case snet_tag
  then obtain n v where n: "instr_name instr = Some n" "SNetEevaluateInt (instr_expr instr) (REC_data d) = Ok v"
    using assms(3) by (auto simp: instr_valid_def is_Ok_iff)
  then show ?thesis using record_set(1)[OF assms(2), of n v] snet_tag record_set_keeps(1)[of out n v]
    by (auto simp: instr_step_def instr_sem_def member_def labels_def)
next
  case snet_btag
  then obtain n v where n: "instr_name instr = Some n" "SNetEevaluateInt (instr_expr instr) (REC_data d) = Ok v"
    using assms(3) by (auto simp: instr_valid_def is_Ok_iff)
  then show ?thesis using record_set(2)[OF assms(2), of n v] snet_btag record_set_keeps(2)[of out n v]
    by (auto simp: instr_step_def instr_sem_def member_def labels_def)
next
  case snet_field
  then obtain m n f where n: "instr_name instr = Some n" "newName instr = Some m" "field_map d n = Some f"
    using assms(3) by (auto simp: instr_valid_def)
  then show ?thesis using record_set(3)[OF assms(2), of m "c f"] snet_field record_set_keeps(3)[of out m "c f"]
    by (auto simp: instr_step_def instr_sem_def member_def labels_def record_get[OF assms(1)])
next
  case create_record
  then show ?thesis using assms(2) by (auto simp: instr_step_def instr_sem_def labels_def)
qed

lemma instr_loop:
  assumes "data_ok d"
  shows "data_ok out \<Longrightarrow> \<forall>i\<in>set ins. instr_valid d i \<Longrightarrow>
     \<exists>out'. foldR (instr_step c (REC_data d)) (REC_data out) ins = Ok (REC_data out') \<and> data_ok out' \<and>
       labels out' = foldl (instr_sem c d) (labels out) ins \<and> interface_id out' = interface_id out \<and> rmode out' = rmode out \<and> rid out' = rid out"
proof (induction ins arbitrary: out)
  case (Cons i ins)
  obtain o1 where o1: "instr_step c (REC_data d) (REC_data out) i = Ok (REC_data o1)" "data_ok o1" "labels o1 = instr_sem c d (labels out) i"
    "interface_id o1 = interface_id out" "rmode o1 = rmode out" "rid o1 = rid out"
    using instr_step_spec[OF assms Cons.prems(1), of i c] Cons.prems(2) by auto
  moreover obtain o2 where "foldR (instr_step c (REC_data d)) (REC_data o1) ins = Ok (REC_data o2)" "data_ok o2"
    "labels o2 = foldl (instr_sem c d) (labels o1) ins" "interface_id o2 = interface_id o1" "rmode o2 = rmode o1" "rid o2 = rid o1"
    using Cons.IH[OF o1(2)] Cons.prems(2) by auto
  ultimately show ?case by (intro exI[of _ o2]) simp
qed auto

text \<open>Flow inheritance on the labels.\<close>

definition inherit_sem :: "('r \<Rightarrow> 'r) \<Rightarrow> snet_variant \<Rightarrow> 'r data_rec \<Rightarrow> 'r labels \<Rightarrow> 'r labels" where
  "inherit_sem c pat d = (\<lambda>(F, T, B).
     (F ++ (\<lambda>n. if n \<notin> vfields pat then map_option c (field_map d n) else None),
      T ++ (\<lambda>n. if n \<notin> vtags pat then tag_map d n else None), B))"

text \<open>What an output record has to be for an instruction list.\<close>

definition output_of :: "('r \<Rightarrow> 'r) \<Rightarrow> snet_variant \<Rightarrow> 'r data_rec \<Rightarrow> instr_list \<Rightarrow> 'r snet_record \<Rightarrow> bool" where
  "output_of c pat d ins r \<longleftrightarrow>
     (\<exists>out. r = REC_data out \<and> data_ok out \<and>
        labels out = inherit_sem c pat d (foldl (instr_sem c d) (Map.empty, Map.empty, Map.empty) (list_of ins)))"

lemma filter_record_spec:
  fixes d :: "'r data_rec"
  assumes "data_ok d" and "variant_ok pat" and "list_inv ins" and "\<forall>i\<in>set (list_of ins). instr_valid d i"
  shows "\<exists>r. filter_record c node pat (REC_data d) (seq, as) ins = Ok (seq + 1, as @ [SWrite Outstream r]) \<and> output_of c pat d ins r"
proof -
  obtain o0 :: "'r data_rec" where o0: "SNetRecCreate node seq Args_data = Ok (REC_data o0, seq + 1)" "data_ok o0" "tag_map o0 = Map.empty"
    "btag_map o0 = Map.empty" "field_map o0 = Map.empty" using SNetRecCreate_data[of node seq] by blast
  let ?o = "o0\<lparr>interface_id := interface_id d, rmode := rmode d\<rparr>"
  have ok: "data_ok ?o" "labels ?o = (Map.empty, Map.empty, Map.empty)"
    using o0 by (simp_all add: data_ok_def labels_def label_maps)
  obtain o1 where o1: "foldR (instr_step c (REC_data d)) (REC_data ?o) (list_of ins) = Ok (REC_data o1)" "data_ok o1"
    "labels o1 = foldl (instr_sem c d) (Map.empty, Map.empty, Map.empty) (list_of ins)"
    using instr_loop[OF assms(1) ok(1) assms(4), of c] ok(2) by auto
  obtain o2 where o2: "SNetRecFlowInherit c pat (REC_data d) (REC_data o1) = Ok (REC_data o2)" "data_ok o2"
    "labels o2 = inherit_sem c pat d (labels o1)"
    using SNetRecFlowInherit_spec[OF assms(2,1) o1(2), of c] by (auto simp: labels_def inherit_sem_def)
  have "filter_record c node pat (REC_data d) (seq, as) ins = Ok (seq + 1, as @ [SWrite Outstream (REC_data o2)])"
    using o0(1) o1(1) o2(1) by (simp add: filter_record_def LIST_FOR_EACH_list_of[OF assms(3)] del: bindR_eq_Ok SNetRecCreate.simps)
  moreover have "output_of c pat d ins (REC_data o2)" using o1(3) o2(2,3) by (simp add: output_of_def)
  ultimately show ?thesis by blast
qed

lemma filter_records_loop:
  assumes "data_ok d" and "variant_ok pat"
  shows "\<forall>ins\<in>set ils. list_inv ins \<and> (\<forall>i\<in>set (list_of ins). instr_valid d i) \<Longrightarrow>
     \<exists>rs. foldR (filter_record c node pat (REC_data d)) (seq, as) ils = Ok (seq + of_nat (length ils), as @ map (SWrite Outstream) rs) \<and>
       list_all2 (output_of c pat d) ils rs"
proof (induction ils arbitrary: seq as)
  case (Cons ins ils)
  obtain r where r: "filter_record c node pat (REC_data d) (seq, as) ins = Ok (seq + 1, as @ [SWrite Outstream r])" "output_of c pat d ins r"
    using filter_record_spec[OF assms, of ins c node seq as] Cons.prems by auto
  obtain rs where rs: "foldR (filter_record c node pat (REC_data d)) (seq + 1, as @ [SWrite Outstream r]) ils =
      Ok (seq + 1 + of_nat (length ils), (as @ [SWrite Outstream r]) @ map (SWrite Outstream) rs)" "list_all2 (output_of c pat d) ils rs"
    using Cons.IH[of "seq + 1" "as @ [SWrite Outstream r]"] Cons.prems by auto
  have "foldR (filter_record c node pat (REC_data d)) (seq, as) (ins # ils) = Ok (seq + of_nat (length (ins # ils)), as @ map (SWrite Outstream) (r # rs))"
    using r(1) rs(1) by (simp add: add.commute add.left_commute del: bindR_eq_Ok)
  then show ?case using r(2) rs(2) by blast
qed auto

section \<open>The first guard that holds\<close>

lemma guard_loop_rest:
  assumes "\<forall>e\<in>set es. \<exists>b. SNetEevaluateBool e r = Ok b \<and> (b \<longrightarrow> dn)"
  shows "foldR (guard_step c node farg r) (dn, seq, as) (enumerate k es) = Ok (dn, seq, as)"
  using assms
proof (induction es arbitrary: k)
  case (Cons e es)
  then obtain b where "SNetEevaluateBool e r = Ok b" "b \<longrightarrow> dn" by auto
  then have "guard_step c node farg r (dn, seq, as) (k, e) = Ok (dn, seq, as)" by (auto simp: guard_step_def)
  with Cons show ?case by simp
qed simp

lemma guard_loop:
  assumes "i < length es" and "SNetEevaluateBool (es ! i) r = Ok True" and "\<forall>j<i. SNetEevaluateBool (es ! j) r = Ok False"
    and "\<forall>e\<in>set es. is_Ok (SNetEevaluateBool e r)"
  shows "foldR (guard_step c node farg r) (False, seq, as) (enumerate 0 es) =
     bindR (guard_step c node farg r (False, seq, as) (i, es ! i)) (\<lambda>(dn, seq, as). Ok (dn, seq, as))"
proof -
  have es: "es = take i es @ es ! i # drop (Suc i) es" by (rule id_take_nth_drop[OF assms(1)])
  have e: "enumerate 0 es = enumerate 0 (take i es) @ (i, es ! i) # enumerate (Suc i) (drop (Suc i) es)"
    by (subst es) (use assms(1) in \<open>simp add: enumerate_append_eq\<close>)
  have t: "foldR (guard_step c node farg r) (False, seq, as) (enumerate 0 (take i es)) = Ok (False, seq, as)"
    by (rule guard_loop_rest) (use assms(1,3) in \<open>auto simp: in_set_conv_nth intro!: exI[of _ False]\<close>)
  have rest: "\<forall>e\<in>set (drop (Suc i) es). \<exists>b. SNetEevaluateBool e r = Ok b" using assms(4) by (auto simp: is_Ok_iff dest: in_set_dropD)
  have d: "dn" if "guard_step c node farg r (False, seq, as) (i, es ! i) = Ok (dn, seq', as')" for dn seq' as'
    using that assms(2) by (auto simp: guard_step_def split: if_splits)
  show ?thesis
  proof (cases "guard_step c node farg r (False, seq, as) (i, es ! i)")
    case (Err x)
    then show ?thesis by (simp add: e foldR_append t)
  next
    case (Ok p)
    obtain dn seq' as' where p: "p = (dn, seq', as')" by (cases p)
    have "foldR (guard_step c node farg r) (dn, seq', as') (enumerate (Suc i) (drop (Suc i) es)) = Ok (dn, seq', as')"
      by (rule guard_loop_rest) (use rest d Ok p in auto)
    with Ok p show ?thesis by (simp add: e foldR_append t)
  qed
qed

text \<open>
  C20. On a data record on which all guards can be evaluated, the filter writes, for the first guard
  that holds, one record per instruction list, in order: it carries the labels that the instructions
  compute from the input record, and the labels of the input record that the input type does not
  name, which override them. The input record is destroyed. If no guard holds the assertion fails.
\<close>

theorem filter_first_guard:
  fixes d :: "'r data_rec" and h :: "nat \<Rightarrow> bool"
  assumes "data_ok d" and "variant_ok (input_variant farg)" and "list_inv (guard_exprs farg)"
    and "length (filter_instructions farg) = lused (guard_exprs farg)"
    and "\<And>j. j < lused (guard_exprs farg) \<Longrightarrow> SNetEevaluateBool (list_of (guard_exprs farg) ! j) (REC_data d) = Ok (h j)"
    and "\<And>ils. ils \<in> set (filter_instructions farg) \<Longrightarrow> list_inv ils \<and> (\<forall>ins\<in>set (list_of ils). list_inv ins \<and> (\<forall>i\<in>set (list_of ins). instr_valid d i))"
  shows "case find h [0..<lused (guard_exprs farg)] of
      None \<Rightarrow> filter_round c node farg s (REC_data d) = Err AssertFail
    | Some i \<Rightarrow> \<exists>rs refs s'. filter_round c node farg s (REC_data d) = Ok (s', map (SWrite Outstream) rs @ [DestroyRefs refs]) \<and>
        list_all2 (output_of c (input_variant farg) d) (list_of (filter_instructions farg ! i)) rs"
proof -
  let ?es = "list_of (guard_exprs farg)" and ?r = "REC_data d"
  obtain refs where dr: "destroy_rec ?r = Ok [DestroyRefs refs]"
    using data_ok_inv(3)[OF assms(1)] by (simp add: destroy_rec_def map_cells)
  have ev: "\<forall>e\<in>set ?es. is_Ok (SNetEevaluateBool e ?r)" using assms(5) by (auto simp: in_set_conv_nth)
  note simps = LIST_ENUMERATE_list_of[OF assms(3)] dr
  show ?thesis
  proof (cases "find h [0..<lused (guard_exprs farg)]")
    case None
    then have "\<forall>j<lused (guard_exprs farg). \<not> h j" by (auto simp: find_None_iff)
    then have "foldR (guard_step c node farg ?r) (False, filter_seq s, []) (enumerate 0 ?es) = Ok (False, filter_seq s, [])"
      by (intro guard_loop_rest) (use assms(5) in \<open>auto simp: in_set_conv_nth intro!: exI[of _ False]\<close>)
    with None show ?thesis by (simp add: simps)
  next
    case (Some i)
    then have i: "i < lused (guard_exprs farg)" "h i" "\<forall>j<i. \<not> h j" by (auto simp: find_Some_iff)
    let ?ils = "filter_instructions farg ! i"
    have il: "list_inv ?ils" "\<forall>ins\<in>set (list_of ?ils). list_inv ins \<and> (\<forall>k\<in>set (list_of ins). instr_valid d k)"
      using assms(6)[of ?ils] i(1) assms(4) by auto
    obtain rs where rs: "foldR (filter_record c node (input_variant farg) ?r) (filter_seq s, []) (list_of ?ils) =
        Ok (filter_seq s + of_nat (length (list_of ?ils)), [] @ map (SWrite Outstream) rs)"
      "list_all2 (output_of c (input_variant farg) d) (list_of ?ils) rs"
      using filter_records_loop[OF assms(1,2) il(2), of c node "filter_seq s" "[]"] by blast
    have "guard_step c node farg ?r (False, filter_seq s, []) (i, ?es ! i) =
        Ok (True, filter_seq s + of_nat (length (list_of ?ils)), map (SWrite Outstream) rs)"
      using rs(1) i(1,2) assms(4,5) by (simp add: guard_step_def LIST_FOR_EACH_list_of[OF il(1)] del: bindR_eq_Ok)
    moreover have "foldR (guard_step c node farg ?r) (False, filter_seq s, []) (enumerate 0 ?es) =
        bindR (guard_step c node farg ?r (False, filter_seq s, []) (i, ?es ! i)) (\<lambda>(dn, seq, as). Ok (dn, seq, as))"
      by (rule guard_loop) (use i assms(5) ev in auto)
    ultimately have "filter_round c node farg s ?r =
        Ok (s\<lparr>filter_seq := filter_seq s + of_nat (length (list_of ?ils))\<rparr>, map (SWrite Outstream) rs @ [DestroyRefs refs])"
      by (simp add: simps del: bindR_eq_Ok)
    with Some rs(2) show ?thesis by (simp del: filter_round.simps) blast
  qed
qed

definition filter_example :: filter_arg where
  "filter_example =
     \<lparr>input_variant = field_pat [1], guard_exprs = pat_list [CONSTB False, E_NULL],
      filter_instructions = [pat_list [], pat_list [pat_list [SNetCreateFilterInstruction (FArgs_tag 5 (CONSTI 7))]]]\<rparr>"

theorem filter_first_guard_witness:
  "\<exists>r refs s' out. filter_round (\<lambda>f. f) 0 filter_example \<lparr>filter_done = False, filter_seq = 0\<rparr> (REC_data (field_rec [(1, 10), (2, 20)])) =
       Ok (s', [SWrite Outstream r, DestroyRefs refs]) \<and>
     r = REC_data out \<and> field_map out 2 = Some 20 \<and> field_map out 1 = None \<and> tag_map out 5 = Some 7"
proof -
  let ?d = "field_rec [(1, 10), (2, 20)]"
  let ?h = "\<lambda>j. j = (1 :: nat)"
  have f: "find ?h [0..<lused (guard_exprs filter_example)] = Some 1" by (simp add: filter_example_def upt_rec)
  have "\<exists>rs refs s'. filter_round (\<lambda>f. f) 0 filter_example \<lparr>filter_done = False, filter_seq = 0\<rparr> (REC_data ?d) =
        Ok (s', map (SWrite Outstream) rs @ [DestroyRefs refs]) \<and>
      list_all2 (output_of (\<lambda>f. f) (input_variant filter_example) ?d) (list_of (filter_instructions filter_example ! 1)) rs"
  proof -
    have g: "SNetEevaluateBool (list_of (guard_exprs filter_example) ! j) (REC_data ?d) = Ok (?h j)" if "j < lused (guard_exprs filter_example)" for j
      using that by (auto simp: filter_example_def less_Suc_eq)
    have v: "list_inv ils \<and> (\<forall>ins\<in>set (list_of ils). list_inv ins \<and> (\<forall>i\<in>set (list_of ins). instr_valid ?d i))"
      if "ils \<in> set (filter_instructions filter_example)" for ils
      using that by (auto simp: filter_example_def instr_valid_def)
    have "data_ok ?d" "variant_ok (input_variant filter_example)" "list_inv (guard_exprs filter_example)"
      "length (filter_instructions filter_example) = lused (guard_exprs filter_example)" by (simp_all add: filter_example_def)
    from filter_first_guard[of ?d filter_example ?h, OF this g v, of "\<lambda>f. f" 0 "\<lparr>filter_done = False, filter_seq = 0\<rparr>"]
    show ?thesis unfolding f by simp
  qed
  then obtain r refs s' where r: "filter_round (\<lambda>f. f) 0 filter_example \<lparr>filter_done = False, filter_seq = 0\<rparr> (REC_data ?d) =
      Ok (s', [SWrite Outstream r, DestroyRefs refs])"
    "output_of (\<lambda>f. f) (input_variant filter_example) ?d (pat_list [SNetCreateFilterInstruction (FArgs_tag 5 (CONSTI 7))]) r"
    by (auto simp: filter_example_def list_all2_Cons1)
  then obtain out where o: "r = REC_data out"
    "labels out = inherit_sem (\<lambda>f. f) (field_pat [1]) ?d (instr_sem (\<lambda>f. f) ?d (Map.empty, Map.empty, Map.empty) (SNetCreateFilterInstruction (FArgs_tag 5 (CONSTI 7))))"
    by (auto simp: output_of_def filter_example_def)
  from o(2) have "field_map out 2 = Some 20 \<and> field_map out 1 = None \<and> tag_map out 5 = Some 7"
    by (simp add: labels_def inherit_sem_def instr_sem_def map_add_def)
  with r(1) o(1) show ?thesis by blast
qed

section \<open>Renaming\<close>

lemma shift_loop_entries:
  fixes U :: "int set"
  assumes "map_ok m" and "\<And>n. un n = Ok (n \<in> U)"
    and "\<And>k. k \<in> dom (map_lookup m) \<Longrightarrow> k \<notin> U \<Longrightarrow> int_range (k + off) \<and> k + off \<notin> dom (map_lookup m)"
  shows "i \<le> mused m \<Longrightarrow> \<exists>m'. foldR (shift_step un off) m [0..<i] = Ok m' \<and> map_inv m' \<and> mused m' = mused m \<and>
     entries m' = map (\<lambda>(k, v). (if k \<in> U then k else k + off, v)) (take i (entries m)) @ drop i (entries m)"
proof (induction i)
  case 0
  then show ?case using assms(1) by (simp add: map_ok_def)
next
  case (Suc i)
  let ?sh = "\<lambda>(k, v). (if k \<in> U then k else k + off, v)" and ?E = "entries m"
  obtain m' where m': "foldR (shift_step un off) m [0..<i] = Ok m'" "map_inv m'" "mused m' = mused m"
    "entries m' = map ?sh (take i ?E) @ drop i ?E" using Suc by auto
  have i: "i < length ?E" using Suc.prems by simp
  obtain k v where kv: "?E ! i = (k, v)" by (cases "?E ! i")
  have E: "drop i ?E = (k, v) # drop (Suc i) ?E" "take (Suc i) ?E = take i ?E @ [(k, v)]"
    using i kv Cons_nth_drop_Suc[OF i] by (simp_all add: take_Suc_conv_app_nth)
  have at: "entries m' ! i = (k, v)" using i m'(4) E(1) by (simp add: nth_append)
  have cell: "map_cell m' i = Ok (k, v)" using map_cell_nth[OF m'(2), of i] i at m'(3) by simp
  have dist: "distinct (map fst ?E)" and dom: "dom (map_lookup m) = fst ` set ?E"
    using assms(1) by (auto simp: map_ok_def map_lookup_def dom_map_of_conv_image_fst)
  have kin: "k \<in> dom (map_lookup m)" unfolding dom using i kv by (metis fst_conv image_eqI nth_mem)
  show ?case
  proof (cases "k \<in> U")
    case True
    then have "shift_step un off m' i = Ok m'" by (simp add: shift_step_def cell assms(2))
    with m' True E show ?thesis by (simp add: foldR_append)
  next
    case False
    have r: "int_range (k + off)" using assms(3)[OF kin False] by simp
    have "k \<notin> fst ` set (map ?sh (take i ?E))"
    proof
      assume "k \<in> fst ` set (map ?sh (take i ?E))"
      then obtain k' v' where k': "(k', v') \<in> set (take i ?E)" "k = (if k' \<in> U then k' else k' + off)" by auto
      have in': "k' \<in> dom (map_lookup m)" unfolding dom using in_set_takeD[OF k'(1)] by force
      show False
      proof (cases "k' \<in> U")
        case True
        with k'(2) False show False by simp
      next
        case False
        with k'(2) assms(3)[OF in' False] kin show False by simp
      qed
    qed
    then have ki: "key_index k (entries m') = Some i"
      using m'(4) E(1) i by (simp add: key_index_append)
    obtain m2 where m2: "MapRename (=) m' k (k + off) = Ok m2" "map_inv m2" "entries m2 = (entries m')[i := (k + off, snd (entries m' ! i))]"
      using MapRename_entries[OF m'(2), of k "k + off"] ki by (auto simp: map_lookup_def map_of_eq_None_iff key_index_None[symmetric])
    have "shift_step un off m' i = Ok m2" using False r m2(1) by (simp add: shift_step_def cell assms(2) c_int_in_range)
    moreover have "entries m2 = map ?sh (take (Suc i) ?E) @ drop (Suc i) ?E"
      using m2(3) m'(4) E at i False by (simp add: list_update_append)
    moreover have "mused m2 = mused m" using m2(3) m'(3) by (metis length_entries length_list_update)
    ultimately show ?thesis using m'(1) m2(2) by (simp add: foldR_append)
  qed
qed

definition shifted :: "int set \<Rightarrow> int \<Rightarrow> (int \<rightharpoonup> 'v) \<Rightarrow> int \<Rightarrow> 'v option" where
  "shifted U off m = (\<lambda>k. if k \<in> U \<and> m k \<noteq> None then m k else if k - off \<in> U then None else m (k - off))"

definition shift_free :: "int set \<Rightarrow> int \<Rightarrow> (int \<rightharpoonup> 'v) \<Rightarrow> bool" where
  "shift_free U off m \<longleftrightarrow> (\<forall>k\<in>dom m. k \<notin> U \<longrightarrow> int_range (k + off) \<and> k + off \<notin> dom m)"

lemma map_of_shift:
  assumes "distinct (map fst E)" and "shift_free U off (map_of E)"
  defines "E' \<equiv> map (\<lambda>(k, v). (if k \<in> U then k else k + off, v)) E"
  shows "distinct (map fst E')" and "map_of E' = shifted U off (map_of E)"
proof -
  let ?f = "\<lambda>k. if k \<in> U then k else k + off"
  have dom: "dom (map_of E) = fst ` set E" by (rule dom_map_of_conv_image_fst)
  have inj: "inj_on ?f (fst ` set E)"
  proof (rule inj_onI)
    fix x y assume "x \<in> fst ` set E" "y \<in> fst ` set E" and e: "?f x = ?f y"
    then have in_dom: "x \<in> dom (map_of E)" "y \<in> dom (map_of E)" by (simp_all only: dom)
    have out: "x \<notin> U \<Longrightarrow> x + off \<notin> dom (map_of E)" "y \<notin> U \<Longrightarrow> y + off \<notin> dom (map_of E)"
      using assms(2) in_dom unfolding shift_free_def by blast+
    show "x = y"
    proof (cases "x \<in> U")
      case True
      with e in_dom out(2) show ?thesis by (cases "y \<in> U") auto
    next
      case False
      with e in_dom out(1) show ?thesis by (cases "y \<in> U") auto
    qed
  qed
  have keys: "map fst E' = map ?f (map fst E)" by (simp add: E'_def comp_def case_prod_beta)
  show d: "distinct (map fst E')" unfolding keys using assms(1) inj by (subst distinct_map) simp
  show "map_of E' = shifted U off (map_of E)"
  proof
    fix k
    have iff: "map_of E' k = Some v \<longleftrightarrow> (\<exists>k'. ?f k' = k \<and> map_of E k' = Some v)" for v
    proof -
      have "(k, v) \<in> set E' \<longleftrightarrow> (\<exists>k'. ?f k' = k \<and> (k', v) \<in> set E)" 
      proof
        assume "(k, v) \<in> set E'"
        then obtain p where "p \<in> set E" "(k, v) = (?f (fst p), snd p)" by (auto simp: E'_def case_prod_beta)
        then show "\<exists>k'. ?f k' = k \<and> (k', v) \<in> set E" by (intro exI[of _ "fst p"]) simp
      next
        assume "\<exists>k'. ?f k' = k \<and> (k', v) \<in> set E"
        then obtain k' where "?f k' = k" "(k', v) \<in> set E" by blast
        then have "(k, v) = (\<lambda>(k, v). (?f k, v)) (k', v)" "(k', v) \<in> set E" by simp_all
        then show "(k, v) \<in> set E'" unfolding E'_def set_map by (rule image_eqI)
      qed
      then show ?thesis by (simp add: map_of_eq_Some_iff[OF d] map_of_eq_Some_iff[OF assms(1)])
    qed
    show "map_of E' k = shifted U off (map_of E) k"
    proof (cases "shifted U off (map_of E) k")
      case None
      have "map_of E' k \<noteq> Some v" for v
      proof
        assume "map_of E' k = Some v"
        then obtain k' where "?f k' = k" "map_of E k' = Some v" using iff by blast
        with None show False by (cases "k' \<in> U") (auto simp: shifted_def split: if_splits)
      qed
      then show ?thesis using None by (cases "map_of E' k") auto
    next
      case (Some v)
      have "\<exists>k'. ?f k' = k \<and> map_of E k' = Some v"
      proof (cases "k \<in> U \<and> map_of E k \<noteq> None")
        case True
        with Some show ?thesis by (intro exI[of _ k]) (simp add: shifted_def)
      next
        case False
        with Some show ?thesis by (intro exI[of _ "k - off"]) (simp add: shifted_def split: if_splits)
      qed
      then show ?thesis using iff[of v] Some by simp
    qed
  qed
qed

lemma name_shift_spec:
  assumes "map_ok m" and "\<And>n. un n = Ok (n \<in> U)" and "shift_free U off (map_lookup m)"
  shows "\<exists>m'. shift_loop un off m = Ok m' \<and> map_ok m' \<and> map_lookup m' = shifted U off (map_lookup m)"
proof -
  obtain m' where "foldR (shift_step un off) m [0..<mused m] = Ok m'" "map_inv m'"
    "entries m' = map (\<lambda>(k, v). (if k \<in> U then k else k + off, v)) (entries m)"
    using shift_loop_entries[OF assms(1,2), of off "mused m"] assms(3) by (auto simp: shift_free_def)
  with map_of_shift[of "entries m" U off] assms(1,3) show ?thesis
    by (simp add: shift_loop_def map_ok_def map_lookup_def)
qed

text \<open>
  A name shift renames every field, tag and binding tag that it has to touch by the offset and
  leaves the others alone, provided that no shifted name is a name of the record already.
\<close>

lemma nameshift_renames:
  assumes "data_ok d" and "variant_ok u" and "shift_free (vfields u) off (field_map d)" and "shift_free (vtags u) off (tag_map d)"
    and "shift_free (vbtags u) off (btag_map d)"
  shows "\<exists>d'. nameshift_round u off dn (REC_data d) = Ok (dn, [SWrite Outstream (REC_data d')]) \<and> data_ok d' \<and>
     field_map d' = shifted (vfields u) off (field_map d) \<and> tag_map d' = shifted (vtags u) off (tag_map d) \<and>
     btag_map d' = shifted (vbtags u) off (btag_map d)"
proof -
  have ok: "map_ok (rec_fields d)" "map_ok (rec_tags d)" "map_ok (rec_btags d)" using assms(1) by (simp_all add: data_ok_def)
  note has = variant_has[OF assms(2)]
  obtain f where f: "shift_loop (SNetVariantHasField u) off (rec_fields d) = Ok f" "map_ok f" "map_lookup f = shifted (vfields u) off (field_map d)"
    using name_shift_spec[OF ok(1) has(3)] assms(3) by (auto simp: field_map_def)
  obtain t where t: "shift_loop (SNetVariantHasTag u) off (rec_tags d) = Ok t" "map_ok t" "map_lookup t = shifted (vtags u) off (tag_map d)"
    using name_shift_spec[OF ok(2) has(1)] assms(4) by (auto simp: tag_map_def)
  obtain b where b: "shift_loop (SNetVariantHasBTag u) off (rec_btags d) = Ok b" "map_ok b" "map_lookup b = shifted (vbtags u) off (btag_map d)"
    using name_shift_spec[OF ok(3) has(2)] assms(5) by (auto simp: btag_map_def)
  let ?d = "d\<lparr>rec_fields := f, rec_tags := t, rec_btags := b\<rparr>"
  have "field_map ?d = map_lookup f" "tag_map ?d = map_lookup t" "btag_map ?d = map_lookup b" by (simp_all add: label_maps)
  then show ?thesis using f t b by (intro exI[of _ ?d]) (simp add: data_ok_def del: bindR_eq_Ok)
qed

text \<open>
  When a shifted name is already there, the renaming inside the loop goes wrong: of the fields 1
  and 2 shifted by 1, the value of field 1 is renamed twice and field 2 keeps its name.
\<close>

lemma nameshift_overlap:
  "shift_loop (\<lambda>_. Ok False) 1 (map_from [(1, x), (2, y)]) = Ok (map_from [(3, x), (2, y)])"
  by (simp add: shift_loop_def shift_step_def map_from_def map_cell_def arr_read_def arr_write_def upt_rec numeral_2_eq_2 MapRename_def MapFind_def
      c_int_def int_range_def)

end
