(* ===== verification/Network.thy ===== *)
theory Network
  imports Parallel Snet_Filter Locvec
begin

text \<open>
  The creation of a network (the creation functions of \<open>runtime/stream/entity\<close>): every combinator
  has a startup function that gets an input stream, the creation context and a location, spawns
  entities and returns the output stream. The state is the world in which a network is built: the
  streams given out, the location vectors on the heap (the context holds the address of one), the
  sources of streams and the spawned entities. The distribution layer is an argument \<open>D\<close>; its
  instance \<open>nodist\<close> is \<open>distrib/nodist/distribution.c\<close>.
\<close>

section \<open>The world of a network under construction\<close>

datatype snet_entity_descr =
  ENTITY_box | ENTITY_parallel | ENTITY_star | ENTITY_split | ENTITY_fbcoll | ENTITY_fbdisp | ENTITY_fbbuf | ENTITY_sync |
  ENTITY_filter | ENTITY_nameshift | ENTITY_collect | ENTITY_other

record snet_entity =
  ent_descr :: snet_entity_descr
  ent_node :: int
  ent_locvec :: snet_locvec
  ent_name :: string
  ent_inputs :: "stream_id list"
  ent_outputs :: "stream_id list"
  ent_args :: "int list"

record net =
  next_stream :: stream_id
  vec_heap :: "nat \<Rightarrow> snet_locvec"
  next_vec :: nat
  stream_source :: "stream_id \<Rightarrow> snet_locvec option"
  entities :: "snet_entity list"

type_synonym info = "nat snet_info"

text \<open>
  The distribution layer: its functions that creation calls, and which streams are NULL, as the layer returns for the input of an entity
  on another node.
\<close>

record dist =
  SNetDistribIsNodeLocation :: "int \<Rightarrow> bool"
  SNetRouteUpdate :: "info \<Rightarrow> stream_id \<Rightarrow> int \<Rightarrow> net \<Rightarrow> (stream_id \<times> net) res"
  SNetRouteDynamicEnter :: "info \<Rightarrow> int \<Rightarrow> int \<Rightarrow> net \<Rightarrow> net res"
  SNetRouteDynamicExit :: "info \<Rightarrow> int \<Rightarrow> int \<Rightarrow> net \<Rightarrow> net res"
  stream_null :: "stream_id \<Rightarrow> bool"

type_synonym startup = "stream_id \<Rightarrow> info \<Rightarrow> int \<Rightarrow> net \<Rightarrow> (stream_id \<times> net) res"

text \<open>The layer without distribution: all locations are local, streams are left as they are.\<close>

definition nodist :: dist where
  "nodist = \<lparr>SNetDistribIsNodeLocation = (\<lambda>location. True), SNetRouteUpdate = (\<lambda>info input loc net. Ok (input, net)),
     SNetRouteDynamicEnter = (\<lambda>info dynamicIndex dynamicLoc net. Ok net), SNetRouteDynamicExit = (\<lambda>info dynamicIndex dynamicLoc net. Ok net),
     stream_null = (\<lambda>s. False)\<rparr>"

definition new_stream :: "net \<Rightarrow> stream_id \<times> net" where
  "new_stream net = (next_stream net, net\<lparr>next_stream := next_stream net + 1\<rparr>)"

definition on_vec :: "nat \<Rightarrow> (snet_locvec \<Rightarrow> snet_locvec res) \<Rightarrow> net \<Rightarrow> net res" where
  "on_vec a f net = bindR (f (vec_heap net a)) (\<lambda>v. Ok (net\<lparr>vec_heap := (vec_heap net)(a := v)\<rparr>))"

definition new_vec :: "snet_locvec \<Rightarrow> net \<Rightarrow> nat \<times> net" where
  "new_vec v net = (next_vec net, net\<lparr>vec_heap := (vec_heap net)(next_vec net := v), next_vec := next_vec net + 1\<rparr>)"

text \<open>
  \<open>SNetEntityCreate\<close> copies the vector; \<open>SNetThreadingSpawn\<close> then starts the task. Of the argument of
  the task the model keeps the streams and the numbers and flags (\<open>ent_args\<close>).
\<close>

definition SNetEntityCreate ::
  "snet_entity_descr \<Rightarrow> int \<Rightarrow> nat \<Rightarrow> string \<Rightarrow> stream_id list \<Rightarrow> stream_id list \<Rightarrow> int list \<Rightarrow> net \<Rightarrow> net res" where
  "SNetEntityCreate descr node a name ins outs args net =
     bindR (SNetLocvecCopy (vec_heap net a)) (\<lambda>v.
     Ok (net\<lparr>entities := entities net @
       [\<lparr>ent_descr = descr, ent_node = node, ent_locvec = v, ent_name = name, ent_inputs = ins, ent_outputs = outs, ent_args = args\<rparr>]\<rparr>))"

section \<open>Entities without operands\<close>

definition SNetSync :: "dist \<Rightarrow> snet_variant snet_list \<Rightarrow> snet_expr snet_list \<Rightarrow> startup" where
  "SNetSync D pats guards input info location net =
     bindR (SNetLocvecGet info) (\<lambda>locvec.
     bindR (SNetRouteUpdate D info input location net) (\<lambda>(input, net).
     if SNetDistribIsNodeLocation D location then
       (let (out, net) = new_stream net in
        bindR (SNetEntityCreate ENTITY_sync location locvec ''<sync>'' [input] [out] [] net) (\<lambda>net. Ok (out, net)))
     else Ok (input, net)))"

definition CreateFilter :: "dist \<Rightarrow> filter_arg \<Rightarrow> string \<Rightarrow> startup" where
  "CreateFilter D farg name instream info location net =
     bindR (SNetRouteUpdate D info instream location net) (\<lambda>(instream, net).
     bindR (if SNetDistribIsNodeLocation D location then bindR (FilterIsBypass farg) (\<lambda>b. Ok (\<not> b)) else Ok False) (\<lambda>create.
     if create then
       (let (out, net) = new_stream net in
        bindR (SNetLocvecGet info) (\<lambda>locvec.
        bindR (SNetEntityCreate ENTITY_filter location locvec name [instream] [out] [] net) (\<lambda>net. Ok (out, net))))
     else Ok (instream, net)))"

text \<open>The instruction lists of a filter are variable arguments; NULL stands for an empty list.\<close>

definition build_instr :: "instr_list snet_list option \<Rightarrow> instr_list snet_list res" where
  "build_instr arg = (case arg of None \<Rightarrow> ListCreate [] | Some l \<Rightarrow> Ok l)"

definition filter_with_args ::
  "dist \<Rightarrow> string \<Rightarrow> snet_variant \<Rightarrow> snet_expr snet_list \<Rightarrow> instr_list snet_list option list \<Rightarrow> startup" where
  "filter_with_args D name variant guards args instream info location net =
     (if ListLength guards \<le> length args then
        bindR (mapR build_instr (take (ListLength guards) args)) (\<lambda>instrs.
        CreateFilter D \<lparr>input_variant = variant, guard_exprs = guards, filter_instructions = instrs\<rparr> name instream info location net)
      else Err OutOfBounds)"

definition SNetFilter :: "dist \<Rightarrow> snet_variant \<Rightarrow> snet_expr snet_list \<Rightarrow> instr_list snet_list option list \<Rightarrow> startup" where
  "SNetFilter D = filter_with_args D ''<filter>''"

definition SNetTranslate :: "dist \<Rightarrow> snet_variant \<Rightarrow> snet_expr snet_list \<Rightarrow> instr_list snet_list option list \<Rightarrow> startup" where
  "SNetTranslate D = filter_with_args D ''<translate>''"

definition SNetNameShift :: "dist \<Rightarrow> int \<Rightarrow> startup" where
  "SNetNameShift D offset instream info location net =
     bindR (SNetRouteUpdate D info instream location net) (\<lambda>(instream, net).
     if SNetDistribIsNodeLocation D location then
       (let (out, net) = new_stream net in
        bindR (SNetLocvecGet info) (\<lambda>locvec.
        bindR (SNetEntityCreate ENTITY_nameshift location locvec ''<nameshift>'' [instream] [out] [offset] net) (\<lambda>net. Ok (out, net))))
     else Ok (instream, net))"

text \<open>The output types of a box: lists of label kinds (field 0, tag 1, btag 2) and names in turn.\<close>

fun box_labels :: "int list \<Rightarrow> snet_variant \<Rightarrow> snet_variant res" where
  "box_labels [] v = Ok v"
| "box_labels [k] v = Err AssertFail"
| "box_labels (k # n # l) v =
     bindR (if k = 0 then SNetVariantAddField v n else if k = 1 then SNetVariantAddTag v n
            else if k = 2 then SNetVariantAddBTag v n else Err AssertFail) (box_labels l)"

definition box_variants :: "int_list snet_list \<Rightarrow> snet_variant snet_list res" where
  "box_variants output_variants =
     bindR (ListCreate []) (\<lambda>vlist. bindR (LIST_FOR_EACH output_variants) (\<lambda>ls.
     foldR (\<lambda>vlist l. bindR SNetVariantCreateEmpty (\<lambda>v. bindR (LIST_FOR_EACH l) (\<lambda>ns. bindR (box_labels ns v) (ListAppendEnd vlist)))) vlist ls))"

text \<open>
  The execution realm of a box (\<open>exerealm_create\<close>) belongs to the box language. It is called once, on the handle with the
  output types and their variants; what it puts into the handle is kept as a number among the arguments of the task.
\<close>

type_synonym realm_create = "int_list snet_list \<Rightarrow> snet_variant snet_list \<Rightarrow> int"

definition SNetBox :: "dist \<Rightarrow> string \<Rightarrow> realm_create \<Rightarrow> int_list snet_list \<Rightarrow> startup" where
  "SNetBox D boxname er_create output_variants input info location net =
     bindR (SNetRouteUpdate D info input location net) (\<lambda>(input, net).
     if SNetDistribIsNodeLocation D location then
       (let (out, net) = new_stream net in
        bindR (box_variants output_variants) (\<lambda>vlist. bindR (SNetLocvecGet info) (\<lambda>locvec.
        bindR (SNetEntityCreate ENTITY_box location locvec boxname [input] [out] [er_create output_variants vlist] net) (\<lambda>net. Ok (out, net)))))
     else Ok (input, net))"

text \<open>
  What the compiler generates: an output type is a list of label kinds and names in turn, and a filter has an instruction list
  for every guard.
\<close>

definition box_type :: "int_list snet_list \<Rightarrow> bool" where
  "box_type ovs \<longleftrightarrow> list_inv ovs \<and> (\<forall>l\<in>set (list_of ovs). list_inv l \<and> even (length (list_of l)) \<and>
     (\<forall>i<length (list_of l). even i \<longrightarrow> list_of l ! i \<in> {0, 1, 2}))"

definition filter_ok :: "snet_expr snet_list \<Rightarrow> instr_list snet_list option list \<Rightarrow> bool" where
  "filter_ok guards args \<longleftrightarrow> ListLength guards \<le> length args \<and>
     (\<forall>ils. Some ils \<in> set args \<longrightarrow> list_inv ils \<and> (\<forall>il\<in>set (list_of ils). list_inv il))"

lemma box_labels_Ok:
  "even (length ls) \<Longrightarrow> \<forall>i<length ls. even i \<longrightarrow> ls ! i \<in> {0, 1, 2} \<Longrightarrow> variant_ok v \<Longrightarrow> \<exists>w. box_labels ls v = Ok w"
proof (induction ls v rule: box_labels.induct)
  case (3 k n l v)
  have l: "\<forall>i<length l. even i \<longrightarrow> l ! i \<in> {0, 1, 2}"
  proof (intro allI impI)
    fix i assume "i < length l" "even i"
    with "3.prems"(2)[rule_format, of "Suc (Suc i)"] show "l ! i \<in> {0, 1, 2}" by simp
  qed
  have "\<exists>v'. (if k = 0 then SNetVariantAddField v n else if k = 1 then SNetVariantAddTag v n
      else if k = 2 then SNetVariantAddBTag v n else Err AssertFail) = Ok v' \<and> variant_ok v'"
    using "3.prems"(2)[rule_format, of 0] variant_add[OF "3.prems"(3), of n] by auto
  with 3(1)[OF _ l] "3.prems"(1) show ?case by (auto split: if_splits)
qed auto

lemma box_variants_Ok:
  assumes "box_type ovs"
  shows "\<exists>vs. box_variants ovs = Ok vs"
proof -
  obtain v where v: "SNetVariantCreateEmpty = Ok v" "variant_ok v" using SNetVariantCreateEmpty_spec by auto
  have "\<exists>vs'. foldR (\<lambda>vlist l. bindR SNetVariantCreateEmpty (\<lambda>v. bindR (LIST_FOR_EACH l) (\<lambda>ns. bindR (box_labels ns v) (ListAppendEnd vlist)))) vs ls = Ok vs'"
    if "list_inv vs" and "\<forall>l\<in>set ls. list_inv l \<and> even (length (list_of l)) \<and> (\<forall>i<length (list_of l). even i \<longrightarrow> list_of l ! i \<in> {0, 1, 2})"
    for vs and ls :: "int_list list"
    using that
  proof (induction ls arbitrary: vs)
    case (Cons l ls)
    have l: "list_inv l" "even (length (list_of l))" "\<forall>i<length (list_of l). even i \<longrightarrow> list_of l ! i \<in> {0, 1, 2}" using Cons.prems(2) by auto
    obtain w where w: "box_labels (list_of l) v = Ok w" using box_labels_Ok[OF l(2,3) v(2)] by blast
    obtain vs1 where vs1: "ListAppendEnd vs w = Ok vs1" "list_inv vs1" using ListAppendEnd_spec[OF Cons.prems(1), of w] by blast
    show ?case using Cons.IH[OF vs1(2)] Cons.prems(2) by (simp del: bindR_eq_Ok add: v(1) LIST_FOR_EACH_list_of[OF l(1)] w vs1(1))
  qed simp
  from this[of "pat_list []" "list_of ovs"] assms have
    "\<exists>vs. foldR (\<lambda>vlist l. bindR SNetVariantCreateEmpty (\<lambda>v. bindR (LIST_FOR_EACH l) (\<lambda>ns. bindR (box_labels ns v) (ListAppendEnd vlist)))) (pat_list []) (list_of ovs) = Ok vs"
    unfolding box_type_def by simp
  with assms show ?thesis
    by (simp del: bindR_eq_Ok add: box_type_def box_variants_def ListCreate_Ok LIST_FOR_EACH_list_of pat_list_def)
qed

lemma filter_bypass_Ok:
  assumes "filter_ok guards args"
  shows "\<exists>ins b. mapR build_instr (take (ListLength guards) args) = Ok ins \<and> FilterIsBypass \<lparr>input_variant = v, guard_exprs = guards, filter_instructions = ins\<rparr> = Ok b"
proof -
  let ?g = "\<lambda>a. case a of None \<Rightarrow> \<lparr>lsize = 0, lused = 0, lstart = 0, lvalues = []\<rparr> | Some l \<Rightarrow> l"
  let ?ins = "map ?g (take (ListLength guards) args)"
  have m: "mapR build_instr (take (ListLength guards) args) = Ok ?ins"
    by (rule mapR_Ok) (simp add: build_instr_def ListCreate_Ok split: option.splits)
  have "\<exists>b. FilterIsBypass \<lparr>input_variant = v, guard_exprs = guards, filter_instructions = ?ins\<rparr> = Ok b"
  proof (cases "ListLength guards = 1")
    case True
    with assms obtain a as where a: "args = a # as" by (cases args) (auto simp: filter_ok_def)
    have inv: "list_inv (?g a) \<and> (\<forall>il\<in>set (list_of (?g a)). list_inv il)"
      using assms a by (auto simp: filter_ok_def list_inv_def list_of_def arr_init_def split: option.splits)
    have "\<exists>b. bindR (ListGet (?g a) 0) (\<lambda>il. if ListLength il \<noteq> 1 then Ok False else bindR (ListGet il 0) (\<lambda>i. Ok (opcode i = create_record))) = Ok b"
      if "ListLength (?g a) = 1"
    proof -
      have "list_of (?g a) ! 0 \<in> set (list_of (?g a))" using that length_list_of[of "?g a"] by (simp add: ListLength_def)
      with inv have "list_inv (list_of (?g a) ! 0)" by blast
      with inv that show ?thesis by (auto simp: ListGet_spec ListLength_def)
    qed
    then show ?thesis using True a by (auto simp: FilterIsBypass_def simp del: bindR_eq_Ok)
  qed (auto simp: FilterIsBypass_def)
  with m show ?thesis by blast
qed

section \<open>Collectors\<close>

definition CollectorCreateStatic :: "stream_id list \<Rightarrow> int \<Rightarrow> info \<Rightarrow> net \<Rightarrow> (stream_id \<times> net) res" where
  "CollectorCreateStatic instreams location info net =
     bindR (assertR (length instreams \<ge> 1)) (\<lambda>_.
     let (out, net) = new_stream net in
     bindR (SNetLocvecGet info) (\<lambda>locvec.
     bindR (SNetEntityCreate ENTITY_collect location locvec ''<collect>'' instreams [out] [1, int (length instreams)] net) (\<lambda>net. Ok (out, net))))"

definition CollectorCreateDynamic :: "stream_id \<Rightarrow> int \<Rightarrow> info \<Rightarrow> net \<Rightarrow> (stream_id \<times> net) res" where
  "CollectorCreateDynamic instream location info net =
     (let (out, net) = new_stream net in
      bindR (SNetLocvecGet info) (\<lambda>locvec.
      bindR (SNetEntityCreate ENTITY_collect location locvec ''<collect>'' [instream] [out] [0] net) (\<lambda>net. Ok (out, net))))"

section \<open>Combinators\<close>

definition SNetAlias :: "startup \<Rightarrow> startup" where
  "SNetAlias netf inbuf info location net = netf inbuf info location net"

definition SNetSerial :: "startup \<Rightarrow> startup \<Rightarrow> startup" where
  "SNetSerial box_a box_b input info location net =
     bindR (SNetLocvecGet info) (\<lambda>locvec.
     bindR (SNetLocvecSerialEnter (vec_heap net locvec)) (\<lambda>(enterstate, v).
     let net = net\<lparr>vec_heap := (vec_heap net)(locvec := v)\<rparr> in
     bindR (box_a input info location net) (\<lambda>(internal_stream, net).
     bindR (on_vec locvec SNetLocvecSerialNext net) (\<lambda>net.
     bindR (box_b internal_stream info location net) (\<lambda>(out, net).
     bindR (on_vec locvec (\<lambda>v. SNetLocvecSerialLeave v enterstate) net) (\<lambda>net. Ok (out, net)))))))"

definition branch_step ::
  "dist \<Rightarrow> startup list \<Rightarrow> nat \<Rightarrow> info \<Rightarrow> int \<Rightarrow> stream_id list \<times> stream_id list \<times> net \<Rightarrow> nat \<Rightarrow> (stream_id list \<times> stream_id list \<times> net) res" where
  "branch_step D funs locvec info location = (\<lambda>(transits, collstreams, net) i.
     bindR (SNetInfoCopy info) (\<lambda>newInfo.
     let (t, net) = new_stream net in
     bindR (on_vec locvec SNetLocvecParallelNext net) (\<lambda>net.
     if i < length funs then
       bindR ((funs ! i) t newInfo location net) (\<lambda>(c, net).
       bindR (SNetRouteUpdate D newInfo c location net) (\<lambda>(c, net). Ok (transits @ [t], collstreams @ [c], net)))
     else Err OutOfBounds)))"

text \<open>On another node the branches are created one behind the other.\<close>

definition remote_step :: "dist \<Rightarrow> startup list \<Rightarrow> nat \<Rightarrow> info \<Rightarrow> int \<Rightarrow> stream_id \<times> net \<Rightarrow> nat \<Rightarrow> (stream_id \<times> net) res" where
  "remote_step D funs locvec info location = (\<lambda>(instream, net) i.
     bindR (SNetInfoCopy info) (\<lambda>newInfo.
     bindR (on_vec locvec SNetLocvecParallelNext net) (\<lambda>net.
     if i < length funs then
       bindR ((funs ! i) instream newInfo location net) (\<lambda>(c, net). SNetRouteUpdate D newInfo c location net)
     else Err OutOfBounds)))"

definition CreateParallel :: "dist \<Rightarrow> variant_list snet_list \<Rightarrow> startup list \<Rightarrow> bool \<Rightarrow> startup" where
  "CreateParallel D variant_lists funs is_det instream info location net =
     (let num = ListLength variant_lists in
      bindR (SNetLocvecGet info) (\<lambda>locvec.
      bindR (on_vec locvec SNetLocvecParallelEnter net) (\<lambda>net.
      bindR (SNetRouteUpdate D info instream location net) (\<lambda>(instream, net).
      bindR (if SNetDistribIsNodeLocation D location then
               bindR (foldR (branch_step D funs locvec info location) ([], [], net) [0..<num]) (\<lambda>(transits, collstreams, net).
               bindR (on_vec locvec SNetLocvecParallelReset net) (\<lambda>net.
               bindR (SNetEntityCreate ENTITY_parallel location locvec ''<parallel>'' [instream] transits [of_bool is_det] net) (\<lambda>net.
               CollectorCreateStatic collstreams location info net)))
             else foldR (remote_step D funs locvec info location) (instream, net) [0..<num]) (\<lambda>(out, net).
      bindR (on_vec locvec SNetLocvecParallelLeave net) (\<lambda>net. Ok (out, net)))))))"

definition CreateSplit :: "dist \<Rightarrow> int \<Rightarrow> int \<Rightarrow> bool \<Rightarrow> bool \<Rightarrow> startup" where
  "CreateSplit D ltag utag is_byloc is_det input info location net =
     bindR (SNetInfoCopy info) (\<lambda>newInfo.
     bindR (SNetLocvecGet info) (\<lambda>locvec.
     bindR (on_vec locvec SNetLocvecSplitEnter net) (\<lambda>net.
     bindR (SNetLocvecCopy (vec_heap net locvec)) (\<lambda>v.
     let (b, net) = new_vec v net in
     bindR (SNetLocvecSet 0 newInfo b) (\<lambda>(newInfo, _).
     bindR (SNetRouteUpdate D newInfo input location net) (\<lambda>(input, net).
     bindR (if SNetDistribIsNodeLocation D location then
              (let (initial, net) = new_stream net in
               bindR (SNetEntityCreate ENTITY_split location locvec ''<split>'' [input] [initial] [ltag, utag, of_bool is_det, of_bool is_byloc, location] net) (\<lambda>net.
               CollectorCreateDynamic initial location info net))
            else Ok (input, net)) (\<lambda>(out, net).
     bindR (on_vec locvec SNetLocvecSplitLeave net) (\<lambda>net. Ok (out, net)))))))))"

definition CreateStar :: "dist \<Rightarrow> bool \<Rightarrow> bool \<Rightarrow> startup" where
  "CreateStar D is_incarnate is_det input info location net =
     bindR (SNetLocvecGet info) (\<lambda>locvec.
     bindR (if \<not> is_incarnate then on_vec locvec SNetLocvecStarEnter net else Ok net) (\<lambda>net.
     bindR (SNetRouteUpdate D info input location net) (\<lambda>(input, net).
     bindR (if SNetDistribIsNodeLocation D location then
              (let (newstream, net) = new_stream net in
               bindR (SNetInfoCopy info) (\<lambda>newInfo.
               bindR (SNetLocvecCopy (vec_heap net locvec)) (\<lambda>v.
               let (b, net) = new_vec v net in
               bindR (SNetLocvecSet 0 newInfo b) (\<lambda>_.
               bindR (SNetEntityCreate ENTITY_star location locvec ''<star>'' [input] [newstream] [of_bool is_det, of_bool is_incarnate, location] net) (\<lambda>net.
               if \<not> is_incarnate then CollectorCreateDynamic newstream location info net else Ok (newstream, net))))))
            else Ok (input, net)) (\<lambda>(out, net).
     bindR (if \<not> is_incarnate then on_vec locvec SNetLocvecStarLeave net else Ok net) (\<lambda>net. Ok (out, net))))))"

definition FEEDBACK_BACKCHAN_CAPACITY :: int where "FEEDBACK_BACKCHAN_CAPACITY = 64"

definition SNetFeedback :: "dist \<Rightarrow> startup \<Rightarrow> startup" where
  "SNetFeedback D box_a input info location net =
     bindR (SNetLocvecGet info) (\<lambda>locvec.
     bindR (on_vec locvec SNetLocvecFeedbackEnter net) (\<lambda>net.
     bindR (SNetRouteUpdate D info input location net) (\<lambda>(input, net).
     bindR (if SNetDistribIsNodeLocation D location then
              (let (into_op, net) = new_stream net; (out, net) = new_stream net; (back_bufout, net) = new_stream net;
                   (back_bufin, net) = new_stream net in
               bindR (SNetEntityCreate ENTITY_fbbuf location locvec ''<fbbuf>'' [back_bufin] [back_bufout] [FEEDBACK_BACKCHAN_CAPACITY] net) (\<lambda>net.
               bindR (SNetEntityCreate ENTITY_fbcoll location locvec ''<fbcoll>'' [input, back_bufout] [into_op] [] net) (\<lambda>net.
               bindR (box_a into_op info location net) (\<lambda>(from_op, net).
               bindR (SNetRouteUpdate D info from_op location net) (\<lambda>(from_op, net).
               bindR (SNetEntityCreate ENTITY_fbdisp location locvec ''<fbdisp>'' [from_op] [out, back_bufin] [] net) (\<lambda>net. Ok (out, net)))))))
            else bindR (box_a input info location net) (\<lambda>(out, net). SNetRouteUpdate D info out location net)) (\<lambda>(out, net).
     bindR (on_vec locvec SNetLocvecFeedbackLeave net) (\<lambda>net. Ok (out, net))))))"

text \<open>The public creation functions: the operands are variable arguments of the parallel combinator.\<close>

definition par_funs :: "variant_list snet_list \<Rightarrow> startup list \<Rightarrow> startup list res" where
  "par_funs variant_lists args = (if ListLength variant_lists \<le> length args then Ok (take (ListLength variant_lists) args) else Err OutOfBounds)"

definition SNetParallel :: "dist \<Rightarrow> variant_list snet_list \<Rightarrow> startup list \<Rightarrow> startup" where
  "SNetParallel D variant_lists args instream info location net =
     bindR (par_funs variant_lists args) (\<lambda>funs. CreateParallel D variant_lists funs False instream info location net)"

definition SNetParallelDet :: "dist \<Rightarrow> variant_list snet_list \<Rightarrow> startup list \<Rightarrow> startup" where
  "SNetParallelDet D variant_lists args instream info location net =
     bindR (par_funs variant_lists args) (\<lambda>funs. CreateParallel D variant_lists funs True instream info location net)"

definition SNetSplit :: "dist \<Rightarrow> int \<Rightarrow> int \<Rightarrow> startup" where
  "SNetSplit D ltag utag = CreateSplit D ltag utag False False"

definition SNetSplitDet :: "dist \<Rightarrow> int \<Rightarrow> int \<Rightarrow> startup" where
  "SNetSplitDet D ltag utag = CreateSplit D ltag utag False True"

definition SNetLocSplit :: "dist \<Rightarrow> int \<Rightarrow> int \<Rightarrow> startup" where
  "SNetLocSplit D ltag utag = CreateSplit D ltag utag True False"

definition SNetLocSplitDet :: "dist \<Rightarrow> int \<Rightarrow> int \<Rightarrow> startup" where
  "SNetLocSplitDet D ltag utag = CreateSplit D ltag utag True True"

definition SNetStar :: "dist \<Rightarrow> startup" where
  "SNetStar D = CreateStar D False False"

definition SNetStarIncarnate :: "dist \<Rightarrow> startup" where
  "SNetStarIncarnate D = CreateStar D True False"

definition SNetStarDet :: "dist \<Rightarrow> startup" where
  "SNetStarDet D = CreateStar D False True"

definition SNetStarDetIncarnate :: "dist \<Rightarrow> startup" where
  "SNetStarDetIncarnate D = CreateStar D True True"

section \<open>The contract of a startup function\<close>

text \<open>
  \<open>yields m P\<close>: \<open>m\<close> returns a value with \<open>P\<close>, or stops because a counter in a location vector
  leaves the range of \<open>int\<close>. In particular no assertion fails and no memory error occurs.
\<close>

definition yields :: "'a res \<Rightarrow> ('a \<Rightarrow> bool) \<Rightarrow> bool" where
  "yields m P \<longleftrightarrow> (case m of Ok x \<Rightarrow> P x | Err e \<Rightarrow> e = SignedOverflow)"

lemma yields_simps [simp]: "yields (Ok x) P \<longleftrightarrow> P x" "yields (Err e) P \<longleftrightarrow> e = SignedOverflow"
  by (simp_all add: yields_def)

lemma yields_bind: "yields m P \<Longrightarrow> (\<And>x. P x \<Longrightarrow> yields (f x) Q) \<Longrightarrow> yields (bindR m f) Q"
  by (cases m) auto

lemma yields_weaken: "yields m P \<Longrightarrow> (\<And>x. P x \<Longrightarrow> Q x) \<Longrightarrow> yields m Q"
  by (cases m) auto

lemma yields_foldR:
  assumes "P s" and "\<And>s x. x \<in> set xs \<Longrightarrow> P s \<Longrightarrow> yields (f s x) P"
  shows "yields (foldR f s xs) P"
  using assms by (induction xs arbitrary: s) (auto intro!: yields_bind)

text \<open>The world only grows, and of the location vectors only the one at address \<open>a\<close> may change.\<close>

definition grow :: "nat \<Rightarrow> net \<Rightarrow> net \<Rightarrow> bool" where
  "grow a net net' \<longleftrightarrow> next_stream net \<le> next_stream net' \<and> next_vec net \<le> next_vec net' \<and> (\<exists>es. entities net' = entities net @ es) \<and>
     (\<forall>b<next_vec net. b \<noteq> a \<longrightarrow> vec_heap net' b = vec_heap net b) \<and> locvec_inv (vec_heap net' a) \<and> a < next_vec net"

abbreviation vec_items :: "net \<Rightarrow> nat \<Rightarrow> snet_locitem list" where
  "vec_items net a \<equiv> items (vec_heap net a)"

lemma grow_refl: "locvec_inv (vec_heap net a) \<Longrightarrow> a < next_vec net \<Longrightarrow> grow a net net"
  by (simp add: grow_def)

lemma grow_trans: "grow a n1 n2 \<Longrightarrow> grow a n2 n3 \<Longrightarrow> grow a n1 n3"
  by (force simp: grow_def)

lemma growD:
  "grow a net net' \<Longrightarrow> a < next_vec net \<and> a < next_vec net' \<and> locvec_inv (vec_heap net' a) \<and> next_stream net \<le> next_stream net'"
  by (simp add: grow_def)

text \<open>A context that lends the location vector at address \<open>a\<close>.\<close>

definition ctx_ok :: "info \<Rightarrow> nat \<Rightarrow> bool" where
  "ctx_ok info a \<longleftrightarrow> info_inv info \<and> SNetLocvecGet info = Ok a \<and> (\<forall>n\<in>set info. copyFun n = None)"

lemma ctx_copy: "ctx_ok info a \<Longrightarrow> SNetInfoCopy info = Ok info"
  by (cases info) (auto simp: ctx_ok_def info_inv_def SNetInfoCopy_def copy_node_def intro!: map_idI)

text \<open>
  What a startup function may do to the vector of its context: nothing, except that a serial
  combinator directly inside another one counts on in the same item.
\<close>

definition serial_item :: "int \<Rightarrow> snet_locitem" where
  "serial_item n = \<lparr>loc_type = LOC_SERIAL, loc_num = n\<rparr>"

definition loc_ext :: "snet_locitem list \<Rightarrow> snet_locitem list \<Rightarrow> bool" where
  "loc_ext xs ys \<longleftrightarrow> xs = ys \<or> (\<exists>zs n m. xs = zs @ [serial_item n] \<and> ys = zs @ [serial_item m] \<and> n \<le> m)"

lemma loc_ext_refl [simp]: "loc_ext xs xs"
  by (simp add: loc_ext_def)

lemma loc_ext_trans: "loc_ext xs ys \<Longrightarrow> loc_ext ys zs \<Longrightarrow> loc_ext xs zs"
  by (auto simp: loc_ext_def serial_item_def)

lemma loc_ext_serial: "loc_ext (zs @ [serial_item n]) (zs @ [serial_item m]) \<longleftrightarrow> n \<le> m"
  by (auto simp: loc_ext_def serial_item_def)

lemma loc_ext_other: "loc_ext (xs @ [x]) ys \<Longrightarrow> loc_type x \<noteq> LOC_SERIAL \<Longrightarrow> ys = xs @ [x]"
  by (auto simp: loc_ext_def serial_item_def)

definition operand_pre :: "info \<Rightarrow> nat \<Rightarrow> stream_id \<Rightarrow> net \<Rightarrow> bool" where
  "operand_pre info a input net \<longleftrightarrow> ctx_ok info a \<and> a < next_vec net \<and> locvec_inv (vec_heap net a) \<and> input < next_stream net"

definition startup_pre :: "info \<Rightarrow> nat \<Rightarrow> stream_id \<Rightarrow> net \<Rightarrow> bool" where
  "startup_pre info a input net \<longleftrightarrow> operand_pre info a input net \<and> top_type (vec_heap net a) \<noteq> LOC_STAR"

definition startup_post :: "nat \<Rightarrow> net \<Rightarrow> stream_id \<times> net \<Rightarrow> bool" where
  "startup_post a net = (\<lambda>(out, net'). grow a net net' \<and> loc_ext (vec_items net a) (vec_items net' a) \<and> out < next_stream net')"

text \<open>
  The contract of a startup function: it never fails an assertion and gives the vector back. A function
  that may stand as the operand of a serial replication (star) keeps it also directly below a star item.
\<close>

locale startup_fun =
  fixes f :: startup
  assumes builds: "startup_pre info a input net \<Longrightarrow> yields (f input info location net) (startup_post a net)"

locale operand_fun =
  fixes f :: startup
  assumes operand_builds: "operand_pre info a input net \<Longrightarrow> yields (f input info location net) (startup_post a net)"

sublocale operand_fun \<subseteq> startup_fun f
  by unfold_locales (simp add: operand_builds startup_pre_def)

lemma operand_startup: "operand_fun f \<Longrightarrow> startup_fun f"
  by (simp add: operand_fun_def startup_fun_def startup_pre_def)

text \<open>What the creation functions need of the distribution layer.\<close>

locale distribution =
  fixes D :: dist
  assumes route: "ctx_ok info a \<Longrightarrow> a < next_vec net \<Longrightarrow> locvec_inv (vec_heap net a) \<Longrightarrow> input < next_stream net \<Longrightarrow>
    \<exists>out net'. SNetRouteUpdate D info input location net = Ok (out, net') \<and> grow a net net' \<and> vec_items net' a = vec_items net a \<and> out < next_stream net'"
    and dynamic_enter: "ctx_ok info a \<Longrightarrow> a < next_vec net \<Longrightarrow> locvec_inv (vec_heap net a) \<Longrightarrow>
    \<exists>net'. SNetRouteDynamicEnter D info i location net = Ok net' \<and> grow a net net' \<and> vec_items net' a = vec_items net a"
    and dynamic_exit: "ctx_ok info a \<Longrightarrow> a < next_vec net \<Longrightarrow> locvec_inv (vec_heap net a) \<Longrightarrow>
    \<exists>net'. SNetRouteDynamicExit D info i location net = Ok net' \<and> grow a net net' \<and> vec_items net' a = vec_items net a"
    and not_null: "\<not> stream_null D s"

interpretation nodist: distribution nodist
  by unfold_locales (auto simp: nodist_def intro: grow_refl)

section \<open>Steps of the creation functions\<close>

text \<open>
  A state that is reached from \<open>n0\<close>, in which the vector holds the items \<open>xs\<close> and the streams \<open>ss\<close>
  exist. Each step of a creation function leads from such a state to such a state.
\<close>

definition reach :: "nat \<Rightarrow> net \<Rightarrow> snet_locitem list \<Rightarrow> stream_id list \<Rightarrow> net \<Rightarrow> bool" where
  "reach a n0 xs ss n \<longleftrightarrow> grow a n0 n \<and> vec_items n a = xs \<and> (\<forall>s\<in>set ss. s < next_stream n)"

definition reach_out :: "nat \<Rightarrow> net \<Rightarrow> snet_locitem list \<Rightarrow> stream_id list \<Rightarrow> stream_id \<times> net \<Rightarrow> bool" where
  "reach_out a n0 xs ss = (\<lambda>(out, n). reach a n0 xs (out # ss) n)"

lemma reach_out_simp [simp]: "reach_out a n0 xs ss (out, n) \<longleftrightarrow> reach a n0 xs (out # ss) n"
  by (simp add: reach_out_def)

lemma reach_start: "operand_pre info a input net \<Longrightarrow> reach a net (vec_items net a) [input] net"
  by (simp add: reach_def operand_pre_def grow_refl)

lemma reach_inv: "reach a n0 xs ss n \<Longrightarrow> locvec_inv (vec_heap n a) \<and> a < next_vec n \<and> items (vec_heap n a) = xs"
  by (auto simp: reach_def dest: growD)

lemma reach_drop: "reach a n0 xs (s # t # ss) n \<Longrightarrow> reach a n0 xs (s # ss) n" "reach a n0 xs (s # ss) n \<Longrightarrow> reach a n0 xs ss n"
  by (auto simp: reach_def)

lemma reach_grow: "reach a n0 xs ss n \<Longrightarrow> grow a n n' \<Longrightarrow> vec_items n' a = ys \<Longrightarrow> reach a n0 ys ss n'"
  using growD[of a n n'] by (auto simp: reach_def intro: grow_trans order_less_le_trans)

lemma new_stream_reach: "reach a n0 xs ss n \<Longrightarrow> new_stream n = (s, n') \<Longrightarrow> reach a n0 xs (s # ss) n'"
  by (auto simp: reach_def new_stream_def grow_def)

lemma new_vec_reach:
  assumes "reach a n0 xs ss n" and "new_vec v n = (b, n')" and "locvec_inv v"
  shows "reach a n0 xs ss n'" and "reach b n' (items v) ss n'" and "b \<noteq> a" and "next_vec n0 \<le> b"
  using assms by (auto simp: reach_def new_vec_def grow_def)

lemma entity_reach: "reach a n0 xs ss n \<Longrightarrow> yields (SNetEntityCreate descr node a name ins outs args n) (reach a n0 xs ss)"
  using SNetLocvecCopy_spec[of "vec_heap n a"] by (auto simp: SNetEntityCreate_def reach_def grow_def)

lemma on_vec_reach:
  assumes "reach a n0 xs ss n" and "\<And>v. locvec_inv v \<Longrightarrow> items v = xs \<Longrightarrow> yields (f v) (\<lambda>v. locvec_inv v \<and> items v = ys)"
  shows "yields (on_vec a f n) (reach a n0 ys ss)"
  unfolding on_vec_def
  by (rule yields_bind[OF assms(2)]) (use assms(1) in \<open>auto simp: reach_def grow_def\<close>)

lemma append_yields: "locvec_inv v \<Longrightarrow> yields (SNetLocvecAppend v t n) (\<lambda>v'. locvec_inv v' \<and> items v' = items v @ [\<lparr>loc_type = t, loc_num = n\<rparr>])"
  using SNetLocvecAppend_spec[of v t n] by auto

lemma topinc_yields:
  assumes "locvec_inv v" and "items v = xs @ [x]"
  shows "yields (SNetLocvecTopinc v) (\<lambda>v'. locvec_inv v' \<and> items v' = xs @ [x\<lparr>loc_num := loc_num x + 1\<rparr>])"
proof (cases "int_range (loc_num x + 1)")
  case True
  then show ?thesis using Topinc_spec[OF assms(1)] assms(2) by auto
next
  case False
  then show ?thesis using item_at_last[OF assms(1)] assms(2) by (simp add: SNetLocvecTopinc_def c_int_def)
qed

lemma pop_spec: "locvec_inv v \<Longrightarrow> items v = xs @ [x] \<Longrightarrow> locvec_inv (SNetLocvecPop v) \<and> items (SNetLocvecPop v) = xs"
  using SNetLocvecPop_spec[of v] by simp

text \<open>The brackets of the combinators: the item that a combinator pushes is the one that it pops.\<close>

abbreviation loc :: "snet_loctype \<Rightarrow> int \<Rightarrow> snet_locitem" where
  "loc t n \<equiv> \<lparr>loc_type = t, loc_num = n\<rparr>"

lemma enter_yields:
  assumes "locvec_inv v" and "items v = xs"
  shows "yields (SNetLocvecParallelEnter v) (\<lambda>v'. locvec_inv v' \<and> items v' = xs @ [loc LOC_PARALLEL (-1)])"
    and "yields (SNetLocvecSplitEnter v) (\<lambda>v'. locvec_inv v' \<and> items v' = xs @ [loc LOC_SPLIT (-1)])"
    and "yields (SNetLocvecFeedbackEnter v) (\<lambda>v'. locvec_inv v' \<and> items v' = xs @ [loc LOC_FEEDBACK (-1)])"
    and "top_type v \<noteq> LOC_STAR \<Longrightarrow> yields (SNetLocvecStarEnter v) (\<lambda>v'. locvec_inv v' \<and> items v' = xs @ [loc LOC_STAR (-1)])"
  using append_yields[OF assms(1)] assms(2)
  by (simp_all add: SNetLocvecParallelEnter_def SNetLocvecSplitEnter_def SNetLocvecFeedbackEnter_def SNetLocvecStarEnter_def
      SNetLocvecToptype_spec[OF assms(1)])

lemma leave_yields:
  assumes "locvec_inv v" and "items v = xs @ [x]"
  shows "loc_type x = LOC_PARALLEL \<Longrightarrow> yields (SNetLocvecParallelLeave v) (\<lambda>v'. locvec_inv v' \<and> items v' = xs)"
    and "loc_type x = LOC_SPLIT \<Longrightarrow> yields (SNetLocvecSplitLeave v) (\<lambda>v'. locvec_inv v' \<and> items v' = xs)"
    and "loc_type x = LOC_FEEDBACK \<Longrightarrow> yields (SNetLocvecFeedbackLeave v) (\<lambda>v'. locvec_inv v' \<and> items v' = xs)"
    and "x = loc LOC_STAR (-1) \<Longrightarrow> yields (SNetLocvecStarLeave v) (\<lambda>v'. locvec_inv v' \<and> items v' = xs)"
  using pop_spec[OF assms] assms(2) item_at_last[OF assms(1)]
  by (simp_all add: SNetLocvecParallelLeave_def SNetLocvecSplitLeave_def SNetLocvecFeedbackLeave_def SNetLocvecStarLeave_def
      SNetLocvecTopval_def assert_top_spec[OF assms(1)])

text \<open>The steps as rules for the sequences in which the creation functions compose them.\<close>

lemma stream_bind:
  assumes "reach a n0 xs ss n" and "\<And>s n'. reach a n0 xs (s # ss) n' \<Longrightarrow> yields (F s n') Q"
  shows "yields (let (s, n') = new_stream n in F s n') Q"
  using assms(2)[OF new_stream_reach[OF assms(1)]] by (cases "new_stream n") simp

lemma entity_bind:
  assumes "reach a n0 xs ss n" and "\<And>n'. reach a n0 xs ss n' \<Longrightarrow> yields (F n') Q"
  shows "yields (bindR (SNetEntityCreate descr node a name ins outs args n) F) Q"
  by (rule yields_bind[OF entity_reach[OF assms(1)] assms(2)])

lemma on_vec_bind:
  assumes "reach a n0 xs ss n" and "\<And>v. locvec_inv v \<Longrightarrow> items v = xs \<Longrightarrow> yields (f v) (\<lambda>v. locvec_inv v \<and> items v = ys)"
    and "\<And>n'. reach a n0 ys ss n' \<Longrightarrow> yields (F n') Q"
  shows "yields (bindR (on_vec a f n) F) Q"
  by (rule yields_bind[OF on_vec_reach[OF assms(1,2)] assms(3)])

lemma out_bind:
  assumes "yields m (reach_out a n0 xs ss)" and "\<And>out n'. reach a n0 xs (out # ss) n' \<Longrightarrow> yields (F out n') Q"
  shows "yields (bindR m (\<lambda>(out, n'). F out n')) Q"
  by (rule yields_bind[OF assms(1)]) (auto intro: assms(2))

lemma copy_bind:
  assumes "reach a n0 xs ss n"
    and "\<And>b n'. reach a n0 xs ss n' \<Longrightarrow> reach b n' xs ss n' \<Longrightarrow> b \<noteq> a \<Longrightarrow> next_vec n0 \<le> b \<Longrightarrow> yields (F b n') Q"
  shows "yields (bindR (SNetLocvecCopy (vec_heap n a)) (\<lambda>v. let (b, n') = new_vec v n in F b n')) Q"
proof -
  from reach_inv[OF assms(1)] obtain v where v: "SNetLocvecCopy (vec_heap n a) = Ok v" "locvec_inv v" "items v = xs"
    using SNetLocvecCopy_spec[of "vec_heap n a"] by auto
  obtain b n' where "new_vec v n = (b, n')" by (cases "new_vec v n")
  with new_vec_reach[OF assms(1) this v(2)] v show ?thesis by (auto intro: assms(2))
qed

text \<open>Work on a fresh vector leaves the one at \<open>a\<close> as it was.\<close>

lemma reach_other:
  assumes "reach a n0 xs ss n1" and "reach b n1 ys ts n2" and "b \<noteq> a" and "next_vec n0 \<le> b"
  shows "reach a n0 xs ts n2"
proof -
  have "a < next_vec n1" "a < next_vec n0" using assms(1) by (auto simp: reach_def grow_def)
  with assms show ?thesis by (auto simp: reach_def grow_def)
qed

lemma info_set_copyFun:
  "SNetInfoSetTag zero info t d None = Ok (info', fr) \<Longrightarrow> \<forall>n\<in>set info. copyFun n = None \<Longrightarrow> \<forall>n\<in>set info'. copyFun n = None"
  by (induction info arbitrary: info' fr) (auto simp: SNetInfoInit_def split: if_splits)

lemma ctx_set:
  assumes "ctx_ok info a"
  obtains info' where "SNetLocvecSet 0 info b = Ok (info', [])" and "ctx_ok info' b"
proof -
  have t: "LOCVEC_INFO_TAG \<noteq> -1" by (simp add: LOCVEC_INFO_TAG_def)
  have inv: "info_inv info" using assms by (simp add: ctx_ok_def)
  from SNetInfoSetTag_spec[OF inv t, of 0 b None] obtain info' where
    s: "SNetInfoSetTag 0 info LOCVEC_INFO_TAG b None = Ok (info', [])" "info_inv info'" "info_map info' = (info_map info)(LOCVEC_INFO_TAG \<mapsto> b)" by auto
  then have "ctx_ok info' b" using assms info_set_copyFun[OF s(1)] SNetInfoGetTag_spec[OF s(2) t] by (simp add: ctx_ok_def SNetLocvecGet_def)
  with s(1) show ?thesis by (intro that[of info']) (simp_all add: SNetLocvecSet_def)
qed

lemma collector_reach:
  assumes "ctx_ok info a" and "reach a n0 xs ss n"
  shows "yields (CollectorCreateDynamic st location info n) (reach_out a n0 xs ss)"
    and "sts \<noteq> [] \<Longrightarrow> yields (CollectorCreateStatic sts location info n) (reach_out a n0 xs ss)"
proof -
  have g: "SNetLocvecGet info = Ok a" using assms(1) by (simp add: ctx_ok_def)
  obtain s n1 where n: "new_stream n = (s, n1)" by (cases "new_stream n")
  note e = yields_bind[OF entity_reach[OF new_stream_reach[OF assms(2) n]]]
  show "yields (CollectorCreateDynamic st location info n) (reach_out a n0 xs ss)"
    unfolding CollectorCreateDynamic_def n by (simp add: g) (rule e, simp)
  show "sts \<noteq> [] \<Longrightarrow> yields (CollectorCreateStatic sts location info n) (reach_out a n0 xs ss)"
    unfolding CollectorCreateStatic_def n by (simp add: g Suc_le_eq) (rule e, simp)
qed

text \<open>One task is spawned, or (on another node) the stream is left as it is.\<close>

lemma spawn_reach:
  assumes "reach a n0 xs (input # ss) n" and "new_stream n = (s, n1)"
  shows "yields (bindR (SNetEntityCreate descr node a name ins outs args n1) (\<lambda>net. Ok (s, net))) (reach_out a n0 xs ss)"
  by (rule yields_bind[OF entity_reach[OF new_stream_reach[OF assms]]]) (drule reach_drop(1), simp)

lemma reach_post: "operand_pre info a input net \<Longrightarrow> yields m (reach_out a net (vec_items net a) ss) \<Longrightarrow> yields m (startup_post a net)"
  by (erule yields_weaken) (auto simp: startup_post_def reach_def)

lemma startup_reach:
  assumes "startup_fun f" and "ctx_ok info a" and "reach a n0 (xs @ [x]) ss n" and "loc_type x \<noteq> LOC_STAR" and "input \<in> set ss"
  shows "yields (f input info location n) (\<lambda>(out, n'). \<exists>ys. loc_ext (xs @ [x]) ys \<and> reach a n0 ys (out # ss) n')"
proof -
  have "startup_pre info a input n" using assms reach_inv[OF assms(3)] by (auto simp: startup_pre_def operand_pre_def reach_def)
  from startup_fun.builds[OF assms(1) this, of location] show ?thesis
  proof (rule yields_weaken)
    fix p assume p: "startup_post a n p"
    obtain out n' where [simp]: "p = (out, n')" by (cases p)
    have g: "grow a n n'" "loc_ext (xs @ [x]) (vec_items n' a)" "out < next_stream n'" 
      using p assms(3) by (auto simp: startup_post_def reach_def)
    with reach_grow[OF assms(3) g(1) refl] show "case p of (out, n') \<Rightarrow> \<exists>ys. loc_ext (xs @ [x]) ys \<and> reach a n0 ys (out # ss) n'"
      by (auto simp: reach_def)
  qed
qed

lemma startup_reach_same:
  assumes "startup_fun f" and "ctx_ok info a" and "reach a n0 (xs @ [x]) ss n" and "loc_type x \<noteq> LOC_STAR" and "loc_type x \<noteq> LOC_SERIAL"
    and "input \<in> set ss"
  shows "yields (f input info location n) (reach_out a n0 (xs @ [x]) ss)"
  by (rule yields_weaken[OF startup_reach[OF assms(1-4,6)]]) (auto simp: reach_out_def dest: loc_ext_other[OF _ assms(5)])

lemma startup_serial:
  assumes "startup_fun f" and "ctx_ok info a" and "reach a n0 (xs @ [serial_item k]) ss n" and "input \<in> set ss"
  shows "yields (f input info location n) (\<lambda>(out, n'). \<exists>m\<ge>k. reach a n0 (xs @ [serial_item m]) (out # ss) n')"
  by (rule yields_weaken[OF startup_reach[OF assms(1,2,3) _ assms(4)]]) (auto simp: loc_ext_def serial_item_def)

lemma serial_enter:
  assumes "locvec_inv v"
  shows "\<exists>b v' zs k. SNetLocvecSerialEnter v = Ok (b, v') \<and> locvec_inv v' \<and> items v' = zs @ [serial_item k] \<and>
     items v = (if b then zs else zs @ [serial_item k])"
proof (cases "top_type v = LOC_SERIAL")
  case True
  then obtain zs x where "items v = zs @ [x]" by (cases "items v" rule: rev_cases) (auto simp: top_type_def)
  with True have "items v = zs @ [serial_item (loc_num x)]" by (simp add: serial_item_def)
  with True assms show ?thesis by (intro exI[of _ False] exI conjI) (simp_all add: SNetLocvecSerialEnter_def SNetLocvecToptype_spec)
next
  case False
  with SNetLocvecAppend_spec[OF assms, of LOC_SERIAL 1] assms show ?thesis
    by (auto simp: SNetLocvecSerialEnter_def SNetLocvecToptype_spec serial_item_def)
qed

lemma serial_next: "locvec_inv v \<Longrightarrow> items v = xs @ [serial_item k] \<Longrightarrow>
    yields (SNetLocvecSerialNext v) (\<lambda>v'. locvec_inv v' \<and> items v' = xs @ [serial_item (k + 1)])"
  using topinc_yields[of v xs "serial_item k"] by (simp add: SNetLocvecSerialNext_def assert_top_spec serial_item_def)

lemma serial_leave: "locvec_inv v \<Longrightarrow> items v = xs @ [serial_item k] \<Longrightarrow>
    yields (SNetLocvecSerialLeave v b) (\<lambda>v'. locvec_inv v' \<and> items v' = (if b then xs else xs @ [serial_item k]))"
  using pop_spec[of v xs "serial_item k"] by (simp add: SNetLocvecSerialLeave_def assert_top_spec serial_item_def)

lemma serial_operand:
  assumes "startup_fun f" and "startup_fun g"
  shows "operand_fun (SNetSerial f g)"
proof
  fix info a input net location assume pre: "operand_pre info a input net"
  then have c: "ctx_ok info a" and get: "SNetLocvecGet info = Ok a" and inv: "locvec_inv (vec_heap net a)" and st: "reach a net (vec_items net a) [input] net"
    by (auto simp: operand_pre_def ctx_ok_def reach_def grow_refl)
  obtain b v zs k where e: "SNetLocvecSerialEnter (vec_heap net a) = Ok (b, v)" "locvec_inv v" "items v = zs @ [serial_item k]"
    "vec_items net a = (if b then zs else zs @ [serial_item k])" using serial_enter[OF inv] by blast
  let ?n = "net\<lparr>vec_heap := (vec_heap net)(a := v)\<rparr>"
  have r: "reach a net (zs @ [serial_item k]) [input] ?n" using st e(2,3) by (auto simp: reach_def grow_def)
  show "yields (SNetSerial f g input info location net) (startup_post a net)"
    unfolding SNetSerial_def get e(1) bindR.simps prod.case Let_def
  proof (rule yields_bind[OF startup_serial[OF assms(1) c r]], simp)
    fix p assume "case p of (out, n') \<Rightarrow> \<exists>m\<ge>k. reach a net (zs @ [serial_item m]) [out, input] n'"
    then obtain s n m where [simp]: "p = (s, n)" and m: "k \<le> m" "reach a net (zs @ [serial_item m]) [s, input] n" by (cases p) auto
    show "yields (case p of (internal_stream, net) \<Rightarrow> bindR (on_vec a SNetLocvecSerialNext net) (\<lambda>net.
        bindR (g internal_stream info location net) (\<lambda>(out, net).
        bindR (on_vec a (\<lambda>v. SNetLocvecSerialLeave v b) net) (\<lambda>net. Ok (out, net))))) (startup_post a net)"
      unfolding \<open>p = (s, n)\<close> prod.case
    proof (rule on_vec_bind[OF m(2) serial_next], assumption+, rule yields_bind[OF startup_serial[OF assms(2) c]], assumption, simp)
      fix q assume "case q of (out, n') \<Rightarrow> \<exists>m'\<ge>m + 1. reach a net (zs @ [serial_item m']) [out, s, input] n'"
      then obtain out n' m' where [simp]: "q = (out, n')" and m': "m + 1 \<le> m'" "reach a net (zs @ [serial_item m']) [out, s, input] n'"
        by (cases q) auto
      show "yields (case q of (out, net) \<Rightarrow> bindR (on_vec a (\<lambda>v. SNetLocvecSerialLeave v b) net) (\<lambda>net. Ok (out, net))) (startup_post a net)"
        unfolding \<open>q = (out, n')\<close> prod.case
        by (rule on_vec_bind[OF m'(2) serial_leave], assumption+)
          (use e(4) m(1) m'(1) in \<open>auto simp: startup_post_def reach_def loc_ext_serial split: if_splits\<close>)
    qed
  qed
qed

text \<open>The branches: the loop keeps \<open>par_ok\<close>, and each turn adds a stream for the collector.\<close>

definition par_ok :: "nat \<Rightarrow> net \<Rightarrow> snet_locitem list \<Rightarrow> stream_id \<Rightarrow> net \<Rightarrow> bool" where
  "par_ok a net xs s n \<longleftrightarrow> (\<exists>k. reach a net (xs @ [loc LOC_PARALLEL k]) [s] n)"

context distribution
begin

lemma route_reach:
  assumes "ctx_ok info a" and "reach a n0 xs ss n" and "input \<in> set ss"
  shows "yields (SNetRouteUpdate D info input location n) (reach_out a n0 xs ss)"
proof -
  from assms(2,3) have "a < next_vec n" "locvec_inv (vec_heap n a)" "input < next_stream n" using reach_inv[OF assms(2)] by (auto simp: reach_def)
  from route[OF assms(1) this, of location] obtain out n' where
    r: "SNetRouteUpdate D info input location n = Ok (out, n')" "grow a n n'" "vec_items n' a = vec_items n a" "out < next_stream n'" by blast
  with reach_grow[OF assms(2) r(2) refl] reach_inv[OF assms(2)] show ?thesis by (simp add: reach_def)
qed

lemma enter_reach: "ctx_ok info a \<Longrightarrow> reach a n0 xs ss n \<Longrightarrow> yields (SNetRouteDynamicEnter D info i location n) (reach a n0 xs ss)"
  using dynamic_enter[of info a n i location] reach_inv[of a n0 xs ss n] by (auto intro: reach_grow)

lemma exit_reach: "ctx_ok info a \<Longrightarrow> reach a n0 xs ss n \<Longrightarrow> yields (SNetRouteDynamicExit D info i location n) (reach a n0 xs ss)"
  using dynamic_exit[of info a n i location] reach_inv[of a n0 xs ss n] by (auto intro: reach_grow)

lemma route_other:
  assumes "reach a n0 xs ss n" and "reach b n ys ss n" and "b \<noteq> a" and "next_vec n0 \<le> b" and "ctx_ok info b" and "input \<in> set ss"
  shows "yields (SNetRouteUpdate D info input location n) (reach_out a n0 xs ss)"
  by (rule yields_weaken[OF route_reach[OF assms(5,2,6)]]) (auto dest: reach_other[OF assms(1) _ assms(3,4)])

lemma leaf_builds:
  assumes pre: "operand_pre info a input net"
    and step: "\<And>xs input n. reach a net xs [input] n \<Longrightarrow> yields (g input n) (reach_out a net xs [])"
  shows "yields (bindR (SNetRouteUpdate D info input location net) (\<lambda>(input, n). g input n)) (startup_post a net)"
proof -
  have c: "ctx_ok info a" using pre by (simp add: operand_pre_def)
  have "yields (bindR (SNetRouteUpdate D info input location net) (\<lambda>(input, n). g input n)) (reach_out a net (vec_items net a) [])"
    by (rule yields_bind[OF route_reach[OF c reach_start[OF pre], of input location]]) (auto dest: reach_drop(1) intro!: step)
  then show ?thesis by (rule reach_post[OF pre])
qed

lemma pre_get: "operand_pre info a input net \<Longrightarrow> SNetLocvecGet info = Ok a"
  by (simp add: operand_pre_def ctx_ok_def)

lemma spawn_local:
  assumes "reach a n0 xs [input] n"
  shows "yields (bindR (SNetEntityCreate descr node a name ins outs args (snd (new_stream n))) (\<lambda>net. Ok (fst (new_stream n), net)))
    (reach_out a n0 xs [])"
  using spawn_reach[OF assms] by simp

lemmas leaf_simps = pre_get Let_def split_beta spawn_local

lemma sync_operand: "operand_fun (SNetSync D pats guards)"
  by standard (simp add: SNetSync_def pre_get, rule leaf_builds, assumption, simp add: leaf_simps)

lemma nameshift_operand: "operand_fun (SNetNameShift D offset)"
  by standard (unfold SNetNameShift_def, rule leaf_builds, assumption, simp add: leaf_simps)

lemma filter_operand:
  assumes "filter_ok guards args"
  shows "operand_fun (filter_with_args D name v guards args)"
proof -
  obtain ins b where f: "mapR build_instr (take (ListLength guards) args) = Ok ins" "FilterIsBypass \<lparr>input_variant = v, guard_exprs = guards, filter_instructions = ins\<rparr> = Ok b"
    using filter_bypass_Ok[OF assms, of v] by blast
  have "filter_with_args D name v guards args = CreateFilter D \<lparr>input_variant = v, guard_exprs = guards, filter_instructions = ins\<rparr> name"
    using assms f(1) by (intro ext) (simp add: filter_with_args_def filter_ok_def)
  then show ?thesis
    by unfold_locales (simp only: CreateFilter_def, rule leaf_builds, assumption, simp add: leaf_simps f(2))
qed

lemma box_operand:
  assumes "box_type ovs"
  shows "operand_fun (SNetBox D name er_create ovs)"
proof -
  obtain vs where "box_variants ovs = Ok vs" using box_variants_Ok[OF assms] by blast
  then show ?thesis by unfold_locales (simp only: SNetBox_def, rule leaf_builds, assumption, simp add: leaf_simps)
qed

lemma leave_step:
  assumes "yields body (\<lambda>(out, n). \<exists>k. P k \<and> reach a net (vec_items net a @ [loc t k]) [out] n)"
    and "\<And>v k. locvec_inv v \<Longrightarrow> items v = vec_items net a @ [loc t k] \<Longrightarrow> P k \<Longrightarrow> yields (leave v) (\<lambda>v. locvec_inv v \<and> items v = vec_items net a)"
  shows "yields (bindR body (\<lambda>(out, net). bindR (on_vec a leave net) (\<lambda>net. Ok (out, net)))) (startup_post a net)"
proof (rule yields_bind[OF assms(1)])
  fix p assume "case p of (out, n) \<Rightarrow> \<exists>k. P k \<and> reach a net (vec_items net a @ [loc t k]) [out] n"
  then obtain out n k where [simp]: "p = (out, n)" and k: "P k" "reach a net (vec_items net a @ [loc t k]) [out] n" by (cases p) auto
  have "yields (on_vec a leave n) (reach a net (vec_items net a) [out])" by (rule on_vec_reach[OF k(2)]) (use k(1) assms(2) in blast)
  then show "yields (case p of (out, net) \<Rightarrow> bindR (on_vec a leave net) (\<lambda>net. Ok (out, net))) (startup_post a net)"
    by (auto simp: startup_post_def reach_def elim!: yields_bind)
qed

lemma feedback_operand:
  assumes "startup_fun f"
  shows "operand_fun (SNetFeedback D f)"
proof
  fix info a input net location assume pre: "operand_pre info a input net"
  have c: "ctx_ok info a" using pre by (simp add: operand_pre_def)
  note f = startup_reach_same[OF assms c, of _ _ "loc LOC_FEEDBACK (-1)", simplified]
  show "yields (SNetFeedback D f input info location net) (startup_post a net)"
    unfolding SNetFeedback_def pre_get[OF pre] bindR.simps
    apply (rule on_vec_bind[OF reach_start[OF pre] enter_yields(3)], assumption+)
    apply (rule out_bind[OF route_reach[OF c]], assumption, simp)
    apply (rule leave_step[of _ "\<lambda>_. True" _ _ LOC_FEEDBACK])
     apply (rule if_splits[THEN iffD2])
     apply (intro conjI impI)
      apply (rule stream_bind, assumption)+
      apply (rule entity_bind, assumption)+
      apply (rule out_bind[OF f], assumption, simp)
      apply (rule out_bind[OF route_reach[OF c]], assumption, simp)
      apply (rule entity_bind, assumption)
    subgoal by (auto simp: reach_def)
    subgoal
      apply (rule out_bind[OF f], assumption, simp)
      apply (rule yields_weaken[OF route_reach[OF c]], assumption, simp)
      by (auto simp: reach_def)
    subgoal by (rule leave_yields(3)) auto
    done
qed

lemma star_startup: "startup_fun (CreateStar D False is_det)"
proof
  fix info a input net location assume "startup_pre info a input net"
  then have pre: "operand_pre info a input net" and c: "ctx_ok info a" and top: "\<And>v. items v = vec_items net a \<Longrightarrow> top_type v \<noteq> LOC_STAR"
    by (simp_all add: startup_pre_def operand_pre_def top_type_def split: if_splits)
  show "yields (CreateStar D False is_det input info location net) (startup_post a net)"
    unfolding CreateStar_def pre_get[OF pre] bindR.simps ctx_copy[OF c] not_False_eq_True if_True
    apply (rule on_vec_bind[OF reach_start[OF pre] enter_yields(4)], assumption+, erule top)
    apply (rule out_bind[OF route_reach[OF c]], assumption, simp)
    apply (rule leave_step[of _ "\<lambda>k. k = -1" _ _ LOC_STAR])
     apply (rule if_splits[THEN iffD2], intro conjI impI)
      apply (rule stream_bind, assumption, rule copy_bind, assumption)
    subgoal for _ _ _ _ _ b
      apply (rule ctx_set[OF c, of b], simp only: bindR.simps, rule entity_bind, assumption)
      apply (rule yields_weaken[OF collector_reach(1)[OF c]], assumption)
      by (auto simp: reach_def)
    subgoal by (simp add: reach_drop(1))
    subgoal by (rule leave_yields(4)) auto
    done
qed

lemma incarnate_operand: "operand_fun (CreateStar D True is_det)"
proof
  fix info a input net location assume pre: "operand_pre info a input net"
  have c: "ctx_ok info a" using pre by (simp add: operand_pre_def)
  have "yields (CreateStar D True is_det input info location net) (reach_out a net (vec_items net a) [])"
    unfolding CreateStar_def pre_get[OF pre] bindR.simps ctx_copy[OF c] not_True_eq_False if_False
    apply (rule out_bind[OF route_reach[OF c reach_start[OF pre]]], simp)
    apply (rule yields_bind[where P = "reach_out a net (vec_items net a) []"])
     apply (rule if_splits[THEN iffD2], intro conjI impI)
      apply (rule stream_bind, assumption, rule copy_bind, assumption)
    subgoal for _ _ _ _ b
      apply (rule ctx_set[OF c, of b], simp only: bindR.simps, rule entity_bind, assumption)
      by (auto simp: reach_def)
    by (auto simp: reach_def)
  then show "yields (CreateStar D True is_det input info location net) (startup_post a net)" by (rule reach_post[OF pre])
qed

lemma split_operand: "operand_fun (CreateSplit D ltag utag is_byloc is_det)"
proof
  fix info a input net location assume pre: "operand_pre info a input net"
  have c: "ctx_ok info a" using pre by (simp add: operand_pre_def)
  show "yields (CreateSplit D ltag utag is_byloc is_det input info location net) (startup_post a net)"
    unfolding CreateSplit_def pre_get[OF pre] bindR.simps ctx_copy[OF c]
    apply (rule on_vec_bind[OF reach_start[OF pre] enter_yields(2)], assumption+)
    apply (rule copy_bind, assumption)
    subgoal for _ b
      apply (rule ctx_set[OF c, of b], simp only: bindR.simps prod.case)
      apply (rule out_bind[OF route_other], assumption+, simp)
      apply (rule leave_step[of _ "\<lambda>k. True" _ _ LOC_SPLIT])
       apply (rule if_splits[THEN iffD2], intro conjI impI)
        apply (rule stream_bind, assumption, rule entity_bind, assumption)
        apply (rule yields_weaken[OF collector_reach(1)[OF c]], assumption)
      subgoal by (auto simp: reach_def)
      subgoal by (auto simp: reach_def)
      subgoal by (rule leave_yields(2)) auto
      done
    done
qed

lemma par_next: "locvec_inv v \<Longrightarrow> items v = xs @ [loc LOC_PARALLEL k] \<Longrightarrow>
    yields (SNetLocvecParallelNext v) (\<lambda>v'. locvec_inv v' \<and> items v' = xs @ [loc LOC_PARALLEL (k + 1)])"
  using topinc_yields[of v xs "loc LOC_PARALLEL k"] by (simp add: SNetLocvecParallelNext_def assert_top_spec)

lemma par_reset: "locvec_inv v \<Longrightarrow> items v = xs @ [loc LOC_PARALLEL k] \<Longrightarrow>
    yields (SNetLocvecParallelReset v) (\<lambda>v'. locvec_inv v' \<and> items v' = xs @ [loc LOC_PARALLEL (-1)])"
  unfolding SNetLocvecParallelReset_def
  by (rule yields_bind[OF leave_yields(1)], assumption+, simp) (blast intro: enter_yields(1))

lemma branch_yields:
  assumes "ctx_ok info a" and "i < length funs" and "\<forall>f\<in>set funs. startup_fun f" and "par_ok a net xs s n"
  shows "yields (branch_step D funs a info location (ts, cs, n) i) (\<lambda>(ts', cs', n'). cs' \<noteq> [] \<and> par_ok a net xs s n')"
proof -
  from assms(4) obtain k where k: "reach a net (xs @ [loc LOC_PARALLEL k]) [s] n" by (auto simp: par_ok_def)
  have f: "startup_fun (funs ! i)" using assms(2,3) by simp
  show ?thesis
    unfolding branch_step_def prod.case ctx_copy[OF assms(1)] bindR.simps if_P[OF assms(2)]
    apply (rule stream_bind[OF k], rule on_vec_bind[OF _ par_next], assumption+)
    apply (rule out_bind[OF startup_reach_same[OF f assms(1)]], assumption, simp, simp, simp)
    apply (rule out_bind[OF route_reach[OF assms(1)]], assumption, simp)
    by (auto simp: par_ok_def reach_def)
qed

lemma remote_yields:
  assumes "ctx_ok info a" and "i < length funs" and "\<forall>f\<in>set funs. startup_fun f" and "par_ok a net xs s n"
  shows "yields (remote_step D funs a info location (s, n) i) (\<lambda>(s', n'). par_ok a net xs s' n')"
proof -
  from assms(4) obtain k where k: "reach a net (xs @ [loc LOC_PARALLEL k]) [s] n" by (auto simp: par_ok_def)
  have f: "startup_fun (funs ! i)" using assms(2,3) by simp
  show ?thesis
    unfolding remote_step_def prod.case ctx_copy[OF assms(1)] bindR.simps if_P[OF assms(2)]
    apply (rule on_vec_bind[OF k par_next], assumption+)
    apply (rule out_bind[OF startup_reach_same[OF f assms(1)]], assumption, simp, simp, simp)
    apply (rule yields_weaken[OF route_reach[OF assms(1)]], assumption, simp)
    by (auto simp: par_ok_def reach_def)
qed

lemma parallel_operand:
  assumes "\<forall>f\<in>set funs. startup_fun f" and "0 < ListLength vls" and "ListLength vls \<le> length funs"
  shows "operand_fun (CreateParallel D vls funs is_det)"
proof
  fix info a input net location assume pre: "operand_pre info a input net"
  have c: "ctx_ok info a" using pre by (simp add: operand_pre_def)
  let ?xs = "vec_items net a"
  have loop: "yields (foldR (branch_step D funs a info location) ([], [], n) [0..<ListLength vls])
      (\<lambda>(ts, cs, n). cs \<noteq> [] \<and> par_ok a net ?xs s n)" if "par_ok a net ?xs s n" for s n
  proof -
    have u: "[0..<ListLength vls] = 0 # [1..<ListLength vls]" using assms(2) by (simp add: upt_rec)
    have "yields (bindR (branch_step D funs a info location ([], [], n) 0) (\<lambda>s. foldR (branch_step D funs a info location) s [1..<ListLength vls]))
        (\<lambda>(ts, cs, n). cs \<noteq> [] \<and> par_ok a net ?xs s n)"
      apply (rule yields_bind[OF branch_yields[OF c _ assms(1) that]])
      subgoal using assms(2,3) by linarith
      apply (erule yields_foldR)
      using branch_yields[OF c _ assms(1)] assms(3) by (auto intro!: branch_yields[OF c _ assms(1)])
    then show ?thesis unfolding u by simp
  qed
  have remote: "yields (foldR (remote_step D funs a info location) (s, n) [0..<ListLength vls]) (\<lambda>(s, n). par_ok a net ?xs s n)"
    if "par_ok a net ?xs s n" for s n
    by (rule yields_foldR) (use that assms(3) in \<open>auto intro!: remote_yields[OF c _ assms(1)]\<close>)
  show "yields (CreateParallel D vls funs is_det input info location net) (startup_post a net)"
    unfolding CreateParallel_def Let_def pre_get[OF pre] bindR.simps
    apply (rule on_vec_bind[OF reach_start[OF pre] enter_yields(1)], assumption+)
    apply (rule out_bind[OF route_reach[OF c]], assumption, simp)
    apply (rule leave_step[of _ "\<lambda>_. True" _ _ LOC_PARALLEL])
     apply (rule if_splits[THEN iffD2], intro conjI impI)
    subgoal for _ s n
      apply (rule yields_bind[OF loop[of s n]])
       apply (force simp: par_ok_def reach_def)
      apply (clarify, unfold prod.case par_ok_def, elim conjE exE)
      apply (rule on_vec_bind[OF _ par_reset], assumption+)
      apply (rule entity_bind, assumption)
      apply (rule yields_weaken[OF collector_reach(2)[OF c]], assumption, assumption)
      by (auto simp: reach_def)
    subgoal for _ s n
      apply (rule yields_weaken[OF remote[of s n]])
      by (force simp: par_ok_def reach_def)+
    subgoal by (rule leave_yields(1)) auto
    done
qed

end

section \<open>Networks\<close>

text \<open>
  The functions that the compiler generates for a network call the creation functions in the
  shape of the network; the terms describe these shapes. The operand of a serial replication (star)
  or of an indexed parallel replication (split) is not created now but by the running task.
\<close>

datatype network =
  Sync "snet_variant snet_list" "snet_expr snet_list" | Filter_Net snet_variant "snet_expr snet_list" "instr_list snet_list option list" |
  Translate_Net snet_variant "snet_expr snet_list" "instr_list snet_list option list" | NameShift int | Box string realm_create "int_list snet_list" |
  Serial network network | Parallel_Net bool "variant_list snet_list" "network list" |
  Split_Net bool bool int int network | Star_Net bool network | Feedback network | Alias network

fun build :: "dist \<Rightarrow> network \<Rightarrow> startup" where
  "build D (Sync pats guards) = SNetSync D pats guards"
| "build D (Filter_Net v guards args) = SNetFilter D v guards args"
| "build D (Translate_Net v guards args) = SNetTranslate D v guards args"
| "build D (NameShift offset) = SNetNameShift D offset"
| "build D (Box name er_create ovs) = SNetBox D name er_create ovs"
| "build D (Serial p q) = SNetSerial (build D p) (build D q)"
| "build D (Parallel_Net is_det vls ps) = CreateParallel D vls (map (build D) ps) is_det"
| "build D (Split_Net is_byloc is_det ltag utag p) = CreateSplit D ltag utag is_byloc is_det"
| "build D (Star_Net is_det p) = CreateStar D False is_det"
| "build D (Feedback p) = SNetFeedback D (build D p)"
| "build D (Alias p) = SNetAlias (build D p)"

text \<open>What the compiler guarantees: the lists of operands, of instructions and of labels are complete.\<close>

fun well_formed :: "network \<Rightarrow> bool" where
  "well_formed (Filter_Net v guards args) = filter_ok guards args"
| "well_formed (Translate_Net v guards args) = filter_ok guards args"
| "well_formed (Box name er_create ovs) = box_type ovs"
| "well_formed (Serial p q) = (well_formed p \<and> well_formed q)"
| "well_formed (Parallel_Net is_det vls ps) = (0 < ListLength vls \<and> ListLength vls \<le> length ps \<and> (\<forall>p\<in>set ps. well_formed p))"
| "well_formed (Feedback p) = well_formed p"
| "well_formed (Alias p) = well_formed p"
| "well_formed _ = True"

text \<open>Serial replications, which must not stand directly in the operand of another one.\<close>

fun is_star :: "network \<Rightarrow> bool" where
  "is_star (Star_Net is_det p) = True"
| "is_star (Alias p) = is_star p"
| "is_star _ = False"

context distribution
begin

lemma build_operand: "well_formed p \<Longrightarrow> (if is_star p then startup_fun (build D p) else operand_fun (build D p))"
proof (induction p)
  case (Parallel_Net is_det vls ps)
  then have "startup_fun (build D q)" if "q \<in> set ps" for q
    using Parallel_Net.IH[OF that] that by (auto split: if_splits intro: operand_startup)
  with Parallel_Net.prems show ?case by (auto intro!: parallel_operand)
next
  case (Alias p)
  moreover have "SNetAlias (build D p) = build D p" by (intro ext) (simp add: SNetAlias_def)
  ultimately show ?case by simp
qed (auto simp: sync_operand nameshift_operand split_operand star_startup filter_operand box_operand SNetFilter_def SNetTranslate_def intro!: serial_operand feedback_operand
      split: if_splits intro: operand_startup)

lemma build_startup: "well_formed p \<Longrightarrow> startup_fun (build D p)"
  using build_operand[of p] by (auto split: if_splits intro: operand_startup)

end

text \<open>The start of a network by \<open>SNetInRun\<close>, up to the tasks for input and output.\<close>

definition initial_net :: net where
  "initial_net = \<lparr>next_stream = 0, vec_heap = (\<lambda>_. SNetLocvecCreate), next_vec = 0, stream_source = (\<lambda>_. None), entities = []\<rparr>"

definition SNetInRun :: "dist \<Rightarrow> startup \<Rightarrow> (stream_id \<times> stream_id \<times> net) res" where
  "SNetInRun D f =
     (let info = SNetInfoInit 0; (locvec, net) = new_vec SNetLocvecCreate initial_net in
      bindR (SNetLocvecSet 0 info locvec) (\<lambda>(info, _).
      let (input_stream, net) = new_stream net in
      bindR (f input_stream info 0 net) (\<lambda>(output_stream, net).
      bindR (SNetRouteUpdate D info output_stream 0 net) (\<lambda>(output_stream, net). Ok (input_stream, output_stream, net)))))"

lemma start_info: "\<exists>info. SNetLocvecSet 0 (SNetInfoInit 0) 0 = Ok (info, []) \<and> ctx_ok info 0"
  by (simp add: SNetLocvecSet_def SNetInfoInit_def ctx_ok_def SNetLocvecGet_def LOCVEC_INFO_TAG_def info_inv_def)

lemma SNetInRun_nodist:
  assumes "startup_fun f"
  shows "yields (SNetInRun nodist f) (\<lambda>(i, out, net). vec_items net 0 = [] \<and> out < next_stream net)"
proof -
  obtain v n s n1 where v: "new_vec SNetLocvecCreate initial_net = (v, n)" and n1: "new_stream n = (s, n1)" by fastforce
  obtain info where i: "SNetLocvecSet 0 (SNetInfoInit 0) 0 = Ok (info, [])" "ctx_ok info 0" using start_info by blast
  have v0: "v = 0" using v by (simp add: new_vec_def initial_net_def)
  have "startup_pre info 0 s n1" using v n1 i(2)
    by (auto simp: startup_pre_def operand_pre_def new_vec_def new_stream_def initial_net_def SNetLocvecCreate_spec top_type_def)
  from startup_fun.builds[OF assms this, of 0] show ?thesis
    unfolding SNetInRun_def v n1 Let_def prod.case v0 i bindR.simps
    by (rule yields_bind) (use v n1 in \<open>auto simp: startup_post_def loc_ext_def nodist_def new_vec_def new_stream_def initial_net_def SNetLocvecCreate_spec\<close>)
qed

end
