(* ===== verification/Wiring.thy ===== *)
theory Wiring
  imports Network
begin

text \<open>
  How the streams of a network are connected. A stream has one producer and one consumer
  (\<open>SNetStreamOpen\<close> in mode \<open>w\<close> and in mode \<open>r\<close>): the creation functions hand each stream that they
  create to one entity that writes to it and to one entity that reads from it. The theory counts
  readers and writers while a network is built on one node.
\<close>

definition reads :: "net \<Rightarrow> stream_id list" where
  "reads net = concat (map ent_inputs (entities net))"

definition writes :: "net \<Rightarrow> stream_id list" where
  "writes net = concat (map ent_outputs (entities net))"

text \<open>The number of readers (writers) of a stream, less one when the stream exists.\<close>

definition bal_r :: "net \<Rightarrow> stream_id \<Rightarrow> int" where
  "bal_r net x = int (count_list (reads net) x) - of_bool (x < next_stream net)"

definition bal_w :: "net \<Rightarrow> stream_id \<Rightarrow> int" where
  "bal_w net x = int (count_list (writes net) x) - of_bool (x < next_stream net)"

text \<open>What a startup function does: it consumes its input and leaves its output without a reader.\<close>

definition wires :: "stream_id \<Rightarrow> net \<Rightarrow> stream_id \<Rightarrow> net \<Rightarrow> bool" where
  "wires input n out n' \<longleftrightarrow>
     (\<forall>x. bal_r n' x + of_bool (x = out) = bal_r n x + of_bool (x = input) \<and> bal_w n' x = bal_w n x)"

locale wired_fun =
  fixes f :: startup
  assumes wires: "f input info location n = Ok (out, n') \<Longrightarrow> wires input n out n'"

section \<open>Steps\<close>

lemma int_count_Cons: "int (count_list (y # ys) x) = of_bool (x = y) + int (count_list ys x)"
  by simp

declare count_list.simps(2) [simp del]

text \<open>The new stream and the new address as terms, so that the steps of a creation function simplify.\<close>

lemma new_stream_case: "(case new_stream n of (s, n') \<Rightarrow> F s n') = F (next_stream n) (snd (new_stream n))"
  by (simp add: new_stream_def)

lemma new_vec_case: "(case new_vec v n of (b, n') \<Rightarrow> F b n') = F (next_vec n) (snd (new_vec v n))"
  by (simp add: new_vec_def)

lemma new_stream_bal:
  "bal_r (snd (new_stream n)) x = bal_r n x - of_bool (x = next_stream n)"
  "bal_w (snd (new_stream n)) x = bal_w n x - of_bool (x = next_stream n)"
  by (auto simp: new_stream_def bal_r_def bal_w_def reads_def writes_def)

lemma entity_bal:
  assumes "SNetEntityCreate descr node a name ins outs args n = Ok n'"
  shows "bal_r n' x = bal_r n x + int (count_list ins x)" and "bal_w n' x = bal_w n x + int (count_list outs x)"
  using assms by (auto simp: SNetEntityCreate_def bal_r_def bal_w_def reads_def writes_def)

lemma on_vec_bal: "on_vec a f n = Ok n' \<Longrightarrow> bal_r n' = bal_r n \<and> bal_w n' = bal_w n"
  by (auto simp: on_vec_def bal_r_def bal_w_def reads_def writes_def)

lemma new_vec_bal [simp]: "bal_r (snd (new_vec v n)) = bal_r n" "bal_w (snd (new_vec v n)) = bal_w n"
  by (auto simp: new_vec_def bal_r_def bal_w_def reads_def writes_def)

lemma heap_bal [simp]: "bal_r (n\<lparr>vec_heap := h\<rparr>) = bal_r n" "bal_w (n\<lparr>vec_heap := h\<rparr>) = bal_w n"
  by (auto simp: bal_r_def bal_w_def reads_def writes_def)

lemma wires_refl: "wires s n s n"
  by (simp add: wires_def)

lemma wires_trans: "wires s n t n1 \<Longrightarrow> wires t n1 out n2 \<Longrightarrow> wires s n out n2"
  by (simp add: wires_def)

lemma wires_vec: "bal_r n1 = bal_r n \<and> bal_w n1 = bal_w n \<Longrightarrow> wires s n t n' \<longleftrightarrow> wires s n1 t n'"
  "bal_r n1 = bal_r n' \<and> bal_w n1 = bal_w n' \<Longrightarrow> wires s n t n' \<longleftrightarrow> wires s n t n1"
  by (simp_all add: wires_def)

lemma spawn_wires:
  assumes "SNetEntityCreate descr node a name [input] [next_stream n] args (snd (new_stream n)) = Ok n'"
  shows "wires input n (next_stream n) n'"
  by (simp add: wires_def new_stream_bal entity_bal[OF assms] int_count_Cons)

lemma nodist_simps [simp]: "SNetRouteUpdate nodist info input location n = Ok (input, n)" "SNetDistribIsNodeLocation nodist location"
  by (simp_all add: nodist_def)

lemmas creation_simps = Let_def int_count_Cons new_stream_case new_vec_case new_stream_bal entity_bal

section \<open>The creation functions\<close>

interpretation sync: wired_fun "SNetSync nodist pats guards"
  by standard (auto simp: SNetSync_def creation_simps intro: spawn_wires)

interpretation nameshift: wired_fun "SNetNameShift nodist offset"
  by standard (auto simp: SNetNameShift_def creation_simps intro: spawn_wires)

interpretation filter: wired_fun "CreateFilter nodist farg name"
  by standard (auto simp: CreateFilter_def creation_simps split: if_splits intro: spawn_wires wires_refl)

interpretation filter_args: wired_fun "filter_with_args nodist name v guards args"
  by standard (auto simp: filter_with_args_def split: if_splits intro: filter.wires)

interpretation box: wired_fun "SNetBox nodist name er_create ovs"
  by standard (auto simp: SNetBox_def creation_simps intro: spawn_wires)

lemma collector_dynamic: "CollectorCreateDynamic s location info n = Ok (out, n') \<Longrightarrow> wires s n out n'"
  by (auto simp: CollectorCreateDynamic_def creation_simps intro: spawn_wires)

lemma collector_static:
  assumes "CollectorCreateStatic ss location info n = Ok (out, n')"
  shows "bal_r n' x + of_bool (x = out) = bal_r n x + int (count_list ss x)" and "bal_w n' x = bal_w n x"
  using assms by (auto simp: CollectorCreateStatic_def creation_simps split: if_splits)

lemma wired_serial:
  assumes "wired_fun f" and "wired_fun g"
  shows "wired_fun (SNetSerial f g)"
proof
  fix input info location n out n' assume "SNetSerial f g input info location n = Ok (out, n')"
  then obtain a b v s n1 n2 n3 where c: "f input info location (n\<lparr>vec_heap := (vec_heap n)(a := v)\<rparr>) = Ok (s, n1)"
    "on_vec a SNetLocvecSerialNext n1 = Ok n2" "g s info location n2 = Ok (out, n3)" "on_vec a (\<lambda>v. SNetLocvecSerialLeave v b) n3 = Ok n'"
    by (auto simp: SNetSerial_def Let_def)
  show "wires input n out n'"
    using wired_fun.wires[OF assms(1) c(1)] wired_fun.wires[OF assms(2) c(3)] on_vec_bal[OF c(2)] on_vec_bal[OF c(4)] by (simp add: wires_def)
qed

interpretation star: wired_fun "CreateStar nodist False is_det"
proof
  fix input info location n out n' assume "CreateStar nodist False is_det input info location n = Ok (out, n')"
  then obtain a n1 n2 n3 v where c: "on_vec a SNetLocvecStarEnter n = Ok n1"
    "SNetEntityCreate ENTITY_star location a ''<star>'' [input] [next_stream n1] [of_bool is_det, 0, location] (snd (new_vec v (snd (new_stream n1)))) = Ok n2"
    "CollectorCreateDynamic (next_stream n1) location info n2 = Ok (out, n3)" "on_vec a SNetLocvecStarLeave n3 = Ok n'"
    by (auto simp: CreateStar_def creation_simps)
  show "wires input n out n'"
    using collector_dynamic[OF c(3)] on_vec_bal[OF c(1)] on_vec_bal[OF c(4)] by (simp add: wires_def entity_bal[OF c(2)] new_stream_bal int_count_Cons)
qed

interpretation split: wired_fun "CreateSplit nodist ltag utag is_byloc is_det"
proof
  fix input info location n out n' assume "CreateSplit nodist ltag utag is_byloc is_det input info location n = Ok (out, n')"
  then obtain a n1 n2 n3 n0 args v where c: "on_vec a SNetLocvecSplitEnter n = Ok n1" "n0 = snd (new_vec v n1)"
    "SNetEntityCreate ENTITY_split location a ''<split>'' [input] [next_stream n0] args (snd (new_stream n0)) = Ok n2"
    "CollectorCreateDynamic (next_stream n0) location info n2 = Ok (out, n3)" "on_vec a SNetLocvecSplitLeave n3 = Ok n'"
    by (auto simp: CreateSplit_def creation_simps)
  show "wires input n out n'"
    using collector_dynamic[OF c(4)] on_vec_bal[OF c(1)] on_vec_bal[OF c(5)] by (simp add: wires_def entity_bal[OF c(3)] new_stream_bal c(2) int_count_Cons)
qed

lemma wired_feedback:
  assumes "wired_fun f"
  shows "wired_fun (SNetFeedback nodist f)"
proof
  fix input info location n out n' assume "SNetFeedback nodist f input info location n = Ok (out, n')"
  then obtain a n0 n1 n2 n3 n4 n5 n6 n7 n8 s where c: "on_vec a SNetLocvecFeedbackEnter n = Ok n0"
    "n1 = snd (new_stream n0)" "n2 = snd (new_stream n1)" "n3 = snd (new_stream n2)" "n4 = snd (new_stream n3)"
    "SNetEntityCreate ENTITY_fbbuf location a ''<fbbuf>'' [next_stream n3] [next_stream n2] [FEEDBACK_BACKCHAN_CAPACITY] n4 = Ok n5"
    "SNetEntityCreate ENTITY_fbcoll location a ''<fbcoll>'' [input, next_stream n2] [next_stream n0] [] n5 = Ok n6"
    "f (next_stream n0) info location n6 = Ok (s, n7)"
    "SNetEntityCreate ENTITY_fbdisp location a ''<fbdisp>'' [s] [next_stream n1, next_stream n3] [] n7 = Ok n8"
    "on_vec a SNetLocvecFeedbackLeave n8 = Ok n'" "out = next_stream n1"
    by (auto simp: SNetFeedback_def creation_simps)
  have "bal_r n' x + of_bool (x = out) = bal_r n x + of_bool (x = input) \<and> bal_w n' x = bal_w n x" for x
    using wired_fun.wires[OF assms c(8), unfolded wires_def, rule_format, of x] on_vec_bal[OF c(1)] on_vec_bal[OF c(10)]
    by (simp add: entity_bal[OF c(6)] entity_bal[OF c(7)] entity_bal[OF c(9)] c(2-5,11) new_stream_bal int_count_Cons)
  then show "wires input n out n'" by (simp add: wires_def)
qed

text \<open>The loop over the branches: the streams for the collector have no reader yet, those of the dispatcher no writer.\<close>

lemma branch_bal:
  assumes "branch_step nodist funs a info location (ts, cs, n) i = Ok (ts', cs', n')" and "\<forall>f\<in>set funs. wired_fun f"
  shows "bal_r n' x + int (count_list cs' x) = bal_r n x + int (count_list cs x)"
    and "bal_w n' x + int (count_list ts' x) = bal_w n x + int (count_list ts x)"
proof -
  from assms(1) obtain n1 info' c where i: "i < length funs" and c: "on_vec a SNetLocvecParallelNext (snd (new_stream n)) = Ok n1"
    "(funs ! i) (next_stream n) info' location n1 = Ok (c, n')" "ts' = ts @ [next_stream n]" "cs' = cs @ [c]"
    by (auto simp: branch_step_def creation_simps split: if_splits)
  have w: "wired_fun (funs ! i)" using i assms(2) by simp
  show "bal_r n' x + int (count_list cs' x) = bal_r n x + int (count_list cs x)"
    and "bal_w n' x + int (count_list ts' x) = bal_w n x + int (count_list ts x)"
    using wired_fun.wires[OF w c(2), unfolded wires_def, rule_format, of x] on_vec_bal[OF c(1)]
    by (simp_all add: c(3,4) new_stream_bal int_count_Cons)
qed

lemma branches_bal:
  assumes "foldR (branch_step nodist funs a info location) (ts, cs, n) is = Ok (ts', cs', n')" and "\<forall>f\<in>set funs. wired_fun f"
  shows "bal_r n' x + int (count_list cs' x) = bal_r n x + int (count_list cs x) \<and>
    bal_w n' x + int (count_list ts' x) = bal_w n x + int (count_list ts x)"
  using assms(1)
proof (induction "is" arbitrary: ts cs n)
  case (Cons i "is")
  then obtain ts1 cs1 n1 where s: "branch_step nodist funs a info location (ts, cs, n) i = Ok (ts1, cs1, n1)"
    "foldR (branch_step nodist funs a info location) (ts1, cs1, n1) is = Ok (ts', cs', n')" by auto
  show ?case using Cons.IH[OF s(2)] branch_bal[OF s(1) assms(2), of x] by simp
qed simp

lemma wired_parallel:
  assumes "\<forall>f\<in>set funs. wired_fun f"
  shows "wired_fun (CreateParallel nodist vls funs is_det)"
proof
  fix input info location n out n' assume "CreateParallel nodist vls funs is_det input info location n = Ok (out, n')"
  then obtain a n0 ts cs n1 n2 n3 n4 where c: "on_vec a SNetLocvecParallelEnter n = Ok n0"
    "foldR (branch_step nodist funs a info location) ([], [], n0) [0..<ListLength vls] = Ok (ts, cs, n1)"
    "on_vec a SNetLocvecParallelReset n1 = Ok n2"
    "SNetEntityCreate ENTITY_parallel location a ''<parallel>'' [input] ts [of_bool is_det] n2 = Ok n3"
    "CollectorCreateStatic cs location info n3 = Ok (out, n4)" "on_vec a SNetLocvecParallelLeave n4 = Ok n'"
    by (auto simp: CreateParallel_def Let_def)
  have "bal_r n' x + of_bool (x = out) = bal_r n x + of_bool (x = input) \<and> bal_w n' x = bal_w n x" for x
    using branches_bal[OF c(2) assms, of x] collector_static[OF c(5), of x] on_vec_bal[OF c(1)] on_vec_bal[OF c(3)] on_vec_bal[OF c(6)]
      entity_bal[OF c(4), of x] by (simp add: int_count_Cons)
  then show "wires input n out n'" by (simp add: wires_def)
qed

lemma build_wired: "wired_fun (build nodist p)"
proof (induction p)
  case (Alias p)
  moreover have "SNetAlias (build nodist p) = build nodist p" by (intro ext) (simp add: SNetAlias_def)
  ultimately show ?case by simp
qed (auto simp: SNetFilter_def SNetTranslate_def intro!: wired_serial wired_parallel wired_feedback
      intro: sync.wired_fun_axioms filter_args.wired_fun_axioms nameshift.wired_fun_axioms box.wired_fun_axioms split.wired_fun_axioms star.wired_fun_axioms)

section \<open>Properties\<close>

lemma SNetInRun_wires:
  assumes "SNetInRun nodist f = Ok (input, out, net)" and "wired_fun f"
  shows "count_list (reads net) x + of_bool (x = out) = of_bool (x < next_stream net)"
    and "count_list (writes net) x + of_bool (x = input) = of_bool (x < next_stream net)"
proof -
  let ?n0 = "snd (new_stream (snd (new_vec SNetLocvecCreate initial_net)))"
  from assms(1) obtain info where "f input info 0 ?n0 = Ok (out, net)" and i: "input = 0"
    by (auto simp: SNetInRun_def creation_simps new_vec_def initial_net_def)
  from wired_fun.wires[OF assms(2) this(1)] have w: "bal_r net x + of_bool (x = out) = bal_r ?n0 x + of_bool (x = input)" "bal_w net x = bal_w ?n0 x"
    by (simp_all add: wires_def)
  have b: "bal_r ?n0 x = - of_bool (x = 0)" "bal_w ?n0 x = - of_bool (x = 0)"
    by (simp_all add: new_stream_def new_vec_def initial_net_def bal_r_def bal_w_def reads_def writes_def)
  have "int (count_list (reads net) x) + of_bool (x = out) = of_bool (x < next_stream net)"
    using w(1) b(1) i by (simp add: bal_r_def)
  moreover have "int (count_list (writes net) x) + of_bool (x = input) = of_bool (x < next_stream net)"
    using w(2) b(2) i by (simp add: bal_w_def)
  ultimately show "count_list (reads net) x + of_bool (x = out) = of_bool (x < next_stream net)"
    and "count_list (writes net) x + of_bool (x = input) = of_bool (x < next_stream net)"
    by (simp_all only: of_nat_eq_iff[where 'a = int, symmetric] of_nat_add of_nat_of_bool)
qed

text \<open>
  C3. The creation of a well-formed network on one node cannot go wrong: no assertion of the location
  vectors, of the context or of a creation function fails and no memory is accessed out of bounds.
  The only way not to return is that a counter in a location vector leaves the range of \<open>int\<close>.
  When it returns, every operand has left the location vector as it found it.
\<close>

theorem network_creation:
  assumes "well_formed p"
  shows "case SNetInRun nodist (build nodist p) of
      Ok (input, out, net) \<Rightarrow> vec_items net 0 = [] \<and> out < next_stream net
    | Err e \<Rightarrow> e = SignedOverflow"
  using SNetInRun_nodist[OF nodist.build_startup[OF assms]] by (simp add: yields_def)

text \<open>A box with two output types, a filter with an instruction, a bypass, and combinators around them.\<close>

definition example_box :: network where
  "example_box = Box ''square'' (\<lambda>ovs vlist. int (ListLength vlist)) (pat_list [pat_list [0, 3, 1, 4], pat_list [2, 5]])"

definition example_filter :: "instr_list snet_list option \<Rightarrow> network" where
  "example_filter arg = Filter_Net \<lparr>v_tags = pat_list [], v_btags = pat_list [], v_fields = pat_list []\<rparr> (pat_list [E_NULL]) [arg]"

definition example_net :: network where
  "example_net = Serial (Parallel_Net True (pat_list [pat_list [], pat_list []]) [Serial (NameShift 3) example_box, Feedback (NameShift 1)])
     (Serial (example_filter (Some (pat_list [pat_list [SNetCreateFilterInstruction FArgs_create_record, SNetCreateFilterInstruction (FArgs_field 1 2)]])))
       (Serial (example_filter (Some (pat_list [pat_list [SNetCreateFilterInstruction FArgs_create_record]]))) (Star_Net False (NameShift 2))))"

lemma list_inv_pat_list: "list_inv (pat_list xs) \<and> list_of (pat_list xs) = xs"
  by (simp add: pat_list_def)

lemma example_net_ok: "well_formed example_net"
  by (auto simp: example_net_def example_box_def example_filter_def box_type_def filter_ok_def list_inv_pat_list ListLength_def less_Suc_eq nth_Cons')

theorem network_creation_witness:
  "case SNetInRun nodist (build nodist example_net) of
      Ok (input, out, net) \<Rightarrow> vec_items net 0 = [] \<and> out < next_stream net
    | Err e \<Rightarrow> e = SignedOverflow"
  by (rule network_creation[OF example_net_ok])

text \<open>
  C4. Every stream of a network has one producer and one consumer: when a network has been created on
  one node, each stream other than the output of the network is read by exactly one entity, and each
  stream other than its input is written by exactly one entity.
\<close>

theorem network_wiring:
  assumes "SNetInRun nodist (build nodist p) = Ok (input, out, net)" and "x < next_stream net"
  shows "count_list (reads net) x = (if x = out then 0 else 1) \<and> count_list (writes net) x = (if x = input then 0 else 1)"
  using SNetInRun_wires[OF assms(1) build_wired, of x] assms(2) by auto

lemma example_creation:
  "case SNetInRun nodist (build nodist example_net) of Ok (input, out, net) \<Rightarrow> input = 0 \<and> 1 < next_stream net \<and> out \<noteq> 1 | Err e \<Rightarrow> False"
  by code_simp

theorem network_wiring_witness:
  "case SNetInRun nodist (build nodist example_net) of
      Ok (input, out, net) \<Rightarrow> count_list (reads net) 1 = 1 \<and> count_list (writes net) 1 = 1
    | Err e \<Rightarrow> False"
proof -
  obtain input out net where n: "SNetInRun nodist (build nodist example_net) = Ok (input, out, net)" "input = 0" "1 < next_stream net" "out \<noteq> 1"
    using example_creation by (cases "SNetInRun nodist (build nodist example_net)") auto
  show ?thesis using network_wiring[OF n(1,3)] n(2,4) by (simp add: n(1))
qed

declare count_list.simps(2) [simp]

end
