(* ===== verification/Split.thy ===== *)
theory Split
  imports Wiring Hashtab
begin

text \<open>
  The parallel replicator (\<open>runtime/stream/entity/split.c\<close>). A record with the tag values \<open>l\<close> and \<open>u\<close> goes
  to the replicas \<open>l .. u\<close> of the operand network; a replica is created when a record first
  needs it. The task keeps its replicas in a hash table from index values to descriptors and in a stream
  set, so its state holds the network under construction too. The descriptor of a stream that the task
  creates is named by the stream.
\<close>

section \<open>The task\<close>

record split_arg =
  split_boxfun :: startup
  split_info :: info
  ltag :: int
  utag :: int
  split_det :: bool
  split_byloc :: bool
  split_location :: int

record split_state =
  split_done :: bool
  repos_tab :: "stream_id hashtab"
  repos_set :: "stream_id list"
  split_counter :: int
  split_seq :: "32 word"
  split_net :: net

text \<open>A new replica: stream, table entry, its own context and location vector, operand network, collector.\<close>

definition split_replica :: "dist \<Rightarrow> split_arg \<Rightarrow> int \<Rightarrow> split_state \<Rightarrow> (stream_id \<times> split_state \<times> 'r action list) res" where
  "split_replica D sarg i s =
     (let (newstream, net) = new_stream (split_net s) in
      bindR (HashtabPut (repos_tab s) i newstream) (\<lambda>tab.
      bindR (SNetInfoCopy (split_info sarg)) (\<lambda>info.
      bindR (SNetLocvecGet (split_info sarg)) (\<lambda>a.
      bindR (SNetLocvecSplitSpawn (vec_heap net a) i) (\<lambda>v.
      let (b, net) = new_vec v net in
      bindR (SNetLocvecSet 0 info b) (\<lambda>(info, _).
      let loc = (if split_byloc sarg then i else split_location sarg) in
      bindR (SNetRouteDynamicEnter D info i loc net) (\<lambda>net.
      bindR (split_boxfun sarg newstream info loc net) (\<lambda>(temp, net).
      bindR (SNetRouteUpdate D info temp (split_location sarg) net) (\<lambda>(temp, net).
      bindR (SNetRouteDynamicExit D info i loc net) (\<lambda>net.
      Ok (newstream, s\<lparr>repos_tab := tab, repos_set := set_put (repos_set s) newstream, split_net := net\<rparr>,
        [SOpen (Sd newstream) newstream] @ (if \<not> stream_null D temp then [SWrite Outstream (REC_collect temp)] else []))))))))))))"

text \<open>One index value: the record for the last one, copies for the others.\<close>

definition split_tag ::
  "('r \<Rightarrow> 'r) \<Rightarrow> int \<Rightarrow> dist \<Rightarrow> split_arg \<Rightarrow> 'r snet_record \<Rightarrow> int \<Rightarrow> split_state \<times> 'r action list \<Rightarrow> int \<Rightarrow> (split_state \<times> 'r action list) res" where
  "split_tag refCopy node D sarg rec utag_val = (\<lambda>(s, as) i.
     bindR (case HashtabGet (repos_tab s) i of Some outstream \<Rightarrow> Ok (outstream, s, []) | None \<Rightarrow> split_replica D sarg i s) (\<lambda>(outstream, s, as').
     bindR (if i \<noteq> utag_val then SNetRecCopy refCopy node (split_seq s) rec else Ok (rec, split_seq s)) (\<lambda>(r, seq).
     Ok (s\<lparr>split_seq := seq\<rparr>, as @ as' @ [SWrite (Sd outstream) r]))))"

definition write_all :: "stream_id list \<Rightarrow> 'r snet_record \<Rightarrow> 'r action list" where
  "write_all outs r = map (\<lambda>cur. SWrite (Sd cur) r) outs"

text \<open>The index \<open>i\<close> is incremented once more after the last value.\<close>

definition split_data ::
  "('r \<Rightarrow> 'r) \<Rightarrow> int \<Rightarrow> dist \<Rightarrow> split_arg \<Rightarrow> split_state \<Rightarrow> 'r snet_record \<Rightarrow> (split_state \<times> 'r action list) res" where
  "split_data refCopy node D sarg s rec =
     bindR (SNetRecGetTag rec (ltag sarg)) (\<lambda>ltag_val. bindR (SNetRecGetTag rec (utag sarg)) (\<lambda>utag_val.
     bindR (foldR (split_tag refCopy node D sarg rec utag_val) (s, []) [ltag_val..utag_val]) (\<lambda>(s, as).
     bindR (if ltag_val \<le> utag_val then c_int (utag_val + 1) else Ok 0) (\<lambda>_.
     let sort = REC_sort_end 0 (split_counter s);
         as' = (if split_det sarg then write_all (repos_set s) sort @ [SWrite Outstream sort] else []) in
     bindR (c_int (split_counter s + 1)) (\<lambda>c. Ok (s\<lparr>split_counter := c\<rparr>, as @ as'))))))"

definition split_term_step ::
  "('r \<Rightarrow> 'r) \<Rightarrow> int \<Rightarrow> 'r snet_record \<Rightarrow> 32 word \<times> 'r action list \<Rightarrow> stream_id \<Rightarrow> (32 word \<times> 'r action list) res" where
  "split_term_step refCopy node rec = (\<lambda>(seq, as) cur.
     bindR (SNetRecCopy refCopy node seq rec) (\<lambda>(r, seq). Ok (seq, as @ [SWrite (Sd cur) r, SClose (Sd cur) False])))"

fun split_round ::
  "('r \<Rightarrow> 'r) \<Rightarrow> int \<Rightarrow> dist \<Rightarrow> split_arg \<Rightarrow> split_state \<Rightarrow> 'r snet_record \<Rightarrow> (split_state \<times> 'r action list) res" where
  "split_round refCopy node D sarg s (REC_data d) = split_data refCopy node D sarg s (REC_data d)"
| "split_round refCopy node D sarg s (REC_sync st v) = Ok (s, [SReplace Instream st])"
| "split_round refCopy node D sarg s (REC_sort_end l n) =
     bindR (c_int (l + 1)) (\<lambda>l'. Ok (s, write_all (repos_set s) (REC_sort_end l' n) @ [SWrite Outstream (REC_sort_end l' n)]))"
| "split_round refCopy node D sarg s (REC_terminate b) =
     bindR (foldR (split_term_step refCopy node (REC_terminate b)) (split_seq s, []) (repos_set s)) (\<lambda>(seq, as).
     Ok (s\<lparr>split_done := True, repos_set := [], split_seq := seq\<rparr>, as @ [SWrite Outstream (REC_terminate b)]))"
| "split_round refCopy node D sarg s _ = Err AssertFail"

definition split_start :: "net \<Rightarrow> 32 word \<Rightarrow> split_state" where
  "split_start net seq = \<lparr>split_done = False, repos_tab = HashtabCreate 4, repos_set = [], split_counter = 0, split_seq = seq, split_net = net\<rparr>"

definition SplitBoxTask ::
  "('r \<Rightarrow> 'r) \<Rightarrow> int \<Rightarrow> dist \<Rightarrow> split_arg \<Rightarrow> net \<Rightarrow> 32 word \<Rightarrow> 'r snet_record list \<Rightarrow> (split_state \<times> 'r action list) res" where
  "SplitBoxTask refCopy node D sarg net seq rs =
     bindR (run_task split_done (split_round refCopy node D sarg) (split_start net seq) rs) (\<lambda>(s, as).
     Ok (s, as @ (if split_done s then [SClose Outstream False, SClose Instream True] else [])))"

section \<open>The replicas\<close>

abbreviation repos :: "split_state \<Rightarrow> int \<Rightarrow> stream_id option" where
  "repos s \<equiv> ht_lookup (repos_tab s)"

text \<open>The vector of the split at address \<open>a\<close> has a split item on top that no replica changes.\<close>

definition split_inv :: "split_arg \<Rightarrow> split_state \<Rightarrow> bool" where
  "split_inv sarg s \<longleftrightarrow> ht_inv (repos_tab s) \<and> set (repos_set s) = ran (repos s) \<and> distinct (repos_set s) \<and>
     inj_on (repos s) (dom (repos s)) \<and> (\<forall>x\<in>set (repos_set s). x < next_stream (split_net s)) \<and>
     (\<exists>a. ctx_ok (split_info sarg) a \<and> a < next_vec (split_net s) \<and> locvec_inv (vec_heap (split_net s) a) \<and> top_type (vec_heap (split_net s) a) = LOC_SPLIT)"

context distribution
begin

lemma split_replica_yields:
  assumes "split_inv sarg s" and "startup_fun (split_boxfun sarg)" and "repos s i = None" and "i \<noteq> HASHTAB_NOT_KEY"
  shows "yields (split_replica D sarg i s) (\<lambda>(out, s', as). split_inv sarg s' \<and> repos s' = (repos s)(i \<mapsto> out) \<and> out \<notin> ran (repos s) \<and>
     split_seq s' = split_seq s \<and> split_counter s' = split_counter s \<and> repos_set s' = repos_set s @ [out] \<and>
     (\<exists>t. as = [SOpen (Sd out) out, SWrite Outstream (REC_collect t)]))"
proof -
  let ?n = "split_net s"
  obtain a where a: "ctx_ok (split_info sarg) a" "a < next_vec ?n" "locvec_inv (vec_heap ?n a)" "top_type (vec_heap ?n a) = LOC_SPLIT"
    using assms(1) by (auto simp: split_inv_def)
  obtain out n1 where n1: "new_stream ?n = (out, n1)" by (cases "new_stream ?n")
  have out: "out = next_stream ?n" "vec_heap n1 = vec_heap ?n" using n1 by (auto simp: new_stream_def)
  have r1: "reach a ?n (vec_items ?n a) [out] n1"
    using new_stream_reach[OF _ n1, of a ?n "vec_items ?n a" "[]"] a by (simp add: reach_def grow_refl)
  obtain tab where tab: "HashtabPut (repos_tab s) i out = Ok tab" "ht_inv tab" "ht_lookup tab = (repos s)(i \<mapsto> out)"
    using HashtabPut_spec[of "repos_tab s" i out] assms(1,4) by (auto simp: split_inv_def)
  obtain v where v: "SNetLocvecSplitSpawn (vec_heap n1 a) i = Ok v" "locvec_inv v" "items v = butlast (vec_items ?n a) @ [loc LOC_SPLIT i]"
    using SNetLocvecSplitSpawn_spec[OF a(3,4), of i] out by auto
  obtain b n2 where n2: "new_vec v n1 = (b, n2)" by (cases "new_vec v n1")
  note r2 = new_vec_reach[OF r1 n2 v(2)]
  obtain info where info: "SNetLocvecSet 0 (split_info sarg) b = Ok (info, [])" "ctx_ok info b" using ctx_set[OF a(1)] by blast
  have fresh: "out \<notin> ran (repos s)" using assms(1) out by (auto simp: split_inv_def)
  have post: "split_inv sarg (s\<lparr>repos_tab := tab, repos_set := set_put (repos_set s) out, split_net := n'\<rparr>)" if "reach b n2 ys ss n'" "out \<in> set ss" for ys ss n'
  proof -
    have "reach a ?n (vec_items ?n a) ss n'" using reach_other[OF r2(1) that(1) r2(3,4)] .
    then have *: "next_stream ?n \<le> next_stream n'" "locvec_inv (vec_heap n' a)" "vec_items n' a = vec_items ?n a" "a < next_vec n'" "out < next_stream n'"
      using growD[of a ?n n'] that(2) by (auto simp: reach_def)
    then have "\<forall>x\<in>set (repos_set s). x < next_stream n'" using assms(1) by (auto simp: split_inv_def intro: order_less_le_trans)
    moreover have "top_type (vec_heap n' a) = LOC_SPLIT" using a(4) *(3) by (simp add: top_type_def split: if_splits)
    moreover have "inj_on ((repos s)(i \<mapsto> out)) (dom ((repos s)(i \<mapsto> out)))"
      using assms(1,3) fresh by (auto simp: split_inv_def inj_on_def ran_def dom_def)
    ultimately show ?thesis using assms(1,3) a(1) * tab fresh by (auto simp: split_inv_def set_put_def ran_map_upd)
  qed
  have c: "repos_set s @ [out] = set_put (repos_set s) out" by (simp add: set_put_def)
  show ?thesis
    unfolding split_replica_def n1 n2 Let_def prod.case tab(1) ctx_copy[OF a(1)] bindR.simps v(1) info(1)
      a(1)[unfolded ctx_ok_def, THEN conjunct2, THEN conjunct1]
    apply (rule yields_bind[OF enter_reach[OF info(2) r2(2)]])
    apply (rule out_bind[OF startup_reach_same[OF assms(2) info(2)]], simp add: v(3), simp, simp, simp)
    apply (rule out_bind[OF route_reach[OF info(2)]], assumption, simp)
    apply (rule yields_bind[OF exit_reach[OF info(2)]], assumption)
    by (auto simp: tab fresh c not_null intro: post)
qed

end

section \<open>A data record\<close>

definition copy_of :: "('r \<Rightarrow> 'r) \<Rightarrow> 'r data_rec \<Rightarrow> 'r snet_record \<Rightarrow> bool" where
  "copy_of c d r \<longleftrightarrow> (\<exists>d'. r = REC_data d' \<and>
     (d' = d \<or> data_ok d' \<and> field_map d' = map_option c \<circ> field_map d \<and> tag_map d' = tag_map d \<and> btag_map d' = btag_map d))"

text \<open>
  What the loop over the index values has done for the values \<open>xs\<close> when it started in \<open>s0\<close>: every
  replica of \<open>xs\<close> exists and has got the record, no other stream has, and each new replica
  has been announced to the collector.
\<close>

definition split_to :: "('r \<Rightarrow> 'r) \<Rightarrow> split_arg \<Rightarrow> 'r data_rec \<Rightarrow> split_state \<Rightarrow> int list \<Rightarrow> split_state \<times> 'r action list \<Rightarrow> bool" where
  "split_to c sarg d s0 xs = (\<lambda>(s, as). split_inv sarg s \<and> repos s0 \<subseteq>\<^sub>m repos s \<and> dom (repos s) = dom (repos s0) \<union> set xs \<and>
     (\<forall>i x. repos s i = Some x \<longrightarrow> (if i \<in> set xs then \<exists>r. written (Sd x) as = [r] \<and> copy_of c d r else written (Sd x) as = [])) \<and>
     (\<forall>x. x \<notin> ran (repos s) \<longrightarrow> written (Sd x) as = []) \<and>
     (\<exists>ts. written Outstream as = map REC_collect ts \<and> length ts = card (set xs - dom (repos s0))) \<and> split_counter s = split_counter s0)"

lemma split_to_start: "split_inv sarg s \<Longrightarrow> split_to c sarg d s [] (s, [])"
  by (simp add: split_to_def)

lemma split_record:
  assumes "data_ok d"
  shows "\<exists>r q. (if b then SNetRecCopy c node seq (REC_data d) else Ok (REC_data d, seq)) = Ok (r, q) \<and> copy_of c d r"
  using SNetRecCopy_data[OF assms, of c node seq] by (auto simp: copy_of_def)

lemma split_inv_seq [simp]: "split_inv sarg (s\<lparr>split_seq := q\<rparr>) = split_inv sarg s"
  by (simp add: split_inv_def)

lemma split_to_old:
  assumes "split_to c sarg d s0 xs (s, as)" and "repos s i = Some x" and "i \<notin> set xs" and "copy_of c d r"
  shows "split_to c sarg d s0 (xs @ [i]) (s\<lparr>split_seq := q\<rparr>, as @ [SWrite (Sd x) r])"
proof -
  from assms(1) have inj: "inj_on (repos s) (dom (repos s))" and dom: "dom (repos s) = dom (repos s0) \<union> set xs"
    by (auto simp: split_to_def split_inv_def)
  have other: "y \<noteq> x" if "repos s j = Some y" "j \<noteq> i" for j y
    using inj_onD[OF inj, of i j] that assms(2) by auto
  have i: "i \<in> dom (repos s0)" using assms(2,3) dom by auto
  have card: "set (xs @ [i]) - dom (repos s0) = set xs - dom (repos s0)" using i by auto
  have "x \<in> ran (repos s)" using assms(2) by (auto intro: ranI)
  with assms other i show ?thesis unfolding split_to_def card by auto
qed

lemma split_to_new:
  assumes "split_to c sarg d s0 xs (s, as)" and "repos s i = None" and "copy_of c d r"
    and "split_inv sarg s'" and "repos s' = (repos s)(i \<mapsto> x)" and "x \<notin> ran (repos s)" and "split_counter s' = split_counter s"
  shows "split_to c sarg d s0 (xs @ [i]) (s'\<lparr>split_seq := q\<rparr>, as @ [SOpen (Sd x) x, SWrite Outstream (REC_collect t)] @ [SWrite (Sd x) r])"
proof -
  from assms(1) have dom: "dom (repos s) = dom (repos s0) \<union> set xs" by (simp add: split_to_def)
  have i: "i \<notin> dom (repos s0)" "i \<notin> set xs" using assms(2) dom by auto
  have card: "card (set (xs @ [i]) - dom (repos s0)) = Suc (card (set xs - dom (repos s0)))"
    using i by (simp add: insert_Diff_if)
  have other: "y \<noteq> x" if "repos s j = Some y" for j y using that assms(6) by (auto intro: ranI)
  obtain ts where ts: "written Outstream as = map REC_collect ts" "length ts = card (set xs - dom (repos s0))"
    using assms(1) by (auto simp: split_to_def)
  have "written (Sd x) as = []" using assms(1,6) by (simp add: split_to_def)
  moreover have "\<exists>us. map REC_collect ts @ [REC_collect t] = map REC_collect us \<and> length us = Suc (card (set xs - dom (repos s0)))"
    by (rule exI[of _ "ts @ [t]"]) (simp add: ts(2))
  moreover have "repos s0 \<subseteq>\<^sub>m (repos s)(i \<mapsto> x)" using assms(1) i(1) by (auto simp: split_to_def map_le_def)
  ultimately show ?thesis
    using assms(1,3,4,7) i other ts(1) unfolding split_to_def card by (auto simp: assms(2,5) ran_map_upd dom)
qed

context distribution
begin

lemma split_tag_yields:
  assumes "split_to c sarg d s0 xs (s, as)" and "startup_fun (split_boxfun sarg)" and "data_ok d" and "i \<notin> set xs" and "i \<noteq> HASHTAB_NOT_KEY"
  shows "yields (split_tag c node D sarg (REC_data d) u (s, as) i) (split_to c sarg d s0 (xs @ [i]))"
proof -
  have inv: "split_inv sarg s" using assms(1) by (simp add: split_to_def)
  then have get: "HashtabGet (repos_tab s) i = repos s i" by (simp add: split_inv_def ht_inv_def HashtabGet_lookup)
  show ?thesis
  proof (cases "repos s i")
    case (Some x)
    obtain r q where "(if i \<noteq> u then SNetRecCopy c node (split_seq s) (REC_data d) else Ok (REC_data d, split_seq s)) = Ok (r, q)" "copy_of c d r"
      using split_record[OF assms(3)] by blast
    with split_to_old[OF assms(1) Some assms(4) this(2), of q] show ?thesis by (simp add: split_tag_def get Some del: if_split)
  next
    case None
    show ?thesis
      unfolding split_tag_def prod.case get None option.case
    proof (rule yields_bind[OF split_replica_yields[OF inv assms(2) None assms(5)]], clarify)
      fix x s' as' t assume n: "split_inv sarg s'" "repos s' = (repos s)(i \<mapsto> x)" "x \<notin> ran (repos s)" "split_counter s' = split_counter s"
      obtain r q where "(if i \<noteq> u then SNetRecCopy c node (split_seq s') (REC_data d) else Ok (REC_data d, split_seq s')) = Ok (r, q)" "copy_of c d r"
        using split_record[OF assms(3)] by blast
      with split_to_new[OF assms(1) None this(2) n] show
        "yields (bindR (if i \<noteq> u then SNetRecCopy c node (split_seq s') (REC_data d) else Ok (REC_data d, split_seq s')) (\<lambda>(r, seq).
          Ok (s'\<lparr>split_seq := seq\<rparr>, as @ [SOpen (Sd x) x, SWrite Outstream (REC_collect t)] @ [SWrite (Sd x) r]))) (split_to c sarg d s0 (xs @ [i]))"
        by simp
    qed
  qed
qed

lemma split_loop_yields:
  assumes "startup_fun (split_boxfun sarg)" and "data_ok d" and "distinct (xs @ is)" and "HASHTAB_NOT_KEY \<notin> set is" and "split_to c sarg d s0 xs p"
  shows "yields (foldR (split_tag c node D sarg (REC_data d) u) p is) (split_to c sarg d s0 (xs @ is))"
  using assms(3-)
proof (induction "is" arbitrary: xs p)
  case (Cons i "is")
  obtain s as where p: "p = (s, as)" by (cases p)
  have "yields (split_tag c node D sarg (REC_data d) u p i) (split_to c sarg d s0 (xs @ [i]))"
    unfolding p by (rule split_tag_yields) (use Cons.prems assms(1,2) p in auto)
  moreover have "yields (foldR (split_tag c node D sarg (REC_data d) u) q is) (split_to c sarg d s0 (xs @ i # is))"
    if "split_to c sarg d s0 (xs @ [i]) q" for q using Cons.IH[OF _ _ that] Cons.prems by simp
  ultimately show ?case by (auto intro: yields_bind)
qed simp

end

section \<open>Properties\<close>

definition split_sorts :: "split_arg \<Rightarrow> split_state \<Rightarrow> 'r snet_record list" where
  "split_sorts sarg s = (if split_det sarg then [REC_sort_end 0 (split_counter s)] else [])"

lemma written_write_all:
  "written Outstream (write_all outs r) = []"
  "distinct outs \<Longrightarrow> written (Sd x) (write_all outs r) = (if x \<in> set outs then [r] else [])"
  by (induction outs) (auto simp: write_all_def)

lemma split_sorts_written:
  assumes "split_inv sarg s"
  defines "as \<equiv> (if split_det sarg then write_all (repos_set s) (REC_sort_end 0 (split_counter s)) @ [SWrite Outstream (REC_sort_end 0 (split_counter s))] else [])"
  shows "repos s i = Some x \<Longrightarrow> written (Sd x) as = split_sorts sarg s" and "written Outstream as = split_sorts sarg s"
  using assms by (auto simp: split_inv_def split_sorts_def written_write_all intro: ranI)

text \<open>
  The effect of a data record with the index values \<open>l\<close> to \<open>u\<close>: the replicas \<open>l .. u\<close> get the record, each
  once, all others only the sort record (of the deterministic variant); the output to the collector
  announces as many streams as there are new replicas, and then has the sort record.
\<close>

definition multicast :: "('r \<Rightarrow> 'r) \<Rightarrow> split_arg \<Rightarrow> 'r data_rec \<Rightarrow> int \<Rightarrow> int \<Rightarrow> split_state \<Rightarrow> split_state \<times> 'r action list \<Rightarrow> bool" where
  "multicast c sarg d l u s = (\<lambda>(s', as).
     repos s \<subseteq>\<^sub>m repos s' \<and> dom (repos s') = dom (repos s) \<union> {l..u} \<and>
     (\<forall>i x. repos s' i = Some x \<longrightarrow> (if l \<le> i \<and> i \<le> u then \<exists>r. written (Sd x) as = r # split_sorts sarg s \<and> copy_of c d r
                                   else written (Sd x) as = split_sorts sarg s)) \<and>
     (\<exists>ts. written Outstream as = map REC_collect ts @ split_sorts sarg s \<and> length ts = card ({l..u} - dom (repos s))))"

lemma split_to_multicast:
  assumes "split_to c sarg d s [l..u] (s', as)"
  shows "multicast c sarg d l u s (s'\<lparr>split_counter := k\<rparr>, as @ (if split_det sarg then write_all (repos_set s') (REC_sort_end 0 (split_counter s')) @
    [SWrite Outstream (REC_sort_end 0 (split_counter s'))] else []))"
proof -
  let ?as = "if split_det sarg then write_all (repos_set s') (REC_sort_end 0 (split_counter s')) @ [SWrite Outstream (REC_sort_end 0 (split_counter s'))] else []"
  have inv: "split_inv sarg s'" and ct: "split_counter s' = split_counter s" using assms by (simp_all add: split_to_def)
  have so: "split_sorts sarg s' = (split_sorts sarg s :: 'a snet_record list)" by (simp add: split_sorts_def ct)
  note w = split_sorts_written[OF inv, where 'a = 'a, unfolded so]
  have "if l \<le> i \<and> i \<le> u then \<exists>r. written (Sd x) (as @ ?as) = r # split_sorts sarg s \<and> copy_of c d r
        else written (Sd x) (as @ ?as) = split_sorts sarg s" if "repos s' i = Some x" for i x
    using assms that w(1)[OF that] by (simp add: split_to_def split: if_splits)
  moreover have "\<exists>ts. written Outstream (as @ ?as) = map REC_collect ts @ split_sorts sarg s \<and> length ts = card ({l..u} - dom (repos s))"
    using assms w(2) by (auto simp: split_to_def)
  moreover have "repos s \<subseteq>\<^sub>m repos s'" "dom (repos s') = dom (repos s) \<union> {l..u}" using assms by (simp_all add: split_to_def)
  moreover have "repos (s'\<lparr>split_counter := k\<rparr>) = repos s'" by simp
  ultimately show ?thesis unfolding multicast_def prod.case by presburger
qed

text \<open>
  C21. The parallel replicator multicasts: a data record with the index values \<open>l\<close> to \<open>u\<close>, none of which is
  -1 (the key that marks a free cell of the hash table), goes, as itself or
  as a copy with the same labels, exactly once to each replica of these values and to no other one.
  Replicas that are missing are created, each is announced once to the collector, and existing ones are
  kept. The deterministic variant then sends the sort record of the round to all replicas and to the
  collector. The round can fail by overflow of a counter only: of a location, of the rounds, or of the index
  when the upper value is the greatest \<open>int\<close>.
\<close>

theorem split_multicast:
  assumes "split_inv sarg s" and "startup_fun (split_boxfun sarg)" and "data_ok d"
    and "tag_map d (ltag sarg) = Some l" and "tag_map d (utag sarg) = Some u" and "HASHTAB_NOT_KEY \<notin> {l..u}"
  shows "case split_round c node nodist sarg s (REC_data d) of
      Ok (s', as) \<Rightarrow> split_inv sarg s' \<and> multicast c sarg d l u s (s', as)
    | Err e \<Rightarrow> e = SignedOverflow"
proof -
  have g: "SNetRecGetTag (REC_data d) (ltag sarg) = Ok l" "SNetRecGetTag (REC_data d) (utag sarg) = Ok u"
    using assms(4,5) by (simp_all add: record_get[OF assms(3)])
  have loop: "yields (foldR (split_tag c node nodist sarg (REC_data d) u) (s, []) [l..u]) (split_to c sarg d s ([] @ [l..u]))"
    by (rule nodist.split_loop_yields) (use assms split_to_start in auto)
  have "yields (split_data c node nodist sarg s (REC_data d)) (\<lambda>(s', as). split_inv sarg s' \<and> multicast c sarg d l u s (s', as))"
    unfolding split_data_def g bindR.simps
  proof (rule yields_bind[OF loop], clarify)
    fix s' as assume t: "split_to c sarg d s ([] @ [l..u]) (s', as)"
    then have inv: "split_inv sarg s'" "split_counter s' = split_counter s" by (simp_all add: split_to_def)
    have k: "split_inv sarg (s'\<lparr>split_counter := k\<rparr>) = split_inv sarg s'" for k by (simp add: split_inv_def)
    show "yields (bindR (if l \<le> u then c_int (u + 1) else Ok 0) (\<lambda>_.
         let sort = REC_sort_end 0 (split_counter s'); as' = (if split_det sarg then write_all (repos_set s') sort @ [SWrite Outstream sort] else []) in
         bindR (c_int (split_counter s' + 1)) (\<lambda>ca. Ok (s'\<lparr>split_counter := ca\<rparr>, as @ as'))))
       (\<lambda>(s', as). split_inv sarg s' \<and> multicast c sarg d l u s (s', as))"
      using split_to_multicast[of c sarg d s l u s' as "split_counter s + 1"] t inv by (auto simp: c_int_def yields_def k Let_def split: if_splits)
  qed
  then show ?thesis by (simp add: yields_def)
qed

definition split_vec :: snet_locvec where
  "split_vec = \<lparr>vec_size = 1, vec_capacity = 1, vec_arr = [Some (loc LOC_SPLIT (-1))]\<rparr>"

definition split_ctx :: info where
  "split_ctx = [\<lparr>tag = LOCVEC_INFO_TAG, info_data = 0, copyFun = None\<rparr>, \<lparr>tag = -1, info_data = 0, copyFun = None\<rparr>]"

definition split_example :: split_arg where
  "split_example = \<lparr>split_boxfun = SNetNameShift nodist 3, split_info = split_ctx, ltag = 1, utag = 2, split_det = True, split_byloc = False, split_location = 0\<rparr>"

definition split_net0 :: net where
  "split_net0 = initial_net\<lparr>next_vec := 1, vec_heap := (\<lambda>_. split_vec)\<rparr>"

lemma split_start_inv: "split_inv split_example (split_start split_net0 0)"
proof -
  have "ht_inv (HashtabCreate 4 :: stream_id hashtab)" "ht_lookup (HashtabCreate 4 :: stream_id hashtab) = Map.empty" using ht_inv_create[of 4, where 'v = stream_id] by simp_all
  then show ?thesis
    by (simp add: split_inv_def split_start_def split_net0_def split_example_def split_vec_def split_ctx_def ctx_ok_def info_inv_def SNetLocvecGet_def
        LOCVEC_INFO_TAG_def locvec_inv_def top_type_def items_def)
qed

theorem split_multicast_witness:
  "case split_round (\<lambda>r. r) 0 nodist split_example (split_start split_net0 0) (REC_data example_data) of
      Ok (s', as) \<Rightarrow> split_inv split_example s' \<and> multicast (\<lambda>r. r) split_example example_data 10 20 (split_start split_net0 0) (s', as)
    | Err e \<Rightarrow> e = SignedOverflow"
  by (rule split_multicast[OF split_start_inv])
    (simp_all add: split_example_def nodist.nameshift_operand operand_startup split_start_def int_range_def HASHTAB_NOT_KEY_def)

text \<open>A record whose lower index value exceeds the upper one is neither written nor destroyed.\<close>

lemma split_empty_range:
  assumes "data_ok d" and "tag_map d (ltag sarg) = Some l" and "tag_map d (utag sarg) = Some u" and "u < l" and "int_range (split_counter s + 1)"
    and "\<not> split_det sarg"
  shows "split_round c node nodist sarg s (REC_data d) = Ok (s\<lparr>split_counter := split_counter s + 1\<rparr>, [])"
  using assms by (simp add: split_data_def record_get c_int_in_range Let_def)

end
