(* ===== verification/Star.thy ===== *)
theory Star
  imports Wiring Syncro
begin

text \<open>
  The serial replicator (\<open>runtime/stream/entity/star.c\<close>). A dispatcher sends a record that matches an exit
  pattern to the collector and any other one to the next instance of the operand network, which ends in
  another dispatcher, a star incarnate. The instance is created when a record first needs it. A sync
  record lets an incarnate leave the chain: it hands its input stream over to the next instance.
\<close>

section \<open>The task\<close>

record star_arg =
  star_info :: info
  exit_patterns :: "snet_variant snet_list"
  star_box :: startup
  star_selffun :: startup
  star_guards :: "snet_expr snet_list"
  star_det :: bool
  star_incarnate :: bool
  star_location :: int

record star_state =
  star_done :: bool
  sync_cleanup :: bool
  nextstream :: "stream_id option"
  star_counter :: int
  star_input :: stream_id
  star_net :: net

fun exit_loop :: "'r snet_record \<Rightarrow> snet_expr snet_list \<Rightarrow> (nat \<times> snet_variant) list \<Rightarrow> bool res" where
  "exit_loop rec guards [] = Ok False"
| "exit_loop rec guards ((i, pattern) # ps) =
     bindR (SNetRecPatternMatches pattern rec) (\<lambda>m.
     bindR (if m then bindR (ListGet guards (int i)) (\<lambda>g. SNetEevaluateBool g rec) else Ok False) (\<lambda>b.
     if b then Ok True else exit_loop rec guards ps))"

definition MatchesExitPattern :: "'r snet_record \<Rightarrow> snet_variant snet_list \<Rightarrow> snet_expr snet_list \<Rightarrow> bool res" where
  "MatchesExitPattern rec pats guards = bindR (LIST_ENUMERATE pats) (exit_loop rec guards)"

definition SNetSerialStarchild :: "dist \<Rightarrow> startup \<Rightarrow> startup \<Rightarrow> startup" where
  "SNetSerialStarchild D box_a box_b input info location net =
     bindR (SNetLocvecGet info) (\<lambda>locvec.
     bindR (on_vec locvec SNetLocvecStarSpawn net) (\<lambda>net.
     bindR (SNetLocvecTopval (vec_heap net locvec)) (\<lambda>k.
     bindR (SNetRouteDynamicEnter D info k location net) (\<lambda>net.
     bindR (box_a input info location net) (\<lambda>(internal_stream, net).
     bindR (SNetRouteUpdate D info internal_stream location net) (\<lambda>(internal_stream, net).
     bindR (SNetLocvecTopval (vec_heap net locvec)) (\<lambda>k.
     bindR (SNetRouteDynamicExit D info k location net) (\<lambda>net.
     bindR (SNetLocvecStarWithin (vec_heap net locvec)) (\<lambda>w.
     bindR (assertR w) (\<lambda>_.
     bindR (box_b internal_stream info location net) (\<lambda>(out, net).
     bindR (on_vec locvec SNetLocvecStarSpawnRet net) (\<lambda>net. Ok (out, net)))))))))))))"

text \<open>The stream to the instance carries a copy of the own location vector, for the clean-up.\<close>

definition CreateOperandNetwork :: "dist \<Rightarrow> star_arg \<Rightarrow> net \<Rightarrow> (stream_id \<times> net \<times> 'r action list) res" where
  "CreateOperandNetwork D sarg net =
     (let (nextstream_addr, net) = new_stream net in
      bindR (SNetLocvecGet (star_info sarg)) (\<lambda>a.
      bindR (SNetLocvecCopy (vec_heap net a)) (\<lambda>v.
      let net = net\<lparr>stream_source := (stream_source net)(nextstream_addr := Some v)\<rparr> in
      bindR (SNetSerialStarchild D (star_box sarg) (star_selffun sarg) nextstream_addr (star_info sarg) (star_location sarg) net) (\<lambda>(starstream, net).
      Ok (nextstream_addr, net, [SOpen (Sd nextstream_addr) nextstream_addr, SWrite Outstream (REC_collect starstream)])))))"

text \<open>The record to the next instance, created if it is missing.\<close>

definition star_forward :: "dist \<Rightarrow> star_arg \<Rightarrow> star_state \<Rightarrow> 'r snet_record \<Rightarrow> (star_state \<times> 'r action list) res" where
  "star_forward D sarg s rec =
     bindR (case nextstream s of Some x \<Rightarrow> Ok (x, star_net s, []) | None \<Rightarrow> CreateOperandNetwork D sarg (star_net s)) (\<lambda>(x, net, as).
     Ok (s\<lparr>nextstream := Some x, star_net := net\<rparr>, as @ [SWrite (Sd x) rec]))"

definition star_data :: "dist \<Rightarrow> star_arg \<Rightarrow> star_state \<Rightarrow> 'r snet_record \<Rightarrow> (star_state \<times> 'r action list) res" where
  "star_data D sarg s rec =
     bindR (MatchesExitPattern rec (exit_patterns sarg) (star_guards sarg)) (\<lambda>m.
     bindR (if m then bindR (assertR (\<not> sync_cleanup s)) (\<lambda>_. Ok (s, [SWrite Outstream rec])) else star_forward D sarg s rec) (\<lambda>(s, as).
     if star_det sarg \<and> \<not> star_incarnate sarg then
       (let sort = REC_sort_end 0 (star_counter s) in
        bindR (c_int (star_counter s + 1)) (\<lambda>c.
        Ok (s\<lparr>star_counter := c\<rparr>, as @ [SWrite Outstream sort] @ (case nextstream s of None \<Rightarrow> [] | Some x \<Rightarrow> [SWrite (Sd x) sort]))))
     else if sync_cleanup s then
       (case nextstream s of
          None \<Rightarrow> Err AssertFail
        | Some x \<Rightarrow> Ok (s\<lparr>star_done := True\<rparr>, as @ [SWrite (Sd x) (REC_sync (star_input s) None), SWrite Outstream (REC_terminate True),
            SClose (Sd x) False, SClose Instream False]))
     else Ok (s, as)))"

definition star_sync :: "star_arg \<Rightarrow> star_state \<Rightarrow> stream_id \<Rightarrow> 'r snet_record \<Rightarrow> (star_state \<times> 'r action list) res" where
  "star_sync sarg s newstream rec =
     (case (if star_incarnate sarg then stream_source (star_net s) newstream else None) of
        Some l \<Rightarrow>
          bindR (SNetLocvecGet (star_info sarg)) (\<lambda>a.
          bindR (SNetLocvecEqualParent False l (vec_heap (star_net s) a)) (\<lambda>b. bindR (assertR b) (\<lambda>_.
          case nextstream s of
            Some x \<Rightarrow> Ok (s\<lparr>star_done := True\<rparr>, [SWrite (Sd x) rec, SWrite Outstream (REC_terminate True), SClose (Sd x) False, SClose Instream True])
          | None \<Rightarrow> Ok (s\<lparr>sync_cleanup := True, star_input := newstream\<rparr>, [SReplace Instream newstream]))))
      | None \<Rightarrow> Ok (s\<lparr>star_input := newstream\<rparr>, [SReplace Instream newstream]))"

fun star_round :: "dist \<Rightarrow> star_arg \<Rightarrow> star_state \<Rightarrow> 'r snet_record \<Rightarrow> (star_state \<times> 'r action list) res" where
  "star_round D sarg s (REC_data d) = star_data D sarg s (REC_data d)"
| "star_round D sarg s (REC_sync st v) = star_sync sarg s st (REC_sync st v)"
| "star_round D sarg s (REC_sort_end l n) =
     bindR (if star_incarnate sarg then Ok l else c_int (l + 1)) (\<lambda>l'.
     Ok (s, (case nextstream s of None \<Rightarrow> [] | Some x \<Rightarrow> [SWrite (Sd x) (REC_sort_end l' n)]) @ [SWrite Outstream (REC_sort_end l' n)]))"
| "star_round D sarg s (REC_terminate b) =
     Ok (s\<lparr>star_done := True\<rparr>,
       (case nextstream s of None \<Rightarrow> [] | Some x \<Rightarrow> [SWrite (Sd x) (REC_terminate b), SClose (Sd x) False]) @
       [SWrite Outstream (REC_terminate b), SClose Instream True])"
| "star_round D sarg s _ = Err FatalError"

definition star_start :: "stream_id \<Rightarrow> net \<Rightarrow> star_state" where
  "star_start input net =
     \<lparr>star_done = False, sync_cleanup = False, nextstream = None, star_counter = 0, star_input = input, star_net = net\<rparr>"

definition StarBoxTask :: "dist \<Rightarrow> star_arg \<Rightarrow> stream_id \<Rightarrow> net \<Rightarrow> 'r snet_record list \<Rightarrow> (star_state \<times> 'r action list) res" where
  "StarBoxTask D sarg input net rs =
     bindR (run_task star_done (star_round D sarg) (star_start input net) rs) (\<lambda>(s, as).
     Ok (s, as @ (if star_done s then [SClose Outstream False] else [])))"

section \<open>Instances of the operand\<close>

lemma star_spawn: "locvec_inv v \<Longrightarrow> items v = xs @ [loc LOC_STAR k] \<Longrightarrow>
    yields (SNetLocvecStarSpawn v) (\<lambda>v'. locvec_inv v' \<and> items v' = xs @ [loc LOC_STAR (k + 1)])"
  using topinc_yields[of v xs "loc LOC_STAR k"] by (simp add: SNetLocvecStarSpawn_def assert_top_spec)

lemma star_spawn_ret:
  assumes "locvec_inv v" and "items v = xs @ [loc LOC_STAR k]"
  shows "yields (SNetLocvecStarSpawnRet v) (\<lambda>v'. locvec_inv v' \<and> items v' = xs @ [loc LOC_STAR (k - 1)])"
proof (cases "int_range (k - 1)")
  case True
  then show ?thesis using Topdec_spec[OF assms(1)] assms by (auto simp: SNetLocvecStarSpawnRet_def assert_top_spec)
next
  case False
  then show ?thesis using item_at_last[OF assms(1)] assms by (simp add: SNetLocvecStarSpawnRet_def assert_top_spec SNetLocvecTopdec_def c_int_def)
qed

lemma top_reach:
  assumes "reach a n0 (xs @ [loc LOC_STAR k]) ss n"
  shows "SNetLocvecTopval (vec_heap n a) = Ok k" and "SNetLocvecStarWithin (vec_heap n a) = Ok True"
  using reach_inv[OF assms] item_at_last[of "vec_heap n a"] by (simp_all add: SNetLocvecTopval_def SNetLocvecStarWithin_def SNetLocvecToptype_spec)

lemma operand_reach:
  assumes "operand_fun f" and "ctx_ok info a" and "reach a n0 (xs @ [loc LOC_STAR k]) ss n" and "input \<in> set ss"
  shows "yields (f input info location n) (reach_out a n0 (xs @ [loc LOC_STAR k]) ss)"
proof -
  have "operand_pre info a input n" using assms reach_inv[OF assms(3)] by (auto simp: operand_pre_def reach_def)
  from operand_fun.operand_builds[OF assms(1) this, of location] show ?thesis
  proof (rule yields_weaken, clarify)
    fix out n' assume "startup_post a n (out, n')"
    then have g: "grow a n n'" "loc_ext (xs @ [loc LOC_STAR k]) (vec_items n' a)" "out < next_stream n'"
      using reach_inv[OF assms(3)] by (auto simp: startup_post_def)
    with loc_ext_other[OF g(2)] reach_grow[OF assms(3) g(1) refl] show "reach_out a n0 (xs @ [loc LOC_STAR k]) ss (out, n')"
      by (auto simp: reach_def)
  qed
qed

context distribution
begin

lemma starchild_reach:
  assumes "operand_fun f" and "operand_fun g" and "ctx_ok info a" and "reach a n0 (xs @ [loc LOC_STAR k]) ss n" and "input \<in> set ss"
  shows "yields (SNetSerialStarchild D f g input info location n) (reach_out a n0 (xs @ [loc LOC_STAR k]) ss)"
proof -
  have get: "SNetLocvecGet info = Ok a" using assms(3) by (simp add: ctx_ok_def)
  show ?thesis
    unfolding SNetSerialStarchild_def get bindR.simps
    apply (rule on_vec_bind[OF assms(4) star_spawn], assumption+)
    apply (subst top_reach(1), assumption, unfold bindR.simps)
    apply (rule yields_bind[OF enter_reach[OF assms(3)]], assumption)
    apply (rule out_bind[OF operand_reach[OF assms(1,3)]], assumption, rule assms(5))
    apply (rule out_bind[OF route_reach[OF assms(3)]], assumption, simp)
    apply (subst top_reach(1), assumption, unfold bindR.simps)
    apply (rule yields_bind[OF exit_reach[OF assms(3)]], assumption)
    apply (subst top_reach(2), assumption, unfold bindR.simps assertR_simps)
    apply (rule out_bind[OF operand_reach[OF assms(2,3)]], assumption, simp)
    apply (rule on_vec_bind[OF _ star_spawn_ret], assumption+)
    by (simp add: reach_def)
qed

end

section \<open>Dispatching\<close>

definition star_pats :: "star_arg \<Rightarrow> (snet_variant \<times> snet_expr) list" where
  "star_pats sarg = zip (list_of (exit_patterns sarg)) (list_of (star_guards sarg))"

definition star_arg_ok :: "star_arg \<Rightarrow> bool" where
  "star_arg_ok sarg \<longleftrightarrow> list_inv (exit_patterns sarg) \<and> list_inv (star_guards sarg) \<and>
     lused (exit_patterns sarg) = lused (star_guards sarg) \<and> (\<forall>p\<in>set (list_of (exit_patterns sarg)). variant_ok p)"

definition exits :: "star_arg \<Rightarrow> 'r data_rec \<Rightarrow> bool" where
  "exits sarg d \<longleftrightarrow> (\<exists>pe\<in>set (star_pats sarg). accepts pe d)"

lemma exit_loop_spec:
  assumes "list_inv guards" and "data_ok d" and "k + length ps = lused guards" and "\<forall>p\<in>set ps. variant_ok p"
    and "guards_defined (zip ps (drop k (list_of guards))) d"
  shows "exit_loop (REC_data d) guards (enumerate k ps) = Ok (\<exists>pe\<in>set (zip ps (drop k (list_of guards))). accepts pe d)"
  using assms(3-)
proof (induction ps arbitrary: k)
  case (Cons p ps)
  have k: "k < length (list_of guards)" using Cons.prems(1) assms(1) by (simp add: length_list_of)
  note dr = Cons_nth_drop_Suc[OF k, symmetric]
  have g: "ListGet guards (int k) = Ok (list_of guards ! k)" using Cons.prems(1) assms(1) by (simp add: ListGet_spec)
  have def: "carries p d \<Longrightarrow> is_Ok (SNetEevaluateBool (list_of guards ! k) (REC_data d))"
    and rest: "guards_defined (zip ps (drop (Suc k) (list_of guards))) d"
    using Cons.prems(3) by (simp_all add: dr guards_defined_def)
  have IH: "exit_loop (REC_data d) guards (enumerate (Suc k) ps) = Ok (\<exists>pe\<in>set (zip ps (drop (Suc k) (list_of guards))). accepts pe d)"
    by (rule Cons.IH) (use Cons.prems(1,2) rest in auto)
  have m: "SNetRecPatternMatches p (REC_data d) = Ok (carries p d)" using Cons.prems(2) by (simp add: pattern_carries[OF _ assms(2)])
  have "bindR (if carries p d then bindR (ListGet guards (int k)) (\<lambda>g. SNetEevaluateBool g (REC_data d)) else Ok False) (\<lambda>b.
      if b then Ok True else exit_loop (REC_data d) guards (enumerate (Suc k) ps)) =
    Ok (accepts (p, list_of guards ! k) d \<or> (\<exists>pe\<in>set (zip ps (drop (Suc k) (list_of guards))). accepts pe d))"
    using def IH by (cases "SNetEevaluateBool (list_of guards ! k) (REC_data d)") (auto simp: g accepts_def)
  then show ?case by (simp add: m dr)
qed simp

lemma MatchesExitPattern_exits:
  assumes "star_arg_ok sarg" and "data_ok d" and "guards_defined (star_pats sarg) d"
  shows "MatchesExitPattern (REC_data d) (exit_patterns sarg) (star_guards sarg) = Ok (exits sarg d)"
  using assms exit_loop_spec[of "star_guards sarg" d 0 "list_of (exit_patterns sarg)"]
  by (simp add: MatchesExitPattern_def star_arg_ok_def LIST_ENUMERATE_list_of exits_def star_pats_def length_list_of)

text \<open>The dispatcher has a star item on top of its location vector, and the stream to the next instance exists.\<close>

definition star_inv :: "star_arg \<Rightarrow> star_state \<Rightarrow> bool" where
  "star_inv sarg s \<longleftrightarrow> (\<forall>x. nextstream s = Some x \<longrightarrow> x < next_stream (star_net s)) \<and>
     (\<exists>a xs k. ctx_ok (star_info sarg) a \<and> reach a (star_net s) (xs @ [loc LOC_STAR k]) [] (star_net s))"

context distribution
begin

lemma operand_network:
  assumes "star_inv sarg s" and "operand_fun (star_box sarg)" and "operand_fun (star_selffun sarg)"
  shows "yields (CreateOperandNetwork D sarg (star_net s)) (\<lambda>(x, n', as). x \<notin> {y. y < next_stream (star_net s)} \<and>
     star_inv sarg (s\<lparr>nextstream := Some x, star_net := n'\<rparr>) \<and> (\<exists>t. as = [SOpen (Sd x) x, SWrite Outstream (REC_collect t)]))"
proof -
  let ?n = "star_net s"
  obtain a xs k where a: "ctx_ok (star_info sarg) a" and r: "reach a ?n (xs @ [loc LOC_STAR k]) [] ?n"
    using assms(1) by (auto simp: star_inv_def)
  obtain x n1 where n1: "new_stream ?n = (x, n1)" by (cases "new_stream ?n")
  have x: "x = next_stream ?n" using n1 by (simp add: new_stream_def)
  note r1 = new_stream_reach[OF r n1]
  obtain v where v: "SNetLocvecCopy (vec_heap n1 a) = Ok v" using SNetLocvecCopy_spec reach_inv[OF r1] by blast
  let ?n1 = "n1\<lparr>stream_source := (stream_source n1)(x := Some v)\<rparr>"
  have r2: "reach a ?n (xs @ [loc LOC_STAR k]) [x] ?n1" using r1 by (simp add: reach_def grow_def)
  have post: "star_inv sarg (s\<lparr>nextstream := Some x, star_net := n'\<rparr>)" if "reach a ?n (xs @ [loc LOC_STAR k]) ss n'" "x \<in> set ss" for ss n'
    using that a by (auto simp: star_inv_def reach_def intro!: exI[of _ a] exI[of _ xs] exI[of _ k] grow_refl dest: growD)
  show ?thesis
    unfolding CreateOperandNetwork_def n1 Let_def prod.case a[unfolded ctx_ok_def, THEN conjunct2, THEN conjunct1] bindR.simps v
    by (rule out_bind[OF starchild_reach[OF assms(2,3) a r2]]) (auto simp: x intro: post[unfolded x])
qed

end

fun is_collect :: "'r snet_record \<Rightarrow> bool" where
  "is_collect (REC_collect st) = True"
| "is_collect _ = False"

text \<open>
  What the dispatcher has done with the data records \<open>ds\<close>: the ones that match an exit pattern went to the
  collector, the others to the next instance, both in their order; the instance was created with the first
  record that needs it and announced to the collector then.
\<close>

definition star_view :: "star_arg \<Rightarrow> star_state \<Rightarrow> 'r data_rec list \<Rightarrow> star_state \<times> 'r action list \<Rightarrow> bool" where
  "star_view sarg s ds = (\<lambda>(s', as).
     data_recs (written Outstream as) = map REC_data (filter (exits sarg) ds) \<and>
     (\<forall>x. nextstream s' = Some x \<longrightarrow> data_recs (written (Sd x) as) = map REC_data (filter (\<lambda>d. \<not> exits sarg d) ds)) \<and>
     (\<forall>x. nextstream s' \<noteq> Some x \<longrightarrow> written (Sd x) as = []) \<and>
     (\<forall>x. nextstream s = Some x \<longrightarrow> nextstream s' = Some x) \<and>
     (nextstream s' = None \<longleftrightarrow> nextstream s = None \<and> (\<forall>d\<in>set ds. exits sarg d)) \<and>
     length (filter is_collect (written Outstream as)) = of_bool (nextstream s = None \<and> nextstream s' \<noteq> None))"

text \<open>The state between rounds, as long as no sync record has come.\<close>

definition star_ready :: "star_arg \<Rightarrow> star_state \<Rightarrow> int \<Rightarrow> bool" where
  "star_ready sarg s n \<longleftrightarrow> star_inv sarg s \<and> \<not> sync_cleanup s \<and> \<not> star_done s \<and> 0 \<le> star_counter s \<and> int_range (star_counter s + n)"

lemma star_view_Nil: "star_view sarg s [] (s, [])"
  by (cases "nextstream s") (simp_all add: star_view_def data_recs_def)

lemma star_view_append:
  assumes "star_view sarg s ds (s1, as1)" and "star_view sarg s1 es (s2, as2)"
  shows "star_view sarg s (ds @ es) (s2, as1 @ as2)"
proof -
  have "data_recs (written (Sd x) as1) = map REC_data (filter (\<lambda>d. \<not> exits sarg d) ds)" if "nextstream s2 = Some x" for x
  proof (cases "nextstream s1")
    case None
    with assms(1) have "\<forall>d\<in>set ds. exits sarg d" "written (Sd x) as1 = []" by (auto simp: star_view_def)
    then show ?thesis by (simp add: data_recs_def)
  next
    case (Some y)
    with assms that show ?thesis by (auto simp: star_view_def)
  qed
  moreover have "written (Sd x) as1 = []" if "nextstream s2 \<noteq> Some x" for x
    using assms that by (auto simp: star_view_def)
  ultimately show ?thesis using assms by (auto simp: star_view_def data_recs_def)
qed

context distribution
begin

lemma star_forward_yields:
  assumes "star_inv sarg s" and "operand_fun (star_box sarg)" and "operand_fun (star_selffun sarg)"
  shows "yields (star_forward D sarg s r) (\<lambda>(s', as). star_inv sarg s' \<and> sync_cleanup s' = sync_cleanup s \<and> star_done s' = star_done s \<and>
     star_counter s' = star_counter s \<and> star_input s' = star_input s \<and>
     (\<exists>x as'. nextstream s' = Some x \<and> as = as' @ [SWrite (Sd x) r] \<and> 
       (case nextstream s of Some y \<Rightarrow> x = y \<and> as' = [] | None \<Rightarrow> \<exists>t. as' = [SOpen (Sd x) x, SWrite Outstream (REC_collect t)])))"
proof (cases "nextstream s")
  case None
  then show ?thesis
    unfolding star_forward_def None option.case
    by (rule_tac yields_bind[OF operand_network[OF assms]]) auto
next
  case (Some x)
  then have "star_inv sarg (s\<lparr>nextstream := Some x\<rparr>)" using assms(1) by (simp add: star_inv_def)
  with Some show ?thesis by (simp add: star_forward_def)
qed

lemma star_data_yields:
  assumes "star_ready sarg s 1" and "operand_fun (star_box sarg)" and "operand_fun (star_selffun sarg)"
    and "star_arg_ok sarg" and "data_ok d" and "guards_defined (star_pats sarg) d"
  shows "yields (star_round D sarg s (REC_data d)) (\<lambda>(s', as). star_ready sarg s' 0 \<and> star_counter s' \<le> star_counter s + 1 \<and> star_view sarg s [d] (s', as))"
proof -
  have inv: "star_inv sarg s" and cl: "\<not> sync_cleanup s" and dn: "\<not> star_done s" and ct: "0 \<le> star_counter s" "int_range (star_counter s + 1)"
    using assms(1) by (simp_all add: star_ready_def)
  have ct0: "int_range (star_counter s)" using ct by (simp add: int_range_def)
  have inv': "star_inv sarg (t\<lparr>star_counter := k\<rparr>) = star_inv sarg t" for t k by (simp add: star_inv_def)
  let ?post = "\<lambda>(s', as). star_ready sarg s' 0 \<and> star_counter s' \<le> star_counter s + 1 \<and> star_view sarg s [d] (s', as)"
  have e: "MatchesExitPattern (REC_data d) (exit_patterns sarg) (star_guards sarg) = Ok (exits sarg d)"
    by (rule MatchesExitPattern_exits[OF assms(4-6)])
  show ?thesis
  proof (cases "exits sarg d")
    case True
    then show ?thesis
      using inv cl dn ct ct0 by (auto simp: star_data_def e c_int_in_range Let_def star_ready_def star_view_def data_recs_def inv' split: option.splits)
  next
    case False
    show ?thesis
      unfolding star_round.simps star_data_def e bindR.simps if_not_P[OF False]
      by (rule yields_bind[OF star_forward_yields[OF inv assms(2,3)]])
        (use False cl dn ct ct0 in \<open>auto simp: c_int_in_range Let_def star_ready_def star_view_def data_recs_def inv' split: option.splits\<close>)
  qed
qed

lemma star_run_yields:
  assumes "operand_fun (star_box sarg)" and "operand_fun (star_selffun sarg)" and "star_arg_ok sarg"
    and "\<forall>d\<in>set ds. data_ok d \<and> guards_defined (star_pats sarg) d" and "star_ready sarg s (int (length ds))"
  shows "yields (run_task star_done (star_round D sarg) s (map REC_data ds)) (\<lambda>(s', as). star_inv sarg s' \<and> star_view sarg s ds (s', as))"
  using assms(4,5)
proof (induction ds arbitrary: s)
  case Nil
  then show ?case by (simp add: star_view_Nil star_ready_def)
next
  case (Cons d ds)
  have r1: "star_ready sarg s 1" and dn: "\<not> star_done s" using Cons.prems(2) by (auto simp: star_ready_def int_range_def)
  have d: "data_ok d" "guards_defined (star_pats sarg) d" using Cons.prems(1) by simp_all
  have "yields (bindR (star_round D sarg s (REC_data d)) (\<lambda>(s', as). bindR (run_task star_done (star_round D sarg) s' (map REC_data ds)) (\<lambda>(s'', as'). Ok (s'', as @ as'))))
    (\<lambda>(s', as). star_inv sarg s' \<and> star_view sarg s (d # ds) (s', as))"
  proof (rule yields_bind[OF star_data_yields[OF r1 assms(1-3) d]], clarify)
    fix s1 as1 assume 1: "star_ready sarg s1 0" "star_counter s1 \<le> star_counter s + 1" "star_view sarg s [d] (s1, as1)"
    then have "star_ready sarg s1 (int (length ds))" using Cons.prems(2) by (auto simp: star_ready_def int_range_def)
    from Cons.IH[OF _ this] Cons.prems(1)
    have "yields (run_task star_done (star_round D sarg) s1 (map REC_data ds)) (\<lambda>(s', as). star_inv sarg s' \<and> star_view sarg s1 ds (s', as))" by simp
    then show "yields (bindR (run_task star_done (star_round D sarg) s1 (map REC_data ds)) (\<lambda>(s'', as'). Ok (s'', as1 @ as')))
      (\<lambda>(s', as). star_inv sarg s' \<and> star_view sarg s (d # ds) (s', as))"
      by (rule yields_bind) (use star_view_append[OF 1(3)] in auto)
  qed
  with dn show ?case by simp
qed

text \<open>A sync record from a preceding dispatcher of the same chain, then a data record for the next instance.\<close>

lemma star_cleanup_yields:
  assumes "star_inv sarg s" and "operand_fun (star_box sarg)" and "operand_fun (star_selffun sarg)" and "star_arg_ok sarg"
    and "data_ok d" and "guards_defined (star_pats sarg) d" and "\<not> exits sarg d" and "star_incarnate sarg" and "sync_cleanup s" and "nextstream s = None"
  shows "yields (star_round D sarg s (REC_data d)) (\<lambda>(s', as). star_done s' \<and> (\<exists>x t. nextstream s' = Some x \<and>
     written (Sd x) as = [REC_data d, REC_sync (star_input s) None] \<and> written Outstream as = [REC_collect t, REC_terminate True] \<and>
     SClose Instream False \<in> set as \<and> SClose Instream True \<notin> set as))"
proof -
  have e: "MatchesExitPattern (REC_data d) (exit_patterns sarg) (star_guards sarg) = Ok (exits sarg d)"
    by (rule MatchesExitPattern_exits[OF assms(4-6)])
  show ?thesis
    unfolding star_round.simps star_data_def e bindR.simps if_not_P[OF assms(7)]
    by (rule yields_bind[OF star_forward_yields[OF assms(1-3)]])
      (use assms(8-10) in \<open>auto split: option.splits\<close>)
qed

end

lemma run_task_done: "dn s \<Longrightarrow> run_task dn f s rs = Ok (s, [])"
  by (cases rs) auto

text \<open>Sort records pass an incarnate that has no next instance.\<close>

lemma star_sorts:
  assumes "star_incarnate sarg" and "nextstream s = None" and "\<not> star_done s"
  shows "run_task star_done (star_round D sarg) s (map (\<lambda>(l, n). REC_sort_end l n) ks) = Ok (s, map (\<lambda>(l, n). SWrite Outstream (REC_sort_end l n)) ks)"
  using assms by (induction ks) auto

lemma written_sorts [simp]:
  "written (Sd x) (map (\<lambda>(l, n). SWrite Outstream (REC_sort_end l n)) ks) = []"
  "written Outstream (map (\<lambda>(l, n). SWrite Outstream (REC_sort_end l n)) ks) = map (\<lambda>(l, n). REC_sort_end l n) ks"
  by (induction ks) auto

section \<open>Properties\<close>

text \<open>
  C22. The serial replicator dispatches by the exit patterns: of the data records that it gets, those
  that match a pattern and its guard go to the collector and all others go to the next instance, each in
  their order. The instance is created with the first record that needs it and then announced to the
  collector, once. Creation can fail by overflow of a location counter only.
\<close>

theorem star_dispatch:
  assumes "operand_fun (star_box sarg)" and "operand_fun (star_selffun sarg)" and "star_arg_ok sarg"
    and "\<forall>d\<in>set ds. data_ok d \<and> guards_defined (star_pats sarg) d" and "star_ready sarg s (int (length ds))"
  shows "case run_task star_done (star_round nodist sarg) s (map REC_data ds) of
      Ok (s', as) \<Rightarrow> star_inv sarg s' \<and> star_view sarg s ds (s', as)
    | Err e \<Rightarrow> e = SignedOverflow"
  using nodist.star_run_yields[OF assms] by (simp add: yields_def)

definition star_vec :: "int \<Rightarrow> snet_locvec" where
  "star_vec k = \<lparr>vec_size = 1, vec_capacity = 1, vec_arr = [Some (loc LOC_STAR k)]\<rparr>"

definition star_ctx :: info where
  "star_ctx = [\<lparr>tag = LOCVEC_INFO_TAG, info_data = 0, copyFun = None\<rparr>, \<lparr>tag = -1, info_data = 0, copyFun = None\<rparr>]"

definition star_net0 :: net where
  "star_net0 = initial_net\<lparr>next_vec := 1, vec_heap := (\<lambda>_. star_vec 4), next_stream := 2, stream_source := [1 \<mapsto> star_vec 3]\<rparr>"

definition star_example :: star_arg where
  "star_example = \<lparr>star_info = star_ctx, exit_patterns = pat_list [field_pat [1]], star_box = SNetNameShift nodist 3,
     star_selffun = CreateStar nodist True False, star_guards = pat_list [E_NULL], star_det = False, star_incarnate = True, star_location = 0\<rparr>"

lemma star_example_simps [simp]:
  "operand_fun (star_box star_example)" "operand_fun (star_selffun star_example)" "star_arg_ok star_example"
  "star_pats star_example = [(field_pat [1], E_NULL)]" "guards_defined [(field_pat [1], E_NULL)] d" "star_incarnate star_example"
  "exits star_example d \<longleftrightarrow> 1 \<in> dom (field_map d)"
  by (simp_all add: star_example_def nodist.nameshift_operand nodist.incarnate_operand star_arg_ok_def star_pats_def guards_defined_def exits_def
      accepts_def carries_def)

lemma star_start_ready: "int_range n \<Longrightarrow> star_ready star_example (star_start 0 star_net0) n"
proof -
  have "ctx_ok star_ctx 0" by (simp add: star_ctx_def ctx_ok_def info_inv_def SNetLocvecGet_def LOCVEC_INFO_TAG_def)
  moreover have "reach 0 star_net0 ([] @ [loc LOC_STAR 4]) [] star_net0"
    by (simp add: reach_def grow_def star_net0_def star_vec_def locvec_inv_def items_def)
  ultimately have "star_inv star_example (star_start 0 star_net0)"
    by (auto simp: star_inv_def star_example_def star_start_def intro!: exI[of _ "0::nat"] exI[of _ "[]"])
  then show "int_range n \<Longrightarrow> star_ready star_example (star_start 0 star_net0) n"
    by (simp add: star_ready_def star_start_def)
qed

theorem star_dispatch_witness:
  "case run_task star_done (star_round nodist star_example) (star_start 0 star_net0) (map REC_data [field_rec [(1, 7)], field_rec [(2, 8)]]) of
      Ok (s', as) \<Rightarrow> star_inv star_example s' \<and> star_view star_example (star_start 0 star_net0) [field_rec [(1, 7)], field_rec [(2, 8)]] (s', as)
    | Err e \<Rightarrow> e = SignedOverflow"
  by (rule star_dispatch) (simp_all add: star_start_ready int_range_def)

text \<open>
  C23. Garbage collection in the chain of a serial replicator loses no record. A sync record hands the stream \<open>ns\<close> of a
  preceding dispatcher of the chain over to an incarnate. If the incarnate has a next instance, it forwards the sync record
  to it and terminates at once, and whatever follows in \<open>ns\<close> is left to the instance. If it has none yet, it reads on from
  \<open>ns\<close>, passes sort records on to the collector, and with the first data record, which stays in the chain, it creates the instance,
  announces it to the collector, sends it the record and a sync record with \<open>ns\<close>, and terminates; it does not destroy \<open>ns\<close>,
  which the instance goes on to read. In both cases the instance gets nothing else, no data record
  goes to the collector, and the collector is told that the incarnate has ended.
\<close>

theorem star_handover:
  assumes "star_ready sarg s 0" and "operand_fun (star_box sarg)" and "operand_fun (star_selffun sarg)" and "star_arg_ok sarg"
    and "data_ok d" and "guards_defined (star_pats sarg) d" and "\<not> exits sarg d" and "star_incarnate sarg"
    and "stream_source (star_net s) ns = Some l" and "SNetLocvecGet (star_info sarg) = Ok a"
    and "SNetLocvecEqualParent False l (vec_heap (star_net s) a) = Ok True"
  shows "case run_task star_done (star_round nodist sarg) s (REC_sync ns v # map (\<lambda>(l, n). REC_sort_end l n) ks @ REC_data d # rs) of
      Ok (s', as) \<Rightarrow> star_done s' \<and> (case nextstream s of
          Some x \<Rightarrow> written (Sd x) as = [REC_sync ns v] \<and> written Outstream as = [REC_terminate True] \<and>
            SClose Instream True \<in> set as \<and> SReplace Instream ns \<notin> set as
        | None \<Rightarrow> \<exists>x t. nextstream s' = Some x \<and> written (Sd x) as = [REC_data d, REC_sync ns None] \<and>
            written Outstream as = map (\<lambda>(l, n). REC_sort_end l n) ks @ [REC_collect t, REC_terminate True] \<and>
            SReplace Instream ns \<in> set as \<and> SClose Instream True \<notin> set as)
    | Err e \<Rightarrow> e = SignedOverflow"
proof (cases "nextstream s")
  case None
  let ?s = "s\<lparr>sync_cleanup := True, star_input := ns\<rparr>"
  have r: "star_round nodist sarg s (REC_sync ns v) = Ok (?s, [SReplace Instream ns])"
    using assms(8-11) None by (simp add: star_sync_def)
  have d: "\<not> star_done s" using assms(1) by (simp add: star_ready_def)
  have k: "run_task star_done (star_round nodist sarg) ?s (map (\<lambda>(l, n). REC_sort_end l n) ks) = Ok (?s, map (\<lambda>(l, n). SWrite Outstream (REC_sort_end l n)) ks)"
    by (rule star_sorts) (use assms(8) None d in simp_all)
  have inv: "star_inv sarg ?s" using assms(1) by (simp add: star_ready_def star_inv_def)
  from nodist.star_cleanup_yields[OF inv assms(2-8)] None show ?thesis
    by (cases "star_round nodist sarg ?s (REC_data d)") (auto simp: r d k run_task_done run_task_append split: prod.splits simp del: star_round.simps)
next
  case (Some x)
  have r: "star_round nodist sarg s (REC_sync ns v) =
      Ok (s\<lparr>star_done := True\<rparr>, [SWrite (Sd x) (REC_sync ns v), SWrite Outstream (REC_terminate True), SClose (Sd x) False, SClose Instream True])"
    using assms(8-11) Some by (simp add: star_sync_def)
  show ?thesis using assms(1) Some by (simp add: r star_ready_def run_task_done del: star_round.simps)
qed

theorem star_handover_witness:
  "case run_task star_done (star_round nodist star_example) (star_start 0 star_net0)
        (REC_sync 1 None # map (\<lambda>(l, n). REC_sort_end l n) [(0, 5)] @ REC_data (field_rec [(2, 8)]) # [REC_terminate False]) of
      Ok (s', as) \<Rightarrow> star_done s' \<and> (\<exists>x t. nextstream s' = Some x \<and> written (Sd x) as = [REC_data (field_rec [(2, 8)]), REC_sync 1 None] \<and>
        written Outstream as = [REC_sort_end 0 5, REC_collect t, REC_terminate True] \<and> SReplace Instream 1 \<in> set as \<and> SClose Instream True \<notin> set as)
    | Err e \<Rightarrow> e = SignedOverflow"
proof -
  have eq: "SNetLocvecEqualParent False (star_vec 3) (vec_heap (star_net (star_start 0 star_net0)) 0) = Ok True"
    by (simp add: star_start_def star_net0_def star_vec_def SNetLocvecEqualParent_def item_at_def)
  have ready: "star_ready star_example (star_start 0 star_net0) 0" by (simp add: star_start_ready int_range_def)
  have s: "nextstream (star_start 0 star_net0) = None" "stream_source (star_net (star_start 0 star_net0)) 1 = Some (star_vec 3)"
    by (simp_all add: star_start_def star_net0_def)
  have a: "SNetLocvecGet (star_info star_example) = Ok 0" by (simp add: star_example_def star_ctx_def SNetLocvecGet_def LOCVEC_INFO_TAG_def)
  show ?thesis
    using star_handover[OF ready _ _ _ _ _ _ _ s(2) a eq, where d = "field_rec [(2, 8)]" and v = None and ks = "[(0, 5)]" and rs = "[REC_terminate False]"]
    by (auto simp: s(1) simp del: run_task.simps split: res.splits)
qed

text \<open>A serial replicator that is directly the operand of another one fails an assertion of its creation.\<close>

lemma star_nested_fails:
  "SNetSerialStarchild nodist (SNetStar nodist) (SNetStarIncarnate nodist) 0 star_ctx 0 star_net0 = Err AssertFail"
  by (simp add: SNetSerialStarchild_def SNetLocvecGet_def star_ctx_def LOCVEC_INFO_TAG_def star_net0_def star_vec_def on_vec_def
      SNetLocvecStarSpawn_def assert_top_def SNetLocvecToptype_def item_at_def SNetLocvecTopinc_def item_put_def c_int_def int_range_def
      SNetLocvecTopval_def nodist_def SNetStar_def CreateStar_def SNetLocvecStarEnter_def arr_read_def arr_write_def)

end
