(* ===== verification/Feedback.thy ===== *)
theory Feedback
  imports Wiring Queue
begin

text \<open>
  The feedback combinator (\<open>runtime/stream/entity/feedback.c\<close>): a collector at the entry of the loop, the
  operand, a dispatcher that sends records back or out, and a buffer in the back channel. The collector
  lets one record into the loop and then reads the back channel until no record is left in the loop, which
  it knows from a sort record that it sends after each generation of records.
\<close>

section \<open>The tasks\<close>

text \<open>The descriptor of the back channel in the collector and in the dispatcher.\<close>

abbreviation Backstream :: sd where "Backstream \<equiv> Sd 0"

datatype fbcoll_mode = FBCOLL_IN | FBCOLL_FB1 | FBCOLL_FB0

record fbcoll_state =
  fb_terminate :: bool
  fb_mode :: fbcoll_mode

fun fb_read_in :: "fbcoll_state \<Rightarrow> 'r snet_record \<Rightarrow> (fbcoll_state \<times> 'r action list) res" where
  "fb_read_in s (REC_data d) = Ok (s\<lparr>fb_mode := FBCOLL_FB1\<rparr>, [SWrite Outstream (REC_data d), SWrite Outstream (REC_sort_end 0 1)])"
| "fb_read_in s (REC_sort_end l n) = bindR (c_int (l + 1)) (\<lambda>l'. Ok (s, [SWrite Outstream (REC_sort_end l' n)]))"
| "fb_read_in s (REC_terminate b) = Ok (s\<lparr>fb_terminate := True\<rparr>, [SWrite Outstream (REC_terminate b)])"
| "fb_read_in s (REC_sync st v) = Ok (s, [SReplace Instream st])"
| "fb_read_in s _ = Err AssertFail"

definition FbCollReadIn :: "fbcoll_state \<Rightarrow> 'r snet_record \<Rightarrow> (fbcoll_state \<times> 'r action list) res" where
  "FbCollReadIn s rec = bindR (assertR (\<not> fb_terminate s)) (\<lambda>_. fb_read_in s rec)"

fun fb_read_back :: "fbcoll_state \<Rightarrow> 'r snet_record \<Rightarrow> (fbcoll_state \<times> 'r action list) res" where
  "fb_read_back s (REC_data d) = Ok (s\<lparr>fb_mode := FBCOLL_FB0\<rparr>, [SWrite Outstream (REC_data d)])"
| "fb_read_back s (REC_sort_end l n) =
     bindR (assertR (l = 0)) (\<lambda>_.
     case fb_mode s of
       FBCOLL_FB0 \<Rightarrow> bindR (c_int (n + 1)) (\<lambda>n'. Ok (s\<lparr>fb_mode := FBCOLL_FB1\<rparr>, [SWrite Outstream (REC_sort_end l n')]))
     | FBCOLL_FB1 \<Rightarrow> Ok (s\<lparr>fb_mode := FBCOLL_IN\<rparr>, [])
     | FBCOLL_IN \<Rightarrow> Err AssertFail)"
| "fb_read_back s (REC_sync st v) = Ok (s, [SReplace Backstream st])"
| "fb_read_back s _ = Err AssertFail"

definition FbCollReadFbi :: "fbcoll_state \<Rightarrow> 'r snet_record \<Rightarrow> (fbcoll_state \<times> 'r action list) res" where
  "FbCollReadFbi s rec = bindR (assertR (\<not> fb_terminate s)) (\<lambda>_. fb_read_back s rec)"

text \<open>The main loop reads the stream that the mode selects, as long as it delivers records.\<close>

fun fb_coll_loop :: "fbcoll_state \<Rightarrow> 'r snet_record list \<Rightarrow> 'r snet_record list \<Rightarrow>
    (fbcoll_state \<times> 'r action list \<times> 'r snet_record list \<times> 'r snet_record list) res" where
  "fb_coll_loop s ins backs =
     (if fb_terminate s then Ok (s, [], ins, backs)
      else if fb_mode s = FBCOLL_IN then
        (case ins of
           [] \<Rightarrow> Ok (s, [], ins, backs)
         | r # ins' \<Rightarrow> bindR (FbCollReadIn s r) (\<lambda>(s, as). bindR (fb_coll_loop s ins' backs) (\<lambda>(s, as', i, b). Ok (s, as @ as', i, b))))
      else
        (case backs of
           [] \<Rightarrow> Ok (s, [], ins, backs)
         | r # backs' \<Rightarrow> bindR (FbCollReadFbi s r) (\<lambda>(s, as). bindR (fb_coll_loop s ins backs') (\<lambda>(s, as', i, b). Ok (s, as @ as', i, b)))))"

declare fb_coll_loop.simps [simp del]

definition FeedbackCollTask :: "'r snet_record list \<Rightarrow> 'r snet_record list \<Rightarrow> (fbcoll_state \<times> 'r action list) res" where
  "FeedbackCollTask ins backs =
     bindR (fb_coll_loop \<lparr>fb_terminate = False, fb_mode = FBCOLL_IN\<rparr> ins backs) (\<lambda>(s, as, _, _).
     Ok (s, as @ (if fb_terminate s then [SClose Instream True, SClose Backstream True, SClose Outstream False] else [])))"

fun back_loop :: "'r snet_record \<Rightarrow> (snet_expr \<times> snet_variant) list \<Rightarrow> bool res" where
  "back_loop rec [] = Ok False"
| "back_loop rec ((expr, pattern) # ps) =
     bindR (SNetEevaluateBool expr rec) (\<lambda>g. bindR (if g then SNetRecPatternMatches pattern rec else Ok False) (\<lambda>b.
     if b then Ok True else back_loop rec ps))"

definition MatchesBackPattern :: "'r snet_record \<Rightarrow> snet_variant snet_list \<Rightarrow> snet_expr snet_list \<Rightarrow> bool res" where
  "MatchesBackPattern rec back_patterns guards = bindR (LIST_ZIP_EACH guards back_patterns) (back_loop rec)"

fun fb_disp_round :: "snet_variant snet_list \<Rightarrow> snet_expr snet_list \<Rightarrow> bool \<Rightarrow> 'r snet_record \<Rightarrow> (bool \<times> 'r action list) res" where
  "fb_disp_round pats guards dn (REC_data d) =
     bindR (MatchesBackPattern (REC_data d) pats guards) (\<lambda>m. Ok (dn, [SWrite (if m then Backstream else Outstream) (REC_data d)]))"
| "fb_disp_round pats guards dn (REC_sort_end l n) =
     (if l = 0 then Ok (dn, [SWrite Backstream (REC_sort_end l n)])
      else bindR (assertR (l > 0)) (\<lambda>_. Ok (dn, [SWrite Outstream (REC_sort_end (l - 1) n)])))"
| "fb_disp_round pats guards dn (REC_terminate b) = Ok (True, [SWrite Backstream (REC_terminate b), SWrite Outstream (REC_terminate b)])"
| "fb_disp_round pats guards dn (REC_sync st v) = Ok (dn, [SReplace Instream st])"
| "fb_disp_round pats guards dn _ = Err AssertFail"

definition FeedbackDispTask :: "snet_variant snet_list \<Rightarrow> snet_expr snet_list \<Rightarrow> 'r snet_record list \<Rightarrow> (bool \<times> 'r action list) res" where
  "FeedbackDispTask pats guards rs =
     bindR (run_task (\<lambda>dn. dn) (fb_disp_round pats guards) False rs) (\<lambda>(dn, as).
     Ok (dn, as @ (if dn then [SClose Instream True, SClose Outstream False, SClose Backstream False] else [])))"

section \<open>The loop\<close>

text \<open>
  Collector, operand and dispatcher as one system. The queues are the streams between them; the operand
  is a network that maps each data record to a sequence of data records and passes control records, in order.
\<close>

fun op_rec :: "('r data_rec \<Rightarrow> 'r data_rec list) \<Rightarrow> 'r snet_record \<Rightarrow> 'r snet_record list" where
  "op_rec op (REC_data d) = map REC_data (op d)"
| "op_rec op r = [r]"

record 'r fb_sys =
  fb_coll :: fbcoll_state
  in_q :: "'r snet_record list"
  into_op :: "'r snet_record list"
  from_op :: "'r snet_record list"
  back_q :: "'r snet_record list"
  out_q :: "'r snet_record list"

inductive fb_step :: "('r data_rec \<Rightarrow> 'r data_rec list) \<Rightarrow> snet_variant snet_list \<Rightarrow> snet_expr snet_list \<Rightarrow> 'r fb_sys \<Rightarrow> 'r fb_sys \<Rightarrow> bool"
  for op pats guards where
  coll_in: "fb_mode (fb_coll y) = FBCOLL_IN \<Longrightarrow> in_q y = r # ins \<Longrightarrow> FbCollReadIn (fb_coll y) r = Ok (s, as) \<Longrightarrow>
    fb_step op pats guards y (y\<lparr>fb_coll := s, in_q := ins, into_op := into_op y @ written Outstream as\<rparr>)"
| coll_back: "fb_mode (fb_coll y) \<noteq> FBCOLL_IN \<Longrightarrow> back_q y = r # bs \<Longrightarrow> FbCollReadFbi (fb_coll y) r = Ok (s, as) \<Longrightarrow>
    fb_step op pats guards y (y\<lparr>fb_coll := s, back_q := bs, into_op := into_op y @ written Outstream as\<rparr>)"
| operand: "into_op y = r # rs \<Longrightarrow> fb_step op pats guards y (y\<lparr>into_op := rs, from_op := from_op y @ op_rec op r\<rparr>)"
| disp: "from_op y = r # rs \<Longrightarrow> fb_disp_round pats guards False r = Ok (dn, as) \<Longrightarrow>
    fb_step op pats guards y (y\<lparr>from_op := rs, out_q := out_q y @ written Outstream as, back_q := back_q y @ written Backstream as\<rparr>)"

section \<open>What the loop computes\<close>

text \<open>
  The generations of a record in the loop: \<open>gen k\<close> are the records that are sent back for the \<open>k\<close>-th time, and
  \<open>gen_out k\<close> those that leave the loop with them.
\<close>

fun gen :: "('r data_rec \<Rightarrow> bool) \<Rightarrow> ('r data_rec \<Rightarrow> 'r data_rec list) \<Rightarrow> 'r data_rec \<Rightarrow> nat \<Rightarrow> 'r data_rec list" where
  "gen bk op d 0 = filter bk (op d)"
| "gen bk op d (Suc k) = concat (map (\<lambda>e. filter bk (op e)) (gen bk op d k))"

fun gen_out :: "('r data_rec \<Rightarrow> bool) \<Rightarrow> ('r data_rec \<Rightarrow> 'r data_rec list) \<Rightarrow> 'r data_rec \<Rightarrow> nat \<Rightarrow> 'r data_rec list" where
  "gen_out bk op d 0 = filter (\<lambda>e. \<not> bk e) (op d)"
| "gen_out bk op d (Suc k) = concat (map (\<lambda>e. filter (\<lambda>x. \<not> bk x) (op e)) (gen bk op d k))"

definition outs_upto :: "('r data_rec \<Rightarrow> bool) \<Rightarrow> ('r data_rec \<Rightarrow> 'r data_rec list) \<Rightarrow> 'r data_rec \<Rightarrow> nat \<Rightarrow> 'r data_rec list" where
  "outs_upto bk op d k = concat (map (gen_out bk op d) [0..<Suc k])"

text \<open>\<open>N\<close> is the first generation that is empty.\<close>

definition loop_end :: "('r data_rec \<Rightarrow> bool) \<Rightarrow> ('r data_rec \<Rightarrow> 'r data_rec list) \<Rightarrow> 'r data_rec \<Rightarrow> nat \<Rightarrow> bool" where
  "loop_end bk op d N \<longleftrightarrow> gen bk op d N = [] \<and> (\<forall>j<N. gen bk op d j \<noteq> [])"

fun fb_result :: "('r data_rec \<Rightarrow> bool) \<Rightarrow> ('r data_rec \<Rightarrow> 'r data_rec list) \<Rightarrow> ('r data_rec \<Rightarrow> nat) \<Rightarrow> 'r snet_record \<Rightarrow> 'r snet_record list" where
  "fb_result bk op N (REC_data d) = map REC_data (outs_upto bk op d (N d))"
| "fb_result bk op N r = [r]"

text \<open>The inputs of the loop: records whose generations end before the counter of the sort records overflows, and sort records.\<close>

fun fb_input :: "('r data_rec \<Rightarrow> bool) \<Rightarrow> ('r data_rec \<Rightarrow> 'r data_rec list) \<Rightarrow> ('r data_rec \<Rightarrow> nat) \<Rightarrow> 'r snet_record \<Rightarrow> bool" where
  "fb_input bk op N (REC_data d) = (loop_end bk op d (N d) \<and> int_range (int (N d) + 1))"
| "fb_input bk op N (REC_sort_end l n) = (0 \<le> l \<and> int_range (l + 1))"
| "fb_input bk op N _ = False"

definition loop_ok :: "('r data_rec \<Rightarrow> bool) \<Rightarrow> ('r data_rec \<Rightarrow> 'r data_rec list) \<Rightarrow> snet_variant snet_list \<Rightarrow> snet_expr snet_list \<Rightarrow> bool" where
  "loop_ok bk op pats guards \<longleftrightarrow> (\<forall>d. \<forall>e\<in>set (op d). MatchesBackPattern (REC_data e) pats guards = Ok (bk e))"

section \<open>The records in the loop\<close>

text \<open>Where the dispatcher will send a record, and the contents of the streams once all records in flight have arrived.\<close>

fun d_out :: "('r data_rec \<Rightarrow> bool) \<Rightarrow> 'r snet_record \<Rightarrow> 'r snet_record list" where
  "d_out bk (REC_data d) = (if bk d then [] else [REC_data d])"
| "d_out bk (REC_sort_end l n) = (if l = 0 then [] else [REC_sort_end (l - 1) n])"
| "d_out bk _ = []"

fun d_back :: "('r data_rec \<Rightarrow> bool) \<Rightarrow> 'r snet_record \<Rightarrow> 'r snet_record list" where
  "d_back bk (REC_data d) = (if bk d then [REC_data d] else [])"
| "d_back bk (REC_sort_end l n) = (if l = 0 then [REC_sort_end l n] else [])"
| "d_back bk _ = []"

definition pend :: "('r data_rec \<Rightarrow> 'r data_rec list) \<Rightarrow> 'r fb_sys \<Rightarrow> 'r snet_record list" where
  "pend op y = from_op y @ concat (map (op_rec op) (into_op y))"

definition abs_out :: "('r data_rec \<Rightarrow> bool) \<Rightarrow> ('r data_rec \<Rightarrow> 'r data_rec list) \<Rightarrow> 'r fb_sys \<Rightarrow> 'r snet_record list" where
  "abs_out bk op y = out_q y @ concat (map (d_out bk) (pend op y))"

definition abs_back :: "('r data_rec \<Rightarrow> bool) \<Rightarrow> ('r data_rec \<Rightarrow> 'r data_rec list) \<Rightarrow> 'r fb_sys \<Rightarrow> 'r snet_record list" where
  "abs_back bk op y = back_q y @ concat (map (d_back bk) (pend op y))"

fun flow_rec :: "'r snet_record \<Rightarrow> bool" where
  "flow_rec (REC_data d) = True"
| "flow_rec (REC_sort_end l n) = (0 \<le> l)"
| "flow_rec _ = False"

definition flow_ok :: "('r data_rec \<Rightarrow> 'r data_rec list) \<Rightarrow> 'r fb_sys \<Rightarrow> bool" where
  "flow_ok op y \<longleftrightarrow> (\<forall>r\<in>set (into_op y) \<union> set (from_op y). flow_rec r) \<and> (\<forall>d. REC_data d \<in> set (from_op y) \<longrightarrow> (\<exists>c. d \<in> set (op c))) \<and>
     \<not> fb_terminate (fb_coll y)"

lemma d_data [simp]:
  "concat (map (d_out bk) (map REC_data ds)) = map REC_data (filter (\<lambda>e. \<not> bk e) ds)"
  "concat (map (d_back bk) (map REC_data ds)) = map REC_data (filter bk ds)"
  by (induction ds) auto

lemma d_data_comp [simp]:
  "concat (map (d_out bk \<circ> REC_data) ds) = map REC_data (filter (\<lambda>e. \<not> bk e) ds)"
  "concat (map (d_back bk \<circ> REC_data) ds) = map REC_data (filter bk ds)"
  by (induction ds) auto

text \<open>Operand and dispatcher do not change what the streams will contain.\<close>

lemma operand_step:
  assumes "into_op y = r # rs" and "flow_ok op y"
  defines "y' \<equiv> y\<lparr>into_op := rs, from_op := from_op y @ op_rec op r\<rparr>"
  shows "abs_out bk op y' = abs_out bk op y" and "abs_back bk op y' = abs_back bk op y" and "flow_ok op y'"
  using assms by (auto simp: abs_out_def abs_back_def pend_def flow_ok_def) (cases r; force)+

lemma disp_round:
  assumes "loop_ok bk op pats guards" and "flow_ok op y" and "from_op y = r # rs"
  shows "\<exists>as. fb_disp_round pats guards False r = Ok (False, as) \<and> written Outstream as = d_out bk r \<and> written Backstream as = d_back bk r"
proof -
  have f: "flow_rec r" "\<And>d. r = REC_data d \<Longrightarrow> \<exists>c. d \<in> set (op c)" using assms(2,3) by (auto simp: flow_ok_def)
  show ?thesis
  proof (cases r)
    case (REC_data d)
    then have "MatchesBackPattern (REC_data d) pats guards = Ok (bk d)" using f(2) assms(1) by (auto simp: loop_ok_def)
    with REC_data show ?thesis by simp
  qed (use f(1) in auto)
qed

lemma disp_step:
  assumes "loop_ok bk op pats guards" and "flow_ok op y" and "from_op y = r # rs" and "fb_disp_round pats guards False r = Ok (dn, as)"
  defines "y' \<equiv> y\<lparr>from_op := rs, out_q := out_q y @ written Outstream as, back_q := back_q y @ written Backstream as\<rparr>"
  shows "abs_out bk op y' = abs_out bk op y" and "abs_back bk op y' = abs_back bk op y" and "flow_ok op y'"
  using disp_round[OF assms(1-3)] assms(2-) by (auto simp: abs_out_def abs_back_def pend_def flow_ok_def)

section \<open>The invariant of the loop\<close>

text \<open>
  Between records the loop is empty. While a record is in the loop, part \<open>xs\<close> of generation \<open>k\<close> has been read
  from the back channel, the rest \<open>ys\<close> follows in it, then the sort record of the generation and the
  records of the next one. The parameter \<open>m\<close> counts the reads of the collector that are left.
\<close>

definition gen_cost :: "('r data_rec \<Rightarrow> bool) \<Rightarrow> ('r data_rec \<Rightarrow> 'r data_rec list) \<Rightarrow> ('r data_rec \<Rightarrow> nat) \<Rightarrow> 'r data_rec \<Rightarrow> nat \<Rightarrow> nat" where
  "gen_cost bk op N d k = (\<Sum>j\<in>{k..N d}. length (gen bk op d j) + 1)"

fun in_cost :: "('r data_rec \<Rightarrow> bool) \<Rightarrow> ('r data_rec \<Rightarrow> 'r data_rec list) \<Rightarrow> ('r data_rec \<Rightarrow> nat) \<Rightarrow> 'r snet_record \<Rightarrow> nat" where
  "in_cost bk op N (REC_data d) = 1 + gen_cost bk op N d 0"
| "in_cost bk op N r = 1"

abbreviation results :: "('r data_rec \<Rightarrow> bool) \<Rightarrow> ('r data_rec \<Rightarrow> 'r data_rec list) \<Rightarrow> ('r data_rec \<Rightarrow> nat) \<Rightarrow> 'r snet_record list \<Rightarrow> 'r snet_record list" where
  "results bk op N rs \<equiv> concat (map (fb_result bk op N) rs)"

definition fb_idle where
  "fb_idle bk op N ins y m \<longleftrightarrow> fb_mode (fb_coll y) = FBCOLL_IN \<and> abs_back bk op y = [] \<and>
     (\<exists>pre. ins = pre @ in_q y \<and> abs_out bk op y = results bk op N pre) \<and> m = sum_list (map (in_cost bk op N) (in_q y))"

definition fb_at where
  "fb_at bk op N ins y m pre d k xs ys \<longleftrightarrow> ins = pre @ REC_data d # in_q y \<and> gen bk op d k = xs @ ys \<and> k \<le> N d \<and>
     fb_mode (fb_coll y) = (if xs = [] then FBCOLL_FB1 else FBCOLL_FB0) \<and>
     abs_back bk op y = map REC_data ys @ REC_sort_end 0 (int k + 1) # map REC_data (concat (map (\<lambda>e. filter bk (op e)) xs)) \<and>
     abs_out bk op y = results bk op N pre @ map REC_data (outs_upto bk op d k @ concat (map (\<lambda>e. filter (\<lambda>x. \<not> bk x) (op e)) xs)) \<and>
     m = length ys + 1 + gen_cost bk op N d (Suc k) + sum_list (map (in_cost bk op N) (in_q y))"

definition fb_inv where
  "fb_inv bk op N ins y m \<longleftrightarrow> flow_ok op y \<and> (\<forall>r\<in>set ins. fb_input bk op N r) \<and>
     (fb_idle bk op N ins y m \<or> (\<exists>pre d k xs ys. fb_at bk op N ins y m pre d k xs ys))"

lemma fb_invI:
  "flow_ok op y \<Longrightarrow> \<forall>r\<in>set ins. fb_input bk op N r \<Longrightarrow> fb_at bk op N ins y m pre d k xs ys \<Longrightarrow> fb_inv bk op N ins y m"
  "flow_ok op y \<Longrightarrow> \<forall>r\<in>set ins. fb_input bk op N r \<Longrightarrow> fb_idle bk op N ins y m \<Longrightarrow> fb_inv bk op N ins y m"
  by (auto simp: fb_inv_def)

lemma gen_cost_step: "k \<le> N d \<Longrightarrow> gen_cost bk op N d k = length (gen bk op d k) + 1 + gen_cost bk op N d (Suc k)"
  by (simp add: gen_cost_def sum.atLeast_Suc_atMost)

lemma outs_upto_Suc: "outs_upto bk op d (Suc k) = outs_upto bk op d k @ gen_out bk op d (Suc k)"
  by (simp add: outs_upto_def)

lemma outs_upto_0: "outs_upto bk op d 0 = filter (\<lambda>e. \<not> bk e) (op d)"
  by (simp add: outs_upto_def)

text \<open>A record that the collector writes to the operand.\<close>

lemma abs_write:
  "abs_out bk op (y\<lparr>fb_coll := s, in_q := i, back_q := b, into_op := into_op y @ rs\<rparr>) =
     abs_out bk op y @ concat (map (d_out bk) (concat (map (op_rec op) rs)))"
  "abs_back bk op y = back_q y @ us \<Longrightarrow> abs_back bk op (y\<lparr>fb_coll := s, in_q := i, back_q := b, into_op := into_op y @ rs\<rparr>) =
     b @ us @ concat (map (d_back bk) (concat (map (op_rec op) rs)))"
  by (simp_all add: abs_out_def abs_back_def pend_def)

lemma flow_write:
  assumes "flow_ok op y" and "\<forall>r\<in>set rs. flow_rec r" and "\<not> fb_terminate s"
  shows "flow_ok op (y\<lparr>fb_coll := s, in_q := i, back_q := b, into_op := into_op y @ rs\<rparr>)"
  using assms by (auto simp: flow_ok_def)

lemma coll_in_step:
  assumes "fb_inv bk op N ins y m" and "fb_mode (fb_coll y) = FBCOLL_IN" and "in_q y = r # rest"
  shows "\<exists>s as m'. FbCollReadIn (fb_coll y) r = Ok (s, as) \<and> m' < m \<and>
     fb_inv bk op N ins (y\<lparr>fb_coll := s, in_q := rest, into_op := into_op y @ written Outstream as\<rparr>) m'"
proof -
  have "\<not> fb_at bk op N ins y m pre d k xs ys" for pre d k xs ys using assms(2) by (auto simp: fb_at_def)
  with assms(1) obtain pre where i: "ins = pre @ r # rest" "abs_out bk op y = results bk op N pre" "abs_back bk op y = []"
    "m = sum_list (map (in_cost bk op N) (r # rest))" and fl: "flow_ok op y" and ok: "\<forall>r\<in>set ins. fb_input bk op N r"
    by (auto simp: fb_inv_def fb_idle_def assms(3))
  have t: "\<not> fb_terminate (fb_coll y)" using fl by (simp add: flow_ok_def)
  have b: "back_q y = []" "abs_back bk op y = back_q y @ []" using i(3) by (auto simp: abs_back_def)
  have upd: "y\<lparr>fb_coll := s, in_q := rest, into_op := q\<rparr> = y\<lparr>fb_coll := s, in_q := rest, back_q := [], into_op := q\<rparr>" for s q
    using b(1) by (cases y) simp
  have r: "fb_input bk op N r" using ok i(1) by simp
  show ?thesis
  proof (cases r)
    case (REC_data d)
    let ?s = "fb_coll y\<lparr>fb_mode := FBCOLL_FB1\<rparr>" and ?rs = "[REC_data d, REC_sort_end 0 1]"
    let ?y = "y\<lparr>fb_coll := ?s, in_q := rest, into_op := into_op y @ ?rs\<rparr>"
    have "fb_at bk op N ins ?y (m - 1) pre d 0 [] (gen bk op d 0)"
      using i REC_data unfolding upd fb_at_def abs_write(1) abs_write(2)[OF b(2)] by (simp add: outs_upto_0 gen_cost_step)
    moreover have "flow_ok op ?y" unfolding upd by (rule flow_write[OF fl]) (use t in auto)
    moreover have "FbCollReadIn (fb_coll y) r = Ok (?s, [SWrite Outstream (REC_data d), SWrite Outstream (REC_sort_end 0 1)])"
      using t REC_data by (simp add: FbCollReadIn_def)
    ultimately show ?thesis using ok i(4) REC_data by (intro exI[of _ ?s] exI[of _ "[SWrite Outstream (REC_data d), SWrite Outstream (REC_sort_end 0 1)]"] exI[of _ "m - 1"])
        (auto simp: fb_inv_def)
  next
    case (REC_sort_end l n)
    let ?y = "y\<lparr>fb_coll := fb_coll y, in_q := rest, into_op := into_op y @ [REC_sort_end (l + 1) n]\<rparr>"
    have l: "0 \<le> l" "int_range (l + 1)" using r REC_sort_end by simp_all
    have "fb_idle bk op N ins ?y (m - 1)"
      using i REC_sort_end l assms(2) unfolding upd fb_idle_def abs_write(1) abs_write(2)[OF b(2)]
      by (auto simp: intro!: exI[of _ "pre @ [r]"])
    moreover have "flow_ok op ?y" unfolding upd by (rule flow_write[OF fl]) (use t l in auto)
    ultimately show ?thesis using ok i(4) REC_sort_end t l
      by (intro exI[of _ "fb_coll y"] exI[of _ "[SWrite Outstream (REC_sort_end (l + 1) n)]"] exI[of _ "m - 1"])
        (auto simp: fb_inv_def FbCollReadIn_def c_int_in_range)
  qed (use r in auto)
qed

lemma coll_back_step:
  assumes "fb_inv bk op N ins y m" and "fb_mode (fb_coll y) \<noteq> FBCOLL_IN" and "back_q y = r # bs"
  shows "\<exists>s as m'. FbCollReadFbi (fb_coll y) r = Ok (s, as) \<and> m' < m \<and>
     fb_inv bk op N ins (y\<lparr>fb_coll := s, back_q := bs, into_op := into_op y @ written Outstream as\<rparr>) m'"
proof -
  have "\<not> fb_idle bk op N ins y m" using assms(2) by (simp add: fb_idle_def)
  with assms(1) obtain pre d k xs ys where at: "fb_at bk op N ins y m pre d k xs ys" and fl: "flow_ok op y" and ok: "\<forall>r\<in>set ins. fb_input bk op N r"
    by (auto simp: fb_inv_def)
  have t: "\<not> fb_terminate (fb_coll y)" using fl by (simp add: flow_ok_def)
  obtain us where us: "abs_back bk op y = back_q y @ us" by (simp add: abs_back_def)
  have upd: "y\<lparr>fb_coll := s, back_q := bs, into_op := q\<rparr> = y\<lparr>fb_coll := s, in_q := in_q y, back_q := bs, into_op := q\<rparr>" for s q by (cases y) simp
  note w = abs_write(1) abs_write(2)[OF us]
  have bq: "r # bs @ us = map REC_data ys @ REC_sort_end 0 (int k + 1) # map REC_data (concat (map (\<lambda>e. filter bk (op e)) xs))"
    using at us assms(3) by (simp add: fb_at_def)
  have m: "m - 1 < m" and md: "fb_mode (fb_coll y) = (if xs = [] then FBCOLL_FB1 else FBCOLL_FB0)" using at by (simp_all add: fb_at_def)
  have d: "loop_end bk op d (N d)" "int_range (int (N d) + 1)" using ok at by (auto simp: fb_at_def)
  show ?thesis
  proof (cases ys)
    case (Cons e zs)
    then have r: "r = REC_data e" and bs: "bs @ us = map REC_data zs @ REC_sort_end 0 (int k + 1) # map REC_data (concat (map (\<lambda>e. filter bk (op e)) xs))"
      using bq by simp_all
    let ?s = "fb_coll y\<lparr>fb_mode := FBCOLL_FB0\<rparr>"
    let ?y = "y\<lparr>fb_coll := ?s, back_q := bs, into_op := into_op y @ [REC_data e]\<rparr>"
    have "fb_at bk op N ins ?y (m - 1) pre d k (xs @ [e]) zs"
      using at Cons bs unfolding upd fb_at_def w by simp
    moreover have "flow_ok op ?y" unfolding upd by (rule flow_write[OF fl]) (use t in auto)
    ultimately have "fb_inv bk op N ins ?y (m - 1)" using ok by (auto intro: fb_invI)
    then show ?thesis using m t r
      by (intro exI[of _ ?s] exI[of _ "[SWrite Outstream (REC_data e)]"] exI[of _ "m - 1"]) (simp add: FbCollReadFbi_def)
  next
    case Nil
    then have r: "r = REC_sort_end 0 (int k + 1)" and bs: "bs @ us = map REC_data (concat (map (\<lambda>e. filter bk (op e)) xs))"
      using bq by simp_all
    have xs: "gen bk op d k = xs" using at Nil by (simp add: fb_at_def)
    show ?thesis
    proof (cases "xs = []")
      case True
      then have k: "k = N d" using xs d(1) at by (auto simp: loop_end_def fb_at_def nat_less_le)
      let ?s = "fb_coll y\<lparr>fb_mode := FBCOLL_IN\<rparr>"
      let ?y = "y\<lparr>fb_coll := ?s, back_q := bs, into_op := into_op y @ []\<rparr>"
      have "fb_idle bk op N ins ?y (m - 1)"
        using at Nil True bs k unfolding upd fb_idle_def fb_at_def w by (auto simp: gen_cost_def intro!: exI[of _ "pre @ [REC_data d]"])
      moreover have "flow_ok op ?y" unfolding upd by (rule flow_write[OF fl]) (use t in auto)
      ultimately have "fb_inv bk op N ins ?y (m - 1)" using ok by (auto intro: fb_invI)
      then show ?thesis using m t r md True
        by (intro exI[of _ ?s] exI[of _ "[]"] exI[of _ "m - 1"]) (simp add: FbCollReadFbi_def)
    next
      case False
      then have k: "k < N d" using xs d(1) at by (auto simp: loop_end_def fb_at_def nat_less_le)
      have ir: "int_range (int k + 1 + 1)" using k d(2) by (simp add: int_range_def)
      let ?s = "fb_coll y\<lparr>fb_mode := FBCOLL_FB1\<rparr>" and ?r = "REC_sort_end 0 (int k + 1 + 1)"
      let ?y = "y\<lparr>fb_coll := ?s, back_q := bs, into_op := into_op y @ [?r]\<rparr>"
      have "fb_at bk op N ins ?y (m - 1) pre d (Suc k) [] (gen bk op d (Suc k))"
        using at Nil False bs k xs unfolding upd fb_at_def w by (simp add: outs_upto_Suc gen_cost_step add.commute)
      moreover have "flow_ok op ?y" unfolding upd by (rule flow_write[OF fl]) (use t in auto)
      ultimately have "fb_inv bk op N ins ?y (m - 1)" using ok by (auto intro: fb_invI)
      then show ?thesis using m t r ir md False
        by (intro exI[of _ ?s] exI[of _ "[SWrite Outstream ?r]"] exI[of _ "m - 1"]) (simp add: FbCollReadFbi_def c_int_in_range)
    qed
  qed
qed

lemma fb_inv_stutter:
  assumes "fb_inv bk op N ins y m" and "fb_coll y' = fb_coll y" and "in_q y' = in_q y" and "flow_ok op y'"
    and "abs_out bk op y' = abs_out bk op y" and "abs_back bk op y' = abs_back bk op y"
  shows "fb_inv bk op N ins y' m"
  using assms by (simp add: fb_inv_def fb_idle_def fb_at_def)

definition flight :: "('r data_rec \<Rightarrow> 'r data_rec list) \<Rightarrow> 'r fb_sys \<Rightarrow> nat" where
  "flight op y = length (from_op y) + sum_list (map (\<lambda>r. 1 + length (op_rec op r)) (into_op y))"

lemma fb_step_inv:
  assumes "fb_step op pats guards y y'" and "loop_ok bk op pats guards" and "fb_inv bk op N ins y m"
  shows "\<exists>m'. fb_inv bk op N ins y' m' \<and> (m' < m \<or> m' = m \<and> flight op y' < flight op y)"
  using assms(1)
proof cases
  case (coll_in r rest s as)
  with coll_in_step[OF assms(3) coll_in(2,3)] show ?thesis by auto
next
  case (coll_back r bs s as)
  with coll_back_step[OF assms(3) coll_back(2,3)] show ?thesis by auto
next
  case (operand r rs)
  have fl: "flow_ok op y" using assms(3) by (simp add: fb_inv_def)
  have "fb_inv bk op N ins y' m" unfolding operand(1)
    by (rule fb_inv_stutter[OF assms(3)]) (simp_all add: operand_step[OF operand(2) fl])
  moreover have "flight op y' < flight op y" using operand by (simp add: flight_def)
  ultimately show ?thesis by blast
next
  case (disp r rs dn as)
  have fl: "flow_ok op y" using assms(3) by (simp add: fb_inv_def)
  have "fb_inv bk op N ins y' m" unfolding disp(1)
    by (rule fb_inv_stutter[OF assms(3)]) (simp_all add: disp_step[OF assms(2) fl disp(2,3)])
  moreover have "flight op y' < flight op y" using disp by (simp add: flight_def)
  ultimately show ?thesis by blast
qed

lemma fb_reach_inv:
  assumes "(fb_step op pats guards)\<^sup>*\<^sup>* y y'" and "loop_ok bk op pats guards" and "fb_inv bk op N ins y m"
  shows "\<exists>m'. fb_inv bk op N ins y' m'"
  using assms(1,3) by (induction arbitrary: m rule: converse_rtranclp_induct) (auto dest: fb_step_inv[OF _ assms(2)])

text \<open>The system does not get stuck before the last record has left the loop.\<close>

lemma fb_progress:
  assumes "loop_ok bk op pats guards" and "fb_inv bk op N ins y m" and "\<nexists>y'. fb_step op pats guards y y'"
  shows "in_q y = [] \<and> fb_idle bk op N ins y m \<and> into_op y = [] \<and> from_op y = []"
proof -
  have fl: "flow_ok op y" using assms(2) by (simp add: fb_inv_def)
  have fr: "from_op y = []"
  proof (cases "from_op y")
    case (Cons r rs)
    with disp_round[OF assms(1) fl Cons] assms(3) show ?thesis by (blast intro: fb_step.disp)
  qed simp
  have it: "into_op y = []" using assms(3) by (cases "into_op y") (blast intro: fb_step.operand)+
  have idle: "fb_mode (fb_coll y) = FBCOLL_IN"
  proof (rule ccontr)
    assume m: "fb_mode (fb_coll y) \<noteq> FBCOLL_IN"
    then obtain pre d k xs ys where "fb_at bk op N ins y m pre d k xs ys" using assms(2) by (auto simp: fb_inv_def fb_idle_def)
    then have "back_q y \<noteq> []" using fr it by (auto simp: fb_at_def abs_back_def pend_def)
    then obtain r bs where "back_q y = r # bs" by (cases "back_q y") auto
    with coll_back_step[OF assms(2) m this] assms(3) show False by (blast intro: fb_step.coll_back[OF m])
  qed
  have "in_q y = []"
  proof (cases "in_q y")
    case (Cons r rest)
    with coll_in_step[OF assms(2) idle Cons] assms(3) show ?thesis by (blast intro: fb_step.coll_in[OF idle])
  qed simp
  moreover have "fb_idle bk op N ins y m" using assms(2) idle by (auto simp: fb_inv_def fb_at_def split: if_splits)
  ultimately show ?thesis using fr it by blast
qed

definition fb_start :: "'r snet_record list \<Rightarrow> 'r fb_sys" where
  "fb_start ins = \<lparr>fb_coll = \<lparr>fb_terminate = False, fb_mode = FBCOLL_IN\<rparr>, in_q = ins, into_op = [], from_op = [], back_q = [], out_q = []\<rparr>"

lemma fb_start_inv:
  assumes "\<forall>r\<in>set ins. fb_input bk op N r"
  shows "fb_inv bk op N ins (fb_start ins) (sum_list (map (in_cost bk op N) ins))"
  using assms by (auto simp: fb_inv_def fb_idle_def fb_start_def flow_ok_def abs_out_def abs_back_def pend_def)

section \<open>Runs end\<close>

text \<open>The states of runs, ordered by the reads that are left and the records in flight.\<close>

definition fb_rel where
  "fb_rel bk op N ins pats guards = {(y', y). fb_step op pats guards y y' \<and> (\<exists>m. fb_inv bk op N ins y m)}"

lemma wf_fb_rel:
  assumes "loop_ok bk op pats guards"
  shows "wf (fb_rel bk op N ins pats guards)"
proof (rule wf_subset[OF wf_measures[of "[\<lambda>y. LEAST m. fb_inv bk op N ins y m, flight op]"]], clarify)
  fix y' y assume "(y', y) \<in> fb_rel bk op N ins pats guards"
  then obtain m where s: "fb_step op pats guards y y'" and m: "fb_inv bk op N ins y m" by (auto simp: fb_rel_def)
  let ?m = "LEAST m. fb_inv bk op N ins y m"
  from fb_step_inv[OF s assms LeastI[of "fb_inv bk op N ins y", OF m]] obtain m' where
    "fb_inv bk op N ins y' m'" "m' < ?m \<or> m' = ?m \<and> flight op y' < flight op y" by blast
  moreover from this(1) have "(LEAST m. fb_inv bk op N ins y' m) \<le> m'" by (rule Least_le)
  ultimately show "(y', y) \<in> measures [\<lambda>y. LEAST m. fb_inv bk op N ins y m, flight op]" by auto
qed

lemma fb_run_ends:
  assumes "loop_ok bk op pats guards" and "\<forall>r\<in>set ins. fb_input bk op N r"
  shows "\<exists>y. (fb_step op pats guards)\<^sup>*\<^sup>* (fb_start ins) y \<and> (\<nexists>y'. fb_step op pats guards y y')"
proof -
  let ?Q = "{y. (fb_step op pats guards)\<^sup>*\<^sup>* (fb_start ins) y}"
  have "fb_start ins \<in> ?Q" by simp
  from wfE_min[OF wf_fb_rel[OF assms(1), of N ins] this] obtain y where y: "y \<in> ?Q" "\<And>z. (z, y) \<in> fb_rel bk op N ins pats guards \<Longrightarrow> z \<notin> ?Q" by blast
  have "\<exists>m. fb_inv bk op N ins y m" using fb_reach_inv[OF _ assms(1) fb_start_inv[OF assms(2)]] y(1) by auto
  then have "\<not> fb_step op pats guards y z" for z using y by (auto simp: fb_rel_def dest: rtranclp.rtrancl_into_rtrancl)
  with y(1) show ?thesis by auto
qed

section \<open>Properties\<close>

text \<open>
  C24. The feedback loop computes the generations of each record: however collector, operand and dispatcher
  interleave, when no step is possible any more all input has been read, the loop is empty, and the output
  is, for the input records in their order, what leaves the loop in generation 0, 1, 2, and so on, until
  no record matches a back pattern any more. Sort records of enclosing combinators pass at their place.
\<close>

theorem feedback_computes:
  assumes "loop_ok bk op pats guards" and "\<forall>r\<in>set ins. fb_input bk op N r"
    and "(fb_step op pats guards)\<^sup>*\<^sup>* (fb_start ins) y" and "\<nexists>y'. fb_step op pats guards y y'"
  shows "out_q y = concat (map (fb_result bk op N) ins) \<and> in_q y = [] \<and> into_op y = [] \<and> from_op y = [] \<and> back_q y = []"
proof -
  obtain m where "fb_inv bk op N ins y m" using fb_reach_inv[OF assms(3,1) fb_start_inv[OF assms(2)]] by blast
  from fb_progress[OF assms(1) this assms(4)] show ?thesis by (auto simp: fb_idle_def abs_out_def abs_back_def pend_def)
qed

text \<open>
  C25. The feedback loop ends: when every input record has an empty generation, no run of collector, operand and
  dispatcher is infinite, so each run comes to the end that the property before describes.
\<close>

theorem feedback_terminates:
  assumes "loop_ok bk op pats guards" and "\<forall>r\<in>set ins. fb_input bk op N r"
  shows "\<not> (\<exists>f. f 0 = fb_start ins \<and> (\<forall>i. fb_step op pats guards (f i) (f (Suc i))))"
proof
  assume "\<exists>f. f 0 = fb_start ins \<and> (\<forall>i. fb_step op pats guards (f i) (f (Suc i)))"
  then obtain f where f: "f 0 = fb_start ins" "\<And>i. fb_step op pats guards (f i) (f (Suc i))" by blast
  have "(fb_step op pats guards)\<^sup>*\<^sup>* (fb_start ins) (f i)" for i
    by (induction i) (auto simp: f(1) intro: rtranclp.rtrancl_into_rtrancl f(2))
  then have "\<exists>m. fb_inv bk op N ins (f i) m" for i using fb_reach_inv[OF _ assms(1) fb_start_inv[OF assms(2)]] by blast
  with f(2) have "\<forall>i. (f (Suc i), f i) \<in> fb_rel bk op N ins pats guards" by (auto simp: fb_rel_def)
  with wf_fb_rel[OF assms(1)] show False by (auto simp: wf_iff_no_infinite_down_chain)
qed

text \<open>An operand that turns a record with field 1 into one with field 2, which goes back, and one with field 3.\<close>

definition fb_op :: "nat data_rec \<Rightarrow> nat data_rec list" where
  "fb_op d = (if field_map d 1 \<noteq> None then [field_rec [(2, 8)], field_rec [(3, 9)]]
     else if field_map d 2 \<noteq> None then [field_rec [(4, 7)]] else [])"

definition fb_back :: "nat data_rec \<Rightarrow> bool" where
  "fb_back d \<longleftrightarrow> field_map d 2 \<noteq> None"

lemma fb_example:
  "loop_ok fb_back fb_op (pat_list [field_pat [2]]) (pat_list [E_NULL])"
  "fb_input fb_back fb_op (\<lambda>_. 1) (REC_data (field_rec [(1, 7)]))"
  "fb_result fb_back fb_op (\<lambda>_. 1) (REC_data (field_rec [(1, 7)])) = [REC_data (field_rec [(3, 9)]), REC_data (field_rec [(4, 7)])]"
proof -
  have m: "MatchesBackPattern (REC_data (field_rec [(k, v)])) (pat_list [field_pat [2]]) (pat_list [E_NULL]) = Ok (k = 2)" for k v
    by (simp add: MatchesBackPattern_def LIST_ZIP_EACH_list_of pattern_carries carries_def)
  show "loop_ok fb_back fb_op (pat_list [field_pat [2]]) (pat_list [E_NULL])"
    by (simp add: loop_ok_def fb_op_def fb_back_def m)
  show "fb_input fb_back fb_op (\<lambda>_. 1) (REC_data (field_rec [(1, 7)]))"
    by (simp add: loop_end_def fb_op_def fb_back_def int_range_def)
  show "fb_result fb_back fb_op (\<lambda>_. 1) (REC_data (field_rec [(1, 7)])) = [REC_data (field_rec [(3, 9)]), REC_data (field_rec [(4, 7)])]"
    by (simp add: outs_upto_def fb_op_def fb_back_def upt_rec)
qed

theorem feedback_computes_witness:
  "\<exists>y. (fb_step fb_op (pat_list [field_pat [2]]) (pat_list [E_NULL]))\<^sup>*\<^sup>* (fb_start [REC_data (field_rec [(1, 7)])]) y \<and>
     out_q y = [REC_data (field_rec [(3, 9)]), REC_data (field_rec [(4, 7)])]"
proof -
  have i: "\<forall>r\<in>set [REC_data (field_rec [(1, 7)])]. fb_input fb_back fb_op (\<lambda>_. 1) r" using fb_example(2) by simp
  obtain y where y: "(fb_step fb_op (pat_list [field_pat [2]]) (pat_list [E_NULL]))\<^sup>*\<^sup>* (fb_start [REC_data (field_rec [(1, 7)])]) y"
    "\<nexists>y'. fb_step fb_op (pat_list [field_pat [2]]) (pat_list [E_NULL]) y y'" using fb_run_ends[OF fb_example(1) i] by blast
  with feedback_computes[OF fb_example(1) i y] fb_example(3) show ?thesis by auto
qed

theorem feedback_terminates_witness:
  "\<not> (\<exists>f. f 0 = fb_start [REC_data (field_rec [(1, 7)])] \<and>
     (\<forall>i. fb_step fb_op (pat_list [field_pat [2]]) (pat_list [E_NULL]) (f i) (f (Suc i))))"
  by (rule feedback_terminates[OF fb_example(1), where N = "\<lambda>_. 1"]) (use fb_example(2) in \<open>simp del: fb_input.simps\<close>)

end
