(* ===== verification/Feedback_Buffer.thy ===== *)
theory Feedback_Buffer
  imports Feedback
begin

text \<open>
  The buffer in the back channel of the feedback combinator (\<open>FeedbackBufTask\<close> of \<open>entity/feedback.c\<close>): it
  takes what the input stream offers into an internal queue and empties the queue into its output stream as far as that
  has room. When the queue outgrows the output stream, a larger stream is created and announced by a sync record in
  the queue. A round has two arguments for what the other tasks do meanwhile: the records that the input delivers
  until it is empty, and the results of the attempts to write.
\<close>

section \<open>The task\<close>

record 'r buf_state =
  internal_buffer :: "'r snet_record snet_queue"
  out_capacity :: int
  max_read :: int
  buf_done :: bool
  buf_fresh :: stream_id

fun is_terminate :: "'r snet_record \<Rightarrow> bool" where
  "is_terminate (REC_terminate b) = True"
| "is_terminate _ = False"

definition buf_put :: "'r snet_record \<Rightarrow> 'r buf_state \<Rightarrow> 'r buf_state" where
  "buf_put r s = s\<lparr>internal_buffer := snd (SNetQueuePut (internal_buffer s) r)\<rparr>"

text \<open>The first record of a round; the result is the number of records read. An empty input blocks only when the queue is empty.\<close>

definition buf_first :: "'r buf_state \<Rightarrow> 'r snet_record list \<Rightarrow> (int \<times> 'r buf_state \<times> 'r snet_record list) res" where
  "buf_first s avail =
     (if SNetQueueSize (internal_buffer s) = 0 then
        (case avail of
           [] \<Rightarrow> Err NoProgress
         | r # rs \<Rightarrow> if is_terminate r then Ok (0, s\<lparr>buf_done := True\<rparr>, rs) else Ok (1, buf_put r s, rs))
      else
        (case avail of
           [] \<Rightarrow> Ok (0, s, [])
         | r # rs \<Rightarrow> bindR (assertR (\<not> is_terminate r)) (\<lambda>_. Ok (1, buf_put r s, rs))))"

text \<open>A larger output stream is asked for when the queue would not fit into the present one.\<close>

definition buf_grow :: "'r buf_state \<Rightarrow> 'r buf_state res" where
  "buf_grow s =
     (if int (SNetQueueSize (internal_buffer s)) + 1 \<ge> out_capacity s then
        bindR (c_int (out_capacity s * 2)) (\<lambda>c.
        Ok (buf_put (REC_sync (buf_fresh s) None) (s\<lparr>out_capacity := c, buf_fresh := buf_fresh s + 1\<rparr>)))
      else Ok s)"

fun buf_more :: "int \<Rightarrow> 'r buf_state \<Rightarrow> 'r snet_record list \<Rightarrow> ('r buf_state \<times> 'r snet_record list) res" where
  "buf_more n s [] = Ok (s, [])"
| "buf_more n s (r # rs) =
     (if n \<le> max_read s then bindR (buf_grow s) (\<lambda>s. buf_more (n + 1) (buf_put r s) rs) else Ok (s, r # rs))"

text \<open>The queue is emptied until an attempt to write fails; after a sync record the task goes on with the new stream.\<close>

fun buf_write :: "'r buf_state \<Rightarrow> bool list \<Rightarrow> ('r buf_state \<times> 'r action list) res" where
  "buf_write s [] = Ok (s, [])"
| "buf_write s (b # tw) =
     (case SNetQueuePeek (internal_buffer s) of
        None \<Rightarrow> Ok (s, [])
      | Some rec \<Rightarrow>
          if b then
            (let (rem, q) = SNetQueueGet (internal_buffer s) in
             bindR (assertR (rem = Some rec)) (\<lambda>_.
             bindR (buf_write (s\<lparr>internal_buffer := q\<rparr>) tw) (\<lambda>(s, as).
             Ok (s, (case rec of REC_sync st v \<Rightarrow> [SWrite Outstream rec, SClose Outstream False, SOpen Outstream st] | _ \<Rightarrow> [SWrite Outstream rec]) @ as))))
          else Ok (s, []))"

definition buf_round :: "'r buf_state \<Rightarrow> 'r snet_record list \<Rightarrow> bool list \<Rightarrow> ('r buf_state \<times> 'r action list \<times> 'r snet_record list) res" where
  "buf_round s avail tw =
     bindR (buf_first s avail) (\<lambda>(n, s, avail).
     if buf_done s then Ok (s, [SClose Instream True, SClose Outstream False], avail)
     else bindR (buf_more n s avail) (\<lambda>(s, avail). bindR (buf_write s tw) (\<lambda>(s, as). Ok (s, as, avail))))"

text \<open>
  The main loop over rounds, each with the records that have arrived since the last one. A round that would wait for input does not take place.
\<close>

fun buf_run :: "'r buf_state \<Rightarrow> 'r snet_record list \<Rightarrow> ('r snet_record list \<times> bool list) list \<Rightarrow> ('r buf_state \<times> 'r action list \<times> 'r snet_record list) res" where
  "buf_run s pending [] = Ok (s, [], pending)"
| "buf_run s pending ((new, tw) # rounds) =
     (if buf_done s \<or> SNetQueueSize (internal_buffer s) = 0 \<and> pending @ new = [] then buf_run s (pending @ new) rounds
      else bindR (buf_round s (pending @ new) tw) (\<lambda>(s, as, pending).
        bindR (buf_run s pending rounds) (\<lambda>(s, as', pending). Ok (s, as @ as', pending))))"

definition FeedbackBufTask :: "int \<Rightarrow> stream_id \<Rightarrow> ('r snet_record list \<times> bool list) list \<Rightarrow> ('r buf_state \<times> 'r action list \<times> 'r snet_record list) res" where
  "FeedbackBufTask cap fresh rounds =
     buf_run \<lparr>internal_buffer = SNetQueueCreate, out_capacity = cap, max_read = cap, buf_done = False, buf_fresh = fresh\<rparr> [] rounds"

section \<open>Order\<close>

fun is_sync :: "'r snet_record \<Rightarrow> bool" where
  "is_sync (REC_sync st v) = True"
| "is_sync _ = False"

fun back_rec :: "'r snet_record \<Rightarrow> bool" where
  "back_rec (REC_data d) = True"
| "back_rec (REC_sort_end l n) = True"
| "back_rec _ = False"

abbreviation payload :: "'r snet_record list \<Rightarrow> 'r snet_record list" where
  "payload rs \<equiv> filter (\<lambda>r. \<not> is_sync r) rs"

definition held :: "'r buf_state \<Rightarrow> 'r snet_record list" where
  "held s = payload (qitems (internal_buffer s))"

definition buf_ok :: "'r buf_state \<Rightarrow> bool" where
  "buf_ok s \<longleftrightarrow> queue_ok (internal_buffer s) \<and> \<not> buf_done s"

lemma back_rec_simps: "back_rec r \<Longrightarrow> \<not> is_sync r \<and> \<not> is_terminate r"
  by (cases r) auto

lemma buf_put_ok:
  assumes "buf_ok s"
  shows "buf_ok (buf_put r s)" and "held (buf_put r s) = held s @ payload [r]" and "qitems (internal_buffer (buf_put r s)) = qitems (internal_buffer s) @ [r]"
  using SNetQueuePut_spec[of "internal_buffer s" r] assms by (auto simp: buf_ok_def buf_put_def held_def)

lemma queue_size: "queue_ok q \<Longrightarrow> SNetQueueSize q = length (qitems q)"
  by (simp add: SNetQueueSize_def queue_ok_items queue_ok_def)

lemma buf_first_ok:
  assumes "buf_ok s" and "\<forall>r\<in>set avail. back_rec r" and "SNetQueueSize (internal_buffer s) \<noteq> 0 \<or> avail \<noteq> []"
  shows "\<exists>n s' rest. buf_first s avail = Ok (n, s', rest) \<and> buf_ok s' \<and> held s' @ rest = held s @ avail \<and> set rest \<subseteq> set avail"
proof (cases avail)
  case Nil
  with assms show ?thesis by (simp add: buf_first_def)
next
  case (Cons r rs)
  with assms buf_put_ok[OF assms(1), of r] show ?thesis by (auto simp: buf_first_def dest: back_rec_simps)
qed

lemma buf_grow_yields: "buf_ok s \<Longrightarrow> yields (buf_grow s) (\<lambda>s'. buf_ok s' \<and> held s' = held s)"
  using buf_put_ok[of "s\<lparr>out_capacity := out_capacity s * 2, buf_fresh := buf_fresh s + 1\<rparr>" "REC_sync (buf_fresh s) None"]
  by (auto simp: buf_grow_def c_int_def buf_ok_def held_def)

lemma buf_more_yields:
  "buf_ok s \<Longrightarrow> \<forall>r\<in>set avail. back_rec r \<Longrightarrow>
     yields (buf_more n s avail) (\<lambda>(s', rest). buf_ok s' \<and> held s' @ rest = held s @ avail \<and> set rest \<subseteq> set avail)"
proof (induction avail arbitrary: n s)
  case (Cons r rs)
  have "yields (bindR (buf_grow s) (\<lambda>s. buf_more (n + 1) (buf_put r s) rs)) (\<lambda>(s', rest). buf_ok s' \<and> held s' @ rest = held s @ r # rs \<and> set rest \<subseteq> set (r # rs))"
  proof (rule yields_bind[OF buf_grow_yields[OF Cons.prems(1)]], elim conjE)
    fix s1 assume s1: "buf_ok s1" "held s1 = held s"
    have "yields (buf_more (n + 1) (buf_put r s1) rs) (\<lambda>(s', rest). buf_ok s' \<and> held s' @ rest = held (buf_put r s1) @ rs \<and> set rest \<subseteq> set rs)"
      by (rule Cons.IH) (use Cons.prems(2) buf_put_ok(1)[OF s1(1)] in auto)
    then show "yields (buf_more (n + 1) (buf_put r s1) rs) (\<lambda>(s', rest). buf_ok s' \<and> held s' @ rest = held s @ r # rs \<and> set rest \<subseteq> set (r # rs))"
      by (rule yields_weaken) (use Cons.prems(2) buf_put_ok(2)[OF s1(1), of r] s1(2) in \<open>auto dest: back_rec_simps\<close>)
  qed
  then show ?case using Cons.prems(1) by simp
qed simp

lemma queue_peek: "queue_ok q \<Longrightarrow> SNetQueuePeek q = (case qitems q of [] \<Rightarrow> None | x # _ \<Rightarrow> Some x)"
  using SNetQueueGet_spec[of q] queue_get_empty[of q]
  by (cases "qitems q") (auto simp: SNetQueuePeek_def SNetQueueGet_def queue_get_def split: if_splits option.splits)

lemma buf_write_ok:
  "buf_ok s \<Longrightarrow> \<exists>s' as. buf_write s tw = Ok (s', as) \<and> buf_ok s' \<and> payload (written Outstream as) @ held s' = held s"
proof (induction tw arbitrary: s)
  case (Cons b tw)
  show ?case
  proof (cases "qitems (internal_buffer s)")
    case Nil
    then show ?thesis using Cons.prems by (simp add: buf_ok_def queue_peek)
  next
    case (Cons x xs)
    note q = Cons
    obtain q' where g: "SNetQueueGet (internal_buffer s) = (Some x, q')" "queue_ok q'" "qitems q' = xs"
      using SNetQueueGet_spec[of "internal_buffer s"] q Cons.prems by (auto simp: buf_ok_def)
    obtain s' as where w: "buf_write (s\<lparr>internal_buffer := q'\<rparr>) tw = Ok (s', as)" "buf_ok s'"
      "payload (written Outstream as) @ held s' = held (s\<lparr>internal_buffer := q'\<rparr>)"
      using Cons.IH[of "s\<lparr>internal_buffer := q'\<rparr>"] g(2) Cons.prems by (auto simp: buf_ok_def)
    have "held (s\<lparr>internal_buffer := q'\<rparr>) = payload xs" by (simp add: held_def g(3))
    with w q g Cons.prems show ?thesis by (cases x) (auto simp: buf_ok_def queue_peek held_def)
  qed
qed simp

lemma buf_round_yields:
  assumes "buf_ok s" and "\<forall>r\<in>set avail. back_rec r" and "SNetQueueSize (internal_buffer s) \<noteq> 0 \<or> avail \<noteq> []"
  shows "yields (buf_round s avail tw) (\<lambda>(s', as, rest). buf_ok s' \<and> payload (written Outstream as) @ held s' @ rest = held s @ avail \<and> set rest \<subseteq> set avail)"
proof -
  obtain n s1 rest1 where f: "buf_first s avail = Ok (n, s1, rest1)" "buf_ok s1" "held s1 @ rest1 = held s @ avail" "set rest1 \<subseteq> set avail"
    using buf_first_ok[OF assms] by blast
  have b: "\<forall>r\<in>set rest1. back_rec r" using assms(2) f(4) by blast
  have "\<not> buf_done s1" using f(2) by (simp add: buf_ok_def)
  have "yields (bindR (buf_more n s1 rest1) (\<lambda>(s, avail). bindR (buf_write s tw) (\<lambda>(s, as). Ok (s, as, avail))))
    (\<lambda>(s', as, rest). buf_ok s' \<and> payload (written Outstream as) @ held s' @ rest = held s @ avail \<and> set rest \<subseteq> set avail)"
  proof (rule yields_bind[OF buf_more_yields[OF f(2) b]], clarify)
    fix s2 rest assume m: "buf_ok s2" "held s2 @ rest = held s1 @ rest1" "set rest \<subseteq> set rest1"
    obtain s3 as where w: "buf_write s2 tw = Ok (s3, as)" "buf_ok s3" "payload (written Outstream as) @ held s3 = held s2"
      using buf_write_ok[OF m(1)] by blast
    have "payload (written Outstream as) @ held s3 @ rest = held s @ avail" using w(3) m(2) f(3) by (metis append.assoc)
    with w m f(4) show "yields (bindR (buf_write s2 tw) (\<lambda>(s, as). Ok (s, as, rest)))
      (\<lambda>(s', as, rest). buf_ok s' \<and> payload (written Outstream as) @ held s' @ rest = held s @ avail \<and> set rest \<subseteq> set avail)" by auto
  qed
  with f(1) \<open>\<not> buf_done s1\<close> show ?thesis by (simp add: buf_round_def)
qed

lemma buf_run_yields:
  assumes "\<forall>p\<in>set rounds. \<forall>r\<in>set (fst p). back_rec r" and "buf_ok s" and "\<forall>r\<in>set pending. back_rec r"
  shows "yields (buf_run s pending rounds) (\<lambda>(s', as, rest). buf_ok s' \<and>
    payload (written Outstream as) @ held s' @ rest = held s @ pending @ concat (map fst rounds))"
  using assms
proof (induction rounds arbitrary: s pending)
  case (Cons p rounds)
  obtain new tw where p: "p = (new, tw)" by (cases p)
  have dn: "\<not> buf_done s" using Cons.prems(2) by (simp add: buf_ok_def)
  have b: "\<forall>r\<in>set (pending @ new). back_rec r" using Cons.prems(1,3) p by auto
  show ?case
  proof (cases "SNetQueueSize (internal_buffer s) = 0 \<and> pending @ new = []")
    case True
    with Cons.IH[of s "[]"] Cons.prems p show ?thesis by simp
  next
    case False
    have "yields (bindR (buf_round s (pending @ new) tw) (\<lambda>(s, as, pending). bindR (buf_run s pending rounds) (\<lambda>(s, as', pending). Ok (s, as @ as', pending))))
      (\<lambda>(s', as, rest). buf_ok s' \<and> payload (written Outstream as) @ held s' @ rest = held s @ pending @ new @ concat (map fst rounds))"
    proof (rule yields_bind[OF buf_round_yields[OF Cons.prems(2) b]])
      show "SNetQueueSize (internal_buffer s) \<noteq> 0 \<or> pending @ new \<noteq> []" using False by simp
    next
      fix x assume x: "case x of (s', as, rest) \<Rightarrow> buf_ok s' \<and> payload (written Outstream as) @ held s' @ rest = held s @ pending @ new \<and> set rest \<subseteq> set (pending @ new)"
      obtain s1 as1 rest1 where [simp]: "x = (s1, as1, rest1)" by (cases x)
      from x have s1: "buf_ok s1" "payload (written Outstream as1) @ held s1 @ rest1 = held s @ pending @ new" "set rest1 \<subseteq> set (pending @ new)" by simp_all
      have "yields (buf_run s1 rest1 rounds) (\<lambda>(s', as, rest). buf_ok s' \<and> payload (written Outstream as) @ held s' @ rest = held s1 @ rest1 @ concat (map fst rounds))"
        by (rule Cons.IH) (use Cons.prems(1) s1 b in auto)
      then have "yields (bindR (buf_run s1 rest1 rounds) (\<lambda>(s, as', pending). Ok (s, as1 @ as', pending)))
        (\<lambda>(s', as, rest). buf_ok s' \<and> payload (written Outstream as) @ held s' @ rest = held s @ pending @ new @ concat (map fst rounds))"
      proof (rule yields_bind)
        fix y assume "case y of (s', as, rest) \<Rightarrow> buf_ok s' \<and> payload (written Outstream as) @ held s' @ rest = held s1 @ rest1 @ concat (map fst rounds)"
        moreover have "payload (written Outstream as1) @ held s1 @ rest1 @ concat (map fst rounds) = held s @ pending @ new @ concat (map fst rounds)"
          using arg_cong[OF s1(2), of "\<lambda>xs. xs @ concat (map fst rounds)"] by simp
        ultimately show "yields (case y of (s, as', pending) \<Rightarrow> Ok (s, as1 @ as', pending))
          (\<lambda>(s', as, rest). buf_ok s' \<and> payload (written Outstream as) @ held s' @ rest = held s @ pending @ new @ concat (map fst rounds))"
          by (cases y) simp
      qed
      then show "yields (case x of (s, as, pending) \<Rightarrow> bindR (buf_run s pending rounds) (\<lambda>(s, as', pending). Ok (s, as @ as', pending)))
        (\<lambda>(s', as, rest). buf_ok s' \<and> payload (written Outstream as) @ held s' @ rest = held s @ pending @ new @ concat (map fst rounds))" by simp
    qed
    with dn p False show ?thesis
      by (simp only: p buf_run.simps if_False simp_thms fst_conv list.map concat.simps append_assoc)
  qed
qed simp

section \<open>Properties\<close>

text \<open>
  C26. The feedback buffer is a first-in first-out queue, however the arrival of records and the room in its output stream
  change: what it has written, without the sync records that announce larger streams, followed by what it holds
  and by what waits in its input is exactly the sequence of records that arrived. Its internal assertions hold, and it
  stops only when the capacity overflows \<open>int\<close>.
\<close>

theorem feedback_buffer_fifo:
  assumes "\<forall>p\<in>set rounds. \<forall>r\<in>set (fst p). back_rec r"
  shows "case FeedbackBufTask cap fresh rounds of
      Ok (s', as, rest) \<Rightarrow> payload (written Outstream as) @ held s' @ rest = concat (map fst rounds)
    | Err e \<Rightarrow> e = SignedOverflow"
proof -
  let ?s = "\<lparr>internal_buffer = SNetQueueCreate, out_capacity = cap, max_read = cap, buf_done = False, buf_fresh = fresh\<rparr> :: 'a buf_state"
  have "buf_ok ?s" "held ?s = []" by (simp_all add: buf_ok_def held_def queue_create_ok)
  with buf_run_yields[OF assms, of ?s "[]"] show ?thesis
    by (auto simp: FeedbackBufTask_def yields_def split: res.splits)
qed

definition buf_example :: "(nat snet_record list \<times> bool list) list" where
  "buf_example = [([REC_sort_end 0 1, REC_sort_end 0 2], [True, False]), ([REC_sort_end 0 3], [True])]"

theorem feedback_buffer_fifo_witness:
  "case FeedbackBufTask 2 5 buf_example of
      Ok (s', as, rest) \<Rightarrow> payload (written Outstream as) @ held s' @ rest = [REC_sort_end 0 1, REC_sort_end 0 2, REC_sort_end 0 3]
    | Err e \<Rightarrow> e = SignedOverflow"
proof -
  have a: "\<forall>p\<in>set buf_example. \<forall>r\<in>set (fst p). back_rec r" by (simp add: buf_example_def)
  have c: "concat (map fst buf_example) = [REC_sort_end 0 1, REC_sort_end 0 2, REC_sort_end 0 3]" by (simp add: buf_example_def)
  show ?thesis using feedback_buffer_fifo[OF a, of 2 5] unfolding c .
qed

end
