(* ===== verification/Snet_Box.thy ===== *)
theory Snet_Box
  imports Network
begin

text \<open>
  Boxes (\<open>runtime/stream/entity/box.c\<close>) and their output functions (\<open>out.c\<close>). A box function reads the
  input record through its handle, takes labels from it and emits records; an output record carries the
  values the box function gives for an output variant and, by flow inheritance, what is left in the input record.
  The box function and the functions of the execution realm are arguments.
\<close>

section \<open>Handles\<close>

text \<open>
  \<open>hnd_out\<close> are the actions on the output descriptor of the handle since the box function was called and
  \<open>hnd_seq\<close> is the counter of record identifiers (a static variable in \<open>record.c\<close>).
\<close>

record ('r, 'c) handle =
  hnd_rec :: "'r snet_record"
  hnd_sign :: "int_list snet_list"
  hnd_mapping :: "(int \<times> string) list option"
  hnd_vars :: "snet_variant snet_list"
  hnd_cdata :: 'c
  hnd_seq :: "32 word"
  hnd_out :: "'r action list"

definition SNetHndSetStringNames :: "('r, 'c) handle \<Rightarrow> (int \<times> string) list \<Rightarrow> ('r, 'c) handle" where
  "SNetHndSetStringNames hnd names = hnd\<lparr>hnd_mapping := Some names\<rparr>"

section \<open>Output\<close>

text \<open>The variable argument list of an output call; reading past its end or at the wrong type is undefined.\<close>

datatype 'd va = VA_ptr 'd | VA_int int

fun va_ptr :: "'d va list \<Rightarrow> ('d \<times> 'd va list) res" where
  "va_ptr (VA_ptr p # args) = Ok (p, args)"
| "va_ptr (VA_int i # args) = Err BadUnion"
| "va_ptr [] = Err UninitRead"

fun va_int :: "'d va list \<Rightarrow> (int \<times> 'd va list) res" where
  "va_int (VA_int i # args) = Ok (i, args)"
| "va_int (VA_ptr p # args) = Err BadUnion"
| "va_int [] = Err UninitRead"

fun out_labels :: "('d \<Rightarrow> int \<Rightarrow> 'r) \<Rightarrow> int \<Rightarrow> int list \<Rightarrow> 'r snet_record \<Rightarrow> 'd va list \<Rightarrow> 'r snet_record res" where
  "out_labels refCreate i [] rec args = Ok rec"
| "out_labels refCreate i [k] rec args = Err AssertFail"
| "out_labels refCreate i (k # n # l) rec args =
     (if k = 0 then bindR (va_ptr args) (\<lambda>(p, args). bindR (SNetRecSetField rec n (refCreate p i)) (\<lambda>rec. out_labels refCreate i l rec args))
      else if k = 1 then bindR (va_int args) (\<lambda>(v, args). bindR (SNetRecSetTag rec n v) (\<lambda>rec. out_labels refCreate i l rec args))
      else if k = 2 then bindR (va_int args) (\<lambda>(v, args). bindR (SNetRecSetBTag rec n v) (\<lambda>rec. out_labels refCreate i l rec args))
      else Err AssertFail)"

text \<open>
  The end of both output functions: flow inheritance from the record of the handle, then the write. The call of
  \<open>SNetRecDetrefCopy\<close> has no effect in this runtime (\<open>tertsrun.c\<close>).
\<close>

definition out_inherit :: "('r \<Rightarrow> 'r) \<Rightarrow> ('r, 'c) handle \<Rightarrow> snet_variant res \<Rightarrow> 'r snet_record \<Rightarrow> ('r, 'c) handle res" where
  "out_inherit refCopy hnd variant out_rec =
     (if hnd_rec hnd \<noteq> REC_trigger_initialiser then
        bindR variant (\<lambda>v. bindR (SNetRecFlowInherit refCopy v (hnd_rec hnd) out_rec) (\<lambda>out_rec.
        bindR (SNetRecGetDataMode (hnd_rec hnd)) (\<lambda>m. bindR (SNetRecSetDataMode out_rec m) (\<lambda>out_rec.
        Ok (hnd\<lparr>hnd_out := hnd_out hnd @ [SWrite Outstream out_rec]\<rparr>)))))
      else bindR (SNetRecSetDataMode out_rec MODE_textual) (\<lambda>out_rec.
        Ok (hnd\<lparr>hnd_out := hnd_out hnd @ [SWrite Outstream out_rec]\<rparr>)))"

definition SNetOutRawV ::
  "('r \<Rightarrow> 'r) \<Rightarrow> ('d \<Rightarrow> int \<Rightarrow> 'r) \<Rightarrow> int \<Rightarrow> ('r, 'c) handle \<Rightarrow> int \<Rightarrow> int \<Rightarrow> 'd va list \<Rightarrow> ('r, 'c) handle res" where
  "SNetOutRawV refCopy refCreate node hnd i variant_num args =
     (if variant_num > 0 then
        bindR (ListGet (hnd_sign hnd) (variant_num - 1)) (\<lambda>variant.
        bindR (SNetRecCreate node (hnd_seq hnd) Args_data) (\<lambda>(out_rec, seq).
        bindR (SNetRecSetInterfaceId out_rec i) (\<lambda>out_rec.
        bindR (LIST_FOR_EACH variant) (\<lambda>ls. bindR (out_labels refCreate i ls out_rec args) (\<lambda>out_rec.
        out_inherit refCopy (hnd\<lparr>hnd_seq := seq\<rparr>) (ListGet (hnd_vars hnd) (variant_num - 1)) out_rec)))))
      else Err FatalError)"

text \<open>The loops of \<open>SNetOutRawArray\<close>: the values come from an array, in the order of the labels of the variant.\<close>

definition set_each :: "('s \<Rightarrow> int \<Rightarrow> 'v \<Rightarrow> 's res) \<Rightarrow> 'v arr \<Rightarrow> 's \<Rightarrow> int list \<Rightarrow> 's res" where
  "set_each setf vals s names =
     bindR (foldR (\<lambda>(s, i) name. bindR (arr_read vals i) (\<lambda>v. bindR (setf s name v) (\<lambda>s. Ok (s, i + 1)))) (s, 0) names) (\<lambda>(s, _). Ok s)"

definition SNetOutRawArray ::
  "('r \<Rightarrow> 'r) \<Rightarrow> ('d \<Rightarrow> int \<Rightarrow> 'r) \<Rightarrow> int \<Rightarrow> ('r, 'c) handle \<Rightarrow> int \<Rightarrow> snet_variant \<Rightarrow> 'd arr \<Rightarrow> int arr \<Rightarrow> int arr \<Rightarrow> ('r, 'c) handle res" where
  "SNetOutRawArray refCopy refCreate node hnd if_id variant fvals tvals bvals =
     bindR (SNetRecCreate node (hnd_seq hnd) Args_data) (\<lambda>(out_rec, seq).
     bindR (SNetRecSetInterfaceId out_rec if_id) (\<lambda>out_rec.
     bindR (LIST_FOR_EACH (v_fields variant)) (\<lambda>ns. bindR (set_each (\<lambda>r n v. SNetRecSetField r n (refCreate v if_id)) fvals out_rec ns) (\<lambda>out_rec.
     bindR (LIST_FOR_EACH (v_tags variant)) (\<lambda>ns. bindR (set_each SNetRecSetTag tvals out_rec ns) (\<lambda>out_rec.
     bindR (LIST_FOR_EACH (v_btags variant)) (\<lambda>ns. bindR (set_each SNetRecSetBTag bvals out_rec ns) (\<lambda>out_rec.
     out_inherit refCopy (hnd\<lparr>hnd_seq := seq\<rparr>) (Ok variant) out_rec))))))))"

section \<open>The task\<close>

record ('r, 'c) box_arg =
  boxfun :: "('r, 'c) handle \<Rightarrow> ('r, 'c) handle res"
  exerealm_create :: "('r, 'c) handle \<Rightarrow> ('r, 'c) handle res"
  exerealm_update :: "('r, 'c) handle \<Rightarrow> ('r, 'c) handle res"
  exerealm_destroy :: "('r, 'c) handle \<Rightarrow> ('r, 'c) handle res"

record ('r, 'c) box_state =
  box_hnd :: "('r, 'c) handle"
  box_done :: bool

text \<open>A data record or an initialiser: the box function runs on it, then it is destroyed with what is left in it.\<close>

definition box_execute :: "('r, 'c) box_arg \<Rightarrow> ('r, 'c) box_state \<Rightarrow> 'r snet_record \<Rightarrow> (('r, 'c) box_state \<times> 'r action list) res" where
  "box_execute barg s rec =
     bindR (boxfun barg ((box_hnd s)\<lparr>hnd_rec := rec, hnd_out := []\<rparr>)) (\<lambda>hnd.
     bindR (exerealm_update barg hnd) (\<lambda>hnd.
     bindR (destroy_rec (hnd_rec hnd)) (\<lambda>as. Ok (s\<lparr>box_hnd := hnd\<rparr>, hnd_out hnd @ as))))"

fun box_round :: "('r, 'c) box_arg \<Rightarrow> ('r, 'c) box_state \<Rightarrow> 'r snet_record \<Rightarrow> (('r, 'c) box_state \<times> 'r action list) res" where
  "box_round barg s REC_trigger_initialiser = box_execute barg s REC_trigger_initialiser"
| "box_round barg s (REC_data d) = box_execute barg s (REC_data d)"
| "box_round barg s (REC_sync st v) = Ok (s, [SReplace Instream st])"
| "box_round barg s (REC_sort_end l n) = Ok (s, [SWrite Outstream (REC_sort_end l n)])"
| "box_round barg s (REC_terminate b) =
     bindR (exerealm_destroy barg (box_hnd s)) (\<lambda>hnd. Ok (s\<lparr>box_hnd := hnd, box_done := True\<rparr>, [SWrite Outstream (REC_terminate b)]))"
| "box_round barg s _ = Err AssertFail"

definition BoxTask :: "('r, 'c) box_arg \<Rightarrow> ('r, 'c) handle \<Rightarrow> 'r snet_record list \<Rightarrow> (('r, 'c) box_state \<times> 'r action list) res" where
  "BoxTask barg hnd rs =
     bindR (run_task box_done (box_round barg) \<lparr>box_hnd = hnd, box_done = False\<rparr> rs) (\<lambda>(s, as).
     if box_done s then
       bindR (exerealm_destroy barg (box_hnd s)) (\<lambda>hnd. Ok (s\<lparr>box_hnd := hnd\<rparr>, as @ [SClose Instream True, SClose Outstream False]))
     else Ok (s, as))"

text \<open>The handle that \<open>SNetBox\<close> prepares: the output types, their variants, and the data of the execution realm.\<close>

definition box_handle :: "('r, 'c) box_arg \<Rightarrow> 'c \<Rightarrow> 'r snet_record \<Rightarrow> int_list snet_list \<Rightarrow> 32 word \<Rightarrow> ('r, 'c) handle res" where
  "box_handle barg cd rec output_variants seq =
     bindR (box_variants output_variants) (\<lambda>vlist.
     exerealm_create barg \<lparr>hnd_rec = rec, hnd_sign = output_variants, hnd_mapping = None, hnd_vars = vlist,
       hnd_cdata = cd, hnd_seq = seq, hnd_out = []\<rparr>)"

section \<open>What an output call writes\<close>

fun sig_names :: "int \<Rightarrow> int list \<Rightarrow> int set" where
  "sig_names c (k # n # l) = (if k = c then insert n (sig_names c l) else sig_names c l)"
| "sig_names c _ = {}"

text \<open>The arguments fit the signature, and the labels that they give.\<close>

fun args_ok :: "int list \<Rightarrow> 'd va list \<Rightarrow> bool" where
  "args_ok [] args = True"
| "args_ok (k # n # l) (VA_ptr p # args) = (k = 0 \<and> args_ok l args)"
| "args_ok (k # n # l) (VA_int v # args) = ((k = 1 \<or> k = 2) \<and> args_ok l args)"
| "args_ok _ _ = False"

fun args_sem :: "('d \<Rightarrow> 'r) \<Rightarrow> int list \<Rightarrow> 'd va list \<Rightarrow> 'r labels \<Rightarrow> 'r labels" where
  "args_sem f (k # n # l) (VA_ptr p # args) (F, T, B) = args_sem f l args (F(n \<mapsto> f p), T, B)"
| "args_sem f (k # n # l) (VA_int v # args) (F, T, B) = args_sem f l args (if k = 1 then (F, T(n \<mapsto> v), B) else (F, T, B(n \<mapsto> v)))"
| "args_sem f _ _ L = L"

definition box_output :: "('r \<Rightarrow> 'r) \<Rightarrow> ('d \<Rightarrow> 'r) \<Rightarrow> int list \<Rightarrow> 'd va list \<Rightarrow> 'r labels \<Rightarrow> 'r labels" where
  "box_output c f sig args = (\<lambda>(F, T, B). case args_sem f sig args (Map.empty, Map.empty, Map.empty) of (F', T', B') \<Rightarrow>
     (F' ++ (\<lambda>n. if n \<notin> sig_names 0 sig then map_option c (F n) else None),
      T' ++ (\<lambda>n. if n \<notin> sig_names 1 sig then T n else None), B'))"

lemma out_labels_spec:
  "args_ok ls args \<Longrightarrow> data_ok out \<Longrightarrow>
     \<exists>out'. out_labels rc i ls (REC_data out) args = Ok (REC_data out') \<and> data_ok out' \<and>
       labels out' = args_sem (\<lambda>p. rc p i) ls args (labels out) \<and> interface_id out' = interface_id out \<and> rmode out' = rmode out"
proof (induction ls args arbitrary: out rule: args_ok.induct)
  case (2 k n l p args)
  obtain o1 where o1: "SNetRecSetField (REC_data out) n (rc p i) = Ok (REC_data o1)" "data_ok o1" "labels o1 = (case labels out of (F, T, B) \<Rightarrow> (F(n \<mapsto> rc p i), T, B))"
    using record_set(3)[OF 2(3), of n "rc p i"] by (auto simp: labels_def)
  moreover have "interface_id o1 = interface_id out \<and> rmode o1 = rmode out" using record_set_keeps(3)[OF o1(1)] by simp
  ultimately show ?case using 2 2(1)[OF _ o1(2)] by (auto simp: labels_def)
next
  case (3 k n l v args)
  have "\<exists>o1. (if k = 1 then SNetRecSetTag (REC_data out) n v else SNetRecSetBTag (REC_data out) n v) = Ok (REC_data o1) \<and> data_ok o1 \<and>
      labels o1 = (case labels out of (F, T, B) \<Rightarrow> if k = 1 then (F, T(n \<mapsto> v), B) else (F, T, B(n \<mapsto> v))) \<and>
      interface_id o1 = interface_id out \<and> rmode o1 = rmode out"
    using record_set(1)[OF 3(3), of n v] record_set(2)[OF 3(3), of n v] record_set_keeps(1)[of out n v] record_set_keeps(2)[of out n v]
    by (auto simp: labels_def)
  then obtain o1 where o1: "(if k = 1 then SNetRecSetTag (REC_data out) n v else SNetRecSetBTag (REC_data out) n v) = Ok (REC_data o1)" "data_ok o1"
      "labels o1 = (case labels out of (F, T, B) \<Rightarrow> if k = 1 then (F, T(n \<mapsto> v), B) else (F, T, B(n \<mapsto> v)))"
      "interface_id o1 = interface_id out \<and> rmode o1 = rmode out" by blast
  show ?case using 3 3(1)[OF _ o1(2)] o1 by (auto simp: labels_def split: if_splits)
qed auto

text \<open>The variants that \<open>SNetBox\<close> computes from the output types.\<close>

definition sig_variant :: "int list \<Rightarrow> snet_variant \<Rightarrow> bool" where
  "sig_variant ls v \<longleftrightarrow> variant_ok v \<and> vfields v = sig_names 0 ls \<and> vtags v = sig_names 1 ls \<and> vbtags v = sig_names 2 ls"

lemma box_labels_spec:
  "box_labels ls v = Ok w \<Longrightarrow> variant_ok v \<Longrightarrow>
     variant_ok w \<and> vfields w = vfields v \<union> sig_names 0 ls \<and> vtags w = vtags v \<union> sig_names 1 ls \<and> vbtags w = vbtags v \<union> sig_names 2 ls"
proof (induction ls v rule: box_labels.induct)
  case (3 k n l v)
  consider "k = 0" | "k = 1" | "k = 2" using 3(2) by (auto split: if_splits)
  then show ?case
  proof cases
    case 1
    obtain v1 where v1: "SNetVariantAddField v n = Ok v1" "variant_ok v1" "vfields v1 = insert n (vfields v)" "vtags v1 = vtags v" "vbtags v1 = vbtags v"
      using variant_add(3)[OF 3(3), of n] by blast
    with 1 3(2) 3(1)[of v1] show ?thesis by auto
  next
    case 2
    obtain v1 where v1: "SNetVariantAddTag v n = Ok v1" "variant_ok v1" "vtags v1 = insert n (vtags v)" "vfields v1 = vfields v" "vbtags v1 = vbtags v"
      using variant_add(1)[OF 3(3), of n] by blast
    with 2 3(2) 3(1)[of v1] show ?thesis by auto
  next
    case 3
    obtain v1 where v1: "SNetVariantAddBTag v n = Ok v1" "variant_ok v1" "vbtags v1 = insert n (vbtags v)" "vfields v1 = vfields v" "vtags v1 = vtags v"
      using variant_add(2)[OF \<open>variant_ok v\<close>, of n] by blast
    with 3 \<open>box_labels (k # n # l) v = Ok w\<close> "3.IH"[of v1] show ?thesis by auto
  qed
qed auto

lemma box_variants_loop:
  assumes "\<forall>l\<in>set ls. list_inv l" and "list_inv vs"
    and "foldR (\<lambda>vlist l. bindR SNetVariantCreateEmpty (\<lambda>v. bindR (LIST_FOR_EACH l) (\<lambda>ns. bindR (box_labels ns v) (ListAppendEnd vlist)))) vs ls = Ok ws"
  shows "list_inv ws \<and> (\<exists>xs. list_of ws = list_of vs @ xs \<and> list_all2 (\<lambda>l v. sig_variant (list_of l) v) ls xs)"
  using assms
proof (induction ls arbitrary: vs)
  case (Cons l ls)
  obtain v where v: "SNetVariantCreateEmpty = Ok v" "variant_ok v" "vtags v = {}" "vbtags v = {}" "vfields v = {}"
    using SNetVariantCreateEmpty_spec by (auto simp: SNetVariantIsEmpty_spec)
  have "list_inv l" using Cons.prems(1) by simp
  from Cons.prems(3) obtain vs1 where vs1:
    "bindR SNetVariantCreateEmpty (\<lambda>v. bindR (LIST_FOR_EACH l) (\<lambda>ns. bindR (box_labels ns v) (ListAppendEnd vs))) = Ok vs1"
    "foldR (\<lambda>vlist l. bindR SNetVariantCreateEmpty (\<lambda>v. bindR (LIST_FOR_EACH l) (\<lambda>ns. bindR (box_labels ns v) (ListAppendEnd vlist)))) vs1 ls = Ok ws"
    unfolding foldR.simps bindR_eq_Ok by blast
  from vs1(1) \<open>list_inv l\<close> obtain w where w: "box_labels (list_of l) v = Ok w" "ListAppendEnd vs w = Ok vs1"
    unfolding v(1) by (auto simp: LIST_FOR_EACH_list_of)
  have l1: "list_inv vs1" "list_of vs1 = list_of vs @ [w]" using ListAppendEnd_spec[OF Cons.prems(2), of w] w(2) by auto
  have "sig_variant (list_of l) w" using box_labels_spec[OF w(1) v(2)] v by (simp add: sig_variant_def)
  moreover obtain xs where "list_inv ws" "list_of ws = list_of vs1 @ xs" "list_all2 (\<lambda>l v. sig_variant (list_of l) v) ls xs"
    using Cons.IH[OF _ l1(1) vs1(2)] Cons.prems(1) by auto
  ultimately show ?case using l1(2) by (intro conjI exI[of _ "w # xs"]) auto
qed auto

lemma box_variants_spec:
  assumes "box_variants ovs = Ok ws" and "list_inv ovs" and "\<forall>l\<in>set (list_of ovs). list_inv l"
  shows "list_inv ws \<and> list_all2 (\<lambda>l v. sig_variant (list_of l) v) (list_of ovs) (list_of ws)"
proof -
  have "foldR (\<lambda>vlist l. bindR SNetVariantCreateEmpty (\<lambda>v. bindR (LIST_FOR_EACH l) (\<lambda>ns. bindR (box_labels ns v) (ListAppendEnd vlist)))) (pat_list []) (list_of ovs) = Ok ws"
    using assms(1) by (simp add: box_variants_def ListCreate_Ok LIST_FOR_EACH_list_of[OF assms(2)] pat_list_def)
  from box_variants_loop[OF assms(3) _ this] show ?thesis by simp
qed

text \<open>
  The record of the handle as the source of flow inheritance: a data record with its labels and its mode, or
  the initialiser, from which nothing is inherited.
\<close>

definition source_ok :: "'r snet_record \<Rightarrow> 'r labels \<Rightarrow> int \<Rightarrow> bool" where
  "source_ok r L m \<longleftrightarrow> (\<exists>d. r = REC_data d \<and> data_ok d \<and> labels d = L \<and> rmode d = m) \<or>
     r = REC_trigger_initialiser \<and> L = (Map.empty, Map.empty, Map.empty) \<and> m = MODE_textual"

definition emits :: "int \<Rightarrow> int \<Rightarrow> 'r labels \<Rightarrow> 'r snet_record \<Rightarrow> bool" where
  "emits i m L r \<longleftrightarrow> (\<exists>out. r = REC_data out \<and> data_ok out \<and> labels out = L \<and> interface_id out = i \<and> rmode out = m)"

lemma flow_inherit_keeps_id:
  assumes "SNetRecFlowInherit c pat r (REC_data out) = Ok (REC_data out')"
  shows "interface_id out' = interface_id out"
proof -
  let ?I = "\<lambda>r. \<exists>e. r = REC_data e \<and> interface_id e = interface_id out"
  have f: "?I r'" if "?I r" "inherit_field c pat r kv = Ok r'" for r r' kv
    using that by (auto simp: inherit_field_def SNetRecSetField_def split: prod.splits if_splits)
  have t: "?I r'" if "?I r" "inherit_tag pat r kv = Ok r'" for r r' kv
    using that by (auto simp: inherit_tag_def SNetRecSetTag_def split: prod.splits if_splits)
  obtain fs ts mid where m: "foldR (inherit_field c pat) (REC_data out) fs = Ok mid" "foldR (inherit_tag pat) mid ts = Ok (REC_data out')"
    using assms by (auto simp: SNetRecFlowInherit_def)
  have "?I mid" by (rule foldR_invariant[OF m(1)]) (use f in auto)
  then have "?I (REC_data out')" by (rule foldR_invariant[OF m(2)]) (use t in blast)
  then show ?thesis by simp
qed

lemma out_inherit_spec:
  assumes "source_ok (hnd_rec hnd) L m" and "sig_variant sig v" and "data_ok out" and "interface_id out = i"
    and "labels out = args_sem f sig args (Map.empty, Map.empty, Map.empty)"
  shows "\<exists>r. out_inherit c hnd (Ok v) (REC_data out) = Ok (hnd\<lparr>hnd_out := hnd_out hnd @ [SWrite Outstream r]\<rparr>) \<and> emits i m (box_output c f sig args L) r"
proof (cases "hnd_rec hnd = REC_trigger_initialiser")
  case True
  with assms(1) have L: "L = (Map.empty, Map.empty, Map.empty)" "m = MODE_textual" by (auto simp: source_ok_def)
  have "data_ok (out\<lparr>rmode := m\<rparr>)" "labels (out\<lparr>rmode := m\<rparr>) = labels out" using assms(3) by (simp_all add: data_ok_def labels_def label_maps)
  then have "emits i m (box_output c f sig args L) (REC_data (out\<lparr>rmode := m\<rparr>))"
    using assms(4,5) L(1) by (auto simp: emits_def box_output_def map_add_def split: prod.splits)
  with True L(2) show ?thesis by (auto simp: out_inherit_def)
next
  case False
  then obtain d where d: "hnd_rec hnd = REC_data d" "data_ok d" "labels d = L" "rmode d = m" using assms(1) by (auto simp: source_ok_def)
  have v: "variant_ok v" using assms(2) by (simp add: sig_variant_def)
  obtain o2 where o2: "SNetRecFlowInherit c v (REC_data d) (REC_data out) = Ok (REC_data o2)" "data_ok o2"
    "labels o2 = (field_map out ++ (\<lambda>n. if n \<notin> vfields v then map_option c (field_map d n) else None),
      tag_map out ++ (\<lambda>n. if n \<notin> vtags v then tag_map d n else None), btag_map out)"
    using SNetRecFlowInherit_spec[OF v d(2) assms(3), of c] by (auto simp: labels_def)
  let ?o = "o2\<lparr>rmode := m\<rparr>"
  have "data_ok ?o" "labels ?o = labels o2" using o2(2) by (simp_all add: data_ok_def labels_def label_maps)
  moreover have "labels o2 = box_output c f sig args L"
    using o2(3) assms(2) d(3) by (simp add: box_output_def sig_variant_def labels_def assms(5)[symmetric, unfolded labels_def] split: prod.splits) auto
  ultimately have "emits i m (box_output c f sig args L) (REC_data ?o)" using flow_inherit_keeps_id[OF o2(1)] assms(4) by (simp add: emits_def)
  moreover have "out_inherit c hnd (Ok v) (REC_data out) = Ok (hnd\<lparr>hnd_out := hnd_out hnd @ [SWrite Outstream (REC_data ?o)]\<rparr>)"
    using d(1,4) o2(1) by (simp add: out_inherit_def)
  ultimately show ?thesis by blast
qed

section \<open>What a box function does\<close>

text \<open>
  A call of a box function takes labels from the record of the handle and emits records: a sequence of the
  operations that the interface offers. Which ones may depend on the handle.
\<close>

datatype 'd box_op =
    TakeField int
  | TakeTag int
  | TakeBTag int
  | Output int int "'d va list"

fun box_step :: "('r \<Rightarrow> 'r) \<Rightarrow> ('d \<Rightarrow> int \<Rightarrow> 'r) \<Rightarrow> int \<Rightarrow> ('r, 'c) handle \<Rightarrow> 'd box_op \<Rightarrow> ('r, 'c) handle res" where
  "box_step c rc node hnd (TakeField n) = bindR (SNetRecTakeField (hnd_rec hnd) n) (\<lambda>(_, r). Ok (hnd\<lparr>hnd_rec := r\<rparr>))"
| "box_step c rc node hnd (TakeTag n) = bindR (SNetRecTakeTag (hnd_rec hnd) n) (\<lambda>(_, r). Ok (hnd\<lparr>hnd_rec := r\<rparr>))"
| "box_step c rc node hnd (TakeBTag n) = bindR (SNetRecTakeBTag (hnd_rec hnd) n) (\<lambda>(_, r). Ok (hnd\<lparr>hnd_rec := r\<rparr>))"
| "box_step c rc node hnd (Output i k args) = SNetOutRawV c rc node hnd i k args"

text \<open>The labels that are left, what the operations need, and what they emit: interface and labels of each record.\<close>

fun op_left :: "'r labels \<Rightarrow> 'd box_op \<Rightarrow> 'r labels" where
  "op_left (F, T, B) (TakeField n) = (F(n := None), T, B)"
| "op_left (F, T, B) (TakeTag n) = (F, T(n := None), B)"
| "op_left (F, T, B) (TakeBTag n) = (F, T, B(n := None))"
| "op_left L (Output i k args) = L"

fun op_ok :: "int list list \<Rightarrow> 'r labels \<Rightarrow> 'd box_op \<Rightarrow> bool" where
  "op_ok sigs (F, T, B) (TakeField n) = (n \<in> dom F)"
| "op_ok sigs (F, T, B) (TakeTag n) = (n \<in> dom T)"
| "op_ok sigs (F, T, B) (TakeBTag n) = (n \<in> dom B)"
| "op_ok sigs L (Output i k args) = (1 \<le> k \<and> k \<le> int (length sigs) \<and> args_ok (sigs ! nat (k - 1)) args)"

fun ops_ok :: "int list list \<Rightarrow> 'r labels \<Rightarrow> 'd box_op list \<Rightarrow> bool" where
  "ops_ok sigs L [] = True"
| "ops_ok sigs L (p # ps) = (op_ok sigs L p \<and> ops_ok sigs (op_left L p) ps)"

fun op_emits :: "('r \<Rightarrow> 'r) \<Rightarrow> ('d \<Rightarrow> int \<Rightarrow> 'r) \<Rightarrow> int list list \<Rightarrow> 'r labels \<Rightarrow> 'd box_op list \<Rightarrow> (int \<times> 'r labels) list" where
  "op_emits c rc sigs L (Output i k args # ps) = (i, box_output c (\<lambda>p. rc p i) (sigs ! nat (k - 1)) args L) # op_emits c rc sigs L ps"
| "op_emits c rc sigs L (p # ps) = op_emits c rc sigs (op_left L p) ps"
| "op_emits c rc sigs L [] = []"

definition handle_ok :: "int list list \<Rightarrow> ('r, 'c) handle \<Rightarrow> bool" where
  "handle_ok sigs hnd \<longleftrightarrow> list_inv (hnd_sign hnd) \<and> (\<forall>l\<in>set (list_of (hnd_sign hnd)). list_inv l) \<and> map list_of (list_of (hnd_sign hnd)) = sigs \<and>
     list_inv (hnd_vars hnd) \<and> list_all2 sig_variant sigs (list_of (hnd_vars hnd))"

lemma record_take:
  assumes "source_ok r (F, T, B) m"
  shows "n \<in> dom F \<Longrightarrow> \<exists>v r'. SNetRecTakeField r n = Ok (v, r') \<and> source_ok r' (F(n := None), T, B) m"
    and "n \<in> dom T \<Longrightarrow> \<exists>v r'. SNetRecTakeTag r n = Ok (v, r') \<and> source_ok r' (F, T(n := None), B) m"
    and "n \<in> dom B \<Longrightarrow> \<exists>v r'. SNetRecTakeBTag r n = Ok (v, r') \<and> source_ok r' (F, T, B(n := None)) m"
proof -
  have d: "\<exists>d. r = REC_data d \<and> map_ok (rec_tags d) \<and> map_ok (rec_btags d) \<and> map_ok (rec_fields d) \<and>
      map_lookup (rec_fields d) = F \<and> map_lookup (rec_tags d) = T \<and> map_lookup (rec_btags d) = B \<and> rmode d = m"
    if "F n \<noteq> None \<or> T n \<noteq> None \<or> B n \<noteq> None"
    using assms that by (auto simp: source_ok_def data_ok_def labels_def label_maps)
  have s: "source_ok (REC_data d) (map_lookup (rec_fields d), map_lookup (rec_tags d), map_lookup (rec_btags d)) (rmode d)"
    if "map_ok (rec_tags d)" "map_ok (rec_btags d)" "map_ok (rec_fields d)" for d :: "'a data_rec"
    using that by (auto simp: source_ok_def data_ok_def labels_def label_maps)
  show "\<exists>v r'. SNetRecTakeField r n = Ok (v, r') \<and> source_ok r' (F(n := None), T, B) m" if n: "n \<in> dom F"
  proof -
    obtain d where d: "r = REC_data d" "map_ok (rec_tags d)" "map_ok (rec_btags d)" "map_ok (rec_fields d)"
      "map_lookup (rec_fields d) = F" "map_lookup (rec_tags d) = T" "map_lookup (rec_btags d) = B" "rmode d = m" using d n by blast
    from MapTake_spec[OF d(4), of n] n d(5) obtain v m' where
      "MapTake (=) (rec_fields d) n = Ok (v, m')" "map_ok m'" "map_lookup m' = F(n := None)" by auto
    with d s[of "d\<lparr>rec_fields := m'\<rparr>"] show ?thesis by (simp add: SNetRecTakeField_def)
  qed
  show "\<exists>v r'. SNetRecTakeTag r n = Ok (v, r') \<and> source_ok r' (F, T(n := None), B) m" if n: "n \<in> dom T"
  proof -
    obtain d where d: "r = REC_data d" "map_ok (rec_tags d)" "map_ok (rec_btags d)" "map_ok (rec_fields d)"
      "map_lookup (rec_fields d) = F" "map_lookup (rec_tags d) = T" "map_lookup (rec_btags d) = B" "rmode d = m" using d n by blast
    from MapTake_spec[OF d(2), of n] n d(6) obtain v m' where
      "MapTake (=) (rec_tags d) n = Ok (v, m')" "map_ok m'" "map_lookup m' = T(n := None)" by auto
    with d s[of "d\<lparr>rec_tags := m'\<rparr>"] show ?thesis by (simp add: SNetRecTakeTag_def)
  qed
  show "\<exists>v r'. SNetRecTakeBTag r n = Ok (v, r') \<and> source_ok r' (F, T, B(n := None)) m" if n: "n \<in> dom B"
  proof -
    obtain d where d: "r = REC_data d" "map_ok (rec_tags d)" "map_ok (rec_btags d)" "map_ok (rec_fields d)"
      "map_lookup (rec_fields d) = F" "map_lookup (rec_tags d) = T" "map_lookup (rec_btags d) = B" "rmode d = m" using d n by blast
    from MapTake_spec[OF d(3), of n] n d(7) obtain v m' where
      "MapTake (=) (rec_btags d) n = Ok (v, m')" "map_ok m'" "map_lookup m' = B(n := None)" by auto
    with d s[of "d\<lparr>rec_btags := m'\<rparr>"] show ?thesis by (simp add: SNetRecTakeBTag_def)
  qed
qed

lemma SNetOutRawV_spec:
  fixes hnd :: "('r, 'c) handle"
  assumes "handle_ok sigs hnd" and "source_ok (hnd_rec hnd) L m" and "1 \<le> k" "k \<le> int (length sigs)" and "args_ok (sigs ! nat (k - 1)) args"
  shows "\<exists>r. SNetOutRawV c rc node hnd i k args = Ok (hnd\<lparr>hnd_seq := hnd_seq hnd + 1, hnd_out := hnd_out hnd @ [SWrite Outstream r]\<rparr>) \<and>
     emits i m (box_output c (\<lambda>p. rc p i) (sigs ! nat (k - 1)) args L) r"
proof -
  let ?j = "nat (k - 1)" and ?sig = "sigs ! nat (k - 1)"
  have h: "list_inv (hnd_sign hnd)" "list_inv (hnd_vars hnd)" "list_all2 sig_variant sigs (list_of (hnd_vars hnd))" "map list_of (list_of (hnd_sign hnd)) = sigs"
    using assms(1) by (auto simp: handle_ok_def)
  have j: "?j < length sigs" "length sigs = lused (hnd_sign hnd)" "length sigs = lused (hnd_vars hnd)"
    using assms(3,4) h(4) list_all2_lengthD[OF h(3)] by (auto simp: length_list_of)
  let ?l = "list_of (hnd_sign hnd) ! ?j"
  have l: "ListGet (hnd_sign hnd) (k - 1) = Ok ?l" "list_inv ?l" "list_of ?l = ?sig"
    using assms(1,3,4) j h by (auto simp: ListGet_spec handle_ok_def)
  have v: "ListGet (hnd_vars hnd) (k - 1) = Ok (list_of (hnd_vars hnd) ! ?j)" "sig_variant ?sig (list_of (hnd_vars hnd) ! ?j)"
    using assms(3,4) j h(2) list_all2_nthD[OF h(3) j(1)] by (auto simp: ListGet_spec)
  obtain o0 :: "'r data_rec" where o0: "SNetRecCreate node (hnd_seq hnd) Args_data = Ok (REC_data o0, hnd_seq hnd + 1)" "data_ok o0" "labels o0 = (Map.empty, Map.empty, Map.empty)"
    using SNetRecCreate_data[of node "hnd_seq hnd"] by (auto simp: labels_def)
  let ?o = "o0\<lparr>interface_id := i\<rparr>"
  have ok: "data_ok ?o" "labels ?o = (Map.empty, Map.empty, Map.empty)" using o0 by (simp_all add: data_ok_def labels_def label_maps)
  obtain o1 where o1: "out_labels rc i ?sig (REC_data ?o) args = Ok (REC_data o1)" "data_ok o1"
      "labels o1 = args_sem (\<lambda>p. rc p i) ?sig args (Map.empty, Map.empty, Map.empty)" "interface_id o1 = i"
    using out_labels_spec[OF assms(5) ok(1), of rc i] ok(2) by auto
  obtain r where r: "out_inherit c (hnd\<lparr>hnd_seq := hnd_seq hnd + 1\<rparr>) (Ok (list_of (hnd_vars hnd) ! ?j)) (REC_data o1) =
      Ok (hnd\<lparr>hnd_seq := hnd_seq hnd + 1, hnd_out := hnd_out hnd @ [SWrite Outstream r]\<rparr>)"
      "emits i m (box_output c (\<lambda>p. rc p i) ?sig args L) r"
    using out_inherit_spec[of "hnd\<lparr>hnd_seq := hnd_seq hnd + 1\<rparr>" L m, OF _ v(2) o1(2,4,3), of c] assms(2) by auto
  have "SNetOutRawV c rc node hnd i k args = Ok (hnd\<lparr>hnd_seq := hnd_seq hnd + 1, hnd_out := hnd_out hnd @ [SWrite Outstream r]\<rparr>)"
    using assms(3) l o0(1) o1(1) r(1) v(1) by (simp add: SNetOutRawV_def LIST_FOR_EACH_list_of del: SNetRecCreate.simps bindR_eq_Ok)
  with r(2) show ?thesis by blast
qed

lemma box_step_ok:
  assumes "handle_ok sigs hnd" and "source_ok (hnd_rec hnd) L m" and "op_ok sigs L p"
  shows "\<exists>hnd' rs. box_step c rc node hnd p = Ok hnd' \<and> handle_ok sigs hnd' \<and> source_ok (hnd_rec hnd') (op_left L p) m \<and>
     hnd_out hnd' = hnd_out hnd @ map (SWrite Outstream) rs \<and> hnd_cdata hnd' = hnd_cdata hnd \<and>
     list_all2 (\<lambda>(i, L) r. emits i m L r) (op_emits c rc sigs L [p]) rs"
proof -
  obtain F T B where L: "L = (F, T, B)" by (cases L)
  have h: "handle_ok sigs (hnd\<lparr>hnd_rec := r\<rparr>)" for r using assms(1) by (simp add: handle_ok_def)
  show ?thesis
  proof (cases p)
    case (Output i k args)
    with SNetOutRawV_spec[OF assms(1,2), of k args c rc node i] assms(1,2,3) obtain r where
      "SNetOutRawV c rc node hnd i k args = Ok (hnd\<lparr>hnd_seq := hnd_seq hnd + 1, hnd_out := hnd_out hnd @ [SWrite Outstream r]\<rparr>)"
      "emits i m (box_output c (\<lambda>p. rc p i) (sigs ! nat (k - 1)) args L) r" by auto
    with Output assms(1,2) show ?thesis by (auto simp: handle_ok_def intro!: exI[of _ "[r]"])
  qed (use assms(2,3) h record_take[of "hnd_rec hnd" F T B m] in \<open>force simp: L\<close>)+
qed

lemma box_run:
  "handle_ok sigs hnd \<Longrightarrow> source_ok (hnd_rec hnd) L m \<Longrightarrow> ops_ok sigs L ps \<Longrightarrow>
     \<exists>hnd' rs. foldR (box_step c rc node) hnd ps = Ok hnd' \<and> handle_ok sigs hnd' \<and> source_ok (hnd_rec hnd') (foldl op_left L ps) m \<and>
       hnd_out hnd' = hnd_out hnd @ map (SWrite Outstream) rs \<and> hnd_cdata hnd' = hnd_cdata hnd \<and>
       list_all2 (\<lambda>(i, L) r. emits i m L r) (op_emits c rc sigs L ps) rs"
proof (induction ps arbitrary: hnd L)
  case (Cons p ps)
  obtain h1 rs1 where h1: "box_step c rc node hnd p = Ok h1" "handle_ok sigs h1" "source_ok (hnd_rec h1) (op_left L p) m"
    "hnd_out h1 = hnd_out hnd @ map (SWrite Outstream) rs1" "hnd_cdata h1 = hnd_cdata hnd"
    "list_all2 (\<lambda>(i, L) r. emits i m L r) (op_emits c rc sigs L [p]) rs1"
    using box_step_ok[OF Cons.prems(1,2), of p c rc node] Cons.prems(3) by auto
  obtain h2 rs2 where h2: "foldR (box_step c rc node) h1 ps = Ok h2" "handle_ok sigs h2" "source_ok (hnd_rec h2) (foldl op_left (op_left L p) ps) m"
    "hnd_out h2 = hnd_out h1 @ map (SWrite Outstream) rs2" "hnd_cdata h2 = hnd_cdata h1"
    "list_all2 (\<lambda>(i, L) r. emits i m L r) (op_emits c rc sigs (op_left L p) ps) rs2"
    using Cons.IH[OF h1(2,3)] Cons.prems(3) by auto
  have "op_emits c rc sigs L (p # ps) = op_emits c rc sigs L [p] @ op_emits c rc sigs (op_left L p) ps" by (cases p) (cases L; simp)+
  then have "list_all2 (\<lambda>(i, L) r. emits i m L r) (op_emits c rc sigs L (p # ps)) (rs1 @ rs2)" using h1(6) h2(6) by (simp add: list_all2_appendI)
  with h1 h2 show ?case by (auto intro!: exI[of _ "rs1 @ rs2"])
qed auto

section \<open>Both output functions agree\<close>

text \<open>The signature that lists the labels of a variant: fields, then tags, then binding tags.\<close>

abbreviation sig_part :: "int \<Rightarrow> int list \<Rightarrow> int list" where
  "sig_part k ns \<equiv> concat (map (\<lambda>n. [k, n]) ns)"

definition sig_of :: "snet_variant \<Rightarrow> int list" where
  "sig_of v = sig_part 0 (list_of (v_fields v)) @ sig_part 1 (list_of (v_tags v)) @ sig_part 2 (list_of (v_btags v))"

lemma out_labels_part:
  assumes "\<And>n v l r args. out_labels rc i (k # n # l) r (h v # args) = bindR (g r n v) (\<lambda>r. out_labels rc i l r args)" and "length vs = length ns"
  shows "out_labels rc i (sig_part k ns @ ls) r (map h vs @ args) = bindR (foldR (\<lambda>r (n, v). g r n v) r (zip ns vs)) (\<lambda>r. out_labels rc i ls r args)"
  using assms(2)[symmetric] by (induction ns vs arbitrary: r rule: list_induct2) (simp_all add: assms(1) bindR_assoc del: out_labels.simps(3))

lemma set_each_zip:
  assumes "length vals = length ns"
  shows "set_each setf (map Some vals) s ns = foldR (\<lambda>s (n, v). setf s n v) s (zip ns vals)"
proof -
  have "foldR (\<lambda>(s, i) name. bindR (arr_read (map Some vals) i) (\<lambda>v. bindR (setf s name v) (\<lambda>s. Ok (s, i + 1)))) (s, k) ms =
      bindR (foldR (\<lambda>s (n, v). setf s n v) s (zip ms (drop k vals))) (\<lambda>s. Ok (s, k + length ms))" if "k + length ms = length vals" for s k ms
    using that
  proof (induction ms arbitrary: s k)
    case (Cons m ms)
    have k: "k < length vals" using Cons.prems by simp
    then have "drop k vals = vals ! k # drop (Suc k) vals" by (simp add: Cons_nth_drop_Suc)
    with k Cons show ?case by (cases "setf s m (vals ! k)") (simp_all add: arr_read_def)
  qed simp
  from this[of 0 ns s] assms show ?thesis by (cases "foldR (\<lambda>s (n, v). setf s n v) s (zip ns vals)") (simp_all add: set_each_def)
qed

text \<open>
  C19. Both output functions do the same: for a variant and arrays of its values, \<open>SNetOutRawArray\<close> equals \<open>SNetOutRawV\<close>
  on the output type that lists the labels of the variant, with the values as arguments; also when they fail.
\<close>

theorem box_out_array_equiv:
  assumes "variant_ok v" and "1 \<le> k" and "ListGet (hnd_sign hnd) (k - 1) = Ok l" and "list_inv l" and "list_of l = sig_of v"
    and "ListGet (hnd_vars hnd) (k - 1) = Ok v"
    and "length fs = length (list_of (v_fields v))" and "length ts = length (list_of (v_tags v))" and "length bs = length (list_of (v_btags v))"
  shows "SNetOutRawArray c rc node hnd i v (map Some fs) (map Some ts) (map Some bs) =
     SNetOutRawV c rc node hnd i k (map VA_ptr fs @ map VA_int ts @ map VA_int bs)"
proof -
  have "list_inv (v_fields v)" "list_inv (v_tags v)" "list_inv (v_btags v)" using assms(1) by (auto simp: variant_ok_def)
  note each = this[THEN LIST_FOR_EACH_list_of] assms(7-9)[THEN set_each_zip]
  have "out_labels rc i (sig_of v) r (map VA_ptr fs @ map VA_int ts @ map VA_int bs) =
      bindR (foldR (\<lambda>r (n, p). SNetRecSetField r n (rc p i)) r (zip (list_of (v_fields v)) fs)) (\<lambda>r.
      bindR (foldR (\<lambda>r (n, t). SNetRecSetTag r n t) r (zip (list_of (v_tags v)) ts)) (\<lambda>r.
      foldR (\<lambda>r (n, t). SNetRecSetBTag r n t) r (zip (list_of (v_btags v)) bs)))" for r
    unfolding sig_of_def
    using out_labels_part[of rc i 0 VA_ptr "\<lambda>r n p. SNetRecSetField r n (rc p i)"] out_labels_part[of rc i 1 VA_int SNetRecSetTag]
      out_labels_part[of rc i 2 VA_int SNetRecSetBTag bs "list_of (v_btags v)" "[]" _ "[]"] assms(7-9) by simp
  then show ?thesis
    using assms(2) by (simp add: SNetOutRawArray_def SNetOutRawV_def assms(3,5,6) LIST_FOR_EACH_list_of[OF assms(4)] each bindR_assoc del: SNetRecCreate.simps)
qed

definition box_example :: "(nat, unit) handle" where
  "box_example = \<lparr>hnd_rec = REC_data (field_rec [(1, 10), (2, 20)]), hnd_sign = pat_list [pat_list [0, 3, 1, 4]], hnd_mapping = None,
     hnd_vars = pat_list [SNetVariantCreate (int_list [3]) (int_list [4]) (int_list [])], hnd_cdata = (), hnd_seq = 0, hnd_out = []\<rparr>"

theorem box_out_array_equiv_witness:
  "SNetOutRawArray (\<lambda>r. r) (\<lambda>p i. p) 0 box_example 5 (SNetVariantCreate (int_list [3]) (int_list [4]) (int_list [])) [Some 30] [Some 40] [] =
     SNetOutRawV (\<lambda>r. r) (\<lambda>p i. p) 0 box_example 5 1 [VA_ptr 30, VA_int 40]"
proof -
  let ?v = "SNetVariantCreate (int_list [3]) (int_list [4]) (int_list [])"
  have "variant_ok ?v" "list_of (pat_list [0, 3, 1, 4]) = sig_of ?v" by (simp_all add: SNetVariantCreate_def variant_ok_def sig_of_def)
  moreover have "ListGet (hnd_sign box_example) (1 - 1) = Ok (pat_list [0, 3, 1, 4])" "ListGet (hnd_vars box_example) (1 - 1) = Ok ?v"
    by (simp_all add: box_example_def ListGet_spec)
  moreover have "length [30 :: nat] = length (list_of (v_fields ?v))" "length [40 :: int] = length (list_of (v_tags ?v))" "length ([] :: int list) = length (list_of (v_btags ?v))"
    by (simp_all add: SNetVariantCreate_def)
  ultimately show ?thesis using box_out_array_equiv[of ?v 1 box_example "pat_list [0, 3, 1, 4]" "[30]" "[40]" "[]"] by simp
qed

section \<open>A round of a box\<close>

lemma destroy_left:
  assumes "source_ok r L m"
  shows "\<exists>refs. destroy_rec r = Ok [DestroyRefs refs] \<and> set refs = ran (fst L)"
proof -
  consider d where "r = REC_data d" "data_ok d" "labels d = L" | "r = REC_trigger_initialiser" "L = (Map.empty, Map.empty, Map.empty)"
    using assms by (auto simp: source_ok_def)
  then show ?thesis
  proof cases
    case 1
    then have m: "map_inv (rec_fields d)" "distinct (map fst (entries (rec_fields d)))" by (auto simp: data_ok_def map_ok_def)
    have "field_map d = fst L" using 1(3) by (auto simp: labels_def)
    then have "set (map snd (entries (rec_fields d))) = ran (fst L)" using ran_distinct[OF m(2)] by (simp add: label_maps map_lookup_def)
    with 1(1) m(1) show ?thesis by (simp add: destroy_rec_def map_cells)
  qed (simp add: destroy_rec_def)
qed

text \<open>
  C18. A round of a box on a data record or an initialiser: when the box function takes labels that the record has and emits
  records of its output types with arguments of the right kinds, the box writes exactly these records, in order. Each
  carries the values of its output type and what is left in the input record at that time of labels the output type
  does not name, with the data mode of the input record and the interface of the call. What the box function did not
  take is destroyed at the end, and the handle is ready for the next record.
\<close>

theorem box_round_emits:
  assumes "box_variants ovs = Ok vs" and "list_inv ovs" and "\<forall>l\<in>set (list_of ovs). list_inv l"
    and "hnd_sign (box_hnd s) = ovs" and "hnd_vars (box_hnd s) = vs" and "source_ok r L m"
    and "\<And>h. boxfun barg h = foldR (box_step c rc node) h (prog h)" and "\<And>h. exerealm_update barg h = Ok (h\<lparr>hnd_cdata := u (hnd_cdata h)\<rparr>)"
    and "ps = prog ((box_hnd s)\<lparr>hnd_rec := r, hnd_out := []\<rparr>)" and "ops_ok (map list_of (list_of ovs)) L ps"
  shows "\<exists>s' rs refs. box_round barg s r = Ok (s', map (SWrite Outstream) rs @ [DestroyRefs refs]) \<and>
     list_all2 (\<lambda>(i, L') r'. emits i m L' r') (op_emits c rc (map list_of (list_of ovs)) L ps) rs \<and>
     set refs = ran (fst (foldl op_left L ps)) \<and> handle_ok (map list_of (list_of ovs)) (box_hnd s') \<and> box_done s' = box_done s"
proof -
  let ?sigs = "map list_of (list_of ovs)" and ?h = "(box_hnd s)\<lparr>hnd_rec := r, hnd_out := []\<rparr>"
  have "handle_ok ?sigs ?h" using box_variants_spec[OF assms(1-3)] assms(2-5) by (simp add: handle_ok_def list_all2_map1)
  moreover have "source_ok (hnd_rec ?h) L m" using assms(6) by simp
  ultimately obtain h' rs where h': "foldR (box_step c rc node) ?h ps = Ok h'" "handle_ok ?sigs h'" "source_ok (hnd_rec h') (foldl op_left L ps) m"
    "hnd_out h' = map (SWrite Outstream) rs" "list_all2 (\<lambda>(i, L) r. emits i m L r) (op_emits c rc ?sigs L ps) rs"
    using box_run[OF _ _ assms(10), of ?h m c rc node] by auto
  obtain refs where refs: "destroy_rec (hnd_rec h') = Ok [DestroyRefs refs]" "set refs = ran (fst (foldl op_left L ps))"
    using destroy_left[OF h'(3)] by blast
  let ?h2 = "h'\<lparr>hnd_cdata := u (hnd_cdata h')\<rparr>"
  have "box_execute barg s r = Ok (s\<lparr>box_hnd := ?h2\<rparr>, map (SWrite Outstream) rs @ [DestroyRefs refs])"
    using h'(1,4) refs(1) by (simp add: box_execute_def assms(7,8) assms(9)[symmetric])
  moreover have "box_round barg s r = box_execute barg s r" using assms(6) by (auto simp: source_ok_def)
  moreover have "handle_ok ?sigs ?h2" using h'(2) by (simp add: handle_ok_def)
  ultimately show ?thesis using h'(5) refs(2) by auto
qed

definition box_arg_example :: "(nat, unit) box_arg" where
  "box_arg_example = \<lparr>boxfun = (\<lambda>h. foldR (box_step (\<lambda>r. r) (\<lambda>p i. p) 0) h [TakeField 1, Output 5 1 [VA_ptr 30, VA_int 40]]),
     exerealm_create = Ok, exerealm_update = Ok, exerealm_destroy = Ok\<rparr>"

theorem box_round_emits_witness:
  "\<exists>s' r refs out. box_round box_arg_example \<lparr>box_hnd = box_example\<lparr>hnd_vars := the_res (box_variants (hnd_sign box_example))\<rparr>, box_done = False\<rparr>
       (REC_data (field_rec [(1, 10), (2, 20)])) = Ok (s', [SWrite Outstream r, DestroyRefs refs]) \<and> set refs = {20} \<and>
     r = REC_data out \<and> field_map out 2 = Some 20 \<and> field_map out 1 = None \<and> field_map out 3 = Some 30 \<and> tag_map out 4 = Some 40"
proof -
  let ?d = "field_rec [(1, 10), (2, 20)]" and ?ovs = "hnd_sign box_example" and ?ps = "[TakeField 1, Output 5 1 [VA_ptr 30, VA_int 40]] :: nat box_op list"
  let ?s = "\<lparr>box_hnd = box_example\<lparr>hnd_vars := the_res (box_variants ?ovs)\<rparr>, box_done = False\<rparr>"
  let ?L = "(map_of [(1, 10), (2, 20)], Map.empty, Map.empty)"
  have ovs: "list_inv ?ovs" "\<forall>l\<in>set (list_of ?ovs). list_inv l" "map list_of (list_of ?ovs) = [[0, 3, 1, 4]]" by (simp_all add: box_example_def)
  have "is_Ok (box_variants (pat_list [pat_list [0, 3, 1, 4]]))" by code_simp
  then have vs: "box_variants ?ovs = Ok (the_res (box_variants ?ovs))" by (auto simp: box_example_def is_Ok_iff)
  have src: "source_ok (REC_data ?d) ?L MODE_binary"
  proof -
    have "rmode ?d = MODE_binary" by (simp add: field_rec_def)
    then show ?thesis by (simp add: source_ok_def labels_def)
  qed
  have ops: "ops_ok (map list_of (list_of ?ovs)) ?L ?ps" unfolding ovs(3) by simp
  have "\<exists>s' rs refs. box_round box_arg_example ?s (REC_data ?d) = Ok (s', map (SWrite Outstream) rs @ [DestroyRefs refs]) \<and>
     list_all2 (\<lambda>(i, L') r'. emits i MODE_binary L' r') (op_emits (\<lambda>r. r) (\<lambda>p i. p) (map list_of (list_of ?ovs)) ?L ?ps) rs \<and>
     set refs = ran (fst (foldl op_left ?L ?ps)) \<and> handle_ok (map list_of (list_of ?ovs)) (box_hnd s') \<and> box_done s' = box_done ?s"
    by (rule box_round_emits[OF vs ovs(1,2) _ _ src, where prog = "\<lambda>_. ?ps" and node = 0 and u = "\<lambda>c. c"])
      (use ops in \<open>simp_all add: box_arg_example_def box_example_def\<close>)
  then obtain s' rs refs where r: "box_round box_arg_example ?s (REC_data ?d) = Ok (s', map (SWrite Outstream) rs @ [DestroyRefs refs])"
    "list_all2 (\<lambda>(i, L') r'. emits i MODE_binary L' r') [(5, box_output (\<lambda>r. r) (\<lambda>p. p) [0, 3, 1, 4] [VA_ptr 30, VA_int 40] (op_left ?L (TakeField 1 :: nat box_op)))] rs"
    "set refs = ran (fst (op_left ?L (TakeField 1 :: nat box_op)))" unfolding ovs(3) by auto
  then obtain out where o: "rs = [REC_data out]" "labels out = box_output (\<lambda>r. r) (\<lambda>p. p) [0, 3, 1, 4] [VA_ptr 30, VA_int 40] (op_left ?L (TakeField 1 :: nat box_op))"
    by (auto simp: list_all2_Cons1 emits_def)
  have "field_map out 2 = Some 20 \<and> field_map out 1 = None \<and> field_map out 3 = Some 30 \<and> tag_map out 4 = Some 40"
    using o(2) by (simp add: labels_def box_output_def map_add_def)
  moreover have "set refs = {20}" using r(3) by (auto simp: ran_def)
  ultimately show ?thesis using r(1) o(1) by auto
qed

text \<open>
  At the end of the task the data of the execution realm is destroyed twice: on the termination record and again after the loop.
\<close>

lemma box_realm_destroyed_twice:
  assumes "exerealm_destroy barg h = Ok h1" and "exerealm_destroy barg h1 = Ok h2"
  shows "BoxTask barg h [REC_terminate b] = Ok (\<lparr>box_hnd = h2, box_done = True\<rparr>, [SWrite Outstream (REC_terminate b), SClose Instream True, SClose Outstream False])"
  using assms by (simp add: BoxTask_def)

end
