(* ===== verification/Map_Key.thy ===== *)
theory Map_Key
  imports Map_Template
begin

text \<open>
  Instances of the map template whose comparison looks at a part of the key only (\<open>SNetRefCompare\<close>,
  \<open>SNetDestCompare\<close>). \<open>key_view f\<close> is the map with every key reduced to the part \<open>f\<close> that is compared; the operations
  with the comparison act on it as the operations with equality, so that their lemmas carry over.
\<close>

definition key_view :: "('k \<Rightarrow> 'q) \<Rightarrow> ('k, 'v) snet_map \<Rightarrow> ('q, 'v) snet_map" where
  "key_view f m = \<lparr>msize = msize m, mused = mused m, mkeys = map (map_option f) (mkeys m), mvalues = mvalues m\<rparr>"

definition same_key :: "('k \<Rightarrow> 'q) \<Rightarrow> 'k \<Rightarrow> 'k \<Rightarrow> bool" where
  "same_key f a b \<longleftrightarrow> f a = f b"

definition key_ok :: "('k \<Rightarrow> 'q) \<Rightarrow> ('k, 'v) snet_map \<Rightarrow> bool" where
  "key_ok f m = map_ok (key_view f m)"

definition key_lookup :: "('k \<Rightarrow> 'q) \<Rightarrow> ('k, 'v) snet_map \<Rightarrow> 'q \<Rightarrow> 'v option" where
  "key_lookup f m = map_lookup (key_view f m)"

lemma key_view_simps [simp]:
  "msize (key_view f m) = msize m" "mused (key_view f m) = mused m" "mvalues (key_view f m) = mvalues m"
  "mkeys (key_view f m) = map (map_option f) (mkeys m)"
  by (simp_all add: key_view_def)

lemma arr_view:
  "arr_read (map (map_option f) a) i = map_res f (arr_read a i)"
  "arr_write (map (map_option f) a) i (f x) = map_res (map (map_option f)) (arr_write a i x)"
  "mem_cpy (arr_alloc n) 0 (map (map_option f) a) 0 k = map_res (map (map_option f)) (mem_cpy (arr_alloc n) 0 a 0 k)"
  by (auto simp: arr_read_def arr_write_def mem_cpy_def arr_alloc_def map_update take_map drop_map split: option.splits)

lemma MapFind_view: "MapFind (same_key f) m k = MapFind (=) (key_view f m) (f k)"
proof -
  have "find_from (same_key f) m k i n = find_from (=) (key_view f m) (f k) i n" for i n
    by (induction n arbitrary: i) (auto simp: arr_view bindR_map_res same_key_def intro!: arg_cong[of _ _ "bindR _"])
  then show ?thesis by (simp add: MapFind_def)
qed

lemma MapGet_view: "MapGet (same_key f) m k = MapGet (=) (key_view f m) (f k)"
  unfolding MapGet_def MapFind_view key_view_simps ..

lemma MapContains_view: "MapContains (same_key f) m k = MapContains (=) (key_view f m) (f k)"
  by (simp add: MapContains_def MapFind_view)

lemma MapSet_view: "map_res (key_view f) (MapSet (same_key f) m k v) = MapSet (=) (key_view f m) (f k) v"
  unfolding MapSet_def MapFind_view
  by (auto simp: map_res_bindR bindR_map_res arr_view key_view_def split: option.splits intro!: arg_cong[of _ _ "bindR _"] ext)

lemma MapTake_view: "map_res (map_prod id (key_view f)) (MapTake (same_key f) m k) = MapTake (=) (key_view f m) (f k)"
  unfolding MapTake_def MapFind_view
  by (auto simp: map_res_bindR bindR_map_res arr_view key_view_def split: option.splits intro!: arg_cong[of _ _ "bindR _"] ext)

text \<open>The specifications of the operations in terms of \<open>key_lookup\<close>.\<close>

lemma MapGet_key: "key_ok f m \<Longrightarrow> MapGet (same_key f) m k = (case key_lookup f m (f k) of None \<Rightarrow> Err AssertFail | Some v \<Rightarrow> Ok v)"
  by (simp add: MapGet_view key_ok_def key_lookup_def MapGet_spec map_ok_def)

lemma MapContains_key: "key_ok f m \<Longrightarrow> MapContains (same_key f) m k = Ok (f k \<in> dom (key_lookup f m))"
  by (simp add: MapContains_view key_ok_def key_lookup_def MapContains_spec map_ok_def)

lemma MapSet_key:
  assumes "key_ok f m"
  shows "\<exists>m'. MapSet (same_key f) m k v = Ok m' \<and> key_ok f m' \<and> key_lookup f m' = (key_lookup f m)(f k \<mapsto> v)"
proof -
  obtain m' where "MapSet (=) (key_view f m) (f k) v = Ok m'" "map_ok m'" "map_lookup m' = (map_lookup (key_view f m))(f k \<mapsto> v)"
    using MapSet_spec[of "key_view f m" "f k" v] assms by (auto simp: key_ok_def)
  then show ?thesis using MapSet_view[of f m k v] by (cases "MapSet (same_key f) m k v") (auto simp: key_ok_def key_lookup_def)
qed

lemma MapTake_key:
  assumes "key_ok f m" and "key_lookup f m (f k) = Some v"
  shows "\<exists>m'. MapTake (same_key f) m k = Ok (v, m') \<and> key_ok f m' \<and> key_lookup f m' = (key_lookup f m)(f k := None)"
proof -
  obtain m' where "MapTake (=) (key_view f m) (f k) = Ok (v, m')" "map_ok m'" "map_lookup m' = (map_lookup (key_view f m))(f k := None)"
    using MapTake_spec[of "key_view f m" "f k"] assms by (auto simp: key_ok_def key_lookup_def)
  then show ?thesis using MapTake_view[of f m k] by (cases "MapTake (same_key f) m k") (auto simp: key_ok_def key_lookup_def)
qed

lemma MapTake_missing: "key_ok f m \<Longrightarrow> key_lookup f m (f k) = None \<Longrightarrow> MapTake (same_key f) m k = Err AssertFail"
  using MapTake_spec[of "key_view f m" "f k"] MapTake_view[of f m k]
  by (cases "MapTake (same_key f) m k") (auto simp: key_ok_def key_lookup_def)

lemma key_empty [simp]: "key_ok f (map_from [])" "key_lookup f (map_from []) = Map.empty"
  by (auto simp: key_ok_def key_lookup_def key_view_def map_from_def map_ok_def map_inv_def entries_def map_lookup_def)

end
