(* ===== verification/Reference.thy ===== *)
theory Reference
  imports Map_Key Snet_Record
begin

text \<open>
  References to field data across nodes (\<open>distrib/common/reference.c\<close>) and the registry of language interfaces
  (\<open>runtime/stream/langif/interface_functions.c\<close>). A node counts, for its own data, the references that other nodes
  hold (\<open>localRefMap\<close>), and for data of other nodes the references it holds itself (\<open>remoteRefMap\<close>) together with
  a copy of the data once it has been fetched. The functions run under the mutex of their map and are atomic here.
\<close>

section \<open>Language interfaces\<close>

text \<open>An interface with its copy function; the other function pointers of the registry are never called here.\<close>

record 'd snet_interface =
  iface_id :: int
  copyfun :: "'d \<Rightarrow> 'd"

definition SNetInterfaceRegister :: "'d snet_interface \<Rightarrow> 'd snet_interface list \<Rightarrow> 'd snet_interface list" where
  "SNetInterfaceRegister new ifs = ifs @ [new]"

fun SNetInterfaceGet :: "'d snet_interface list \<Rightarrow> int \<Rightarrow> 'd snet_interface res" where
  "SNetInterfaceGet [] i = Err FatalError"
| "SNetInterfaceGet (f # ifs) i = (if iface_id f \<noteq> i then SNetInterfaceGet ifs i else Ok f)"

definition COPYFUN :: "'d snet_interface list \<Rightarrow> int \<Rightarrow> 'd \<Rightarrow> 'd res" where
  "COPYFUN ifs i d = bindR (SNetInterfaceGet ifs i) (\<lambda>f. Ok (copyfun f d))"

section \<open>State\<close>

record 'd snet_ref =
  r_node :: int
  r_interface :: int
  r_data :: 'd

text \<open>The list of streams on which tasks wait for the data: NULL, a list, or a pointer to a list that was destroyed.\<close>

datatype list_ptr = NoList | WaitList "stream_id snet_list" | FreedList

record 'd snet_refcount =
  rc_count :: int
  rc_data :: "'d option"
  rc_list :: list_ptr

type_synonym 'd refcount_map = "('d snet_ref, 'd snet_refcount) snet_map"

record 'd ref_state =
  rs_node :: int
  localRefMap :: "'d refcount_map"
  remoteRefMap :: "'d refcount_map"
  rs_streams :: nat

text \<open>What a function does besides changing the maps: messages to the node of a reference, data freed, data written to a stream.\<close>

datatype 'd ref_event =
    UpdateRef "'d snet_ref" int
  | FetchRef "'d snet_ref"
  | FreeData int 'd
  | WriteData stream_id 'd

definition FREEFUN :: "'d snet_interface list \<Rightarrow> int \<Rightarrow> 'd option \<Rightarrow> 'd ref_event list res" where
  "FREEFUN ifs i d = bindR (SNetInterfaceGet ifs i) (\<lambda>_. case d of None \<Rightarrow> Err NullDeref | Some d \<Rightarrow> Ok [FreeData i d])"

abbreviation ref_key :: "'d snet_ref \<Rightarrow> int \<times> 'd" where
  "ref_key r \<equiv> (r_node r, r_data r)"

definition SNetRefCompare :: "'d snet_ref \<Rightarrow> 'd snet_ref \<Rightarrow> bool" where
  "SNetRefCompare r1 r2 \<longleftrightarrow> r_node r1 = r_node r2 \<and> r_data r1 = r_data r2"

lemma SNetRefCompare_key: "SNetRefCompare = same_key ref_key"
  by (auto simp: SNetRefCompare_def same_key_def fun_eq_iff)

section \<open>Operations\<close>

definition SNetReferenceInit :: "int \<Rightarrow> 'd ref_state res" where
  "SNetReferenceInit node = bindR (MapCreate []) (\<lambda>l. bindR (MapCreate []) (\<lambda>r.
     Ok \<lparr>rs_node = node, localRefMap = l, remoteRefMap = r, rs_streams = 0\<rparr>))"

definition SNetReferenceDestroy :: "'d ref_state \<Rightarrow> unit res" where
  "SNetReferenceDestroy s = bindR (assertR (MapSize (localRefMap s) = 0)) (\<lambda>_. assertR (MapSize (remoteRefMap s) = 0))"

definition SNetRefCreate :: "'d ref_state \<Rightarrow> 'd \<Rightarrow> int \<Rightarrow> 'd snet_ref" where
  "SNetRefCreate s d i = \<lparr>r_node = rs_node s, r_interface = i, r_data = d\<rparr>"

text \<open>A change of the entry of a reference through the pointer \<open>refInfo\<close>, and \<open>SNetMemFree\<close> of the entry that is taken out.\<close>

definition put_remote :: "'d ref_state \<Rightarrow> 'd snet_ref \<Rightarrow> 'd snet_refcount \<Rightarrow> 'd ref_state res" where
  "put_remote s r ri = bindR (MapSet SNetRefCompare (remoteRefMap s) r ri) (\<lambda>m. Ok (s\<lparr>remoteRefMap := m\<rparr>))"

definition take_remote :: "'d ref_state \<Rightarrow> 'd snet_ref \<Rightarrow> 'd ref_state res" where
  "take_remote s r = bindR (MapTake SNetRefCompare (remoteRefMap s) r) (\<lambda>(_, m). Ok (s\<lparr>remoteRefMap := m\<rparr>))"

definition put_local :: "'d ref_state \<Rightarrow> 'd snet_ref \<Rightarrow> 'd snet_refcount \<Rightarrow> 'd ref_state res" where
  "put_local s r ri = bindR (MapSet SNetRefCompare (localRefMap s) r ri) (\<lambda>m. Ok (s\<lparr>localRefMap := m\<rparr>))"

definition take_local :: "'d ref_state \<Rightarrow> 'd snet_ref \<Rightarrow> 'd ref_state res" where
  "take_local s r = bindR (MapTake SNetRefCompare (localRefMap s) r) (\<lambda>(_, m). Ok (s\<lparr>localRefMap := m\<rparr>))"

definition SNetRefCopy :: "'d snet_interface list \<Rightarrow> 'd ref_state \<Rightarrow> 'd snet_ref \<Rightarrow> ('d snet_ref \<times> 'd ref_state \<times> 'd ref_event list) res" where
  "SNetRefCopy ifs s r =
     (if rs_node s = r_node r then bindR (COPYFUN ifs (r_interface r) (r_data r)) (\<lambda>d. Ok (r\<lparr>r_data := d\<rparr>, s, []))
      else bindR (MapGet SNetRefCompare (remoteRefMap s) r) (\<lambda>ri.
        case rc_data ri of
          Some d \<Rightarrow> bindR (COPYFUN ifs (r_interface r) d) (\<lambda>d'. Ok (r\<lparr>r_node := rs_node s, r_data := d'\<rparr>, s, []))
        | None \<Rightarrow> bindR (c_int (rc_count ri + 1)) (\<lambda>n. bindR (put_remote s r (ri\<lparr>rc_count := n\<rparr>)) (\<lambda>s. Ok (r, s, [UpdateRef r 1])))))"

text \<open>\<open>GetData\<close> returns the data, or waits for it on a new stream.\<close>

datatype 'd got = Got 'd | Waits stream_id

definition GetData :: "'d snet_interface list \<Rightarrow> 'd ref_state \<Rightarrow> 'd snet_ref \<Rightarrow> ('d got \<times> 'd ref_state \<times> 'd ref_event list) res" where
  "GetData ifs s r =
     (if rs_node s = r_node r then Ok (Got (r_data r), s, [])
      else bindR (MapGet SNetRefCompare (remoteRefMap s) r) (\<lambda>ri.
        case rc_data ri of
          None \<Rightarrow>
            let str = rs_streams s; s = s\<lparr>rs_streams := str + 1\<rparr> in
            (case rc_list ri of
               WaitList l \<Rightarrow> bindR (ListAppendEnd l str) (\<lambda>l. bindR (put_remote s r (ri\<lparr>rc_list := WaitList l\<rparr>)) (\<lambda>s. Ok (Waits str, s, [])))
             | FreedList \<Rightarrow> Err UseAfterFree
             | NoList \<Rightarrow> bindR (ListCreate [str]) (\<lambda>l. bindR (put_remote s r (ri\<lparr>rc_list := WaitList l\<rparr>)) (\<lambda>s. Ok (Waits str, s, [FetchRef r]))))
        | Some d \<Rightarrow>
            bindR (c_int (rc_count ri - 1)) (\<lambda>n.
            if n = 0 then bindR (take_remote s r) (\<lambda>s. Ok (Got d, s, [UpdateRef r (-1)]))
            else bindR (COPYFUN ifs (r_interface r) d) (\<lambda>d'. bindR (put_remote s r (ri\<lparr>rc_count := n\<rparr>)) (\<lambda>s. Ok (Got d', s, [UpdateRef r (-1)]))))))"

text \<open>The reference after the data arrived.\<close>

definition ref_with :: "'d ref_state \<Rightarrow> 'd snet_ref \<Rightarrow> 'd \<Rightarrow> 'd snet_ref" where
  "ref_with s r d = r\<lparr>r_data := d, r_node := rs_node s\<rparr>"

definition SNetRefGetData :: "'d snet_interface list \<Rightarrow> 'd ref_state \<Rightarrow> 'd snet_ref \<Rightarrow> ('d snet_ref option \<times> 'd got \<times> 'd ref_state \<times> 'd ref_event list) res" where
  "SNetRefGetData ifs s r = bindR (GetData ifs s r) (\<lambda>(g, s, es). Ok (case g of Got d \<Rightarrow> Some (ref_with s r d) | Waits _ \<Rightarrow> None, g, s, es))"

definition SNetRefTakeData :: "'d snet_interface list \<Rightarrow> 'd ref_state \<Rightarrow> 'd snet_ref \<Rightarrow> ('d got \<times> 'd ref_state \<times> 'd ref_event list) res" where
  "SNetRefTakeData ifs s r = GetData ifs s r"

definition SNetRefDestroy :: "'d snet_interface list \<Rightarrow> 'd ref_state \<Rightarrow> 'd snet_ref \<Rightarrow> ('d ref_state \<times> 'd ref_event list) res" where
  "SNetRefDestroy ifs s r =
     (if rs_node s = r_node r then bindR (FREEFUN ifs (r_interface r) (Some (r_data r))) (\<lambda>es. Ok (s, es))
      else bindR (MapGet SNetRefCompare (remoteRefMap s) r) (\<lambda>ri.
        bindR (c_int (rc_count ri - 1)) (\<lambda>n.
        if n = 0 then
          bindR (if rc_data ri \<noteq> None then FREEFUN ifs (r_interface r) (rc_data ri) else Ok []) (\<lambda>es.
          bindR (take_remote s r) (\<lambda>s. Ok (s, UpdateRef r (-1) # es)))
        else bindR (put_remote s r (ri\<lparr>rc_count := n\<rparr>)) (\<lambda>s. Ok (s, [UpdateRef r (-1)])))))"

definition SNetRefIncoming :: "'d snet_interface list \<Rightarrow> 'd ref_state \<Rightarrow> 'd snet_ref \<Rightarrow> ('d snet_ref \<times> 'd ref_state) res" where
  "SNetRefIncoming ifs s r =
     (if rs_node s = r_node r then
        bindR (MapGet SNetRefCompare (localRefMap s) r) (\<lambda>ri. bindR (c_int (rc_count ri - 1)) (\<lambda>n.
        if n = 0 then bindR (take_local s r) (\<lambda>s. Ok (r, s))
        else bindR (put_local s r (ri\<lparr>rc_count := n\<rparr>)) (\<lambda>s. bindR (COPYFUN ifs (r_interface r) (r_data r)) (\<lambda>d. Ok (r\<lparr>r_data := d\<rparr>, s)))))
      else bindR (MapContains SNetRefCompare (remoteRefMap s) r) (\<lambda>b.
        if b then bindR (MapGet SNetRefCompare (remoteRefMap s) r) (\<lambda>ri. bindR (c_int (rc_count ri + 1)) (\<lambda>n.
          bindR (put_remote s r (ri\<lparr>rc_count := n\<rparr>)) (\<lambda>s. Ok (r, s))))
        else bindR (put_remote s r \<lparr>rc_count = 1, rc_data = None, rc_list = NoList\<rparr>) (\<lambda>s. Ok (r, s))))"

definition SNetRefOutgoing :: "'d snet_interface list \<Rightarrow> 'd ref_state \<Rightarrow> 'd snet_ref \<Rightarrow> ('d ref_state \<times> 'd ref_event list) res" where
  "SNetRefOutgoing ifs s r =
     (if rs_node s = r_node r then
        bindR (MapContains SNetRefCompare (localRefMap s) r) (\<lambda>b.
        if b then bindR (MapGet SNetRefCompare (localRefMap s) r) (\<lambda>ri. bindR (c_int (rc_count ri + 1)) (\<lambda>n.
          bindR (put_local s r (ri\<lparr>rc_count := n\<rparr>)) (\<lambda>s. bindR (FREEFUN ifs (r_interface r) (Some (r_data r))) (\<lambda>es. Ok (s, es)))))
        else bindR (put_local s r \<lparr>rc_count = 1, rc_data = Some (r_data r), rc_list = NoList\<rparr>) (\<lambda>s. Ok (s, [])))
      else bindR (MapGet SNetRefCompare (remoteRefMap s) r) (\<lambda>ri. bindR (c_int (rc_count ri - 1)) (\<lambda>n.
        if n = 0 then
          bindR (if rc_data ri \<noteq> None then FREEFUN ifs (r_interface r) (rc_data ri) else Ok []) (\<lambda>es.
          bindR (take_remote s r) (\<lambda>s. Ok (s, es)))
        else bindR (put_remote s r (ri\<lparr>rc_count := n\<rparr>)) (\<lambda>s. Ok (s, [])))))"

definition SNetRefUpdate :: "'d snet_interface list \<Rightarrow> 'd ref_state \<Rightarrow> 'd snet_ref \<Rightarrow> int \<Rightarrow> ('d ref_state \<times> 'd ref_event list) res" where
  "SNetRefUpdate ifs s r v =
     bindR (MapGet SNetRefCompare (localRefMap s) r) (\<lambda>ri. bindR (c_int (rc_count ri + v)) (\<lambda>n.
     if n = 0 then bindR (FREEFUN ifs (r_interface r) (rc_data ri)) (\<lambda>es. bindR (take_local s r) (\<lambda>s. Ok (s, es)))
     else bindR (put_local s r (ri\<lparr>rc_count := n\<rparr>)) (\<lambda>s. Ok (s, []))))"

text \<open>\<open>SNetRefSet\<close>: the data arrives; a copy goes to every waiting task. The list is destroyed, the pointer to it stays.\<close>

definition set_step :: "'d snet_interface list \<Rightarrow> int \<Rightarrow> 'd \<Rightarrow> int \<times> 'd ref_event list \<Rightarrow> stream_id \<Rightarrow> (int \<times> 'd ref_event list) res" where
  "set_step ifs i d = (\<lambda>(n, es) str. bindR (COPYFUN ifs i d) (\<lambda>d'. bindR (c_int (n - 1)) (\<lambda>n. Ok (n, es @ [WriteData str d']))))"

definition SNetRefSet :: "'d snet_interface list \<Rightarrow> 'd ref_state \<Rightarrow> 'd snet_ref \<Rightarrow> 'd \<Rightarrow> ('d ref_state \<times> 'd ref_event list) res" where
  "SNetRefSet ifs s r d =
     bindR (MapGet SNetRefCompare (remoteRefMap s) r) (\<lambda>ri.
     case rc_list ri of
       NoList \<Rightarrow> Err NullDeref
     | FreedList \<Rightarrow> Err UseAfterFree
     | WaitList l \<Rightarrow>
         bindR (LIST_DEQUEUE_EACH l) (\<lambda>(strs, _). bindR (foldR (set_step ifs (r_interface r) d) (rc_count ri, []) strs) (\<lambda>(n, es).
         if n > 0 then bindR (put_remote s r (ri\<lparr>rc_count := n, rc_list := FreedList, rc_data := Some d\<rparr>)) (\<lambda>s. Ok (s, es))
         else bindR (FREEFUN ifs (r_interface r) (Some d)) (\<lambda>es'. bindR (take_remote s r) (\<lambda>s. Ok (s, es @ es'))))))"

section \<open>What the operations do to the counts\<close>

text \<open>Well-formed maps, the entry of a key in each map, and a change of one entry.\<close>

definition refs_ok :: "'d ref_state \<Rightarrow> bool" where
  "refs_ok s \<longleftrightarrow> key_ok ref_key (localRefMap s) \<and> key_ok ref_key (remoteRefMap s)"

definition llook :: "'d ref_state \<Rightarrow> int \<times> 'd \<Rightarrow> 'd snet_refcount option" where
  "llook s = key_lookup ref_key (localRefMap s)"

definition rlook :: "'d ref_state \<Rightarrow> int \<times> 'd \<Rightarrow> 'd snet_refcount option" where
  "rlook s = key_lookup ref_key (remoteRefMap s)"

definition chg_remote :: "'d ref_state \<Rightarrow> int \<times> 'd \<Rightarrow> 'd snet_refcount option \<Rightarrow> 'd ref_state \<Rightarrow> bool" where
  "chg_remote s k x s' \<longleftrightarrow> refs_ok s' \<and> rlook s' = (rlook s)(k := x) \<and> llook s' = llook s \<and> rs_node s' = rs_node s"

definition chg_local :: "'d ref_state \<Rightarrow> int \<times> 'd \<Rightarrow> 'd snet_refcount option \<Rightarrow> 'd ref_state \<Rightarrow> bool" where
  "chg_local s k x s' \<longleftrightarrow> refs_ok s' \<and> llook s' = (llook s)(k := x) \<and> rlook s' = rlook s \<and> rs_node s' = rs_node s"

text \<open>The outcome of an operation, up to an overflow of a counter and an interface that is not registered.\<close>

definition may :: "'a res \<Rightarrow> ('a \<Rightarrow> bool) \<Rightarrow> bool" where
  "may r P \<longleftrightarrow> (case r of Ok x \<Rightarrow> P x | Err e \<Rightarrow> e = SignedOverflow \<or> e = FatalError)"

lemma may_simps [simp]: "may (Ok x) P = P x" "may (Err e) P \<longleftrightarrow> e = SignedOverflow \<or> e = FatalError"
  by (simp_all add: may_def)

lemma may_bind: "may r P \<Longrightarrow> (\<And>x. P x \<Longrightarrow> may (f x) Q) \<Longrightarrow> may (bindR r f) Q"
  by (cases r) auto

lemma may_bind_iff: "may (bindR r f) Q \<longleftrightarrow> may r (\<lambda>x. may (f x) Q)"
  by (cases r) auto

lemma may_mono: "may r P \<Longrightarrow> (\<And>x. P x \<Longrightarrow> Q x) \<Longrightarrow> may r Q"
  by (cases r) auto

lemma may_c_int: "(\<And>x. x = y \<Longrightarrow> P x) \<Longrightarrow> may (c_int y) P"
  by (auto simp: c_int_def)

lemma may_SNetInterfaceGet: "(\<And>f. P f) \<Longrightarrow> may (SNetInterfaceGet ifs i) P"
  by (induction ifs i rule: SNetInterfaceGet.induct) auto

lemma may_COPYFUN: "(\<And>d'. P d') \<Longrightarrow> may (COPYFUN ifs i d) P"
  by (auto simp: COPYFUN_def may_bind_iff intro!: may_SNetInterfaceGet)

lemma may_FREEFUN: "P [FreeData i d] \<Longrightarrow> may (FREEFUN ifs i (Some d)) P"
  by (auto simp: FREEFUN_def may_bind_iff intro!: may_SNetInterfaceGet)

lemma entry_remote:
  assumes "refs_ok s"
  shows "MapGet SNetRefCompare (remoteRefMap s) r = (case rlook s (ref_key r) of None \<Rightarrow> Err AssertFail | Some ri \<Rightarrow> Ok ri)"
    and "MapContains SNetRefCompare (remoteRefMap s) r = Ok (rlook s (ref_key r) \<noteq> None)"
    and "\<exists>s'. put_remote s r ri = Ok s' \<and> chg_remote s (ref_key r) (Some ri) s' \<and> rs_streams s' = rs_streams s"
    and "rlook s (ref_key r) \<noteq> None \<Longrightarrow> \<exists>s'. take_remote s r = Ok s' \<and> chg_remote s (ref_key r) None s'"
proof -
  have ok: "key_ok ref_key (remoteRefMap s)" using assms by (simp add: refs_ok_def)
  show "MapGet SNetRefCompare (remoteRefMap s) r = (case rlook s (ref_key r) of None \<Rightarrow> Err AssertFail | Some ri \<Rightarrow> Ok ri)"
    "MapContains SNetRefCompare (remoteRefMap s) r = Ok (rlook s (ref_key r) \<noteq> None)"
    using MapGet_key[OF ok, of r] MapContains_key[OF ok, of r] by (auto simp: SNetRefCompare_key rlook_def)
  show "\<exists>s'. put_remote s r ri = Ok s' \<and> chg_remote s (ref_key r) (Some ri) s' \<and> rs_streams s' = rs_streams s"
    using MapSet_key[OF ok, of r ri] assms by (auto simp: put_remote_def chg_remote_def SNetRefCompare_key rlook_def llook_def refs_ok_def)
  show "rlook s (ref_key r) \<noteq> None \<Longrightarrow> \<exists>s'. take_remote s r = Ok s' \<and> chg_remote s (ref_key r) None s'"
    using MapTake_key[OF ok, of r] assms by (fastforce simp: take_remote_def chg_remote_def SNetRefCompare_key rlook_def llook_def refs_ok_def)
qed

lemma entry_local:
  assumes "refs_ok s"
  shows "MapGet SNetRefCompare (localRefMap s) r = (case llook s (ref_key r) of None \<Rightarrow> Err AssertFail | Some ri \<Rightarrow> Ok ri)"
    and "MapContains SNetRefCompare (localRefMap s) r = Ok (llook s (ref_key r) \<noteq> None)"
    and "\<exists>s'. put_local s r ri = Ok s' \<and> chg_local s (ref_key r) (Some ri) s'"
    and "llook s (ref_key r) \<noteq> None \<Longrightarrow> \<exists>s'. take_local s r = Ok s' \<and> chg_local s (ref_key r) None s'"
proof -
  have ok: "key_ok ref_key (localRefMap s)" using assms by (simp add: refs_ok_def)
  show "MapGet SNetRefCompare (localRefMap s) r = (case llook s (ref_key r) of None \<Rightarrow> Err AssertFail | Some ri \<Rightarrow> Ok ri)"
    "MapContains SNetRefCompare (localRefMap s) r = Ok (llook s (ref_key r) \<noteq> None)"
    using MapGet_key[OF ok, of r] MapContains_key[OF ok, of r] by (auto simp: SNetRefCompare_key llook_def)
  show "\<exists>s'. put_local s r ri = Ok s' \<and> chg_local s (ref_key r) (Some ri) s'"
    using MapSet_key[OF ok, of r ri] assms by (auto simp: put_local_def chg_local_def SNetRefCompare_key rlook_def llook_def refs_ok_def)
  show "llook s (ref_key r) \<noteq> None \<Longrightarrow> \<exists>s'. take_local s r = Ok s' \<and> chg_local s (ref_key r) None s'"
    using MapTake_key[OF ok, of r] assms by (fastforce simp: take_local_def chg_local_def SNetRefCompare_key rlook_def llook_def refs_ok_def)
qed

lemma may_entries:
  assumes "refs_ok s"
  shows "rlook s (ref_key r) = Some ri \<Longrightarrow> P ri \<Longrightarrow> may (MapGet SNetRefCompare (remoteRefMap s) r) P"
    and "llook s (ref_key r) = Some ri \<Longrightarrow> P ri \<Longrightarrow> may (MapGet SNetRefCompare (localRefMap s) r) P"
    and "(\<And>s'. chg_remote s (ref_key r) (Some ri) s' \<Longrightarrow> P' s') \<Longrightarrow> may (put_remote s r ri) P'"
    and "rlook s (ref_key r) \<noteq> None \<Longrightarrow> (\<And>s'. chg_remote s (ref_key r) None s' \<Longrightarrow> P' s') \<Longrightarrow> may (take_remote s r) P'"
    and "(\<And>s'. chg_local s (ref_key r) (Some ri) s' \<Longrightarrow> P' s') \<Longrightarrow> may (put_local s r ri) P'"
    and "llook s (ref_key r) \<noteq> None \<Longrightarrow> (\<And>s'. chg_local s (ref_key r) None s' \<Longrightarrow> P' s') \<Longrightarrow> may (take_local s r) P'"
proof -
  show "rlook s (ref_key r) = Some ri \<Longrightarrow> P ri \<Longrightarrow> may (MapGet SNetRefCompare (remoteRefMap s) r) P" by (simp add: entry_remote(1)[OF assms])
  show "llook s (ref_key r) = Some ri \<Longrightarrow> P ri \<Longrightarrow> may (MapGet SNetRefCompare (localRefMap s) r) P" by (simp add: entry_local(1)[OF assms])
  show "(\<And>s'. chg_remote s (ref_key r) (Some ri) s' \<Longrightarrow> P' s') \<Longrightarrow> may (put_remote s r ri) P'" using entry_remote(3)[OF assms, of r ri] by auto
  show "rlook s (ref_key r) \<noteq> None \<Longrightarrow> (\<And>s'. chg_remote s (ref_key r) None s' \<Longrightarrow> P' s') \<Longrightarrow> may (take_remote s r) P'"
    using entry_remote(4)[OF assms, of r] by auto
  show "(\<And>s'. chg_local s (ref_key r) (Some ri) s' \<Longrightarrow> P' s') \<Longrightarrow> may (put_local s r ri) P'" using entry_local(3)[OF assms, of r ri] by auto
  show "llook s (ref_key r) \<noteq> None \<Longrightarrow> (\<And>s'. chg_local s (ref_key r) None s' \<Longrightarrow> P' s') \<Longrightarrow> may (take_local s r) P'"
    using entry_local(4)[OF assms, of r] by auto
qed

definition rc_dec :: "'d snet_refcount \<Rightarrow> 'd snet_refcount option" where
  "rc_dec ri = (if rc_count ri - 1 = 0 then None else Some (ri\<lparr>rc_count := rc_count ri - 1\<rparr>))"

fun local_event :: "'d ref_event \<Rightarrow> bool" where
  "local_event (UpdateRef r v) = False"
| "local_event (FetchRef r) = False"
| "local_event _ = True"

fun waiters :: "list_ptr \<Rightarrow> nat" where
  "waiters (WaitList l) = lused l"
| "waiters _ = 0"

fun list_ok :: "list_ptr \<Rightarrow> bool" where
  "list_ok (WaitList l) = list_inv l"
| "list_ok _ = True"

lemmas ref_ops = SNetRefCopy_def GetData_def SNetRefDestroy_def SNetRefIncoming_def SNetRefOutgoing_def SNetRefUpdate_def

lemma copy_spec:
  assumes "refs_ok s"
  shows "rs_node s = r_node r \<Longrightarrow> may (SNetRefCopy ifs s r) (\<lambda>(r', s', es). r_node r' = rs_node s \<and> s' = s \<and> es = [])"
    and "rs_node s \<noteq> r_node r \<Longrightarrow> rlook s (ref_key r) = Some ri \<Longrightarrow> may (SNetRefCopy ifs s r) (\<lambda>(r', s', es).
      r' = r \<and> es = [UpdateRef r 1] \<and> chg_remote s (ref_key r) (Some (ri\<lparr>rc_count := rc_count ri + 1\<rparr>)) s' \<or>
      r_node r' = rs_node s \<and> es = [] \<and> s' = s)"
  by (auto simp: ref_ops may_bind_iff split: option.splits intro!: may_COPYFUN may_entries[OF assms] may_c_int)

lemma get_local: "rs_node s = r_node r \<Longrightarrow> GetData ifs s r = Ok (Got (r_data r), s, [])"
  by (simp add: GetData_def)

lemma get_data_spec:
  assumes "refs_ok s" "rs_node s \<noteq> r_node r" "rlook s (ref_key r) = Some ri" "rc_data ri = Some d"
  shows "may (GetData ifs s r) (\<lambda>(g, s', es). (\<exists>d'. g = Got d') \<and> es = [UpdateRef r (-1)] \<and> chg_remote s (ref_key r) (rc_dec ri) s')"
  using assms(2-) by (auto simp: ref_ops may_bind_iff rc_dec_def intro!: may_COPYFUN may_entries[OF assms(1)] may_c_int)

lemma get_wait_spec:
  assumes "refs_ok s" "rs_node s \<noteq> r_node r" "rlook s (ref_key r) = Some ri" "rc_data ri = None" "rc_list ri \<noteq> FreedList" "list_ok (rc_list ri)"
  shows "may (GetData ifs s r) (\<lambda>(g, s', es). (\<exists>str. g = Waits str) \<and> es = (if rc_list ri = NoList then [FetchRef r] else []) \<and>
     (\<exists>l. list_inv l \<and> lused l = waiters (rc_list ri) + 1 \<and> chg_remote s (ref_key r) (Some (ri\<lparr>rc_list := WaitList l\<rparr>)) s'))"
proof -
  let ?s = "s\<lparr>rs_streams := Suc (rs_streams s)\<rparr>"
  have ok: "refs_ok ?s" using assms(1) by (simp add: refs_ok_def)
  have look: "rlook (s\<lparr>rs_streams := n\<rparr>) = rlook s" "llook (s\<lparr>rs_streams := n\<rparr>) = llook s" for n using assms(1) by (simp_all add: refs_ok_def rlook_def llook_def)
  have chg: "chg_remote ?s k x s' = chg_remote s k x s'" for k x s' by (simp add: chg_remote_def look)
  show ?thesis
  proof (cases "rc_list ri")
    case NoList
    let ?l = "\<lparr>lsize = Suc 0, lused = Suc 0, lstart = 0, lvalues = [Some (rs_streams s)]\<rparr>"
    have "list_inv ?l" using list_inv_fresh[of "[rs_streams s]"] by simp
    with assms(2-4) NoList show ?thesis
      by (auto simp: GetData_def Let_def may_bind_iff ListCreate_Ok chg intro!: may_entries(1)[OF assms(1)] may_entries(3)[OF ok] exI[of _ ?l])
  next
    case (WaitList l)
    then obtain l' where l': "ListAppendEnd l (rs_streams s) = Ok l'" "list_inv l'" "list_of l' = list_of l @ [rs_streams s]"
      using ListAppendEnd_spec[of l "rs_streams s"] assms(6) by auto
    then have "lused l' = lused l + 1" by (metis length_append length_list_of list.size(3,4) plus_1_eq_Suc add.commute One_nat_def)
    with l' assms(2-4) WaitList show ?thesis
      by (auto simp: GetData_def Let_def may_bind_iff chg intro!: may_entries(1)[OF assms(1)] may_entries(3)[OF ok] exI[of _ l'])
  qed (use assms(5) in simp)
qed

lemma destroy_spec:
  assumes "refs_ok s"
  shows "rs_node s = r_node r \<Longrightarrow> may (SNetRefDestroy ifs s r) (\<lambda>(s', es). s' = s \<and> list_all local_event es)"
    and "rs_node s \<noteq> r_node r \<Longrightarrow> rlook s (ref_key r) = Some ri \<Longrightarrow> may (SNetRefDestroy ifs s r) (\<lambda>(s', es).
      (\<exists>fs. es = UpdateRef r (-1) # fs \<and> list_all local_event fs) \<and> chg_remote s (ref_key r) (rc_dec ri) s')"
  by (auto simp: ref_ops may_bind_iff rc_dec_def intro!: may_FREEFUN may_entries[OF assms] may_c_int)

lemma incoming_spec:
  assumes "refs_ok s"
  shows "rs_node s = r_node r \<Longrightarrow> llook s (ref_key r) = Some ri \<Longrightarrow> may (SNetRefIncoming ifs s r) (\<lambda>(r', s'). r_node r' = rs_node s \<and> chg_local s (ref_key r) (rc_dec ri) s')"
    and "rs_node s \<noteq> r_node r \<Longrightarrow> may (SNetRefIncoming ifs s r) (\<lambda>(r', s'). r' = r \<and> chg_remote s (ref_key r)
      (Some (case rlook s (ref_key r) of None \<Rightarrow> \<lparr>rc_count = 1, rc_data = None, rc_list = NoList\<rparr> | Some ri \<Rightarrow> ri\<lparr>rc_count := rc_count ri + 1\<rparr>)) s')"
  by (auto simp: ref_ops may_bind_iff rc_dec_def entry_remote(2)[OF assms] split: option.splits intro!: may_COPYFUN may_entries[OF assms] may_c_int)

lemma outgoing_spec:
  assumes "refs_ok s"
  shows "rs_node s = r_node r \<Longrightarrow> may (SNetRefOutgoing ifs s r) (\<lambda>(s', es). list_all local_event es \<and> chg_local s (ref_key r)
      (Some (case llook s (ref_key r) of None \<Rightarrow> \<lparr>rc_count = 1, rc_data = Some (r_data r), rc_list = NoList\<rparr> | Some ri \<Rightarrow> ri\<lparr>rc_count := rc_count ri + 1\<rparr>)) s')"
    and "rs_node s \<noteq> r_node r \<Longrightarrow> rlook s (ref_key r) = Some ri \<Longrightarrow> may (SNetRefOutgoing ifs s r) (\<lambda>(s', es).
      list_all local_event es \<and> chg_remote s (ref_key r) (rc_dec ri) s')"
  by (auto simp: ref_ops may_bind_iff rc_dec_def entry_local(2)[OF assms] split: option.splits intro!: may_FREEFUN may_entries[OF assms] may_c_int)

lemma update_spec:
  assumes "refs_ok s" "llook s (ref_key r) = Some ri" "rc_data ri = Some d"
  shows "may (SNetRefUpdate ifs s r v) (\<lambda>(s', es). (if rc_count ri + v = 0 then es = [FreeData (r_interface r) d] else es = []) \<and>
     chg_local s (ref_key r) (if rc_count ri + v = 0 then None else Some (ri\<lparr>rc_count := rc_count ri + v\<rparr>)) s')"
  using assms(2-) by (auto simp: ref_ops may_bind_iff intro!: may_FREEFUN may_entries[OF assms(1)] may_c_int)

lemma set_loop:
  "may (foldR (set_step ifs i d) (n, es) strs) (\<lambda>(n', es'). n' = n - int (length strs) \<and> (\<exists>ds. es' = es @ map2 WriteData strs ds \<and> length ds = length strs))"
proof (induction strs arbitrary: n es)
  case (Cons str strs)
  have "may (foldR (set_step ifs i d) (n - 1, es @ [WriteData str d']) strs) (\<lambda>(n', es'). n' = n - int (length (str # strs)) \<and>
      (\<exists>ds. es' = es @ map2 WriteData (str # strs) ds \<and> length ds = length (str # strs)))" for d'
    by (rule may_mono[OF Cons.IH]) (auto, metis length_Cons list.simps(9) zip_Cons_Cons case_prod_conv)
  then show ?case by (auto simp: set_step_def may_bind_iff intro!: may_COPYFUN may_c_int)
qed simp

lemma set_spec:
  assumes "refs_ok s" "rlook s (ref_key r) = Some ri" "rc_list ri = WaitList l" "list_inv l"
  shows "may (SNetRefSet ifs s r d) (\<lambda>(s', es).
     (\<exists>ds fs. es = map2 WriteData (list_of l) ds @ fs \<and> length ds = lused l \<and> set fs \<subseteq> {FreeData (r_interface r) d}) \<and>
     chg_remote s (ref_key r) (if rc_count ri > int (lused l) then
       Some (ri\<lparr>rc_count := rc_count ri - int (lused l), rc_list := FreedList, rc_data := Some d\<rparr>) else None) s')"
proof -
  obtain l' where l': "LIST_DEQUEUE_EACH l = Ok (list_of l, l')" using LIST_DEQUEUE_EACH_spec[OF assms(4)] by blast
  have g: "MapGet SNetRefCompare (remoteRefMap s) r = Ok ri" using entry_remote(1)[OF assms(1), of r] assms(2) by simp
  note loop = set_loop[of ifs "r_interface r" d "rc_count ri" "[]" "list_of l"]
  show ?thesis
    unfolding SNetRefSet_def g bindR.simps assms(3) list_ptr.case l' prod.case
  proof (rule may_bind[OF loop])
    fix x :: "int \<times> 'a ref_event list"
    assume "case x of (n', es') \<Rightarrow> n' = rc_count ri - int (length (list_of l)) \<and> (\<exists>ds. es' = [] @ map2 WriteData (list_of l) ds \<and> length ds = length (list_of l))"
    then obtain ds where x: "x = (rc_count ri - int (lused l), map2 WriteData (list_of l) ds)" "length ds = lused l" by (cases x) auto
    have e: "\<exists>ds' fs. map2 WriteData (list_of l) ds @ gs = map2 WriteData (list_of l) ds' @ fs \<and> length ds' = lused l \<and> set fs \<subseteq> {FreeData (r_interface r) d}"
      if "set gs \<subseteq> {FreeData (r_interface r) d}" for gs using that x(2) by blast
    show "may (case x of (n, es) \<Rightarrow>
          if n > 0 then bindR (put_remote s r (ri\<lparr>rc_count := n, rc_list := FreedList, rc_data := Some d\<rparr>)) (\<lambda>s. Ok (s, es))
          else bindR (FREEFUN ifs (r_interface r) (Some d)) (\<lambda>es'. bindR (take_remote s r) (\<lambda>s. Ok (s, es @ es'))))
        (\<lambda>(s', es). (\<exists>ds fs. es = map2 WriteData (list_of l) ds @ fs \<and> length ds = lused l \<and> set fs \<subseteq> {FreeData (r_interface r) d}) \<and>
          chg_remote s (ref_key r) (if rc_count ri > int (lused l) then
            Some (ri\<lparr>rc_count := rc_count ri - int (lused l), rc_list := FreedList, rc_data := Some d\<rparr>) else None) s')"
      using e[of "[]"] e[of "[FreeData (r_interface r) d]"] assms(2)
      by (auto simp: x(1) may_bind_iff intro!: may_FREEFUN may_entries[OF assms(1)])
  qed
qed

end
