(* ===== verification/Ref_Protocol.thy ===== *)
theory Ref_Protocol
  imports Reference "HOL-Library.Multiset"
begin

text \<open>
  The references of all nodes together. Tasks copy, read and destroy references and send them to other nodes; the
  input manager of a node (\<open>imanager.c\<close>) handles the messages for it. The transport layers differ in the order of delivery:
  the ring of a node on the SCC holds the messages in the order in which they were written, whoever wrote them, while MPI
  (\<open>MPI_Probe\<close> with \<open>MPI_ANY_SOURCE\<close>, \<open>mpi/transmit.c\<close>) keeps the order of the messages of one sender only. The system
  has both: with \<open>In_Order\<close> a node receives the first message that was written for it, with \<open>Any_Order\<close> any message, which
  allows more than MPI does. The invariant relates the count of the owner of the data, the messages that are under way and
  the references that the other nodes hold; the counts are exact in either order, but the data is safe only in the
  first one: \<open>ref_overtaking\<close> is a run over MPI in which a datum is freed too early.
\<close>

section \<open>The system\<close>

datatype 'd msg =
    MRec "'d snet_ref"
  | MUpdate "'d snet_ref" int
  | MFetch "'d snet_ref" int
  | MSet "'d snet_ref" 'd

datatype delivery = In_Order | Any_Order

text \<open>
  \<open>order\<close> is the guarantee of the transport layer and never changes. \<open>wire\<close> holds the messages with their destinations in the order in which they were written, \<open>heldr\<close> the references in
  records on a node, \<open>waits\<close> the tasks that wait for the data of a reference. \<open>extra\<close> is bookkeeping of the
  proof: for each datum, the number of tasks that began to wait while another one on the node waited already.
\<close>

record 'd rsys =
  order :: delivery
  nodes :: "int \<Rightarrow> 'd ref_state"
  wire :: "(int \<times> 'd msg) list"
  heldr :: "(int \<times> 'd snet_ref) multiset"
  waits :: "(int \<times> 'd snet_ref) multiset"
  extra :: "int \<times> 'd \<Rightarrow> int"

fun ref_sends :: "int \<Rightarrow> 'd ref_event list \<Rightarrow> (int \<times> 'd msg) list" where
  "ref_sends n [] = []"
| "ref_sends n (UpdateRef r v # es) = (r_node r, MUpdate r v) # ref_sends n es"
| "ref_sends n (FetchRef r # es) = (r_node r, MFetch r n) # ref_sends n es"
| "ref_sends n (e # es) = ref_sends n es"

text \<open>
  The handling of a message by the input manager: the new state of the node, the messages that it writes and the
  reference that arrives in a record. \<open>xfer\<close> is what packing and unpacking makes of the data.
\<close>

fun ref_handle :: "'d snet_interface list \<Rightarrow> ('d \<Rightarrow> 'd) \<Rightarrow> 'd ref_state \<Rightarrow> 'd msg \<Rightarrow>
    ('d ref_state \<times> (int \<times> 'd msg) list \<times> 'd snet_ref option \<times> 'd ref_event list) res" where
  "ref_handle ifs xfer s (MRec r) = bindR (SNetRefIncoming ifs s r) (\<lambda>(r', s). Ok (s, [], Some r', []))"
| "ref_handle ifs xfer s (MUpdate r v) = bindR (SNetRefUpdate ifs s r v) (\<lambda>(s, es). Ok (s, [], None, es))"
| "ref_handle ifs xfer s (MFetch r dest) =
     bindR (SNetRefGetData ifs s r) (\<lambda>(r', g, s, es). case g of
       Got d \<Rightarrow> bindR (SNetRefUpdate ifs s (the r') (-1)) (\<lambda>(s, es'). Ok (s, [(dest, MSet (the r') (xfer d))], None, es @ es'))
     | Waits str \<Rightarrow> Err NoProgress)"
| "ref_handle ifs xfer s (MSet r d) = bindR (SNetRefSet ifs s r d) (\<lambda>(s, es). Ok (s, [], None, es))"

text \<open>The tasks that a message wakes up, and the references that they continue with.\<close>

fun woken :: "int \<Rightarrow> 'd msg \<Rightarrow> int \<times> 'd snet_ref \<Rightarrow> bool" where
  "woken n (MSet r d) (n', r') \<longleftrightarrow> n' = n \<and> ref_key r' = ref_key r"
| "woken n _ _ \<longleftrightarrow> False"

inductive ref_step :: "'d snet_interface list \<Rightarrow> ('d \<Rightarrow> 'd) \<Rightarrow> 'd rsys \<Rightarrow> 'd rsys \<Rightarrow> bool"
  for ifs :: "'d snet_interface list" and xfer :: "'d \<Rightarrow> 'd" where
  create: "ref_step ifs xfer S (S\<lparr>heldr := add_mset (n, SNetRefCreate (nodes S n) d i) (heldr S)\<rparr>)"
| copy: "heldr S = add_mset (n, r) H \<Longrightarrow> SNetRefCopy ifs (nodes S n) r = Ok (r', s', es) \<Longrightarrow>
    ref_step ifs xfer S (S\<lparr>nodes := (nodes S)(n := s'), heldr := add_mset (n, r') (heldr S), wire := wire S @ ref_sends n es\<rparr>)"
| get: "heldr S = add_mset (n, r) H \<Longrightarrow> SNetRefGetData ifs (nodes S n) r = Ok (Some r', g, s', es) \<Longrightarrow>
    ref_step ifs xfer S (S\<lparr>nodes := (nodes S)(n := s'), heldr := add_mset (n, r') H, wire := wire S @ ref_sends n es\<rparr>)"
| take: "heldr S = add_mset (n, r) H \<Longrightarrow> SNetRefTakeData ifs (nodes S n) r = Ok (Got d, s', es) \<Longrightarrow>
    ref_step ifs xfer S (S\<lparr>nodes := (nodes S)(n := s'), heldr := H, wire := wire S @ ref_sends n es\<rparr>)"
| wait: "heldr S = add_mset (n, r) H \<Longrightarrow> GetData ifs (nodes S n) r = Ok (Waits str, s', es) \<Longrightarrow>
    ref_step ifs xfer S (S\<lparr>nodes := (nodes S)(n := s'), heldr := H, waits := add_mset (n, r) (waits S), wire := wire S @ ref_sends n es,
      extra := (if es = [] then (extra S)(ref_key r := extra S (ref_key r) + 1) else extra S)\<rparr>)"
| destroy: "heldr S = add_mset (n, r) H \<Longrightarrow> SNetRefDestroy ifs (nodes S n) r = Ok (s', es) \<Longrightarrow>
    ref_step ifs xfer S (S\<lparr>nodes := (nodes S)(n := s'), heldr := H, wire := wire S @ ref_sends n es\<rparr>)"
| send: "heldr S = add_mset (n, r) H \<Longrightarrow> m \<noteq> n \<Longrightarrow> SNetRefOutgoing ifs (nodes S n) r = Ok (s', es) \<Longrightarrow>
    ref_step ifs xfer S (S\<lparr>nodes := (nodes S)(n := s'), heldr := H, wire := wire S @ ref_sends n es @ [(m, MRec r)]\<rparr>)"
| receive: "wire S = xs @ (n, m) # ys \<Longrightarrow> order S = In_Order \<longrightarrow> n \<notin> fst ` set xs \<Longrightarrow> ref_handle ifs xfer (nodes S n) m = Ok (s', out, r', es) \<Longrightarrow>
    woke = filter_mset (woken n m) (waits S) \<Longrightarrow> woke' = image_mset (\<lambda>(n, r). (n, r\<lparr>r_node := n, r_data := d (n, r)\<rparr>)) woke \<Longrightarrow>
    ref_step ifs xfer S (S\<lparr>nodes := (nodes S)(n := s'), heldr := heldr S + woke' + (case r' of None \<Rightarrow> {#} | Some r' \<Rightarrow> {#(n, r')#}),
      waits := filter_mset (\<lambda>x. \<not> woken n m x) (waits S), wire := xs @ ys @ out\<rparr>)"

section \<open>Accounts\<close>

fun msg_key :: "'d msg \<Rightarrow> int \<times> 'd" where
  "msg_key (MRec r) = ref_key r"
| "msg_key (MUpdate r v) = ref_key r"
| "msg_key (MFetch r n) = ref_key r"
| "msg_key (MSet r d) = ref_key r"

text \<open>What a message will change in the count of the owner.\<close>

fun delta :: "'d msg \<Rightarrow> int" where
  "delta (MUpdate r v) = v"
| "delta _ = -1"

fun to_owner :: "int \<times> 'd \<Rightarrow> int \<times> 'd msg \<Rightarrow> bool" where
  "to_owner k (n, MSet r d) \<longleftrightarrow> False"
| "to_owner k (n, m) \<longleftrightarrow> n = fst k \<and> msg_key m = k"

fun in_transit :: "int \<times> 'd \<Rightarrow> int \<times> 'd msg \<Rightarrow> bool" where
  "in_transit k (n, MRec r) \<longleftrightarrow> n \<noteq> fst k \<and> ref_key r = k"
| "in_transit k (n, m) \<longleftrightarrow> False"

text \<open>The request of a node for data and the answer to it.\<close>

fun on_flight :: "int \<Rightarrow> int \<times> 'd \<Rightarrow> int \<times> 'd msg \<Rightarrow> bool" where
  "on_flight n k (d, MFetch r x) \<longleftrightarrow> x = n \<and> ref_key r = k"
| "on_flight n k (d, MSet r v) \<longleftrightarrow> d = n \<and> ref_key r = k"
| "on_flight n k (d, m) \<longleftrightarrow> False"

definition pending :: "'d rsys \<Rightarrow> int \<times> 'd \<Rightarrow> int list" where
  "pending S k = map (delta \<circ> snd) (filter (to_owner k) (wire S))"

definition flight :: "'d rsys \<Rightarrow> int \<Rightarrow> int \<times> 'd \<Rightarrow> nat" where
  "flight S n k = length (filter (on_flight n k) (wire S))"

definition cnt :: "(int \<times> 'd snet_ref) multiset \<Rightarrow> int \<Rightarrow> int \<times> 'd \<Rightarrow> nat" where
  "cnt M n k = size (filter_mset (\<lambda>(n', r). n' = n \<and> ref_key r = k) M)"

text \<open>The references to a datum outside its node: in records on other nodes and on the way to them.\<close>

definition outside :: "int \<times> 'd \<Rightarrow> (int \<times> 'd snet_ref) multiset \<Rightarrow> nat" where
  "outside k M = size (filter_mset (\<lambda>(n, r). n \<noteq> fst k \<and> ref_key r = k) M)"

definition live :: "'d rsys \<Rightarrow> int \<times> 'd \<Rightarrow> int" where
  "live S k = int (outside k (heldr S)) + int (length (filter (in_transit k) (wire S)))"

section \<open>The invariant\<close>

definition remote_ok :: "'d snet_refcount option \<Rightarrow> nat \<Rightarrow> nat \<Rightarrow> nat \<Rightarrow> bool" where
  "remote_ok x h w f \<longleftrightarrow> (case x of None \<Rightarrow> h = 0 \<and> w = 0 \<and> f = 0
   | Some ri \<Rightarrow> rc_count ri = int (h + w) \<and> 0 < h + w \<and>
       (case rc_data ri of Some d \<Rightarrow> w = 0 \<and> f = 0
        | None \<Rightarrow> (case rc_list ri of NoList \<Rightarrow> w = 0 \<and> f = 0 | WaitList l \<Rightarrow> list_inv l \<and> lused l = w \<and> 0 < w \<and> f = 1 | FreedList \<Rightarrow> False)))"

definition total :: "'d snet_refcount option \<Rightarrow> int" where
  "total x = (case x of None \<Rightarrow> 0 | Some ri \<Rightarrow> rc_count ri)"

definition owner_ok :: "delivery \<Rightarrow> 'd \<Rightarrow> 'd snet_refcount option \<Rightarrow> int list \<Rightarrow> int \<Rightarrow> int \<Rightarrow> bool" where
  "owner_ok ord d x q v e \<longleftrightarrow> (\<forall>ri. x = Some ri \<longrightarrow> 1 \<le> rc_count ri \<and> rc_data ri = Some d) \<and>
     total x + sum_list q = v + e \<and> 0 \<le> v \<and> 0 \<le> e \<and> (ord = In_Order \<longrightarrow> (\<forall>i<length q. 1 \<le> total x + sum_list (take i q)))"

fun msg_ok :: "int \<times> 'd msg \<Rightarrow> bool" where
  "msg_ok (n, MUpdate r v) \<longleftrightarrow> n = r_node r \<and> (v = 1 \<or> v = -1)"
| "msg_ok (n, MFetch r x) \<longleftrightarrow> n = r_node r \<and> x \<noteq> n"
| "msg_ok (n, MSet r d) \<longleftrightarrow> n \<noteq> r_node r"
| "msg_ok _ \<longleftrightarrow> True"

definition remote_at :: "'d rsys \<Rightarrow> int \<Rightarrow> int \<times> 'd \<Rightarrow> bool" where
  "remote_at S n k = remote_ok (rlook (nodes S n) k) (cnt (heldr S) n k) (cnt (waits S) n k) (flight S n k)"

definition owner_at :: "'d rsys \<Rightarrow> int \<times> 'd \<Rightarrow> bool" where
  "owner_at S k = owner_ok (order S) (snd k) (llook (nodes S (fst k)) k) (pending S k) (live S k) (extra S k)"

text \<open>The maps of a node: the local one for its own data, the remote one for data of other nodes.\<close>

definition node_ok :: "int \<Rightarrow> 'd ref_state \<Rightarrow> bool" where
  "node_ok n s \<longleftrightarrow> rs_node s = n \<and> refs_ok s \<and> (\<forall>k. (n = fst k \<longrightarrow> rlook s k = None) \<and> (n \<noteq> fst k \<longrightarrow> llook s k = None))"

lemma node_ok_chg:
  "node_ok n s \<Longrightarrow> chg_remote s k x s' \<Longrightarrow> n \<noteq> fst k \<Longrightarrow> node_ok n s'"
  "node_ok n s \<Longrightarrow> chg_local s k x s' \<Longrightarrow> n = fst k \<Longrightarrow> node_ok n s'"
  unfolding node_ok_def chg_remote_def chg_local_def by (auto simp only: fun_upd_apply split: if_splits)

definition ref_inv :: "'d rsys \<Rightarrow> bool" where
  "ref_inv S \<longleftrightarrow> (\<forall>n. node_ok n (nodes S n)) \<and> list_all msg_ok (wire S) \<and>
     (\<forall>n k. n \<noteq> fst k \<longrightarrow> remote_at S n k) \<and> (\<forall>k. owner_at S k) \<and> (\<forall>(n, r)\<in>#waits S. n \<noteq> r_node r)"

text \<open>How the two parts of the invariant change.\<close>

lemma remote_changes:
  "remote_ok (Some ri) h w f \<Longrightarrow> remote_ok (Some (ri\<lparr>rc_count := rc_count ri + 1\<rparr>)) (Suc h) w f"
  "remote_ok None h w f \<Longrightarrow> remote_ok (Some \<lparr>rc_count = 1, rc_data = None, rc_list = NoList\<rparr>) (Suc h) w f"
  "remote_ok (Some ri) (Suc h) w f \<Longrightarrow> remote_ok (rc_dec ri) h w f"
  "remote_ok (Some ri) (Suc h) w f \<Longrightarrow> rc_data ri = None \<Longrightarrow> list_inv l \<Longrightarrow> lused l = waiters (rc_list ri) + 1 \<Longrightarrow>
     remote_ok (Some (ri\<lparr>rc_list := WaitList l\<rparr>)) h (Suc w) (if rc_list ri = NoList then Suc f else f)"
  "remote_ok (Some ri) h w f \<Longrightarrow> rc_list ri = WaitList l \<Longrightarrow> rc_data ri = None \<Longrightarrow>
     remote_ok (if rc_count ri > int (lused l) then Some (ri\<lparr>rc_count := rc_count ri - int (lused l), rc_list := FreedList, rc_data := Some d\<rparr>) else None) h 0 (f - 1)"
  by (auto simp: remote_ok_def rc_dec_def split: option.splits list_ptr.splits)

lemma remote_present: "remote_ok x (Suc h) w f \<Longrightarrow> \<exists>ri. x = Some ri"
  by (cases x) (auto simp: remote_ok_def)

lemma remote_list: "remote_ok (Some ri) h w f \<Longrightarrow> rc_data ri = None \<Longrightarrow> rc_list ri \<noteq> FreedList \<and> list_ok (rc_list ri)"
  by (cases "rc_list ri") (auto simp: remote_ok_def)

lemma remote_flight: "remote_ok x h w (Suc f) \<Longrightarrow> \<exists>ri l. x = Some ri \<and> rc_list ri = WaitList l \<and> rc_data ri = None \<and> list_inv l \<and> f = 0"
  by (auto simp: remote_ok_def split: option.splits list_ptr.splits)

lemma owner_changes:
  "owner_ok ord d None q v e \<Longrightarrow> owner_ok ord d (Some \<lparr>rc_count = 1, rc_data = Some d, rc_list = NoList\<rparr>) q (v + 1) e"
  "owner_ok ord d (Some ri) q v e \<Longrightarrow> owner_ok ord d (Some (ri\<lparr>rc_count := rc_count ri + 1\<rparr>)) q (v + 1) e"
  "owner_ok ord d x q v e \<Longrightarrow> 1 \<le> v \<Longrightarrow> a = 1 \<or> a = -1 \<Longrightarrow> owner_ok ord d x (q @ [a]) (v + a) e"
  "owner_ok ord d x q v e \<Longrightarrow> 1 \<le> v \<Longrightarrow> owner_ok ord d x q (v - 1) (e + 1)"
  by (auto simp: owner_ok_def total_def less_Suc_eq algebra_simps)

text \<open>
  A message arrives at the owner. In order, it is the first of those under way and its entry is there; in another order, it may
  be any of them, and the entry is there when the operation succeeds.
\<close>

lemma owner_recv_first:
  assumes "owner_ok In_Order d x (a # q) v e"
  shows "\<exists>ri. x = Some ri \<and> rc_data ri = Some d \<and> owner_ok In_Order d (if rc_count ri + a = 0 then None else Some (ri\<lparr>rc_count := rc_count ri + a\<rparr>)) q v e"
proof -
  have p: "\<forall>i<Suc (length q). 1 \<le> total x + sum_list (take i (a # q))" using assms by (simp add: owner_ok_def)
  from p have "1 \<le> total x" by (drule_tac x = 0 in spec) simp
  then obtain ri where ri: "x = Some ri" by (cases x) (auto simp: total_def)
  have q: "1 \<le> rc_count ri + a + sum_list (take i q)" if "i < length q" for i using p[rule_format, of "Suc i"] that ri by (simp add: total_def)
  have "0 \<le> rc_count ri + a"
  proof (cases q)
    case Nil
    then show ?thesis using assms ri by (auto simp: owner_ok_def total_def)
  qed (use q[of 0] in simp)
  with assms ri q show ?thesis by (auto simp: owner_ok_def total_def)
qed

lemma owner_recv:
  assumes "owner_ok ord d x (p @ a # q) v e" and "a = 1 \<or> a = -1" and "ord = In_Order \<Longrightarrow> p = []" and "ord = Any_Order \<Longrightarrow> x \<noteq> None"
  shows "\<exists>ri. x = Some ri \<and> rc_data ri = Some d \<and> owner_ok ord d (if rc_count ri + a = 0 then None else Some (ri\<lparr>rc_count := rc_count ri + a\<rparr>)) (p @ q) v e"
proof (cases ord)
  case In_Order
  with assms(1,3) owner_recv_first[of d x a q v e] show ?thesis by simp
next
  case Any_Order
  with assms(4) obtain ri where "x = Some ri" by auto
  with assms(1,2) Any_Order show ?thesis by (auto simp: owner_ok_def total_def)
qed

section \<open>Preservation\<close>

lemma cnt_simps [simp]:
  "cnt {#} n k = 0"
  "cnt (add_mset (n', r) M) n k = (if n' = n \<and> ref_key r = k then Suc (cnt M n k) else cnt M n k)"
  "cnt (M + N) n k = cnt M n k + cnt N n k"
  by (simp_all add: cnt_def)

lemma outside_simps [simp]:
  "outside k {#} = 0"
  "outside k (add_mset (n, r) M) = (if n \<noteq> r_node r \<and> ref_key r = k then Suc (outside k M) else outside k M)"
  "outside k (M + N) = outside k M + outside k N"
  by (auto simp: outside_def)

text \<open>A step changes the account of one datum at one node, and at its owner.\<close>

lemma ref_inv_frame:
  assumes "ref_inv S" and "order S' = order S"
    and "\<And>n'. node_ok n' (nodes S' n')" and "list_all msg_ok (wire S')" and "\<forall>(n, r)\<in>#waits S'. n \<noteq> r_node r"
    and "\<And>n' k'. n' \<noteq> fst k' \<Longrightarrow> (n', k') \<noteq> (n, k) \<Longrightarrow> rlook (nodes S' n') k' = rlook (nodes S n') k' \<and> cnt (heldr S') n' k' = cnt (heldr S) n' k' \<and>
        cnt (waits S') n' k' = cnt (waits S) n' k' \<and> flight S' n' k' = flight S n' k'"
    and "n \<noteq> fst k \<Longrightarrow> remote_at S' n k"
    and "\<And>k'. k' \<noteq> k \<Longrightarrow> llook (nodes S' (fst k')) k' = llook (nodes S (fst k')) k' \<and> pending S' k' = pending S k' \<and> live S' k' = live S k' \<and> extra S' k' = extra S k'"
    and "owner_at S' k"
  shows "ref_inv S'"
proof -
  have "remote_at S' n' k'" if "n' \<noteq> fst k'" for n' k'
  proof (cases "(n', k') = (n, k)")
    case False
    have "remote_at S n' k'" using assms(1) that unfolding ref_inv_def by blast
    with assms(6)[OF that False] show ?thesis by (simp add: remote_at_def)
  qed (use that assms(7) in simp)
  moreover have "owner_at S' k'" for k'
  proof (cases "k' = k")
    case False
    have "owner_at S k'" using assms(1) unfolding ref_inv_def by blast
    with assms(2) assms(8)[OF False] show ?thesis by (simp add: owner_at_def)
  qed (use assms(9) in simp)
  ultimately show ?thesis using assms(3-5) by (simp add: ref_inv_def)
qed

lemmas accounts = pending_def flight_def live_def

lemma ref_inv_at:
  assumes "ref_inv S"
  shows "rs_node (nodes S n) = n" "refs_ok (nodes S n)" "list_all msg_ok (wire S)" "\<forall>(n, r)\<in>#waits S. n \<noteq> r_node r" "n \<noteq> fst k \<Longrightarrow> remote_at S n k" "owner_at S k" "node_ok n (nodes S n)"
proof -
  show "node_ok n (nodes S n)" "list_all msg_ok (wire S)" "\<forall>(n, r)\<in>#waits S. n \<noteq> r_node r" "n \<noteq> fst k \<Longrightarrow> remote_at S n k" "owner_at S k"
    using assms unfolding ref_inv_def by blast+
  then show "rs_node (nodes S n) = n" "refs_ok (nodes S n)" by (simp_all add: node_ok_def)
qed

text \<open>Operations on a reference to the data of another node: the entry, the references held and waited for, messages to the owner.\<close>

lemma remote_frame:
  assumes inv: "ref_inv S" and n: "n \<noteq> r_node r" and chg: "chg_remote (nodes S n) (ref_key r) x s'"
    and held: "\<And>n' k'. n' \<noteq> fst k' \<Longrightarrow> (n', k') \<noteq> (n, ref_key r) \<Longrightarrow> cnt H' n' k' = cnt (heldr S) n' k'"
    and wait: "\<And>n' k'. (n', k') \<noteq> (n, ref_key r) \<Longrightarrow> cnt W' n' k' = cnt (waits S) n' k'" "\<forall>(n, r)\<in>#W'. n \<noteq> r_node r"
    and ws: "list_all (\<lambda>w. msg_ok w \<and> msg_key (snd w) = ref_key r \<and> (\<forall>n' k'. on_flight n' k' w \<longrightarrow> n' = n \<and> k' = ref_key r)) ws"
    and remote: "remote_ok x (cnt H' n (ref_key r)) (cnt W' n (ref_key r)) (flight S n (ref_key r) + length (filter (on_flight n (ref_key r)) ws))"
    and lv: "\<And>k'. k' \<noteq> ref_key r \<Longrightarrow> live (S\<lparr>heldr := H', wire := wire S @ ws\<rparr>) k' = live S k'" and ex: "\<And>k'. k' \<noteq> ref_key r \<Longrightarrow> E' k' = extra S k'"
    and owner: "owner_ok (order S) (r_data r) (llook (nodes S (r_node r)) (ref_key r)) (pending S (ref_key r) @ map (delta \<circ> snd) (filter (to_owner (ref_key r)) ws))
        (live (S\<lparr>heldr := H', wire := wire S @ ws\<rparr>) (ref_key r)) (E' (ref_key r))"
  shows "ref_inv (S\<lparr>nodes := (nodes S)(n := s'), heldr := H', waits := W', wire := wire S @ ws, extra := E'\<rparr>)"
proof (rule ref_inv_frame[OF inv, where n = n and k = "ref_key r"])
  let ?S = "S\<lparr>nodes := (nodes S)(n := s'), heldr := H', waits := W', wire := wire S @ ws, extra := E'\<rparr>"
  note c = chg[unfolded chg_remote_def]
  show "order ?S = order S" by simp
  show "node_ok n' (nodes ?S n')" for n' using node_ok_chg(1)[OF _ chg] ref_inv_at(7)[OF inv] n by auto
  show "list_all msg_ok (wire ?S)" using ws ref_inv_at(3)[OF inv] by (auto simp: list_all_iff)
  show "\<forall>(n, r)\<in>#waits ?S. n \<noteq> r_node r" using wait(2) by simp
  have f: "filter (on_flight n' k') ws = []" if "(n', k') \<noteq> (n, ref_key r)" for n' k'
    using ws that unfolding list_all_iff filter_empty_conv by blast
  have o: "filter (to_owner k') ws = []" if "k' \<noteq> ref_key r" for k'
    using ws that by (auto simp: list_all_iff filter_empty_conv elim!: to_owner.elims(2))
  show "rlook (nodes ?S n') k' = rlook (nodes S n') k' \<and> cnt (heldr ?S) n' k' = cnt (heldr S) n' k' \<and>
      cnt (waits ?S) n' k' = cnt (waits S) n' k' \<and> flight ?S n' k' = flight S n' k'" if "n' \<noteq> fst k'" "(n', k') \<noteq> (n, ref_key r)" for n' k'
    using that held wait(1) f[OF that(2)] c by (auto simp: flight_def)
  show "remote_at ?S n (ref_key r)" using remote c by (simp add: remote_at_def flight_def)
  show "llook (nodes ?S (fst k')) k' = llook (nodes S (fst k')) k' \<and> pending ?S k' = pending S k' \<and> live ?S k' = live S k' \<and> extra ?S k' = extra S k'"
    if "k' \<noteq> ref_key r" for k'
    using c o[OF that] lv[OF that] ex[OF that] by (simp add: pending_def live_def)
  show "owner_at ?S (ref_key r)" using owner n c by (simp add: owner_at_def pending_def live_def)
qed

lemma may_True: "may r P \<Longrightarrow> may r (\<lambda>_. True)"
  by (cases r) auto

lemma may_Ok: "may r P \<Longrightarrow> r = Ok x \<Longrightarrow> P x"
  by simp

lemma held_entry:
  assumes "ref_inv S" "heldr S = add_mset (n, r) H" "n \<noteq> r_node r"
  shows "\<exists>ri. rlook (nodes S n) (ref_key r) = Some ri \<and>
     remote_ok (Some ri) (Suc (cnt H n (ref_key r))) (cnt (waits S) n (ref_key r)) (flight S n (ref_key r))"
proof -
  have r: "remote_ok (rlook (nodes S n) (ref_key r)) (Suc (cnt H n (ref_key r))) (cnt (waits S) n (ref_key r)) (flight S n (ref_key r))"
    using ref_inv_at(5)[OF assms(1), of n "ref_key r"] assms(2,3) by (simp add: remote_at_def)
  with remote_present[OF r] show ?thesis by auto
qed

lemma owner_entry:
  assumes "ref_inv S"
  shows "owner_ok (order S) (r_data r) (llook (nodes S (r_node r)) (ref_key r)) (pending S (ref_key r)) (live S (ref_key r)) (extra S (ref_key r))"
  using ref_inv_at(6)[OF assms, of "ref_key r"] by (simp add: owner_at_def)

text \<open>References to the data of the own node do not matter.\<close>

lemma local_frame:
  assumes "ref_inv S" and "\<And>n' k'. n' \<noteq> fst k' \<Longrightarrow> cnt H' n' k' = cnt (heldr S) n' k'" and "\<And>k'. outside k' H' = outside k' (heldr S)"
  shows "ref_inv (S\<lparr>heldr := H'\<rparr>)"
proof -
  have "ref_inv (S\<lparr>heldr := H'\<rparr>) = ref_inv S"
    using assms(2,3) unfolding ref_inv_def remote_at_def owner_at_def by (simp add: accounts cong: conj_cong)
  with assms(1) show ?thesis by simp
qed

lemma rsys_same: "S\<lparr>nodes := (nodes S)(n := nodes S n), heldr := H', wire := wire S @ []\<rparr> = S\<lparr>heldr := H'\<rparr>"
  by simp

lemma create_inv: "ref_inv S \<Longrightarrow> ref_inv (S\<lparr>heldr := add_mset (n, SNetRefCreate (nodes S n) d i) (heldr S)\<rparr>)"
  by (rule local_frame) (use ref_inv_at(1)[of S n] in \<open>auto simp: SNetRefCreate_def\<close>)

lemma ref_sends_local: "list_all local_event es \<Longrightarrow> ref_sends n es = []"
  by (induction n es rule: ref_sends.induct) auto

text \<open>A node gives up a reference and tells the owner.\<close>

lemma release_inv:
  assumes "ref_inv S" and "heldr S = add_mset (n, r) H" and "n \<noteq> r_node r" and "rlook (nodes S n) (ref_key r) = Some ri"
    and "chg_remote (nodes S n) (ref_key r) (rc_dec ri) s'" and "G = {#} \<or> (\<exists>r'. G = {#(n, r')#} \<and> r_node r' = n)"
  shows "ref_inv (S\<lparr>nodes := (nodes S)(n := s'), heldr := G + H, wire := wire S @ [(r_node r, MUpdate r (-1))]\<rparr>)"
proof -
  let ?ws = "[(r_node r, MUpdate r (-1))]"
  have e: "remote_ok (Some ri) (Suc (cnt H n (ref_key r))) (cnt (waits S) n (ref_key r)) (flight S n (ref_key r))"
    using held_entry[OF assms(1-3)] assms(4) by auto
  have g: "cnt G n' k' = 0" if "n' \<noteq> fst k'" for n' k' using assms(6) that by auto
  have g2: "outside k' G = 0" for k' using assms(6) by auto
  have v: "live S (ref_key r) \<ge> 1" using assms(2,3) by (simp add: live_def)
  have "ref_inv (S\<lparr>nodes := (nodes S)(n := s'), heldr := G + H, waits := waits S, wire := wire S @ ?ws, extra := extra S\<rparr>)"
  proof (rule remote_frame[OF assms(1,3,5)])
    show "remote_ok (rc_dec ri) (cnt (G + H) n (ref_key r)) (cnt (waits S) n (ref_key r)) (flight S n (ref_key r) + length (filter (on_flight n (ref_key r)) ?ws))"
      using remote_changes(3)[OF e] g[of n "ref_key r"] assms(3) by simp
    show "owner_ok (order S) (r_data r) (llook (nodes S (r_node r)) (ref_key r)) (pending S (ref_key r) @ map (delta \<circ> snd) (filter (to_owner (ref_key r)) ?ws))
        (live (S\<lparr>heldr := G + H, wire := wire S @ ?ws\<rparr>) (ref_key r)) (extra S (ref_key r))"
      using owner_changes(3)[OF owner_entry[OF assms(1), of r] v, of "-1"] assms(2,3) g2 by (simp add: live_def)
  qed (use assms(2,3) g g2 ref_inv_at(4)[OF assms(1)] in \<open>auto simp: live_def\<close>)
  then show ?thesis by simp
qed

lemma copy_inv:
  assumes "ref_inv S" and "heldr S = add_mset (n, r) H" and "SNetRefCopy ifs (nodes S n) r = Ok (r', s', es)"
  shows "ref_inv (S\<lparr>nodes := (nodes S)(n := s'), heldr := add_mset (n, r') (heldr S), wire := wire S @ ref_sends n es\<rparr>)"
proof -
  note nd = ref_inv_at(1,2)[OF assms(1), of n]
  have same: ?thesis if "r_node r' = n" "s' = nodes S n" "es = []"
    using local_frame[OF assms(1), of "add_mset (n, r') (heldr S)"] that by auto
  show ?thesis
  proof (cases "n = r_node r")
    case True
    then show ?thesis using same may_Ok[OF copy_spec(1)[OF nd(2)] assms(3)] nd(1) by auto
  next
    case n: False
    obtain ri where ri: "rlook (nodes S n) (ref_key r) = Some ri"
      "remote_ok (Some ri) (Suc (cnt H n (ref_key r))) (cnt (waits S) n (ref_key r)) (flight S n (ref_key r))"
      using held_entry[OF assms(1,2) n] by blast
    have v: "live S (ref_key r) \<ge> 1" using assms(2) n by (simp add: live_def)
    consider "r' = r" "es = [UpdateRef r 1]" "chg_remote (nodes S n) (ref_key r) (Some (ri\<lparr>rc_count := rc_count ri + 1\<rparr>)) s'"
      | "r_node r' = n" "s' = nodes S n" "es = []"
      using may_Ok[OF copy_spec(2)[OF nd(2) _ ri(1)] assms(3)] nd(1) n by auto
    then show ?thesis
    proof cases
      case 1
      let ?ws = "[(r_node r, MUpdate r 1)]" and ?H = "add_mset (n, r) (heldr S)"
      have "ref_inv (S\<lparr>nodes := (nodes S)(n := s'), heldr := ?H, waits := waits S, wire := wire S @ ?ws, extra := extra S\<rparr>)"
      proof (rule remote_frame[OF assms(1) n 1(3)])
        show "remote_ok (Some (ri\<lparr>rc_count := rc_count ri + 1\<rparr>)) (cnt ?H n (ref_key r)) (cnt (waits S) n (ref_key r)) (flight S n (ref_key r) + length (filter (on_flight n (ref_key r)) ?ws))"
          using remote_changes(1)[OF ri(2)] assms(2) by simp
        show "owner_ok (order S) (r_data r) (llook (nodes S (r_node r)) (ref_key r)) (pending S (ref_key r) @ map (delta \<circ> snd) (filter (to_owner (ref_key r)) ?ws))
            (live (S\<lparr>heldr := ?H, wire := wire S @ ?ws\<rparr>) (ref_key r)) (extra S (ref_key r))"
          using owner_changes(3)[OF owner_entry[OF assms(1), of r] v, of 1] n by (simp add: live_def algebra_simps)
      qed (use n ref_inv_at(4)[OF assms(1)] in \<open>auto simp: live_def\<close>)
      with 1 show ?thesis by simp
    qed (use same in blast)
  qed
qed

text \<open>\<open>G\<close> is what the task keeps of the reference: nothing, or a reference to its own copy of the data.\<close>

lemma got_inv:
  assumes "ref_inv S" and "heldr S = add_mset (n, r) H" and "GetData ifs (nodes S n) r = Ok (Got d, s', es)" and "G = {#} \<or> (\<exists>r'. G = {#(n, r')#} \<and> r_node r' = n)"
  shows "ref_inv (S\<lparr>nodes := (nodes S)(n := s'), heldr := G + H, wire := wire S @ ref_sends n es\<rparr>)"
proof -
  note nd = ref_inv_at(1,2)[OF assms(1), of n]
  show ?thesis
  proof (cases "n = r_node r")
    case True
    then have "s' = nodes S n" "es = []" using assms(3) get_local[of "nodes S n" r ifs] nd(1) by auto
    then show ?thesis using local_frame[OF assms(1), of "G + H"] assms(2,4) True by auto
  next
    case n: False
    obtain ri where ri: "rlook (nodes S n) (ref_key r) = Some ri"
      "remote_ok (Some ri) (Suc (cnt H n (ref_key r))) (cnt (waits S) n (ref_key r)) (flight S n (ref_key r))"
      using held_entry[OF assms(1,2) n] by blast
    have "rc_data ri \<noteq> None" using may_Ok[OF get_wait_spec[OF nd(2) _ ri(1)] assms(3)] remote_list[OF ri(2)] n nd(1) by auto
    then have "es = [UpdateRef r (-1)]" "chg_remote (nodes S n) (ref_key r) (rc_dec ri) s'"
      using may_Ok[OF get_data_spec[OF nd(2) _ ri(1)] assms(3)] n nd(1) by auto
    then show ?thesis using release_inv[OF assms(1,2) n ri(1) _ assms(4)] by simp
  qed
qed

lemma wait_inv:
  assumes "ref_inv S" and "heldr S = add_mset (n, r) H" and "GetData ifs (nodes S n) r = Ok (Waits str, s', es)"
  shows "ref_inv (S\<lparr>nodes := (nodes S)(n := s'), heldr := H, waits := add_mset (n, r) (waits S), wire := wire S @ ref_sends n es,
      extra := (if es = [] then (extra S)(ref_key r := extra S (ref_key r) + 1) else extra S)\<rparr>)"
proof -
  note nd = ref_inv_at(1,2)[OF assms(1), of n]
  have n: "n \<noteq> r_node r" using assms(3) get_local[of "nodes S n" r ifs] nd(1) by auto
  obtain ri where ri: "rlook (nodes S n) (ref_key r) = Some ri"
    "remote_ok (Some ri) (Suc (cnt H n (ref_key r))) (cnt (waits S) n (ref_key r)) (flight S n (ref_key r))"
    using held_entry[OF assms(1,2) n] by blast
  have v: "live S (ref_key r) \<ge> 1" using assms(2) n by (simp add: live_def)
  have d: "rc_data ri = None" using may_Ok[OF get_data_spec[OF nd(2) _ ri(1)] assms(3)] n nd(1) by (cases "rc_data ri") auto
  from remote_list[OF ri(2) this] may_Ok[OF get_wait_spec[OF nd(2) _ ri(1) d] assms(3)] n nd(1) obtain l where
    l: "es = (if rc_list ri = NoList then [FetchRef r] else [])" "list_inv l" "lused l = waiters (rc_list ri) + 1" "chg_remote (nodes S n) (ref_key r) (Some (ri\<lparr>rc_list := WaitList l\<rparr>)) s'"
    by auto
  let ?ws = "ref_sends n es" and ?E = "if es = [] then (extra S)(ref_key r := extra S (ref_key r) + 1) else extra S"
  show ?thesis
  proof (rule remote_frame[OF assms(1) n l(4)])
    show "remote_ok (Some (ri\<lparr>rc_list := WaitList l\<rparr>)) (cnt H n (ref_key r)) (cnt (add_mset (n, r) (waits S)) n (ref_key r)) (flight S n (ref_key r) + length (filter (on_flight n (ref_key r)) ?ws))"
      using remote_changes(4)[OF ri(2) d l(2,3)] l(1) by (auto split: if_splits)
    show "owner_ok (order S) (r_data r) (llook (nodes S (r_node r)) (ref_key r)) (pending S (ref_key r) @ map (delta \<circ> snd) (filter (to_owner (ref_key r)) ?ws))
        (live (S\<lparr>heldr := H, wire := wire S @ ?ws\<rparr>) (ref_key r)) (?E (ref_key r))"
      using owner_changes(3)[OF owner_entry[OF assms(1), of r] v, of "-1"] owner_changes(4)[OF owner_entry[OF assms(1), of r] v] assms(2) n l(1)
      by (auto simp: live_def)
  qed (use assms(2) n l(1) ref_inv_at(4)[OF assms(1)] in \<open>auto simp: live_def\<close>)
qed

lemma destroy_inv:
  assumes "ref_inv S" and "heldr S = add_mset (n, r) H" and "SNetRefDestroy ifs (nodes S n) r = Ok (s', es)"
  shows "ref_inv (S\<lparr>nodes := (nodes S)(n := s'), heldr := H, wire := wire S @ ref_sends n es\<rparr>)"
proof -
  note nd = ref_inv_at(1,2)[OF assms(1), of n]
  show ?thesis
  proof (cases "n = r_node r")
    case True
    then have "s' = nodes S n" "list_all local_event es" using may_Ok[OF destroy_spec(1)[OF nd(2)] assms(3)] nd(1) by auto
    then show ?thesis using local_frame[OF assms(1), of H] assms(2) True by (auto simp: ref_sends_local)
  next
    case n: False
    obtain ri where ri: "rlook (nodes S n) (ref_key r) = Some ri" using held_entry[OF assms(1,2) n] by blast
    obtain fs where "es = UpdateRef r (-1) # fs" "list_all local_event fs" "chg_remote (nodes S n) (ref_key r) (rc_dec ri) s'"
      using may_Ok[OF destroy_spec(2)[OF nd(2) _ ri] assms(3)] nd(1) n by auto
    then show ?thesis using release_inv[OF assms(1,2) n ri, of s' "{#}"] by (simp add: ref_sends_local)
  qed
qed

text \<open>Operations at the owner of the data: its count, the references held, the messages.\<close>

lemma owner_frame:
  assumes inv: "ref_inv S" and n: "n = r_node r" and chg: "chg_local (nodes S n) (ref_key r) x s'"
    and held: "\<And>n' k'. n' \<noteq> fst k' \<Longrightarrow> cnt H' n' k' = cnt (heldr S) n' k'"
    and w: "list_all msg_ok w'" "\<And>n' k'. n' \<noteq> fst k' \<Longrightarrow> length (filter (on_flight n' k') w') = flight S n' k'"
    and other: "\<And>k'. k' \<noteq> ref_key r \<Longrightarrow> map (delta \<circ> snd) (filter (to_owner k') w') = pending S k'"
      "\<And>k'. k' \<noteq> ref_key r \<Longrightarrow> live (S\<lparr>heldr := H', wire := w'\<rparr>) k' = live S k'"
    and owner: "owner_ok (order S) (r_data r) x (map (delta \<circ> snd) (filter (to_owner (ref_key r)) w')) (live (S\<lparr>heldr := H', wire := w'\<rparr>) (ref_key r)) (extra S (ref_key r))"
  shows "ref_inv (S\<lparr>nodes := (nodes S)(n := s'), heldr := H', wire := w'\<rparr>)"
proof (rule ref_inv_frame[OF inv, where n = n and k = "ref_key r"])
  let ?S = "S\<lparr>nodes := (nodes S)(n := s'), heldr := H', wire := w'\<rparr>"
  note c = chg[unfolded chg_local_def]
  show "order ?S = order S" by simp
  show "node_ok n' (nodes ?S n')" for n' using node_ok_chg(2)[OF _ chg] ref_inv_at(7)[OF inv] n by auto
  show "list_all msg_ok (wire ?S)" using w(1) by simp
  show "\<forall>(n, r)\<in>#waits ?S. n \<noteq> r_node r" using ref_inv_at(4)[OF inv] by simp
  show "rlook (nodes ?S n') k' = rlook (nodes S n') k' \<and> cnt (heldr ?S) n' k' = cnt (heldr S) n' k' \<and>
      cnt (waits ?S) n' k' = cnt (waits S) n' k' \<and> flight ?S n' k' = flight S n' k'" if "n' \<noteq> fst k'" for n' k'
    using held[OF that] w(2)[OF that] c by (simp add: flight_def)
  show "n \<noteq> fst (ref_key r) \<Longrightarrow> remote_at ?S n (ref_key r)" using n by simp
  show "llook (nodes ?S (fst k')) k' = llook (nodes S (fst k')) k' \<and> pending ?S k' = pending S k' \<and> live ?S k' = live S k' \<and> extra ?S k' = extra S k'"
    if "k' \<noteq> ref_key r" for k'
    using c other[OF that] that by (simp add: pending_def live_def)
  show "owner_at ?S (ref_key r)" using owner n c by (simp add: owner_at_def pending_def live_def)
qed

lemma send_inv:
  assumes "ref_inv S" and "heldr S = add_mset (n, r) H" and "m \<noteq> n" and "SNetRefOutgoing ifs (nodes S n) r = Ok (s', es)"
  shows "ref_inv (S\<lparr>nodes := (nodes S)(n := s'), heldr := H, wire := wire S @ ref_sends n es @ [(m, MRec r)]\<rparr>)"
proof -
  note nd = ref_inv_at(1,2)[OF assms(1), of n]
  let ?ws = "[(m, MRec r)]"
  show ?thesis
  proof (cases "n = r_node r")
    case True
    let ?x = "Some (case llook (nodes S n) (ref_key r) of None \<Rightarrow> \<lparr>rc_count = 1, rc_data = Some (r_data r), rc_list = NoList\<rparr> | Some ri \<Rightarrow> ri\<lparr>rc_count := rc_count ri + 1\<rparr>)"
    have c: "list_all local_event es" "chg_local (nodes S n) (ref_key r) ?x s'" using may_Ok[OF outgoing_spec(1)[OF nd(2)] assms(4)] nd(1) True by auto
    have 1: "owner_ok (order S) (r_data r) ?x (pending S (ref_key r)) (live S (ref_key r) + 1) (extra S (ref_key r))"
      using owner_entry[OF assms(1), of r] True owner_changes(1,2)[of "order S" "r_data r"] by (cases "llook (nodes S n) (ref_key r)") auto
    have 2: "live (S\<lparr>heldr := H, wire := wire S @ ?ws\<rparr>) (ref_key r) = live S (ref_key r) + 1" using assms(2,3) True by (simp add: live_def)
    have 3: "map (delta \<circ> snd) (filter (to_owner (ref_key r)) (wire S @ ?ws)) = pending S (ref_key r)" using assms(3) True by (simp add: pending_def)
    have "ref_inv (S\<lparr>nodes := (nodes S)(n := s'), heldr := H, wire := wire S @ ?ws\<rparr>)"
    proof (rule owner_frame[OF assms(1) True c(2)])
      show "owner_ok (order S) (r_data r) ?x (map (delta \<circ> snd) (filter (to_owner (ref_key r)) (wire S @ ?ws))) (live (S\<lparr>heldr := H, wire := wire S @ ?ws\<rparr>) (ref_key r)) (extra S (ref_key r))"
        unfolding 2 3 by (rule 1)
    qed (use assms(2) ref_inv_at(3)[OF assms(1)] True in \<open>auto simp: accounts\<close>)
    then show ?thesis using c(1) by (simp add: ref_sends_local)
  next
    case n: False
    obtain ri where ri: "rlook (nodes S n) (ref_key r) = Some ri"
      "remote_ok (Some ri) (Suc (cnt H n (ref_key r))) (cnt (waits S) n (ref_key r)) (flight S n (ref_key r))"
      using held_entry[OF assms(1,2) n] by blast
    have v: "live S (ref_key r) \<ge> 1" using assms(2) n by (simp add: live_def)
    have c: "list_all local_event es" "chg_remote (nodes S n) (ref_key r) (rc_dec ri) s'" using may_Ok[OF outgoing_spec(2)[OF nd(2) _ ri(1)] assms(4)] nd(1) n by auto
    have "ref_inv (S\<lparr>nodes := (nodes S)(n := s'), heldr := H, waits := waits S, wire := wire S @ ?ws, extra := extra S\<rparr>)"
    proof (rule remote_frame[OF assms(1) n c(2)])
      show "remote_ok (rc_dec ri) (cnt H n (ref_key r)) (cnt (waits S) n (ref_key r)) (flight S n (ref_key r) + length (filter (on_flight n (ref_key r)) ?ws))"
        using remote_changes(3)[OF ri(2)] by simp
      show "owner_ok (order S) (r_data r) (llook (nodes S (r_node r)) (ref_key r)) (pending S (ref_key r) @ map (delta \<circ> snd) (filter (to_owner (ref_key r)) ?ws))
          (live (S\<lparr>heldr := H, wire := wire S @ ?ws\<rparr>) (ref_key r)) (extra S (ref_key r))"
        using owner_changes(3)[OF owner_entry[OF assms(1), of r] v, of "-1"] owner_entry[OF assms(1), of r] assms(2) n
        by (cases "m = r_node r") (auto simp: live_def algebra_simps)
    qed (use assms(2) n ref_inv_at(4)[OF assms(1)] in \<open>auto simp: live_def\<close>)
    then show ?thesis using c(1) by (simp add: ref_sends_local)
  qed
qed

section \<open>Receiving\<close>

text \<open>A message in the accounts of its node; it is the first one when messages arrive in order.\<close>

lemma wire_receive:
  assumes "wire S = xs @ (n, m) # ys"
  shows "pending S k = map (delta \<circ> snd) (filter (to_owner k) xs) @ (if to_owner k (n, m) then [delta m] else []) @ map (delta \<circ> snd) (filter (to_owner k) ys)"
    and "n \<notin> fst ` set xs \<Longrightarrow> to_owner k (n, m) \<Longrightarrow> filter (to_owner k) xs = []"
proof -
  have o: "to_owner k w \<Longrightarrow> fst w = fst k" for w by (cases w; cases "snd w") auto
  show "filter (to_owner k) xs = []" if "n \<notin> fst ` set xs" "to_owner k (n, m)"
    by (rule filter_False) (use that(1) o o[OF that(2)] in force)
qed (simp add: pending_def assms)

text \<open>A message that lowers or raises the count of the owner; \<open>ws\<close> is the answer, \<open>G\<close> the reference that comes home.\<close>

lemma receive_entry:
  assumes "ref_inv S" and "wire S = xs @ (n, m) # ys" and "order S = In_Order \<longrightarrow> n \<notin> fst ` set xs" and "to_owner (ref_key r) (n, m)"
    and "order S = Any_Order \<Longrightarrow> llook (nodes S n) (ref_key r) \<noteq> None"
  shows "\<exists>ri. llook (nodes S n) (ref_key r) = Some ri \<and> rc_data ri = Some (r_data r) \<and>
    owner_ok (order S) (r_data r) (if rc_count ri + delta m = 0 then None else Some (ri\<lparr>rc_count := rc_count ri + delta m\<rparr>))
      (map (delta \<circ> snd) (filter (to_owner (ref_key r)) (xs @ ys))) (live S (ref_key r)) (extra S (ref_key r))"
proof -
  let ?q = "\<lambda>ws. map (delta \<circ> snd) (filter (to_owner (ref_key r)) ws)"
  have n: "n = r_node r" using assms(4) by (cases m) auto
  have "owner_ok (order S) (r_data r) (llook (nodes S n) (ref_key r)) (?q xs @ delta m # ?q ys) (live S (ref_key r)) (extra S (ref_key r))"
    using owner_entry[OF assms(1), of r] wire_receive(1)[OF assms(2), of "ref_key r"] assms(4) n by simp
  moreover have "delta m = 1 \<or> delta m = -1" using ref_inv_at(3)[OF assms(1)] assms(2) by (cases m) auto
  moreover have "order S = In_Order \<Longrightarrow> ?q xs = []" using wire_receive(2)[OF assms(2) _ assms(4)] assms(3) by simp
  ultimately show ?thesis using owner_recv[of "order S" "r_data r" "llook (nodes S n) (ref_key r)" "?q xs" "delta m" "?q ys"] assms(5) by simp
qed

lemma receive_owner:
  assumes "ref_inv S" and "wire S = xs @ (n, m) # ys" and "to_owner (ref_key r) (n, m)"
    and "owner_ok (order S) (r_data r) x (map (delta \<circ> snd) (filter (to_owner (ref_key r)) (xs @ ys))) (live S (ref_key r)) (extra S (ref_key r))"
    and "chg_local (nodes S n) (ref_key r) x s'"
    and ws: "list_all msg_ok ws" "\<And>k. filter (to_owner k) ws = [] \<and> filter (in_transit k) ws = []"
      "\<And>n' k'. length (filter (on_flight n' k') ws) = (if on_flight n' k' (n, m) then 1 else 0)"
    and g: "\<And>n' k'. n' \<noteq> fst k' \<Longrightarrow> cnt G n' k' = 0" "\<And>k'. outside k' G = 0"
  shows "ref_inv (S\<lparr>nodes := (nodes S)(n := s'), heldr := heldr S + G, wire := xs @ ys @ ws\<rparr>)"
proof -
  have n: "n = r_node r" using assms(3) by (cases m) auto
  have tr: "\<not> in_transit k (n, m)" for k using assms(3) by (cases m) auto
  have ow: "k' = ref_key r" if "to_owner k' (n, m)" for k' using assms(3) that by (cases m) auto
  show ?thesis
  proof (rule owner_frame[OF assms(1) n assms(5)])
    have l: "live (S\<lparr>heldr := heldr S + G, wire := xs @ ys @ ws\<rparr>) k' = live S k'" for k' using ws(2) g(2) tr by (simp add: live_def assms(2))
    then show "\<And>k'. k' \<noteq> ref_key r \<Longrightarrow> live (S\<lparr>heldr := heldr S + G, wire := xs @ ys @ ws\<rparr>) k' = live S k'" by blast
    show "owner_ok (order S) (r_data r) x (map (delta \<circ> snd) (filter (to_owner (ref_key r)) (xs @ ys @ ws))) (live (S\<lparr>heldr := heldr S + G, wire := xs @ ys @ ws\<rparr>) (ref_key r)) (extra S (ref_key r))"
      using assms(4) ws(2) by (simp add: l)
    show "list_all msg_ok (xs @ ys @ ws)" using ref_inv_at(3)[OF assms(1)] ws(1) by (simp add: assms(2))
    show "length (filter (on_flight n' k') (xs @ ys @ ws)) = flight S n' k'" for n' k' using ws(3)[of n' k'] by (simp add: flight_def assms(2))
    show "map (delta \<circ> snd) (filter (to_owner k') (xs @ ys @ ws)) = pending S k'" if "k' \<noteq> ref_key r" for k'
    proof -
      have "\<not> to_owner k' (n, m)" using ow[of k'] that by blast
      then show ?thesis using ws(2)[of k'] by (simp add: pending_def assms(2))
    qed
    show "cnt (heldr S + G) n' k' = cnt (heldr S) n' k'" if "n' \<noteq> fst k'" for n' k' using g(1)[OF that] by simp
  qed
qed

lemma receive_update:
  assumes "ref_inv S" and "wire S = xs @ (n, m) # ys" and "order S = In_Order \<longrightarrow> n \<notin> fst ` set xs" and "to_owner (ref_key r) (n, m)" and "SNetRefUpdate ifs (nodes S n) r (delta m) = Ok (s', es)"
    and "list_all msg_ok ws" "\<And>k. filter (to_owner k) ws = [] \<and> filter (in_transit k) ws = []"
      "\<And>n' k'. length (filter (on_flight n' k') ws) = (if on_flight n' k' (n, m) then 1 else 0)"
  shows "ref_inv (S\<lparr>nodes := (nodes S)(n := s'), heldr := heldr S, wire := xs @ ys @ ws\<rparr>)"
proof -
  note nd = ref_inv_at(1,2)[OF assms(1), of n]
  have present: "llook (nodes S n) (ref_key r) \<noteq> None" using assms(5) entry_local(1)[OF nd(2), of r] by (cases "llook (nodes S n) (ref_key r)") (auto simp: SNetRefUpdate_def)
  obtain ri where ri: "llook (nodes S n) (ref_key r) = Some ri" "rc_data ri = Some (r_data r)"
    "owner_ok (order S) (r_data r) (if rc_count ri + delta m = 0 then None else Some (ri\<lparr>rc_count := rc_count ri + delta m\<rparr>))
      (map (delta \<circ> snd) (filter (to_owner (ref_key r)) (xs @ ys))) (live S (ref_key r)) (extra S (ref_key r))"
    using receive_entry[OF assms(1-4) present] by blast
  have "chg_local (nodes S n) (ref_key r) (if rc_count ri + delta m = 0 then None else Some (ri\<lparr>rc_count := rc_count ri + delta m\<rparr>)) s'"
    using may_Ok[OF update_spec[OF nd(2) ri(1,2)] assms(5)] by auto
  from receive_owner[OF assms(1,2,4) ri(3) this assms(6-8), of "{#}"] show ?thesis by simp
qed

lemma receive_home:
  assumes "ref_inv S" and "wire S = xs @ (n, MRec r) # ys" and "order S = In_Order \<longrightarrow> n \<notin> fst ` set xs" and "n = r_node r" and "SNetRefIncoming ifs (nodes S n) r = Ok (r', s')"
  shows "ref_inv (S\<lparr>nodes := (nodes S)(n := s'), heldr := heldr S + {#(n, r')#}, wire := xs @ ys @ []\<rparr>)"
proof -
  note nd = ref_inv_at(1,2)[OF assms(1), of n]
  have o: "to_owner (ref_key r) (n, MRec r)" using assms(4) by simp
  have present: "llook (nodes S n) (ref_key r) \<noteq> None" using assms(4,5) nd(1) entry_local(1)[OF nd(2), of r] by (cases "llook (nodes S n) (ref_key r)") (auto simp: SNetRefIncoming_def)
  obtain ri where ri: "llook (nodes S n) (ref_key r) = Some ri"
    "owner_ok (order S) (r_data r) (if rc_count ri + delta (MRec r) = 0 then None else Some (ri\<lparr>rc_count := rc_count ri + delta (MRec r)\<rparr>))
      (map (delta \<circ> snd) (filter (to_owner (ref_key r)) (xs @ ys))) (live S (ref_key r)) (extra S (ref_key r))"
    using receive_entry[OF assms(1-3) o present] by blast
  have c: "r_node r' = n" "chg_local (nodes S n) (ref_key r) (rc_dec ri) s'"
    using may_Ok[OF incoming_spec(1)[OF nd(2) _ ri(1)] assms(5)] nd(1) assms(4) by auto
  have "rc_dec ri = (if rc_count ri + delta (MRec r) = 0 then None else Some (ri\<lparr>rc_count := rc_count ri + delta (MRec r)\<rparr>))" by (simp add: rc_dec_def)
  with c(2) have "chg_local (nodes S n) (ref_key r) (if rc_count ri + delta (MRec r) = 0 then None else Some (ri\<lparr>rc_count := rc_count ri + delta (MRec r)\<rparr>)) s'" by simp
  from receive_owner[OF assms(1,2) o ri(2) this, of "[]" "{#(n, r')#}"] c(1) show ?thesis by auto
qed

text \<open>A message that concerns a node and data of another one.\<close>

lemma receive_frame:
  assumes inv: "ref_inv S" and n: "n \<noteq> r_node r" and chg: "chg_remote (nodes S n) (ref_key r) x s'"
    and held: "\<And>n' k'. n' \<noteq> fst k' \<Longrightarrow> (n', k') \<noteq> (n, ref_key r) \<Longrightarrow> cnt H' n' k' = cnt (heldr S) n' k'"
    and wait: "\<And>n' k'. (n', k') \<noteq> (n, ref_key r) \<Longrightarrow> cnt W' n' k' = cnt (waits S) n' k'" "\<forall>(n, r)\<in>#W'. n \<noteq> r_node r"
    and w: "list_all msg_ok w'" "\<And>k'. map (delta \<circ> snd) (filter (to_owner k') w') = pending S k'"
      "\<And>n' k'. (n', k') \<noteq> (n, ref_key r) \<Longrightarrow> length (filter (on_flight n' k') w') = flight S n' k'"
    and lv: "\<And>k'. live (S\<lparr>heldr := H', wire := w'\<rparr>) k' = live S k'"
    and remote: "remote_ok x (cnt H' n (ref_key r)) (cnt W' n (ref_key r)) (length (filter (on_flight n (ref_key r)) w'))"
  shows "ref_inv (S\<lparr>nodes := (nodes S)(n := s'), heldr := H', waits := W', wire := w'\<rparr>)"
proof (rule ref_inv_frame[OF inv, where n = n and k = "ref_key r"])
  let ?S = "S\<lparr>nodes := (nodes S)(n := s'), heldr := H', waits := W', wire := w'\<rparr>"
  note c = chg[unfolded chg_remote_def]
  show "order ?S = order S" by simp
  show "node_ok n' (nodes ?S n')" for n' using node_ok_chg(1)[OF _ chg] ref_inv_at(7)[OF inv] n by auto
  show "list_all msg_ok (wire ?S)" using w(1) by simp
  show "\<forall>(n, r)\<in>#waits ?S. n \<noteq> r_node r" using wait(2) by simp
  show "rlook (nodes ?S n') k' = rlook (nodes S n') k' \<and> cnt (heldr ?S) n' k' = cnt (heldr S) n' k' \<and>
      cnt (waits ?S) n' k' = cnt (waits S) n' k' \<and> flight ?S n' k' = flight S n' k'" if "n' \<noteq> fst k'" "(n', k') \<noteq> (n, ref_key r)" for n' k'
    using that held[OF that] wait(1)[OF that(2)] w(3)[OF that(2)] c by (auto simp: flight_def)
  show "remote_at ?S n (ref_key r)" using remote c by (simp add: remote_at_def flight_def)
  have o: "llook (nodes ?S (fst k')) k' = llook (nodes S (fst k')) k' \<and> pending ?S k' = pending S k' \<and> live ?S k' = live S k' \<and> extra ?S k' = extra S k'" for k'
    using c w(2)[of k'] lv[of k'] by (simp add: pending_def live_def)
  then show "\<And>k'. k' \<noteq> ref_key r \<Longrightarrow> llook (nodes ?S (fst k')) k' = llook (nodes S (fst k')) k' \<and> pending ?S k' = pending S k' \<and> live ?S k' = live S k' \<and> extra ?S k' = extra S k'" by blast
  show "owner_at ?S (ref_key r)" using ref_inv_at(6)[OF inv, of "ref_key r"] o[of "ref_key r"] by (simp add: owner_at_def)
qed

lemma receive_ref:
  assumes "ref_inv S" and "wire S = xs @ (n, MRec r) # ys" and "n \<noteq> r_node r" and "SNetRefIncoming ifs (nodes S n) r = Ok (r', s')"
  shows "ref_inv (S\<lparr>nodes := (nodes S)(n := s'), heldr := heldr S + {#(n, r')#}, waits := waits S, wire := xs @ ys @ []\<rparr>)"
proof -
  note nd = ref_inv_at(1,2)[OF assms(1), of n]
  let ?x = "Some (case rlook (nodes S n) (ref_key r) of None \<Rightarrow> \<lparr>rc_count = 1, rc_data = None, rc_list = NoList\<rparr> | Some ri \<Rightarrow> ri\<lparr>rc_count := rc_count ri + 1\<rparr>)"
  have c: "r' = r" "chg_remote (nodes S n) (ref_key r) ?x s'" using may_Ok[OF incoming_spec(2)[OF nd(2)] assms(4)] nd(1) assms(3) by auto
  have r: "remote_ok (rlook (nodes S n) (ref_key r)) (cnt (heldr S) n (ref_key r)) (cnt (waits S) n (ref_key r)) (flight S n (ref_key r))"
    using ref_inv_at(5)[OF assms(1), of n "ref_key r"] assms(3) by (simp add: remote_at_def)
  then have "remote_ok ?x (Suc (cnt (heldr S) n (ref_key r))) (cnt (waits S) n (ref_key r)) (flight S n (ref_key r))"
    using remote_changes(1,2) by (cases "rlook (nodes S n) (ref_key r)") auto
  then show ?thesis
    by (intro receive_frame[OF assms(1,3) c(2)]) (use assms(2,3) c(1) ref_inv_at(3,4)[OF assms(1)] in \<open>auto simp: accounts\<close>)
qed

lemma cnt_woken:
  "cnt (filter_mset (\<lambda>x. \<not> woken n (MSet r d) x) W) n' k' = (if n' = n \<and> k' = ref_key r then 0 else cnt W n' k')"
proof -
  have "(\<lambda>x. (case x of (n'', r'') \<Rightarrow> n'' = n' \<and> ref_key r'' = k') \<and> \<not> woken n (MSet r d) x) = (if n' = n \<and> k' = ref_key r then (\<lambda>x. False) else (\<lambda>(n'', r''). n'' = n' \<and> ref_key r'' = k'))"
    by (auto simp: fun_eq_iff)
  then show ?thesis by (simp add: cnt_def filter_filter_mset conj_commute cong: if_cong)
qed

lemma receive_set:
  assumes "ref_inv S" and "wire S = xs @ (n, MSet r d) # ys" and "SNetRefSet ifs (nodes S n) r d = Ok (s', es)"
    and "\<And>n' k'. n' \<noteq> fst k' \<Longrightarrow> cnt G n' k' = 0" "\<And>k'. outside k' G = 0"
  shows "ref_inv (S\<lparr>nodes := (nodes S)(n := s'), heldr := heldr S + G, waits := filter_mset (\<lambda>x. \<not> woken n (MSet r d) x) (waits S), wire := xs @ ys @ []\<rparr>)"
proof -
  note nd = ref_inv_at(1,2)[OF assms(1), of n]
  have n: "n \<noteq> r_node r" using ref_inv_at(3)[OF assms(1)] assms(2) by simp
  let ?f = "length (filter (on_flight n (ref_key r)) (xs @ ys))"
  have r: "remote_ok (rlook (nodes S n) (ref_key r)) (cnt (heldr S) n (ref_key r)) (cnt (waits S) n (ref_key r)) (Suc ?f)"
    using ref_inv_at(5)[OF assms(1), of n "ref_key r"] n by (simp add: remote_at_def flight_def assms(2))
  obtain ri l where ri: "rlook (nodes S n) (ref_key r) = Some ri" "rc_list ri = WaitList l" "rc_data ri = None" "list_inv l"
    using remote_flight[OF r] by auto
  let ?x = "if rc_count ri > int (lused l) then Some (ri\<lparr>rc_count := rc_count ri - int (lused l), rc_list := FreedList, rc_data := Some d\<rparr>) else None"
  have c: "chg_remote (nodes S n) (ref_key r) ?x s'" using may_Ok[OF set_spec[OF nd(2) ri(1,2,4)] assms(3)] by auto
  have "remote_ok ?x (cnt (heldr S) n (ref_key r)) 0 ?f" using remote_changes(5)[OF r[unfolded ri(1)] ri(2,3), of d] by simp
  then show ?thesis
    by (intro receive_frame[OF assms(1) n c])
      (use assms(2,4,5) n ref_inv_at(3,4)[OF assms(1)] in \<open>auto simp: accounts cnt_woken\<close>)
qed

lemma woken_none: "(\<And>r d. m \<noteq> MSet r d) \<Longrightarrow> filter_mset (\<lambda>x. \<not> woken n m x) W = W \<and> filter_mset (woken n m) W = {#}"
  by (cases m) auto

lemma woken_refs:
  assumes "woke' = image_mset (\<lambda>(n, r). (n, r\<lparr>r_node := n, r_data := d (n, r)\<rparr>)) W"
  shows "n' \<noteq> fst k' \<Longrightarrow> cnt woke' n' k' = 0" and "outside k' woke' = 0"
  unfolding assms by (induction W; auto)+

lemma receive_inv:
  assumes "ref_inv S" and "wire S = xs @ (n, m) # ys" and "order S = In_Order \<longrightarrow> n \<notin> fst ` set xs" and "ref_handle ifs xfer (nodes S n) m = Ok (s', out, r', es)"
    and "woke' = image_mset (\<lambda>(n, r). (n, r\<lparr>r_node := n, r_data := d (n, r)\<rparr>)) (filter_mset (woken n m) (waits S))"
  shows "ref_inv (S\<lparr>nodes := (nodes S)(n := s'), heldr := heldr S + woke' + (case r' of None \<Rightarrow> {#} | Some r' \<Rightarrow> {#(n, r')#}),
      waits := filter_mset (\<lambda>x. \<not> woken n m x) (waits S), wire := xs @ ys @ out\<rparr>)"
proof (cases m)
  case (MRec r)
  then have "SNetRefIncoming ifs (nodes S n) r = Ok (the r', s')" "out = []" "r' = Some (the r')" using assms(4) by auto
  moreover have "ref_inv (S\<lparr>nodes := (nodes S)(n := s'), heldr := heldr S + {#(n, the r')#}, wire := xs @ ys @ []\<rparr>)"
    using receive_home[OF assms(1,2)[unfolded MRec] assms(3), of ifs "the r'" s'] receive_ref[OF assms(1,2)[unfolded MRec], of ifs "the r'" s'] calculation(1)
    by (cases "n = r_node r") auto
  ultimately show ?thesis using assms(5) MRec by (auto simp: woken_none split: option.splits)
next
  case (MUpdate r v)
  have o: "to_owner (ref_key r) (n, m)" using ref_inv_at(3)[OF assms(1)] assms(2) MUpdate by auto
  have u: "SNetRefUpdate ifs (nodes S n) r (delta m) = Ok (s', es)" "out = []" "r' = None" using assms(4) MUpdate by auto
  have "ref_inv (S\<lparr>nodes := (nodes S)(n := s'), heldr := heldr S, wire := xs @ ys @ []\<rparr>)"
    by (rule receive_update[OF assms(1-3) o u(1)]) (simp_all add: MUpdate)
  with u(2,3) assms(5) MUpdate show ?thesis by (simp add: woken_none)
next
  case (MFetch r x)
  have o: "to_owner (ref_key r) (n, m)" "n = r_node r" "x \<noteq> n" using ref_inv_at(3)[OF assms(1)] assms(2) MFetch by auto
  have "ref_with (nodes S n) r (r_data r) = r" using o(2) ref_inv_at(1)[OF assms(1)] by (simp add: ref_with_def)
  then have u: "SNetRefUpdate ifs (nodes S n) r (delta m) = Ok (s', es)" "out = [(x, MSet r (xfer (r_data r)))]" "r' = None"
    using assms(4) MFetch o(2) ref_inv_at(1)[OF assms(1), of n] get_local[of "nodes S n" r ifs] by (auto simp: SNetRefGetData_def)
  have "ref_inv (S\<lparr>nodes := (nodes S)(n := s'), heldr := heldr S, wire := xs @ ys @ out\<rparr>)"
    by (rule receive_update[OF assms(1-3) o(1) u(1)]) (use o in \<open>auto simp: MFetch u(2)\<close>)
  with u(2,3) assms(5) MFetch show ?thesis by (simp add: woken_none)
next
  case (MSet r v)
  then have u: "SNetRefSet ifs (nodes S n) r v = Ok (s', es)" "out = []" "r' = None" using assms(4) by auto
  from receive_set[OF assms(1,2)[unfolded MSet] u(1), of woke'] woken_refs[OF assms(5)] u(2,3) MSet show ?thesis by simp
qed

lemma GetData_node: "GetData ifs s r = Ok (g, s', es) \<Longrightarrow> rs_node s' = rs_node s"
  by (auto simp: GetData_def put_remote_def take_remote_def Let_def split: if_splits option.splits list_ptr.splits)

lemma ref_step_inv:
  assumes "ref_step ifs xfer S S'" and "ref_inv S"
  shows "ref_inv S'"
  using assms(1)
proof cases
  case (get n r H r' g s' es)
  then obtain d where d: "GetData ifs (nodes S n) r = Ok (Got d, s', es)" "r' = ref_with s' r d" by (auto simp: SNetRefGetData_def split: got.splits)
  have "r_node r' = n" using GetData_node[OF d(1)] ref_inv_at(1)[OF assms(2)] d(2) by (simp add: ref_with_def)
  then show ?thesis using got_inv[OF assms(2) get(2) d(1), of "{#(n, r')#}"] get(1) by simp
next
  case (take n r H d s' es)
  then show ?thesis using got_inv[OF assms(2) take(2), of ifs d s' es "{#}"] by (simp add: SNetRefTakeData_def)
next
  case (copy n r H r' s' es)
  show ?thesis unfolding copy(1) by (rule copy_inv[OF assms(2) copy(2,3)])
next
  case (wait n r H str s' es)
  show ?thesis unfolding wait(1) by (rule wait_inv[OF assms(2) wait(2,3)])
next
  case (destroy n r H s' es)
  show ?thesis unfolding destroy(1) by (rule destroy_inv[OF assms(2) destroy(2,3)])
next
  case (send n r H m s' es)
  show ?thesis unfolding send(1) by (rule send_inv[OF assms(2) send(2,3,4)])
next
  case (receive xs n m ys s' out r' es woke woke' d)
  show ?thesis unfolding receive(1) by (rule receive_inv[OF assms(2) receive(2,3,4)]) (use receive(5,6) in simp)
qed (simp add: create_inv[OF assms(2)])

section \<open>Runs\<close>

definition ref_init :: "delivery \<Rightarrow> 'd rsys" where
  "ref_init ord = \<lparr>order = ord, nodes = (\<lambda>n. the_res (SNetReferenceInit n)), wire = [], heldr = {#}, waits = {#}, extra = (\<lambda>_. 0)\<rparr>"

lemma ref_init_inv: "ref_inv (ref_init ord)"
  by (auto simp: ref_inv_def ref_init_def SNetReferenceInit_def MapCreate_Ok node_ok_def refs_ok_def remote_at_def owner_at_def remote_ok_def owner_ok_def
      rlook_def llook_def accounts total_def)

lemma ref_step_order: "ref_step ifs xfer S S' \<Longrightarrow> order S' = order S"
  by (induction rule: ref_step.induct) simp_all

lemma ref_reach_order: "(ref_step ifs xfer)\<^sup>*\<^sup>* S S' \<Longrightarrow> order S' = order S"
  by (induction rule: rtranclp_induct) (auto dest: ref_step_order)

lemma ref_reach_inv: "(ref_step ifs xfer)\<^sup>*\<^sup>* (ref_init ord) S \<Longrightarrow> ref_inv S"
  by (induction rule: rtranclp_induct) (auto intro: ref_init_inv ref_step_inv)

text \<open>Commands that determine a step, to compute runs.\<close>

datatype 'd ref_cmd =
    CCreate int 'd int
  | CCopy int "'d snet_ref"
  | CWait int "'d snet_ref"
  | CSend int "'d snet_ref" int
  | CDestroy int "'d snet_ref"
  | CReceive int
  | COvertake nat

definition ref_take :: "'d snet_interface list \<Rightarrow> ('d \<Rightarrow> 'd) \<Rightarrow> 'd rsys \<Rightarrow> (int \<times> 'd msg) list \<Rightarrow> int \<Rightarrow> 'd msg \<Rightarrow> (int \<times> 'd msg) list \<Rightarrow> 'd rsys res" where
  "ref_take ifs xfer S xs n m ys = bindR (ref_handle ifs xfer (nodes S n) m) (\<lambda>(s', out, r', es).
     Ok (S\<lparr>nodes := (nodes S)(n := s'),
       heldr := heldr S + image_mset (\<lambda>(n, r). (n, r\<lparr>r_node := n, r_data := r_data r\<rparr>)) (filter_mset (woken n m) (waits S)) +
         (case r' of None \<Rightarrow> {#} | Some r' \<Rightarrow> {#(n, r')#}),
       waits := filter_mset (\<lambda>x. \<not> woken n m x) (waits S), wire := xs @ ys @ out\<rparr>))"

fun ref_do :: "'d snet_interface list \<Rightarrow> ('d \<Rightarrow> 'd) \<Rightarrow> 'd rsys \<Rightarrow> 'd ref_cmd \<Rightarrow> 'd rsys res" where
  "ref_do ifs xfer S (CCreate n d i) = Ok (S\<lparr>heldr := add_mset (n, SNetRefCreate (nodes S n) d i) (heldr S)\<rparr>)"
| "ref_do ifs xfer S (CCopy n r) = bindR (assertR ((n, r) \<in># heldr S)) (\<lambda>_. bindR (SNetRefCopy ifs (nodes S n) r) (\<lambda>(r', s', es).
     Ok (S\<lparr>nodes := (nodes S)(n := s'), heldr := add_mset (n, r') (heldr S), wire := wire S @ ref_sends n es\<rparr>)))"
| "ref_do ifs xfer S (CWait n r) = bindR (assertR ((n, r) \<in># heldr S)) (\<lambda>_. bindR (GetData ifs (nodes S n) r) (\<lambda>(g, s', es).
     bindR (assertR (g = Waits (rs_streams (nodes S n)))) (\<lambda>_.
     Ok (S\<lparr>nodes := (nodes S)(n := s'), heldr := heldr S - {#(n, r)#}, waits := add_mset (n, r) (waits S), wire := wire S @ ref_sends n es,
       extra := (if es = [] then (extra S)(ref_key r := extra S (ref_key r) + 1) else extra S)\<rparr>))))"
| "ref_do ifs xfer S (CSend n r m) = bindR (assertR ((n, r) \<in># heldr S \<and> m \<noteq> n)) (\<lambda>_. bindR (SNetRefOutgoing ifs (nodes S n) r) (\<lambda>(s', es).
     Ok (S\<lparr>nodes := (nodes S)(n := s'), heldr := heldr S - {#(n, r)#}, wire := wire S @ ref_sends n es @ [(m, MRec r)]\<rparr>)))"
| "ref_do ifs xfer S (CDestroy n r) = bindR (assertR ((n, r) \<in># heldr S)) (\<lambda>_. bindR (SNetRefDestroy ifs (nodes S n) r) (\<lambda>(s', es).
     Ok (S\<lparr>nodes := (nodes S)(n := s'), heldr := heldr S - {#(n, r)#}, wire := wire S @ ref_sends n es\<rparr>)))"
| "ref_do ifs xfer S (CReceive n) = (case dropWhile (\<lambda>w. fst w \<noteq> n) (wire S) of
     [] \<Rightarrow> Err NoProgress
   | (_, m) # ys \<Rightarrow> ref_take ifs xfer S (takeWhile (\<lambda>w. fst w \<noteq> n) (wire S)) n m ys)"
| "ref_do ifs xfer S (COvertake i) = bindR (assertR (order S = Any_Order)) (\<lambda>_. case drop i (wire S) of
     [] \<Rightarrow> Err NoProgress
   | (n, m) # ys \<Rightarrow> ref_take ifs xfer S (take i (wire S)) n m ys)"

lemma ref_take_step:
  assumes "ref_take ifs xfer S xs n m ys = Ok S'" and "wire S = xs @ (n, m) # ys" and "order S = In_Order \<longrightarrow> n \<notin> fst ` set xs"
  shows "ref_step ifs xfer S S'"
proof -
  obtain s' out r' es where h: "ref_handle ifs xfer (nodes S n) m = Ok (s', out, r', es)" using assms(1) by (auto simp: ref_take_def)
  from ref_step.receive[OF assms(2,3) h refl refl, of "\<lambda>(n, r). r_data r"] assms(1) h show ?thesis by (simp add: ref_take_def)
qed

lemma ref_do_step:
  assumes "ref_do ifs xfer S c = Ok S'"
  shows "ref_step ifs xfer S S'"
proof (cases c)
  case (CReceive n)
  then obtain n' m ys where w: "dropWhile (\<lambda>w. fst w \<noteq> n) (wire S) = (n', m) # ys" using assms by (auto split: list.splits)
  have n': "n' = n" using hd_dropWhile[of "\<lambda>w. fst w \<noteq> n" "wire S"] w by auto
  have "wire S = takeWhile (\<lambda>w. fst w \<noteq> n) (wire S) @ (n, m) # ys" using takeWhile_dropWhile_id[of "\<lambda>w. fst w \<noteq> n" "wire S"] w n' by simp
  moreover have "n \<notin> fst ` set (takeWhile (\<lambda>w. fst w \<noteq> n) (wire S))" by (auto dest: set_takeWhileD)
  ultimately show ?thesis using ref_take_step[of ifs xfer S] assms CReceive w by simp
next
  case (COvertake i)
  then obtain n m ys where w: "drop i (wire S) = (n, m) # ys" and t: "order S = Any_Order" "ref_take ifs xfer S (take i (wire S)) n m ys = Ok S'"
    using assms by (auto simp: assertR_def split: list.splits if_splits)
  have "wire S = take i (wire S) @ (n, m) # ys" using append_take_drop_id[of i "wire S"] w by simp
  then show ?thesis using ref_take_step[OF t(2)] t(1) by simp
next
  case (CWait n r)
  obtain s' es where g: "(n, r) \<in># heldr S" "GetData ifs (nodes S n) r = Ok (Waits (rs_streams (nodes S n)), s', es)"
    using assms CWait by (auto simp: assertR_def split: if_splits)
  from ref_step.wait[OF insert_DiffM[OF g(1), symmetric] g(2)] assms CWait g show ?thesis by (simp add: assertR_def)
qed (use assms in \<open>auto simp: assertR_def split: if_splits intro: ref_step.intros insert_DiffM[symmetric]\<close>)

lemma ref_do_reach: "foldR (ref_do ifs xfer) S cs = Ok S' \<Longrightarrow> (ref_step ifs xfer)\<^sup>*\<^sup>* S S'"
  by (induction cs arbitrary: S) (auto intro: converse_rtranclp_into_rtranclp ref_do_step)

text \<open>A datum of node 0 goes to node 1, where two tasks wait for it at the same time.\<close>

definition leak_ref :: "nat snet_ref" where
  "leak_ref = \<lparr>r_node = 0, r_interface = 0, r_data = 7\<rparr>"

definition leak_ifs :: "nat snet_interface list" where
  "leak_ifs = [\<lparr>iface_id = 0, copyfun = (\<lambda>d. d)\<rparr>]"

definition share_run :: "nat rsys res" where
  "share_run = foldR (ref_do leak_ifs (\<lambda>d. d)) (ref_init In_Order) [CCreate 0 7 0, CSend 0 leak_ref 1, CReceive 1, CCopy 1 leak_ref, CWait 1 leak_ref]"

definition leak_run :: "nat rsys res" where
  "leak_run = bindR share_run (\<lambda>S. foldR (ref_do leak_ifs (\<lambda>d. d)) S [CWait 1 leak_ref, CReceive 0, CReceive 0, CReceive 1])"

lemma share_run_ok: "case share_run of Ok S \<Rightarrow> MapSize (localRefMap (nodes S 0)) = 1 \<and> size (heldr S) = 1 \<and> length (wire S) = 2 | Err e \<Rightarrow> False"
  by code_simp

lemma leak_run_ok: "case leak_run of Ok S \<Rightarrow> wire S = [] \<and> waits S = {#} \<and> list_all (\<lambda>d. outside (0, d) (heldr S) = 0) [0..<10] \<and>
    SNetReferenceDestroy (nodes S 0) = Err AssertFail | Err e \<Rightarrow> False"
  by code_simp

lemma leak_run_held: "case leak_run of Ok S \<Rightarrow> (\<forall>x\<in>#heldr S. fst x = r_node (snd x)) | Err e \<Rightarrow> False"
  by code_simp

text \<open>
  When two tasks of a node wait for the same datum, the owner counts one reference down and the waiting node two: after
  the run nothing refers to the datum any more, but the owner keeps it and the assertion at its shutdown fails.
\<close>

lemma ref_two_waiters_leak:
  "\<exists>S. (ref_step leak_ifs (\<lambda>d. d))\<^sup>*\<^sup>* (ref_init In_Order) S \<and> wire S = [] \<and> waits S = {#} \<and> (\<forall>x\<in>#heldr S. fst x = r_node (snd x)) \<and>
     SNetReferenceDestroy (nodes S 0) = Err AssertFail"
proof -
  obtain S where S: "leak_run = Ok S" using leak_run_ok by (auto split: res.splits)
  then obtain T where T: "share_run = Ok T" "foldR (ref_do leak_ifs (\<lambda>d. d)) T [CWait 1 leak_ref, CReceive 0, CReceive 0, CReceive 1] = Ok S"
    unfolding leak_run_def by (cases share_run) auto
  have "(ref_step leak_ifs (\<lambda>d. d))\<^sup>*\<^sup>* (ref_init In_Order) S"
    using ref_do_reach[OF T(1)[unfolded share_run_def]] ref_do_reach[OF T(2)] by (rule rtranclp_trans)
  moreover have "wire S = [] \<and> waits S = {#} \<and> (\<forall>x\<in>#heldr S. fst x = r_node (snd x)) \<and> SNetReferenceDestroy (nodes S 0) = Err AssertFail"
    using leak_run_ok leak_run_held unfolding S by simp
  ultimately show ?thesis by blast
qed

lemma share_run_reach: "\<exists>S. share_run = Ok S \<and> (ref_step leak_ifs (\<lambda>d. d))\<^sup>*\<^sup>* (ref_init In_Order) S"
proof -
  obtain S where S: "share_run = Ok S" using share_run_ok by (auto split: res.splits)
  with ref_do_reach[of leak_ifs "\<lambda>d. d" "ref_init In_Order"] show ?thesis unfolding share_run_def by blast
qed

text \<open>
  Overtaking. Node 0 sends a datum to node 1, which copies the reference (one more, it tells the owner) and sends the copy on
  to node 2, which destroys it (one less, it tells the owner). The two messages to the owner have different senders, so
  MPI may deliver the second one first. The owner then frees the datum while node 1 holds a reference to it, and the first
  message fails the assertion that the entry is there.
\<close>

definition overtake_run :: "nat rsys res" where
  "overtake_run = foldR (ref_do leak_ifs (\<lambda>d. d)) (ref_init Any_Order)
     [CCreate 0 7 0, CSend 0 leak_ref 1, CReceive 1, CCopy 1 leak_ref, CSend 1 leak_ref 2, CReceive 2, CDestroy 2 leak_ref, COvertake 1]"

lemma overtake_run_ok: "case overtake_run of Ok S \<Rightarrow> (1, leak_ref) \<in># heldr S \<and> llook (nodes S 0) (0, 7) = None \<and> wire S = [(0, MUpdate leak_ref 1)] \<and>
    ref_handle leak_ifs (\<lambda>d. d) (nodes S 0) (MUpdate leak_ref 1) = Err AssertFail | Err e \<Rightarrow> False"
  by code_simp

lemma ref_overtaking:
  "\<exists>S. (ref_step leak_ifs (\<lambda>d. d))\<^sup>*\<^sup>* (ref_init Any_Order) S \<and> (1, leak_ref) \<in># heldr S \<and> llook (nodes S 0) (0, 7) = None \<and>
     wire S = [(0, MUpdate leak_ref 1)] \<and> ref_handle leak_ifs (\<lambda>d. d) (nodes S 0) (MUpdate leak_ref 1) = Err AssertFail"
proof -
  obtain S where S: "overtake_run = Ok S" using overtake_run_ok by (auto split: res.splits)
  then have "(ref_step leak_ifs (\<lambda>d. d))\<^sup>*\<^sup>* (ref_init Any_Order) S" unfolding overtake_run_def by (rule ref_do_reach)
  then show ?thesis using overtake_run_ok unfolding S by auto
qed

text \<open>A run in which one task waits: the datum comes home to nothing.\<close>

definition sent_run :: "nat rsys res" where
  "sent_run = foldR (ref_do leak_ifs (\<lambda>d. d)) (ref_init In_Order) [CCreate 0 7 0, CSend 0 leak_ref 1, CReceive 1]"

definition fetch_run :: "nat rsys res" where
  "fetch_run = bindR sent_run (\<lambda>S. foldR (ref_do leak_ifs (\<lambda>d. d)) S [CWait 1 leak_ref, CReceive 0, CReceive 1])"

lemma fetch_run_ok: "case fetch_run of Ok S \<Rightarrow> wire S = [] \<and> waits S = {#} \<and> heldr S \<noteq> {#} \<and> (\<forall>x\<in>#heldr S. fst x = r_node (snd x)) | Err e \<Rightarrow> False"
  by code_simp

lemma sent_run_fetches: "case sent_run of Ok S \<Rightarrow> (case GetData leak_ifs (nodes S 1) leak_ref of Ok (g, s', es) \<Rightarrow> es \<noteq> [] | Err e \<Rightarrow> False) | Err e \<Rightarrow> False"
  by code_simp

lemma ref_do_extra:
  assumes "ref_do ifs xfer S c = Ok S'" and "\<And>n r g s' es. c = CWait n r \<Longrightarrow> GetData ifs (nodes S n) r = Ok (g, s', es) \<Longrightarrow> es \<noteq> []"
  shows "extra S' = extra S"
proof (cases c)
  case (CWait n r)
  then obtain g s' es where "GetData ifs (nodes S n) r = Ok (g, s', es)" using assms(1) by (auto split: if_splits)
  with assms(2)[OF CWait this] assms(1) CWait show ?thesis by (auto split: if_splits)
qed (use assms(1) in \<open>auto simp: ref_take_def split: list.splits if_splits\<close>)

lemma ref_run_extra:
  assumes "foldR (ref_do ifs xfer) S cs = Ok S'" and "\<forall>c\<in>set cs. \<forall>n r. c \<noteq> CWait n r"
  shows "extra S' = extra S"
  using assms by (induction cs arbitrary: S) (auto, metis ref_do_extra)

lemma fetch_run_extra:
  assumes "fetch_run = Ok S"
  shows "extra S = (\<lambda>_. 0)" and "(ref_step leak_ifs (\<lambda>d. d))\<^sup>*\<^sup>* (ref_init In_Order) S"
proof -
  obtain A B where A: "sent_run = Ok A" and B: "ref_do leak_ifs (\<lambda>d. d) A (CWait 1 leak_ref) = Ok B"
    and C: "foldR (ref_do leak_ifs (\<lambda>d. d)) B [CReceive 0, CReceive 1] = Ok S"
    using assms unfolding fetch_run_def foldR.simps(2)[of _ _ "CWait 1 leak_ref"] bindR_eq_Ok by (elim exE conjE)
  have "extra A = extra (ref_init In_Order)" by (rule ref_run_extra[OF A[unfolded sent_run_def]]) simp
  moreover have "extra B = extra A"
    by (rule ref_do_extra[OF B]) (use sent_run_fetches[unfolded A] in auto)
  moreover have "extra S = extra B" by (rule ref_run_extra[OF C]) simp
  ultimately show "extra S = (\<lambda>_. 0)" by (simp add: ref_init_def)
  show "(ref_step leak_ifs (\<lambda>d. d))\<^sup>*\<^sup>* (ref_init In_Order) S"
    using ref_do_reach[OF A[unfolded sent_run_def]] ref_do_step[OF B] ref_do_reach[OF C] by (meson converse_rtranclp_into_rtranclp rtranclp_trans)
qed

lemma empty_map: "key_ok f m \<Longrightarrow> key_lookup f m = Map.empty \<Longrightarrow> MapSize m = 0"
  using length_entries[of "key_view f m"] by (simp add: key_lookup_def map_lookup_def MapSize_def)

lemma held_remote:
  assumes "ref_inv S" and "(n, r) \<in># heldr S" and "n \<noteq> r_node r"
  shows "\<exists>ri. rlook (nodes S n) (ref_key r) = Some ri \<and> (rc_data ri = None \<longrightarrow> rc_list ri \<noteq> FreedList \<and> list_ok (rc_list ri))"
proof -
  have "heldr S = add_mset (n, r) (heldr S - {#(n, r)#})" using assms(2) by simp
  from held_entry[OF assms(1) this assms(3)] obtain ri where
    "rlook (nodes S n) (ref_key r) = Some ri"
    "remote_ok (Some ri) (Suc (cnt (heldr S - {#(n, r)#}) n (ref_key r))) (cnt (waits S) n (ref_key r)) (flight S n (ref_key r))"
    by (elim exE conjE)
  with remote_list[OF this(2)] show ?thesis by simp
qed

lemma local_safe:
  assumes "refs_ok s" and "rs_node s = r_node r"
  shows "may (SNetRefCopy ifs s r) (\<lambda>_. True)" "may (SNetRefDestroy ifs s r) (\<lambda>_. True)" "may (SNetRefOutgoing ifs s r) (\<lambda>_. True)" "may (GetData ifs s r) (\<lambda>_. True)"
  subgoal by (rule may_True[OF copy_spec(1)[OF assms]])
  subgoal by (rule may_True[OF destroy_spec(1)[OF assms]])
  subgoal by (rule may_True[OF outgoing_spec(1)[OF assms]])
  subgoal by (simp add: get_local[OF assms(2)])
  done

lemma remote_safe:
  assumes "refs_ok s" and "rs_node s \<noteq> r_node r" and "rlook s (ref_key r) = Some ri" and "rc_data ri = None \<longrightarrow> rc_list ri \<noteq> FreedList \<and> list_ok (rc_list ri)"
  shows "may (SNetRefCopy ifs s r) (\<lambda>_. True)" "may (SNetRefDestroy ifs s r) (\<lambda>_. True)" "may (SNetRefOutgoing ifs s r) (\<lambda>_. True)" "may (GetData ifs s r) (\<lambda>_. True)"
  subgoal by (rule may_True[OF copy_spec(2)[OF assms(1-3)]])
  subgoal by (rule may_True[OF destroy_spec(2)[OF assms(1-3)]])
  subgoal by (rule may_True[OF outgoing_spec(2)[OF assms(1-3)]])
  subgoal
  proof (cases "rc_data ri")
    case None
    with assms(4) show ?thesis by (intro may_True[OF get_wait_spec[OF assms(1-3)]]) auto
  next
    case (Some d)
    then show ?thesis by (rule may_True[OF get_data_spec[OF assms(1-3)]])
  qed
  done

lemma held_safe:
  assumes "ref_inv S" and "(n, r) \<in># heldr S"
  shows "may (SNetRefCopy ifs (nodes S n) r) (\<lambda>_. True)" and "may (SNetRefDestroy ifs (nodes S n) r) (\<lambda>_. True)"
    and "may (SNetRefOutgoing ifs (nodes S n) r) (\<lambda>_. True)" and "may (SNetRefGetData ifs (nodes S n) r) (\<lambda>_. True)"
proof -
  note nd = ref_inv_at(1,2)[OF assms(1), of n]
  have "may (SNetRefCopy ifs (nodes S n) r) (\<lambda>_. True) \<and> may (SNetRefDestroy ifs (nodes S n) r) (\<lambda>_. True) \<and>
      may (SNetRefOutgoing ifs (nodes S n) r) (\<lambda>_. True) \<and> may (GetData ifs (nodes S n) r) (\<lambda>_. True)"
  proof (cases "n = r_node r")
    case True
    have "rs_node (nodes S n) = r_node r" unfolding nd(1) by (rule True)
    from local_safe[OF nd(2) this] show ?thesis by (intro conjI)
  next
    case False
    have l: "rs_node (nodes S n) \<noteq> r_node r" unfolding nd(1) by (rule False)
    from held_remote[OF assms False] obtain ri where "rlook (nodes S n) (ref_key r) = Some ri" "rc_data ri = None \<longrightarrow> rc_list ri \<noteq> FreedList \<and> list_ok (rc_list ri)"
      by (elim exE conjE)
    from remote_safe[OF nd(2) l this] show ?thesis by (intro conjI)
  qed
  then show "may (SNetRefCopy ifs (nodes S n) r) (\<lambda>_. True)" "may (SNetRefDestroy ifs (nodes S n) r) (\<lambda>_. True)"
    "may (SNetRefOutgoing ifs (nodes S n) r) (\<lambda>_. True)" "may (SNetRefGetData ifs (nodes S n) r) (\<lambda>_. True)"
    by (auto simp: SNetRefGetData_def may_bind_iff elim!: may_mono split: prod.splits)
qed

lemma message_safe:
  assumes inv: "ref_inv S" and "order S = In_Order" and w: "wire S = xs @ (n, m) # ys" "n \<notin> fst ` set xs"
  shows "may (ref_handle ifs xfer (nodes S n) m) (\<lambda>_. True)"
proof -
  note nd = ref_inv_at(1,2)[OF inv, of n]
  have ok: "msg_ok (n, m)" using ref_inv_at(3)[OF inv] w by simp
  have entry: "\<exists>ri. llook (nodes S n) (ref_key r) = Some ri \<and> rc_data ri = Some (r_data r)" if "to_owner (ref_key r) (n, m)" for r
    using receive_entry[OF inv w(1) _ that] w(2) assms(2) by auto
  have upd: "may (SNetRefUpdate ifs (nodes S n) r v) (\<lambda>_. True)" if "to_owner (ref_key r) (n, m)" for r v
  proof -
    note e = entry[OF that]
    obtain ri where "llook (nodes S n) (ref_key r) = Some ri" "rc_data ri = Some (r_data r)" using e by blast
    then show ?thesis by (rule may_True[OF update_spec[OF nd(2)]])
  qed
  show "may (ref_handle ifs xfer (nodes S n) m) (\<lambda>_. True)"
  proof (cases m)
    case (MRec r)
    have "may (SNetRefIncoming ifs (nodes S n) r) (\<lambda>_. True)"
    proof (cases "n = r_node r")
      case True
      then have "to_owner (ref_key r) (n, m)" by (simp add: MRec)
      then obtain ri where "llook (nodes S n) (ref_key r) = Some ri" using entry by blast
      then show ?thesis by (rule may_True[OF incoming_spec(1)[OF nd(2)], rotated]) (use nd(1) True in simp)
    qed (rule may_True[OF incoming_spec(2)[OF nd(2)]], use nd(1) in simp)
    then show ?thesis unfolding MRec ref_handle.simps by (rule may_bind) (simp split: prod.splits)
  next
    case (MUpdate r v)
    have "may (SNetRefUpdate ifs (nodes S n) r v) (\<lambda>_. True)" by (rule upd) (use ok MUpdate in simp)
    then show ?thesis unfolding MUpdate ref_handle.simps by (rule may_bind) (simp split: prod.splits)
  next
    case (MFetch r x)
    have "ref_with (nodes S n) r (r_data r) = r" using ok MFetch nd(1) by (simp add: ref_with_def)
    moreover have "may (SNetRefUpdate ifs (nodes S n) r (-1)) (\<lambda>_. True)" by (rule upd) (use ok MFetch in simp)
    ultimately show ?thesis using ok MFetch nd(1) get_local[of "nodes S n" r ifs]
      by (simp add: SNetRefGetData_def may_bind_iff case_prod_unfold)
  next
    case (MSet r v)
    have n: "n \<noteq> r_node r" using ok MSet by simp
    obtain f where "remote_ok (rlook (nodes S n) (ref_key r)) (cnt (heldr S) n (ref_key r)) (cnt (waits S) n (ref_key r)) (Suc f)"
      using ref_inv_at(5)[OF inv, of n "ref_key r"] n w MSet by (auto simp: remote_at_def flight_def)
    from remote_flight[OF this] obtain ri l where "rlook (nodes S n) (ref_key r) = Some ri" "rc_list ri = WaitList l" "list_inv l" by auto
    from may_True[OF set_spec[OF nd(2) this]] show ?thesis unfolding MSet ref_handle.simps by (rule may_bind) (simp split: prod.splits)
  qed
qed

section \<open>Properties\<close>

text \<open>
  C9. Reference counts are exact in every reachable state, whatever the order in which messages arrive: the count of the owner of a datum and what the messages on the way
  to it will change add up to the references outside (in records on other nodes and on the way to them), plus one for
  each task that began to wait for the datum while another one on its node waited already; and the count of another node is
  the number of references it holds and of its tasks that wait for the datum.
\<close>

theorem ref_counts:
  assumes "(ref_step ifs xfer)\<^sup>*\<^sup>* (ref_init ord) S"
  shows "total (llook (nodes S (fst k)) k) + sum_list (pending S k) = live S k + extra S k \<and>
     (\<forall>n. n \<noteq> fst k \<longrightarrow> total (rlook (nodes S n) k) = int (cnt (heldr S) n k + cnt (waits S) n k))"
proof -
  note inv = ref_reach_inv[OF assms]
  have "total (rlook (nodes S n) k) = int (cnt (heldr S) n k + cnt (waits S) n k)" if "n \<noteq> fst k" for n
    using ref_inv_at(5)[OF inv that] by (auto simp: remote_at_def remote_ok_def total_def split: option.splits)
  with ref_inv_at(6)[OF inv, of k] show ?thesis by (auto simp: owner_at_def owner_ok_def)
qed

theorem ref_counts_witness:
  "\<exists>S. share_run = Ok S \<and> total (llook (nodes S 0) (0, 7)) + sum_list (pending S (0, 7)) = live S (0, 7) + extra S (0, 7) \<and>
     total (rlook (nodes S 1) (0, 7)) = int (cnt (heldr S) 1 (0, 7) + cnt (waits S) 1 (0, 7))"
proof -
  obtain S where S: "share_run = Ok S" "(ref_step leak_ifs (\<lambda>d. d))\<^sup>*\<^sup>* (ref_init In_Order) S" using share_run_reach by blast
  from ref_counts[OF S(2), of "(0, 7)"] S(1) show ?thesis by auto
qed

text \<open>
  C10. When the messages for a node arrive in the order in which they were written, a datum is kept as long as it is needed: while a reference to it exists outside its node, or a message about it is on
  the way to its node, the owner has an entry for it with a positive count and the data itself.
\<close>

theorem ref_data_kept:
  assumes "(ref_step ifs xfer)\<^sup>*\<^sup>* (ref_init In_Order) S" and "0 < live S k \<or> pending S k \<noteq> []"
  shows "\<exists>ri. llook (nodes S (fst k)) k = Some ri \<and> 1 \<le> rc_count ri \<and> rc_data ri = Some (snd k)"
proof -
  have o: "owner_ok In_Order (snd k) (llook (nodes S (fst k)) k) (pending S k) (live S k) (extra S k)"
    using ref_inv_at(6)[OF ref_reach_inv[OF assms(1)], of k] ref_reach_order[OF assms(1)] by (simp add: owner_at_def ref_init_def)
  have "1 \<le> total (llook (nodes S (fst k)) k)"
  proof (cases "pending S k")
    case Nil
    with o assms(2) show ?thesis by (auto simp: owner_ok_def)
  next
    case (Cons a q)
    with o show ?thesis by (auto simp: owner_ok_def dest!: spec[of _ 0])
  qed
  then obtain ri where ri: "llook (nodes S (fst k)) k = Some ri" by (cases "llook (nodes S (fst k)) k") (auto simp: total_def)
  with o show ?thesis by (auto simp: owner_ok_def)
qed

lemma share_run_live: "case share_run of Ok S \<Rightarrow> 0 < live S (0, 7) | Err e \<Rightarrow> False"
  by code_simp

theorem ref_data_kept_witness:
  "\<exists>S ri. share_run = Ok S \<and> llook (nodes S 0) (0, 7) = Some ri \<and> 1 \<le> rc_count ri \<and> rc_data ri = Some 7"
proof -
  obtain S where S: "share_run = Ok S" "(ref_step leak_ifs (\<lambda>d. d))\<^sup>*\<^sup>* (ref_init In_Order) S" using share_run_reach by blast
  have "0 < live S (0, 7) \<or> pending S (0, 7) \<noteq> []" using share_run_live unfolding S(1) by simp
  from ref_data_kept[OF S(2) this] S(1) show ?thesis by auto
qed

text \<open>
  C11. The reference functions never fail on what they are called with. In every reachable state, in whatever order messages arrive,
  copying, reading, destroying or sending a reference that a node holds succeeds or stops at an overflow of a counter or an
  interface that is not registered. When the messages for a node arrive in the order in which they were written, so does the handling of
  the next message. In particular no entry is missing in a map, and a destroyed list is never used.
\<close>

theorem ref_no_failure:
  assumes "(ref_step ifs xfer)\<^sup>*\<^sup>* (ref_init ord) S"
  shows "((n, r) \<in># heldr S \<longrightarrow> may (SNetRefCopy ifs (nodes S n) r) (\<lambda>_. True) \<and> may (SNetRefGetData ifs (nodes S n) r) (\<lambda>_. True) \<and>
      may (SNetRefDestroy ifs (nodes S n) r) (\<lambda>_. True) \<and> may (SNetRefOutgoing ifs (nodes S n) r) (\<lambda>_. True)) \<and>
    (ord = In_Order \<and> wire S = xs @ (n, m) # ys \<and> n \<notin> fst ` set xs \<longrightarrow> may (ref_handle ifs xfer (nodes S n) m) (\<lambda>_. True))"
proof -
  note inv = ref_reach_inv[OF assms]
  have "order S = ord" using ref_reach_order[OF assms] by (simp add: ref_init_def)
  then show ?thesis using held_safe[OF inv] message_safe[OF inv] by blast
qed

lemma share_run_wire: "case share_run of Ok S \<Rightarrow> (1, leak_ref) \<in># heldr S \<and> wire S = [(0, MUpdate leak_ref 1), (0, MFetch leak_ref 1)] | Err e \<Rightarrow> False"
  by code_simp

theorem ref_no_failure_witness:
  "\<exists>S. share_run = Ok S \<and> may (SNetRefGetData leak_ifs (nodes S 1) leak_ref) (\<lambda>_. True) \<and> may (ref_handle leak_ifs (\<lambda>d. d) (nodes S 0) (MUpdate leak_ref 1)) (\<lambda>_. True)"
proof -
  obtain S where S: "share_run = Ok S" "(ref_step leak_ifs (\<lambda>d. d))\<^sup>*\<^sup>* (ref_init In_Order) S" using share_run_reach by blast
  have w: "(1, leak_ref) \<in># heldr S" "wire S = [] @ (0, MUpdate leak_ref 1) # [(0, MFetch leak_ref 1)]" using share_run_wire unfolding S(1) by simp_all
  have "may (SNetRefGetData leak_ifs (nodes S 1) leak_ref) (\<lambda>_. True)" using ref_no_failure[OF S(2), of 1 leak_ref] w(1) by blast
  moreover have "may (ref_handle leak_ifs (\<lambda>d. d) (nodes S 0) (MUpdate leak_ref 1)) (\<lambda>_. True)"
    using ref_no_failure[OF S(2), of 0 _ "[]" "MUpdate leak_ref 1" "[(0, MFetch leak_ref 1)]"] w(2) by simp
  ultimately show ?thesis using S(1) by blast
qed

text \<open>
  C12. Shutdown, whatever the order in which messages arrive: when no message is under way, no task waits, only references to data of their own node are left, and no two tasks of
  a node have waited for the same datum at a time, then both maps of every node are empty and the assertions of \<open>SNetReferenceDestroy\<close> hold.
\<close>

theorem ref_shutdown:
  assumes "(ref_step ifs xfer)\<^sup>*\<^sup>* (ref_init ord) S" and "wire S = []" and "waits S = {#}" and "\<forall>x\<in>#heldr S. fst x = r_node (snd x)" and "\<forall>k. extra S k = 0"
  shows "SNetReferenceDestroy (nodes S n) = Ok ()"
proof -
  note inv = ref_reach_inv[OF assms(1)]
  note nd = ref_inv_at(1,2)[OF inv, of n]
  have h: "cnt (heldr S) n' k = 0" if "n' \<noteq> fst k" for n' k
  proof -
    have "filter_mset (\<lambda>(n'', r). n'' = n' \<and> ref_key r = k) (heldr S) = {#}" using assms(4) that by auto
    then show ?thesis by (simp add: cnt_def)
  qed
  have "filter_mset (\<lambda>(n, r). n \<noteq> fst k \<and> ref_key r = k) (heldr S) = {#}" for k using assms(4) by auto
  then have "live S k = 0" "pending S k = []" for k using assms(2) by (simp_all add: live_def outside_def pending_def)
  then have l: "llook (nodes S (fst k)) k = None" for k
    using ref_inv_at(6)[OF inv, of k] assms(5) by (cases "llook (nodes S (fst k)) k") (auto simp: owner_at_def owner_ok_def total_def)
  have r: "rlook (nodes S n) k = None" if "n \<noteq> fst k" for k
    using ref_inv_at(5)[OF inv that] h[OF that] assms(3) by (cases "rlook (nodes S n) k") (auto simp: remote_at_def remote_ok_def)
  have "llook (nodes S n) = Map.empty" "rlook (nodes S n) = Map.empty"
    using l r ref_inv_at(7)[OF inv, of n] unfolding node_ok_def fun_eq_iff by metis+
  then have "MapSize (localRefMap (nodes S n)) = 0" "MapSize (remoteRefMap (nodes S n)) = 0"
    using nd(2) by (auto simp: refs_ok_def llook_def rlook_def intro: empty_map)
  then show ?thesis by (simp add: SNetReferenceDestroy_def assertR_def)
qed

theorem ref_shutdown_witness:
  "\<exists>S. fetch_run = Ok S \<and> heldr S \<noteq> {#} \<and> SNetReferenceDestroy (nodes S 0) = Ok () \<and> SNetReferenceDestroy (nodes S 1) = Ok ()"
proof -
  obtain S where S: "fetch_run = Ok S" using fetch_run_ok by (auto split: res.splits)
  have c: "wire S = []" "waits S = {#}" "\<forall>x\<in>#heldr S. fst x = r_node (snd x)" "heldr S \<noteq> {#}" using fetch_run_ok[unfolded S] by simp_all
  have e: "\<forall>k. extra S k = 0" using fetch_run_extra(1)[OF S] by simp
  from ref_shutdown[OF fetch_run_extra(2)[OF S] c(1-3) e] c(4) S show ?thesis by blast
qed

end
