(* ===== verification/Distrib_Common.thy ===== *)
theory Distrib_Common
  imports Map_Key List_Template Snet_Info
begin

text \<open>
  Routing between nodes (\<open>distrib/common/distribcommon.c\<close> and \<open>distribcommon.h\<close>). Every node runs the creation of
  the whole network; where the location of two neighbouring entities differs, the node of the first one registers the
  stream between them with its output manager and the node of the second one with its input manager, both under a
  destination. Messages carry the destination, so the nodes have to number the crossings alike.
\<close>

section \<open>Destinations\<close>

record snet_dest =
  d_node :: int
  d_dest :: int
  d_parent :: int
  d_parentNode :: int
  d_dynamicIndex :: int
  d_dynamicLoc :: int

definition SNetDestCompare :: "snet_dest \<Rightarrow> snet_dest \<Rightarrow> bool" where
  "SNetDestCompare d1 d2 \<longleftrightarrow>
     d_node d1 = d_node d2 \<and> d_dest d1 = d_dest d2 \<and> d_parent d1 = d_parent d2 \<and> d_dynamicIndex d1 = d_dynamicIndex d2"

definition dest_key :: "snet_dest \<Rightarrow> int \<times> int \<times> int \<times> int" where
  "dest_key d = (d_node d, d_dest d, d_parent d, d_dynamicIndex d)"

lemma SNetDestCompare_key: "SNetDestCompare = same_key dest_key"
  by (auto simp: SNetDestCompare_def same_key_def dest_key_def fun_eq_iff)

text \<open>A copy of the structure; the tuples are never equal.\<close>

definition SNetDestCopy :: "snet_dest \<Rightarrow> snet_dest" where
  "SNetDestCopy d = d"

definition SNetTupleCompare :: "snet_dest \<times> 's \<Rightarrow> snet_dest \<times> 's \<Rightarrow> bool" where
  "SNetTupleCompare t1 t2 = False"

text \<open>
  The destination as a message carries it (\<open>distrib/mpi/transmit.c\<close>): all fields but the node, in the place of which
  the receiver puts the sender.
\<close>

definition PackDest :: "snet_dest \<Rightarrow> int list" where
  "PackDest d = [d_dest d, d_parent d, d_dynamicIndex d, d_parentNode d, d_dynamicLoc d]"

fun UnpackDest :: "int list \<Rightarrow> snet_dest \<Rightarrow> snet_dest res" where
  "UnpackDest (a # b # c # e # f # xs) d =
     Ok (d\<lparr>d_dest := a, d_parent := b, d_dynamicIndex := c, d_parentNode := e, d_dynamicLoc := f\<rparr>)"
| "UnpackDest _ d = Err OutOfBounds"

text \<open>The destination of a message from \<open>src\<close>: with MPI, and with the message passing buffer for records and for the flow control messages.\<close>

definition mpi_dest :: "int \<Rightarrow> snet_dest \<Rightarrow> snet_dest res" where
  "mpi_dest src d = UnpackDest (PackDest d) (d\<lparr>d_node := src\<rparr>)"

definition scc_record_dest :: "int \<Rightarrow> snet_dest \<Rightarrow> snet_dest" where
  "scc_record_dest src d = d\<lparr>d_node := src\<rparr>"

definition scc_block_dest :: "int \<Rightarrow> snet_dest \<Rightarrow> snet_dest" where
  "scc_block_dest src d = d"

lemma mpi_dest_eq: "mpi_dest src d = Ok (d\<lparr>d_node := src\<rparr>)"
  by (simp add: mpi_dest_def PackDest_def)

section \<open>Routing\<close>

text \<open>
  The values in the creation context: the destination \<open>prevDest\<close> (a structure owned by one context and copied with it),
  the address of the counter (shared by all copies) or NULL.
\<close>

datatype info_val = NullVal | DestVal snet_dest | CounterPtr nat

type_synonym rinfo = "info_val snet_info"

record route_env =
  node_location :: int
  prevDest :: int
  infoCounter :: int

text \<open>
  The registrations of one node in their order, the counters on the heap (\<open>None\<close> is a freed one) and the next free stream.
\<close>

record route_state =
  rt_counters :: "int option list"
  rt_outs :: "(snet_dest \<times> nat option) list"
  rt_ins :: "(snet_dest \<times> nat option) list"
  rt_streams :: nat

definition SNetDistribIsNodeLocation :: "route_env \<Rightarrow> int \<Rightarrow> bool" where
  "SNetDistribIsNodeLocation E loc \<longleftrightarrow> node_location E = loc"

fun get_dest :: "info_val \<Rightarrow> snet_dest res" where
  "get_dest (DestVal d) = Ok d"
| "get_dest NullVal = Err NullDeref"
| "get_dest (CounterPtr a) = Err BadUnion"

fun get_counter :: "info_val \<Rightarrow> nat res" where
  "get_counter (CounterPtr a) = Ok a"
| "get_counter NullVal = Err NullDeref"
| "get_counter (DestVal d) = Err BadUnion"

definition route_counter :: "route_state \<Rightarrow> nat \<Rightarrow> int res" where
  "route_counter rt a = (if a < length (rt_counters rt) then (case rt_counters rt ! a of None \<Rightarrow> Err UseAfterFree | Some n \<Rightarrow> Ok n) else Err OutOfBounds)"

text \<open>\<open>SNetDestCopy\<close> as the copy function of a context.\<close>

fun copy_dest :: "info_val \<Rightarrow> info_val" where
  "copy_dest (DestVal d) = DestVal (SNetDestCopy d)"
| "copy_dest v = v"

text \<open>A change of the destination through the pointer in the context, which the context alone holds.\<close>

definition put_dest :: "route_env \<Rightarrow> rinfo \<Rightarrow> snet_dest \<Rightarrow> rinfo" where
  "put_dest E info d = map (\<lambda>n. if tag n = prevDest E then n\<lparr>info_data := DestVal d\<rparr> else n) info"

definition SNetDistribInit :: "int \<Rightarrow> int \<Rightarrow> rinfo \<Rightarrow> (route_env \<times> int \<times> rinfo \<times> route_state) res" where
  "SNetDistribInit node new_tag info =
     (let d = \<lparr>d_node = 0, d_dest = 0, d_parent = 0, d_parentNode = 0, d_dynamicIndex = 0, d_dynamicLoc = 0\<rparr>;
          (p, new_tag) = SNetInfoCreateTag new_tag in
      bindR (SNetInfoSetTag NullVal info p (DestVal d) (Some copy_dest)) (\<lambda>(info, _).
      let (c, new_tag) = SNetInfoCreateTag new_tag in
      bindR (SNetInfoSetTag NullVal info c (CounterPtr 0) None) (\<lambda>(info, _).
      Ok (\<lparr>node_location = node, prevDest = p, infoCounter = c\<rparr>, new_tag, info,
          \<lparr>rt_counters = [Some 0], rt_outs = [], rt_ins = [], rt_streams = 0\<rparr>))))"

definition SNetRouteUpdate :: "route_env \<Rightarrow> rinfo \<Rightarrow> nat option \<Rightarrow> int \<Rightarrow> route_state \<Rightarrow> (nat option \<times> rinfo \<times> route_state) res" where
  "SNetRouteUpdate E info input loc rt =
     bindR (SNetInfoGetTag info (infoCounter E)) (\<lambda>cv.
     bindR (SNetInfoGetTag info (prevDest E)) (\<lambda>dv. bindR (get_dest dv) (\<lambda>d.
     if d_node d \<noteq> loc then
       bindR (get_counter cv) (\<lambda>a. bindR (route_counter rt a) (\<lambda>n. bindR (c_int (n + 1)) (\<lambda>n'.
       let rt = rt\<lparr>rt_counters := (rt_counters rt)[a := Some n']\<rparr>; d = d\<lparr>d_dest := n\<rparr> in
       if SNetDistribIsNodeLocation E (d_node d) then
         (let d = d\<lparr>d_node := loc\<rparr> in
          Ok (None, put_dest E info d, rt\<lparr>rt_outs := rt_outs rt @ [(d, input)]\<rparr>))
       else if SNetDistribIsNodeLocation E loc then
         (let (input, rt) = (if input = None then (Some (rt_streams rt), rt\<lparr>rt_streams := rt_streams rt + 1\<rparr>) else (input, rt)) in
          Ok (input, put_dest E info (d\<lparr>d_node := loc\<rparr>), rt\<lparr>rt_ins := rt_ins rt @ [(d, input)]\<rparr>))
       else Ok (input, put_dest E info (d\<lparr>d_node := loc\<rparr>), rt))))
     else Ok (input, info, rt))))"

text \<open>\<open>fun\<close> of the C code is the identifier of the startup function, or NULL.\<close>

definition SNetRouteDynamicEnter :: "route_env \<Rightarrow> rinfo \<Rightarrow> int \<Rightarrow> int \<Rightarrow> int option \<Rightarrow> route_state \<Rightarrow> (rinfo \<times> route_state) res" where
  "SNetRouteDynamicEnter E info dynamicIndex dynamicLoc fn rt =
     bindR (SNetInfoGetTag info (prevDest E)) (\<lambda>dv. bindR (get_dest dv) (\<lambda>d.
     let d = d\<lparr>d_dynamicIndex := dynamicIndex\<rparr>;
         d = (case fn of None \<Rightarrow> d | Some f \<Rightarrow> d\<lparr>d_parent := f, d_parentNode := node_location E, d_dynamicLoc := dynamicLoc\<rparr>);
         a = length (rt_counters rt) in
     bindR (SNetInfoSetTag NullVal (put_dest E info d) (infoCounter E) (CounterPtr a) None) (\<lambda>(info, _).
     Ok (info, rt\<lparr>rt_counters := rt_counters rt @ [Some 0]\<rparr>))))"

definition SNetRouteDynamicExit :: "route_env \<Rightarrow> rinfo \<Rightarrow> route_state \<Rightarrow> (rinfo \<times> route_state) res" where
  "SNetRouteDynamicExit E info rt =
     bindR (SNetInfoDelTag info (infoCounter E)) (\<lambda>(cv, info). bindR (get_counter cv) (\<lambda>a.
     bindR (SNetInfoSetTag NullVal info (infoCounter E) NullVal None) (\<lambda>(info, _).
     Ok (info, rt\<lparr>rt_counters := (rt_counters rt)[a := None]\<rparr>))))"

type_synonym rstartup = "nat option \<Rightarrow> rinfo \<Rightarrow> int \<Rightarrow> route_state \<Rightarrow> (nat option \<times> rinfo \<times> route_state) res"

text \<open>\<open>nets\<close> is \<open>SNetIdToNet\<close>: the startup functions by their identifiers. The location vector of the context plays no part in routing.\<close>

definition SNetRouteNewDynamic :: "route_env \<Rightarrow> (int \<Rightarrow> rstartup) \<Rightarrow> snet_dest \<Rightarrow> route_state \<Rightarrow> route_state res" where
  "SNetRouteNewDynamic E nets dest rt =
     bindR (SNetInfoSetTag NullVal (SNetInfoInit NullVal) (prevDest E) (DestVal (SNetDestCopy dest)) (Some copy_dest)) (\<lambda>(info, _).
     bindR (SNetRouteDynamicEnter E info (d_dynamicIndex dest) (d_dynamicLoc dest) None rt) (\<lambda>(info, rt).
     bindR (nets (d_parent dest) None info (d_dynamicLoc dest) rt) (\<lambda>(out, info, rt).
     bindR (SNetRouteUpdate E info out (d_parentNode dest) rt) (\<lambda>(_, info, rt).
     bindR (SNetRouteDynamicExit E info rt) (\<lambda>(_, rt). Ok rt)))))"

section \<open>The creation of a network on every node\<close>

text \<open>
  A sequence of calls that a startup function makes to the route, as a specification: it visits locations in turn (\<open>Go\<close>,
  an entity), and runs branches on copies of the context (\<open>Fork\<close>, an operand of a parallel composition). A local entity puts a
  new stream in the place of its input. That the creation functions make the same calls on every node is not shown here, and fails
  for networks that are created at run time (\<open>route_dynamic_second_hop_lost\<close>).
\<close>

datatype rnet = Done | Go int rnet | Fork rnet rnet

definition entity_out :: "route_env \<Rightarrow> int \<Rightarrow> nat option \<Rightarrow> route_state \<Rightarrow> nat option \<times> route_state" where
  "entity_out E loc input rt =
     (if SNetDistribIsNodeLocation E loc then (Some (rt_streams rt), rt\<lparr>rt_streams := rt_streams rt + 1\<rparr>) else (input, rt))"

fun route_net :: "route_env \<Rightarrow> rnet \<Rightarrow> nat option \<Rightarrow> rinfo \<Rightarrow> route_state \<Rightarrow> (nat option \<times> rinfo \<times> route_state) res" where
  "route_net E Done input info rt = Ok (input, info, rt)"
| "route_net E (Go loc t) input info rt =
     bindR (SNetRouteUpdate E info input loc rt) (\<lambda>(input, info, rt).
     let (out, rt) = entity_out E loc input rt in route_net E t out info rt)"
| "route_net E (Fork b t) input info rt =
     bindR (SNetInfoCopy info) (\<lambda>newInfo. bindR (route_net E b input newInfo rt) (\<lambda>(_, _, rt). route_net E t input info rt))"

text \<open>The crossings of a network that starts at node \<open>p\<close>, numbered from \<open>n\<close>: number, source, target.\<close>

fun crossings :: "int \<Rightarrow> int \<Rightarrow> rnet \<Rightarrow> (int \<times> int \<times> int) list" and next_crossing :: "int \<Rightarrow> int \<Rightarrow> rnet \<Rightarrow> int" where
  "crossings p n Done = []"
| "crossings p n (Go loc t) = (if p \<noteq> loc then (n, p, loc) # crossings loc (n + 1) t else crossings p n t)"
| "crossings p n (Fork b t) = crossings p n b @ crossings p (next_crossing p n b) t"
| "next_crossing p n Done = n"
| "next_crossing p n (Go loc t) = (if p \<noteq> loc then next_crossing loc (n + 1) t else next_crossing p n t)"
| "next_crossing p n (Fork b t) = next_crossing p (next_crossing p n b) t"

definition out_dests :: "int \<Rightarrow> snet_dest \<Rightarrow> (int \<times> int \<times> int) list \<Rightarrow> snet_dest list" where
  "out_dests node d cs = map (\<lambda>(k, src, dst). d\<lparr>d_dest := k, d_node := dst\<rparr>) (filter (\<lambda>(k, src, dst). src = node) cs)"

definition in_dests :: "int \<Rightarrow> snet_dest \<Rightarrow> (int \<times> int \<times> int) list \<Rightarrow> snet_dest list" where
  "in_dests node d cs = map (\<lambda>(k, src, dst). d\<lparr>d_dest := k, d_node := src\<rparr>) (filter (\<lambda>(k, src, dst). dst = node) cs)"

lemma dests_simps [simp]:
  "out_dests node d [] = []" "in_dests node d [] = []"
  "out_dests node d (xs @ ys) = out_dests node d xs @ out_dests node d ys"
  "in_dests node d (xs @ ys) = in_dests node d xs @ in_dests node d ys"
  "out_dests node d ((k, src, dst) # xs) = (if src = node then [d\<lparr>d_dest := k, d_node := dst\<rparr>] else []) @ out_dests node d xs"
  "in_dests node d ((k, src, dst) # xs) = (if dst = node then [d\<lparr>d_dest := k, d_node := src\<rparr>] else []) @ in_dests node d xs"
  "out_dests node (d\<lparr>d_node := i\<rparr>) xs = out_dests node d xs" "in_dests node (d\<lparr>d_node := i\<rparr>) xs = in_dests node d xs"
  "out_dests node (d\<lparr>d_dest := i\<rparr>) xs = out_dests node d xs" "in_dests node (d\<lparr>d_dest := i\<rparr>) xs = in_dests node d xs"
  by (auto simp: out_dests_def in_dests_def)

lemma next_crossing_mono: "n \<le> next_crossing p n t"
proof (induction t arbitrary: p n)
  case (Go loc t)
  then have "n + 1 \<le> next_crossing loc (n + 1) t" "n \<le> next_crossing loc n t" by blast+
  then show ?case by simp
next
  case (Fork b t)
  have "n \<le> next_crossing p n b" "next_crossing p n b \<le> next_crossing p (next_crossing p n b) t" using Fork.IH by blast+
  then show ?case by simp
qed simp

definition ctx_is :: "route_env \<Rightarrow> rinfo \<Rightarrow> snet_dest \<Rightarrow> nat \<Rightarrow> bool" where
  "ctx_is E info d a \<longleftrightarrow> info_inv info \<and> prevDest E \<noteq> -1 \<and> infoCounter E \<noteq> -1 \<and> prevDest E \<noteq> infoCounter E \<and>
     info_map info (prevDest E) = Some (DestVal d) \<and> info_map info (infoCounter E) = Some (CounterPtr a) \<and> (\<forall>n\<in>set info. copyFun n = None \<or> copyFun n = Some copy_dest)"

definition count_is :: "route_state \<Rightarrow> nat \<Rightarrow> int \<Rightarrow> bool" where
  "count_is rt a n \<longleftrightarrow> a < length (rt_counters rt) \<and> rt_counters rt ! a = Some n"

lemma put_dest_tags: "map tag (put_dest E info d) = map tag info"
  by (simp add: put_dest_def)

lemma copy_dest_id [simp]: "copy_dest v = v"
  by (cases v) (simp_all add: SNetDestCopy_def)

lemma put_dest_map:
  "prevDest E \<noteq> -1 \<Longrightarrow> info_map (put_dest E info d) t =
     (if t = prevDest E then map_option (\<lambda>_. DestVal d) (info_map info t) else info_map info t)"
  by (induction info) (auto simp: put_dest_def)

lemma ctx_put_dest: "ctx_is E info d a \<Longrightarrow> ctx_is E (put_dest E info d') d' a"
  by (auto simp: ctx_is_def put_dest_map info_inv_def put_dest_tags last_map) (auto simp: put_dest_def last_map)

lemma ctx_copied: "ctx_is E info d a \<Longrightarrow> SNetInfoCopy info = Ok info"
proof -
  assume a: "ctx_is E info d a"
  have "copy_node n = n" if "n \<in> set info" for n
  proof -
    have "copyFun n = None \<or> copyFun n = Some copy_dest" using a that by (simp add: ctx_is_def)
    then show ?thesis by (auto simp: copy_node_def)
  qed
  then have "map copy_node info = info" by (rule map_idI)
  then show ?thesis using a by (cases info) (auto simp: SNetInfoCopy_def ctx_is_def)
qed

lemma ctx_read:
  assumes "ctx_is E info d a"
  shows "SNetInfoGetTag info (infoCounter E) = Ok (CounterPtr a)" and "SNetInfoGetTag info (prevDest E) = Ok (DestVal d)"
  using assms by (simp_all add: ctx_is_def SNetInfoGetTag_spec)

text \<open>One update of the route: nothing at the same location, otherwise the crossing is numbered and its end on this node is registered.\<close>

lemma SNetRouteUpdate_spec:
  assumes "ctx_is E info d a" and "count_is rt a n" and "d_node d \<noteq> loc \<Longrightarrow> int_range (n + 1)"
    and "d_node d = node_location E \<Longrightarrow> input \<noteq> None"
  shows "\<exists>out info' rt'. SNetRouteUpdate E info input loc rt = Ok (out, info', rt') \<and>
     (\<exists>k. ctx_is E info' (d\<lparr>d_dest := k, d_node := loc\<rparr>) a) \<and> count_is rt' a (if d_node d = loc then n else n + 1) \<and>
     length (rt_counters rt') = length (rt_counters rt) \<and> (\<forall>b. b \<noteq> a \<longrightarrow> rt_counters rt' ! b = rt_counters rt ! b) \<and>
     (\<exists>ss. rt_outs rt' = rt_outs rt @ ss \<and> map fst ss = out_dests (node_location E) d (crossings (d_node d) n (Go loc Done)) \<and> None \<notin> snd ` set ss) \<and>
     (\<exists>ss. rt_ins rt' = rt_ins rt @ ss \<and> map fst ss = in_dests (node_location E) d (crossings (d_node d) n (Go loc Done)) \<and> None \<notin> snd ` set ss) \<and>
     (loc = node_location E \<longrightarrow> out \<noteq> None)"
proof (cases "d_node d = loc")
  case True
  then have "d\<lparr>d_dest := d_dest d, d_node := loc\<rparr> = d" by simp
  then have "\<exists>k. ctx_is E info (d\<lparr>d_dest := k, d_node := loc\<rparr>) a" using assms(1) by metis
  with True assms show ?thesis unfolding SNetRouteUpdate_def by (simp add: ctx_read[OF assms(1)])
next
  case False
  have c: "route_counter rt a = Ok n" using assms(2) by (simp add: route_counter_def count_is_def)
  have p: "ctx_is E (put_dest E info (d\<lparr>d_dest := n, d_node := loc\<rparr>)) (d\<lparr>d_dest := n, d_node := loc\<rparr>) a"
    by (rule ctx_put_dest[OF assms(1)])
  have r: "int_range (n + 1)" using assms(3) False by simp
  let ?rt = "rt\<lparr>rt_counters := (rt_counters rt)[a := Some (n + 1)]\<rparr>"
  let ?i = "put_dest E info (d\<lparr>d_dest := n, d_node := loc\<rparr>)"
  note step = SNetRouteUpdate_def ctx_read[OF assms(1)] get_dest.simps get_counter.simps bindR.simps c c_int_in_range[OF r]
  have cnt: "count_is ?rt a (n + 1)" using assms(2) by (simp add: count_is_def)
  consider (src) "d_node d = node_location E" | (dst) "d_node d \<noteq> node_location E" "loc = node_location E"
    | (other) "d_node d \<noteq> node_location E" "loc \<noteq> node_location E" by blast
  then show ?thesis
  proof cases
    case src
    have "SNetRouteUpdate E info input loc rt = Ok (None, ?i, ?rt\<lparr>rt_outs := rt_outs rt @ [(d\<lparr>d_dest := n, d_node := loc\<rparr>, input)]\<rparr>)"
      unfolding step using False src by (simp add: SNetDistribIsNodeLocation_def Let_def)
    then show ?thesis using False src p cnt assms(4) by (auto simp: count_is_def)
  next
    case dst
    let ?s = "if input = None then Some (rt_streams rt) else input"
    have "SNetRouteUpdate E info input loc rt =
       Ok (?s, ?i, ?rt\<lparr>rt_streams := (if input = None then rt_streams rt + 1 else rt_streams rt), rt_ins := rt_ins rt @ [(d\<lparr>d_dest := n\<rparr>, ?s)]\<rparr>)"
      unfolding step using False dst by (simp add: SNetDistribIsNodeLocation_def Let_def)
    then show ?thesis using False dst p cnt by (auto simp: count_is_def)
  next
    case other
    have "SNetRouteUpdate E info input loc rt = Ok (input, ?i, ?rt)"
      unfolding step using False other by (simp add: SNetDistribIsNodeLocation_def Let_def)
    then show ?thesis using False other p cnt by (auto simp: count_is_def)
  qed
qed

text \<open>A whole network.\<close>

definition registers :: "route_env \<Rightarrow> snet_dest \<Rightarrow> (int \<times> int \<times> int) list \<Rightarrow> route_state \<Rightarrow> route_state \<Rightarrow> bool" where
  "registers E d cs rt rt' \<longleftrightarrow>
     (\<exists>ss. rt_outs rt' = rt_outs rt @ ss \<and> map fst ss = out_dests (node_location E) d cs \<and> None \<notin> snd ` set ss) \<and>
     (\<exists>ss. rt_ins rt' = rt_ins rt @ ss \<and> map fst ss = in_dests (node_location E) d cs \<and> None \<notin> snd ` set ss)"

lemma registers_append: "registers E d xs rt rt1 \<Longrightarrow> registers E d ys rt1 rt2 \<Longrightarrow> registers E d (xs @ ys) rt rt2"
  by (fastforce simp: registers_def)

lemma registers_refl: "registers E d [] rt rt"
  by (simp add: registers_def)

lemma route_net_spec:
  assumes "ctx_is E info d a" and "count_is rt a n" and "0 \<le> n" and "int_range (next_crossing (d_node d) n t)"
    and "d_node d = node_location E \<Longrightarrow> input \<noteq> None"
  shows "\<exists>out info' rt' d'. route_net E t input info rt = Ok (out, info', rt') \<and> ctx_is E info' d' a \<and> (\<exists>k i. d' = d\<lparr>d_dest := k, d_node := i\<rparr>) \<and>
     count_is rt' a (next_crossing (d_node d) n t) \<and> registers E d (crossings (d_node d) n t) rt rt' \<and>
     (d_node d' = node_location E \<longrightarrow> out \<noteq> None)"
  using assms
proof (induction t arbitrary: d n input info rt)
  case Done
  have "\<exists>k i. d = d\<lparr>d_dest := k, d_node := i\<rparr>" by (intro exI[of _ "d_dest d"] exI[of _ "d_node d"]) simp
  with Done show ?case by (auto simp: registers_refl intro!: exI[of _ d])
next
  case (Go loc t)
  let ?n = "if d_node d = loc then n else n + 1"
  have nx: "int_range (next_crossing loc ?n t)" using Go.prems(4) by (auto split: if_splits)
  then have r: "int_range (n + 1)" if "d_node d \<noteq> loc"
    using that next_crossing_mono[of "n + 1" loc t] Go.prems(3) by (auto simp: int_range_def)
  obtain out i1 rt1 k where u: "SNetRouteUpdate E info input loc rt = Ok (out, i1, rt1)" "ctx_is E i1 (d\<lparr>d_dest := k, d_node := loc\<rparr>) a"
    "count_is rt1 a ?n" "registers E d (crossings (d_node d) n (Go loc Done)) rt rt1" "loc = node_location E \<longrightarrow> out \<noteq> None"
    using SNetRouteUpdate_spec[OF Go.prems(1,2) r, of loc input] Go.prems(5) unfolding registers_def by (auto simp del: crossings.simps dests_simps)
  have n0: "0 \<le> ?n" using Go.prems(3) by simp
  obtain o2 rt2 where e: "entity_out E loc out rt1 = (o2, rt2)" by fastforce
  have e2: "count_is rt2 a ?n" "rt_outs rt2 = rt_outs rt1" "rt_ins rt2 = rt_ins rt1" "loc = node_location E \<longrightarrow> o2 \<noteq> None"
    using e u(3) by (auto simp: entity_out_def count_is_def SNetDistribIsNodeLocation_def split: if_splits)
  obtain o3 i3 rt3 d3 k3 l3 where h: "route_net E t o2 i1 rt2 = Ok (o3, i3, rt3)" "ctx_is E i3 d3 a" "d3 = d\<lparr>d_dest := k3, d_node := l3\<rparr>"
    "count_is rt3 a (next_crossing loc ?n t)" "registers E (d\<lparr>d_dest := k, d_node := loc\<rparr>) (crossings loc ?n t) rt2 rt3" "d_node d3 = node_location E \<longrightarrow> o3 \<noteq> None"
    using Go.IH[OF u(2) e2(1) n0, of o2] nx e2(4) unfolding snet_dest.simps by (auto simp del: crossings.simps next_crossing.simps)
  have "registers E d (crossings loc ?n t) rt1 rt3" using h(5) e2(2,3) by (simp add: registers_def)
  note x = registers_append[OF u(4) this]
  have "crossings (d_node d) n (Go loc Done) @ crossings loc ?n t = crossings (d_node d) n (Go loc t)"
    "next_crossing loc ?n t = next_crossing (d_node d) n (Go loc t)" by auto
  note eqs = this
  have "route_net E (Go loc t) input info rt = Ok (o3, i3, rt3)" by (simp add: u(1) e h(1))
  moreover have "\<exists>k i. d3 = d\<lparr>d_dest := k, d_node := i\<rparr>" using h(3) by blast
  ultimately show ?case using h(2,6) h(4)[unfolded eqs] x[unfolded eqs] by blast
next
  case (Fork b t)
  let ?n = "next_crossing (d_node d) n b"
  have nb: "int_range ?n" "0 \<le> ?n"
    using Fork.prems(3,4) next_crossing_mono[of n "d_node d" b] next_crossing_mono[of ?n "d_node d" t] by (auto simp: int_range_def)
  have nc: "int_range (next_crossing (d_node d) ?n t)" using Fork.prems(4) by simp
  obtain o1 i1 rt1 d1 where b: "route_net E b input info rt = Ok (o1, i1, rt1)" "count_is rt1 a ?n" "registers E d (crossings (d_node d) n b) rt rt1"
    using Fork.IH(1)[OF Fork.prems(1,2,3) nb(1), of input] Fork.prems(5) by auto
  obtain o2 i2 rt2 d2 where t: "route_net E t input info rt1 = Ok (o2, i2, rt2)" "ctx_is E i2 d2 a" "\<exists>k i. d2 = d\<lparr>d_dest := k, d_node := i\<rparr>"
    "count_is rt2 a (next_crossing (d_node d) ?n t)" "registers E d (crossings (d_node d) ?n t) rt1 rt2" "d_node d2 = node_location E \<longrightarrow> o2 \<noteq> None"
    using Fork.IH(2)[OF Fork.prems(1) b(2) nb(2) nc, of input] Fork.prems(5) by blast
  have "route_net E (Fork b t) input info rt = Ok (o2, i2, rt2)" by (simp add: ctx_copied[OF Fork.prems(1)] b(1) t(1))
  moreover have "crossings (d_node d) n (Fork b t) = crossings (d_node d) n b @ crossings (d_node d) ?n t"
    "next_crossing (d_node d) n (Fork b t) = next_crossing (d_node d) ?n t" by simp_all
  ultimately show ?case using t(2,3,4,6) registers_append[OF b(3) t(5)] by metis
qed

section \<open>Numbering\<close>

lemma next_crossing_length: "next_crossing p n t = n + int (length (crossings p n t))"
  by (induction t arbitrary: p n) auto

lemma crossings_num: "map fst (crossings p n t) = map (\<lambda>i. n + int i) [0..<length (crossings p n t)]"
proof (induction t arbitrary: p n)
  case Done
  then show ?case by simp
next
  case (Go loc t)
  show ?case
  proof (cases "p = loc")
    case True
    then show ?thesis using Go.IH[of loc n] by simp
  next
    case False
    have "map (\<lambda>i. n + int i) [0..<Suc m] = n # map (\<lambda>i. n + 1 + int i) [0..<m]" for m
      by (simp add: map_upt_Suc_first algebra_simps del: upt_Suc)
    then show ?thesis using False Go.IH[of loc "n + 1"] by (simp del: upt_Suc)
  qed
next
  case (Fork b t)
  let ?l = "length (crossings p n b)"
  have "map (\<lambda>i. n + int i) [0..<?l + m] = map (\<lambda>i. n + int i) [0..<?l] @ map (\<lambda>i. n + int ?l + int i) [0..<m]" for m
    by (rule nth_equalityI) (auto simp: nth_append)
  then show ?case using Fork.IH(1)[of p n] Fork.IH(2)[of p "n + int ?l"] by (simp add: next_crossing_length)
qed

lemma crossings_distinct: "distinct (map fst (crossings p n t))"
  by (simp add: crossings_num distinct_map inj_on_def)

lemma crossings_ends: "(k, src, dst) \<in> set (crossings p n t) \<Longrightarrow> src \<noteq> dst"
  by (induction t arbitrary: p n) (auto split: if_splits)

lemma ends_match:
  "map (\<lambda>d. d\<lparr>d_node := a\<rparr>) (filter (\<lambda>d. d_node d = b) (out_dests a d cs)) = filter (\<lambda>d. d_node d = a) (in_dests b d cs)"
  by (induction cs) auto

lemma dest_nums: "map d_dest (in_dests b d cs) = map fst (filter (\<lambda>(k, src, dst). dst = b) cs)"
  by (induction cs) auto

lemma in_keys_distinct: "distinct (map fst cs) \<Longrightarrow> distinct (map dest_key (in_dests b d cs))"
proof -
  assume "distinct (map fst cs)"
  then have "distinct (map d_dest (in_dests b d cs))" unfolding dest_nums by (simp add: distinct_map_filter)
  moreover have "map d_dest xs = map (\<lambda>(_, n, _). n) (map dest_key xs)" for xs by (simp add: dest_key_def)
  ultimately show ?thesis by (metis distinct_map)
qed

definition route_start :: "int \<Rightarrow> int \<Rightarrow> rnet \<Rightarrow> nat option \<Rightarrow> (nat option \<times> rinfo \<times> route_state) res" where
  "route_start node new_tag t input =
     bindR (SNetDistribInit node new_tag (SNetInfoInit NullVal)) (\<lambda>(E, _, info, rt). route_net E t input info rt)"

definition root_dest :: snet_dest where
  "root_dest = \<lparr>d_node = 0, d_dest = 0, d_parent = 0, d_parentNode = 0, d_dynamicIndex = 0, d_dynamicLoc = 0\<rparr>"

lemma SNetDistribInit_spec:
  assumes "0 \<le> new_tag"
  shows "\<exists>E tg info rt. SNetDistribInit node new_tag (SNetInfoInit NullVal) = Ok (E, tg, info, rt) \<and> node_location E = node \<and>
     ctx_is E info root_dest 0 \<and> count_is rt 0 0 \<and> rt_outs rt = [] \<and> rt_ins rt = []"
  using assms by (simp add: SNetDistribInit_def SNetInfoCreateTag_def SNetInfoInit_def Let_def ctx_is_def root_dest_def count_is_def info_inv_def)

lemma route_start_spec:
  assumes "0 \<le> new_tag" and "length (crossings 0 0 t) < 2 ^ 31" and "input \<noteq> None"
  shows "\<exists>out info rt. route_start node new_tag t input = Ok (out, info, rt) \<and>
     map fst (rt_outs rt) = out_dests node root_dest (crossings 0 0 t) \<and> map fst (rt_ins rt) = in_dests node root_dest (crossings 0 0 t) \<and>
     None \<notin> snd ` set (rt_outs rt @ rt_ins rt)"
proof -
  obtain E tg info rt where i: "SNetDistribInit node new_tag (SNetInfoInit NullVal) = Ok (E, tg, info, rt)" "node_location E = node"
    "ctx_is E info root_dest 0" "count_is rt 0 0" "rt_outs rt = []" "rt_ins rt = []" using SNetDistribInit_spec[OF assms(1)] by blast
  have d: "d_node root_dest = 0" by (simp add: root_dest_def)
  have "int_range (next_crossing 0 0 t)" using assms(2) by (simp add: next_crossing_length int_range_def)
  then show ?thesis using route_net_spec[OF i(3,4), of t input] assms(3) i unfolding route_start_def d by (auto simp: registers_def)
qed

section \<open>Networks created at run time\<close>

text \<open>
  A replicator creates its instances on its own node. Another node learns of an instance from the first record for it
  and then creates its part of the instance with \<open>SNetRouteNewDynamic\<close>.
\<close>

lemma route_tags:
  "SNetRouteUpdate E info input loc rt = Ok (out, info', rt') \<Longrightarrow> map tag info' = map tag info"
  by (auto simp: SNetRouteUpdate_def Let_def put_dest_tags split: if_splits prod.splits)

lemma route_net_tags: "route_net E t input info rt = Ok (out, info', rt') \<Longrightarrow> map tag info' = map tag info"
proof (induction t arbitrary: input info rt)
  case (Go loc t)
  from Go.prems obtain o1 i1 rt1 where u: "SNetRouteUpdate E info input loc rt = Ok (o1, i1, rt1)"
    and "route_net E t (fst (entity_out E loc o1 rt1)) i1 (snd (entity_out E loc o1 rt1)) = Ok (out, info', rt')"
    by (auto simp: case_prod_unfold Let_def)
  then show ?case using Go.IH route_tags[OF u] by metis
next
  case (Fork b t)
  then show ?case by auto
qed simp

definition net_of :: "route_env \<Rightarrow> (int \<Rightarrow> rnet) \<Rightarrow> rstartup" where
  "net_of E T input info loc rt = route_net E (T loc) input info rt"

lemma new_context:
  assumes "prevDest E \<noteq> -1" and "infoCounter E \<noteq> -1" and "prevDest E \<noteq> infoCounter E"
  shows "\<exists>i0 fr info. SNetInfoSetTag NullVal (SNetInfoInit NullVal) (prevDest E) (DestVal (SNetDestCopy m)) (Some copy_dest) = Ok (i0, fr) \<and>
     SNetRouteDynamicEnter E i0 (d_dynamicIndex m) l None rt = Ok (info, rt\<lparr>rt_counters := rt_counters rt @ [Some 0]\<rparr>) \<and>
     map tag info = [prevDest E, infoCounter E, -1] \<and> ctx_is E info m (length (rt_counters rt))"
  using assms by (auto simp: SNetInfoInit_def SNetDestCopy_def SNetRouteDynamicEnter_def Let_def put_dest_def ctx_is_def info_inv_def)

lemma exit_context:
  assumes "map tag info = [prevDest E, infoCounter E, -1]" and "ctx_is E info d a"
  shows "\<exists>info'. SNetRouteDynamicExit E info rt = Ok (info', rt\<lparr>rt_counters := (rt_counters rt)[a := None]\<rparr>)"
proof -
  obtain x y z where i: "info = [x, y, z]" "tag x = prevDest E" "tag y = infoCounter E" "tag z = -1"
    using assms(1) by (auto simp: map_eq_Cons_conv)
  have "info_data y = CounterPtr a" "prevDest E \<noteq> -1" "prevDest E \<noteq> infoCounter E" using assms(2) i by (auto simp: ctx_is_def)
  then show ?thesis using i by (simp add: SNetRouteDynamicExit_def SNetInfoInit_def)
qed

text \<open>
  When the record comes from the node of the replicator, the node creates the instance with the numbering that this node
  has used, and the incoming stream of the record is among the registered ones.
\<close>

lemma route_dynamic_first_hop:
  assumes tags: "prevDest E \<noteq> -1" "infoCounter E \<noteq> -1" "prevDest E \<noteq> infoCounter E"
    and m: "d_node m = p" "d_parentNode m = p" "p \<noteq> node_location E"
    and net: "nets (d_parent m) = net_of E T" and cross: "(d_dest m, p, node_location E) \<in> set (crossings p 0 (T (d_dynamicLoc m)))"
    and few: "length (crossings p 0 (T (d_dynamicLoc m))) < 2 ^ 31 - 1"
  shows "\<exists>rt'. SNetRouteNewDynamic E nets m rt = Ok rt' \<and> dest_key m \<in> (dest_key \<circ> fst) ` set (rt_ins rt')"
proof -
  let ?t = "T (d_dynamicLoc m)" and ?a = "length (rt_counters rt)"
  let ?rt = "rt\<lparr>rt_counters := rt_counters rt @ [Some 0]\<rparr>"
  obtain i0 fr info where c: "SNetInfoSetTag NullVal (SNetInfoInit NullVal) (prevDest E) (DestVal (SNetDestCopy m)) (Some copy_dest) = Ok (i0, fr)"
    "SNetRouteDynamicEnter E i0 (d_dynamicIndex m) (d_dynamicLoc m) None rt = Ok (info, ?rt)"
    "map tag info = [prevDest E, infoCounter E, -1]" "ctx_is E info m ?a"
    using new_context[OF tags, of m "d_dynamicLoc m" rt] by (elim exE conjE) (rule that)
  have cnt: "count_is ?rt ?a 0" by (simp add: count_is_def)
  have r: "int_range (next_crossing p 0 ?t)" "int_range (next_crossing p 0 ?t + 1)" using few by (simp_all add: next_crossing_length int_range_def)
  obtain o1 i1 rt1 d1 where n: "route_net E ?t None info ?rt = Ok (o1, i1, rt1)" "ctx_is E i1 d1 ?a" "count_is rt1 ?a (next_crossing p 0 ?t)"
    "registers E m (crossings p 0 ?t) ?rt rt1" "d_node d1 = node_location E \<longrightarrow> o1 \<noteq> None"
    using route_net_spec[OF c(4) cnt, of ?t None] r(1) m unfolding m by auto
  obtain o2 i2 rt2 d2 where u: "SNetRouteUpdate E i1 o1 p rt1 = Ok (o2, i2, rt2)" "ctx_is E i2 d2 ?a" "\<exists>ss. rt_ins rt2 = rt_ins rt1 @ ss"
    using SNetRouteUpdate_spec[OF n(2,3), of p o1] r(2) n(5) by auto
  have "map tag i2 = [prevDest E, infoCounter E, -1]" using c(3) route_net_tags[OF n(1)] route_tags[OF u(1)] by simp
  from exit_context[OF this u(2), of rt2] obtain i3 where e: "SNetRouteDynamicExit E i2 rt2 = Ok (i3, rt2\<lparr>rt_counters := (rt_counters rt2)[?a := None]\<rparr>)"
    by (elim exE)
  have "m \<in> set (in_dests (node_location E) m (crossings p 0 ?t))"
    using cross m(1) by (force simp: in_dests_def)
  then have "m \<in> fst ` set (rt_ins rt2)" using n(4) u(3) unfolding registers_def by (metis Un_iff image_Un list.set_map set_append)
  then have "dest_key m \<in> (dest_key \<circ> fst) ` set (rt_ins rt2)" by auto
  then show ?thesis using c n(1) u(1) e net m by (auto simp: SNetRouteNewDynamic_def net_of_def simp del: bindR_eq_Ok)
qed

text \<open>
  When the record comes from another node, the numbering starts from that node: a crossing on the way to it is not
  counted, and the destination of the record is not among the registered ones. The instance spans nodes 1 and 2, the
  replicator is on node 0 and node 2 receives the record of the second crossing from node 1.
\<close>

definition second_hop_env :: route_env where
  "second_hop_env = \<lparr>node_location = 2, prevDest = 0, infoCounter = 1\<rparr>"

definition second_hop_dest :: snet_dest where
  "second_hop_dest = \<lparr>d_node = 1, d_dest = 1, d_parent = 5, d_parentNode = 0, d_dynamicIndex = 3, d_dynamicLoc = 0\<rparr>"

definition second_hop_net :: "int \<Rightarrow> rnet" where
  "second_hop_net loc = Go 1 (Go 2 Done)"

lemma route_dynamic_second_hop_lost:
  "(1, 1, 2) \<in> set (crossings 0 0 (second_hop_net 0)) \<and>
   (\<exists>rt. SNetRouteNewDynamic second_hop_env (\<lambda>_. net_of second_hop_env second_hop_net) second_hop_dest \<lparr>rt_counters = [], rt_outs = [], rt_ins = [], rt_streams = 0\<rparr> = Ok rt \<and>
      dest_key second_hop_dest \<notin> (dest_key \<circ> fst) ` set (rt_ins rt))"
proof
  show "(1, 1, 2) \<in> set (crossings 0 0 (second_hop_net 0))" by (simp add: second_hop_net_def)
  show "\<exists>rt. SNetRouteNewDynamic second_hop_env (\<lambda>_. net_of second_hop_env second_hop_net) second_hop_dest \<lparr>rt_counters = [], rt_outs = [], rt_ins = [], rt_streams = 0\<rparr> = Ok rt \<and>
      dest_key second_hop_dest \<notin> (dest_key \<circ> fst) ` set (rt_ins rt)"
    by (simp add: SNetRouteNewDynamic_def net_of_def second_hop_net_def second_hop_env_def second_hop_dest_def SNetInfoInit_def SNetDestCopy_def
        SNetRouteDynamicEnter_def SNetRouteDynamicExit_def SNetRouteUpdate_def put_dest_def route_counter_def entity_out_def SNetDistribIsNodeLocation_def
        c_int_def int_range_def dest_key_def Let_def)
qed

section \<open>Both ends of a route\<close>

text \<open>
  When nodes \<open>a\<close> and \<open>b\<close> make the same sequence of calls they number the crossings alike: the
  destinations that \<open>a\<close> sends to \<open>b\<close> arrive there, with the sender put in as the node, as the destinations for which
  \<open>b\<close> has registered an incoming stream from \<open>a\<close>, in the same order. The destinations of one node are pairwise different and no registered stream is NULL.
\<close>

lemma route_ends_match:
  assumes "0 \<le> new_tag" and "length (crossings 0 0 t) < 2 ^ 31" and "input \<noteq> None"
  shows "\<exists>oa ia ra ob ib rb. route_start a new_tag t input = Ok (oa, ia, ra) \<and> route_start b new_tag t input = Ok (ob, ib, rb) \<and>
     map (mpi_dest a) (filter (\<lambda>d. d_node d = b) (map fst (rt_outs ra))) = map Ok (filter (\<lambda>d. d_node d = a) (map fst (rt_ins rb))) \<and>
     distinct (map (dest_key \<circ> fst) (rt_ins rb)) \<and> None \<notin> snd ` set (rt_outs ra @ rt_ins rb)"
proof -
  obtain oa ia ra where a: "route_start a new_tag t input = Ok (oa, ia, ra)" "map fst (rt_outs ra) = out_dests a root_dest (crossings 0 0 t)"
    "None \<notin> snd ` set (rt_outs ra @ rt_ins ra)" using route_start_spec[OF assms, of a] by blast
  obtain ob ib rb where b: "route_start b new_tag t input = Ok (ob, ib, rb)" "map fst (rt_ins rb) = in_dests b root_dest (crossings 0 0 t)"
    "None \<notin> snd ` set (rt_outs rb @ rt_ins rb)" using route_start_spec[OF assms, of b] by blast
  have "map (mpi_dest a) xs = map Ok (map (\<lambda>d. d\<lparr>d_node := a\<rparr>) xs)" for xs by (simp add: mpi_dest_eq)
  then have "map (mpi_dest a) (filter (\<lambda>d. d_node d = b) (map fst (rt_outs ra))) = map Ok (filter (\<lambda>d. d_node d = a) (map fst (rt_ins rb)))"
    unfolding a(2) b(2) ends_match[symmetric] .
  moreover have "distinct (map dest_key (map fst (rt_ins rb)))" unfolding b(2) by (rule in_keys_distinct[OF crossings_distinct])
  then have "distinct (map (dest_key \<circ> fst) (rt_ins rb))" by simp
  moreover have "None \<notin> snd ` set (rt_outs ra @ rt_ins rb)" using a(3) b(3) by auto
  ultimately show ?thesis using a(1) b(1) by blast
qed

end
