(* ===== verification/Input_Manager.thy ===== *)
theory Input_Manager
  imports Distrib_Common Snet_Stream Snet_Record
begin

text \<open>
  The input manager of a node (\<open>distrib/common/imanager.c\<close>): a thread that receives the messages of the other nodes and
  writes the records to the streams of their destinations. It never waits for a stream: a record that does not fit is
  kept in a list and the sender is told to stop; when the reader has emptied the stream, its callback
  puts the buffer on the list \<open>unblocked\<close> and sends the manager a message to go on. The model has the manager thread and one
  reader thread per stream, interleaved at the places where they take a mutex.
\<close>

section \<open>State\<close>

text \<open>
  A reader is between two calls of \<open>SNetStreamRead\<close>, has taken an item and is about to run the callback (waiting for
  the mutex of the buffer), or holds that mutex and waits for \<open>unblockedMutex\<close>.
\<close>

datatype reader_pc = RIdle | RCall | RHold

text \<open>
  A buffer with the stream of its descriptor; \<open>b_freed\<close> is set when the callback has freed it. The last four fields
  are the state of the reader and, for the statements below, the records given to \<open>HandleRecord\<close>, the records read from the stream
  and the block (\<open>True\<close>) and unblock messages sent for the buffer.
\<close>

record 'r snet_buffer =
  b_done :: bool
  b_counter :: "32 word"
  b_dest :: snet_dest
  b_list :: "'r snet_record snet_list"
  b_stream :: "'r snet_record snet_stream"
  b_freed :: bool
  b_reader :: reader_pc
  b_recvd :: "'r snet_record list"
  b_got :: "'r snet_record option list"
  b_flow :: "bool list"

text \<open>
  The manager waits for a message, is about to lock the buffer for a record, or is in \<open>UpdateBlocked\<close>: it holds
  \<open>unblockedMutex\<close> between two buffers, waits for the mutex of a buffer in addition, or holds both.
\<close>

datatype 'r manager_pc = MIdle | MRec nat "'r snet_record" snet_dest | MUpdating | MLock nat | MWrite nat | MStopped

text \<open>Messages, and the calls of functions of other components: of the distribution layer, the output manager and the references.\<close>

datatype 'r snet_msg =
    snet_rec "'r snet_record" snet_dest
  | snet_block snet_dest
  | snet_unblock snet_dest
  | snet_ref_set 'r int
  | snet_ref_update 'r int
  | snet_ref_fetch 'r int
  | snet_stop
  | snet_unknown

datatype 'r im_call =
    BlockDest snet_dest | UnblockDest snet_dest | OutputBlock snet_dest | OutputUnblock snet_dest
  | RefSet 'r int | RefUpdate 'r int | SendData 'r int | OutputStop | ReferenceDestroy | DistribStop

record 'r imanager =
  im_bufs :: "'r snet_buffer list"
  im_dests :: "(snet_dest, nat) snet_map"
  im_new :: "(snet_dest \<times> 'r snet_record snet_stream) snet_list"
  im_unblocked :: "nat snet_list"
  im_updates :: nat
  im_pc :: "'r manager_pc"
  im_calls :: "'r im_call list"

definition REC_terminate_descr :: int where "REC_terminate_descr = 1104"

definition buf_at :: "'r imanager \<Rightarrow> nat \<Rightarrow> 'r snet_buffer res" where
  "buf_at s b =
     (if b < length (im_bufs s) then (if b_freed (im_bufs s ! b) then Err UseAfterFree else Ok (im_bufs s ! b)) else Err OutOfBounds)"

definition put_buf :: "'r imanager \<Rightarrow> nat \<Rightarrow> 'r snet_buffer \<Rightarrow> 'r imanager" where
  "put_buf s b buf = s\<lparr>im_bufs := (im_bufs s)[b := buf]\<rparr>"

section \<open>Operations\<close>

definition SNetInputManagerInit :: "'r imanager res" where
  "SNetInputManagerInit =
     bindR (ListCreate []) (\<lambda>ns. bindR (ListCreate []) (\<lambda>ub. bindR (MapCreate []) (\<lambda>m.
     Ok \<lparr>im_bufs = [], im_dests = m, im_new = ns, im_unblocked = ub, im_updates = 0, im_pc = MIdle, im_calls = []\<rparr>)))"

definition SNetInputManagerNewIn :: "'r imanager \<Rightarrow> snet_dest \<Rightarrow> 'r snet_record snet_stream \<Rightarrow> 'r imanager res" where
  "SNetInputManagerNewIn s dest stream = bindR (ListAppendEnd (im_new s) (dest, stream)) (\<lambda>l. Ok (s\<lparr>im_new := l\<rparr>))"

text \<open>A new stream gets a buffer; the address of the buffer, its descriptor and the stream is the position in \<open>im_bufs\<close>.\<close>

definition add_incoming :: "'r imanager \<Rightarrow> snet_dest \<times> 'r snet_record snet_stream \<Rightarrow> 'r imanager res" where
  "add_incoming s = (\<lambda>(dest, stream).
     let b = length (im_bufs s) in
     bindR (ListCreate []) (\<lambda>l.
     bindR (SNetStreamOpen stream b b (CHR ''w'')) (\<lambda>(_, str).
     let str = SNetStreamRegisterReadCallback str (Some 0) (Some b) in
     bindR (MapSet SNetDestCompare (im_dests s) dest b) (\<lambda>m.
     Ok (s\<lparr>im_bufs := im_bufs s @
         [\<lparr>b_done = False, b_counter = 0, b_dest = dest, b_list = l, b_stream = str, b_freed = False, b_reader = RIdle,
           b_recvd = [], b_got = [], b_flow = []\<rparr>],
       im_dests := m\<rparr>)))))"

definition UpdateIncoming :: "'r imanager \<Rightarrow> 'r imanager res" where
  "UpdateIncoming s = bindR (LIST_DEQUEUE_EACH (im_new s)) (\<lambda>(ts, l). foldR add_incoming (s\<lparr>im_new := l\<rparr>) ts)"

text \<open>
  \<open>HandleRecord\<close> up to the lock of the buffer: the destination is made known if it is not, then its buffer is looked up (and the destination
  forgotten with the last record). \<open>route dest\<close> are the destinations and stream sizes that \<open>SNetRouteNewDynamic\<close>
  registers by \<open>SNetInputManagerNewIn\<close>; they depend on the startup function that the compiler generated for the destination
  (theory \<open>Distrib_Common\<close>), so that they are left open here.
\<close>

definition HandleRecord_lookup :: "'r imanager \<Rightarrow> 'r snet_record \<Rightarrow> snet_dest \<Rightarrow> 'r imanager res" where
  "HandleRecord_lookup s rec dest =
     bindR (if SNetRecGetDescriptor rec = REC_terminate_descr
            then bindR (MapTake SNetDestCompare (im_dests s) dest) (\<lambda>(sd, m). Ok (sd, s\<lparr>im_dests := m\<rparr>))
            else bindR (MapGet SNetDestCompare (im_dests s) dest) (\<lambda>sd. Ok (sd, s))) (\<lambda>(sd, s).
     bindR (buf_at s sd) (\<lambda>d.
     case SNetStreamGetCallbackArg (b_stream d) of
       None \<Rightarrow> Err NullDeref
     | Some b \<Rightarrow> Ok (s\<lparr>im_pc := MRec b rec dest\<rparr>)))"

definition HandleRecord :: "(snet_dest \<Rightarrow> (snet_dest \<times> 32 word) list) \<Rightarrow> 'r imanager \<Rightarrow> 'r snet_record \<Rightarrow> snet_dest \<Rightarrow> 'r imanager res" where
  "HandleRecord route s rec dest =
     bindR (UpdateIncoming s) (\<lambda>s.
     bindR (MapContains SNetDestCompare (im_dests s) dest) (\<lambda>c.
     bindR (if c then Ok s
            else bindR (foldR (\<lambda>s (d, cap). SNetInputManagerNewIn s d (SNetStreamCreate (sint cap))) s (route dest)) UpdateIncoming) (\<lambda>s.
     HandleRecord_lookup s rec dest)))"

text \<open>The part of \<open>HandleRecord\<close> under the mutex of the buffer.\<close>

definition HandleRecord_locked :: "'r imanager \<Rightarrow> nat \<Rightarrow> 'r snet_record \<Rightarrow> snet_dest \<Rightarrow> 'r imanager res" where
  "HandleRecord_locked s b rec dest =
     bindR (buf_at s b) (\<lambda>buf.
     let buf = buf\<lparr>b_done := (if SNetRecGetDescriptor rec = REC_terminate_descr then True else b_done buf), b_recvd := b_recvd buf @ [rec]\<rparr> in
     bindR (if ListLength (b_list buf) = 0 then SNetStreamTryWrite (b_stream buf) (Some rec) else Ok (-1, b_stream buf)) (\<lambda>(r, str).
     if r = 0 then Ok (put_buf (s\<lparr>im_pc := MIdle\<rparr>) b (buf\<lparr>b_stream := str, b_counter := b_counter buf + 1\<rparr>))
     else
       bindR (ListAppendEnd (b_list buf) rec) (\<lambda>l.
       if ListLength l = 1
       then Ok (put_buf (s\<lparr>im_pc := MIdle, im_calls := im_calls s @ [BlockDest dest]\<rparr>) b (buf\<lparr>b_list := l, b_flow := b_flow buf @ [True]\<rparr>))
       else Ok (put_buf (s\<lparr>im_pc := MIdle\<rparr>) b (buf\<lparr>b_list := l\<rparr>)))))"

text \<open>
  \<open>UpdateBlocked\<close>: the head of the outer loop, and the inner loop with one attempt to write per step (the reader may take items in between).
\<close>

definition UpdateBlocked_next :: "'r imanager \<Rightarrow> 'r imanager res" where
  "UpdateBlocked_next s =
     (if ListLength (im_unblocked s) = 0 then Ok (s\<lparr>im_pc := MIdle\<rparr>)
      else bindR (list_dequeue (im_unblocked s)) (\<lambda>(b, l). Ok (s\<lparr>im_unblocked := l, im_pc := MLock b\<rparr>)))"

definition UpdateBlocked_end :: "'r imanager \<Rightarrow> nat \<Rightarrow> 'r snet_buffer \<Rightarrow> 'r imanager" where
  "UpdateBlocked_end s b buf =
     (if ListLength (b_list buf) = 0 \<and> \<not> b_done buf
      then put_buf (s\<lparr>im_pc := MUpdating, im_calls := im_calls s @ [UnblockDest (b_dest buf)]\<rparr>) b (buf\<lparr>b_flow := b_flow buf @ [False]\<rparr>)
      else put_buf (s\<lparr>im_pc := MUpdating\<rparr>) b buf)"

definition UpdateBlocked_write :: "'r imanager \<Rightarrow> nat \<Rightarrow> 'r imanager res" where
  "UpdateBlocked_write s b =
     bindR (buf_at s b) (\<lambda>buf.
     if ListLength (b_list buf) = 0 then Ok (UpdateBlocked_end s b buf)
     else
       bindR (list_dequeue (b_list buf)) (\<lambda>(rec, l).
       bindR (SNetStreamTryWrite (b_stream buf) (Some rec)) (\<lambda>(r, str).
       if r = 0 then Ok (put_buf s b (buf\<lparr>b_list := l, b_stream := str, b_counter := b_counter buf + 1\<rparr>))
       else bindR (ListAppendStart l rec) (\<lambda>l. Ok (UpdateBlocked_end s b (buf\<lparr>b_list := l\<rparr>))))))"

text \<open>
  \<open>ReadCallback\<close> under the mutex of the buffer: it goes on to take \<open>unblockedMutex\<close> (\<open>RHold\<close>), or it is finished, in the last case with
  the buffer freed.
\<close>

definition ReadCallback :: "'r snet_buffer \<Rightarrow> 'r snet_buffer" where
  "ReadCallback buf =
     (let buf = buf\<lparr>b_counter := b_counter buf - 1\<rparr> in
      if b_counter buf = 0 then
        (if ListLength (b_list buf) > 0 then buf\<lparr>b_reader := RHold\<rparr>
         else if b_done buf then buf\<lparr>b_freed := True, b_reader := RIdle\<rparr>
         else buf\<lparr>b_reader := RIdle\<rparr>)
      else buf\<lparr>b_reader := RIdle\<rparr>)"

definition ReadCallback_unblock :: "'r imanager \<Rightarrow> nat \<Rightarrow> 'r snet_buffer \<Rightarrow> 'r imanager res" where
  "ReadCallback_unblock s b buf =
     bindR (ListAppendEnd (im_unblocked s) b) (\<lambda>l.
     Ok (put_buf (s\<lparr>im_unblocked := l, im_updates := (if ListLength l = 1 then im_updates s + 1 else im_updates s)\<rparr>) b (buf\<lparr>b_reader := RIdle\<rparr>)))"

section \<open>Threads\<close>

text \<open>The main loop of \<open>SNetInputManager\<close>: one message. Update messages come from the node itself and are counted in \<open>im_updates\<close>.\<close>

fun receive :: "(snet_dest \<Rightarrow> (snet_dest \<times> 32 word) list) \<Rightarrow> 'r imanager \<Rightarrow> 'r snet_msg \<Rightarrow> 'r imanager res" where
  "receive route s (snet_rec rec dest) = HandleRecord route s rec dest"
| "receive route s (snet_block dest) = Ok (s\<lparr>im_calls := im_calls s @ [OutputBlock dest]\<rparr>)"
| "receive route s (snet_unblock dest) = Ok (s\<lparr>im_calls := im_calls s @ [OutputUnblock dest]\<rparr>)"
| "receive route s (snet_ref_set ref data) = Ok (s\<lparr>im_calls := im_calls s @ [RefSet ref data]\<rparr>)"
| "receive route s (snet_ref_update ref v) = Ok (s\<lparr>im_calls := im_calls s @ [RefUpdate ref v]\<rparr>)"
| "receive route s (snet_ref_fetch ref dst) = Ok (s\<lparr>im_calls := im_calls s @ [SendData ref dst, RefUpdate ref (-1)]\<rparr>)"
| "receive route s snet_stop =
     bindR (assertR (MapSize (im_dests s) = 0)) (\<lambda>_.
     Ok (s\<lparr>im_pc := MStopped, im_calls := im_calls s @ [OutputStop, ReferenceDestroy, DistribStop]\<rparr>))"
| "receive route s snet_unknown = Err FatalError"

text \<open>
  The next step of the manager and of a reader; a thread that has to wait does nothing. The mutex of buffer \<open>b\<close> is held by the manager in
  \<open>MWrite b\<close> and by the reader in \<open>RHold\<close>, \<open>unblockedMutex\<close> by the manager in \<open>UpdateBlocked\<close>.
\<close>

definition lock_free :: "'r imanager \<Rightarrow> nat \<Rightarrow> bool" where
  "lock_free s b \<longleftrightarrow> \<not> (b < length (im_bufs s) \<and> b_reader (im_bufs s ! b) = RHold)"

fun in_update :: "'r manager_pc \<Rightarrow> bool" where
  "in_update MUpdating = True"
| "in_update (MLock b) = True"
| "in_update (MWrite b) = True"
| "in_update _ = False"

fun manager_step :: "'r manager_pc \<Rightarrow> 'r imanager \<Rightarrow> 'r imanager res" where
  "manager_step MIdle s = (if im_updates s > 0 then Ok (s\<lparr>im_updates := im_updates s - 1, im_pc := MUpdating\<rparr>) else Ok s)"
| "manager_step (MRec b rec dest) s = (if lock_free s b then HandleRecord_locked s b rec dest else Ok s)"
| "manager_step MUpdating s = UpdateBlocked_next s"
| "manager_step (MLock b) s = (if lock_free s b then Ok (s\<lparr>im_pc := MWrite b\<rparr>) else Ok s)"
| "manager_step (MWrite b) s = UpdateBlocked_write s b"
| "manager_step MStopped s = Ok s"

definition reader_step :: "'r imanager \<Rightarrow> nat \<Rightarrow> 'r imanager res" where
  "reader_step s b =
     (if b < length (im_bufs s) then
        (let buf = im_bufs s ! b in
         case b_reader buf of
           RIdle \<Rightarrow>
             if s_count (b_stream buf) = 0 then Ok s
             else bindR (SNetStreamRead (b_stream buf)) (\<lambda>(x, str, _).
               Ok (put_buf s b (buf\<lparr>b_stream := str, b_got := b_got buf @ [x],
                 b_reader := (if callback_func str = None then RIdle else RCall)\<rparr>)))
         | RCall \<Rightarrow>
             if im_pc s = MWrite b then Ok s
             else if b_freed buf then Err UseAfterFree
             else Ok (put_buf s b (ReadCallback buf))
         | RHold \<Rightarrow> if in_update (im_pc s) then Ok s else ReadCallback_unblock s b buf)
      else Ok s)"

text \<open>
  A schedule: messages from other nodes (taken when the manager waits for one), streams registered by the creation of the
  network with their capacities, steps of the manager and steps of readers.
\<close>

datatype 'r im_event = Message "'r snet_msg" | NewStream snet_dest "32 word" | Manager | Reader nat

fun im_exec :: "(snet_dest \<Rightarrow> (snet_dest \<times> 32 word) list) \<Rightarrow> 'r imanager \<Rightarrow> 'r im_event \<Rightarrow> 'r imanager res" where
  "im_exec route s (Message m) = (if im_pc s = MIdle then receive route s m else Ok s)"
| "im_exec route s (NewStream dest cap) = SNetInputManagerNewIn s dest (SNetStreamCreate (sint cap))"
| "im_exec route s Manager = manager_step (im_pc s) s"
| "im_exec route s (Reader b) = reader_step s b"

definition SNetInputManager :: "(snet_dest \<Rightarrow> (snet_dest \<times> 32 word) list) \<Rightarrow> 'r im_event list \<Rightarrow> 'r imanager res" where
  "SNetInputManager route es = bindR SNetInputManagerInit (\<lambda>s. foldR (im_exec route) s es)"

section \<open>Invariant\<close>

datatype buf_phase = PFree | PLocking | PWriting

fun phase :: "'r manager_pc \<Rightarrow> nat \<Rightarrow> buf_phase" where
  "phase (MLock c) b = (if c = b then PLocking else PFree)"
| "phase (MWrite c) b = (if c = b then PWriting else PFree)"
| "phase _ b = PFree"

text \<open>The flow control messages of a buffer alternate, beginning with a block.\<close>

definition alternates :: "bool list \<Rightarrow> bool" where
  "alternates fl \<longleftrightarrow> fl = map even [0..<length fl]"

definition blocked :: "bool list \<Rightarrow> bool" where
  "blocked fl \<longleftrightarrow> odd (length fl)"

text \<open>
  A buffer \<open>b\<close>, where \<open>q\<close> tells whether it is in \<open>unblocked\<close>: the counter is the number of items in the stream plus a pending callback;
  what was received is what was read, followed by the stream and the list; the sender is blocked as long as the list is not empty; and a
  buffer with a non-empty list has an item left to be read, or is on its way through \<open>unblocked\<close>.
\<close>

definition ibuf_ok :: "nat \<Rightarrow> bool \<Rightarrow> buf_phase \<Rightarrow> 'r snet_buffer \<Rightarrow> bool" where
  "ibuf_ok b q ph buf \<longleftrightarrow>
     stream_inv (b_stream buf) \<and> s_size (b_stream buf) < 2 ^ 31 \<and> callback_arg (b_stream buf) = Some b \<and> callback_func (b_stream buf) \<noteq> None \<and>
     list_inv (b_list buf) \<and>
     unat (b_counter buf) = s_count (b_stream buf) + (if b_reader buf = RCall then 1 else 0) \<and>
     map Some (b_recvd buf) = b_got buf @ contents (b_stream buf) @ map Some (list_of (b_list buf)) \<and>
     alternates (b_flow buf) \<and> (\<not> b_done buf \<longrightarrow> blocked (b_flow buf) = (0 < lused (b_list buf) \<or> ph = PWriting)) \<and>
     (b_freed buf \<longrightarrow> b_done buf \<and> b_counter buf = 0 \<and> lused (b_list buf) = 0 \<and> ph = PFree) \<and>
     (b_reader buf = RHold \<longrightarrow> b_counter buf = 0 \<and> 0 < lused (b_list buf) \<and> ph = PFree \<and> \<not> q) \<and>
     (q \<longrightarrow> b_counter buf = 0 \<and> 0 < lused (b_list buf) \<and> b_reader buf = RIdle \<and> ph = PFree) \<and>
     (ph = PLocking \<longrightarrow> b_counter buf = 0 \<and> 0 < lused (b_list buf) \<and> b_reader buf = RIdle) \<and>
     (0 < lused (b_list buf) \<longrightarrow> b_counter buf \<noteq> 0 \<or> q \<or> b_reader buf = RHold \<or> ph \<noteq> PFree)"

definition empty_stream :: "'r snet_record snet_stream \<Rightarrow> bool" where
  "empty_stream s \<longleftrightarrow> stream_inv s \<and> s_count s = 0 \<and> s_size s < 2 ^ 31"

definition dests_ok :: "'r imanager \<Rightarrow> bool" where
  "dests_ok s \<longleftrightarrow> key_ok dest_key (im_dests s) \<and>
     (\<forall>k b. key_lookup dest_key (im_dests s) k = Some b \<longrightarrow> b < length (im_bufs s) \<and> \<not> b_done (im_bufs s ! b)) \<and>
     (\<forall>k l b. key_lookup dest_key (im_dests s) k = Some b \<longrightarrow> key_lookup dest_key (im_dests s) l = Some b \<longrightarrow> k = l)"

definition pc_ok :: "'r imanager \<Rightarrow> bool" where
  "pc_ok s \<longleftrightarrow>
     (\<forall>b rec dest. im_pc s = MRec b rec dest \<longrightarrow> b < length (im_bufs s) \<and> \<not> b_done (im_bufs s ! b) \<and>
        (SNetRecGetDescriptor rec = REC_terminate_descr \<longrightarrow> (\<forall>k. key_lookup dest_key (im_dests s) k \<noteq> Some b))) \<and>
     (\<forall>b. phase (im_pc s) b \<noteq> PFree \<longrightarrow> b < length (im_bufs s))"

definition queue_inv :: "'r imanager \<Rightarrow> bool" where
  "queue_inv s \<longleftrightarrow> list_inv (im_unblocked s) \<and> distinct (list_of (im_unblocked s)) \<and> set (list_of (im_unblocked s)) \<subseteq> {..<length (im_bufs s)} \<and>
     (0 < lused (im_unblocked s) \<longrightarrow> 0 < im_updates s \<or> in_update (im_pc s) \<or> im_pc s = MStopped)"

definition bufs_ok :: "'r imanager \<Rightarrow> bool" where
  "bufs_ok s \<longleftrightarrow> (\<forall>b<length (im_bufs s). ibuf_ok b (b \<in> set (list_of (im_unblocked s))) (phase (im_pc s) b) (im_bufs s ! b))"

definition new_ok :: "'r imanager \<Rightarrow> bool" where
  "new_ok s \<longleftrightarrow> list_inv (im_new s) \<and> (\<forall>(d, str)\<in>set (list_of (im_new s)). empty_stream str)"

definition im_inv :: "'r imanager \<Rightarrow> bool" where
  "im_inv s \<longleftrightarrow> new_ok s \<and> dests_ok s \<and> queue_inv s \<and> bufs_ok s \<and> pc_ok s"

lemma flow_snoc: "alternates (fl @ [x]) \<longleftrightarrow> alternates fl \<and> x = even (length fl)"
  by (simp add: alternates_def)

lemma blocked_snoc: "blocked (fl @ [x]) \<longleftrightarrow> \<not> blocked fl"
  by (simp add: blocked_def)

lemma unat_dec: "w \<noteq> 0 \<Longrightarrow> unat (w - 1 :: 32 word) = unat w - 1"
  by (simp add: unat_minus_one)

lemma unat_inc: "unat (w :: 32 word) < 2 ^ 31 + 1 \<Longrightarrow> unat (w + 1) = unat w + 1"
  by (simp add: unat_word_ariths)

lemma stream_try_write:
  assumes "stream_inv s"
  shows "s_count s = s_size s \<Longrightarrow> SNetStreamTryWrite s x = Ok (-1, s)"
    and "s_count s \<noteq> s_size s \<Longrightarrow> \<exists>s'. SNetStreamTryWrite s x = Ok (0, s') \<and> stream_inv s' \<and> contents s' = contents s @ [x] \<and>
      s_size s' = s_size s \<and> s_count s' = s_count s + 1 \<and> callback_arg s' = callback_arg s \<and> callback_func s' = callback_func s"
proof -
  show "s_count s = s_size s \<Longrightarrow> SNetStreamTryWrite s x = Ok (-1, s)" by (simp add: SNetStreamTryWrite_def)
  assume ne: "s_count s \<noteq> s_size s"
  then have "s_count s < s_size s" using assms by (auto simp: stream_inv_def)
  then obtain s' where w: "SNetStreamWrite s x = Ok (s', s_count s = 0, is_poll s)" "stream_inv s'" "contents s' = contents s @ [x]"
    "s_size s' = s_size s" "s_count s' = s_count s + 1" using SNetStreamWrite_spec[OF assms] by blast
  moreover have "callback_arg s' = callback_arg s" "callback_func s' = callback_func s"
    using w(1) by (auto simp: SNetStreamWrite_def split: if_splits)
  ultimately show "\<exists>s'. SNetStreamTryWrite s x = Ok (0, s') \<and> stream_inv s' \<and> contents s' = contents s @ [x] \<and>
      s_size s' = s_size s \<and> s_count s' = s_count s + 1 \<and> callback_arg s' = callback_arg s \<and> callback_func s' = callback_func s"
    using ne by (simp add: SNetStreamTryWrite_def)
qed

lemma stream_take:
  assumes "stream_inv s" and "s_count s \<noteq> 0"
  shows "\<exists>x s' nf. SNetStreamRead s = Ok (x, s', nf) \<and> stream_inv s' \<and> contents s = x # contents s' \<and>
    s_size s' = s_size s \<and> s_count s' + 1 = s_count s \<and> callback_arg s' = callback_arg s \<and> callback_func s' = callback_func s"
proof -
  obtain x s' where r: "SNetStreamRead s = Ok (x, s', s_count s = s_size s)" "stream_inv s'" "contents s = x # contents s'"
    "s_size s' = s_size s" "s_count s' = s_count s - 1" using SNetStreamRead_spec[OF assms(1)] assms(2) by blast
  moreover have "callback_arg s' = callback_arg s" "callback_func s' = callback_func s"
    using r(1) by (auto simp: SNetStreamRead_def split: if_splits)
  ultimately show ?thesis using assms(2) by auto
qed

subsection \<open>One buffer\<close>

lemma buf_counter:
  assumes "ibuf_ok b q ph buf"
  shows "unat (b_counter buf) \<le> s_size (b_stream buf) + 1" and "s_size (b_stream buf) < 2 ^ 31"
proof -
  have c: "unat (b_counter buf) = s_count (b_stream buf) + (if b_reader buf = RCall then 1 else 0)" "stream_inv (b_stream buf)"
    using assms unfolding ibuf_ok_def by blast+
  from c(2) have "s_count (b_stream buf) \<le> s_size (b_stream buf)" by (simp add: stream_inv_def)
  then show "unat (b_counter buf) \<le> s_size (b_stream buf) + 1" unfolding c(1) by simp
  show "s_size (b_stream buf) < 2 ^ 31" using assms unfolding ibuf_ok_def by blast
qed

lemma buf_inc: "ibuf_ok b q ph buf \<Longrightarrow> unat (b_counter buf + 1) = unat (b_counter buf) + 1"
  by (rule unat_inc) (use buf_counter[of b q ph buf] in linarith)

lemma buf_order: "ibuf_ok b q ph buf \<Longrightarrow> map Some (b_recvd buf) = b_got buf @ contents (b_stream buf) @ map Some (list_of (b_list buf))"
  unfolding ibuf_ok_def by blast

lemma buf_flow:
  "ibuf_ok b q ph buf \<Longrightarrow> alternates (b_flow buf) \<and> (\<not> b_done buf \<longrightarrow> ph \<noteq> PWriting \<longrightarrow> blocked (b_flow buf) = (list_of (b_list buf) \<noteq> []))"
  unfolding ibuf_ok_def list_of_Nil_iff by blast

lemma buf_read:
  assumes "ibuf_ok b q ph buf" and "b_reader buf = RIdle" and "s_count (b_stream buf) \<noteq> 0"
  shows "\<exists>x str nf. SNetStreamRead (b_stream buf) = Ok (x, str, nf) \<and> callback_func str \<noteq> None \<and> s_count str + 1 = s_count (b_stream buf) \<and>
     ibuf_ok b q ph (buf\<lparr>b_stream := str, b_got := b_got buf @ [x], b_reader := RCall\<rparr>)"
proof -
  have inv: "stream_inv (b_stream buf)" using assms(1) by (simp add: ibuf_ok_def)
  obtain x str nf where r: "SNetStreamRead (b_stream buf) = Ok (x, str, nf)" "stream_inv str" "contents (b_stream buf) = x # contents str"
    "s_size str = s_size (b_stream buf)" "s_count str + 1 = s_count (b_stream buf)"
    "callback_arg str = callback_arg (b_stream buf)" "callback_func str = callback_func (b_stream buf)"
    using stream_take[OF inv assms(3)] by blast
  have "b_counter buf \<noteq> 0" using assms by (auto simp: ibuf_ok_def)
  then have "ibuf_ok b q ph (buf\<lparr>b_stream := str, b_got := b_got buf @ [x], b_reader := RCall\<rparr>)"
    using assms r(2-7) by (auto simp: ibuf_ok_def)
  moreover have "callback_func str \<noteq> None" using assms(1) r(7) by (simp add: ibuf_ok_def)
  ultimately show ?thesis using r(1,5) by blast
qed

lemma buf_callback:
  assumes "ibuf_ok b q ph buf" and "b_reader buf = RCall" and "ph \<noteq> PWriting"
  shows "\<not> b_freed buf" and "ibuf_ok b q ph (ReadCallback buf)" and "b_done (ReadCallback buf) = b_done buf"
proof -
  have c: "unat (b_counter buf) = s_count (b_stream buf) + 1" using assms by (simp add: ibuf_ok_def)
  then have c0: "b_counter buf \<noteq> 0" by auto
  then show "\<not> b_freed buf" using assms(1) by (auto simp: ibuf_ok_def)
  have c1: "unat (b_counter buf - 1) = s_count (b_stream buf)" using unat_dec[OF c0] c by simp
  have ph: "ph = PFree" "\<not> q" using assms by (cases ph; auto simp: ibuf_ok_def)+
  show "ibuf_ok b q ph (ReadCallback buf)"
    using assms(1) ph c0 c1 by (auto simp: ibuf_ok_def ReadCallback_def Let_def ListLength_def)
  show "b_done (ReadCallback buf) = b_done buf" by (simp add: ReadCallback_def Let_def)
qed

lemma buf_unblock: "ibuf_ok b q ph buf \<Longrightarrow> b_reader buf = RHold \<Longrightarrow> ibuf_ok b True ph (buf\<lparr>b_reader := RIdle\<rparr>)"
  by (auto simp: ibuf_ok_def)

lemma buf_lock: "ibuf_ok b True ph buf \<Longrightarrow> ibuf_ok b False PLocking buf"
  by (auto simp: ibuf_ok_def)

lemma buf_locked: "ibuf_ok b q PLocking buf \<Longrightarrow> ibuf_ok b q PWriting buf"
  by (auto simp: ibuf_ok_def)

lemma buf_end:
  assumes "ibuf_ok b q PWriting buf" and "lused (b_list buf) = 0 \<or> s_count (b_stream buf) = s_size (b_stream buf)"
  shows "ibuf_ok b q PFree (if ListLength (b_list buf) = 0 \<and> \<not> b_done buf then buf\<lparr>b_flow := b_flow buf @ [False]\<rparr> else buf)"
proof -
  have "0 < s_size (b_stream buf)" using assms(1) by (simp add: ibuf_ok_def stream_inv_def)
  then have c: "lused (b_list buf) = 0 \<or> b_counter buf \<noteq> 0" using assms by (auto simp: ibuf_ok_def)
  show ?thesis
  proof (cases "ListLength (b_list buf) = 0 \<and> \<not> b_done buf")
    case True
    then have "blocked (b_flow buf)" using assms(1) by (simp add: ibuf_ok_def)
    then show ?thesis using True assms(1) c by (auto simp: ibuf_ok_def ListLength_def flow_snoc blocked_snoc) (simp_all add: blocked_def)
  next
    case False
    then show ?thesis using assms(1) c unfolding if_not_P[OF False] by (auto simp: ibuf_ok_def ListLength_def)
  qed
qed

lemma buf_write_one:
  assumes "ibuf_ok b q PWriting buf" and "lused (b_list buf) \<noteq> 0" and "s_count (b_stream buf) \<noteq> s_size (b_stream buf)"
  shows "\<exists>rec l str. list_dequeue (b_list buf) = Ok (rec, l) \<and> SNetStreamTryWrite (b_stream buf) (Some rec) = Ok (0, str) \<and>
     s_count str = s_count (b_stream buf) + 1 \<and> lused l + 1 = lused (b_list buf) \<and>
     ibuf_ok b q PWriting (buf\<lparr>b_list := l, b_stream := str, b_counter := b_counter buf + 1\<rparr>)"
proof -
  have inv: "stream_inv (b_stream buf)" "list_inv (b_list buf)" using assms(1) by (simp_all add: ibuf_ok_def)
  obtain l where d: "list_dequeue (b_list buf) = Ok (hd (list_of (b_list buf)), l)" "list_inv l" "list_of l = tl (list_of (b_list buf))" "lused l = lused (b_list buf) - 1"
    using list_dequeue_spec[OF inv(2)] assms(2) by blast
  let ?r = "hd (list_of (b_list buf))"
  obtain str where w: "SNetStreamTryWrite (b_stream buf) (Some ?r) = Ok (0, str)" "stream_inv str" "contents str = contents (b_stream buf) @ [Some ?r]"
    "s_size str = s_size (b_stream buf)" "s_count str = s_count (b_stream buf) + 1"
    "callback_arg str = callback_arg (b_stream buf)" "callback_func str = callback_func (b_stream buf)"
    using stream_try_write(2)[OF inv(1) assms(3), of "Some ?r"] by blast
  have l: "list_of (b_list buf) = ?r # list_of l" using d(3) assms(2) list_of_Nil_iff[of "b_list buf"] by (simp del: list_of_Nil_iff)
  have c: "unat (b_counter buf + 1) = unat (b_counter buf) + 1" by (rule buf_inc[OF assms(1)])
  then have "b_counter buf + 1 \<noteq> 0" by auto
  moreover have "map Some (list_of (b_list buf)) = Some ?r # map Some (list_of l)" by (subst l) simp
  ultimately have "ibuf_ok b q PWriting (buf\<lparr>b_list := l, b_stream := str, b_counter := b_counter buf + 1\<rparr>)"
    using assms(1) w(2-7) d(2) c by (auto simp: ibuf_ok_def)
  then show ?thesis using d w(1,5) assms(2) by auto
qed

lemma buf_write_full:
  assumes "ibuf_ok b q PWriting buf" and "lused (b_list buf) \<noteq> 0" and "s_count (b_stream buf) = s_size (b_stream buf)"
  shows "\<exists>rec l l'. list_dequeue (b_list buf) = Ok (rec, l) \<and> SNetStreamTryWrite (b_stream buf) (Some rec) = Ok (-1, b_stream buf) \<and>
     ListAppendStart l rec = Ok l' \<and> lused l' = lused (b_list buf) \<and> ibuf_ok b q PWriting (buf\<lparr>b_list := l'\<rparr>)"
proof -
  have inv: "stream_inv (b_stream buf)" "list_inv (b_list buf)" using assms(1) by (simp_all add: ibuf_ok_def)
  obtain l where d: "list_dequeue (b_list buf) = Ok (hd (list_of (b_list buf)), l)" "list_inv l" "list_of l = tl (list_of (b_list buf))"
    using list_dequeue_spec[OF inv(2)] assms(2) by blast
  obtain l' where a: "ListAppendStart l (hd (list_of (b_list buf))) = Ok l'" "list_inv l'" "list_of l' = hd (list_of (b_list buf)) # list_of l"
    using ListAppendStart_spec[OF d(2)] by blast
  have l: "list_of l' = list_of (b_list buf)" using a(3) d(3) assms(2) list_of_Nil_iff[of "b_list buf"] by (simp del: list_of_Nil_iff)
  then have "lused l' = lused (b_list buf)" using length_list_of[of l'] by simp
  moreover have "ibuf_ok b q PWriting (buf\<lparr>b_list := l'\<rparr>)" using assms(1) a(2) l calculation by (simp add: ibuf_ok_def)
  ultimately show ?thesis using d(1) stream_try_write(1)[OF inv(1) assms(3)] a(1) by blast
qed

text \<open>The section of \<open>HandleRecord\<close> under the mutex.\<close>

definition handled :: "'r snet_record \<Rightarrow> 'r snet_buffer \<Rightarrow> 'r snet_buffer" where
  "handled rec buf = buf\<lparr>b_done := (if SNetRecGetDescriptor rec = REC_terminate_descr then True else b_done buf), b_recvd := b_recvd buf @ [rec]\<rparr>"

lemma buf_handle:
  assumes "ibuf_ok b q ph buf" and "\<not> b_done buf" and "ph = PFree"
  shows "(\<exists>str. ListLength (b_list buf) = 0 \<and> SNetStreamTryWrite (b_stream buf) (Some rec) = Ok (0, str) \<and> s_count str = s_count (b_stream buf) + 1 \<and>
      ibuf_ok b q ph ((handled rec buf)\<lparr>b_stream := str, b_counter := b_counter buf + 1\<rparr>)) \<or>
    (\<exists>l. (ListLength (b_list buf) \<noteq> 0 \<or> SNetStreamTryWrite (b_stream buf) (Some rec) = Ok (-1, b_stream buf)) \<and>
      ListAppendEnd (b_list buf) rec = Ok l \<and> lused l = lused (b_list buf) + 1 \<and>
      ibuf_ok b q ph ((handled rec buf)\<lparr>b_list := l, b_flow := (if ListLength l = 1 then b_flow buf @ [True] else b_flow buf)\<rparr>))"
proof -
  have inv: "stream_inv (b_stream buf)" "list_inv (b_list buf)" "\<not> b_freed buf" "s_count (b_stream buf) \<le> s_size (b_stream buf)" "0 < s_size (b_stream buf)"
    using assms(1,2) by (auto simp: ibuf_ok_def stream_inv_def)
  show ?thesis
  proof (cases "lused (b_list buf) = 0 \<and> s_count (b_stream buf) \<noteq> s_size (b_stream buf)")
    case True
    from True have ne: "s_count (b_stream buf) \<noteq> s_size (b_stream buf)" by simp
    obtain str where w: "SNetStreamTryWrite (b_stream buf) (Some rec) = Ok (0, str)" "stream_inv str" "contents str = contents (b_stream buf) @ [Some rec]"
      "s_size str = s_size (b_stream buf)" "s_count str = s_count (b_stream buf) + 1"
      "callback_arg str = callback_arg (b_stream buf)" "callback_func str = callback_func (b_stream buf)"
      using stream_try_write(2)[OF inv(1) ne, of "Some rec"] by blast
    have c: "unat (b_counter buf + 1) = unat (b_counter buf) + 1" by (rule buf_inc[OF assms(1)])
    then have "b_counter buf + 1 \<noteq> 0" by auto
    moreover have "map Some (list_of (b_list buf)) = []" using True by simp
    ultimately have "ibuf_ok b q ph ((handled rec buf)\<lparr>b_stream := str, b_counter := b_counter buf + 1\<rparr>)"
      using assms w(2-7) c True inv(3) by (auto simp: ibuf_ok_def handled_def simp del: list_of_Nil_iff)
    then show ?thesis using w(1,5) True unfolding ListLength_def by blast
  next
    case False
    obtain l where a: "ListAppendEnd (b_list buf) rec = Ok l" "list_inv l" "list_of l = list_of (b_list buf) @ [rec]"
      using ListAppendEnd_spec[OF inv(2)] by blast
    have n: "lused l = lused (b_list buf) + 1" by (metis a(3) length_append_singleton length_list_of Suc_eq_plus1)
    have full: "ListLength (b_list buf) \<noteq> 0 \<or> SNetStreamTryWrite (b_stream buf) (Some rec) = Ok (-1, b_stream buf)"
      using False stream_try_write(1)[OF inv(1)] by (auto simp: ListLength_def)
    have "ibuf_ok b q ph ((handled rec buf)\<lparr>b_list := l, b_flow := (if ListLength l = 1 then b_flow buf @ [True] else b_flow buf)\<rparr>)"
    proof (cases "lused (b_list buf) = 0")
      case True
      then have "b_counter buf \<noteq> 0" using False assms(1) inv(5) by (auto simp: ibuf_ok_def)
      moreover have "\<not> blocked (b_flow buf)" using assms True by (simp add: ibuf_ok_def)
      ultimately show ?thesis using True assms a(2,3) n inv(3)
        by (auto simp: ibuf_ok_def handled_def ListLength_def flow_snoc blocked_snoc) (simp_all add: blocked_def)
    next
      case False
      then show ?thesis using assms a(2,3) n inv(3) by (auto simp: ibuf_ok_def handled_def ListLength_def)
    qed
    with full a(1) n show ?thesis by blast
  qed
qed

subsection \<open>The system\<close>

text \<open>The work left, as a number that every step of a thread makes smaller.\<close>

fun reader_weight :: "reader_pc \<Rightarrow> nat" where
  "reader_weight RIdle = 0"
| "reader_weight RCall = 8"
| "reader_weight RHold = 7"

fun pc_weight :: "'r manager_pc \<Rightarrow> nat" where
  "pc_weight (MRec b rec dest) = 11"
| "pc_weight MUpdating = 1"
| "pc_weight (MLock b) = 3"
| "pc_weight (MWrite b) = 2"
| "pc_weight _ = 0"

definition buf_weight :: "'r snet_buffer \<Rightarrow> nat" where
  "buf_weight buf = 10 * lused (b_list buf) + 9 * s_count (b_stream buf) + reader_weight (b_reader buf)"

definition im_weight :: "'r imanager \<Rightarrow> nat" where
  "im_weight s = sum_list (map buf_weight (im_bufs s)) + 3 * lused (im_unblocked s) + 3 * im_updates s + pc_weight (im_pc s)"

lemma put_buf_simps [simp]:
  "im_dests (put_buf s b buf) = im_dests s" "im_new (put_buf s b buf) = im_new s" "im_unblocked (put_buf s b buf) = im_unblocked s"
  "im_updates (put_buf s b buf) = im_updates s" "im_pc (put_buf s b buf) = im_pc s" "im_bufs (put_buf s b buf) = (im_bufs s)[b := buf]"
  by (simp_all add: put_buf_def)

lemma bufs_weight:
  assumes "b < length bufs"
  shows "sum_list (map buf_weight (bufs[b := buf])) + buf_weight (bufs ! b) = sum_list (map buf_weight bufs) + buf_weight buf"
  using assms elem_le_sum_list[of b "map buf_weight bufs"] by (simp add: map_update sum_list_update)

lemma bufs_ok_nth: "bufs_ok s \<Longrightarrow> b < length (im_bufs s) \<Longrightarrow> ibuf_ok b (b \<in> set (list_of (im_unblocked s))) (phase (im_pc s) b) (im_bufs s ! b)"
  by (simp add: bufs_ok_def)

lemma bufs_ok_put:
  assumes "bufs_ok s" and "im_bufs s' = (im_bufs s)[b := buf]" and "ibuf_ok b (b \<in> set (list_of (im_unblocked s'))) (phase (im_pc s') b) buf"
    and "\<And>c. c \<noteq> b \<Longrightarrow> c \<in> set (list_of (im_unblocked s')) \<longleftrightarrow> c \<in> set (list_of (im_unblocked s))"
    and "\<And>c. c \<noteq> b \<Longrightarrow> phase (im_pc s') c = phase (im_pc s) c"
  shows "bufs_ok s'"
  unfolding bufs_ok_def
proof (intro allI impI)
  fix c assume c: "c < length (im_bufs s')"
  show "ibuf_ok c (c \<in> set (list_of (im_unblocked s'))) (phase (im_pc s') c) (im_bufs s' ! c)"
    using c assms bufs_ok_nth[OF assms(1), of c] by (cases "c = b") simp_all
qed

lemma done_put: "b_done buf = b_done (bufs ! b) \<Longrightarrow> c < length bufs \<Longrightarrow> b_done (bufs[b := buf] ! c) = b_done (bufs ! c)"
  by (cases "c = b") simp_all

text \<open>A step that changes one buffer, the position of the manager and the calls, but leaves the buffer open or closed.\<close>

lemma im_inv_put:
  assumes "im_inv s" and "b < length (im_bufs s)" and "im_bufs s' = (im_bufs s)[b := buf]" and "im_new s' = im_new s" and "im_dests s' = im_dests s"
    and "b_done buf = b_done (im_bufs s ! b)" and "queue_inv s'" and "bufs_ok s'" and "pc_ok s'"
  shows "im_inv s'"
proof -
  have "b_done (im_bufs s' ! c) = b_done (im_bufs s ! c)" if "c < length (im_bufs s)" for c
    using that assms(3,6) by (simp add: done_put)
  then have "dests_ok s'" using assms(1,3,5) by (fastforce simp: dests_ok_def im_inv_def)
  then show ?thesis using assms by (simp add: im_inv_def new_ok_def)
qed

definition manager_waits :: "'r imanager \<Rightarrow> bool" where
  "manager_waits s \<longleftrightarrow> im_pc s = MStopped \<or> im_pc s = MIdle \<and> im_updates s = 0 \<or>
     (\<exists>b rec dest. im_pc s = MRec b rec dest \<and> b < length (im_bufs s) \<and> b_reader (im_bufs s ! b) = RHold)"

definition reader_waits :: "'r imanager \<Rightarrow> nat \<Rightarrow> bool" where
  "reader_waits s b \<longleftrightarrow> (b < length (im_bufs s) \<longrightarrow>
     b_reader (im_bufs s ! b) = RIdle \<and> s_count (b_stream (im_bufs s ! b)) = 0 \<or>
     b_reader (im_bufs s ! b) = RCall \<and> im_pc s = MWrite b \<or>
     b_reader (im_bufs s ! b) = RHold \<and> in_update (im_pc s))"

abbreviation steps_to :: "'r imanager res \<Rightarrow> 'r imanager \<Rightarrow> bool \<Rightarrow> bool" where
  "steps_to r s waits \<equiv> \<exists>s'. r = Ok s' \<and> im_inv s' \<and> (im_pc s \<noteq> MStopped \<longrightarrow> im_pc s' \<noteq> MStopped) \<and> (if waits then s' = s else im_weight s' < im_weight s)"

lemma pc_ok_same: "pc_ok s \<Longrightarrow> im_pc s' = im_pc s \<Longrightarrow> im_dests s' = im_dests s \<Longrightarrow> length (im_bufs s') = length (im_bufs s) \<Longrightarrow>
    (\<And>b. b < length (im_bufs s) \<Longrightarrow> b_done (im_bufs s' ! b) = b_done (im_bufs s ! b)) \<Longrightarrow> pc_ok s'"
  by (auto simp: pc_ok_def)

lemma queue_inv_same: "queue_inv s \<Longrightarrow> im_unblocked s' = im_unblocked s \<Longrightarrow> length (im_bufs s') = length (im_bufs s) \<Longrightarrow> im_updates s' = im_updates s \<Longrightarrow>
    im_pc s' = im_pc s \<Longrightarrow> queue_inv s'"
  by (simp add: queue_inv_def)

lemma reader_step_ok:
  assumes "im_inv s"
  shows "steps_to (reader_step s b) s (reader_waits s b)"
proof (cases "b < length (im_bufs s)")
  case False
  then show ?thesis using assms by (simp add: reader_step_def reader_waits_def)
next
  case True
  let ?buf = "im_bufs s ! b"
  let ?q = "b \<in> set (list_of (im_unblocked s))" and ?ph = "phase (im_pc s) b"
  have inv: "queue_inv s" "bufs_ok s" "pc_ok s" using assms by (simp_all add: im_inv_def)
  note ok = bufs_ok_nth[OF inv(2) True]
  have put: "im_inv (put_buf s b buf)" if "ibuf_ok b ?q ?ph buf" "b_done buf = b_done ?buf" for buf
  proof (rule im_inv_put[OF assms True, of _ buf])
    show "queue_inv (put_buf s b buf)" by (rule queue_inv_same[OF inv(1)]) simp_all
    show "bufs_ok (put_buf s b buf)" by (rule bufs_ok_put[OF inv(2), of _ b buf]) (simp_all add: that)
    show "pc_ok (put_buf s b buf)" by (rule pc_ok_same[OF inv(3)]) (simp_all add: that done_put)
  qed (simp_all add: that)
  have less: "im_weight (put_buf s b buf) < im_weight s" if "buf_weight buf < buf_weight ?buf" for buf
    using bufs_weight[OF True, of buf] that by (simp add: im_weight_def)
  show ?thesis
  proof (cases "b_reader ?buf")
    case RIdle
    show ?thesis
    proof (cases "s_count (b_stream ?buf) = 0")
      case True
      then show ?thesis using RIdle assms \<open>b < _\<close> by (simp add: reader_step_def reader_waits_def)
    next
      case False
      then obtain x str nf where r: "SNetStreamRead (b_stream ?buf) = Ok (x, str, nf)" "callback_func str \<noteq> None" "s_count str + 1 = s_count (b_stream ?buf)"
        "ibuf_ok b ?q ?ph (?buf\<lparr>b_stream := str, b_got := b_got ?buf @ [x], b_reader := RCall\<rparr>)" using buf_read[OF ok RIdle] by blast
      have "reader_step s b = Ok (put_buf s b (?buf\<lparr>b_stream := str, b_got := b_got ?buf @ [x], b_reader := RCall\<rparr>))"
        using True False RIdle r(1,2) by (auto simp: reader_step_def Let_def)
      moreover have "im_weight (put_buf s b (?buf\<lparr>b_stream := str, b_got := b_got ?buf @ [x], b_reader := RCall\<rparr>)) < im_weight s"
        by (rule less) (use r(3) RIdle in \<open>simp add: buf_weight_def\<close>)
      ultimately show ?thesis using put[OF r(4)] False RIdle True by (simp add: reader_waits_def)
    qed
  next
    case RCall
    show ?thesis
    proof (cases "im_pc s = MWrite b")
      case True
      then show ?thesis using RCall assms \<open>b < _\<close> by (simp add: reader_step_def reader_waits_def)
    next
      case False
      then have "?ph \<noteq> PWriting" by (cases "im_pc s") auto
      note c = buf_callback[OF ok RCall this]
      have "reader_step s b = Ok (put_buf s b (ReadCallback ?buf))" using True False RCall c(1) by (simp add: reader_step_def)
      moreover have "im_weight (put_buf s b (ReadCallback ?buf)) < im_weight s"
        by (rule less) (use RCall in \<open>simp add: buf_weight_def ReadCallback_def Let_def\<close>)
      ultimately show ?thesis using put[OF c(2,3)] False RCall True by (simp add: reader_waits_def)
    qed
  next
    case RHold
    show ?thesis
    proof (cases "in_update (im_pc s)")
      case True
      then show ?thesis using RHold assms \<open>b < _\<close> by (simp add: reader_step_def reader_waits_def)
    next
      case False
      have nq: "b \<notin> set (list_of (im_unblocked s))" using ok RHold by (simp add: ibuf_ok_def)
      obtain l where l: "ListAppendEnd (im_unblocked s) b = Ok l" "list_inv l" "list_of l = list_of (im_unblocked s) @ [b]"
        using ListAppendEnd_spec[of "im_unblocked s" b] inv(1) by (auto simp: queue_inv_def)
      have n: "lused l = lused (im_unblocked s) + 1" by (metis l(3) length_append_singleton length_list_of Suc_eq_plus1)
      let ?s = "put_buf (s\<lparr>im_unblocked := l, im_updates := (if ListLength l = 1 then im_updates s + 1 else im_updates s)\<rparr>) b (?buf\<lparr>b_reader := RIdle\<rparr>)"
      have "queue_inv ?s" using inv(1) l(2,3) n nq True by (auto simp: queue_inv_def ListLength_def)
      moreover have "bufs_ok ?s" by (rule bufs_ok_put[OF inv(2), of _ b "?buf\<lparr>b_reader := RIdle\<rparr>"]) (use buf_unblock[OF ok RHold] l(3) in auto)
      moreover have "pc_ok ?s" by (rule pc_ok_same[OF inv(3)]) (simp_all add: done_put)
      ultimately have "im_inv ?s" by (intro im_inv_put[OF assms True, of ?s "?buf\<lparr>b_reader := RIdle\<rparr>"]) simp_all
      moreover have "im_weight ?s < im_weight s"
        using bufs_weight[OF True, of "?buf\<lparr>b_reader := RIdle\<rparr>"] RHold n by (simp add: im_weight_def buf_weight_def)
      moreover have "reader_step s b = Ok ?s" using True False RHold l(1) by (simp add: reader_step_def ReadCallback_unblock_def)
      ultimately show ?thesis using False RHold True by (simp add: reader_waits_def)
    qed
  qed
qed

lemma phase_cases: "phase pc b = PFree \<or> pc = MLock b \<or> pc = MWrite b"
  by (cases pc) auto

lemma buf_freed: "ibuf_ok b q ph buf \<Longrightarrow> b_freed buf \<Longrightarrow> b_done buf \<and> ph = PFree"
  unfolding ibuf_ok_def by blast

lemma buf_at_Ok: "bufs_ok s \<Longrightarrow> b < length (im_bufs s) \<Longrightarrow> \<not> b_done (im_bufs s ! b) \<or> phase (im_pc s) b \<noteq> PFree \<Longrightarrow> buf_at s b = Ok (im_bufs s ! b)"
  using buf_freed[OF bufs_ok_nth[of s b]] by (auto simp: buf_at_def)

lemma update_next_ok:
  assumes "im_inv s" and "im_pc s = MUpdating"
  shows "steps_to (UpdateBlocked_next s) s False"
proof (cases "lused (im_unblocked s) = 0")
  case True
  then have "list_of (im_unblocked s) = []" by simp
  then have "im_inv (s\<lparr>im_pc := MIdle\<rparr>)"
    using assms True by (simp add: im_inv_def new_ok_def dests_ok_def queue_inv_def bufs_ok_def pc_ok_def del: list_of_Nil_iff)
  then show ?thesis using True assms(2) by (simp add: UpdateBlocked_next_def ListLength_def im_weight_def)
next
  case False
  have inv: "queue_inv s" "bufs_ok s" "pc_ok s" using assms by (simp_all add: im_inv_def)
  obtain b l where d: "list_dequeue (im_unblocked s) = Ok (b, l)" "list_inv l" "list_of (im_unblocked s) = b # list_of l" "lused l = lused (im_unblocked s) - 1"
    using list_dequeue_spec[of "im_unblocked s"] inv(1) False list_of_Nil_iff[of "im_unblocked s"] by (fastforce simp: queue_inv_def simp del: list_of_Nil_iff)
  let ?s = "s\<lparr>im_unblocked := l, im_pc := MLock b\<rparr>"
  have b: "b < length (im_bufs s)" "b \<notin> set (list_of l)" using inv(1) d(3) by (auto simp: queue_inv_def)
  have ok: "ibuf_ok b True PFree (im_bufs s ! b)" using bufs_ok_nth[OF inv(2) b(1)] d(3) assms(2) by simp
  have "queue_inv ?s" using inv(1) d by (auto simp: queue_inv_def)
  moreover have "bufs_ok ?s"
    by (rule bufs_ok_put[OF inv(2), of _ b "im_bufs s ! b"]) (use buf_lock[OF ok] b d(3) assms(2) in auto)
  moreover have "pc_ok ?s" using b by (simp add: pc_ok_def)
  ultimately have "im_inv ?s" by (intro im_inv_put[OF assms(1) b(1), of ?s "im_bufs s ! b"]) simp_all
  then show ?thesis using d(1,4) False assms(2) by (simp add: UpdateBlocked_next_def ListLength_def im_weight_def)
qed

lemma update_end_ok:
  assumes "im_inv s" and "im_pc s = MWrite b" and "b < length (im_bufs s)" and "ibuf_ok b (b \<in> set (list_of (im_unblocked s))) PWriting buf"
    and "lused (b_list buf) = 0 \<or> s_count (b_stream buf) = s_size (b_stream buf)" and "b_done buf = b_done (im_bufs s ! b)"
    and "buf_weight buf \<le> buf_weight (im_bufs s ! b)"
  shows "im_inv (UpdateBlocked_end s b buf) \<and> im_weight (UpdateBlocked_end s b buf) < im_weight s \<and> im_pc (UpdateBlocked_end s b buf) \<noteq> MStopped"
proof -
  let ?s = "UpdateBlocked_end s b buf"
  let ?buf = "if ListLength (b_list buf) = 0 \<and> \<not> b_done buf then buf\<lparr>b_flow := b_flow buf @ [False]\<rparr> else buf"
  have inv: "queue_inv s" "bufs_ok s" "pc_ok s" using assms by (simp_all add: im_inv_def)
  have s: "im_bufs ?s = (im_bufs s)[b := ?buf]" "im_new ?s = im_new s" "im_dests ?s = im_dests s" "im_unblocked ?s = im_unblocked s"
    "im_updates ?s = im_updates s" "im_pc ?s = MUpdating" by (simp_all add: UpdateBlocked_end_def)
  have "queue_inv ?s" using inv(1) s by (simp add: queue_inv_def)
  moreover have "bufs_ok ?s"
    by (rule bufs_ok_put[OF inv(2) s(1)]) (use buf_end[OF assms(4,5)] s assms(2) in auto)
  moreover have "pc_ok ?s" using s by (simp add: pc_ok_def)
  moreover have "b_done ?buf = b_done (im_bufs s ! b)" using assms(6) by simp
  ultimately have "im_inv ?s" by (intro im_inv_put[OF assms(1,3) s(1-3)])
  moreover have "buf_weight ?buf = buf_weight buf" by (simp add: buf_weight_def)
  then have "im_weight ?s < im_weight s"
    using bufs_weight[OF assms(3), of ?buf] assms(2,7) s by (simp add: im_weight_def)
  ultimately show ?thesis using s by simp
qed

lemma update_write_ok:
  assumes "im_inv s" and "im_pc s = MWrite b"
  shows "steps_to (UpdateBlocked_write s b) s False"
proof -
  let ?buf = "im_bufs s ! b" and ?q = "b \<in> set (list_of (im_unblocked s))"
  have inv: "queue_inv s" "bufs_ok s" "pc_ok s" using assms by (simp_all add: im_inv_def)
  have b: "b < length (im_bufs s)" using inv(3) assms(2) by (simp add: pc_ok_def)
  have ok: "ibuf_ok b ?q PWriting ?buf" using bufs_ok_nth[OF inv(2) b] assms(2) by simp
  have at: "buf_at s b = Ok ?buf" by (rule buf_at_Ok[OF inv(2) b]) (simp add: assms(2))
  show ?thesis
  proof (cases "lused (b_list ?buf) = 0")
    case True
    then show ?thesis using update_end_ok[OF assms b ok] at by (simp add: UpdateBlocked_write_def ListLength_def)
  next
    case ne: False
    show ?thesis
    proof (cases "s_count (b_stream ?buf) = s_size (b_stream ?buf)")
      case True
      obtain rec l l' where w: "list_dequeue (b_list ?buf) = Ok (rec, l)" "SNetStreamTryWrite (b_stream ?buf) (Some rec) = Ok (-1, b_stream ?buf)"
        "ListAppendStart l rec = Ok l'" "lused l' = lused (b_list ?buf)" "ibuf_ok b ?q PWriting (?buf\<lparr>b_list := l'\<rparr>)"
        using buf_write_full[OF ok ne True] by blast
      have "UpdateBlocked_write s b = Ok (UpdateBlocked_end s b (?buf\<lparr>b_list := l'\<rparr>))"
        unfolding UpdateBlocked_write_def at using ne w(1-3) by (simp add: ListLength_def)
      then show ?thesis using update_end_ok[OF assms b w(5)] True w(4) by (simp add: buf_weight_def)
    next
      case False
      obtain rec l str where w: "list_dequeue (b_list ?buf) = Ok (rec, l)" "SNetStreamTryWrite (b_stream ?buf) (Some rec) = Ok (0, str)"
        "s_count str = s_count (b_stream ?buf) + 1" "lused l + 1 = lused (b_list ?buf)"
        "ibuf_ok b ?q PWriting (?buf\<lparr>b_list := l, b_stream := str, b_counter := b_counter ?buf + 1\<rparr>)"
        using buf_write_one[OF ok ne False] by blast
      let ?b = "?buf\<lparr>b_list := l, b_stream := str, b_counter := b_counter ?buf + 1\<rparr>"
      let ?s = "put_buf s b ?b"
      have "UpdateBlocked_write s b = Ok ?s"
        unfolding UpdateBlocked_write_def at using ne w(1,2) by (simp add: ListLength_def)
      moreover have "queue_inv ?s" by (rule queue_inv_same[OF inv(1)]) simp_all
      moreover have "bufs_ok ?s" by (rule bufs_ok_put[OF inv(2), of _ b ?b]) (use w(5) assms(2) in simp_all)
      moreover have "pc_ok ?s" by (rule pc_ok_same[OF inv(3)]) (simp_all add: done_put)
      ultimately have "im_inv ?s" by (intro im_inv_put[OF assms(1) b, of ?s ?b]) simp_all
      moreover have "im_weight ?s < im_weight s"
        using bufs_weight[OF b, of ?b] w(3,4) by (simp add: im_weight_def buf_weight_def)
      ultimately show ?thesis using \<open>UpdateBlocked_write s b = Ok ?s\<close> assms(2) by simp
    qed
  qed
qed

lemma HandleRecord_locked_alt:
  "HandleRecord_locked s b rec dest =
     bindR (buf_at s b) (\<lambda>buf.
     bindR (if ListLength (b_list buf) = 0 then SNetStreamTryWrite (b_stream buf) (Some rec) else Ok (-1, b_stream buf)) (\<lambda>(r, str).
     if r = 0 then Ok (put_buf (s\<lparr>im_pc := MIdle\<rparr>) b ((handled rec buf)\<lparr>b_stream := str, b_counter := b_counter buf + 1\<rparr>))
     else
       bindR (ListAppendEnd (b_list buf) rec) (\<lambda>l.
       if ListLength l = 1
       then Ok (put_buf (s\<lparr>im_pc := MIdle, im_calls := im_calls s @ [BlockDest dest]\<rparr>) b ((handled rec buf)\<lparr>b_list := l, b_flow := b_flow buf @ [True]\<rparr>))
       else Ok (put_buf (s\<lparr>im_pc := MIdle\<rparr>) b ((handled rec buf)\<lparr>b_list := l\<rparr>)))))"
  unfolding HandleRecord_locked_def handled_def Let_def by (simp cong: if_cong)

lemma dests_ok_D: "dests_ok s \<Longrightarrow> key_lookup dest_key (im_dests s) k = Some b \<Longrightarrow> b < length (im_bufs s) \<and> \<not> b_done (im_bufs s ! b)"
  unfolding dests_ok_def by blast

lemma dests_ok_inj: "dests_ok s \<Longrightarrow> key_lookup dest_key (im_dests s) k = Some c \<Longrightarrow> key_lookup dest_key (im_dests s) l = Some c \<Longrightarrow> k = l"
  unfolding dests_ok_def by blast

lemma handle_locked_ok:
  assumes "im_inv s" and "im_pc s = MRec b rec dest"
  shows "steps_to (HandleRecord_locked s b rec dest) s False"
proof -
  let ?buf = "im_bufs s ! b" and ?q = "b \<in> set (list_of (im_unblocked s))"
  have inv: "new_ok s" "dests_ok s" "queue_inv s" "bufs_ok s" "pc_ok s" using assms by (simp_all add: im_inv_def)
  have b: "b < length (im_bufs s)" "\<not> b_done ?buf"
    and trm: "SNetRecGetDescriptor rec = REC_terminate_descr \<Longrightarrow> key_lookup dest_key (im_dests s) k \<noteq> Some b" for k
    using inv(5) assms(2) unfolding pc_ok_def by blast+
  have ok: "ibuf_ok b ?q PFree ?buf" using bufs_ok_nth[OF inv(4) b(1)] assms(2) by simp
  have at: "buf_at s b = Ok ?buf" by (rule buf_at_Ok[OF inv(4) b(1)]) (simp add: b(2))
  have put: "im_inv s' \<and> im_weight s' < im_weight s"
    if "ibuf_ok b ?q PFree buf" "b_done buf = b_done (handled rec ?buf)" "im_bufs s' = (im_bufs s)[b := buf]" "buf_weight buf \<le> buf_weight ?buf + 10"
      "im_new s' = im_new s" "im_dests s' = im_dests s" "im_unblocked s' = im_unblocked s" "im_updates s' = im_updates s" "im_pc s' = MIdle" for s' buf
  proof
    have "c < length (im_bufs s') \<and> \<not> b_done (im_bufs s' ! c)" if "key_lookup dest_key (im_dests s) k = Some c" for k c
    proof (cases "c = b")
      case True
      then have "SNetRecGetDescriptor rec \<noteq> REC_terminate_descr" using trm[of k] that by auto
      then show ?thesis using True b \<open>b_done buf = _\<close> \<open>im_bufs s' = _\<close> by (simp add: handled_def)
    next
      case False
      then show ?thesis using dests_ok_D[OF inv(2) that] \<open>im_bufs s' = _\<close> by simp
    qed
    then have "dests_ok s'" using inv(2) \<open>im_dests s' = _\<close> unfolding dests_ok_def by simp
    moreover have "bufs_ok s'" by (rule bufs_ok_put[OF inv(4) that(3)]) (use that assms(2) in simp_all)
    moreover have "new_ok s'" "queue_inv s'" "pc_ok s'" using inv that assms(2) by (simp_all add: new_ok_def queue_inv_def pc_ok_def)
    ultimately show "im_inv s'" by (simp add: im_inv_def)
    show "im_weight s' < im_weight s" using bufs_weight[OF b(1), of buf] that assms(2) by (simp add: im_weight_def)
  qed
  from buf_handle[OF ok b(2) refl, of rec] show ?thesis
  proof
    assume "\<exists>str. ListLength (b_list ?buf) = 0 \<and> SNetStreamTryWrite (b_stream ?buf) (Some rec) = Ok (0, str) \<and> s_count str = s_count (b_stream ?buf) + 1 \<and>
      ibuf_ok b ?q PFree ((handled rec ?buf)\<lparr>b_stream := str, b_counter := b_counter ?buf + 1\<rparr>)"
    then obtain str where w: "ListLength (b_list ?buf) = 0" "SNetStreamTryWrite (b_stream ?buf) (Some rec) = Ok (0, str)" "s_count str = s_count (b_stream ?buf) + 1"
      "ibuf_ok b ?q PFree ((handled rec ?buf)\<lparr>b_stream := str, b_counter := b_counter ?buf + 1\<rparr>)" by blast
    let ?b = "(handled rec ?buf)\<lparr>b_stream := str, b_counter := b_counter ?buf + 1\<rparr>"
    let ?s = "put_buf (s\<lparr>im_pc := MIdle\<rparr>) b ?b"
    have "HandleRecord_locked s b rec dest = Ok ?s"
      unfolding HandleRecord_locked_def at using w(1,2) by (simp add: handled_def)
    moreover have "im_inv ?s \<and> im_weight ?s < im_weight s" by (rule put[OF w(4)]) (use w(3) in \<open>simp_all add: buf_weight_def handled_def\<close>)
    ultimately show ?thesis by simp
  next
    assume "\<exists>l. (ListLength (b_list ?buf) \<noteq> 0 \<or> SNetStreamTryWrite (b_stream ?buf) (Some rec) = Ok (-1, b_stream ?buf)) \<and>
      ListAppendEnd (b_list ?buf) rec = Ok l \<and> lused l = lused (b_list ?buf) + 1 \<and>
      ibuf_ok b ?q PFree ((handled rec ?buf)\<lparr>b_list := l, b_flow := (if ListLength l = 1 then b_flow ?buf @ [True] else b_flow ?buf)\<rparr>)"
    then obtain l where full: "ListLength (b_list ?buf) \<noteq> 0 \<or> SNetStreamTryWrite (b_stream ?buf) (Some rec) = Ok (-1, b_stream ?buf)"
      and l: "ListAppendEnd (b_list ?buf) rec = Ok l" "lused l = lused (b_list ?buf) + 1"
      "ibuf_ok b ?q PFree ((handled rec ?buf)\<lparr>b_list := l, b_flow := (if ListLength l = 1 then b_flow ?buf @ [True] else b_flow ?buf)\<rparr>)" by blast
    let ?b = "(handled rec ?buf)\<lparr>b_list := l, b_flow := (if ListLength l = 1 then b_flow ?buf @ [True] else b_flow ?buf)\<rparr>"
    let ?s = "put_buf (s\<lparr>im_pc := MIdle, im_calls := (if ListLength l = 1 then im_calls s @ [BlockDest dest] else im_calls s)\<rparr>) b ?b"
    have "(if ListLength (b_list ?buf) = 0 then SNetStreamTryWrite (b_stream ?buf) (Some rec) else Ok (-1, b_stream ?buf)) = Ok (-1, b_stream ?buf)"
      using full by auto
    then have "HandleRecord_locked s b rec dest = Ok ?s"
      unfolding HandleRecord_locked_alt at bindR.simps using l(1) by (simp only:) (simp add: handled_def)
    moreover have "im_inv ?s \<and> im_weight ?s < im_weight s" by (rule put[OF l(3)]) (use l(2) in \<open>simp_all add: buf_weight_def handled_def\<close>)
    ultimately show ?thesis by simp
  qed
qed

lemma manager_step_ok:
  assumes "im_inv s"
  shows "steps_to (manager_step (im_pc s) s) s (manager_waits s)"
proof (cases "im_pc s")
  case MIdle
  show ?thesis
  proof (cases "im_updates s = 0")
    case False
    have "im_inv (s\<lparr>im_updates := im_updates s - 1, im_pc := MUpdating\<rparr>)"
      using assms MIdle by (simp add: im_inv_def new_ok_def dests_ok_def queue_inv_def bufs_ok_def pc_ok_def)
    then show ?thesis using False MIdle by (simp add: manager_waits_def im_weight_def)
  qed (use assms MIdle in \<open>simp add: manager_waits_def\<close>)
next
  case (MRec b rec dest)
  have "b < length (im_bufs s)" using assms MRec by (simp add: im_inv_def pc_ok_def)
  then have w: "manager_waits s \<longleftrightarrow> \<not> lock_free s b" using MRec by (auto simp: manager_waits_def lock_free_def)
  show ?thesis
  proof (cases "lock_free s b")
    case True
    then show ?thesis using handle_locked_ok[OF assms MRec] w MRec by simp
  next
    case False
    then show ?thesis using w MRec assms by simp
  qed
next
  case MUpdating
  then show ?thesis using update_next_ok[OF assms MUpdating] by (simp add: manager_waits_def)
next
  case (MLock b)
  have inv: "queue_inv s" "bufs_ok s" "pc_ok s" using assms by (simp_all add: im_inv_def)
  have b: "b < length (im_bufs s)" using inv(3) MLock by (simp add: pc_ok_def)
  have ok: "ibuf_ok b (b \<in> set (list_of (im_unblocked s))) PLocking (im_bufs s ! b)" using bufs_ok_nth[OF inv(2) b] MLock by simp
  let ?s = "s\<lparr>im_pc := MWrite b\<rparr>"
  have "lock_free s b" using ok by (simp add: lock_free_def ibuf_ok_def)
  moreover have "queue_inv ?s" "pc_ok ?s" using inv b MLock by (simp_all add: queue_inv_def pc_ok_def)
  moreover have "bufs_ok ?s" by (rule bufs_ok_put[OF inv(2), of _ b "im_bufs s ! b"]) (use buf_locked[OF ok] MLock in auto)
  ultimately have "im_inv ?s" "lock_free s b" using assms by (simp_all add: im_inv_def new_ok_def dests_ok_def)
  then show ?thesis using MLock by (simp add: manager_waits_def im_weight_def)
next
  case (MWrite b)
  then show ?thesis using update_write_ok[OF assms MWrite] by (simp add: manager_waits_def)
next
  case MStopped
  then show ?thesis using assms by (simp add: manager_waits_def)
qed

subsection \<open>New streams and messages\<close>

lemma empty_stream_create: "empty_stream (SNetStreamCreate (sint (cap :: 32 word)))"
proof -
  have "sint cap < 2 ^ 31" using int_range_sint[of cap] by (simp add: int_range_def)
  then have "s_size (SNetStreamCreate (sint cap) :: 'a snet_record snet_stream) < 2 ^ 31" "s_count (SNetStreamCreate (sint cap) :: 'a snet_record snet_stream) = 0"
    by (auto simp: SNetStreamCreate_def Let_def SNET_STREAM_DEFAULT_CAPACITY_def)
  then show ?thesis by (simp add: empty_stream_def stream_create)
qed

lemma im_inv_new:
  assumes "im_inv s" and "list_inv l" and "\<forall>(d, str)\<in>set (list_of l). empty_stream str"
  shows "im_inv (s\<lparr>im_new := l\<rparr>)"
proof -
  have "dests_ok (s\<lparr>im_new := l\<rparr>) = dests_ok s" "queue_inv (s\<lparr>im_new := l\<rparr>) = queue_inv s" "bufs_ok (s\<lparr>im_new := l\<rparr>) = bufs_ok s"
    "pc_ok (s\<lparr>im_new := l\<rparr>) = pc_ok s" by (simp_all add: dests_ok_def queue_inv_def bufs_ok_def pc_ok_def)
  moreover have "new_ok (s\<lparr>im_new := l\<rparr>)" using assms(2,3) by (simp add: new_ok_def)
  ultimately show ?thesis using assms(1) by (simp add: im_inv_def)
qed

lemma new_in_ok:
  assumes "im_inv s" and "empty_stream str"
  shows "\<exists>l. SNetInputManagerNewIn s d str = Ok (s\<lparr>im_new := l\<rparr>) \<and> im_inv (s\<lparr>im_new := l\<rparr>) \<and> list_of l = list_of (im_new s) @ [(d, str)]"
proof -
  have "list_inv (im_new s)" using assms(1) by (simp add: im_inv_def new_ok_def)
  then obtain l where l: "ListAppendEnd (im_new s) (d, str) = Ok l" "list_inv l" "list_of l = list_of (im_new s) @ [(d, str)]"
    using ListAppendEnd_spec[of "im_new s" "(d, str)"] by blast
  have "im_inv (s\<lparr>im_new := l\<rparr>)" by (rule im_inv_new[OF assms(1) l(2)]) (use l(3) assms in \<open>simp add: im_inv_def new_ok_def\<close>)
  then show ?thesis using l by (intro exI[of _ l]) (simp add: SNetInputManagerNewIn_def)
qed

lemma add_incoming_ok:
  assumes "im_inv s" and "empty_stream str" and "im_pc s = MIdle"
  shows "\<exists>s'. add_incoming s (d, str) = Ok s' \<and> im_inv s' \<and> im_pc s' = MIdle \<and> im_new s' = im_new s \<and>
     dom (key_lookup dest_key (im_dests s')) = insert (dest_key d) (dom (key_lookup dest_key (im_dests s)))"
proof -
  let ?n = "length (im_bufs s)"
  have inv: "new_ok s" "dests_ok s" "queue_inv s" "bufs_ok s" using assms by (simp_all add: im_inv_def)
  obtain m where m: "MapSet SNetDestCompare (im_dests s) d ?n = Ok m" "key_ok dest_key m"
    "key_lookup dest_key m = (key_lookup dest_key (im_dests s))(dest_key d \<mapsto> ?n)"
    using MapSet_key[of dest_key "im_dests s" d ?n] inv(2) unfolding SNetDestCompare_key dests_ok_def by blast
  let ?l = "\<lparr>lsize = 0, lused = 0, lstart = 0, lvalues = []\<rparr> :: 'a snet_record snet_list"
  let ?str = "str\<lparr>producer := Some ?n, callback_func := Some 0, callback_arg := Some ?n\<rparr>"
  let ?buf = "\<lparr>b_done = False, b_counter = 0, b_dest = d, b_list = ?l, b_stream = ?str, b_freed = False, b_reader = RIdle, b_recvd = [], b_got = [], b_flow = []\<rparr>"
  let ?s = "s\<lparr>im_bufs := im_bufs s @ [?buf], im_dests := m\<rparr>"
  have str: "stream_inv ?str" "s_count ?str = 0" "s_size ?str < 2 ^ 31" using assms(2) by (simp_all add: empty_stream_def stream_inv_def)
  then have "contents ?str = []" using length_contents[of ?str] by (simp del: length_contents)
  then have buf: "ibuf_ok ?n False PFree ?buf"
    using str list_inv_fresh[of "[] :: 'a snet_record list"] list_of_fresh[of "[] :: 'a snet_record list"] by (simp add: ibuf_ok_def alternates_def blocked_def)
  have "?n \<notin> set (list_of (im_unblocked s))" using inv(3) by (auto simp: queue_inv_def)
  then have "bufs_ok ?s" using buf inv(4) assms(3) by (auto simp: bufs_ok_def nth_append less_Suc_eq)
  moreover have "queue_inv ?s" using inv(3) by (auto simp: queue_inv_def)
  moreover have "dests_ok ?s"
    unfolding dests_ok_def
  proof (intro conjI allI impI)
    fix k c assume "key_lookup dest_key (im_dests ?s) k = Some c"
    then have "c = ?n \<or> key_lookup dest_key (im_dests s) k = Some c" using m(3) by (auto split: if_splits)
    then show "c < length (im_bufs ?s)" "\<not> b_done (im_bufs ?s ! c)" using dests_ok_D[OF inv(2), of k c] by (auto simp: nth_append less_Suc_eq)
  next
    fix k l c assume k: "key_lookup dest_key (im_dests ?s) k = Some c" "key_lookup dest_key (im_dests ?s) l = Some c"
    have "key_lookup dest_key (im_dests s) j \<noteq> Some ?n" for j using inv(2) unfolding dests_ok_def by blast
    then show "k = l" using k m(3) dests_ok_inj[OF inv(2), of k c l] by (auto split: if_splits)
  qed (use m(2) in simp)
  moreover have "pc_ok ?s" "new_ok ?s" using assms(3) inv(1) by (simp_all add: pc_ok_def new_ok_def)
  ultimately have "im_inv ?s" by (simp add: im_inv_def)
  moreover have "add_incoming s (d, str) = Ok ?s"
    using m(1) ListCreate_Ok[of "[] :: 'a snet_record list"] by (simp add: add_incoming_def SNetStreamOpen_def SNetStreamRegisterReadCallback_def Let_def)
  ultimately show ?thesis using m(3) assms(3) by auto
qed

lemma add_incoming_all:
  "im_inv s \<Longrightarrow> im_pc s = MIdle \<Longrightarrow> \<forall>(d, str)\<in>set ts. empty_stream str \<Longrightarrow>
     \<exists>s'. foldR add_incoming s ts = Ok s' \<and> im_inv s' \<and> im_pc s' = MIdle \<and> im_new s' = im_new s \<and>
       dom (key_lookup dest_key (im_dests s')) = dest_key ` fst ` set ts \<union> dom (key_lookup dest_key (im_dests s))"
proof (induction ts arbitrary: s)
  case (Cons t ts)
  obtain d str where t: "t = (d, str)" by fastforce
  obtain s1 where s1: "add_incoming s t = Ok s1" "im_inv s1" "im_pc s1 = MIdle" "im_new s1 = im_new s"
    "dom (key_lookup dest_key (im_dests s1)) = insert (dest_key d) (dom (key_lookup dest_key (im_dests s)))"
    using add_incoming_ok[of s str d] Cons.prems t by auto
  obtain s2 where s2: "foldR add_incoming s1 ts = Ok s2" "im_inv s2" "im_pc s2 = MIdle" "im_new s2 = im_new s1"
    "dom (key_lookup dest_key (im_dests s2)) = dest_key ` fst ` set ts \<union> dom (key_lookup dest_key (im_dests s1))"
    using Cons.IH[OF s1(2,3)] Cons.prems(3) by auto
  then show ?case using s1 t by auto
qed simp

lemma update_incoming_ok:
  assumes "im_inv s" and "im_pc s = MIdle"
  shows "\<exists>s'. UpdateIncoming s = Ok s' \<and> im_inv s' \<and> im_pc s' = MIdle \<and>
     dom (key_lookup dest_key (im_dests s')) = dest_key ` fst ` set (list_of (im_new s)) \<union> dom (key_lookup dest_key (im_dests s))"
proof -
  have "list_inv (im_new s)" using assms(1) by (simp add: im_inv_def new_ok_def)
  then obtain l where l: "LIST_DEQUEUE_EACH (im_new s) = Ok (list_of (im_new s), l)" "list_inv l" "list_of l = []"
    using LIST_DEQUEUE_EACH_spec[of "im_new s"] by blast
  have inv: "im_inv (s\<lparr>im_new := l\<rparr>)" by (rule im_inv_new[OF assms(1) l(2)]) (simp add: l(3))
  have "\<forall>(d, str)\<in>set (list_of (im_new s)). empty_stream str" using assms(1) unfolding im_inv_def new_ok_def by blast
  from add_incoming_all[OF inv _ this] assms(2) show ?thesis unfolding UpdateIncoming_def l(1) by simp blast
qed

lemma new_in_all:
  "im_inv s \<Longrightarrow> \<exists>l. foldR (\<lambda>s (d, cap). SNetInputManagerNewIn s d (SNetStreamCreate (sint cap))) s ds = Ok (s\<lparr>im_new := l\<rparr>) \<and>
     im_inv (s\<lparr>im_new := l\<rparr>) \<and> fst ` set (list_of l) = fst ` set (list_of (im_new s)) \<union> fst ` set (ds :: (snet_dest \<times> 32 word) list)"
proof (induction ds arbitrary: s)
  case Nil
  then show ?case by (auto intro!: exI[of _ "im_new s"])
next
  case (Cons t ds)
  obtain d cap where t: "t = (d, cap)" by fastforce
  obtain l where l: "SNetInputManagerNewIn s d (SNetStreamCreate (sint cap)) = Ok (s\<lparr>im_new := l\<rparr>)" "im_inv (s\<lparr>im_new := l\<rparr>)"
    "list_of l = list_of (im_new s) @ [(d, SNetStreamCreate (sint cap))]"
    using new_in_ok[OF Cons.prems empty_stream_create, of d cap] by blast
  from Cons.IH[OF l(2)] obtain l2 where "foldR (\<lambda>s (d, cap). SNetInputManagerNewIn s d (SNetStreamCreate (sint cap))) (s\<lparr>im_new := l\<rparr>) ds = Ok (s\<lparr>im_new := l2\<rparr>)"
    "im_inv (s\<lparr>im_new := l2\<rparr>)" "fst ` set (list_of l2) = fst ` set (list_of l) \<union> fst ` set ds" by auto
  then show ?case using l(1,3) t by (intro exI[of _ l2]) auto
qed

text \<open>A destination is registered when it has a buffer or a stream that waits for its buffer.\<close>

definition registered :: "'r imanager \<Rightarrow> snet_dest \<Rightarrow> bool" where
  "registered s dest \<longleftrightarrow> dest_key dest \<in> dom (key_lookup dest_key (im_dests s)) \<or> dest_key dest \<in> dest_key ` fst ` set (list_of (im_new s))"

text \<open>
  The creation of networks at run time serves all destinations: it registers a stream for the one that was asked for. It does not
  do so where the network that it creates numbers its streams differently from the sender.
\<close>

definition routes :: "(snet_dest \<Rightarrow> (snet_dest \<times> 32 word) list) \<Rightarrow> bool" where
  "routes route \<longleftrightarrow> (\<forall>d. dest_key d \<in> dest_key ` fst ` set (route d))"

text \<open>What \<open>HandleRecord\<close> does before it looks for the buffer: new streams get their buffers, and the network of an unknown destination is created.\<close>

lemma handle_record_create:
  fixes ds :: "(snet_dest \<times> 32 word) list"
  assumes "im_inv s"  and "im_pc s = MIdle"
  shows "\<exists>s'. bindR (foldR (\<lambda>s (d, cap). SNetInputManagerNewIn s d (SNetStreamCreate (sint cap))) s ds) UpdateIncoming = Ok s' \<and> im_inv s' \<and>
     im_pc s' = MIdle \<and> dest_key ` fst ` set ds \<subseteq> dom (key_lookup dest_key (im_dests s'))"
proof -
  obtain l where l: "foldR (\<lambda>s (d, cap). SNetInputManagerNewIn s d (SNetStreamCreate (sint cap))) s ds = Ok (s\<lparr>im_new := l\<rparr>)"
    "im_inv (s\<lparr>im_new := l\<rparr>)" "fst ` set (list_of l) = fst ` set (list_of (im_new s)) \<union> fst ` set ds"
    using new_in_all[OF assms(1), of ds] by (elim exE conjE)
  obtain s2 where s2: "UpdateIncoming (s\<lparr>im_new := l\<rparr>) = Ok s2" "im_inv s2" "im_pc s2 = MIdle"
    "dom (key_lookup dest_key (im_dests s2)) = dest_key ` fst ` set (list_of l) \<union> dom (key_lookup dest_key (im_dests s))"
    using update_incoming_ok[OF l(2)] assms(2) by auto
  have "dest_key ` fst ` set ds \<subseteq> dom (key_lookup dest_key (im_dests s2))" unfolding s2(4) l(3) by (simp add: image_Un le_supI1)
  with s2(1-3) show ?thesis unfolding l(1) bindR.simps by (intro exI[of _ s2] conjI)
qed

lemma handle_record_find:
  fixes s :: "'r imanager"
  assumes "im_inv s" and "im_pc s = MIdle"
  shows "\<exists>s2. im_inv s2 \<and> im_pc s2 = MIdle \<and>
     (key_lookup dest_key (im_dests s2) (dest_key dest) = None \<longrightarrow> \<not> registered s dest \<and> dest_key dest \<notin> dest_key ` fst ` set (route dest)) \<and>
     HandleRecord route s rec dest = HandleRecord_lookup s2 rec dest"
  using update_incoming_ok[OF assms]
proof (elim exE conjE)
  fix s1 assume s1: "UpdateIncoming s = Ok s1" "im_inv s1" "im_pc s1 = MIdle"
    "dom (key_lookup dest_key (im_dests s1)) = dest_key ` fst ` set (list_of (im_new s)) \<union> dom (key_lookup dest_key (im_dests s))"
  have k1: "key_ok dest_key (im_dests s1)" using s1(2) by (simp add: im_inv_def dests_ok_def)
  have r1: "registered s dest \<longleftrightarrow> dest_key dest \<in> dom (key_lookup dest_key (im_dests s1))" unfolding registered_def s1(4) by blast
  note start = HandleRecord_def[of route s rec dest, unfolded s1(1) bindR.simps SNetDestCompare_key MapContains_key[OF k1]]
  show ?thesis
  proof (cases "dest_key dest \<in> dom (key_lookup dest_key (im_dests s1))")
    case True
    then have "key_lookup dest_key (im_dests s1) (dest_key dest) \<noteq> None" by (simp add: dom_def)
    then show ?thesis using start[unfolded if_P[OF True] bindR.simps] by (intro exI[of _ s1] conjI s1(2,3)) auto
  next
    case False
    from handle_record_create[OF s1(2,3), of "route dest"] show ?thesis
    proof (elim exE conjE)
      fix s2 assume s2: "bindR (foldR (\<lambda>s (d, cap). SNetInputManagerNewIn s d (SNetStreamCreate (sint cap))) s1 (route dest)) UpdateIncoming = Ok s2"
        "im_inv s2" "im_pc s2 = MIdle" "dest_key ` fst ` set (route dest) \<subseteq> dom (key_lookup dest_key (im_dests s2))"
      have "key_lookup dest_key (im_dests s2) (dest_key dest) = None \<longrightarrow> dest_key dest \<notin> dest_key ` fst ` set (route dest)"
        using subsetD[OF s2(4), of "dest_key dest"] by (auto simp only: dom_def mem_Collect_eq)
      then show ?thesis using start[unfolded if_not_P[OF False] s2(1) bindR.simps] False r1 by (intro exI[of _ s2] conjI s2(2,3)) simp_all
    qed
  qed
qed

lemma handle_record_found:
  fixes s2 :: "'r imanager"
  assumes s2: "im_inv s2" "im_pc s2 = MIdle" "key_lookup dest_key (im_dests s2) (dest_key dest) = Some sd"
  shows "\<exists>s'. HandleRecord_lookup s2 rec dest = Ok s' \<and> im_inv s' \<and> im_pc s' \<noteq> MStopped"
proof -
  have inv2: "dests_ok s2" "key_ok dest_key (im_dests s2)" "bufs_ok s2" "new_ok s2" "queue_inv s2" using s2(1) by (simp_all add: im_inv_def dests_ok_def)
  note sd = dests_ok_D[OF inv2(1) s2(3)]
  have at: "buf_at s2 sd = Ok (im_bufs s2 ! sd)" using buf_at_Ok[OF inv2(3)] sd by simp
  have cb: "SNetStreamGetCallbackArg (b_stream (im_bufs s2 ! sd)) = Some sd"
    using bufs_ok_nth[OF inv2(3), of sd] sd unfolding SNetStreamGetCallbackArg_def ibuf_ok_def by blast
  have rest: "im_inv (s2\<lparr>im_dests := m, im_pc := MRec sd rec dest\<rparr>)"
    if "dests_ok (s2\<lparr>im_dests := m\<rparr>)" "SNetRecGetDescriptor rec = REC_terminate_descr \<longrightarrow> (\<forall>k. key_lookup dest_key m k \<noteq> Some sd)" for m
  proof -
    let ?s = "s2\<lparr>im_dests := m, im_pc := MRec sd rec dest\<rparr>"
    have "new_ok ?s" "dests_ok ?s" "queue_inv ?s" "bufs_ok ?s" using inv2(3-5) that(1) s2(2) by (simp_all add: new_ok_def dests_ok_def queue_inv_def bufs_ok_def)
    moreover have "pc_ok ?s" using that(2) sd by (simp add: pc_ok_def)
    ultimately show ?thesis by (simp add: im_inv_def)
  qed
  show ?thesis
  proof (cases "SNetRecGetDescriptor rec = REC_terminate_descr")
    case True
    obtain m where m: "MapTake SNetDestCompare (im_dests s2) dest = Ok (sd, m)" "key_ok dest_key m"
      "key_lookup dest_key m = (key_lookup dest_key (im_dests s2))(dest_key dest := None)"
      using MapTake_key[OF inv2(2) s2(3)] unfolding SNetDestCompare_key by blast
    have none: "key_lookup dest_key m k \<noteq> Some sd" for k using m(3) dests_ok_inj[OF inv2(1) s2(3), of k] by auto
    have "dests_ok (s2\<lparr>im_dests := m\<rparr>)" using inv2(1) m(2,3) unfolding dests_ok_def by (simp split: if_splits)
    moreover have "HandleRecord_lookup s2 rec dest = Ok (s2\<lparr>im_dests := m, im_pc := MRec sd rec dest\<rparr>)"
      using True m(1) at cb by (simp add: HandleRecord_lookup_def buf_at_def split: if_splits)
    ultimately show ?thesis using rest[of m] none by simp
  next
    case False
    have "HandleRecord_lookup s2 rec dest = Ok (s2\<lparr>im_pc := MRec sd rec dest\<rparr>)"
      using False at cb by (simp add: HandleRecord_lookup_def SNetDestCompare_key MapGet_key[OF inv2(2)] s2(3))
    moreover have "im_inv (s2\<lparr>im_pc := MRec sd rec dest\<rparr>)" using rest[of "im_dests s2"] False inv2(1) by simp
    ultimately show ?thesis by simp
  qed
qed

lemma handle_record_cases:
  fixes s :: "'r imanager"
  assumes "im_inv s" and "im_pc s = MIdle"
  shows "(\<exists>s'. HandleRecord route s rec dest = Ok s' \<and> im_inv s' \<and> im_pc s' \<noteq> MStopped) \<or>
     HandleRecord route s rec dest = Err AssertFail \<and> \<not> registered s dest \<and> dest_key dest \<notin> dest_key ` fst ` set (route dest)"
  using handle_record_find[OF assms, of dest route rec]
proof (elim exE conjE)
  fix s2 :: "'r imanager"
  assume s2: "im_inv s2" "im_pc s2 = MIdle"
    "key_lookup dest_key (im_dests s2) (dest_key dest) = None \<longrightarrow> \<not> registered s dest \<and> dest_key dest \<notin> dest_key ` fst ` set (route dest)"
    and start: "HandleRecord route s rec dest = HandleRecord_lookup s2 rec dest"
  have k: "key_ok dest_key (im_dests s2)" using s2(1) by (simp add: im_inv_def dests_ok_def)
  show ?thesis
  proof (cases "key_lookup dest_key (im_dests s2) (dest_key dest)")
    case None
    have "HandleRecord route s rec dest = Err AssertFail"
      unfolding start HandleRecord_lookup_def SNetDestCompare_key MapTake_missing[OF k None] MapGet_key[OF k] None by simp
    with s2(3) None show ?thesis by simp
  next
    case (Some sd)
    show ?thesis unfolding start by (rule disjI1) (rule handle_record_found[OF s2(1,2) Some])
  qed
qed

lemma handle_record_ok:
  assumes "im_inv s" and "im_pc s = MIdle" and "routes route"
  shows "\<exists>s'. HandleRecord route s rec dest = Ok s' \<and> im_inv s' \<and> im_pc s' \<noteq> MStopped"
  using handle_record_cases[OF assms(1,2), of route rec dest] assms(3) unfolding routes_def by blast

section \<open>Properties\<close>

text \<open>Schedules without the message that stops the manager (it is sent after all streams have been closed) and without unknown messages.\<close>

fun runs_on :: "'r im_event \<Rightarrow> bool" where
  "runs_on (Message m) = (m \<noteq> snet_stop \<and> m \<noteq> snet_unknown)"
| "runs_on _ = True"

lemma im_inv_calls: "im_inv s \<Longrightarrow> im_inv (s\<lparr>im_calls := c\<rparr>)"
proof -
  have "new_ok (s\<lparr>im_calls := c\<rparr>) = new_ok s" "dests_ok (s\<lparr>im_calls := c\<rparr>) = dests_ok s" "queue_inv (s\<lparr>im_calls := c\<rparr>) = queue_inv s"
    "bufs_ok (s\<lparr>im_calls := c\<rparr>) = bufs_ok s" "pc_ok (s\<lparr>im_calls := c\<rparr>) = pc_ok s"
    by (simp_all add: new_ok_def dests_ok_def queue_inv_def bufs_ok_def pc_ok_def)
  then show "im_inv s \<Longrightarrow> im_inv (s\<lparr>im_calls := c\<rparr>)" by (simp add: im_inv_def)
qed

lemma im_inv_stop:
  assumes "im_inv s" and "im_pc s = MIdle"
  shows "im_inv (s\<lparr>im_pc := MStopped, im_calls := c\<rparr>)"
proof -
  let ?s = "s\<lparr>im_pc := MStopped, im_calls := c\<rparr>"
  have "new_ok ?s = new_ok s" "dests_ok ?s = dests_ok s" "bufs_ok ?s = bufs_ok s" using assms(2) by (simp_all add: new_ok_def dests_ok_def bufs_ok_def)
  moreover have "queue_inv s \<Longrightarrow> queue_inv ?s" "pc_ok ?s" by (simp_all add: queue_inv_def pc_ok_def)
  ultimately show ?thesis using assms(1) by (simp add: im_inv_def)
qed

lemma im_exec_ok:
  assumes "im_inv s" and "im_pc s \<noteq> MStopped" and "routes route" and "runs_on e"
  shows "\<exists>s'. im_exec route s e = Ok s' \<and> im_inv s' \<and> im_pc s' \<noteq> MStopped"
proof (cases e)
  case (Message m)
  note calls = im_inv_calls[OF assms(1)]
  show ?thesis
  proof (cases "im_pc s = MIdle")
    case True
    then show ?thesis using handle_record_ok[OF assms(1) True assms(3)] calls assms(4) Message by (cases m) simp_all
  qed (use assms Message in simp)
next
  case (NewStream d cap)
  then show ?thesis using new_in_ok[OF assms(1) empty_stream_create, of d cap] assms(2) by auto
next
  case Manager
  then show ?thesis using manager_step_ok[OF assms(1)] assms(2) by auto
next
  case (Reader b)
  then show ?thesis using reader_step_ok[OF assms(1), of b] assms(2) by auto
qed

text \<open>
  What the manager refuses when it waits for a message: an unknown message, the message to stop while a destination is left, and a record for
  a destination that is not registered and that \<open>SNetRouteNewDynamic\<close> does not register either.
\<close>

fun im_refuses :: "(snet_dest \<Rightarrow> (snet_dest \<times> 32 word) list) \<Rightarrow> 'r imanager \<Rightarrow> 'r im_event \<Rightarrow> c_error \<Rightarrow> bool" where
  "im_refuses route s (Message (snet_rec rec dest)) x \<longleftrightarrow>
     x = AssertFail \<and> im_pc s = MIdle \<and> \<not> registered s dest \<and> dest_key dest \<notin> dest_key ` fst ` set (route dest)"
| "im_refuses route s (Message snet_stop) x \<longleftrightarrow> x = AssertFail \<and> im_pc s = MIdle \<and> MapSize (im_dests s) \<noteq> 0"
| "im_refuses route s (Message snet_unknown) x \<longleftrightarrow> x = FatalError \<and> im_pc s = MIdle"
| "im_refuses route s _ x \<longleftrightarrow> False"

lemma im_exec_cases:
  assumes "im_inv s"
  shows "case im_exec route s e of Ok t \<Rightarrow> im_inv t | Err x \<Rightarrow> im_refuses route s e x"
proof (cases e)
  case (Message m)
  note calls = im_inv_calls[OF assms] and stop = im_inv_stop[OF assms]
  show ?thesis
  proof (cases "im_pc s = MIdle")
    case True
    show ?thesis
    proof (cases m)
      case (snet_rec rec dest)
      have e: "im_exec route s e = HandleRecord route s rec dest" using True Message snet_rec by simp
      show ?thesis
      proof (cases "HandleRecord route s rec dest")
        case (Ok t)
        then show ?thesis using handle_record_cases[OF assms True, of route rec dest] unfolding e by simp
      next
        case (Err x)
        then show ?thesis using handle_record_cases[OF assms True, of route rec dest] True unfolding e Message snet_rec by simp
      qed
    qed (use True Message calls stop[OF True] in \<open>simp_all add: assertR_def\<close>)
  qed (use assms Message in simp)
next
  case (NewStream d cap)
  then show ?thesis using new_in_ok[OF assms empty_stream_create, of d cap] by auto
next
  case Manager
  then show ?thesis using manager_step_ok[OF assms] by auto
next
  case (Reader b)
  then show ?thesis using reader_step_ok[OF assms, of b] by auto
qed

lemma im_run_cases:
  assumes "im_inv s"
  shows "foldR (im_exec route) s es = Ok t \<Longrightarrow> im_inv t"
    and "foldR (im_exec route) s es = Err x \<Longrightarrow> \<exists>es1 e es2 t. es = es1 @ e # es2 \<and> foldR (im_exec route) s es1 = Ok t \<and> im_refuses route t e x"
  using assms
proof (induction es arbitrary: s)
  case (Cons e es)
  {
    case 1
    note step = im_exec_cases[OF 1(2), of route e]
    from 1 obtain u where u: "im_exec route s e = Ok u" "foldR (im_exec route) u es = Ok t" by (cases "im_exec route s e") auto
    then show ?case using step Cons.IH(1)[OF u(2)] by simp
  next
    case 2
    note step = im_exec_cases[OF 2(2), of route e]
    show ?case
    proof (cases "im_exec route s e")
      case (Ok u)
      then have "im_inv u" "foldR (im_exec route) u es = Err x" using step 2 by simp_all
      from Cons.IH(2)[OF this(2,1)] obtain es1 e' es2 w where "es = es1 @ e' # es2" "foldR (im_exec route) u es1 = Ok w" "im_refuses route w e' x" by blast
      then show ?thesis using Ok by (intro exI[of _ "e # es1"] exI[of _ e'] exI[of _ es2] exI[of _ w]) simp
    next
      case (Err y)
      then show ?thesis using step 2 by (intro exI[of _ "[]"] exI[of _ e] exI[of _ es] exI[of _ s]) simp
    qed
  }
qed simp_all

lemma im_init_ok: "\<exists>s. SNetInputManagerInit = Ok s \<and> im_inv s \<and> im_pc s \<noteq> MStopped"
proof -
  note e = list_inv_fresh[of "[] :: nat list"] list_of_fresh[of "[] :: nat list"]
    list_inv_fresh[of "[] :: (snet_dest \<times> 'a snet_record snet_stream) list"] list_of_fresh[of "[] :: (snet_dest \<times> 'a snet_record snet_stream) list"]
    ListCreate_Ok[of "[] :: nat list"] ListCreate_Ok[of "[] :: (snet_dest \<times> 'a snet_record snet_stream) list"] MapCreate_Ok[of "[] :: (snet_dest \<times> nat) list"]
  show ?thesis using e by (simp add: SNetInputManagerInit_def im_inv_def new_ok_def dests_ok_def queue_inv_def bufs_ok_def pc_ok_def del: list_of_Nil_iff list_of_fresh)
qed

lemma im_run_ok:
  assumes "routes route" and "\<forall>e\<in>set es. runs_on e"
  shows "\<exists>s. SNetInputManager route es = Ok s \<and> im_inv s \<and> im_pc s \<noteq> MStopped"
proof -
  obtain s0 :: "'a imanager" where s0: "SNetInputManagerInit = Ok s0" "im_inv s0 \<and> im_pc s0 \<noteq> MStopped" using im_init_ok by blast
  have "\<exists>s. foldR (im_exec route) s0 es = Ok s \<and> im_inv s \<and> im_pc s \<noteq> MStopped"
    by (rule foldR_Ok_if[where I = "\<lambda>s. im_inv s \<and> im_pc s \<noteq> MStopped", OF s0(2)]) (use im_exec_ok[OF _ _ assms(1)] assms(2) in blast)
  then show ?thesis unfolding SNetInputManager_def s0(1) bindR.simps .
qed


text \<open>
  C13. Whatever messages arrive, whatever \<open>SNetRouteNewDynamic\<close> registers for an unknown destination, and however the threads are interleaved:
  the input manager either goes on or stops at a message that it must refuse (an unknown message, a message to stop while a destination
  is left, a record for a destination that is neither registered nor gets registered by \<open>SNetRouteNewDynamic\<close>). In
  particular no buffer is used after it was freed and no other assertion fails. As long as it goes on, the records received for a destination are, in
  their order, the records read from its stream, the records in the stream and the records kept in the list. The messages to the
  sender alternate between block and unblock, and outside of \<open>UpdateBlocked\<close> the sender of an open stream is blocked exactly if the list is not empty.
\<close>

theorem imanager_order:
  "case SNetInputManager route es of
     Ok s \<Rightarrow>
       (\<forall>buf\<in>set (im_bufs s). map Some (b_recvd buf) = b_got buf @ contents (b_stream buf) @ map Some (list_of (b_list buf))) \<and>
       (\<forall>b<length (im_bufs s). b_flow (im_bufs s ! b) = map even [0..<length (b_flow (im_bufs s ! b))] \<and>
          (\<not> b_done (im_bufs s ! b) \<longrightarrow> im_pc s \<noteq> MWrite b \<longrightarrow> (odd (length (b_flow (im_bufs s ! b))) \<longleftrightarrow> list_of (b_list (im_bufs s ! b)) \<noteq> [])))
   | Err x \<Rightarrow> \<exists>es1 e es2 s. es = es1 @ e # es2 \<and> SNetInputManager route es1 = Ok s \<and> im_refuses route s e x"
proof -
  obtain s0 :: "'a imanager" where s0: "SNetInputManagerInit = Ok s0" "im_inv s0" using im_init_ok by blast
  have run: "SNetInputManager route fs = foldR (im_exec route) s0 fs" for fs by (simp only: SNetInputManager_def s0(1) bindR.simps)
  show ?thesis
  proof (cases "SNetInputManager route es")
    case (Err x)
    then show ?thesis using im_run_cases(2)[OF s0(2), where route = route and es = es and x = x] by (simp add: run)
  next
    case (Ok s)
    then have ok: "bufs_ok s" using im_run_cases(1)[OF s0(2), where route = route and es = es and t = s] by (simp add: run im_inv_def)
    have "phase (im_pc s) b \<noteq> PWriting" if "im_pc s \<noteq> MWrite b" for b using that by (cases "im_pc s") auto
    then have "(\<forall>b<length (im_bufs s). b_flow (im_bufs s ! b) = map even [0..<length (b_flow (im_bufs s ! b))] \<and>
          (\<not> b_done (im_bufs s ! b) \<longrightarrow> im_pc s \<noteq> MWrite b \<longrightarrow> (odd (length (b_flow (im_bufs s ! b))) \<longleftrightarrow> list_of (b_list (im_bufs s ! b)) \<noteq> [])))"
      using buf_flow[OF bufs_ok_nth[OF ok]] unfolding alternates_def blocked_def by blast
    moreover have "\<forall>buf\<in>set (im_bufs s). map Some (b_recvd buf) = b_got buf @ contents (b_stream buf) @ map Some (list_of (b_list buf))"
      using buf_order[OF bufs_ok_nth[OF ok]] by (metis in_set_conv_nth)
    ultimately show ?thesis by (simp add: Ok)
  qed
qed

definition example_route :: "snet_dest \<Rightarrow> (snet_dest \<times> 32 word) list" where
  "example_route d = [(d, 1)]"

text \<open>A stream for one record; two records arrive, the second one is kept until the reader has taken the first one.\<close>

definition example_schedule :: "nat im_event list" where
  "example_schedule = [NewStream root_dest 1, Message (snet_rec REC_wakeup root_dest), Manager, Message (snet_rec (REC_terminate True) root_dest), Manager,
     Reader 0, Reader 0, Reader 0, Manager, Manager, Manager, Manager, Manager, Manager, Reader 0, Reader 0]"

lemma example_route_ok: "routes example_route" "\<forall>e\<in>set example_schedule. runs_on e"
  by (simp_all add: routes_def example_route_def example_schedule_def)

text \<open>The same schedule with a creation of networks that registers nothing, followed by a record for another destination.\<close>

definition other_dest :: snet_dest where
  "other_dest = root_dest\<lparr>d_dest := 99\<rparr>"

lemma example_run: "case SNetInputManager (\<lambda>d. []) example_schedule of Ok s \<Rightarrow> length (im_bufs s) = 1 | Err x \<Rightarrow> False"
  "case SNetInputManager (\<lambda>d. []) (example_schedule @ [Message (snet_rec REC_wakeup other_dest)]) of Ok s \<Rightarrow> False | Err x \<Rightarrow> x = AssertFail"
  by code_simp+

theorem imanager_order_witness:
  "(\<exists>s. SNetInputManager (\<lambda>d. []) example_schedule = Ok s \<and>
      (\<forall>buf\<in>set (im_bufs s). map Some (b_recvd buf) = b_got buf @ contents (b_stream buf) @ map Some (list_of (b_list buf))) \<and>
      b_flow (im_bufs s ! 0) = map even [0..<length (b_flow (im_bufs s ! 0))]) \<and>
   (\<exists>es1 e es2 s. example_schedule @ [Message (snet_rec REC_wakeup other_dest)] = es1 @ e # es2 \<and> SNetInputManager (\<lambda>d. []) es1 = Ok s \<and>
      im_refuses (\<lambda>d. []) s e AssertFail)"
proof -
  obtain s where s: "SNetInputManager (\<lambda>d. []) example_schedule = Ok s" "length (im_bufs s) = 1"
    using example_run(1) by (cases "SNetInputManager (\<lambda>d. []) example_schedule") auto
  have x: "SNetInputManager (\<lambda>d. []) (example_schedule @ [Message (snet_rec REC_wakeup other_dest)]) = Err AssertFail"
    using example_run(2) by (cases "SNetInputManager (\<lambda>d. []) (example_schedule @ [Message (snet_rec REC_wakeup other_dest)])") auto
  show ?thesis
    using imanager_order[where route = "\<lambda>d. []" and es = example_schedule]
      imanager_order[where route = "\<lambda>d. []" and es = "example_schedule @ [Message (snet_rec REC_wakeup other_dest)]"] s(2)
    unfolding s(1) x res.case by simp
qed



text \<open>
  C15. The unsigned counter of a buffer is the number of items in the stream plus a pending callback; it never exceeds the
  capacity of the stream by more than one, so neither the increments nor the decrements wrap around.
\<close>

theorem imanager_counter_bound:
  assumes "routes route" and "\<forall>e\<in>set es. runs_on e"
  shows "\<exists>s. SNetInputManager route es = Ok s \<and>
     (\<forall>buf\<in>set (im_bufs s). unat (b_counter buf) = s_count (b_stream buf) + (if b_reader buf = RCall then 1 else 0) \<and>
        unat (b_counter buf) \<le> s_size (b_stream buf) + 1 \<and> s_size (b_stream buf) < 2 ^ 31)"
proof -
  obtain s where s: "SNetInputManager route es = Ok s" "bufs_ok s" using im_run_ok[OF assms] unfolding im_inv_def by blast
  have "unat (b_counter buf) = s_count (b_stream buf) + (if b_reader buf = RCall then 1 else 0) \<and>
        unat (b_counter buf) \<le> s_size (b_stream buf) + 1 \<and> s_size (b_stream buf) < 2 ^ 31" if "buf \<in> set (im_bufs s)" for buf
  proof -
    obtain b where b: "b < length (im_bufs s)" "buf = im_bufs s ! b" using \<open>buf \<in> _\<close> by (auto simp: in_set_conv_nth)
    note ok = bufs_ok_nth[OF s(2) b(1), folded b(2)]
    have "unat (b_counter buf) = s_count (b_stream buf) + (if b_reader buf = RCall then 1 else 0)" using ok unfolding ibuf_ok_def by blast
    with buf_counter[OF ok] show ?thesis by blast
  qed
  then show ?thesis using s(1) by blast
qed

theorem imanager_counter_bound_witness:
  "\<exists>s. SNetInputManager example_route example_schedule = Ok s \<and>
     (\<forall>buf\<in>set (im_bufs s). unat (b_counter buf) = s_count (b_stream buf) + (if b_reader buf = RCall then 1 else 0) \<and>
        unat (b_counter buf) \<le> s_size (b_stream buf) + 1 \<and> s_size (b_stream buf) < 2 ^ 31)"
  by (rule imanager_counter_bound[OF example_route_ok])

end
