(* ===== verification/Output_Manager.thy ===== *)
theory Output_Manager
  imports Distrib_Common Streamset Snet_Stream Snet_Record
begin

text \<open>
  The output manager of a node (\<open>distrib/common/omanager.c\<close>): a thread that polls the streams to other nodes and sends their
  records to the destinations. The streams are in two sets, \<open>waiting\<close> (polled) and \<open>blocked\<close> (the receiver asked to stop);
  other threads register streams and block or unblock destinations by lists under a mutex and wake the manager up by a token in a stream of
  capacity one. The sections under the mutex are atomic; other threads may run in between.
\<close>

section \<open>State\<close>

text \<open>
  Where the manager is: not started, before the first \<open>UpdateOutgoing\<close>, at the test of \<open>running\<close>, in the poll, before \<open>UpdateOutgoing\<close> and before the
  two calls of \<open>UpdateBlocked\<close> after a wake-up, or finished.
\<close>

datatype om_pc = ONot | OStart | OPoll | OWait | OOut | OBlock | OUnblock | OEnd

text \<open>
  Descriptors are addresses, 0 is NULL and 1 the descriptor of the wake-up stream; the descriptor \<open>i + 2\<close> is open on the stream \<open>om_streams ! i\<close>.
\<close>

record 'r omanager =
  om_nxt :: next_store
  om_waiting :: snet_streamset
  om_blocked :: snet_streamset
  om_map :: "(nat, snet_dest) snet_map"
  om_new :: "(snet_dest \<times> stream_id) snet_list"
  om_newBlocked :: "snet_dest snet_list"
  om_newUnblocked :: "snet_dest snet_list"
  om_wakeup :: "nat snet_stream option"
  om_running :: bool
  om_pc :: om_pc
  om_streams :: "stream_id list"
  om_sent :: "(snet_dest \<times> 'r snet_record) list"

section \<open>Operations\<close>

definition SNetOutputManagerInit :: "'r omanager res" where
  "SNetOutputManagerInit =
     bindR (ListCreate []) (\<lambda>ns. bindR (ListCreate []) (\<lambda>nb. bindR (ListCreate []) (\<lambda>nu. bindR (MapCreate []) (\<lambda>m.
     Ok \<lparr>om_nxt = (\<lambda>_. None), om_waiting = None, om_blocked = None, om_map = m, om_new = ns, om_newBlocked = nb, om_newUnblocked = nu,
         om_wakeup = None, om_running = True, om_pc = ONot, om_streams = [], om_sent = []\<rparr>))))"

text \<open>The start creates the wake-up stream; the task opens it and puts it into the set.\<close>

definition SNetOutputManagerStart :: "'r omanager \<Rightarrow> 'r omanager" where
  "SNetOutputManagerStart s =
     (let (nxt, w) = SNetStreamsetPut (om_nxt s) None 1 in
      s\<lparr>om_wakeup := Some (SNetStreamCreate 1), om_nxt := nxt, om_waiting := w, om_pc := OStart\<rparr>)"

definition wake_up :: "'r omanager \<Rightarrow> 'r omanager res" where
  "wake_up s =
     (case om_wakeup s of
        None \<Rightarrow> Err NullDeref
      | Some w \<Rightarrow> bindR (SNetStreamTryWrite w (Some 1)) (\<lambda>(_, w). Ok (s\<lparr>om_wakeup := Some w\<rparr>)))"

definition SNetOutputManagerNewOut :: "'r omanager \<Rightarrow> snet_dest \<Rightarrow> stream_id \<Rightarrow> 'r omanager res" where
  "SNetOutputManagerNewOut s dest stream =
     bindR (ListAppendEnd (om_new s) (dest, stream)) (\<lambda>l.
     let s = s\<lparr>om_new := l\<rparr> in if om_wakeup s \<noteq> None then wake_up s else Ok s)"

definition UpdateState :: "'r omanager \<Rightarrow> snet_dest \<Rightarrow> bool \<Rightarrow> 'r omanager res" where
  "UpdateState s dest block =
     (if block then bindR (ListAppendEnd (om_newBlocked s) dest) (\<lambda>l. wake_up (s\<lparr>om_newBlocked := l\<rparr>))
      else bindR (ListAppendEnd (om_newUnblocked s) dest) (\<lambda>l. wake_up (s\<lparr>om_newUnblocked := l\<rparr>)))"

definition SNetOutputManagerBlock :: "'r omanager \<Rightarrow> snet_dest \<Rightarrow> 'r omanager res" where
  "SNetOutputManagerBlock s dest = UpdateState s dest True"

definition SNetOutputManagerUnblock :: "'r omanager \<Rightarrow> snet_dest \<Rightarrow> 'r omanager res" where
  "SNetOutputManagerUnblock s dest = UpdateState s dest False"

definition SNetOutputManagerStop :: "'r omanager \<Rightarrow> 'r omanager res" where
  "SNetOutputManagerStop s = wake_up (s\<lparr>om_running := False\<rparr>)"

definition add_outgoing :: "'r omanager \<Rightarrow> snet_dest \<times> stream_id \<Rightarrow> 'r omanager res" where
  "add_outgoing s = (\<lambda>(dest, stream).
     let sd = length (om_streams s) + 2 in
     bindR (MapSet (=) (om_map s) sd dest) (\<lambda>m.
     let (nxt, w) = SNetStreamsetPut (om_nxt s) (om_waiting s) sd in
     Ok (s\<lparr>om_streams := om_streams s @ [stream], om_map := m, om_nxt := nxt, om_waiting := w\<rparr>)))"

definition UpdateOutgoing :: "'r omanager \<Rightarrow> 'r omanager res" where
  "UpdateOutgoing s = bindR (LIST_DEQUEUE_EACH (om_new s)) (\<lambda>(ts, l). foldR add_outgoing (s\<lparr>om_new := l\<rparr>) ts)"

text \<open>\<open>UpdateBlocked\<close> moves the streams of the destinations from one set to the other; the number of descriptors bounds the search in a set.\<close>

definition move_stream ::
  "nat \<Rightarrow> (nat, snet_dest) snet_map \<Rightarrow> next_store \<times> snet_streamset \<times> snet_streamset \<Rightarrow> snet_dest \<Rightarrow> (next_store \<times> snet_streamset \<times> snet_streamset) res" where
  "move_stream fuel m = (\<lambda>(nxt, oldSet, newSet) dest.
     bindR (MapFindVal SNetDestCompare m dest 0) (\<lambda>sd.
     if sd \<noteq> 0 then
       bindR (SNetStreamsetRemove fuel nxt oldSet sd) (\<lambda>(_, nxt, oldSet).
       let (nxt, newSet) = SNetStreamsetPut nxt newSet sd in Ok (nxt, oldSet, newSet))
     else Ok (nxt, oldSet, newSet)))"

definition UpdateBlocked ::
  "nat \<Rightarrow> (nat, snet_dest) snet_map \<Rightarrow> snet_dest snet_list \<Rightarrow> next_store \<times> snet_streamset \<times> snet_streamset \<Rightarrow>
   (snet_dest snet_list \<times> next_store \<times> snet_streamset \<times> snet_streamset) res" where
  "UpdateBlocked fuel m list sets =
     bindR (LIST_DEQUEUE_EACH list) (\<lambda>(ds, l). bindR (foldR (move_stream fuel m) sets ds) (\<lambda>sets. Ok (l, sets)))"

abbreviation om_fuel :: "'r omanager \<Rightarrow> nat" where
  "om_fuel s \<equiv> length (om_streams s) + 2"

definition block_new :: "'r omanager \<Rightarrow> 'r omanager res" where
  "block_new s =
     bindR (UpdateBlocked (om_fuel s) (om_map s) (om_newBlocked s) (om_nxt s, om_waiting s, om_blocked s)) (\<lambda>(l, nxt, w, b).
     Ok (s\<lparr>om_newBlocked := l, om_nxt := nxt, om_waiting := w, om_blocked := b\<rparr>))"

definition unblock_new :: "'r omanager \<Rightarrow> 'r omanager res" where
  "unblock_new s =
     bindR (UpdateBlocked (om_fuel s) (om_map s) (om_newUnblocked s) (om_nxt s, om_blocked s, om_waiting s)) (\<lambda>(l, nxt, b, w).
     Ok (s\<lparr>om_newUnblocked := l, om_nxt := nxt, om_waiting := w, om_blocked := b\<rparr>))"

text \<open>A record from the polled stream \<open>sd\<close>, which the poll has made the handle of the set.\<close>

fun send_record :: "'r omanager \<Rightarrow> nat \<Rightarrow> 'r snet_record \<Rightarrow> 'r omanager res" where
  "send_record s sd (REC_sync stream v) = Ok (s\<lparr>om_streams := (om_streams s)[sd - 2 := stream]\<rparr>)"
| "send_record s sd (REC_terminate b) =
     bindR (MapTake (=) (om_map s) sd) (\<lambda>(dest, m).
     bindR (SNetStreamsetRemove (om_fuel s) (om_nxt s) (om_waiting s) sd) (\<lambda>(_, nxt, w).
     Ok (s\<lparr>om_map := m, om_nxt := nxt, om_waiting := w, om_sent := om_sent s @ [(dest, REC_terminate b)]\<rparr>)))"
| "send_record s sd rec = bindR (MapGet (=) (om_map s) sd) (\<lambda>dest. Ok (s\<lparr>om_sent := om_sent s @ [(dest, rec)]\<rparr>))"

definition finish :: "'r omanager \<Rightarrow> 'r omanager res" where
  "finish s =
     bindR (SNetStreamsetRemove (om_fuel s) (om_nxt s) (om_waiting s) 1) (\<lambda>(_, nxt, w).
     bindR (assertR (MapSize (om_map s) = 0)) (\<lambda>_. bindR (assertR (w = None)) (\<lambda>_. bindR (assertR (om_blocked s = None)) (\<lambda>_.
     Ok (s\<lparr>om_nxt := nxt, om_waiting := w, om_wakeup := None, om_pc := OEnd\<rparr>)))))"

section \<open>Threads\<close>

text \<open>
  The events: the other threads, the next section of the manager, and \<open>Poll k rec\<close>, where the poll finds the \<open>k\<close>-th stream of the set ready and, if
  that is not the wake-up stream, \<open>rec\<close> is the record in it.
\<close>

datatype 'r om_event =
    Start | NewOut snet_dest stream_id | Block snet_dest | Unblock snet_dest | Stop | Section | Poll nat "'r snet_record"

fun follow :: "next_store \<Rightarrow> nat \<Rightarrow> nat \<Rightarrow> nat res" where
  "follow nxt 0 a = Ok a"
| "follow nxt (Suc k) a = (case nxt a of None \<Rightarrow> Err NullDeref | Some b \<Rightarrow> follow nxt k b)"

definition poll :: "'r omanager \<Rightarrow> nat \<Rightarrow> 'r snet_record \<Rightarrow> 'r omanager res" where
  "poll s k rec =
     (case om_waiting s of
        None \<Rightarrow> Err AssertFail
      | Some h \<Rightarrow>
          bindR (follow (om_nxt s) k h) (\<lambda>sd.
          if sd = 1 then
            (case om_wakeup s of
               None \<Rightarrow> Err NullDeref
             | Some w \<Rightarrow>
                 if s_count w = 0 then Ok s
                 else bindR (SNetStreamRead w) (\<lambda>(_, w, _). Ok (s\<lparr>om_wakeup := Some w, om_waiting := Some sd, om_pc := OOut\<rparr>)))
          else send_record (s\<lparr>om_waiting := Some sd, om_pc := OPoll\<rparr>) sd rec))"

fun om_section :: "om_pc \<Rightarrow> 'r omanager \<Rightarrow> 'r omanager res" where
  "om_section OStart s = bindR (UpdateOutgoing s) (\<lambda>s. Ok (s\<lparr>om_pc := OPoll\<rparr>))"
| "om_section OOut s = bindR (UpdateOutgoing s) (\<lambda>s. Ok (s\<lparr>om_pc := OBlock\<rparr>))"
| "om_section OBlock s = bindR (block_new s) (\<lambda>s. Ok (s\<lparr>om_pc := OUnblock\<rparr>))"
| "om_section OUnblock s = bindR (unblock_new s) (\<lambda>s. Ok (s\<lparr>om_pc := OPoll\<rparr>))"
| "om_section OPoll s = (if om_running s then Ok (s\<lparr>om_pc := OWait\<rparr>) else finish s)"
| "om_section _ s = Ok s"

fun om_exec :: "'r omanager \<Rightarrow> 'r om_event \<Rightarrow> 'r omanager res" where
  "om_exec s Start = (if om_pc s = ONot then Ok (SNetOutputManagerStart s) else Ok s)"
| "om_exec s (NewOut dest stream) = SNetOutputManagerNewOut s dest stream"
| "om_exec s (Block dest) = SNetOutputManagerBlock s dest"
| "om_exec s (Unblock dest) = SNetOutputManagerUnblock s dest"
| "om_exec s Stop = SNetOutputManagerStop s"
| "om_exec s Section = om_section (om_pc s) s"
| "om_exec s (Poll k rec) = (if om_pc s = OWait then poll s k rec else Ok s)"

definition SNetOutputManager :: "'r om_event list \<Rightarrow> 'r omanager res" where
  "SNetOutputManager es = bindR SNetOutputManagerInit (\<lambda>s. foldR om_exec s es)"

section \<open>Wake-ups\<close>

text \<open>Everything that is left to do is announced by the token, or the manager is on its way to the section that does it.\<close>

definition token :: "'r omanager \<Rightarrow> bool" where
  "token s \<longleftrightarrow> (\<exists>w. om_wakeup s = Some w \<and> 0 < s_count w)"

definition wake_inv :: "'r omanager \<Rightarrow> bool" where
  "wake_inv s \<longleftrightarrow>
     list_inv (om_new s) \<and> list_inv (om_newBlocked s) \<and> list_inv (om_newUnblocked s) \<and>
     (om_wakeup s = None \<longleftrightarrow> om_pc s \<in> {ONot, OEnd}) \<and> (\<forall>w. om_wakeup s = Some w \<longrightarrow> stream_inv w \<and> s_size w = 1) \<and>
     (0 < lused (om_new s) \<longrightarrow> token s \<or> om_pc s \<in> {ONot, OStart, OOut, OEnd}) \<and>
     (0 < lused (om_newBlocked s) \<longrightarrow> token s \<or> om_pc s \<in> {OOut, OBlock, OEnd}) \<and>
     (0 < lused (om_newUnblocked s) \<longrightarrow> token s \<or> om_pc s \<in> {OOut, OBlock, OUnblock, OEnd}) \<and>
     (\<not> om_running s \<longrightarrow> token s \<or> om_pc s \<noteq> OWait)"

lemma wake_up_inv:
  assumes "wake_up s = Ok s'" and "\<forall>w. om_wakeup s = Some w \<longrightarrow> stream_inv w \<and> s_size w = 1"
  shows "\<exists>w. s' = s\<lparr>om_wakeup := Some w\<rparr> \<and> om_wakeup s \<noteq> None \<and> stream_inv w \<and> s_size w = 1 \<and> 0 < s_count w"
proof -
  from assms(1) obtain w r w' where w: "om_wakeup s = Some w" "SNetStreamTryWrite w (Some 1) = Ok (r, w')" "s' = s\<lparr>om_wakeup := Some w'\<rparr>"
    by (auto simp: wake_up_def split: option.splits)
  have inv: "stream_inv w" "s_size w = 1" using assms(2) w(1) by auto
  show ?thesis
  proof (cases "s_count w = s_size w")
    case True
    then show ?thesis using w inv by (auto simp: SNetStreamTryWrite_def)
  next
    case False
    then have "s_count w < s_size w" using inv by (simp add: stream_inv_def)
    then show ?thesis using SNetStreamWrite_spec[OF inv(1), of "Some 1"] w inv False by (auto simp: SNetStreamTryWrite_def)
  qed
qed

lemma wake_up_keeps:
  assumes "wake_up s = Ok s'" and "\<forall>w. om_wakeup s = Some w \<longrightarrow> stream_inv w \<and> s_size w = 1" and "om_wakeup s = None \<longleftrightarrow> om_pc s \<in> {ONot, OEnd}"
    and "list_inv (om_new s)" and "list_inv (om_newBlocked s)" and "list_inv (om_newUnblocked s)"
  shows "wake_inv s'"
  using wake_up_inv[OF assms(1,2)] assms(3-6) by (auto simp: wake_inv_def token_def)

lemma add_outgoing_keeps:
  "foldR add_outgoing s ts = Ok s' \<Longrightarrow> om_new s' = om_new s \<and> om_newBlocked s' = om_newBlocked s \<and> om_newUnblocked s' = om_newUnblocked s \<and>
     om_wakeup s' = om_wakeup s \<and> om_pc s' = om_pc s \<and> om_running s' = om_running s"
proof (induction ts arbitrary: s)
  case (Cons t ts)
  then obtain s1 where s1: "add_outgoing s t = Ok s1" "foldR add_outgoing s1 ts = Ok s'" by auto
  have "om_new s1 = om_new s \<and> om_newBlocked s1 = om_newBlocked s \<and> om_newUnblocked s1 = om_newUnblocked s \<and>
     om_wakeup s1 = om_wakeup s \<and> om_pc s1 = om_pc s \<and> om_running s1 = om_running s"
    using s1(1) by (auto simp: add_outgoing_def Let_def case_prod_unfold)
  then show ?case using Cons.IH[OF s1(2)] by simp
qed simp

lemma UpdateOutgoing_keeps:
  assumes "UpdateOutgoing s = Ok s'" and "list_inv (om_new s)"
  shows "list_inv (om_new s') \<and> lused (om_new s') = 0 \<and> om_newBlocked s' = om_newBlocked s \<and> om_newUnblocked s' = om_newUnblocked s \<and>
     om_wakeup s' = om_wakeup s \<and> om_pc s' = om_pc s \<and> om_running s' = om_running s"
proof -
  obtain l where l: "LIST_DEQUEUE_EACH (om_new s) = Ok (list_of (om_new s), l)" "list_inv l" "list_of l = []"
    using LIST_DEQUEUE_EACH_spec[OF assms(2)] by blast
  then show ?thesis using assms(1) add_outgoing_keeps[of "s\<lparr>om_new := l\<rparr>"] by (auto simp: UpdateOutgoing_def)
qed

lemma UpdateBlocked_list:
  assumes "UpdateBlocked fuel m l sets = Ok (l', sets')" and "list_inv l"
  shows "list_inv l' \<and> lused l' = 0"
  using LIST_DEQUEUE_EACH_spec[OF assms(2)] assms(1) by (auto simp: UpdateBlocked_def)

lemma send_record_keeps:
  "send_record s sd rec = Ok s' \<Longrightarrow> om_new s' = om_new s \<and> om_newBlocked s' = om_newBlocked s \<and> om_newUnblocked s' = om_newUnblocked s \<and>
     om_wakeup s' = om_wakeup s \<and> om_pc s' = om_pc s \<and> om_running s' = om_running s"
  by (cases rec) auto

lemma poll_keeps:
  assumes "poll s k rec = Ok s'" and "wake_inv s" and "om_pc s = OWait"
  shows "wake_inv s'"
proof -
  obtain w where w: "om_wakeup s = Some w" "stream_inv w" "s_size w = 1" using assms(2,3) by (auto simp: wake_inv_def)
  obtain h sd where sd: "om_waiting s = Some h" "follow (om_nxt s) k h = Ok sd" using assms(1) by (auto simp: poll_def split: option.splits)
  show ?thesis
  proof (cases "sd = 1 \<and> s_count w \<noteq> 0")
    case True
    then obtain x w' where r: "SNetStreamRead w = Ok (x, w', s_count w = s_size w)" "stream_inv w'" "s_size w' = s_size w"
      using SNetStreamRead_spec[OF w(2)] by auto
    then have "s' = s\<lparr>om_wakeup := Some w', om_waiting := Some 1, om_pc := OOut\<rparr>" using assms(1) True sd w by (simp add: poll_def)
    then show ?thesis using assms(2,3) r w by (auto simp: wake_inv_def)
  next
    case False
    show ?thesis
    proof (cases "sd = 1")
      case True
      then have "s' = s" using assms(1) False sd w by (simp add: poll_def)
      then show ?thesis using assms(2) by simp
    next
      case False
      then have "send_record (s\<lparr>om_waiting := Some sd, om_pc := OPoll\<rparr>) sd rec = Ok s'" using assms(1) sd by (simp add: poll_def)
      then show ?thesis using send_record_keeps assms(2,3) w by (fastforce simp: wake_inv_def token_def)
    qed
  qed
qed

lemma section_keeps:
  assumes "om_section (om_pc s) s = Ok s'" and "wake_inv s"
  shows "wake_inv s'"
proof (cases "om_pc s")
  case OPoll
  then show ?thesis using assms by (auto simp: wake_inv_def token_def finish_def split: if_splits)
next
  case OStart
  then show ?thesis using assms UpdateOutgoing_keeps[of s] by (auto simp: wake_inv_def token_def)
next
  case OOut
  then show ?thesis using assms UpdateOutgoing_keeps[of s] by (auto simp: wake_inv_def token_def)
next
  case OBlock
  with assms(1) obtain l nxt w b where "UpdateBlocked (om_fuel s) (om_map s) (om_newBlocked s) (om_nxt s, om_waiting s, om_blocked s) = Ok (l, nxt, w, b)"
    "s' = s\<lparr>om_newBlocked := l, om_nxt := nxt, om_waiting := w, om_blocked := b, om_pc := OUnblock\<rparr>" by (auto simp: block_new_def)
  with UpdateBlocked_list show ?thesis using assms(2) OBlock by (fastforce simp: wake_inv_def token_def)
next
  case OUnblock
  with assms(1) obtain l nxt w b where "UpdateBlocked (om_fuel s) (om_map s) (om_newUnblocked s) (om_nxt s, om_blocked s, om_waiting s) = Ok (l, nxt, b, w)"
    "s' = s\<lparr>om_newUnblocked := l, om_nxt := nxt, om_waiting := w, om_blocked := b, om_pc := OPoll\<rparr>" by (auto simp: unblock_new_def)
  with UpdateBlocked_list show ?thesis using assms(2) OUnblock by (fastforce simp: wake_inv_def token_def)
qed (use assms in auto)

lemma om_exec_keeps:
  assumes "om_exec s e = Ok s'" and "wake_inv s"
  shows "wake_inv s'"
proof -
  have inv: "\<forall>w. om_wakeup s = Some w \<longrightarrow> stream_inv w \<and> s_size w = 1" "om_wakeup s = None \<longleftrightarrow> om_pc s \<in> {ONot, OEnd}"
    "list_inv (om_new s)" "list_inv (om_newBlocked s)" "list_inv (om_newUnblocked s)" using assms(2) by (simp_all add: wake_inv_def)
  show ?thesis
  proof (cases e)
    case Start
    have "stream_inv (SNetStreamCreate 1 :: nat snet_stream)" "s_size (SNetStreamCreate 1 :: nat snet_stream) = 1"
      using stream_create(1)[of 1] by (simp_all add: SNetStreamCreate_def Let_def)
    then show ?thesis using assms Start inv
      by (cases "om_pc s = ONot") (auto simp: SNetOutputManagerStart_def SNetStreamsetPut_def wake_inv_def token_def)
  next
    case (NewOut dest stream)
    obtain l where l: "ListAppendEnd (om_new s) (dest, stream) = Ok l" "list_inv l" using ListAppendEnd_spec[OF inv(3)] by blast
    show ?thesis
    proof (cases "om_wakeup s = None")
      case True
      then have "s' = s\<lparr>om_new := l\<rparr>" using assms(1) NewOut l by (simp add: SNetOutputManagerNewOut_def Let_def)
      then show ?thesis using assms(2) True l(2) by (auto simp: wake_inv_def token_def)
    next
      case False
      then have "wake_up (s\<lparr>om_new := l\<rparr>) = Ok s'" using assms(1) NewOut l by (simp add: SNetOutputManagerNewOut_def Let_def)
      then show ?thesis by (rule wake_up_keeps) (use inv l(2) in simp_all)
    qed
  next
    case (Block dest)
    obtain l where l: "ListAppendEnd (om_newBlocked s) dest = Ok l" "list_inv l" using ListAppendEnd_spec[OF inv(4)] by blast
    then have "wake_up (s\<lparr>om_newBlocked := l\<rparr>) = Ok s'" using assms(1) Block by (simp add: SNetOutputManagerBlock_def UpdateState_def)
    then show ?thesis by (rule wake_up_keeps) (use inv l(2) in simp_all)
  next
    case (Unblock dest)
    obtain l where l: "ListAppendEnd (om_newUnblocked s) dest = Ok l" "list_inv l" using ListAppendEnd_spec[OF inv(5)] by blast
    then have "wake_up (s\<lparr>om_newUnblocked := l\<rparr>) = Ok s'" using assms(1) Unblock by (simp add: SNetOutputManagerUnblock_def UpdateState_def)
    then show ?thesis by (rule wake_up_keeps) (use inv l(2) in simp_all)
  next
    case Stop
    then have "wake_up (s\<lparr>om_running := False\<rparr>) = Ok s'" using assms(1) by (simp add: SNetOutputManagerStop_def)
    then show ?thesis by (rule wake_up_keeps) (use inv in simp_all)
  next
    case Section
    then show ?thesis using section_keeps assms by simp
  next
    case (Poll k rec)
    then show ?thesis using poll_keeps assms by (auto split: if_splits)
  qed
qed

lemma om_init: "SNetOutputManagerInit = Ok s \<Longrightarrow> wake_inv s"
  using list_inv_fresh[of "[] :: snet_dest list"] list_inv_fresh[of "[] :: (snet_dest \<times> stream_id) list"]
  by (auto simp: SNetOutputManagerInit_def ListCreate_Ok wake_inv_def)

section \<open>The two sets\<close>

lemma links_cong: "(\<And>x. x \<in> set (butlast xs) \<Longrightarrow> nxt' x = nxt x) \<Longrightarrow> links nxt' xs = links nxt xs"
  by (induction nxt xs rule: links.induct) auto

lemma is_set_cong: "is_set nxt st xs \<Longrightarrow> (\<And>x. x \<in> set xs \<Longrightarrow> nxt' x = nxt x) \<Longrightarrow> is_set nxt' st xs"
proof -
  assume a: "is_set nxt st xs" "\<And>x. x \<in> set xs \<Longrightarrow> nxt' x = nxt x"
  have "links nxt' (last xs # xs) = links nxt (last xs # xs)" if "xs \<noteq> []"
  proof (rule links_cong)
    fix x assume "x \<in> set (butlast (last xs # xs))"
    then have "x \<in> set xs" using that by (auto dest: in_set_butlastD)
    then show "nxt' x = nxt x" by (rule a(2))
  qed
  then show ?thesis using a(1) by (auto simp: is_set_def)
qed

lemma is_set_next:
  assumes "is_set nxt st xs" and "x \<in> set xs"
  shows "\<exists>y\<in>set xs. nxt x = Some y"
proof -
  obtain ys zs where xs: "xs = ys @ x # zs" using split_list[OF assms(2)] by blast
  note s = is_set_nonempty[OF assms(1)]
  have "links nxt (x # zs)" using s links_append[of nxt ys x zs] unfolding xs by simp
  moreover have "hd xs \<in> set xs" using xs by (cases ys) auto
  ultimately show ?thesis using s xs by (cases zs) auto
qed

lemma find_node_in: "is_set nxt st xs \<Longrightarrow> cur \<in> set xs \<Longrightarrow> find_node n nxt l node cur = Ok (prev, c) \<Longrightarrow> prev \<in> set xs"
proof (induction n arbitrary: cur)
  case (Suc n)
  then show ?case using is_set_next[OF Suc.prems(1,2)] by (fastforce split: if_splits)
qed simp

text \<open>Removal and insertion change the links of the set and of the node only.\<close>

lemma remove_frame:
  assumes "is_set nxt st xs" and "n \<in> set xs" and "length xs \<le> fuel"
  shows "\<exists>nxt' st'. SNetStreamsetRemove fuel nxt st n = Ok (0, nxt', st') \<and> is_set nxt' st' (filter (\<lambda>x. x \<noteq> n) xs) \<and> (\<forall>x. x \<notin> set xs \<longrightarrow> nxt' x = nxt x)"
proof -
  obtain ys zs where xs: "xs = ys @ n # zs" using split_list[OF assms(2)] by blast
  have d: "distinct xs" "st = Some (last xs)" using is_set_nonempty[OF assms(1)] xs by auto
  then have "filter (\<lambda>x. x \<noteq> n) ys = ys" "filter (\<lambda>x. x \<noteq> n) zs = zs" using xs by (auto intro!: filter_True)
  then have f: "filter (\<lambda>x. x \<noteq> n) xs = ys @ zs" using xs by simp
  obtain nxt' st' where r: "SNetStreamsetRemove fuel nxt st n = Ok (0, nxt', st')" "is_set nxt' st' (ys @ zs)"
    using SNetStreamsetRemove_member[of nxt st ys n zs fuel] assms(1,3) xs by auto
  then obtain prev c where c: "find_node fuel nxt (last xs) n (last xs) = Ok (prev, c)" "c = n"
    "nxt' = nxt \<or> nxt' = (nxt(prev := nxt c))(c := None)" using d(2) by (auto simp: SNetStreamsetRemove_def split: if_splits)
  have "prev \<in> set xs" using find_node_in[OF assms(1) _ c(1)] xs by auto
  then have "\<forall>x. x \<notin> set xs \<longrightarrow> nxt' x = nxt x" using c assms(2) by auto
  then show ?thesis using r f by auto
qed

lemma put_frame:
  assumes "is_set nxt st xs" and "n \<notin> set xs"
  shows "\<exists>nxt' st'. SNetStreamsetPut nxt st n = (nxt', st') \<and> is_set nxt' st' (xs @ [n]) \<and> (\<forall>x. x \<notin> set xs \<longrightarrow> x \<noteq> n \<longrightarrow> nxt' x = nxt x)"
proof -
  obtain nxt' st' where p: "SNetStreamsetPut nxt st n = (nxt', st')" by fastforce
  have "st = None \<or> (\<exists>l\<in>set xs. st = Some l)" using assms(1) by (auto simp: is_set_def split: if_splits)
  then have "\<forall>x. x \<notin> set xs \<longrightarrow> x \<noteq> n \<longrightarrow> nxt' x = nxt x" using p by (auto simp: SNetStreamsetPut_def split: option.splits)
  then show ?thesis using p is_set_Put[OF assms p] by blast
qed

text \<open>The stream of a destination, 0 if there is none.\<close>

definition stream_of :: "(nat, snet_dest) snet_map \<Rightarrow> snet_dest \<Rightarrow> nat" where
  "stream_of m dest = (case List.find (\<lambda>(sd, d). SNetDestCompare d dest) (entries m) of None \<Rightarrow> 0 | Some (sd, _) \<Rightarrow> sd)"

lemma find_val_spec:
  assumes "map_inv m"
  shows "MapFindVal cmp m v k = Ok (case List.find (\<lambda>(x, w). cmp w v) (entries m) of None \<Rightarrow> k | Some (x, _) \<Rightarrow> x)"
proof -
  have "find_val_from cmp m v k i n = Ok (case List.find (\<lambda>(x, w). cmp w v) (drop i (entries m)) of None \<Rightarrow> k | Some (x, _) \<Rightarrow> x)"
    if "i + n = mused m" for i n
    using that
  proof (induction n arbitrary: i)
    case (Suc n)
    then have i: "i < mused m" by simp
    then have "drop i (entries m) = entries m ! i # drop (Suc i) (entries m)" by (simp add: Cons_nth_drop_Suc)
    with Suc.IH[of "Suc i"] Suc.prems map_inv_read[OF assms i] show ?case
      by (cases "entries m ! i") (auto simp del: arr_read_Ok)
  qed simp
  from this[of 0 "mused m"] show ?thesis by (simp add: MapFindVal_def)
qed

lemma move_streams:
  assumes "map_inv m" and "is_set nxt old W" and "is_set nxt new B" and "set W \<inter> set B = {}" and "length W \<le> fuel"
    and "distinct (filter (\<lambda>sd. sd \<noteq> 0) (map (stream_of m) ds))" and "set (filter (\<lambda>sd. sd \<noteq> 0) (map (stream_of m) ds)) \<subseteq> set W"
  shows "\<exists>nxt' old' new'. foldR (move_stream fuel m) (nxt, old, new) ds = Ok (nxt', old', new') \<and>
     is_set nxt' old' (filter (\<lambda>x. x \<notin> set (filter (\<lambda>sd. sd \<noteq> 0) (map (stream_of m) ds))) W) \<and>
     is_set nxt' new' (B @ filter (\<lambda>sd. sd \<noteq> 0) (map (stream_of m) ds))"
  using assms(2-7)
proof (induction ds arbitrary: nxt old new W B)
  case Nil
  then show ?case by simp
next
  case (Cons d ds)
  let ?n = "stream_of m d" and ?rest = "filter (\<lambda>sd. sd \<noteq> 0) (map (stream_of m) ds)"
  have find: "MapFindVal SNetDestCompare m d 0 = Ok ?n" using find_val_spec[OF assms(1)] by (simp add: stream_of_def)
  show ?case
  proof (cases "?n = 0")
    case True
    then show ?thesis using Cons.IH[OF Cons.prems(1-4)] Cons.prems(5,6) find by (simp add: move_stream_def)
  next
    case False
    then have n: "?n \<in> set W" "?n \<notin> set B" "?n \<notin> set ?rest" "distinct ?rest" "set ?rest \<subseteq> set W" using Cons.prems(3,5,6) by auto
    obtain nx1 old1 where r: "SNetStreamsetRemove fuel nxt old ?n = Ok (0, nx1, old1)" "is_set nx1 old1 (filter (\<lambda>x. x \<noteq> ?n) W)" "\<forall>x. x \<notin> set W \<longrightarrow> nx1 x = nxt x"
      using remove_frame[OF Cons.prems(1) n(1) Cons.prems(4)] by blast
    have b1: "is_set nx1 new B" by (rule is_set_cong[OF Cons.prems(2)]) (use r(3) Cons.prems(3) in blast)
    obtain nx2 new2 where q: "SNetStreamsetPut nx1 new ?n = (nx2, new2)" "is_set nx2 new2 (B @ [?n])" "\<forall>x. x \<notin> set B \<longrightarrow> x \<noteq> ?n \<longrightarrow> nx2 x = nx1 x"
      using put_frame[OF b1 n(2)] by blast
    have w2: "is_set nx2 old1 (filter (\<lambda>x. x \<noteq> ?n) W)" by (rule is_set_cong[OF r(2)]) (use q(3) Cons.prems(3) in auto)
    have "move_stream fuel m (nxt, old, new) d = Ok (nx2, old1, new2)" using find False r(1) q(1) by (simp add: move_stream_def)
    moreover have "\<exists>nxt' old' new'. foldR (move_stream fuel m) (nx2, old1, new2) ds = Ok (nxt', old', new') \<and>
       is_set nxt' old' (filter (\<lambda>x. x \<notin> set ?rest) (filter (\<lambda>x. x \<noteq> ?n) W)) \<and> is_set nxt' new' ((B @ [?n]) @ ?rest)"
    proof (rule Cons.IH[OF w2 q(2) _ _ n(4)])
      show "set (filter (\<lambda>x. x \<noteq> ?n) W) \<inter> set (B @ [?n]) = {}" using Cons.prems(3) by auto
      show "length (filter (\<lambda>x. x \<noteq> ?n) W) \<le> fuel" by (rule order_trans[OF length_filter_le Cons.prems(4)])
      have "x \<noteq> ?n" if "x \<in> set ?rest" for x using n(3) that by blast
      then show "set ?rest \<subseteq> set (filter (\<lambda>x. x \<noteq> ?n) W)" using n(5) by (simp only: set_filter) blast
    qed
    moreover have "filter (\<lambda>x. x \<notin> set ?rest) (filter (\<lambda>x. x \<noteq> ?n) W) = filter (\<lambda>x. x \<notin> set (?n # ?rest)) W" by (simp add: conj_commute)
    ultimately show ?thesis using False by auto
  qed
qed

section \<open>Properties\<close>

text \<open>
  C16. No wake-up of the output manager is lost: whenever it waits in the poll although a stream was registered, a
  destination was blocked or unblocked or the manager was told to stop, the wake-up stream holds its token, so that the poll returns. This holds for
  every interleaving with the threads that register streams and deliver messages.
\<close>

theorem omanager_no_lost_wakeup:
  assumes "SNetOutputManager es = Ok s" and "om_pc s = OWait"
    and "list_of (om_new s) \<noteq> [] \<or> list_of (om_newBlocked s) \<noteq> [] \<or> list_of (om_newUnblocked s) \<noteq> [] \<or> \<not> om_running s"
  shows "\<exists>w x. om_wakeup s = Some w \<and> contents w = [x]"
proof -
  obtain s0 :: "'a omanager" where s0: "SNetOutputManagerInit = Ok s0" "foldR om_exec s0 es = Ok s" using assms(1) by (auto simp: SNetOutputManager_def)
  have "wake_inv s" by (rule foldR_invariant[where I = wake_inv, OF s0(2) om_init[OF s0(1)]]) (rule om_exec_keeps)
  then have "token s" using assms(2,3) by (auto simp: wake_inv_def)
  then obtain w where w: "om_wakeup s = Some w" "0 < s_count w" by (auto simp: token_def)
  then have "s_count w = 1" using \<open>wake_inv s\<close> by (auto simp: wake_inv_def stream_inv_def)
  then have "length (contents w) = 1" by simp
  then show ?thesis using w(1) by (auto simp: length_Suc_conv simp del: length_contents)
qed

text \<open>A stream is registered while the manager waits.\<close>

definition om_example :: "nat om_event list" where
  "om_example = [Start, Section, Section, NewOut root_dest 7]"

lemma om_example_run:
  "\<exists>s. SNetOutputManager om_example = Ok s \<and> om_pc s = OWait \<and> list_of (om_new s) = [(root_dest, 7)]"
  by (simp add: om_example_def SNetOutputManager_def SNetOutputManagerInit_def ListCreate_Ok MapCreate_Ok SNetOutputManagerStart_def SNetStreamsetPut_def
      UpdateOutgoing_def LIST_DEQUEUE_EACH_def SNetOutputManagerNewOut_def ListAppendEnd_def grow_end_def mem_cpy_def arr_alloc_def c_mod_def arr_write_def
      wake_up_def SNetStreamTryWrite_def SNetStreamCreate_def SNetStreamWrite_def list_of_def)

theorem omanager_no_lost_wakeup_witness:
  "\<exists>s. SNetOutputManager om_example = Ok s \<and> (\<exists>w x. om_wakeup s = Some w \<and> contents w = [x])"
  using om_example_run omanager_no_lost_wakeup[of om_example] by fastforce

text \<open>
  C17. If the streams of the listed destinations are pairwise different and all in the first set, \<open>UpdateBlocked\<close> moves
  them to the other set, in the order of the list and without
  disturbing the rest of either set, although both sets are linked through the same fields; destinations without a stream are ignored. (The
  condition is not guaranteed by the manager: \<open>omanager_race_between\<close> and \<open>omanager_race_order\<close> below violate it.)
\<close>

theorem omanager_moves:
  assumes "map_ok m" and "list_inv l" and "is_set nxt old W" and "is_set nxt new B" and "set W \<inter> set B = {}" and "length W \<le> fuel"
    and "sds = filter (\<lambda>sd. sd \<noteq> 0) (map (stream_of m) (list_of l))" and "distinct sds" and "set sds \<subseteq> set W"
  shows "\<exists>l' nxt' old' new'. UpdateBlocked fuel m l (nxt, old, new) = Ok (l', nxt', old', new') \<and> list_of l' = [] \<and>
     is_set nxt' old' (filter (\<lambda>x. x \<notin> set sds) W) \<and> is_set nxt' new' (B @ sds)"
proof -
  obtain l' where l': "LIST_DEQUEUE_EACH l = Ok (list_of l, l')" "list_of l' = []" using LIST_DEQUEUE_EACH_spec[OF assms(2)] by blast
  have "map_inv m" using assms(1) by (simp add: map_ok_def)
  from move_streams[OF this assms(3-6)] assms(7-9) obtain nxt' old' new' where
    "foldR (move_stream fuel m) (nxt, old, new) (list_of l) = Ok (nxt', old', new')"
    "is_set nxt' old' (filter (\<lambda>x. x \<notin> set sds) W)" "is_set nxt' new' (B @ sds)" by blast
  then show ?thesis using l' by (simp add: UpdateBlocked_def)
qed

definition om_store :: next_store where
  "om_store = (\<lambda>a. if a = 1 then Some 2 else if a = 2 then Some 3 else if a = 3 then Some 1 else None)"

definition om_dest :: "int \<Rightarrow> snet_dest" where
  "om_dest k = root_dest\<lparr>d_node := 1, d_dest := k\<rparr>"

theorem omanager_moves_witness:
  "\<exists>l' nxt' old' new'. UpdateBlocked 4 (map_from [(2, om_dest 0), (3, om_dest 1)]) \<lparr>lsize = length [om_dest 0, om_dest 5], lused = length [om_dest 0, om_dest 5], lstart = 0, lvalues = map Some [om_dest 0, om_dest 5]\<rparr> (om_store, Some 3, None) =
       Ok (l', nxt', old', new') \<and> list_of l' = [] \<and> is_set nxt' old' (filter (\<lambda>x. x \<notin> set [2]) [1, 2, 3]) \<and> is_set nxt' new' ([] @ [2])"
proof (rule omanager_moves[OF _ list_inv_fresh])
  show "map_ok (map_from [(2 :: nat, om_dest 0), (3, om_dest 1)])" by (simp add: map_ok_def)
  show "[2] = filter (\<lambda>sd. sd \<noteq> 0) (map (stream_of (map_from [(2, om_dest 0), (3, om_dest 1)])) (list_of
      \<lparr>lsize = length [om_dest 0, om_dest 5], lused = length [om_dest 0, om_dest 5], lstart = 0, lvalues = map Some [om_dest 0, om_dest 5]\<rparr>))"
    unfolding list_of_fresh by (simp add: stream_of_def SNetDestCompare_def om_dest_def root_dest_def)
qed (simp_all add: is_set_def om_store_def)

text \<open>
  The two lists are processed in separate sections, blocked destinations first. When a block and an unblock message for a destination arrive between
  the two sections, the unblock message is processed alone: the stream is taken out of a set in which it is not. Here the set is empty and an assertion fails.
  In the second schedule an unblock message and a new block message arrive before the next wake-up; they are processed in the wrong order, the
  stream is polled although the receiver has blocked it, and the next unblock message fails.
\<close>

definition race_between :: "nat om_event list" where
  "race_between = [NewOut (om_dest 0) 7, Start, Section, Section, NewOut (om_dest 1) 8, Poll 1 REC_wakeup, Section, Section,
     Block (om_dest 0), Unblock (om_dest 0), Section]"

definition race_order :: "nat om_event list" where
  "race_order = [NewOut (om_dest 0) 7, Start, Section, Section, Block (om_dest 0), Poll 1 REC_wakeup, Section, Section, Section, Section,
     Unblock (om_dest 0), Block (om_dest 0), Poll 0 REC_wakeup, Section, Section, Section, Section]"

lemmas om_run_simps = SNetOutputManager_def SNetOutputManagerInit_def SNetOutputManagerStart_def SNetStreamsetPut_def ListCreate_Ok MapCreate_Ok map_from_def
  UpdateOutgoing_def LIST_DEQUEUE_EACH_def list_dequeue_def SNetOutputManagerNewOut_def ListAppendEnd_def grow_end_def mem_cpy_def arr_alloc_def c_mod_def arr_write_def
  arr_read_def wake_up_def SNetStreamTryWrite_def SNetStreamCreate_def SNetStreamWrite_def SNetStreamRead_def add_outgoing_def MapSet_def MapFind_def poll_def
  SNetOutputManagerBlock_def SNetOutputManagerUnblock_def UpdateState_def block_new_def unblock_new_def UpdateBlocked_def move_stream_def MapFindVal_def
  SNetDestCompare_def om_dest_def root_dest_def SNetStreamsetRemove_def ListLength_def

lemma omanager_race_between: "SNetOutputManager race_between = Err AssertFail"
  by (simp add: race_between_def om_run_simps numeral_2_eq_2 numeral_3_eq_3)

lemma omanager_race_order:
  "\<exists>s. SNetOutputManager race_order = Ok s \<and> om_blocked s = None \<and>
     SNetOutputManager (race_order @ [Unblock (om_dest 0), Poll 1 REC_wakeup, Section, Section, Section]) = Err AssertFail"
  by (simp add: race_order_def om_run_simps numeral_2_eq_2 numeral_3_eq_3)

text \<open>
  A block message over the message passing buffer carries the destination as the receiver of the records knows it, with the sending
  node in the field \<open>node\<close>; the destinations in the map of the sending node have the receiving node there. So no
  stream is found and the message has no effect. Over MPI the node is replaced on the way and the stream is found.
\<close>

lemma scc_block_ignored:
  assumes "\<forall>(sd, d)\<in>set (entries m). d_node d \<noteq> node"
  shows "stream_of m (scc_block_dest src (d\<lparr>d_node := node\<rparr>)) = 0"
proof -
  have "List.find (\<lambda>(sd, d'). SNetDestCompare d' (d\<lparr>d_node := node\<rparr>)) (entries m) = None"
    using assms by (auto simp: find_None_iff SNetDestCompare_def)
  then show ?thesis by (simp add: stream_of_def scc_block_dest_def)
qed

end
