(* ===== verification/Base64.thy ===== *)
theory Base64
  imports Prelude
begin

text \<open>
  The text form of binary data (\<open>interfaces/c4snet/base64.c\<close>): three bytes are written as four characters, and a number that names a data
  type as padding characters and a digit. A file is the list of its characters; reading past its end gives no
  character. \<open>char\<close> is signed, so that the character 255 cannot be told from the end of the file and cannot be pushed back.
\<close>

unbundle bit_operations_syntax

section \<open>Tables and numbers\<close>

definition base64 :: string where
  "base64 = ''ABCDEFGHIJKLMNOPQRSTUVWXYZabcdefghijklmnopqrstuvwxyz0123456789+/=''"

definition PADDING_BYTE :: nat where "PADDING_BYTE = 64"

definition BLOCK_NOT_FULL :: "nat \<Rightarrow> bool" where
  "BLOCK_NOT_FULL i \<longleftrightarrow> (i * 6) mod 24 \<noteq> 0"

lemma BLOCK_NOT_FULL_iff: "BLOCK_NOT_FULL i \<longleftrightarrow> i mod 4 \<noteq> 0"
  using mod_mult_mult2[of i 6 4] by (simp add: BLOCK_NOT_FULL_def)

text \<open>The search loop: the position of a character among the first \<open>n\<close> entries from \<open>i\<close> on, \<open>i + n\<close> if it is not found.\<close>

fun search :: "char option \<Rightarrow> nat \<Rightarrow> nat \<Rightarrow> nat" where
  "search c i 0 = i"
| "search c i (Suc n) = (if Some (base64 ! i) = c then i else search c (Suc i) n)"

fun fgetc :: "string \<Rightarrow> char option \<times> string" where
  "fgetc [] = (None, [])"
| "fgetc (c # cs) = (Some c, cs)"

definition ungetc :: "char \<Rightarrow> string \<Rightarrow> string" where
  "ungetc c cs = (if c = CHR 0xFF then cs else c # cs)"

section \<open>Data types\<close>

text \<open>
  The result of \<open>Base64encodeDataType\<close> adds up the results of \<open>fputc\<close>, which are the characters. A negative number would be an
  index outside of the table.
\<close>

function Base64encodeDataType :: "int \<Rightarrow> int \<Rightarrow> (string \<times> int) res" where
  "Base64encodeDataType ty i =
     (if ty \<ge> 64 then
        bindR (c_int (i + int (of_char (base64 ! PADDING_BYTE)))) (\<lambda>i.
        bindR (Base64encodeDataType (ty - 64) i) (\<lambda>(cs, r). Ok (base64 ! PADDING_BYTE # cs, r)))
      else if ty < 0 then Err OutOfBounds
      else bindR (c_int (i + int (of_char (base64 ! nat ty)))) (\<lambda>i. Ok ([base64 ! nat ty], i)))"
  by pat_completeness auto
termination by (relation "measure (\<lambda>(ty, i). nat ty)") auto

text \<open>The loop over padding characters; \<open>i\<close> counts them.\<close>

fun skip_padding :: "string \<Rightarrow> int \<Rightarrow> int \<Rightarrow> (string \<times> int \<times> int) res" where
  "skip_padding [] ty i = Ok ([], ty, i)"
| "skip_padding (c # cs) ty i =
     (if c = base64 ! PADDING_BYTE then bindR (c_int (ty + 64)) (\<lambda>ty. bindR (c_int (i + 1)) (skip_padding cs ty)) else Ok (c # cs, ty, i))"

definition Base64decodeDataType :: "string \<Rightarrow> (int \<times> int \<times> string) res" where
  "Base64decodeDataType file =
     bindR (skip_padding file 0 0) (\<lambda>(file, ty, i).
     let (c, rest) = fgetc file; j = search c 0 PADDING_BYTE in
     bindR (c_int (i + 1)) (\<lambda>i. bindR (c_int (ty + int j)) (\<lambda>ty.
     if j = PADDING_BYTE then Ok (0, ty, (case c of None \<Rightarrow> rest | Some c \<Rightarrow> ungetc c rest)) else Ok (i, ty, rest))))"

section \<open>Data\<close>

definition encoded_size :: "nat \<Rightarrow> nat" where
  "encoded_size len = (len * 8 + (6 - 1)) div 6"

text \<open>The loop of \<open>Base64encode\<close> with \<open>n\<close> characters left to write.\<close>

fun encode_loop :: "nat \<Rightarrow> 8 word list \<Rightarrow> nat \<Rightarrow> nat \<Rightarrow> 8 word \<Rightarrow> string" where
  "encode_loop 0 from i offset prev = []"
| "encode_loop (Suc n) from i offset prev =
     (let nx = (if i < length from then from ! i else 0) in
      if offset = 0 then base64 ! unat (drop_bit 2 nx) # encode_loop n from (i + 1) 2 nx
      else if offset = 2 then base64 ! unat (push_bit 4 (prev AND 3) OR drop_bit 4 nx) # encode_loop n from (i + 1) 4 nx
      else if offset = 4 then base64 ! unat (push_bit 2 (prev AND 15) OR drop_bit 6 nx) # encode_loop n from (i + 1) 6 nx
      else base64 ! unat (prev AND 63) # encode_loop n from i 0 prev)"

function padding :: "nat \<Rightarrow> string \<times> nat" where
  "padding sz = (if BLOCK_NOT_FULL sz then (let (cs, r) = padding (sz + 1) in (base64 ! PADDING_BYTE # cs, r)) else ([], sz))"
  by pat_completeness auto
termination
proof (relation "measure (\<lambda>sz. 3 - (sz + 3) mod 4)")
  fix sz assume "BLOCK_NOT_FULL sz"
  then have "sz mod 4 \<noteq> 0" by (simp add: BLOCK_NOT_FULL_iff)
  then have "(sz + 3) mod 4 + 1 = sz mod 4" "(sz + 1 + 3) mod 4 = sz mod 4" by presburger+
  moreover have "sz mod 4 < 4" by simp
  ultimately show "(sz + 1, sz) \<in> measure (\<lambda>sz. 3 - (sz + 3) mod 4)" unfolding in_measure by linarith
qed simp

definition Base64encode :: "8 word list \<Rightarrow> (string \<times> nat) res" where
  "Base64encode src =
     bindR (c_int (int (length src) * 8 + 5)) (\<lambda>_.
     let sz = encoded_size (length src); (pad, sz') = padding sz in
     bindR (c_int (int sz' * 6)) (\<lambda>_. Ok (encode_loop sz src 0 0 0 @ pad, sz')))"

text \<open>\<open>to\<close> from \<open>j\<close> on is filled with zeros.\<close>

definition fill_zero :: "8 word arr \<Rightarrow> nat \<Rightarrow> nat \<Rightarrow> 8 word arr res" where
  "fill_zero to j len = mem_set to j 0 (len - j)"

definition or_at :: "8 word arr \<Rightarrow> nat \<Rightarrow> 8 word \<Rightarrow> 8 word arr res" where
  "or_at to j w = bindR (arr_read to j) (\<lambda>v. arr_write to j (v OR w))"

text \<open>
  The loop of \<open>Base64decode\<close>. The first component of the result tells whether the function goes on with the padding or returns 0;
  then the characters read, the next position, the bytes and the rest of the file.
\<close>

fun decode_loop :: "nat \<Rightarrow> string \<Rightarrow> nat \<Rightarrow> nat \<Rightarrow> nat \<Rightarrow> 8 word arr \<Rightarrow> (bool \<times> nat \<times> nat \<times> 8 word arr \<times> string) res" where
  "decode_loop len [] i j offset to =
     (if j < len then bindR (fill_zero to j len) (\<lambda>to. Ok (False, i + 1, len, to, [])) else Ok (True, i, j, to, []))"
| "decode_loop len (c # cs) i j offset to =
     (if j < len then
        (let k = search (Some c) 0 (PADDING_BYTE + 1); nx = of_nat k :: 8 word in
         if k = PADDING_BYTE then bindR (fill_zero to j len) (\<lambda>to. Ok (True, i + 1, len, to, cs))
         else if k > PADDING_BYTE then bindR (fill_zero to j len) (\<lambda>to. Ok (False, i + 1, len, to, ungetc c cs))
         else if offset = 0 then bindR (arr_write to j (push_bit 2 nx)) (\<lambda>to. decode_loop len cs (i + 1) j 2 to)
         else if offset = 2 then
           bindR (or_at to j (drop_bit 4 nx)) (\<lambda>to.
           if j + 1 \<ge> len then Ok (True, i + 1, j + 1, to, cs)
           else bindR (arr_write to (j + 1) (push_bit 4 (nx AND 15))) (\<lambda>to. decode_loop len cs (i + 1) (j + 1) 4 to))
         else if offset = 4 then
           bindR (or_at to j (drop_bit 2 nx)) (\<lambda>to.
           if j + 1 \<ge> len then Ok (True, i + 1, j + 1, to, cs)
           else bindR (arr_write to (j + 1) (push_bit 6 nx)) (\<lambda>to. decode_loop len cs (i + 1) (j + 1) 6 to))
         else
           bindR (or_at to j nx) (\<lambda>to.
           if j + 1 \<ge> len then Ok (True, i + 1, j + 1, to, cs) else decode_loop len cs (i + 1) (j + 1) 0 to))
      else Ok (True, i, j, to, c # cs))"

text \<open>The removal of padding; the first component tells whether it stopped at another character.\<close>

fun remove_padding :: "string \<Rightarrow> nat \<Rightarrow> bool \<times> nat \<times> string" where
  "remove_padding [] i = (BLOCK_NOT_FULL i, i, [])"
| "remove_padding (c # cs) i =
     (if BLOCK_NOT_FULL i then (if c \<noteq> base64 ! PADDING_BYTE then (True, i, ungetc c cs) else remove_padding cs (i + 1)) else (False, i, c # cs))"

definition Base64decode :: "string \<Rightarrow> nat \<Rightarrow> (nat \<times> 8 word arr \<times> string) res" where
  "Base64decode file len =
     bindR (decode_loop len file 0 0 0 (arr_alloc len)) (\<lambda>(go_on, i, j, to, file).
     if go_on then
       (let (stopped, i, file) = remove_padding file i in
        bindR (c_int (int i * 6)) (\<lambda>_.
        if stopped then bindR (fill_zero to j len) (\<lambda>to. Ok (i, to, file)) else Ok (i, to, file)))
     else Ok (0, to, file))"

declare Base64encodeDataType.simps [simp del] padding.simps [simp del]

section \<open>Six-bit groups\<close>

lemma masks: "(3 :: 8 word) = mask 2" "(15 :: 8 word) = mask 4" "(63 :: 8 word) = mask 6"
  by (simp_all add: mask_eq_exp_minus_1)

lemma bit_positions: "n < 8 \<Longrightarrow> n = 0 \<or> n = 1 \<or> n = 2 \<or> n = 3 \<or> n = 4 \<or> n = 5 \<or> n = 6 \<or> n = (7 :: nat)"
  by arith

lemma group_first: "push_bit 2 (drop_bit 2 a) OR drop_bit 4 (push_bit 4 (a AND 3) OR drop_bit 4 b) = (a :: 8 word)"
  unfolding masks by (rule bit_word_eqI) (auto simp: bit_simps dest!: bit_positions, simp_all add: numeral_2_eq_2 numeral_3_eq_3)

lemma group_second: "push_bit 4 ((push_bit 4 (a AND 3) OR drop_bit 4 b) AND 15) OR drop_bit 2 (push_bit 2 (b AND 15) OR drop_bit 6 c) = (b :: 8 word)"
  unfolding masks by (rule bit_word_eqI) (auto simp: bit_simps dest!: bit_positions)

lemma group_third: "push_bit 6 (push_bit 2 (b AND 15) OR drop_bit 6 c) OR (c AND 63) = (c :: 8 word)"
  unfolding masks by (rule bit_word_eqI) (auto simp: bit_simps dest!: bit_positions)

lemma six_bits:
  assumes "\<And>n. n < 8 \<Longrightarrow> bit w n \<Longrightarrow> n < 6"
  shows "unat (w :: 8 word) < 64"
proof -
  have "take_bit 6 w = w" by (rule bit_word_eqI) (use assms in \<open>auto simp: bit_take_bit_iff\<close>)
  then have "unat w = take_bit 6 (unat w)" using unsigned_take_bit_eq[of 6 w] by metis
  also have "\<dots> < 2 ^ 6" by (rule take_bit_nat_less_exp)
  finally show ?thesis by simp
qed

lemma bit_above: "8 \<le> n \<Longrightarrow> \<not> bit (w :: 8 word) n"
  using bit_imp_le_length[of w n] by auto

lemma group_range:
  "unat (drop_bit 2 a :: 8 word) < 64" "unat (push_bit 4 (a AND 3) OR drop_bit 4 b :: 8 word) < 64"
  "unat (push_bit 2 (b AND 15) OR drop_bit 6 c :: 8 word) < 64" "unat (c AND 63 :: 8 word) < 64"
  unfolding masks by (rule six_bits; auto simp: bit_simps bit_above dest!: bit_positions)+

section \<open>The table\<close>

lemma length_base64: "length base64 = 65"
  by (simp add: base64_def)

lemma distinct_base64: "distinct base64"
  unfolding base64_def by code_simp

lemma search_nth: "i \<le> k \<Longrightarrow> k < i + n \<Longrightarrow> k < 65 \<Longrightarrow> search (Some (base64 ! k)) i n = k"
  using distinct_base64 length_base64 by (induction n arbitrary: i) (auto simp: nth_eq_iff_index_eq)

lemma search_group: "unat (w :: 8 word) < 64 \<Longrightarrow> search (Some (base64 ! unat w)) 0 (PADDING_BYTE + 1) = unat w"
  by (rule search_nth) (auto simp: PADDING_BYTE_def)

lemma not_padding: "k < 64 \<Longrightarrow> base64 ! k \<noteq> base64 ! PADDING_BYTE"
  using distinct_base64 length_base64 by (auto simp: nth_eq_iff_index_eq PADDING_BYTE_def)

section \<open>Padding\<close>

lemma padding_removed: "remove_padding (fst (padding i) @ rest) i = (False, snd (padding i), rest)"
proof (induction i rule: padding.induct)
  case (1 i)
  then show ?case by (subst (1 2) padding.simps) (cases rest; auto split: prod.splits)
qed

section \<open>The round trip\<close>

lemma encode_prev: "encode_loop n src i 0 p = encode_loop n src i 0 q"
  by (cases n) simp_all

lemma encode_shift: "encode_loop n (x # src) (Suc i) offset p = encode_loop n src i offset p"
  by (induction n arbitrary: i offset p) (simp_all add: Let_def)

lemma encoded_size_simps:
  "encoded_size 0 = 0" "encoded_size (Suc 0) = Suc (Suc 0)" "encoded_size (Suc (Suc 0)) = Suc (Suc (Suc 0))"
  "encoded_size (Suc (Suc (Suc n))) = Suc (Suc (Suc (Suc (encoded_size n))))"
  by (simp_all add: encoded_size_def)

text \<open>The characters of one, two and three bytes.\<close>

lemma encode_three:
  "encode_loop (Suc (Suc (Suc (Suc n)))) (a # b # c # src) 0 0 p @ cs =
   base64 ! unat (drop_bit 2 a) # base64 ! unat (push_bit 4 (a AND 3) OR drop_bit 4 b) #
   base64 ! unat (push_bit 2 (b AND 15) OR drop_bit 6 c) # base64 ! unat (c AND 63) # encode_loop n src 0 0 0 @ cs"
  by (simp add: encode_shift encode_prev[of n src 0 c 0] Let_def)

lemma encode_two:
  "encode_loop (Suc (Suc (Suc 0))) [a, b] 0 0 p @ cs =
   base64 ! unat (drop_bit 2 a) # base64 ! unat (push_bit 4 (a AND 3) OR drop_bit 4 b) # base64 ! unat (push_bit 2 (b AND 15) OR drop_bit 6 0) # cs"
  by (simp add: Let_def)

lemma encode_one:
  "encode_loop (Suc (Suc 0)) [a] 0 0 p @ cs = base64 ! unat (drop_bit 2 a) # base64 ! unat (push_bit 4 (a AND 3) OR drop_bit 4 0) # cs"
  by (simp add: Let_def)

lemma arr_ends:
  "arr_write (map Some d @ None # r) (length d) v = Ok (map Some d @ Some v # r)"
  "or_at (map Some d @ Some v # r) (length d) w = Ok (map Some d @ Some (v OR w) # r)"
  "arr_write (map Some d @ x # None # r) (Suc (length d)) v = Ok (map Some d @ x # Some v # r)"
  "or_at (map Some d @ x # Some v # r) (Suc (length d)) w = Ok (map Some d @ x # Some (v OR w) # r)"
  "arr_write (map Some d @ x # y # None # r) (Suc (Suc (length d))) v = Ok (map Some d @ x # y # Some v # r)"
  "or_at (map Some d @ x # y # Some v # r) (Suc (Suc (length d))) w = Ok (map Some d @ x # y # Some (v OR w) # r)"
  by (simp_all add: arr_write_def or_at_def arr_read_def nth_append list_update_append)

lemma decode_end: "len \<le> j \<Longrightarrow> decode_loop len cs i j offset to = Ok (True, i, j, to, cs)"
  by (cases cs) simp_all

lemma group_found:
  assumes "unat (w :: 8 word) < 64"
  shows "search (Some (base64 ! unat w)) 0 (PADDING_BYTE + 1) = unat w" "unat w \<noteq> PADDING_BYTE" "\<not> PADDING_BYTE < unat w"
  using assms search_group[OF assms] by (simp_all add: PADDING_BYTE_def)

text \<open>One character of the table in each of the four positions.\<close>

lemma decode_char:
  assumes "unat (w :: 8 word) < 64" "j < len"
  shows "decode_loop len (base64 ! unat w # cs) i j 0 to =
           bindR (arr_write to j (push_bit 2 w)) (\<lambda>to. decode_loop len cs (Suc i) j 2 to)"
    and "decode_loop len (base64 ! unat w # cs) i j 2 to =
           bindR (or_at to j (drop_bit 4 w)) (\<lambda>to.
           if j + 1 \<ge> len then Ok (True, Suc i, Suc j, to, cs)
           else bindR (arr_write to (Suc j) (push_bit 4 (w AND 15))) (\<lambda>to. decode_loop len cs (Suc i) (Suc j) 4 to))"
    and "decode_loop len (base64 ! unat w # cs) i j 4 to =
           bindR (or_at to j (drop_bit 2 w)) (\<lambda>to.
           if j + 1 \<ge> len then Ok (True, Suc i, Suc j, to, cs)
           else bindR (arr_write to (Suc j) (push_bit 6 w)) (\<lambda>to. decode_loop len cs (Suc i) (Suc j) 6 to))"
    and "decode_loop len (base64 ! unat w # cs) i j 6 to =
           bindR (or_at to j w) (\<lambda>to. if j + 1 \<ge> len then Ok (True, Suc i, Suc j, to, cs) else decode_loop len cs (Suc i) (Suc j) 0 to)"
proof -
  note found = group_found[OF assms(1)]
  have w: "(of_nat (unat w) :: 8 word) = w" by simp
  show "decode_loop len (base64 ! unat w # cs) i j 0 to =
           bindR (arr_write to j (push_bit 2 w)) (\<lambda>to. decode_loop len cs (Suc i) j 2 to)"
    using assms(2) by (simp only: decode_loop.simps found Let_def w if_True if_False simp_thms Suc_eq_plus1)
  show "decode_loop len (base64 ! unat w # cs) i j 2 to =
           bindR (or_at to j (drop_bit 4 w)) (\<lambda>to.
           if j + 1 \<ge> len then Ok (True, Suc i, Suc j, to, cs)
           else bindR (arr_write to (Suc j) (push_bit 4 (w AND 15))) (\<lambda>to. decode_loop len cs (Suc i) (Suc j) 4 to))"
    using assms(2) by (simp only: decode_loop.simps found Let_def w if_True if_False simp_thms Suc_eq_plus1) simp
  show "decode_loop len (base64 ! unat w # cs) i j 4 to =
           bindR (or_at to j (drop_bit 2 w)) (\<lambda>to.
           if j + 1 \<ge> len then Ok (True, Suc i, Suc j, to, cs)
           else bindR (arr_write to (Suc j) (push_bit 6 w)) (\<lambda>to. decode_loop len cs (Suc i) (Suc j) 6 to))"
    using assms(2) by (simp only: decode_loop.simps found Let_def w if_True if_False simp_thms Suc_eq_plus1) simp
  show "decode_loop len (base64 ! unat w # cs) i j 6 to =
           bindR (or_at to j w) (\<lambda>to. if j + 1 \<ge> len then Ok (True, Suc i, Suc j, to, cs) else decode_loop len cs (Suc i) (Suc j) 0 to)"
    using assms(2) by (simp only: decode_loop.simps found Let_def w if_True if_False simp_thms Suc_eq_plus1) simp
qed

lemma decode_words:
  assumes "unat (u :: 8 word) < 64" "unat (v :: 8 word) < 64" "unat (w :: 8 word) < 64" "unat (x :: 8 word) < 64"
  shows "length d + 3 \<le> len \<Longrightarrow>
     decode_loop len (base64 ! unat u # base64 ! unat v # base64 ! unat w # base64 ! unat x # cs) i (length d) 0 (map Some d @ None # None # None # r) =
     decode_loop len cs (Suc (Suc (Suc (Suc i)))) (Suc (Suc (Suc (length d)))) 0
       (map Some (d @ [push_bit 2 u OR drop_bit 4 v, push_bit 4 (v AND 15) OR drop_bit 2 w, push_bit 6 w OR x]) @ r)"
    and "decode_loop (Suc (Suc (length d))) (base64 ! unat u # base64 ! unat v # base64 ! unat w # cs) i (length d) 0 (map Some d @ [None, None]) =
     Ok (True, i + 3, length d + 2, map Some (d @ [push_bit 2 u OR drop_bit 4 v, push_bit 4 (v AND 15) OR drop_bit 2 w]), cs)"
    and "decode_loop (Suc (length d)) (base64 ! unat u # base64 ! unat v # cs) i (length d) 0 (map Some d @ [None]) =
     Ok (True, i + 2, length d + 1, map Some (d @ [push_bit 2 u OR drop_bit 4 v]), cs)"
proof -
  assume len: "length d + 3 \<le> len"
  show "decode_loop len (base64 ! unat u # base64 ! unat v # base64 ! unat w # base64 ! unat x # cs) i (length d) 0 (map Some d @ None # None # None # r) =
     decode_loop len cs (Suc (Suc (Suc (Suc i)))) (Suc (Suc (Suc (length d)))) 0
       (map Some (d @ [push_bit 2 u OR drop_bit 4 v, push_bit 4 (v AND 15) OR drop_bit 2 w, push_bit 6 w OR x]) @ r)"
  proof (cases "length d + 3 = len")
    case True
    then show ?thesis by (auto simp: decode_char assms arr_ends decode_end simp del: decode_loop.simps)
  next
    case False
    with len show ?thesis by (simp add: decode_char assms arr_ends del: decode_loop.simps)
  qed
qed (simp_all add: decode_char assms arr_ends del: decode_loop.simps)

lemma decode_encoded:
  "decode_loop (length d + length src) (encode_loop (encoded_size (length src)) src 0 0 p @ cs) i (length d) 0 (map Some d @ replicate (length src) None) =
   Ok (True, i + encoded_size (length src), length d + length src, map Some (d @ src), cs)"
proof (induction "length src" arbitrary: src d i p rule: less_induct)
  case less
  consider "src = []" | a where "src = [a]" | a b where "src = [a, b]" | a b c s where "src = a # b # c # s"
    by (metis list.exhaust)
  then show ?case
  proof cases
    case 1
    then show ?thesis by (simp add: encoded_size_simps decode_end)
  next
    case 2
    note words = decode_words(3)[OF group_range(1)[of a] group_range(2)[of a 0] group_range(1) group_range(1), where d = d and i = i and cs = cs]
    show ?thesis
      unfolding 2 list.size add_0 add_Suc add_0_right add_Suc_right encoded_size_simps encode_one replicate.simps words group_first by simp
  next
    case 3
    note words = decode_words(2)[OF group_range(1)[of a] group_range(2)[of a b] group_range(3)[of b 0] group_range(1), where d = d and i = i and cs = cs]
    show ?thesis
      unfolding 3 list.size add_0 add_Suc add_0_right add_Suc_right encoded_size_simps encode_two replicate.simps words group_first group_second by simp
  next
    case 4
    have le: "length d + 3 \<le> Suc (Suc (Suc (length d + length s)))" by simp
    note words = decode_words(1)[OF group_range(1)[of a] group_range(2)[of a b] group_range(3)[of b c] group_range(4)[of c] le, where i = i]
    show ?thesis
      unfolding 4 list.size add_0 add_Suc add_0_right add_Suc_right encoded_size_simps encode_three replicate.simps words group_first group_second group_third
      using less[of s "d @ [a, b, c]" 0 "Suc (Suc (Suc (Suc i)))"] unfolding 4 by (simp del: decode_loop.simps)
  qed
qed

lemma length_encode_loop: "length (encode_loop n src i offset p) = n"
  by (induction n arbitrary: i offset p) (simp_all add: Let_def)

lemma padding_full:
  "4 dvd snd (padding sz)" "sz \<le> snd (padding sz)" "snd (padding sz) < sz + 4 - sz mod 4 + 1" "length (fst (padding sz)) = snd (padding sz) - sz"
proof -
  have "4 dvd snd (padding sz) \<and> sz \<le> snd (padding sz) \<and> (sz mod 4 = 0 \<longrightarrow> snd (padding sz) = sz) \<and> snd (padding sz) \<le> sz + 4 - sz mod 4 \<and>
        length (fst (padding sz)) = snd (padding sz) - sz"
  proof (induction sz rule: padding.induct)
    case (1 sz)
    show ?case
    proof (cases "BLOCK_NOT_FULL sz")
      case True
      then have "sz mod 4 \<noteq> 0" by (simp add: BLOCK_NOT_FULL_iff)
      then have "(sz + 1) mod 4 = sz mod 4 + 1 \<or> (sz + 1) mod 4 = 0 \<and> sz mod 4 = 3" "sz mod 4 < 4" by presburger+
      with 1[OF True] True \<open>sz mod 4 \<noteq> 0\<close> show ?thesis by (subst (1 2 3 4 5 6) padding.simps) (auto split: prod.splits)
    next
      case False
      then show ?thesis by (subst (1 2 3 4 5 6) padding.simps) (auto simp: BLOCK_NOT_FULL_iff)
    qed
  qed
  then show "4 dvd snd (padding sz)" "sz \<le> snd (padding sz)" "snd (padding sz) < sz + 4 - sz mod 4 + 1" "length (fst (padding sz)) = snd (padding sz) - sz"
    by auto
qed

lemma encode_decode:
  assumes enc: "Base64encode src = Ok (out, n)"
  shows "Base64decode (out @ rest) (length src) = Ok (n, map Some src, rest)"
proof -
  let ?sz = "encoded_size (length src)"
  from enc have out: "out = encode_loop ?sz src 0 0 0 @ fst (padding ?sz)" and n: "n = snd (padding ?sz)" and ok: "c_int (int n * 6) = Ok (int n * 6)"
    by (auto simp: Base64encode_def Let_def split: prod.splits)
  have "decode_loop (length src) (out @ rest) 0 0 0 (arr_alloc (length src)) = Ok (True, ?sz, length src, map Some src, fst (padding ?sz) @ rest)"
    using decode_encoded[of "[]" src 0 "fst (padding ?sz) @ rest" 0] by (simp add: out arr_alloc_def del: decode_loop.simps)
  then show ?thesis
    using ok by (simp add: Base64decode_def padding_removed n del: decode_loop.simps)
qed

lemma encodes:
  assumes "int (length src) * 8 + 29 \<le> 2147483647"
  shows "\<exists>out n. Base64encode src = Ok (out, n) \<and> length out = n \<and> 4 dvd n"
proof -
  let ?sz = "encoded_size (length src)"
  have "snd (padding ?sz) \<le> ?sz + 4" "?sz * 6 \<le> length src * 8 + 5" using padding_full(3)[of ?sz] by (auto simp: encoded_size_def)
  then have "int (snd (padding ?sz)) * 6 \<le> int (length src) * 8 + 29" by linarith
  with assms have "int_range (int (snd (padding ?sz)) * 6)" "int_range (int (length src) * 8 + 5)" by (auto simp: int_range_def)
  then show ?thesis
    using padding_full(1,2,4)[of ?sz] by (auto simp: Base64encode_def c_int_in_range Let_def length_encode_loop split: prod.splits)
qed

section \<open>Data types\<close>

definition type_text :: "int \<Rightarrow> string" where
  "type_text ty = replicate (nat (ty div 64)) (base64 ! PADDING_BYTE) @ [base64 ! nat (ty mod 64)]"

lemma skip_padding_skips:
  "c \<noteq> base64 ! PADDING_BYTE \<Longrightarrow> int_range (ty + 64 * int k) \<Longrightarrow> int_range (i + int k) \<Longrightarrow> int_range ty \<Longrightarrow> int_range i \<Longrightarrow>
   skip_padding (replicate k (base64 ! PADDING_BYTE) @ c # cs) ty i = Ok (c # cs, ty + 64 * int k, i + int k)"
  by (induction k arbitrary: ty i) (auto simp: c_int_in_range int_range_def algebra_simps)

lemma decode_type_text:
  assumes "0 \<le> ty" "ty \<le> 2147483647"
  shows "Base64decodeDataType (type_text ty @ rest) = Ok (int (length (type_text ty)), ty, rest)"
proof -
  let ?k = "nat (ty div 64)" and ?m = "nat (ty mod 64)"
  have m: "?m < 64" and ty: "64 * int ?k + int ?m = ty" using assms by auto
  have "skip_padding (type_text ty @ rest) 0 0 = Ok (base64 ! ?m # rest, 64 * int ?k, int ?k)"
    using skip_padding_skips[OF not_padding[OF m], of 0 ?k 0 rest] ty m assms by (auto simp: type_text_def int_range_def)
  moreover have "search (Some (base64 ! ?m)) 0 PADDING_BYTE = ?m"
    using m by (intro search_nth) (auto simp: PADDING_BYTE_def)
  moreover have "int_range (int ?k + 1)" using ty assms by (auto simp: int_range_def)
  ultimately show ?thesis
    using ty m assms by (auto simp: Base64decodeDataType_def Let_def c_int_in_range int_range_def type_text_def PADDING_BYTE_def)
qed

lemma padding_char: "base64 ! PADDING_BYTE = CHR ''=''"
  unfolding base64_def PADDING_BYTE_def by code_simp

lemma char_codes: "k < 65 \<Longrightarrow> of_char (base64 ! k) \<le> (122 :: nat)"
proof -
  have "list_all (\<lambda>c. of_char c \<le> (122 :: nat)) base64" unfolding base64_def by code_simp
  then show "k < 65 \<Longrightarrow> of_char (base64 ! k) \<le> (122 :: nat)" by (simp add: list_all_length length_base64)
qed

lemma encode_type_text:
  "0 \<le> ty \<Longrightarrow> 0 \<le> i \<Longrightarrow> i + 61 * (ty div 64) + 122 \<le> 2147483647 \<Longrightarrow>
   Base64encodeDataType ty i = Ok (type_text ty, i + 61 * (ty div 64) + int (of_char (base64 ! nat (ty mod 64))))"
proof (induction ty i rule: Base64encodeDataType.induct)
  case (1 ty i)
  show ?case
  proof (cases "ty \<ge> 64")
    case True
    then have ty: "(ty - 64) mod 64 = ty mod 64" "(ty - 64) div 64 = ty div 64 - 1" "nat (ty div 64) = Suc (nat (ty div 64 - 1))" "0 < ty div 64"
      by (simp_all add: mod_diff_eq div_add1_eq)
    have "c_int (i + 61) = Ok (i + 61)" using 1(3,4) ty(4) by (auto simp: int_range_def)
    with 1(1)[OF True, of "i + 61"] True 1(2-4) ty show ?thesis
      by (subst Base64encodeDataType.simps) (auto simp: padding_char type_text_def)
  next
    case False
    with 1(2) have "of_char (base64 ! nat ty) \<le> (122 :: nat)" by (intro char_codes) simp
    then have "int (of_char (base64 ! nat ty)) \<le> 122" by linarith
    with False 1(2-4) show ?thesis
      by (subst Base64encodeDataType.simps) (auto simp: type_text_def c_int_in_range int_range_def)
  qed
qed

section \<open>Properties\<close>

text \<open>
  C39. Three bytes become four characters and back: data of any contents and any length whose size in bits is an \<open>int\<close> is encoded as text of
  full blocks whose length is the result of \<open>Base64encode\<close>, and \<open>Base64decode\<close> reads that text, whatever follows it in the
  file, as the same bytes, reports the same number of characters and leaves the rest of the file. A data type of at least 0 likewise comes back
  from its text.
\<close>

theorem base64_roundtrip:
  assumes "int (length src) * 8 + 29 \<le> 2147483647" "0 \<le> ty" "ty \<le> 2147483647"
  shows "(\<exists>out n. Base64encode src = Ok (out, n) \<and> length out = n \<and> 4 dvd n \<and>
           Base64decode (out @ rest) (length src) = Ok (n, map Some src, rest)) \<and>
         (\<exists>out r. Base64encodeDataType ty 0 = Ok (out, r) \<and> Base64decodeDataType (out @ rest) = Ok (int (length out), ty, rest))"
proof
  obtain out n where "Base64encode src = Ok (out, n)" "length out = n" "4 dvd n" using encodes[OF assms(1)] by blast
  then show "\<exists>out n. Base64encode src = Ok (out, n) \<and> length out = n \<and> 4 dvd n \<and>
               Base64decode (out @ rest) (length src) = Ok (n, map Some src, rest)"
    using encode_decode by blast
  show "\<exists>out r. Base64encodeDataType ty 0 = Ok (out, r) \<and> Base64decodeDataType (out @ rest) = Ok (int (length out), ty, rest)"
    using assms(2,3) encode_type_text[of ty 0] decode_type_text[of ty rest] by fastforce
qed

theorem base64_roundtrip_witness:
  "(\<exists>out n. Base64encode [77, 97, 255, 0] = Ok (out, n) \<and> length out = n \<and> 4 dvd n \<and>
      Base64decode (out @ '' x'') (length [77, 97, 255, 0 :: 8 word]) = Ok (n, map Some [77, 97, 255, 0], '' x'')) \<and>
   (\<exists>out r. Base64encodeDataType 130 0 = Ok (out, r) \<and> Base64decodeDataType (out @ '' x'') = Ok (int (length out), 130, '' x''))"
  using base64_roundtrip[of "[77, 97, 255, 0]" 130 "'' x''"] by (simp del: length_Cons)

text \<open>
  The result of \<open>Base64encodeDataType\<close> is not the number of characters written, which is what the other three functions count: the text of
  0 is one character, and the result is the code of it.
\<close>

lemma type_result_not_length: "Base64encodeDataType 0 0 = Ok (''A'', 65)" "Base64encodeDataType 64 0 = Ok (''=A'', 126)"
  using encode_type_text[of 0 0] encode_type_text[of 64 0] by (simp_all add: type_text_def PADDING_BYTE_def base64_def)

end
