(* ===== verification/C4SNet.thy ===== *)
theory C4SNet
  imports Base64
begin

text \<open>
  The language interface for C boxes (\<open>interfaces/c4snet/C4SNet.c\<close>): data with its C type, a reference count, and the binary form of it in
  files. Memory is a list of bytes; \<open>None\<close> is a byte that was never written. The sizes of the C types are those of the two
  platforms that the runtime system is built for: the 32-bit cores of the SCC and 64-bit hosts, both little-endian.
\<close>

section \<open>Types\<close>

datatype abi = ILP32 | LP64

datatype c4snet_vtype = VTYPE_simple | VTYPE_array | VTYPE_other int

datatype c4snet_type =
    CTYPE_uchar | CTYPE_char | CTYPE_ushort | CTYPE_short | CTYPE_uint | CTYPE_int | CTYPE_ulong | CTYPE_long
  | CTYPE_float | CTYPE_double | CTYPE_ldouble | CTYPE_other int

text \<open>The numbers of the enumerations; a decoded number may be any other one.\<close>

fun vtype_int :: "c4snet_vtype \<Rightarrow> int" where
  "vtype_int VTYPE_simple = 0"
| "vtype_int VTYPE_array = 1"
| "vtype_int (VTYPE_other i) = i"

definition int_vtype :: "int \<Rightarrow> c4snet_vtype" where
  "int_vtype i = (if i = 0 then VTYPE_simple else if i = 1 then VTYPE_array else VTYPE_other i)"

definition ctypes :: "c4snet_type list" where
  "ctypes = [CTYPE_uchar, CTYPE_char, CTYPE_ushort, CTYPE_short, CTYPE_uint, CTYPE_int, CTYPE_ulong, CTYPE_long, CTYPE_float, CTYPE_double, CTYPE_ldouble]"

fun type_int :: "c4snet_type \<Rightarrow> int" where
  "type_int CTYPE_uchar = 0" | "type_int CTYPE_char = 1" | "type_int CTYPE_ushort = 2" | "type_int CTYPE_short = 3"
| "type_int CTYPE_uint = 4" | "type_int CTYPE_int = 5" | "type_int CTYPE_ulong = 6" | "type_int CTYPE_long = 7"
| "type_int CTYPE_float = 8" | "type_int CTYPE_double = 9" | "type_int CTYPE_ldouble = 10" | "type_int (CTYPE_other i) = i"

definition int_type :: "int \<Rightarrow> c4snet_type" where
  "int_type i = (if 0 \<le> i \<and> i < 11 then ctypes ! nat i else CTYPE_other i)"

fun sizeOfType :: "abi \<Rightarrow> c4snet_type \<Rightarrow> nat res" where
  "sizeOfType a CTYPE_uchar = Ok 1"
| "sizeOfType a CTYPE_char = Ok 1"
| "sizeOfType a CTYPE_ushort = Ok 2"
| "sizeOfType a CTYPE_short = Ok 2"
| "sizeOfType a CTYPE_uint = Ok 4"
| "sizeOfType a CTYPE_int = Ok 4"
| "sizeOfType a CTYPE_ulong = Ok (case a of ILP32 \<Rightarrow> 4 | LP64 \<Rightarrow> 8)"
| "sizeOfType a CTYPE_long = Ok (case a of ILP32 \<Rightarrow> 4 | LP64 \<Rightarrow> 8)"
| "sizeOfType a CTYPE_float = Ok 4"
| "sizeOfType a CTYPE_double = Ok 8"
| "sizeOfType a CTYPE_ldouble = Ok (case a of ILP32 \<Rightarrow> 12 | LP64 \<Rightarrow> 16)"
| "sizeOfType a (CTYPE_other i) = Err FatalError"

fun sizeof_size_t :: "abi \<Rightarrow> nat" where
  "sizeof_size_t ILP32 = 4"
| "sizeof_size_t LP64 = 8"

text \<open>The union of all C types is as large as the largest of them.\<close>

fun sizeof_union :: "abi \<Rightarrow> nat" where
  "sizeof_union ILP32 = 12"
| "sizeof_union LP64 = 16"

section \<open>Bytes\<close>

fun to_bytes :: "nat \<Rightarrow> nat \<Rightarrow> 8 word list" where
  "to_bytes 0 v = []"
| "to_bytes (Suc n) v = of_nat (v mod 256) # to_bytes n (v div 256)"

fun of_bytes :: "8 word list \<Rightarrow> nat" where
  "of_bytes [] = 0"
| "of_bytes (b # bs) = unat b + 256 * of_bytes bs"

text \<open>The first \<open>n\<close> bytes of a block are read.\<close>

definition load :: "8 word arr \<Rightarrow> nat \<Rightarrow> 8 word list res" where
  "load m n = mapR (arr_read m) [0..<n]"

section \<open>Data\<close>

text \<open>The union holds a pointer to a block of its own or the bytes of a simple datum.\<close>

datatype c4snet_primary_type = Bytes "8 word arr" | Ptr "8 word arr"

record cdata =
  ref_count :: "32 word"
  vtype :: c4snet_vtype
  csize :: "8 word arr"
  ctype :: c4snet_type
  cdat :: c4snet_primary_type

definition C4SNetGetType :: "cdata \<Rightarrow> c4snet_type" where
  "C4SNetGetType c = ctype c"

definition C4SNetSizeof :: "abi \<Rightarrow> cdata \<Rightarrow> nat res" where
  "C4SNetSizeof a c = sizeOfType a (ctype c)"

definition C4SNetArraySize :: "abi \<Rightarrow> cdata \<Rightarrow> nat res" where
  "C4SNetArraySize a c = bindR (load (csize c) (sizeof_size_t a)) (\<lambda>bs. Ok (of_bytes bs))"

definition AllocatedSpace :: "abi \<Rightarrow> cdata \<Rightarrow> nat res" where
  "AllocatedSpace a c =
     (if vtype c = VTYPE_array
      then bindR (C4SNetArraySize a c) (\<lambda>n. bindR (C4SNetSizeof a c) (\<lambda>k. Ok ((n * k) mod 256 ^ sizeof_size_t a)))
      else Ok 0)"

definition C4SNetGetData :: "cdata \<Rightarrow> 8 word arr res" where
  "C4SNetGetData c =
     (if vtype c = VTYPE_array then (case cdat c of Ptr m \<Rightarrow> Ok m | Bytes m \<Rightarrow> Err BadUnion)
      else (case cdat c of Bytes m \<Rightarrow> Ok m | Ptr m \<Rightarrow> Err BadUnion))"

definition size_t_bytes :: "abi \<Rightarrow> nat \<Rightarrow> 8 word arr" where
  "size_t_bytes a n = map Some (to_bytes (sizeof_size_t a) n)"

definition C4SNetAlloc :: "abi \<Rightarrow> c4snet_type \<Rightarrow> nat \<Rightarrow> cdata res" where
  "C4SNetAlloc a ty n =
     (let c = \<lparr>ref_count = 1, vtype = (if n = 1 then VTYPE_simple else VTYPE_array), csize = size_t_bytes a n, ctype = ty,
               cdat = Bytes (arr_alloc (sizeof_union a))\<rparr> in
      if n = 1 then Ok c else bindR (AllocatedSpace a c) (\<lambda>k. Ok (c\<lparr>cdat := Ptr (arr_alloc k)\<rparr>)))"

definition C4SNetCreate :: "abi \<Rightarrow> c4snet_type \<Rightarrow> nat \<Rightarrow> 8 word arr \<Rightarrow> cdata res" where
  "C4SNetCreate a ty n dat =
     (let c = \<lparr>ref_count = 1, vtype = (if n = 1 then VTYPE_simple else VTYPE_array), csize = size_t_bytes a n, ctype = ty,
               cdat = Bytes (arr_alloc (sizeof_union a))\<rparr> in
      if n = 1 then
        bindR (C4SNetSizeof a c) (\<lambda>k. bindR (mem_cpy (arr_alloc (sizeof_union a)) 0 dat 0 k) (\<lambda>m. Ok (c\<lparr>cdat := Bytes m\<rparr>)))
      else
        bindR (AllocatedSpace a c) (\<lambda>k. bindR (mem_cpy (arr_alloc k) 0 dat 0 k) (\<lambda>m. Ok (c\<lparr>cdat := Ptr m\<rparr>))))"

definition C4SNetDeepCopy :: "abi \<Rightarrow> cdata \<Rightarrow> cdata res" where
  "C4SNetDeepCopy a c = bindR (C4SNetArraySize a c) (\<lambda>n. bindR (C4SNetGetData c) (C4SNetCreate a (ctype c) n))"

text \<open>The characters of a text with the final zero.\<close>

definition C4SNetGetString :: "abi \<Rightarrow> cdata \<Rightarrow> 8 word arr res" where
  "C4SNetGetString a c =
     (if ctype c \<noteq> CTYPE_char \<and> ctype c \<noteq> CTYPE_uchar then Err FatalError
      else bindR (C4SNetArraySize a c) (\<lambda>n. bindR (C4SNetGetData c) (\<lambda>m.
           bindR (mem_cpy (arr_alloc (n + 1)) 0 m 0 n) (\<lambda>s. arr_write s n 0))))"

section \<open>Reference counting\<close>

text \<open>A datum in memory, \<open>None\<close> when it was freed. The count is changed by atomic operations.\<close>

definition C4SNetShallowCopy :: "cdata option \<Rightarrow> cdata option res" where
  "C4SNetShallowCopy d = (case d of None \<Rightarrow> Err UseAfterFree | Some c \<Rightarrow> Ok (Some (c\<lparr>ref_count := ref_count c + 1\<rparr>)))"

definition C4SNetFree :: "cdata option \<Rightarrow> cdata option res" where
  "C4SNetFree d =
     (case d of None \<Rightarrow> Err UseAfterFree
      | Some c \<Rightarrow>
          let refs = ref_count c; c = c\<lparr>ref_count := refs - 1\<rparr> in
          bindR (assertR (refs > 0)) (\<lambda>_. Ok (if refs = 1 then None else Some c)))"

section \<open>Binary form\<close>

text \<open>
  The lengths that \<open>Base64encode\<close> and \<open>Base64decode\<close> take are of type \<open>int\<close>; a block that is too large for one is an error of the
  model.
\<close>

definition int_length :: "nat \<Rightarrow> nat res" where
  "int_length n = bindR (c_int (int n)) (\<lambda>_. Ok n)"

definition encode_block :: "8 word arr \<Rightarrow> nat \<Rightarrow> string res" where
  "encode_block m n = bindR (int_length n) (\<lambda>n. bindR (load m n) (\<lambda>bs. bindR (Base64encode bs) (\<lambda>(s, _). Ok s)))"

definition decode_block :: "string \<Rightarrow> nat \<Rightarrow> (8 word arr \<times> string) res" where
  "decode_block file n = bindR (int_length n) (\<lambda>n. bindR (Base64decode file n) (\<lambda>(_, m, file). Ok (m, file)))"

definition C4SNetEncode :: "abi \<Rightarrow> cdata \<Rightarrow> string res" where
  "C4SNetEncode a c =
     bindR (Base64encodeDataType (vtype_int (vtype c)) 0) (\<lambda>(s1, _).
     bindR (encode_block (csize c) 4) (\<lambda>s2.
     bindR (Base64encodeDataType (type_int (ctype c)) 0) (\<lambda>(s3, _).
     bindR (if vtype c = VTYPE_array then AllocatedSpace a c else C4SNetSizeof a c) (\<lambda>n.
     bindR (C4SNetGetData c) (\<lambda>m.
     bindR (encode_block m n) (\<lambda>s4. Ok (s1 @ s2 @ s3 @ s4)))))))"

text \<open>Only \<open>sizeof(int)\<close> bytes of the size are decoded into a new structure.\<close>

definition C4SNetDecode :: "abi \<Rightarrow> string \<Rightarrow> (cdata \<times> string) res" where
  "C4SNetDecode a file =
     bindR (Base64decodeDataType file) (\<lambda>(_, v, file).
     bindR (decode_block file 4) (\<lambda>(sz, file).
     bindR (Base64decodeDataType file) (\<lambda>(_, t, file).
     let c = \<lparr>ref_count = 1, vtype = int_vtype v, csize = sz @ arr_alloc (sizeof_size_t a - 4), ctype = int_type t,
              cdat = Bytes (arr_alloc (sizeof_union a))\<rparr> in
     if vtype c = VTYPE_array then
       bindR (AllocatedSpace a c) (\<lambda>n. bindR (decode_block file n) (\<lambda>(m, file). Ok (c\<lparr>cdat := Ptr m\<rparr>, file)))
     else
       bindR (C4SNetSizeof a c) (\<lambda>n. bindR (decode_block file n) (\<lambda>(m, file). Ok (c\<lparr>cdat := Bytes (m @ arr_alloc (sizeof_union a - n))\<rparr>, file))))))"

section \<open>Memory\<close>

lemma length_to_bytes [simp]: "length (to_bytes n v) = n"
  by (induction n arbitrary: v) auto

lemma of_bytes_to_bytes: "of_bytes (to_bytes n v) = v mod 256 ^ n"
proof (induction n arbitrary: v)
  case (Suc n)
  have "unat (of_nat (v mod 256) :: 8 word) = v mod 256" by (simp add: unat_of_nat)
  with Suc[of "v div 256"] show ?case by (simp add: mod_mult2_eq)
qed simp

lemma to_bytes_append: "to_bytes (m + n) v = to_bytes m v @ to_bytes n (v div 256 ^ m)"
  by (induction m arbitrary: v) (simp_all add: div_mult2_eq)

lemma load_filled: "load (map Some bs @ r) (length bs) = Ok bs"
proof -
  have "load (map Some bs @ r) (length bs) = Ok (map ((!) bs) [0..<length bs])"
    unfolding load_def by (rule mapR_Ok) (simp add: nth_append)
  then show ?thesis by (simp add: map_nth)
qed

lemma mapR_append: "mapR f (xs @ ys) = bindR (mapR f xs) (\<lambda>us. bindR (mapR f ys) (\<lambda>vs. Ok (us @ vs)))"
  by (induction xs) (simp_all add: bindR_assoc bindR_Ok_right)

lemma load_short:
  assumes "length bs < n" "n \<le> length bs + k"
  shows "load (map Some bs @ arr_alloc k) n = Err UninitRead"
proof -
  have "arr_read (map Some bs @ arr_alloc k) (length bs) = Err UninitRead"
    using assms by (simp add: arr_read_def nth_append arr_alloc_def)
  moreover have "[0..<n] = [0..<length bs] @ length bs # [Suc (length bs)..<n]"
    using assms(1) by (metis le_add1 less_imp_le plus_nat.add_0 upt_conv_Cons upt_add_eq_append le_add_diff_inverse)
  moreover have "mapR (arr_read (map Some bs @ arr_alloc k)) [0..<length bs] = Ok bs"
    using load_filled by (simp add: load_def)
  ultimately show ?thesis unfolding load_def by (simp add: mapR_append)
qed

lemma array_size: "csize c = size_t_bytes a n \<Longrightarrow> C4SNetArraySize a c = Ok (n mod 256 ^ sizeof_size_t a)"
  using load_filled[of "to_bytes (sizeof_size_t a) n" "[]"] by (simp add: C4SNetArraySize_def size_t_bytes_def of_bytes_to_bytes)

lemma sizeof_pos: "sizeOfType a ty = Ok k \<Longrightarrow> 0 < k \<and> k \<le> sizeof_union a"
  by (cases ty; cases a) auto

section \<open>Created data\<close>

text \<open>The structure for \<open>n\<close> items of a type with the bytes \<open>bs\<close>.\<close>

definition datum :: "abi \<Rightarrow> c4snet_type \<Rightarrow> nat \<Rightarrow> 8 word list \<Rightarrow> cdata" where
  "datum a ty n bs =
     \<lparr>ref_count = 1, vtype = (if n = 1 then VTYPE_simple else VTYPE_array), csize = size_t_bytes a n, ctype = ty,
      cdat = (if n = 1 then Bytes (map Some bs @ arr_alloc (sizeof_union a - length bs)) else Ptr (map Some bs))\<rparr>"

text \<open>The number of bytes fits the number of items and the address space.\<close>

definition fits :: "abi \<Rightarrow> c4snet_type \<Rightarrow> nat \<Rightarrow> 8 word list \<Rightarrow> bool" where
  "fits a ty n bs \<longleftrightarrow> sizeOfType a ty \<noteq> Err FatalError \<and> length bs = n * (case sizeOfType a ty of Ok k \<Rightarrow> k | Err e \<Rightarrow> 0) \<and> length bs < 256 ^ 4"

lemma fitsE:
  assumes "fits a ty n bs"
  obtains k where "sizeOfType a ty = Ok k" "0 < k" "k \<le> sizeof_union a" "length bs = n * k" "length bs < 256 ^ sizeof_size_t a" "n < 256 ^ sizeof_size_t a" "n < 256 ^ 4"
proof -
  obtain k where k: "sizeOfType a ty = Ok k" using assms by (cases ty) (auto simp: fits_def)
  then have pos: "0 < k" "k \<le> sizeof_union a" and len: "length bs = n * k" "length bs < 256 ^ 4"
    using sizeof_pos assms by (auto simp: fits_def)
  have "n \<le> n * k" using pos(1) by simp
  with len have "n < 256 ^ 4" by linarith
  moreover have "(256 ^ 4 :: nat) \<le> 256 ^ sizeof_size_t a" by (cases a) simp_all
  ultimately show thesis using that[OF k pos len(1)] len(2) by linarith
qed

lemma allocated: "fits a ty n bs \<Longrightarrow> n \<noteq> 1 \<Longrightarrow> vtype c = VTYPE_array \<Longrightarrow> ctype c = ty \<Longrightarrow> csize c = size_t_bytes a n \<Longrightarrow> AllocatedSpace a c = Ok (length bs)"
  by (erule fitsE) (simp add: AllocatedSpace_def array_size C4SNetSizeof_def)

lemma create: "fits a ty n bs \<Longrightarrow> C4SNetCreate a ty n (map Some bs @ r) = Ok (datum a ty n bs)"
proof (cases "n = 1")
  case True
  assume "fits a ty n bs"
  then obtain k where "sizeOfType a ty = Ok k" "k \<le> sizeof_union a" "length bs = k" using True by (auto elim: fitsE)
  then show ?thesis by (simp add: True C4SNetCreate_def datum_def C4SNetSizeof_def Let_def arr_alloc_def)
next
  case False
  assume "fits a ty n bs"
  with False show ?thesis by (simp add: C4SNetCreate_def datum_def Let_def allocated[of a ty n bs])
qed

lemma deep_copy: "fits a ty n bs \<Longrightarrow> C4SNetDeepCopy a (datum a ty n bs) = Ok (datum a ty n bs)"
  using array_size[of "datum a ty n bs" a n] create[of a ty n bs "[]"] create[of a ty n bs "arr_alloc (sizeof_union a - length bs)"]
  by (auto simp: C4SNetDeepCopy_def C4SNetGetData_def datum_def elim!: fitsE)

section \<open>Encoding\<close>

lemma encode_block_Ok:
  assumes "int (length bs) * 8 + 29 \<le> 2147483647"
  shows "\<exists>s. encode_block (map Some bs @ r) (length bs) = Ok s \<and> (\<forall>rest. decode_block (s @ rest) (length bs) = Ok (map Some bs, rest))"
proof -
  obtain s n where enc: "Base64encode bs = Ok (s, n)" using encodes[OF assms] by blast
  have "int_range (int (length bs))" using assms by (simp add: int_range_def)
  then have len: "int_length (length bs) = Ok (length bs)" by (simp add: int_length_def c_int_in_range)
  show ?thesis
    by (simp add: encode_block_def decode_block_def len load_filled enc encode_decode[OF enc])
qed

lemma int_vtype_int [simp]: "int_vtype 0 = VTYPE_simple" "int_vtype 1 = VTYPE_array"
  by (simp_all add: int_vtype_def)

lemma int_type_int: "sizeOfType a ty = Ok k \<Longrightarrow> int_type (type_int ty) = ty \<and> 0 \<le> type_int ty \<and> type_int ty \<le> 2147483647"
  by (cases ty) (auto simp: int_type_def ctypes_def)

lemma type_text_Ok:
  assumes "0 \<le> ty" "ty \<le> 2147483647"
  shows "\<exists>s r. Base64encodeDataType ty 0 = Ok (s, r) \<and> (\<forall>rest. Base64decodeDataType (s @ rest) = Ok (int (length s), ty, rest))"
proof -
  have "61 * (ty div 64) + 122 \<le> 2147483647" using assms by auto
  with assms show ?thesis using encode_type_text[of ty 0] decode_type_text[of ty] by auto
qed

text \<open>The text of created data, and what its four parts decode to.\<close>

lemma encode_datum:
  assumes fits: "fits a ty n bs" and small: "int (length bs) * 8 + 29 \<le> 2147483647"
  shows "\<exists>s1 s2 s3 s4. C4SNetEncode a (datum a ty n bs) = Ok (s1 @ s2 @ s3 @ s4) \<and>
    (\<forall>rest. Base64decodeDataType (s1 @ rest) = Ok (int (length s1), if n = 1 then 0 else 1, rest)) \<and>
    (\<forall>rest. decode_block (s2 @ rest) 4 = Ok (map Some (to_bytes 4 n), rest)) \<and>
    (\<forall>rest. Base64decodeDataType (s3 @ rest) = Ok (int (length s3), type_int ty, rest)) \<and>
    (\<forall>rest. decode_block (s4 @ rest) (length bs) = Ok (map Some bs, rest))"
proof -
  let ?c = "datum a ty n bs" and ?v = "if n = 1 then 0 else 1 :: int"
  from fits obtain k where k: "sizeOfType a ty = Ok k" "length bs = n * k" by (auto elim: fitsE)
  have "0 \<le> ?v" "?v \<le> 2147483647" by simp_all
  from type_text_Ok[OF this] obtain s1 r1 where s1: "Base64encodeDataType ?v 0 = Ok (s1, r1)" "\<And>rest. Base64decodeDataType (s1 @ rest) = Ok (int (length s1), ?v, rest)"
    by blast
  obtain s3 r3 where s3: "Base64encodeDataType (type_int ty) 0 = Ok (s3, r3)"
    "\<And>rest. Base64decodeDataType (s3 @ rest) = Ok (int (length s3), type_int ty, rest)"
    using type_text_Ok[of "type_int ty"] int_type_int[OF k(1)] by auto
  have four: "size_t_bytes a n = map Some (to_bytes 4 n) @ map Some (to_bytes (sizeof_size_t a - 4) (n div 256 ^ 4))"
    using to_bytes_append[of 4 "sizeof_size_t a - 4" n] by (cases a) (simp_all add: size_t_bytes_def)
  obtain s2 where s2: "encode_block (size_t_bytes a n) 4 = Ok s2" "\<And>rest. decode_block (s2 @ rest) 4 = Ok (map Some (to_bytes 4 n), rest)"
    using encode_block_Ok[of "to_bytes 4 n" "map Some (to_bytes (sizeof_size_t a - 4) (n div 256 ^ 4))"] by (auto simp: four)
  let ?r = "if n = 1 then arr_alloc (sizeof_union a - length bs) else []"
  have dat: "C4SNetGetData ?c = Ok (map Some bs @ ?r)" by (simp add: C4SNetGetData_def datum_def)
  obtain s4 where s4: "encode_block (map Some bs @ ?r) (length bs) = Ok s4" "\<And>rest. decode_block (s4 @ rest) (length bs) = Ok (map Some bs, rest)"
    using encode_block_Ok[OF small, of ?r] by blast
  have len: "(if vtype ?c = VTYPE_array then AllocatedSpace a ?c else C4SNetSizeof a ?c) = Ok (length bs)"
    using k allocated[OF fits, of ?c] by (auto simp: datum_def C4SNetSizeof_def)
  have "C4SNetEncode a ?c = Ok (s1 @ s2 @ s3 @ s4)"
    unfolding C4SNetEncode_def len dat using s1(1) s2(1) s3(1) s4(1) by (auto simp: datum_def)
  then show ?thesis using s1(2) s2(2) s3(2) s4(2) by blast
qed

lemma decode_datum:
  assumes fits: "fits ILP32 ty n bs" and small: "int (length bs) * 8 + 29 \<le> 2147483647"
  shows "\<exists>s. C4SNetEncode ILP32 (datum ILP32 ty n bs) = Ok s \<and> (\<forall>rest. C4SNetDecode ILP32 (s @ rest) = Ok (datum ILP32 ty n bs, rest))"
proof -
  obtain s1 s2 s3 s4 where enc: "C4SNetEncode ILP32 (datum ILP32 ty n bs) = Ok (s1 @ s2 @ s3 @ s4)"
    and dec: "\<And>rest. Base64decodeDataType (s1 @ rest) = Ok (int (length s1), if n = 1 then 0 else 1, rest)"
    "\<And>rest. decode_block (s2 @ rest) 4 = Ok (map Some (to_bytes 4 n), rest)"
    "\<And>rest. Base64decodeDataType (s3 @ rest) = Ok (int (length s3), type_int ty, rest)"
    "\<And>rest. decode_block (s4 @ rest) (length bs) = Ok (map Some bs, rest)"
    using encode_datum[OF assms] by blast
  from fits obtain k where k: "sizeOfType ILP32 ty = Ok k" "length bs = n * k" by (auto elim: fitsE)
  have sz: "map Some (to_bytes 4 n) = size_t_bytes ILP32 n" by (simp add: size_t_bytes_def)
  have "C4SNetDecode ILP32 ((s1 @ s2 @ s3 @ s4) @ rest) = Ok (datum ILP32 ty n bs, rest)" for rest
    using k(1) dec(4)[unfolded k(2)] by (auto simp: C4SNetDecode_def dec(1-3) k(2) int_type_int[OF k(1)] sz allocated[OF fits] C4SNetSizeof_def datum_def arr_alloc_def)
  with enc show ?thesis by blast
qed

text \<open>On a 64-bit host the upper half of the size is not decoded.\<close>

lemma decode_size_incomplete:
  assumes fits: "fits LP64 ty n bs" and small: "int (length bs) * 8 + 29 \<le> 2147483647"
  shows "let half = map Some (to_bytes 4 n) @ arr_alloc 4 in \<exists>s. C4SNetEncode LP64 (datum LP64 ty n bs) = Ok s \<and>
     (if n = 1 then C4SNetDecode LP64 (s @ rest) = Ok ((datum LP64 ty n bs)\<lparr>csize := half\<rparr>, rest) \<and>
        C4SNetArraySize LP64 ((datum LP64 ty n bs)\<lparr>csize := half\<rparr>) = Err UninitRead
      else C4SNetDecode LP64 (s @ rest) = Err UninitRead)"
proof -
  obtain s1 s2 s3 s4 where enc: "C4SNetEncode LP64 (datum LP64 ty n bs) = Ok (s1 @ s2 @ s3 @ s4)"
    and dec: "\<And>rest. Base64decodeDataType (s1 @ rest) = Ok (int (length s1), if n = 1 then 0 else 1, rest)"
    "\<And>rest. decode_block (s2 @ rest) 4 = Ok (map Some (to_bytes 4 n), rest)"
    "\<And>rest. Base64decodeDataType (s3 @ rest) = Ok (int (length s3), type_int ty, rest)"
    "\<And>rest. decode_block (s4 @ rest) (length bs) = Ok (map Some bs, rest)"
    using encode_datum[OF assms] by blast
  let ?half = "map Some (to_bytes 4 n) @ arr_alloc 4"
  from fits obtain k where k: "sizeOfType LP64 ty = Ok k" "length bs = n * k" by (auto elim: fitsE)
  have half: "load (map Some (to_bytes 4 n) @ arr_alloc 4) 8 = Err UninitRead" for n by (rule load_short) simp_all
  have "if n = 1 then C4SNetDecode LP64 ((s1 @ s2 @ s3 @ s4) @ rest) = Ok ((datum LP64 ty n bs)\<lparr>csize := ?half\<rparr>, rest) \<and>
        C4SNetArraySize LP64 ((datum LP64 ty n bs)\<lparr>csize := ?half\<rparr>) = Err UninitRead
        else C4SNetDecode LP64 ((s1 @ s2 @ s3 @ s4) @ rest) = Err UninitRead"
    using k(1) dec(4)[unfolded k(2)]
    by (auto simp: C4SNetDecode_def dec(1-3) k(2) int_type_int[OF k(1)] C4SNetSizeof_def AllocatedSpace_def C4SNetArraySize_def half datum_def)
  with enc show ?thesis unfolding Let_def by blast
qed

section \<open>Uses of shared data\<close>

text \<open>A holder of the datum copies or frees it. \<open>holders\<close> counts those that are left; only a holder can do either.\<close>

datatype c4_use = Copy | Free

definition c4_step :: "cdata option \<Rightarrow> c4_use \<Rightarrow> cdata option res" where
  "c4_step d u = (case u of Copy \<Rightarrow> C4SNetShallowCopy d | Free \<Rightarrow> C4SNetFree d)"

fun holders :: "nat \<Rightarrow> c4_use list \<Rightarrow> nat option" where
  "holders n [] = Some n"
| "holders n (Copy # us) = (if n = 0 then None else holders (n + 1) us)"
| "holders n (Free # us) = (if n = 0 then None else holders (n - 1) us)"

lemma word_positive: "0 < n \<Longrightarrow> n < 2 ^ 32 \<Longrightarrow> (0 :: 32 word) < of_nat n \<and> ((of_nat n :: 32 word) = 1 \<longleftrightarrow> n = 1)"
  by (auto simp: word_less_nat_alt unat_of_nat word_unat_eq_iff)

lemma uses_counted:
  assumes "holders n us = Some m" "0 < n" "n + length us < 2 ^ 32"
  shows "foldR c4_step (Some (c\<lparr>ref_count := of_nat n\<rparr>)) us = Ok (if m = 0 then None else Some (c\<lparr>ref_count := of_nat m\<rparr>))"
  using assms
proof (induction n us rule: holders.induct)
  case (2 n us)
  then show ?case by (simp add: c4_step_def C4SNetShallowCopy_def add.commute)
next
  case (3 n us)
  show ?case
  proof (cases "n = 1")
    case True
    then have "us = []" "m = 0" using 3(2) by (cases us rule: list.exhaust; simp; cases "hd us"; simp)+
    with True show ?thesis by (simp add: c4_step_def C4SNetFree_def)
  next
    case False
    with 3 word_positive[of n] show ?thesis by (simp add: c4_step_def C4SNetFree_def Let_def of_nat_diff)
  qed
qed simp

section \<open>Properties\<close>

text \<open>
  C40. On the 32-bit platform data survives the binary form: what \<open>C4SNetCreate\<close> makes of \<open>n\<close> items of a C type is encoded, and
  \<open>C4SNetDecode\<close> gives the same structure with the same bytes and leaves the rest of the file; a deep copy is equal too.
\<close>

theorem c4snet_roundtrip:
  assumes "fits ILP32 ty n bs" "int (length bs) * 8 + 29 \<le> 2147483647"
  shows "\<exists>c s. C4SNetCreate ILP32 ty n (map Some bs) = Ok c \<and> C4SNetEncode ILP32 c = Ok s \<and>
           C4SNetDecode ILP32 (s @ rest) = Ok (c, rest) \<and> C4SNetDeepCopy ILP32 c = Ok c"
  using create[OF assms(1), of "[]"] decode_datum[OF assms] deep_copy[OF assms(1)] by auto

theorem c4snet_roundtrip_witness:
  "\<exists>c s. C4SNetCreate ILP32 CTYPE_ushort 2 (map Some [1, 2, 3, 4]) = Ok c \<and> C4SNetEncode ILP32 c = Ok s \<and>
     C4SNetDecode ILP32 (s @ ''</field>'') = Ok (c, ''</field>'') \<and> C4SNetDeepCopy ILP32 c = Ok c"
  by (rule c4snet_roundtrip) (simp_all add: fits_def)

text \<open>
  However the holders of a datum copy and free it, as long as only holders do, no use fails, and the memory is released exactly when
  the last of them frees it.
\<close>

lemma c4snet_refcount:
  assumes "holders 1 us = Some m" "length us < 2 ^ 32 - 1" "ref_count c = 1"
  shows "foldR c4_step (Some c) us = Ok (if m = 0 then None else Some (c\<lparr>ref_count := of_nat m\<rparr>))"
proof -
  have "c\<lparr>ref_count := 1\<rparr> = c" using assms(3) by (cases c) simp
  then show ?thesis using uses_counted[of 1 us m c] assms(1,2) by simp
qed

lemma shared_use_example:
  "foldR c4_step (Some (datum ILP32 CTYPE_int 1 [1, 0, 0, 0])) [Copy, Copy, Free, Copy, Free, Free, Free] = Ok None"
  using c4snet_refcount[of "[Copy, Copy, Free, Copy, Free, Free, Free]" 0 "datum ILP32 CTYPE_int 1 [1, 0, 0, 0]"] by (simp add: datum_def)

end
