(* ===== verification/Spec2Isabelle.thy ===== *)
theory Spec2Isabelle
  imports SCC_Ring Expression Hashtab Hashtable Queue Bitmap Snet_Stream Streamset Syncro Split Star Feedback_Buffer Snet_Box Ref_Protocol Input_Manager Output_Manager C4SNet
begin

text \<open>
  A verification development of the S-Net runtime system (\<open>src/\<close>). S-Net programs are networks of
  boxes that are connected by streams of records; the runtime creates an entity for every box and
  combinator and runs it as a task that reads records from its input streams and writes records to
  its output streams.

  \<^bold>\<open>Conventions.\<close> C functions are functions with explicit state. An operation that can fail returns
  a value of \<open>'a res\<close> (theory \<open>Prelude\<close>): \<open>Ok x\<close> or \<open>Err e\<close>, where \<open>e\<close> tells what happened: a failed
  assertion, a fatal error, an access outside an array, the use of an uninitialised cell, a NULL
  dereference, a signed overflow. Integers that carry data are kept at their width: an \<open>int\<close> of the C code is \<open>int\<close> with a
  range check (\<open>c_int\<close>) where the value is computed (tags, expressions, counters of the reference protocol, destinations); bytes and the unsigned counters of the
  input manager and of C data are words. Sizes, indices and element counts of containers (lists, maps, the queue, the two hash tables, the bitmap, streams) are natural numbers
  in the definitions the other components use. For the lists, the queue and the quadratic hash table the theories have a second version of the operations
  on the machine integers of the code (sections \<open>Machine integers\<close>; \<open>int\<close> with range checks for lists and hash table, 32-bit words that wrap around for the queue), a refinement lemma with the bounds
  under which both agree, and the properties are stated over this version. For maps, bitmaps and streams the sizes are not bounded. Arrays are lists of optional cells (\<open>'a arr\<close>),
  NULL for a cell that was never written. Loops over arrays are recursions over indices; where the C
  loop has no bound of its own, the recursion has a fuel argument that the lemmas show to be enough.

  \<^bold>\<open>Data structures.\<close>
  \<^item> \<open>List_Template\<close> and \<open>Map_Template\<close> (\<open>include/list-template.c\<close>, \<open>include/map-template.c\<close>): the ring
    buffer lists and the association maps that every component instantiates. Lemmas relate each
    operation to sequences (\<open>Fifo_Spec\<close>) and partial maps (\<open>Map_Spec\<close>).
  \<^item> \<open>Variant\<close>, \<open>Snet_Record\<close>, \<open>Expression\<close> (\<open>runtime/common\<close>): record types, records with flow inheritance
    and pattern matching, filter expressions with their evaluation.
  \<^item> \<open>Hashtab\<close>, \<open>Hashtable\<close>, \<open>Queue\<close>, \<open>Bitmap\<close>, \<open>Locvec\<close> (\<open>runtime/stream/utils\<close>): quadratic probing, chained
    hashing, the ordered queue, the bitmap and the location vectors that name entities.
  \<^item> \<open>Snet_Info\<close> (\<open>runtime/common/info.c\<close>): the context of network creation.

  \<^bold>\<open>Streams.\<close> \<open>Snet_Stream\<close> models the bounded channels of \<open>threading/pthread/stream.c\<close>: the operations
  on the ring buffer, and their interleavings with the condition variables as a step relation.
  \<open>Streamset\<close> has the circular linked lists of \<open>threading/pthread/streamset.c\<close> with an explicit store.

  \<^bold>\<open>Entities.\<close> A task is a function of one record (\<open>_round\<close>) that returns the actions on its streams;
  \<open>run_task\<close> in \<open>Entity\<close> iterates it until the task ends.
  \<^item> \<open>Snet_Box\<close> (\<open>entity/box.c\<close>, \<open>entity/out.c\<close>, \<open>shared/handle.c\<close>): the box task; the box function is an argument and
    calls the output functions. A round writes the records of the outputs with flow inheritance in order, and the two output functions agree.
  \<^item> \<open>Snet_Filter\<close>, \<open>Syncro\<close>: filters, name shift and the synchrocell.
  \<^item> \<open>Parallel\<close>, \<open>Collector\<close>: routing to the best matching branch, and the merge of streams. The arrival of records at the collector
    is a step relation; the lemmas show which sequences can come out and that the deterministic composition keeps the order.
  \<^item> \<open>Split\<close>, \<open>Star\<close>: replication in parallel and in series, with the creation of instances at run time, termination and the
    handover of a stream when an instance removes itself.
  \<^item> \<open>Feedback\<close>, \<open>Feedback_Buffer\<close>: the feedback combinator as a loop of collector, operand and dispatcher, which computes the closure of the operand, and the
    buffer in the back channel, which is a queue.

  \<^bold>\<open>Creation.\<close> \<open>Network\<close> models the creation functions of all combinators on a world of streams, location
  vectors and entities, and \<open>Wiring\<close> how the streams connect the entities. The distribution layer is an
  argument (locale \<open>distribution\<close>); its instance there is \<open>distrib/nodist\<close>.

  \<^bold>\<open>Distribution.\<close>
  \<^item> \<open>SCC_Ring\<close>, \<open>Record_Transport\<close> (\<open>distrib/scc\<close>): the message passing buffer and the serialisation of records through it.
    A record that fits into the free part of the buffer arrives with its labels, behind what was in the buffer before.
  \<^item> \<open>Distrib_Common\<close> (\<open>distrib/common/distribcommon.c\<close>): every node numbers the crossings between nodes while it creates the network;
    two nodes that make the same routing calls give the ends of a crossing the same destination. \<open>Map_Key\<close> lifts the map lemmas to maps that compare a part of the key, such as destinations.
  \<^item> \<open>Input_Manager\<close> (\<open>imanager.c\<close>): the thread that receives records, with the callbacks of the readers of its streams. A state machine at the
    granularity of the two mutexes; order, flow control, absence of deadlock and bounds hold for all schedules.
  \<^item> \<open>Output_Manager\<close> (\<open>omanager.c\<close>): the thread that sends records; no wake-up is lost, streams move between the sets of polled and
    blocked streams, and two races in the handling of flow control messages are exhibited as schedules.
  \<^item> \<open>Reference\<close>, \<open>Ref_Protocol\<close> (\<open>reference.c\<close>, \<open>interface_functions.c\<close>): reference counts of field data within one node, and the protocol between
    nodes as steps with messages under way. The order of delivery is a parameter: messages to a node are taken in the order they were written (\<open>In_Order\<close>, as from the ring of an
    SCC node), or in any order (\<open>Any_Order\<close>, which covers MPI, where only the messages of one sender keep their order). The counts agree and the shutdown is clean for any order; that data is kept
    as long as it is referred to needs \<open>In_Order\<close>, and \<open>ref_overtaking\<close> shows how an update that overtakes another one frees data in use.

  \<^bold>\<open>Box languages.\<close> \<open>Base64\<close> and \<open>C4SNet\<close> (\<open>interfaces/c4snet\<close>): the data of boxes written in C, with its memory as bytes: creation, copies,
  reference counting, and the binary form in files as base64 text, which decodes to the same data.

  \<^bold>\<open>Interfaces.\<close> The locales are \<open>fifo\<close> and \<open>unbounded_fifo\<close> (interpreted by the ring buffer lists, the queue and the streams), \<open>machine_fifo\<close> (lists and queue on machine integers), \<open>map_store\<close> and
  \<open>map_read\<close> (maps, the hash table and creation contexts), \<open>distribution\<close> (the distribution layer that creation needs), \<open>startup_fun\<close> and
  \<open>operand_fun\<close> (what creation needs of a startup function), \<open>wired_fun\<close> (what wiring needs of it) and \<open>pack_channel\<close> and \<open>bounded_channel\<close> (what the serialisation of
  records needs of a channel, without and with a limit of its room; the SCC ring provides both).

  \<^bold>\<open>Fuel and bounds.\<close> Fuel arguments occur where a C loop follows pointers or probes a table: the search in a stream set
  (fuel at least the size of the set), hash probing (fuel the size of the table), the feedback loop and the tasks. The lemmas about these functions state that
  this much fuel gives a result. Loops over lists, maps and messages recurse on the data. Schedules are finite lists of events of any length.
  Counters of C type \<open>int\<close> report an overflow as \<open>SignedOverflow\<close>; where a statement excludes it, the bound is a hypothesis.

  \<^bold>\<open>Not modelled.\<close> The observers (text output to sockets and files), the parser and the input and output of the network
  interface (generated code and formatted I/O), the LPEL threading back end with its monitoring (calls of an external library; the pthread back end is modelled
  instead), the front runtime (a second runtime system with data structures of its own), the interface to SAC (function pointers into
  an external runtime), the text form of C data (\<open>printf\<close> and \<open>scanf\<close> formats), the MPI calls, memory allocation and page remapping on the SCC (device files and inline assembler) with the
  variants of the reference functions in \<open>sccref.c\<close> that remap pages, example programs and tests. Memory that is only freed is not tracked, except where a statement is about it.
\<close>

end
